(* ===== verification/Prelude.thy ===== *)
theory Prelude
  imports Complex_Main "HOL-Library.List_Lexorder" "HOL-Library.Char_ord" "HOL-Library.AList"
    "HOL-Library.Multiset"
begin

text \<open>
  What every component shares: Python strings, dictionaries and sets as HOL data, results
  that carry an error, and the lemmas on them that the component proofs use.

  A Python \<open>str\<close> is a \<open>string\<close> whose characters are its code points; the model covers
  strings over the code points below 256. \<open>List_Lexorder\<close> and \<open>Char_ord\<close> order them as
  Python orders strings, by code point. A \<open>dict\<close> is an association list in insertion
  order: \<open>map_of\<close> reads it, \<open>AList.update\<close> writes it (an existing key keeps its place, a new
  one goes to the end, as in Python). A \<open>set\<close> or \<open>frozenset\<close> is a HOL set where only
  membership matters; \<open>sorted(set(xs))\<close> is \<open>sorted_set xs\<close>.
\<close>

named_theorems dict_simps \<open>lookups in association lists\<close>
named_theorems inv_intros \<open>introduction rules of the component invariants\<close>

type_synonym node_id = string
type_synonym 'v pydict = "(string \<times> 'v) list"
type_synonym ('e, 'a) result = "'e + 'a"

subsection \<open>Errors\<close>

text \<open>
  The error taxonomy of \<open>core/errors.py\<close>, a constructor per class, and the exceptions of
  Python itself that the code can meet. The string names the message, the list what it
  interpolates.
\<close>

datatype aerror =
    AtlantideError string "string list"
  | LanguageError string "string list"
  | FuelExhaustedError
  | IRError string "string list"
  | ArtifactError string "string list"
  | CycleError "string list list"
  | StackOutputCycleError "string list"
  | RegistryError string "string list"
  | ComponentError string "string list"
  | ProviderError string "string option" "string option" "string option"
  | RollbackError string string
  | StateError string "string list"
  | SecretsError string "string list"
  | LockError string "string list"
  | LeaseLostError string "string list"
  | InterruptedRunError
  | FencedWriteError string "string list"
  | PlanDriftError string "string list"
  | PreventDestroyError string "string list"
  | PolicyConfigError string "string list"
  | PolicyViolationError string "string list"
  | TargetError string "string list"
  | KeyError string
  | PyTypeError string
  | PyValueError string
  | PyIndexError
  | PyAssertionError

text \<open>The subclass edges below \<open>AtlantideError\<close> that \<open>except\<close> clauses rely on.\<close>

definition is_lock_error :: "aerror \<Rightarrow> bool" where
  "is_lock_error e = (case e of LockError _ _ \<Rightarrow> True | LeaseLostError _ _ \<Rightarrow> True | _ \<Rightarrow> False)"

definition is_state_error :: "aerror \<Rightarrow> bool" where
  "is_state_error e = (case e of StateError _ _ \<Rightarrow> True | FencedWriteError _ _ \<Rightarrow> True | _ \<Rightarrow> False)"

definition is_atlantide_error :: "aerror \<Rightarrow> bool" where
  "is_atlantide_error e = (case e of KeyError _ \<Rightarrow> False | PyTypeError _ \<Rightarrow> False
     | PyValueError _ \<Rightarrow> False | PyIndexError \<Rightarrow> False | PyAssertionError \<Rightarrow> False | _ \<Rightarrow> True)"

subsection \<open>Results\<close>

definition rbind :: "('e, 'a) result \<Rightarrow> ('a \<Rightarrow> ('e, 'b) result) \<Rightarrow> ('e, 'b) result" where
  "rbind r f = (case r of Inl e \<Rightarrow> Inl e | Inr a \<Rightarrow> f a)"

lemma rbind_simps [simp]:
  "rbind (Inl e) f = Inl e"
  "rbind (Inr a) f = f a"
  by (simp_all add: rbind_def)

lemma rbind_InrE:
  assumes "rbind r f = Inr b"
  obtains a where "r = Inr a" and "f a = Inr b"
  using assms by (cases r) auto

lemma rbind_Inr_iff: "rbind r f = Inr b \<longleftrightarrow> (\<exists>a. r = Inr a \<and> f a = Inr b)"
  by (cases r) auto

text \<open>A generator that raises at its first failing element, as a comprehension does.\<close>

fun rmap :: "('a \<Rightarrow> ('e, 'b) result) \<Rightarrow> 'a list \<Rightarrow> ('e, 'b list) result" where
  "rmap f [] = Inr []"
| "rmap f (x # xs) = rbind (f x) (\<lambda>y. rbind (rmap f xs) (\<lambda>ys. Inr (y # ys)))"

lemma rmap_cong [fundef_cong]:
  "xs = ys \<Longrightarrow> (\<And>x. x \<in> set ys \<Longrightarrow> f x = g x) \<Longrightarrow> rmap f xs = rmap g ys"
  by (induction xs arbitrary: ys) auto

lemma rbind_cong [fundef_cong]:
  "r = s \<Longrightarrow> (\<And>a. s = Inr a \<Longrightarrow> f a = g a) \<Longrightarrow> rbind r f = rbind s g"
  by (cases s) auto

lemma rmap_Inr_iff:
  "rmap f xs = Inr ys \<longleftrightarrow> length ys = length xs \<and> (\<forall>i < length xs. f (xs ! i) = Inr (ys ! i))"
proof (induction xs arbitrary: ys)
  case Nil
  then show ?case by auto
next
  case (Cons x xs)
  show ?case
    by (cases ys) (auto simp: rbind_Inr_iff Cons.IH less_Suc_eq_0_disj)
qed

lemma rmap_map: "rmap f (map g xs) = rmap (\<lambda>x. f (g x)) xs"
  by (induction xs) simp_all

lemma rmap_pure: "(\<And>x. x \<in> set xs \<Longrightarrow> f x = Inr (g x)) \<Longrightarrow> rmap f xs = Inr (map g xs)"
  by (induction xs) auto

lemma rmap_Inr_length: "rmap f xs = Inr ys \<Longrightarrow> length ys = length xs"
  by (simp add: rmap_Inr_iff)

lemma rmap_Inr_setD: "rmap f xs = Inr ys \<Longrightarrow> y \<in> set ys \<Longrightarrow> \<exists>x \<in> set xs. f x = Inr y"
  by (auto simp: rmap_Inr_iff in_set_conv_nth) (metis nth_mem)

lemma rmap_Inr_exD: "rmap f xs = Inr ys \<Longrightarrow> x \<in> set xs \<Longrightarrow> \<exists>y. f x = Inr y"
  by (auto simp: rmap_Inr_iff in_set_conv_nth)

lemma rmap_total: "(\<And>x. x \<in> set xs \<Longrightarrow> \<exists>y. f x = Inr y) \<Longrightarrow> \<exists>ys. rmap f xs = Inr ys"
proof (induction xs)
  case (Cons x xs)
  then obtain y ys where "f x = Inr y" "rmap f xs = Inr ys" by (meson list.set_intros)
  then show ?case by simp
qed simp

subsection \<open>Dictionaries\<close>

text \<open>\<open>m.get(k, d)\<close>\<close>

definition dget :: "('k \<times> 'v) list \<Rightarrow> 'k \<Rightarrow> 'v \<Rightarrow> 'v" where
  "dget m k d = (case map_of m k of None \<Rightarrow> d | Some v \<Rightarrow> v)"

definition keys_of :: "('k \<times> 'v) list \<Rightarrow> 'k list" where
  "keys_of m = map fst m"

text \<open>A Python dictionary has each key once.\<close>

abbreviation wf_dict :: "('k \<times> 'v) list \<Rightarrow> bool" where
  "wf_dict m \<equiv> distinct (map fst m)"

lemma dget_Some [dict_simps]: "map_of m k = Some v \<Longrightarrow> dget m k d = v"
  by (simp add: dget_def)

lemma dget_None [dict_simps]: "map_of m k = None \<Longrightarrow> dget m k d = d"
  by (simp add: dget_def)

lemma dget_in: "k \<in> fst ` set m \<Longrightarrow> dget m k d \<in> snd ` set m"
  by (auto simp: dget_def image_iff split: option.splits)
    (metis domI domIff dom_map_of_conv_image_fst imageI fst_conv, metis map_of_SomeD snd_conv)

lemma keys_filter_iff:
  assumes "wf_dict m"
  shows "k \<in> set (map fst (filter (\<lambda>(k, v). P k v) m)) \<longleftrightarrow> (\<exists>v. map_of m k = Some v \<and> P k v)"
proof -
  have "k \<in> set (map fst (filter (\<lambda>(k, v). P k v) m)) \<longleftrightarrow> (\<exists>v. (k, v) \<in> set m \<and> P k v)" by force
  then show ?thesis using map_of_eq_Some_iff [OF assms] by simp
qed

lemma key_iff: "k \<in> fst ` set m \<longleftrightarrow> map_of m k \<noteq> None"
  by (simp add: map_of_eq_None_iff)

text \<open>A dictionary comprehension over a list of distinct keys.\<close>

definition dict_of :: "('a \<Rightarrow> 'k) \<Rightarrow> ('a \<Rightarrow> 'v) \<Rightarrow> 'a list \<Rightarrow> ('k \<times> 'v) list" where
  "dict_of kf vf xs = fold (\<lambda>x m. AList.update (kf x) (vf x) m) xs []"

lemma map_of_fold_update:
  "map_of (fold (\<lambda>x m. AList.update (kf x) (vf x) m) xs m) = map_of m ++ map_of (rev (map (\<lambda>x. (kf x, vf x)) xs))"
  by (induction xs arbitrary: m) (auto simp: update_conv' map_add_def fun_eq_iff split: option.splits)

lemma map_of_dict_of [dict_simps]:
  "map_of (dict_of kf vf xs) = map_of (rev (map (\<lambda>x. (kf x, vf x)) xs))"
  by (simp add: dict_of_def map_of_fold_update)

lemma map_of_rev_distinct: "distinct (map fst m) \<Longrightarrow> map_of (rev m) = map_of m"
  by (metis distinct_rev map_of_inject_set rev_map set_rev)

lemma map_of_dict_of_distinct [dict_simps]:
  "distinct (map kf xs) \<Longrightarrow> map_of (dict_of kf vf xs) = map_of (map (\<lambda>x. (kf x, vf x)) xs)"
  by (simp add: map_of_dict_of map_of_rev_distinct comp_def)

lemma map_of_dict_of_Some:
  "distinct (map kf xs) \<Longrightarrow> x \<in> set xs \<Longrightarrow> map_of (dict_of kf vf xs) (kf x) = Some (vf x)"
  by (induction xs) (auto simp: map_of_dict_of_distinct, metis imageI)

lemma dict_of_keys: "fst ` set (dict_of kf vf xs) = kf ` set xs"
proof -
  have "dom (map_of (dict_of kf vf xs)) = kf ` set xs"
    by (simp only: map_of_dict_of dom_map_of_conv_image_fst) force
  then show ?thesis by (simp add: dom_map_of_conv_image_fst)
qed

lemma wf_dict_of: "wf_dict (dict_of kf vf xs)"
proof -
  have "wf_dict m \<Longrightarrow> wf_dict (fold (\<lambda>x m. AList.update (kf x) (vf x) m) xs m)" for m
    by (induction xs arbitrary: m) (auto simp: distinct_update)
  then show ?thesis by (simp add: dict_of_def)
qed

lemma update_fresh: "k \<notin> fst ` set m \<Longrightarrow> AList.update k v m = m @ [(k, v)]"
  by (induction m) auto

lemma dict_of_distinct: "distinct (map kf xs) \<Longrightarrow> dict_of kf vf xs = map (\<lambda>x. (kf x, vf x)) xs"
proof -
  have "distinct (map kf xs) \<Longrightarrow> kf ` set xs \<inter> fst ` set m = {} \<Longrightarrow>
      fold (\<lambda>x m. AList.update (kf x) (vf x) m) xs m = m @ map (\<lambda>x. (kf x, vf x)) xs" for m
    by (induction xs arbitrary: m) (auto simp: update_fresh)
  from this [of "[]"] show "distinct (map kf xs) \<Longrightarrow> ?thesis" by (simp add: dict_of_def)
qed

lemma set_AList_update: "set (AList.update k v m) \<subseteq> insert (k, v) (set m)"
  by (induction m) auto

lemma dict_of_values: "snd ` set (dict_of kf vf xs) \<subseteq> vf ` set xs"
proof -
  have "snd ` set (fold (\<lambda>x m. AList.update (kf x) (vf x) m) xs m) \<subseteq> snd ` set m \<union> vf ` set xs" for m
  proof (induction xs arbitrary: m)
    case (Cons x xs)
    have "snd ` set (AList.update (kf x) (vf x) m) \<subseteq> insert (vf x) (snd ` set m)"
      using set_AList_update [of "kf x" "vf x" m] by force
    with Cons.IH [of "AList.update (kf x) (vf x) m"]
    have "snd ` set (fold (\<lambda>x m. AList.update (kf x) (vf x) m) xs (AList.update (kf x) (vf x) m)) \<subseteq>
        insert (vf x) (snd ` set m) \<union> vf ` set xs" by (meson Un_mono order_refl order_trans)
    then show ?case by simp
  qed simp
  from this [of "[]"] show ?thesis by (simp add: dict_of_def)
qed

subsection \<open>Sorted sets\<close>

definition sorted_set :: "'a::linorder list \<Rightarrow> 'a list" where
  "sorted_set xs = sort (remdups xs)"

lemma set_sorted_set [simp]: "set (sorted_set xs) = set xs"
  by (simp add: sorted_set_def)

lemma distinct_sorted_set [simp]: "distinct (sorted_set xs)"
  by (simp add: sorted_set_def)

lemma sorted_sorted_set [simp]: "sorted (sorted_set xs)"
  by (simp add: sorted_set_def)

lemma sorted_set_cong: "set xs = set ys \<Longrightarrow> sorted_set xs = sorted_set ys"
  by (rule sorted_distinct_set_unique) auto

lemma sorted_set_id: "sorted xs \<Longrightarrow> distinct xs \<Longrightarrow> sorted_set xs = xs"
  by (rule sorted_distinct_set_unique) auto

subsection \<open>Lists\<close>

lemma filter_key_single: "distinct (map f xs) \<Longrightarrow> x \<in> set xs \<Longrightarrow> filter (\<lambda>y. f x = f y) xs = [x]"
proof (induction xs)
  case (Cons z xs)
  show ?case
  proof (cases "x = z")
    case True
    then have "\<forall>y \<in> set xs. f x \<noteq> f y" using Cons.prems(1) by (auto simp: image_iff)
    then have "filter (\<lambda>y. f x = f y) xs = []" by (simp add: filter_empty_conv)
    with True show ?thesis by simp
  next
    case False
    then have "x \<in> set xs" using Cons.prems(2) by simp
    moreover from this have "f x \<noteq> f z" using Cons.prems(1) by (auto simp: image_iff)
    ultimately show ?thesis using Cons by simp
  qed
qed simp

lemma sort_key_perm:
  fixes f :: "'a \<Rightarrow> 'b :: linorder"
  assumes "mset xs = mset ys" and "distinct (map f xs)"
  shows "sort_key f xs = sort_key f ys"
proof (rule properties_for_sort_key)
  have d: "distinct (map f zs)" if "mset zs = mset xs" for zs
    by (metis assms(2) mset_eq_imp_distinct_iff mset_map that)
  have s: "mset (sort_key f ys) = mset xs" using assms(1) by simp
  then show "mset (sort_key f ys) = mset xs" .
  fix k
  assume k: "k \<in> set (sort_key f ys)"
  then have "k \<in> set xs" by (metis assms(1) set_mset_mset set_sort)
  then show "filter (\<lambda>x. f k = f x) (sort_key f ys) = filter (\<lambda>x. f k = f x) xs"
    using filter_key_single [OF d [OF s] k] filter_key_single [OF assms(2)] by simp
qed simp

lemma butlast_last_set: "xs \<noteq> [] \<Longrightarrow> set xs = insert (last xs) (set (butlast xs))"
  by (metis append_butlast_last_id set_append list.simps(15) Un_insert_right set_empty sup_bot_right
      list.set(1))

lemma map_of_map_self: "map_of (map (\<lambda>x. (x, f x)) xs) k = (if k \<in> set xs then Some (f k) else None)"
  by (induction xs) auto

subsection \<open>Strings\<close>

text \<open>
  \<open>s.partition(c)\<close> for a one-character separator, and the two one-cut splits the code
  uses: \<open>s.split(c, 1)\<close> at the first separator, \<open>s.rsplit(c, 1)\<close> at the last.
\<close>

definition partition_at :: "char \<Rightarrow> string \<Rightarrow> string \<times> string \<times> string" where
  "partition_at c s = (takeWhile (\<lambda>x. x \<noteq> c) s, if c \<in> set s then [c] else [],
     drop 1 (dropWhile (\<lambda>x. x \<noteq> c) s))"

definition split_once :: "char \<Rightarrow> string \<Rightarrow> string list" where
  "split_once c s = (if c \<in> set s
     then [takeWhile (\<lambda>x. x \<noteq> c) s, drop 1 (dropWhile (\<lambda>x. x \<noteq> c) s)] else [s])"

definition rsplit_once :: "char \<Rightarrow> string \<Rightarrow> string list" where
  "rsplit_once c s = map rev (rev (split_once c (rev s)))"

lemma takeWhile_sep: "c \<notin> set a \<Longrightarrow> takeWhile (\<lambda>x. x \<noteq> c) (a @ c # b) = a"
  by (induction a) auto

lemma dropWhile_sep: "c \<notin> set a \<Longrightarrow> dropWhile (\<lambda>x. x \<noteq> c) (a @ c # b) = c # b"
  by (induction a) auto

lemma partition_at_sep: "c \<notin> set a \<Longrightarrow> partition_at c (a @ c # b) = (a, [c], b)"
  by (simp add: partition_at_def takeWhile_sep dropWhile_sep)

lemma split_once_sep: "c \<notin> set a \<Longrightarrow> split_once c (a @ c # b) = [a, b]"
  by (simp add: split_once_def takeWhile_sep dropWhile_sep)

lemma split_once_none: "c \<notin> set s \<Longrightarrow> split_once c s = [s]"
  by (simp add: split_once_def)

lemma rsplit_once_sep: "c \<notin> set b \<Longrightarrow> rsplit_once c (a @ c # b) = [a, b]"
  using split_once_sep [of c "rev b" "rev a"] by (simp add: rsplit_once_def)

lemma partition_at_join: "(\<lambda>(a, s, b). a @ s @ b) (partition_at c s) = s"
proof (cases "c \<in> set s")
  case True
  then have "dropWhile (\<lambda>x. x \<noteq> c) s \<noteq> [] \<and> hd (dropWhile (\<lambda>x. x \<noteq> c) s) = c"
    using hd_dropWhile [of "\<lambda>x. x \<noteq> c" s] by auto
  then have "dropWhile (\<lambda>x. x \<noteq> c) s = c # drop 1 (dropWhile (\<lambda>x. x \<noteq> c) s)"
    by (cases "dropWhile (\<lambda>x. x \<noteq> c) s") auto
  then show ?thesis
    using True takeWhile_dropWhile_id [of "\<lambda>x. x \<noteq> c" s] by (simp add: partition_at_def)
next
  case False
  then show ?thesis by (induction s) (auto simp: partition_at_def)
qed

text \<open>Decimal numerals, as \<open>str\<close> prints an \<open>int\<close>.\<close>

definition digit_char :: "nat \<Rightarrow> char" where
  "digit_char d = char_of (48 + d)"

fun nat_str :: "nat \<Rightarrow> string" where
  "nat_str n = (if n < 10 then [digit_char n] else nat_str (n div 10) @ [digit_char (n mod 10)])"

definition int_str :: "int \<Rightarrow> string" where
  "int_str i = (if i < 0 then CHR ''-'' # nat_str (nat (- i)) else nat_str (nat i))"

declare nat_str.simps [simp del]

lemma digit_char_inj: "m < 10 \<Longrightarrow> n < 10 \<Longrightarrow> digit_char m = digit_char n \<Longrightarrow> m = n"
  using arg_cong [of "digit_char m" "digit_char n" "of_char :: char \<Rightarrow> nat"]
  by (simp add: digit_char_def)

lemma digit_char_range: "n < 10 \<Longrightarrow> 48 \<le> (of_char (digit_char n) :: nat) \<and> (of_char (digit_char n) :: nat) < 58"
  by (simp add: digit_char_def)

definition is_digit :: "char \<Rightarrow> bool" where
  "is_digit c = (48 \<le> (of_char c :: nat) \<and> (of_char c :: nat) < 58)"

lemma nat_str_digits: "c \<in> set (nat_str n) \<Longrightarrow> is_digit c"
  by (induction n rule: nat_str.induct)
    (subst (asm) nat_str.simps, auto simp: is_digit_def digit_char_range split: if_splits)

lemma nat_str_not_Nil [simp]: "nat_str n \<noteq> []"
  by (subst nat_str.simps) simp

lemma nat_str_inj: "nat_str m = nat_str n \<Longrightarrow> m = n"
proof (induction m arbitrary: n rule: nat_str.induct)
  case (1 m)
  show ?case
  proof (cases "m < 10"; cases "n < 10")
    assume "m < 10" "n < 10"
    then show ?thesis
      using "1.prems" by (metis digit_char_inj list.inject nat_str.simps)
  next
    assume "m < 10" "\<not> n < 10"
    then have "[digit_char m] = nat_str (n div 10) @ [digit_char (n mod 10)]"
      using "1.prems" by (metis nat_str.simps)
    then show ?thesis by (simp add: append_eq_Cons_conv Cons_eq_append_conv)
  next
    assume "\<not> m < 10" "n < 10"
    then have "nat_str (m div 10) @ [digit_char (m mod 10)] = [digit_char n]"
      using "1.prems" by (metis nat_str.simps)
    then show ?thesis by (simp add: append_eq_Cons_conv Cons_eq_append_conv)
  next
    assume mn: "\<not> m < 10" "\<not> n < 10"
    then have "nat_str (m div 10) @ [digit_char (m mod 10)] = nat_str (n div 10) @ [digit_char (n mod 10)]"
      using "1.prems" by (metis nat_str.simps)
    then have "m div 10 = n div 10" "m mod 10 = n mod 10"
      using "1.IH" mn(1) by (auto dest!: digit_char_inj [rotated 2])
    then show ?thesis by (metis div_mult_mod_eq)
  qed
qed

end
