(* ===== verification/Worklist.thy ===== *)
theory Worklist
  imports Prelude "HOL-Library.While_Combinator"
begin

text \<open>
  The two worklist loops the program uses over its graphs, each with the contract its
  clients rely on stated as a locale. \<open>drain_pop\<close> marks a node when it is popped
  (\<open>graph/select.py\<close> \<open>closure\<close>, \<open>graph/cbd.py\<close> \<open>cbd_forcers\<close>); \<open>drain_push\<close> marks a node
  when it is pushed (\<open>reconcile/diff.py\<close> \<open>_stale_dependents\<close>, \<open>executor/deletes.py\<close>
  \<open>predeletes\<close>). Both pop from the end of the list, as \<open>list.pop()\<close> does. Inside each
  locale: the loop ends, and what it collects is the set of reachable nodes.
\<close>

definition edges_of :: "('a \<Rightarrow> 'a list) \<Rightarrow> ('a \<times> 'a) set" where
  "edges_of nexts = {(a, b). b \<in> set (nexts a)}"

lemma edges_of_iff [simp]: "(a, b) \<in> edges_of nexts \<longleftrightarrow> b \<in> set (nexts a)"
  by (simp add: edges_of_def)

lemma finite_dget_range: "finite {b. \<exists>a. b \<in> set (dget adj a [])}"
proof (rule finite_subset)
  show "{b. \<exists>a. b \<in> set (dget adj a [])} \<subseteq> (\<Union>ys \<in> snd ` set adj. set ys)"
  proof clarify
    fix b a
    assume "b \<in> set (dget adj a [])"
    then obtain ys where "map_of adj a = Some ys" "b \<in> set ys"
      by (cases "map_of adj a") (auto simp: dget_def)
    then show "b \<in> (\<Union>ys \<in> snd ` set adj. set ys)"
      by (intro UN_I [of ys]) (auto dest!: map_of_SomeD intro: rev_image_eqI)
  qed
qed simp

lemma rtrancl_closed: "(a, b) \<in> r\<^sup>* \<Longrightarrow> a \<in> V \<Longrightarrow> r `` V \<subseteq> V \<Longrightarrow> b \<in> V"
  by (induction rule: rtrancl_induct) auto

lemma rtrancl_Image_step: "a \<in> r\<^sup>* `` S \<Longrightarrow> (a, b) \<in> r \<Longrightarrow> b \<in> r\<^sup>* `` S"
  by (auto intro: rtrancl_into_rtrancl)

lemma trancl_Image_step: "a \<in> S \<or> a \<in> r\<^sup>+ `` S \<Longrightarrow> (a, b) \<in> r \<Longrightarrow> b \<in> r\<^sup>+ `` S"
  by (auto intro: trancl_into_trancl)

lemma trancl_closed: "(a, b) \<in> r\<^sup>+ \<Longrightarrow> a \<in> S \<Longrightarrow> r `` (S \<union> V) \<subseteq> V \<Longrightarrow> b \<in> V"
  by (induction rule: trancl_induct) blast+

subsection \<open>Marking when popped\<close>

definition pop_step ::
  "('s \<Rightarrow> 'a \<Rightarrow> bool) \<Rightarrow> ('a \<Rightarrow> 's \<Rightarrow> 's) \<Rightarrow> ('a \<Rightarrow> 'a list) \<Rightarrow> 'a list \<times> 's \<Rightarrow> 'a list \<times> 's" where
  "pop_step visited mark nexts = (\<lambda>(stack, s).
     let n = last stack; rest = butlast stack
     in if visited s n then (rest, s) else (rest @ nexts n, mark n s))"

definition drain_pop ::
  "('s \<Rightarrow> 'a \<Rightarrow> bool) \<Rightarrow> ('a \<Rightarrow> 's \<Rightarrow> 's) \<Rightarrow> ('a \<Rightarrow> 'a list) \<Rightarrow> 'a list \<Rightarrow> 's \<Rightarrow> ('a list \<times> 's) option" where
  "drain_pop visited mark nexts stack s =
     while_option (\<lambda>(stack, _). stack \<noteq> []) (pop_step visited mark nexts) (stack, s)"

lemma drain_pop_keeps:
  assumes "drain_pop visited mark nexts stack s = Some t" and "Q s" and "\<And>a s. Q s \<Longrightarrow> Q (mark a s)"
  shows "Q (snd t)"
proof -
  have w: "while_option (\<lambda>(stack, _). stack \<noteq> []) (pop_step visited mark nexts) (stack, s) = Some t"
    using assms(1) by (simp add: drain_pop_def)
  show ?thesis
    by (rule while_option_rule [where P = "\<lambda>t. Q (snd t)", OF _ w])
      (use assms(2,3) in \<open>auto simp: pop_step_def Let_def split: prod.splits\<close>)
qed

locale visit_once =
  fixes visited :: "'s \<Rightarrow> 'a \<Rightarrow> bool"
    and mark :: "'a \<Rightarrow> 's \<Rightarrow> 's"
    and nexts :: "'a \<Rightarrow> 'a list"
  assumes visited_mark: "visited (mark a s) b \<longleftrightarrow> a = b \<or> visited s b"
    and finite_nexts: "finite {b. \<exists>a. b \<in> set (nexts a)}"
begin

text \<open>
  What every iteration keeps, for a run from \<open>stack0\<close> and \<open>s0\<close>: marked nodes were marked at
  the start or are reachable, the successors of a marked node are marked or wait on the
  stack, and so is every node of the starting stack.
\<close>

definition pop_inv :: "'a list \<Rightarrow> 's \<Rightarrow> 'a list \<times> 's \<Rightarrow> bool" where
  "pop_inv stack0 s0 = (\<lambda>(stack, s).
     set stack \<subseteq> (edges_of nexts)\<^sup>* `` set stack0 \<and>
     Collect (visited s0) \<subseteq> Collect (visited s) \<and>
     Collect (visited s) \<subseteq> Collect (visited s0) \<union> (edges_of nexts)\<^sup>* `` set stack0 \<and>
     set stack0 \<subseteq> Collect (visited s) \<union> set stack \<and>
     (\<forall>a. visited s a \<longrightarrow> \<not> visited s0 a \<longrightarrow> set (nexts a) \<subseteq> Collect (visited s) \<union> set stack))"

lemma pop_inv_init: "pop_inv stack0 s0 (stack0, s0)"
  by (auto simp: pop_inv_def)

lemma pop_inv_step:
  assumes "pop_inv stack0 s0 st" and "fst st \<noteq> []"
  shows "pop_inv stack0 s0 (pop_step visited mark nexts st)"
proof -
  obtain stack s where st: "st = (stack, s)" by (cases st)
  let ?n = "last stack" and ?rest = "butlast stack" and ?E = "edges_of nexts"
  from assms(2) st have ne: "stack \<noteq> []" by simp
  have set_stack: "set stack = insert ?n (set ?rest)" by (rule butlast_last_set [OF ne])
  have n_reach: "?n \<in> ?E\<^sup>* `` set stack0"
    using assms(1) set_stack by (auto simp: pop_inv_def st)
  show ?thesis
  proof (cases "visited s ?n")
    case True
    then have "pop_step visited mark nexts st = (?rest, s)"
      by (simp add: pop_step_def st)
    with True assms(1) set_stack show ?thesis
      unfolding pop_inv_def st by (auto 0 3)
  next
    case False
    then have step: "pop_step visited mark nexts st = (?rest @ nexts ?n, mark ?n s)"
      by (simp add: pop_step_def st Let_def)
    have "set (nexts ?n) \<subseteq> ?E\<^sup>* `` set stack0"
      using n_reach by (auto intro: rtrancl_Image_step [of ?n])
    with n_reach assms(1) set_stack have "pop_inv stack0 s0 (?rest @ nexts ?n, mark ?n s)"
      unfolding pop_inv_def st prod.case visited_mark Collect_disj_eq set_append
      by (intro conjI allI impI) (simp_all, blast+)
    with step show ?thesis by simp
  qed
qed

lemma drain_pop_total: "\<exists>s'. drain_pop visited mark nexts stack s = Some ([], s')"
proof -
  let ?U = "set stack \<union> {b. \<exists>a. b \<in> set (nexts a)}"
  let ?P = "\<lambda>(st :: 'a list, _ :: 's). set st \<subseteq> ?U"
  let ?r = "measures [\<lambda>(_ :: 'a list, s). card (?U - Collect (visited s)), \<lambda>(st, _). length st]"
  have fin: "finite ?U" using finite_nexts by simp
  have P_step: "?P (pop_step visited mark nexts st)" if "?P st" "fst st \<noteq> []" for st
    using that by (auto simp: pop_step_def Let_def split: prod.splits dest!: in_set_butlastD)
  have dec: "(pop_step visited mark nexts st, st) \<in> ?r" if P: "?P st" and ne: "fst st \<noteq> []" for st
  proof -
    obtain stk s' where st: "st = (stk, s')" by (cases st)
    have "last stk \<in> ?U" using P ne st by (auto simp: last_in_set subset_iff)
    moreover have "Collect (visited (mark a s')) = insert a (Collect (visited s'))" for a
      by (auto simp: visited_mark)
    ultimately have "\<not> visited s' (last stk) \<Longrightarrow>
        card (?U - Collect (visited (mark (last stk) s'))) < card (?U - Collect (visited s'))"
      using fin by (intro psubset_card_mono) auto
    then show ?thesis using ne by (auto simp: pop_step_def st Let_def)
  qed
  have "wf {(t, st). (?P st \<and> (case st of (stack, _) \<Rightarrow> stack \<noteq> [])) \<and> t = pop_step visited mark nexts st}"
    by (rule wf_subset [of ?r]) (use dec in \<open>auto split: prod.splits\<close>)
  then have "\<exists>t. while_option (\<lambda>(stack, _). stack \<noteq> []) (pop_step visited mark nexts) (stack, s) = Some t"
  proof (rule wf_while_option_Some [where P = ?P])
    fix st :: "'a list \<times> 's"
    assume "?P st" and "case st of (stack, _) \<Rightarrow> stack \<noteq> []"
    then show "?P (pop_step visited mark nexts st)" by (intro P_step) (auto split: prod.splits)
  qed simp
  then obtain t where t: "while_option (\<lambda>(stack, _). stack \<noteq> []) (pop_step visited mark nexts) (stack, s) = Some t"
    by blast
  from while_option_stop [OF t] t show ?thesis
    by (cases t) (auto simp: drain_pop_def)
qed

lemma drain_pop_inv:
  assumes "drain_pop visited mark nexts stack s = Some t"
  shows "pop_inv stack s t \<and> fst t = []"
proof -
  have w: "while_option (\<lambda>(stack, _). stack \<noteq> []) (pop_step visited mark nexts) (stack, s) = Some t"
    using assms by (simp add: drain_pop_def)
  have "pop_inv stack s t"
    by (rule while_option_rule [OF _ w]) (auto intro: pop_inv_init pop_inv_step split: prod.splits)
  with while_option_stop [OF w] show ?thesis by (cases t) auto
qed

theorem drain_pop_reach:
  assumes closed: "\<And>a. visited s a \<Longrightarrow> set (nexts a) \<subseteq> Collect (visited s)"
  obtains s' where "drain_pop visited mark nexts stack s = Some ([], s')"
    and "\<And>b. visited s' b \<longleftrightarrow> visited s b \<or> b \<in> (edges_of nexts)\<^sup>* `` set stack"
proof -
  obtain s' where s': "drain_pop visited mark nexts stack s = Some ([], s')"
    using drain_pop_total by blast
  have inv: "pop_inv stack s ([], s')" using drain_pop_inv [OF s'] by simp
  have "visited s' b" if "b \<in> (edges_of nexts)\<^sup>* `` set stack" for b
  proof -
    from that obtain a where "a \<in> set stack" "(a, b) \<in> (edges_of nexts)\<^sup>*" by auto
    moreover have "edges_of nexts `` Collect (visited s') \<subseteq> Collect (visited s')"
      using inv closed unfolding pop_inv_def by auto blast
    ultimately show ?thesis using inv rtrancl_closed [of a b "edges_of nexts" "Collect (visited s')"]
      by (auto simp: pop_inv_def)
  qed
  with inv have "visited s' b \<longleftrightarrow> visited s b \<or> b \<in> (edges_of nexts)\<^sup>* `` set stack" for b
    unfolding pop_inv_def by auto
  with s' show thesis by (rule that)
qed

end

subsection \<open>Marking when pushed\<close>

fun push_all :: "('a \<Rightarrow> bool) \<Rightarrow> 'a list \<Rightarrow> 'a list \<times> 'a set \<Rightarrow> 'a list \<times> 'a set" where
  "push_all P [] q = q"
| "push_all P (c # cs) (pending, found) =
     (if c \<notin> found \<and> P c then push_all P cs (pending @ [c], insert c found)
      else push_all P cs (pending, found))"

definition push_step :: "('a \<Rightarrow> bool) \<Rightarrow> ('a \<Rightarrow> 'a list) \<Rightarrow> 'a list \<times> 'a set \<Rightarrow> 'a list \<times> 'a set" where
  "push_step P nexts = (\<lambda>(pending, found). push_all P (nexts (last pending)) (butlast pending, found))"

definition drain_push ::
  "('a \<Rightarrow> bool) \<Rightarrow> ('a \<Rightarrow> 'a list) \<Rightarrow> 'a list \<Rightarrow> 'a set \<Rightarrow> ('a list \<times> 'a set) option" where
  "drain_push P nexts pending found =
     while_option (\<lambda>(pending, _). pending \<noteq> []) (push_step P nexts) (pending, found)"

lemma push_all_snd: "snd (push_all P cs (pending, found)) = found \<union> {c \<in> set cs. P c}"
  by (induction cs arbitrary: pending found) auto

lemma push_all_fst:
  "set (fst (push_all P cs (pending, found))) = set pending \<union> {c \<in> set cs. P c \<and> c \<notin> found}"
  by (induction cs arbitrary: pending found) auto

lemma push_all_same:
  "{c \<in> set cs. P c} \<subseteq> found \<Longrightarrow> push_all P cs (pending, found) = (pending, found)"
  by (induction cs arbitrary: pending found) auto

definition push_edges :: "('a \<Rightarrow> bool) \<Rightarrow> ('a \<Rightarrow> 'a list) \<Rightarrow> ('a \<times> 'a) set" where
  "push_edges P nexts = {(a, b). b \<in> set (nexts a) \<and> P b}"

lemma push_edges_iff [simp]: "(a, b) \<in> push_edges P nexts \<longleftrightarrow> b \<in> set (nexts a) \<and> P b"
  by (simp add: push_edges_def)

locale push_search =
  fixes P :: "'a \<Rightarrow> bool" and nexts :: "'a \<Rightarrow> 'a list"
  assumes finite_nexts: "finite {b. \<exists>a. b \<in> set (nexts a)}"
begin

definition push_inv :: "'a list \<Rightarrow> 'a list \<times> 'a set \<Rightarrow> bool" where
  "push_inv start = (\<lambda>(pending, found).
     set pending \<subseteq> set start \<union> found \<and>
     found \<subseteq> (push_edges P nexts)\<^sup>+ `` set start \<and>
     (\<forall>a \<in> set start \<union> found. a \<in> set pending \<or> push_edges P nexts `` {a} \<subseteq> found))"

lemma push_inv_init: "push_inv start (start, {})"
  by (auto simp: push_inv_def)

lemma push_inv_step:
  assumes inv: "push_inv start st" and ne: "fst st \<noteq> []"
  shows "push_inv start (push_step P nexts st)"
proof -
  obtain pending found where st: "st = (pending, found)" by (cases st)
  let ?n = "last pending" and ?E = "push_edges P nexts"
  let ?q = "push_all P (nexts ?n) (butlast pending, found)"
  have sp: "set pending = insert ?n (set (butlast pending))"
    using ne st by (intro butlast_last_set) simp
  have n: "?n \<in> set start \<union> found" using inv sp unfolding push_inv_def st by auto
  have fresh: "{c \<in> set (nexts ?n). P c} \<subseteq> ?E\<^sup>+ `` set start"
  proof
    fix c
    assume "c \<in> {c \<in> set (nexts ?n). P c}"
    then have "(?n, c) \<in> ?E" by simp
    moreover have "?n \<in> set start \<or> ?n \<in> ?E\<^sup>+ `` set start"
      using n inv unfolding push_inv_def st by blast
    ultimately show "c \<in> ?E\<^sup>+ `` set start" by (rule trancl_Image_step [rotated])
  qed
  have "push_inv start (fst ?q, snd ?q)"
    unfolding push_inv_def prod.case push_all_fst push_all_snd
  proof (intro conjI ballI)
    show "set (butlast pending) \<union> {c \<in> set (nexts ?n). P c \<and> c \<notin> found}
        \<subseteq> set start \<union> (found \<union> {c \<in> set (nexts ?n). P c})"
      using inv sp unfolding push_inv_def st by blast
    show "found \<union> {c \<in> set (nexts ?n). P c} \<subseteq> ?E\<^sup>+ `` set start"
    proof (rule Un_least [OF _ fresh])
      show "found \<subseteq> ?E\<^sup>+ `` set start"
        using inv unfolding push_inv_def st prod.case by (elim conjE)
    qed
    fix a
    assume a: "a \<in> set start \<union> (found \<union> {c \<in> set (nexts ?n). P c})"
    show "a \<in> set (butlast pending) \<union> {c \<in> set (nexts ?n). P c \<and> c \<notin> found} \<or>
        ?E `` {a} \<subseteq> found \<union> {c \<in> set (nexts ?n). P c}"
    proof (cases "a = ?n")
      case True
      then show ?thesis by auto
    next
      case False
      with a inv sp show ?thesis unfolding push_inv_def st by blast
    qed
  qed
  then show ?thesis by (simp add: push_step_def st)
qed

lemma drain_push_total: "\<exists>found. drain_push P nexts start {} = Some ([], found)"
proof -
  let ?U = "{b. \<exists>a. b \<in> set (nexts a)}"
  let ?I = "\<lambda>(_ :: 'a list, found). found \<subseteq> ?U"
  let ?r = "measures [\<lambda>(_ :: 'a list, found). card (?U - found), \<lambda>(pending, _). length pending]"
  have fin: "finite ?U" by (rule finite_nexts)
  have dec: "(push_step P nexts st, st) \<in> ?r" if I: "?I st" and ne: "fst st \<noteq> []" for st
  proof -
    obtain pending found where st: "st = (pending, found)" by (cases st)
    let ?cs = "nexts (last pending)"
    let ?q = "push_all P ?cs (butlast pending, found)"
    show ?thesis
    proof (cases "{c \<in> set ?cs. P c} \<subseteq> found")
      case True
      then show ?thesis using ne by (simp add: push_step_def st push_all_same)
    next
      case False
      have "snd ?q = found \<union> {c \<in> set ?cs. P c}" by (rule push_all_snd)
      with False fin have "card (?U - snd ?q) < card (?U - found)"
        by (intro psubset_card_mono) auto
      then show ?thesis by (cases ?q) (simp add: push_step_def st)
    qed
  qed
  have I_step: "?I (push_step P nexts st)" if "?I st" for st
    using that push_all_snd [of P "nexts (last (fst st))" "butlast (fst st)" "snd st"]
    by (auto simp: push_step_def split: prod.splits)
  have "wf {(t, st). (?I st \<and> (case st of (pending, _) \<Rightarrow> pending \<noteq> [])) \<and> t = push_step P nexts st}"
    by (rule wf_subset [of ?r]) (use dec in \<open>auto split: prod.splits\<close>)
  then have "\<exists>t. while_option (\<lambda>(pending, _). pending \<noteq> []) (push_step P nexts) (start, {}) = Some t"
    by (rule wf_while_option_Some [where P = ?I]) (use I_step in \<open>auto split: prod.splits\<close>)
  then obtain t where t: "while_option (\<lambda>(pending, _). pending \<noteq> []) (push_step P nexts) (start, {}) = Some t"
    by blast
  from while_option_stop [OF t] t show ?thesis by (cases t) (auto simp: drain_push_def)
qed

theorem drain_push_reach:
  "drain_push P nexts start {} = Some ([], (push_edges P nexts)\<^sup>+ `` set start)"
proof -
  let ?E = "push_edges P nexts"
  obtain found where found: "drain_push P nexts start {} = Some ([], found)"
    using drain_push_total by blast
  have w: "while_option (\<lambda>(pending, _). pending \<noteq> []) (push_step P nexts) (start, {}) = Some ([], found)"
    using found by (simp add: drain_push_def)
  have inv: "push_inv start ([], found)"
    by (rule while_option_rule [OF _ w]) (auto intro: push_inv_init push_inv_step split: prod.splits)
  have "?E `` (set start \<union> found) \<subseteq> found"
    using inv unfolding push_inv_def by auto
  then have "?E\<^sup>+ `` set start \<subseteq> found"
    by (auto dest: trancl_closed)
  with inv have "found = ?E\<^sup>+ `` set start" unfolding push_inv_def by auto
  with found show ?thesis by simp
qed

end

end
