(* ===== verification/NodeId.thy ===== *)
theory NodeId
  imports Prelude
begin

text \<open>
  Node ids (\<open>core/node_id.py\<close>): \<open>{stack}:{type}:{name}\<close>, how they are built, validated and
  taken apart, and that taking apart undoes building for the names the program admits.
\<close>

definition is_ascii_letter :: "char \<Rightarrow> bool" where
  "is_ascii_letter c = (let n = (of_char c :: nat) in (65 \<le> n \<and> n \<le> 90) \<or> (97 \<le> n \<and> n \<le> 122))"

definition is_ident_char :: "char \<Rightarrow> bool" where
  "is_ident_char c = (is_ascii_letter c \<or> is_digit c \<or> c = CHR ''_'' \<or> c = CHR ''-'')"

text \<open>\<open>IDENTIFIER_RE.fullmatch\<close>\<close>

definition identifier_match :: "string \<Rightarrow> bool" where
  "identifier_match s = (case s of [] \<Rightarrow> False | c # cs \<Rightarrow> is_ascii_letter c \<and> list_all is_ident_char cs)"

definition require_identifier :: "string \<Rightarrow> string \<Rightarrow> (aerror, unit) result" where
  "require_identifier name kind = (if \<not> identifier_match name
     then Inl (RegistryError ''invalid name'' [kind, name]) else Inr ())"

definition format_node_id :: "string \<Rightarrow> string \<Rightarrow> string \<Rightarrow> node_id" where
  "format_node_id stack type_name name = stack @ '':'' @ type_name @ '':'' @ name"

definition stack_of :: "node_id \<Rightarrow> string" where
  "stack_of node_id = fst (partition_at CHR '':'' node_id)"

text \<open>\<open>node_id.split(":", 2)[1]\<close> raises when there is no colon.\<close>

definition type_name_of :: "node_id \<Rightarrow> (aerror, string) result" where
  "type_name_of node_id = (case split_once CHR '':'' node_id of
     [_, rest] \<Rightarrow> Inr (hd (split_once CHR '':'' rest)) | _ \<Rightarrow> Inl PyIndexError)"

definition local_name_of :: "node_id \<Rightarrow> string" where
  "local_name_of node_id = last (rsplit_once CHR '':'' node_id)"

definition short_id :: "node_id \<Rightarrow> string" where
  "short_id node_id = snd (snd (partition_at CHR '':'' node_id))"

definition group_by_stack :: "node_id list \<Rightarrow> (string \<times> node_id list) list" where
  "group_by_stack node_ids = fold (\<lambda>node_id grouped.
     AList.update (stack_of node_id) (dget grouped (stack_of node_id) [] @ [node_id]) grouped) node_ids []"

definition field_scope :: "node_id \<Rightarrow> string \<Rightarrow> string" where
  "field_scope node_id field = node_id @ '':'' @ field"

subsection \<open>Taking apart undoes building\<close>

lemma ident_char_not_colon: "is_ident_char c \<Longrightarrow> c \<noteq> CHR '':''"
  by (auto simp: is_ident_char_def is_ascii_letter_def is_digit_def)

lemma identifier_no_colon: "identifier_match s \<Longrightarrow> CHR '':'' \<notin> set s"
  using ident_char_not_colon
  by (cases s) (auto simp: identifier_match_def list_all_iff is_ident_char_def)

lemma stack_of_format: "CHR '':'' \<notin> set stack \<Longrightarrow> stack_of (format_node_id stack t n) = stack"
  by (simp add: stack_of_def format_node_id_def partition_at_sep)

lemma short_id_format: "CHR '':'' \<notin> set stack \<Longrightarrow> short_id (format_node_id stack t n) = t @ '':'' @ n"
  by (simp add: short_id_def format_node_id_def partition_at_sep)

lemma type_name_of_format:
  "CHR '':'' \<notin> set stack \<Longrightarrow> CHR '':'' \<notin> set t \<Longrightarrow> type_name_of (format_node_id stack t n) = Inr t"
  by (simp add: type_name_of_def format_node_id_def split_once_sep)

lemma local_name_of_format: "CHR '':'' \<notin> set n \<Longrightarrow> local_name_of (format_node_id stack t n) = n"
  using rsplit_once_sep [of "CHR '':''" n "stack @ '':'' @ t"]
  by (simp add: local_name_of_def format_node_id_def)

text \<open>
  An id built from a stack and a name that \<open>require_identifier\<close> accepts and a type name
  without a colon is taken apart into exactly those three parts, by each of the accessors the
  program uses; so two resources share an id only if they agree in all three.
\<close>

lemma node_id_parts:
  assumes "require_identifier stack kind1 = Inr ()" and "require_identifier name kind2 = Inr ()"
    and "CHR '':'' \<notin> set type_name"
  shows "let i = format_node_id stack type_name name in
    stack_of i = stack \<and> type_name_of i = Inr type_name \<and> local_name_of i = name \<and>
    short_id i = type_name @ '':'' @ name"
  using assms
  by (auto simp: Let_def require_identifier_def stack_of_format type_name_of_format
      local_name_of_format short_id_format dest!: identifier_no_colon split: if_splits)

lemma group_by_stack_inv:
  fixes g :: "(string \<times> node_id list) list"
  defines "step \<equiv> \<lambda>node_id g. AList.update (stack_of node_id) (dget g (stack_of node_id) [] @ [node_id]) g"
  shows "dget (fold step ids g) s [] = dget g s [] @ filter (\<lambda>i. stack_of i = s) ids"
proof (induction ids arbitrary: g)
  case (Cons i ids)
  have "dget (step i g) s [] = dget g s [] @ (if stack_of i = s then [i] else [])"
    by (auto simp: step_def dget_def update_conv')
  with Cons show ?case by simp
qed simp

text \<open>
  Grouping ids by stack loses none, invents none and keeps their order: the group of a
  stack is the sublist of the ids of that stack, for every stack, and a dictionary never lists
  a stack twice.
\<close>

lemma group_by_stack_groups:
  "dget (group_by_stack ids) s [] = filter (\<lambda>i. stack_of i = s) ids \<and> wf_dict (group_by_stack ids)"
proof -
  let ?step = "\<lambda>i g. AList.update (stack_of i) (dget g (stack_of i) [] @ [i]) g"
  have "wf_dict g \<Longrightarrow> wf_dict (fold ?step xs g)" for xs and g :: "(string \<times> node_id list) list"
    by (induction xs arbitrary: g) (auto simp: distinct_update)
  then show ?thesis
    using group_by_stack_inv [of ids "[]" s] by (simp add: group_by_stack_def dget_def)
qed

end
