(* ===== verification/PyValue.thy ===== *)
theory PyValue
  imports Prelude
begin

text \<open>
  The values a configuration is made of (\<open>core/types.py\<close>), and the recursive walks over
  them (\<open>core/_tree.py\<close>). \<open>pyval\<close> has a constructor for each Python type the code
  distinguishes: scalars, containers, pydantic models, and the four live handles. A set is
  given by the order one run iterates it in; what depends on that order is a question the
  lemmas answer. Floats are NaN, an infinity, negative zero, or a rational; how a finite
  float prints is a parameter wherever it matters, as it is the platform's.
\<close>

subsection \<open>Values\<close>

datatype pyfloat = FNan | FInf bool | FNegZero | FNum rat

datatype pyval =
    PNone
  | PBool bool
  | PInt int
  | PFloat pyfloat
  | PStr string
  | PList "pyval list"
  | PTuple "pyval list"
  | PSet "pyval list"
  | PDict "(pyval \<times> pyval) list"
  | PModel string "(string \<times> pyval) list"
  | PRef string string
  | PSecretRef string "string option"
  | PStackOut string string
  | PTransform string "pyval list"
  | PObj string

type_synonym props = "pyval pydict"

text \<open>A dictionary whose keys are all strings, as IR properties and markers are.\<close>

definition pdict :: "(string \<times> pyval) list \<Rightarrow> pyval" where
  "pdict m = PDict (map (\<lambda>(k, v). (PStr k, v)) m)"

definition is_scalar :: "pyval \<Rightarrow> bool" where
  "is_scalar v = (case v of PNone \<Rightarrow> True | PBool _ \<Rightarrow> True | PInt _ \<Rightarrow> True | PFloat _ \<Rightarrow> True
     | PStr _ \<Rightarrow> True | _ \<Rightarrow> False)"

lemma is_scalar_simps [simp]:
  "is_scalar PNone" "is_scalar (PBool b)" "is_scalar (PInt i)" "is_scalar (PFloat f)" "is_scalar (PStr s)"
  "\<not> is_scalar (PList vs)" "\<not> is_scalar (PTuple vs)" "\<not> is_scalar (PSet vs)" "\<not> is_scalar (PDict m)"
  "\<not> is_scalar (PModel c fs)" "\<not> is_scalar (PRef n a)" "\<not> is_scalar (PSecretRef n p)"
  "\<not> is_scalar (PStackOut n a)" "\<not> is_scalar (PTransform op vs)" "\<not> is_scalar (PObj c)"
  by (simp_all add: is_scalar_def)

lemma size_pair_in [termination_simp]: "(k, v) \<in> set m \<Longrightarrow> size v < Suc (size_list (size_prod f size) m)"
  by (induction m) auto

lemma size_pair_fst: "(k, v) \<in> set m \<Longrightarrow> size k < Suc (size_list (size_prod size f) m)"
  by (induction m) auto

lemma size_snd_in [termination_simp]: "kv \<in> set m \<Longrightarrow> size (snd kv) < Suc (size_list (size_prod f size) m)"
  by (induction m) auto

lemma size_fst_in [termination_simp]: "kv \<in> set m \<Longrightarrow> size (fst kv) < Suc (size_list (size_prod size f) m)"
  by (induction m) auto

lemma size_elem_in [termination_simp]: "(v :: 'a :: size) \<in> set vs \<Longrightarrow> size v < Suc (size_list size vs)"
  by (induction vs) auto

subsection \<open>Equality\<close>

text \<open>
  Python's \<open>==\<close>: numbers compare by value across \<open>bool\<close>, \<open>int\<close> and \<open>float\<close>, a list never
  equals a tuple, dictionaries and sets compare without regard to order.
\<close>

definition num_val :: "pyval \<Rightarrow> rat option" where
  "num_val v = (case v of PBool b \<Rightarrow> Some (if b then 1 else 0) | PInt i \<Rightarrow> Some (of_int i)
     | PFloat FNegZero \<Rightarrow> Some 0 | PFloat (FNum q) \<Rightarrow> Some q | _ \<Rightarrow> None)"

function py_eq :: "pyval \<Rightarrow> pyval \<Rightarrow> bool" where
  "py_eq v w = (case (v, w) of
      (PNone, PNone) \<Rightarrow> True
    | (PStr s, PStr t) \<Rightarrow> s = t
    | (PFloat (FInf a), PFloat (FInf b)) \<Rightarrow> a = b
    | (PList xs, PList ys) \<Rightarrow> length xs = length ys \<and> list_all (\<lambda>(x, y). py_eq x y) (zip xs ys)
    | (PTuple xs, PTuple ys) \<Rightarrow> length xs = length ys \<and> list_all (\<lambda>(x, y). py_eq x y) (zip xs ys)
    | (PSet xs, PSet ys) \<Rightarrow> length xs = length ys \<and> list_all (\<lambda>x. list_ex (\<lambda>y. py_eq x y) ys) xs
    | (PDict xs, PDict ys) \<Rightarrow> length xs = length ys \<and>
        list_all (\<lambda>kv. list_ex (\<lambda>kw. py_eq (fst kv) (fst kw) \<and> py_eq (snd kv) (snd kw)) ys) xs
    | (PModel c xs, PModel d ys) \<Rightarrow> c = d \<and> length xs = length ys \<and>
        list_all (\<lambda>kv. list_ex (\<lambda>kw. fst kv = fst kw \<and> py_eq (snd kv) (snd kw)) ys) xs
    | (PRef n a, PRef m b) \<Rightarrow> n = m \<and> a = b
    | (PSecretRef n p, PSecretRef m q) \<Rightarrow> n = m \<and> p = q
    | (PStackOut n a, PStackOut m b) \<Rightarrow> n = m \<and> a = b
    | (PTransform f xs, PTransform g ys) \<Rightarrow> f = g \<and> length xs = length ys \<and>
        list_all (\<lambda>(x, y). py_eq x y) (zip xs ys)
    | (PObj c, PObj d) \<Rightarrow> c = d
    | _ \<Rightarrow> (case (num_val v, num_val w) of (Some a, Some b) \<Rightarrow> a = b | _ \<Rightarrow> False))"
  by pat_completeness auto
termination
  by (relation "measure (\<lambda>(v, _). size v)")
    (auto dest!: set_zip_leftD simp: size_elem_in size_pair_fst size_pair_in)

declare py_eq.simps [simp del]


lemma py_eq_scalars [simp]:
  "py_eq PNone PNone" "py_eq (PStr s) (PStr t) \<longleftrightarrow> s = t"
  "py_eq (PBool a) (PBool b) \<longleftrightarrow> a = b" "py_eq (PInt i) (PInt j) \<longleftrightarrow> i = j"
  "\<not> py_eq PNone (PStr s)" "\<not> py_eq (PStr s) PNone"
  by (simp_all add: py_eq.simps num_val_def)

lemma py_eq_numbers: "py_eq (PInt 1) (PBool True)" "py_eq (PBool False) (PFloat (FNum 0))"
  by (simp_all add: py_eq.simps num_val_def)

subsection \<open>The walks that inspect\<close>

text \<open>
  \<open>_children\<close>: what a walker descends into, \<open>None\<close> for a leaf. A transform exposes its
  operands, a model its fields, and a set is entered only when \<open>include_sets\<close> says so.
\<close>

definition children :: "bool \<Rightarrow> pyval \<Rightarrow> pyval list option" where
  "children include_sets v = (case v of
      PDict m \<Rightarrow> Some (map snd m)
    | PList vs \<Rightarrow> Some vs
    | PTuple vs \<Rightarrow> Some vs
    | PSet vs \<Rightarrow> if include_sets then Some vs else None
    | PTransform op args \<Rightarrow> Some args
    | PModel c fs \<Rightarrow> Some (map snd fs)
    | _ \<Rightarrow> None)"

lemma children_size: "children b v = Some cs \<Longrightarrow> c \<in> set cs \<Longrightarrow> size c < size v"
  by (auto simp: children_def size_elem_in size_pair_in split: pyval.splits if_splits)

definition child_list :: "bool \<Rightarrow> pyval \<Rightarrow> pyval list" where
  "child_list b v = (case children b v of None \<Rightarrow> [] | Some cs \<Rightarrow> cs)"

lemma child_list_simps [simp]:
  "child_list b PNone = []" "child_list b (PBool x) = []" "child_list b (PInt i) = []"
  "child_list b (PFloat f) = []" "child_list b (PStr s) = []" "child_list b (PList vs) = vs"
  "child_list b (PTuple vs) = vs" "child_list b (PSet vs) = (if b then vs else [])"
  "child_list b (PDict m) = map snd m" "child_list b (PModel c fs) = map snd fs"
  "child_list b (PRef n a) = []" "child_list b (PSecretRef n p) = []"
  "child_list b (PStackOut n a) = []" "child_list b (PTransform op vs) = vs"
  "child_list b (PObj c) = []"
  by (simp_all add: child_list_def children_def)

lemma child_list_size [termination_simp]: "c \<in> set (child_list b v) \<Longrightarrow> size c < size v"
  by (auto simp: child_list_def intro: children_size [OF sym] split: option.splits)

lemma child_list_scalar: "is_scalar v \<Longrightarrow> child_list b v = []"
  by (cases v) auto

function tree_any :: "bool \<Rightarrow> (pyval \<Rightarrow> bool) \<Rightarrow> pyval \<Rightarrow> bool" where
  "tree_any include_sets P v =
     (if P v then True
      else if is_scalar v then False
      else (case children include_sets v of
              None \<Rightarrow> False
            | Some cs \<Rightarrow> list_ex (tree_any include_sets P) cs))"
  by pat_completeness auto
termination by (relation "measure (\<lambda>(_, _, v). size v)") (auto dest: children_size)

text \<open>A matching node is collected whole: the walk does not descend into it.\<close>

function tree_collect :: "bool \<Rightarrow> (pyval \<Rightarrow> bool) \<Rightarrow> pyval \<Rightarrow> pyval list" where
  "tree_collect include_sets P v =
     (if P v then [v]
      else concat (map (tree_collect include_sets P)
             (case children include_sets v of None \<Rightarrow> [] | Some cs \<Rightarrow> cs)))"
  by pat_completeness auto
termination
  by (relation "measure (\<lambda>(_, _, v). size v)") (auto intro: children_size children_size [OF sym] split: option.splits)

declare tree_any.simps [simp del] tree_collect.simps [simp del]

lemma tree_any_eq: "tree_any b P v \<longleftrightarrow> P v \<or> (\<exists>c \<in> set (child_list b v). tree_any b P c)"
  using child_list_scalar [of v b]
  by (subst tree_any.simps) (auto simp: list_ex_iff child_list_def split: option.splits)

lemma tree_collect_eq:
  "tree_collect b P v = (if P v then [v] else concat (map (tree_collect b P) (child_list b v)))"
  by (subst tree_collect.simps) (simp add: child_list_def)

lemma child_induct [case_names node]:
  assumes "\<And>v. (\<And>c. c \<in> set (child_list b v) \<Longrightarrow> Q c) \<Longrightarrow> Q v"
  shows "Q v"
  by (induction v rule: measure_induct_rule [of size]) (use assms child_list_size in blast)

lemma tree_collect_sound: "w \<in> set (tree_collect b P v) \<Longrightarrow> P w"
proof (induction v rule: child_induct [of b])
  case (node v)
  then show ?case by (subst (asm) tree_collect_eq) (auto split: if_splits)
qed

lemma tree_any_collect: "tree_any b P v \<longleftrightarrow> tree_collect b P v \<noteq> []"
proof (induction v rule: child_induct [of b])
  case (node v)
  then show ?case by (subst tree_any_eq, subst tree_collect_eq) auto
qed

text \<open>The nodes of a tree, the root included.\<close>

inductive subvalue :: "bool \<Rightarrow> pyval \<Rightarrow> pyval \<Rightarrow> bool" for b where
  sub_root: "subvalue b v v"
| sub_child: "c \<in> set (child_list b v) \<Longrightarrow> subvalue b w c \<Longrightarrow> subvalue b w v"

lemma tree_any_iff: "tree_any b P v \<longleftrightarrow> (\<exists>w. subvalue b w v \<and> P w)"
proof
  show "tree_any b P v \<Longrightarrow> \<exists>w. subvalue b w v \<and> P w"
  proof (induction v rule: child_induct [of b])
    case (node v)
    then show ?case by (subst (asm) tree_any_eq) (auto intro: subvalue.intros)
  qed
next
  assume "\<exists>w. subvalue b w v \<and> P w"
  then obtain w where "subvalue b w v" "P w" by blast
  then show "tree_any b P v"
    by (induction rule: subvalue.induct) (subst tree_any_eq, blast)+
qed

subsection \<open>The walk that rebuilds\<close>

text \<open>
  What the platform prints: \<open>repr\<close> of a float, and of an object the JSON encoder does not
  know. Both are parameters of what follows.
\<close>

record pyenv =
  float_repr :: "pyfloat \<Rightarrow> string"
  obj_repr :: "pyval \<Rightarrow> string"

text \<open>\<open>str(key)\<close>\<close>

definition py_str :: "pyenv \<Rightarrow> pyval \<Rightarrow> string" where
  "py_str env v = (case v of PStr s \<Rightarrow> s | PNone \<Rightarrow> ''None'' | PBool b \<Rightarrow> (if b then ''True'' else ''False'')
     | PInt i \<Rightarrow> int_str i | PFloat f \<Rightarrow> float_repr env f | _ \<Rightarrow> obj_repr env v)"

definition hex_char :: "nat \<Rightarrow> char" where
  "hex_char d = (if d < 10 then digit_char d else char_of (87 + d))"

text \<open>
  The string escapes of \<open>json.dumps\<close>; with \<open>ensure_ascii\<close> what is not printable ASCII is
  escaped too.
\<close>

definition short_escape :: "nat \<Rightarrow> char option" where
  "short_escape n = (if n = 34 then Some (CHR 0x22) else if n = 92 then Some (CHR 0x5C)
     else if n = 8 then Some (CHR ''b'') else if n = 9 then Some (CHR ''t'')
     else if n = 10 then Some (CHR ''n'') else if n = 12 then Some (CHR ''f'')
     else if n = 13 then Some (CHR ''r'') else None)"

definition json_char :: "bool \<Rightarrow> char \<Rightarrow> string" where
  "json_char ensure_ascii c = (let n = (of_char c :: nat) in
     case short_escape n of
       Some d \<Rightarrow> [CHR 0x5C, d]
     | None \<Rightarrow> if n < 32 \<or> (ensure_ascii \<and> 127 \<le> n)
         then [CHR 0x5C, CHR ''u'', CHR ''0'', CHR ''0'', hex_char (n div 16), hex_char (n mod 16)]
         else [c])"

definition json_str :: "bool \<Rightarrow> string \<Rightarrow> string" where
  "json_str ensure_ascii s = CHR 0x22 # concat (map (json_char ensure_ascii) s) @ [CHR 0x22]"

fun join_with :: "string \<Rightarrow> string list \<Rightarrow> string" where
  "join_with sep [] = []"
| "join_with sep [x] = x"
| "join_with sep (x # y # ys) = x @ sep @ join_with sep (y # ys)"

definition key_str :: "pyval \<Rightarrow> (aerror, string) result" where
  "key_str k = (case k of PStr s \<Rightarrow> Inr s | _ \<Rightarrow> Inl (PyTypeError ''keys must sort as strings''))"

text \<open>
  \<open>order_key\<close>: \<open>json.dumps(value, sort_keys=True, default=repr)\<close>. What it is applied to has
  been mapped already, so every dictionary in it is a marker with string keys.
\<close>

function order_key :: "pyenv \<Rightarrow> pyval \<Rightarrow> (aerror, string) result" where
  "order_key env v = (case v of
      PNone \<Rightarrow> Inr ''null''
    | PBool b \<Rightarrow> Inr (if b then ''true'' else ''false'')
    | PInt i \<Rightarrow> Inr (int_str i)
    | PFloat FNan \<Rightarrow> Inr ''NaN''
    | PFloat (FInf neg) \<Rightarrow> Inr (if neg then ''-Infinity'' else ''Infinity'')
    | PFloat f \<Rightarrow> Inr (float_repr env f)
    | PStr s \<Rightarrow> Inr (json_str True s)
    | PList vs \<Rightarrow> rbind (rmap (order_key env) vs) (\<lambda>ts. Inr (''['' @ join_with '', '' ts @ '']''))
    | PTuple vs \<Rightarrow> rbind (rmap (order_key env) vs) (\<lambda>ts. Inr (''['' @ join_with '', '' ts @ '']''))
    | PDict m \<Rightarrow> rbind (rmap (\<lambda>(k, x). rbind (key_str k) (\<lambda>s. rbind (order_key env x) (\<lambda>t. Inr (s, t)))) m)
        (\<lambda>kts. Inr (''{'' @ join_with '', '' (map (\<lambda>(s, t). json_str True s @ '': '' @ t) (sort_key fst kts)) @ ''}''))
    | _ \<Rightarrow> Inr (json_str True (obj_repr env v)))"
  by pat_completeness auto
termination by (relation "measure (\<lambda>(_, v). size v)") (auto simp: size_elem_in size_pair_in)

declare order_key.simps [simp del]

text \<open>
  \<open>_mapped_keys\<close> interleaved with the walk, as the comprehension that drains the generator
  interleaves them: an item is mapped before the next key is checked.
\<close>

fun map_items :: "pyenv \<Rightarrow> bool \<Rightarrow> (pyval \<Rightarrow> (aerror, pyval) result) \<Rightarrow> pyval list \<Rightarrow> (pyval \<times> pyval) list
    \<Rightarrow> (aerror, (pyval \<times> pyval) list) result" where
  "map_items env stringify f seen [] = Inr []"
| "map_items env stringify f seen ((k, x) # m) =
     (let stored = (if stringify then PStr (py_str env k) else k)
      in if list_ex (py_eq stored) seen then Inl (IRError ''property keys both encode as'' [py_str env k])
         else rbind (f x) (\<lambda>y. rbind (map_items env stringify f (stored # seen) m) (\<lambda>r. Inr ((stored, y) # r))))"

lemma map_items_same:
  "(\<And>k x. (k, x) \<in> set m \<Longrightarrow> f x = g x) \<Longrightarrow> map_items env s f seen m = map_items env s g seen m"
proof (induction m arbitrary: seen)
  case (Cons kx m)
  then have "f (snd kx) = g (snd kx)" and "\<And>seen. map_items env s f seen m = map_items env s g seen m"
    by (cases kx, auto)
  then show ?case by (cases kx) (simp add: Let_def)
qed simp

lemma map_items_cong [fundef_cong]:
  "m = m' \<Longrightarrow> (\<And>k x. (k, x) \<in> set m' \<Longrightarrow> f x = g x) \<Longrightarrow>
    map_items env s f seen m = map_items env s g seen m'"
  by (auto intro: map_items_same)

text \<open>\<open>sorted(xs, key=order_key)\<close>: the keys first, then a stable sort.\<close>

definition sorted_by_key :: "(pyval \<Rightarrow> (aerror, string) result) \<Rightarrow> pyval list \<Rightarrow> (aerror, pyval list) result" where
  "sorted_by_key key vs =
     rbind (rmap (\<lambda>v. rbind (key v) (\<lambda>s. Inr (s, v))) vs) (\<lambda>kvs. Inr (map snd (sort_key fst kvs)))"

text \<open>
  \<open>tree_map\<close>: \<open>leaf\<close> answers \<open>None\<close> where the source returns the value it was given, which
  lets the walk descend; \<open>tree_step\<close> is that descent, \<open>recur\<close> the walk of one child.
\<close>

definition tree_step :: "pyenv \<Rightarrow> bool \<Rightarrow> (pyval \<Rightarrow> (aerror, pyval) result) \<Rightarrow> pyval \<Rightarrow> (aerror, pyval) result" where
  "tree_step env stringify recur v = (case v of
      PDict m \<Rightarrow> rbind (map_items env stringify recur [] m) (\<lambda>r. Inr (PDict r))
    | PSet vs \<Rightarrow> rbind (rmap recur vs)
        (\<lambda>ws. rbind (sorted_by_key (order_key env) ws) (\<lambda>r. Inr (PList r)))
    | PList vs \<Rightarrow> rbind (rmap recur vs) (\<lambda>ws. Inr (PList ws))
    | PTuple vs \<Rightarrow> rbind (rmap recur vs) (\<lambda>ws. Inr (PList ws))
    | PModel c fs \<Rightarrow>
        rbind (rmap (\<lambda>(k, x). rbind (recur x) (\<lambda>y. Inr (k, y))) (sort_key fst fs)) (\<lambda>r. Inr (pdict r))
    | _ \<Rightarrow> Inr v)"

lemma tree_step_same:
  assumes "\<And>c. c \<in> set (child_list True v) \<Longrightarrow> f c = g c"
  shows "tree_step env s f v = tree_step env s g v"
proof (cases v)
  case (PDict m)
  then have "map_items env s f [] m = map_items env s g [] m"
    by (intro map_items_same assms) force
  with PDict show ?thesis by (simp add: tree_step_def)
next
  case (PModel c fs)
  then have "rmap (\<lambda>(k, x). rbind (f x) (\<lambda>y. Inr (k, y))) (sort_key fst fs) =
      rmap (\<lambda>(k, x). rbind (g x) (\<lambda>y. Inr (k, y))) (sort_key fst fs)"
    by (intro rmap_cong refl) (use assms in force)
  with PModel show ?thesis by (simp add: tree_step_def)
next
  case (PSet vs)
  then have "rmap f vs = rmap g vs" by (intro rmap_cong refl assms) simp
  with PSet show ?thesis by (simp add: tree_step_def)
next
  case (PList vs)
  then have "rmap f vs = rmap g vs" by (intro rmap_cong refl assms) simp
  with PList show ?thesis by (simp add: tree_step_def)
next
  case (PTuple vs)
  then have "rmap f vs = rmap g vs" by (intro rmap_cong refl assms) simp
  with PTuple show ?thesis by (simp add: tree_step_def)
qed (simp_all add: tree_step_def)

lemma tree_step_cong [fundef_cong]:
  assumes "v = w" and "\<And>c. c \<in> set (child_list True w) \<Longrightarrow> f c = g c"
  shows "tree_step env s f v = tree_step env s g w"
  unfolding assms(1) using assms(2) by (rule tree_step_same)

function tree_map :: "pyenv \<Rightarrow> (pyval \<Rightarrow> (aerror, pyval option) result) \<Rightarrow> bool \<Rightarrow> pyval \<Rightarrow> (aerror, pyval) result" where
  "tree_map env leaf stringify v = rbind (leaf v) (\<lambda>replaced. case replaced of
      Some w \<Rightarrow> Inr w
    | None \<Rightarrow> tree_step env stringify (tree_map env leaf stringify) v)"
  by pat_completeness auto
termination by (relation "measure (\<lambda>(_, _, _, v). size v)") (auto simp: child_list_size)

declare tree_map.simps [simp del]

lemma tree_map_same:
  assumes "\<And>w. size w \<le> size v \<Longrightarrow> leaf w = leaf' w"
  shows "tree_map env leaf s v = tree_map env leaf' s v"
  using assms
proof (induction v rule: child_induct [of True])
  case (node v)
  have "tree_map env leaf s c = tree_map env leaf' s c" if "c \<in> set (child_list True v)" for c
    using node child_list_size [OF that] that by auto
  then have "tree_step env s (tree_map env leaf s) v = tree_step env s (tree_map env leaf' s) v"
    by (rule tree_step_same)
  moreover have "leaf v = leaf' v" by (rule node.prems) simp
  ultimately show ?case
    by (simp add: tree_map.simps [of _ leaf _ v] tree_map.simps [of _ leaf' _ v])
qed

lemma tree_map_cong [fundef_cong]:
  assumes "env = env'" and "s = s'" and "v = v'" and "\<And>w. size w \<le> size v' \<Longrightarrow> leaf w = leaf' w"
  shows "tree_map env leaf s v = tree_map env' leaf' s' v'"
  unfolding assms(1-3) using assms(4) by (rule tree_map_same)

end
