(* ===== verification/Markers.thy ===== *)
theory Markers
  imports PyValue NodeId
begin

text \<open>
  Handles and the markers they serialize to (\<open>core/types.py\<close>, \<open>core/markers.py\<close>): a live
  \<open>Ref\<close>, secret reference, stack output reference or transform becomes a single-key
  \<open>{"$...": ...}\<close> dictionary, and the walks over lowered trees find the markers again. The
  lemmas show that lowering is total cleaning (no live object is left), that it changes
  nothing the second time, and that it neither loses nor invents a dependency.
\<close>

subsection \<open>Handles\<close>

definition REF_KEY :: string where "REF_KEY = ''$ref''"
definition SECRET_REF_KEY :: string where "SECRET_REF_KEY = ''$secret_ref''"
definition STACK_OUTPUT_KEY :: string where "STACK_OUTPUT_KEY = ''$stack_output''"
definition TRANSFORM_KEY :: string where "TRANSFORM_KEY = ''$transform''"

lemmas marker_keys = REF_KEY_def SECRET_REF_KEY_def STACK_OUTPUT_KEY_def TRANSFORM_KEY_def

definition is_ref :: "pyval \<Rightarrow> bool" where
  "is_ref v = (case v of PRef _ _ \<Rightarrow> True | _ \<Rightarrow> False)"

definition is_transform :: "pyval \<Rightarrow> bool" where
  "is_transform v = (case v of PTransform _ _ \<Rightarrow> True | _ \<Rightarrow> False)"

text \<open>\<open>isinstance(v, HANDLES)\<close>\<close>

definition is_handle :: "pyval \<Rightarrow> bool" where
  "is_handle v = (case v of PRef _ _ \<Rightarrow> True | PSecretRef _ _ \<Rightarrow> True | PStackOut _ _ \<Rightarrow> True
     | PTransform _ _ \<Rightarrow> True | _ \<Rightarrow> False)"

definition opt_str :: "string option \<Rightarrow> pyval" where
  "opt_str p = (case p of None \<Rightarrow> PNone | Some s \<Rightarrow> PStr s)"

text \<open>
  The \<open>canonical\<close> methods. A transform lowers its arguments with \<open>_canonical_arg\<close>, the walk
  that keeps dictionary keys as they are.
\<close>

function canonical :: "pyenv \<Rightarrow> pyval \<Rightarrow> (aerror, pyval) result" where
  "canonical env v = (case v of
      PRef n a \<Rightarrow> Inr (pdict [(REF_KEY, PStr (n @ ''#'' @ a))])
    | PSecretRef n p \<Rightarrow> Inr (pdict [(SECRET_REF_KEY, pdict [(''name'', PStr n), (''provider'', opt_str p)])])
    | PStackOut s n \<Rightarrow> Inr (pdict [(STACK_OUTPUT_KEY, PStr (s @ '':'' @ n))])
    | PTransform op args \<Rightarrow>
        rbind (rmap (\<lambda>a. tree_map env (\<lambda>w. if is_handle w then rbind (canonical env w) (\<lambda>m. Inr (Some m)) else Inr None)
          False a) args)
          (\<lambda>ws. Inr (pdict [(TRANSFORM_KEY, pdict [(''op'', PStr op), (''args'', PList ws)])]))
    | _ \<Rightarrow> Inl (PyTypeError ''no canonical form''))"
  by pat_completeness auto
termination
  by (relation "measure (\<lambda>(_, v). size v)") (auto dest: size_elem_in)

declare canonical.simps [simp del]

definition handle_leaf :: "pyenv \<Rightarrow> (pyval \<Rightarrow> bool) \<Rightarrow> pyval \<Rightarrow> (aerror, pyval option) result" where
  "handle_leaf env kinds v = (if kinds v then rbind (canonical env v) (\<lambda>m. Inr (Some m)) else Inr None)"

definition handles_to_markers :: "pyenv \<Rightarrow> (pyval \<Rightarrow> bool) \<Rightarrow> bool \<Rightarrow> pyval \<Rightarrow> (aerror, pyval) result" where
  "handles_to_markers env kinds stringify v = tree_map env (handle_leaf env kinds) stringify v"

definition canonicalize :: "pyenv \<Rightarrow> pyval \<Rightarrow> (aerror, pyval) result" where
  "canonicalize env v = handles_to_markers env is_handle True v"

definition refs_to_markers :: "pyenv \<Rightarrow> pyval \<Rightarrow> (aerror, pyval) result" where
  "refs_to_markers env v = handles_to_markers env (\<lambda>v. is_ref v \<or> is_transform v) True v"

lemma handles_to_markers_fun:
  "handles_to_markers env kinds s = tree_map env
     (\<lambda>w. if kinds w then rbind (canonical env w) (\<lambda>m. Inr (Some m)) else Inr None) s"
  by (simp add: fun_eq_iff handles_to_markers_def) (simp add: handle_leaf_def [abs_def])

lemma canonical_simps [simp]:
  "canonical env (PRef n a) = Inr (pdict [(REF_KEY, PStr (n @ ''#'' @ a))])"
  "canonical env (PSecretRef n p) = Inr (pdict [(SECRET_REF_KEY, pdict [(''name'', PStr n), (''provider'', opt_str p)])])"
  "canonical env (PStackOut s n) = Inr (pdict [(STACK_OUTPUT_KEY, PStr (s @ '':'' @ n))])"
  "canonical env (PTransform op args) = rbind (rmap (handles_to_markers env is_handle False) args)
     (\<lambda>ws. Inr (pdict [(TRANSFORM_KEY, pdict [(''op'', PStr op), (''args'', PList ws)])]))"
  by (subst canonical.simps, simp add: handles_to_markers_fun)+

subsection \<open>Markers\<close>

definition pd_get :: "(pyval \<times> pyval) list \<Rightarrow> string \<Rightarrow> pyval option" where
  "pd_get m k = map_of m (PStr k)"

definition single_key_marker :: "pyval \<Rightarrow> string \<Rightarrow> pyval option" where
  "single_key_marker v key = (case v of PDict m \<Rightarrow> if length m = 1 then pd_get m key else None | _ \<Rightarrow> None)"

definition as_str :: "pyval \<Rightarrow> string option" where
  "as_str v = (case v of PStr s \<Rightarrow> Some s | _ \<Rightarrow> None)"

lemma as_str_iff [simp]: "as_str v = Some s \<longleftrightarrow> v = PStr s"
  by (cases v) (auto simp: as_str_def)

lemma as_str_PStr [simp]: "as_str (PStr s) = Some s"
  by simp

definition is_ref_marker :: "pyval \<Rightarrow> bool" where
  "is_ref_marker v = (case Option.bind (single_key_marker v REF_KEY) as_str of
     Some t \<Rightarrow> CHR ''#'' \<in> set t | None \<Rightarrow> False)"

text \<open>\<open>ref_from_marker\<close>: the unpacking raises \<open>ValueError\<close> when there is no \<open>#\<close>.\<close>

definition ref_from_marker :: "pyval \<Rightarrow> (aerror, string \<times> string) result" where
  "ref_from_marker v = (case v of
      PDict m \<Rightarrow> (case pd_get m REF_KEY of
          Some (PStr t) \<Rightarrow> (case split_once CHR ''#'' t of [n, a] \<Rightarrow> Inr (n, a) | _ \<Rightarrow> Inl (PyValueError ''unpack''))
        | Some _ \<Rightarrow> Inl (PyTypeError ''split'')
        | None \<Rightarrow> Inl (KeyError REF_KEY))
    | _ \<Rightarrow> Inl (PyTypeError ''subscript''))"

definition is_stack_output_marker :: "pyval \<Rightarrow> bool" where
  "is_stack_output_marker v = (Option.bind (single_key_marker v STACK_OUTPUT_KEY) as_str \<noteq> None)"

definition stack_output_from_marker :: "pyval \<Rightarrow> (aerror, string \<times> string) result" where
  "stack_output_from_marker v = (case v of
      PDict m \<Rightarrow> (case pd_get m STACK_OUTPUT_KEY of
          Some (PStr t) \<Rightarrow> (case split_once CHR '':'' t of [s, n] \<Rightarrow> Inr (s, n) | _ \<Rightarrow> Inl (PyValueError ''unpack''))
        | Some _ \<Rightarrow> Inl (PyTypeError ''split'')
        | None \<Rightarrow> Inl (KeyError STACK_OUTPUT_KEY))
    | _ \<Rightarrow> Inl (PyTypeError ''subscript''))"

definition is_ref_or_marker :: "pyval \<Rightarrow> bool" where
  "is_ref_or_marker v = (is_ref v \<or> is_ref_marker v)"

definition is_transform_marker :: "pyval \<Rightarrow> bool" where
  "is_transform_marker v = (case single_key_marker v TRANSFORM_KEY of
     Some (PDict b) \<Rightarrow> pd_get b ''op'' \<noteq> None \<and> pd_get b ''args'' \<noteq> None | _ \<Rightarrow> False)"

text \<open>
  \<open>transform_from_marker\<close>, which its callers apply only where \<open>is_transform_marker\<close> holds;
  \<open>list(args)\<close> of a list, tuple or set is its elements, of a dictionary its keys.
\<close>

definition transform_from_marker :: "pyval \<Rightarrow> (aerror, pyval \<times> pyval list) result" where
  "transform_from_marker v = (case single_key_marker v TRANSFORM_KEY of
      Some (PDict b) \<Rightarrow> (case (pd_get b ''op'', pd_get b ''args'') of
          (Some op, Some args) \<Rightarrow> (case args of
              PList as \<Rightarrow> Inr (op, as) | PTuple as \<Rightarrow> Inr (op, as) | PSet as \<Rightarrow> Inr (op, as)
            | PDict m \<Rightarrow> Inr (op, map fst m) | PStr s \<Rightarrow> Inr (op, map (\<lambda>c. PStr [c]) s)
            | _ \<Rightarrow> Inl (PyTypeError ''not iterable''))
        | _ \<Rightarrow> Inl (KeyError ''op or args''))
    | _ \<Rightarrow> Inl (KeyError TRANSFORM_KEY))"

definition contains_ref :: "pyval \<Rightarrow> bool" where
  "contains_ref v = tree_any True is_ref v"

definition contains_handle :: "pyval \<Rightarrow> bool" where
  "contains_handle v = tree_any True is_handle v"

definition collect_refs :: "pyval \<Rightarrow> pyval list" where
  "collect_refs v = tree_collect True is_ref v"

text \<open>\<open>isinstance(v, dict) and REF_KEY in v\<close>, and the stricter test of \<open>collect_ref_targets\<close>.\<close>

definition has_ref_entry :: "pyval \<Rightarrow> bool" where
  "has_ref_entry v = (case v of PDict m \<Rightarrow> pd_get m REF_KEY \<noteq> None | _ \<Rightarrow> False)"

definition ref_target :: "pyval \<Rightarrow> string option" where
  "ref_target v = (case v of
      PDict m \<Rightarrow> map_option (\<lambda>t. fst (partition_at CHR ''#'' t)) (Option.bind (pd_get m REF_KEY) as_str)
    | _ \<Rightarrow> None)"

definition has_ref_key :: "pyval \<Rightarrow> bool" where
  "has_ref_key v = tree_any False has_ref_entry v"

definition collect_ref_targets :: "pyval \<Rightarrow> node_id list" where
  "collect_ref_targets v = map (\<lambda>w. the (ref_target w)) (tree_collect False (\<lambda>w. ref_target w \<noteq> None) v)"

definition remap_leaf :: "(node_id \<times> node_id) list \<Rightarrow> pyval \<Rightarrow> (aerror, pyval option) result" where
  "remap_leaf remap v =
     (if is_ref_marker v then rbind (ref_from_marker v) (\<lambda>(n, a). case map_of remap n of
          Some n' \<Rightarrow> Inr (Some (pdict [(REF_KEY, PStr (n' @ ''#'' @ a))]))
        | None \<Rightarrow> Inr None)
      else Inr None)"

definition remap_refs :: "pyenv \<Rightarrow> pyval \<Rightarrow> (node_id \<times> node_id) list \<Rightarrow> (aerror, pyval) result" where
  "remap_refs env v remap = tree_map env (remap_leaf remap) False v"

subsection \<open>One level of the walk\<close>

lemma map_items_snd:
  "map_items env s f seen m = Inr r \<Longrightarrow> map Inr (map snd r) = map f (map snd m)"
  by (induction m arbitrary: seen r) (auto simp: Let_def rbind_Inr_iff split: if_splits)

lemma map_items_fst:
  "map_items env s f seen m = Inr r \<Longrightarrow> map fst r = map (\<lambda>(k, x). if s then PStr (py_str env k) else k) m"
  by (induction m arbitrary: seen r) (auto simp: Let_def rbind_Inr_iff split: if_splits)

lemma rmap_Inr_map: "rmap f xs = Inr ys \<Longrightarrow> map Inr ys = map f xs"
  by (induction xs arbitrary: ys) (auto simp: rbind_Inr_iff)

lemma sorted_by_key_set: "sorted_by_key key vs = Inr ws \<Longrightarrow> mset ws = mset vs"
proof -
  assume "sorted_by_key key vs = Inr ws"
  then obtain kvs where k: "rmap (\<lambda>v. rbind (key v) (\<lambda>s. Inr (s, v))) vs = Inr kvs"
    and ws: "ws = map snd (sort_key fst kvs)"
    by (auto simp: sorted_by_key_def rbind_Inr_iff)
  have "map snd kvs = vs"
    using k by (induction vs arbitrary: kvs) (auto simp: rbind_Inr_iff)
  then have "mset vs = image_mset snd (mset kvs)" by (metis mset_map)
  then show ?thesis by (simp add: ws)
qed

lemma set_pdict_snd: "map snd (map (\<lambda>(k, v). (PStr k, v)) m) = map snd m"
  by (induction m) auto

text \<open>
  The children of what one step returns are the results on the children it was given: the
  step neither drops nor adds one (a set changes order, which a set of results cannot see).
\<close>

lemma tree_step_children:
  assumes "tree_step env s f v = Inr w" and "\<not> is_transform v"
  shows "Inr ` set (child_list b w) = f ` set (child_list True v)"
proof (cases v)
  case (PDict m)
  then obtain r where "map_items env s f [] m = Inr r" "w = PDict r"
    using assms(1) by (auto simp: tree_step_def rbind_Inr_iff)
  then show ?thesis using arg_cong [OF map_items_snd, of env s f "[]" m r set] PDict
    by (simp add: image_image)
next
  case (PModel c fs)
  let ?g = "\<lambda>(k, x). rbind (f x) (\<lambda>y. Inr (k, y))"
  obtain r where r: "rmap ?g (sort_key fst fs) = Inr r" and w: "w = pdict r"
    using assms(1) PModel by (auto simp: tree_step_def rbind_Inr_iff)
  have "map Inr (map snd r) = map f (map snd xs)" if "rmap ?g xs = Inr r" for xs
    using that by (induction xs arbitrary: r) (auto simp: rbind_Inr_iff)
  from arg_cong [OF this [OF r], of set] show ?thesis
    by (simp add: PModel w pdict_def set_pdict_snd [simplified] image_image case_prod_beta)
next
  case (PSet vs)
  then obtain ws rs where "rmap f vs = Inr ws" "sorted_by_key (order_key env) ws = Inr rs" "w = PList rs"
    using assms(1) by (auto simp: tree_step_def rbind_Inr_iff)
  then show ?thesis
    using arg_cong [OF rmap_Inr_map, of f vs ws set] arg_cong [OF sorted_by_key_set, of _ ws rs set_mset] PSet
    by simp
next
  case (PList vs)
  then obtain ws where "rmap f vs = Inr ws" "w = PList ws"
    using assms(1) by (auto simp: tree_step_def rbind_Inr_iff)
  then show ?thesis using arg_cong [OF rmap_Inr_map, of f vs ws set] PList by simp
next
  case (PTuple vs)
  then obtain ws where "rmap f vs = Inr ws" "w = PList ws"
    using assms(1) by (auto simp: tree_step_def rbind_Inr_iff)
  then show ?thesis using arg_cong [OF rmap_Inr_map, of f vs ws set] PTuple by simp
qed (use assms in \<open>auto simp: tree_step_def is_transform_def\<close>)

lemma tree_step_childD:
  assumes "tree_step env s f v = Inr w" and "\<not> is_transform v" and "d \<in> set (child_list b w)"
  obtains c where "c \<in> set (child_list True v)" and "f c = Inr d"
proof -
  have "Inr d \<in> f ` set (child_list True v)"
    using tree_step_children [OF assms(1,2), of b] assms(3) by blast
  then show thesis using that by (metis imageE)
qed

lemma handles_to_markers_handle:
  "kinds v \<Longrightarrow> handles_to_markers env kinds s v = canonical env v"
  by (cases "canonical env v")
    (simp_all add: handles_to_markers_def tree_map.simps [of _ _ _ v] handle_leaf_def)

lemma handles_to_markers_step:
  "\<not> kinds v \<Longrightarrow> handles_to_markers env kinds s v = tree_step env s (handles_to_markers env kinds s) v"
  by (simp add: handles_to_markers_def [abs_def] tree_map.simps [of _ _ _ v])
    (simp add: handle_leaf_def)

lemma is_transform_handle: "is_transform v \<Longrightarrow> is_handle v"
  by (auto simp: is_transform_def is_handle_def split: pyval.splits)

lemma tree_any_marker:
  "tree_any b P (pdict [(k, v)]) \<longleftrightarrow> P (pdict [(k, v)]) \<or> tree_any b P v"
  by (subst tree_any_eq) (simp add: pdict_def)

lemma tree_any_pdict:
  "tree_any b P (pdict m) \<longleftrightarrow> P (pdict m) \<or> (\<exists>(k, v) \<in> set m. tree_any b P v)"
  by (subst tree_any_eq) (force simp: pdict_def)

lemma tree_any_scalar: "is_scalar v \<Longrightarrow> tree_any b P v \<longleftrightarrow> P v"
  by (subst tree_any_eq) (simp add: child_list_scalar)

lemma tree_any_list: "tree_any b P (PList vs) \<longleftrightarrow> P (PList vs) \<or> (\<exists>v \<in> set vs. tree_any b P v)"
  by (subst tree_any_eq) simp

lemma opt_str_scalar [simp]: "is_scalar (opt_str p)"
  by (simp add: opt_str_def split: option.split)

text \<open>What a lowered tree must not contain: a live handle, a set, a tuple, a model.\<close>

definition is_live :: "pyval \<Rightarrow> bool" where
  "is_live v = (case v of PRef _ _ \<Rightarrow> True | PSecretRef _ _ \<Rightarrow> True | PStackOut _ _ \<Rightarrow> True
     | PTransform _ _ \<Rightarrow> True | PSet _ \<Rightarrow> True | PTuple _ \<Rightarrow> True | PModel _ _ \<Rightarrow> True | _ \<Rightarrow> False)"

lemma is_live_simps [simp]:
  "\<not> is_live (pdict m)" "\<not> is_live (PDict d)" "\<not> is_live (PList vs)" "\<not> is_live (opt_str p)"
  "\<not> is_live (PStr s)"
  by (simp_all add: is_live_def pdict_def opt_str_def split: option.split)

lemma tree_step_not_live: "tree_step env s f v = Inr w \<Longrightarrow> \<not> is_handle v \<Longrightarrow> \<not> is_live w"
  by (cases v) (auto simp: tree_step_def rbind_Inr_iff is_handle_def is_live_def pdict_def)

lemma handles_to_markers_not_live:
  "handles_to_markers env is_handle s v = Inr w \<Longrightarrow> \<not> tree_any True is_live w"
proof (induction v arbitrary: s w rule: child_induct [of True])
  case (node v)
  show ?case
  proof (cases "is_handle v")
    case True
    then have c: "canonical env v = Inr w" using node.prems by (simp add: handles_to_markers_handle)
    show ?thesis
    proof (cases v)
      case (PTransform op args)
      then obtain ws where ws: "rmap (handles_to_markers env is_handle False) args = Inr ws"
        and w: "w = pdict [(TRANSFORM_KEY, pdict [(''op'', PStr op), (''args'', PList ws)])]"
        using c by (auto simp: rbind_Inr_iff)
      have "\<not> tree_any True is_live x" if "x \<in> set ws" for x
        using rmap_Inr_setD [OF ws that] node.IH PTransform by auto
      then show ?thesis by (simp add: w tree_any_pdict tree_any_list tree_any_scalar)
    qed (use c True in \<open>auto simp: is_handle_def tree_any_pdict tree_any_scalar\<close>)
  next
    case False
    then have st: "tree_step env s (handles_to_markers env is_handle s) v = Inr w"
      using node.prems by (simp add: handles_to_markers_step)
    have "\<not> tree_any True is_live d" if "d \<in> set (child_list True w)" for d
      by (rule tree_step_childD [OF st _ that]) (use False is_transform_handle node.IH in blast)+
    then show ?thesis
      using tree_step_not_live [OF st False] by (subst tree_any_eq) blast
  qed
qed

text \<open>
  Canonicalizing a value leaves nothing live in it. Whatever handles, sets, tuples and
  models were nested in the input, at any depth and inside each other, the result has none.
\<close>

lemma canonicalize_leaves_nothing_live:
  assumes "canonicalize env v = Inr w"
  shows "\<not> tree_any True is_live w \<and> \<not> contains_handle w"
proof -
  have *: "\<not> tree_any True is_live w"
    using assms unfolding canonicalize_def by (rule handles_to_markers_not_live)
  moreover have "is_live x" if "is_handle x" for x
    using that by (auto simp: is_handle_def is_live_def split: pyval.splits)
  ultimately show ?thesis by (auto simp: contains_handle_def tree_any_iff)
qed

definition plain_env :: pyenv where
  "plain_env = \<lparr>float_repr = (\<lambda>_. ''0.0''), obj_repr = (\<lambda>_. ''object'')\<rparr>"

definition sample_value :: pyval where
  "sample_value = PDict [(PStr ''vpc'', PRef ''s:t:vpc'' ''id''), (PInt 1, PSet [PRef ''s:t:b'' ''x'', PRef ''s:t:a'' ''x'']),
     (PStr ''t'', PTuple [PTransform ''concat'' [PStr ''p'', PRef ''s:t:c'' ''arn''], PModel ''M'' [(''z'', PRef ''s:t:d'' ''y'')]])]"

definition sample_lowered :: pyval where
  "sample_lowered = PDict [(PStr ''vpc'', pdict [(''$ref'', PStr ''s:t:vpc#id'')]),
     (PStr ''1'', PList [pdict [(''$ref'', PStr ''s:t:a#x'')], pdict [(''$ref'', PStr ''s:t:b#x'')]]),
     (PStr ''t'', PList [pdict [(''$transform'', pdict [(''op'', PStr ''concat''),
         (''args'', PList [PStr ''p'', pdict [(''$ref'', PStr ''s:t:c#arn'')]])])],
       pdict [(''z'', pdict [(''$ref'', PStr ''s:t:d#y'')])]])]"

lemma sample_lowers: "canonicalize plain_env sample_value = Inr sample_lowered"
  by code_simp

subsection \<open>Lowering keeps the dependencies\<close>

text \<open>The ids of the live references in a value, and of the markers in a lowered one.\<close>

definition ref_ids :: "pyval \<Rightarrow> node_id set" where
  "ref_ids v = {n. \<exists>a. PRef n a \<in> set (collect_refs v)}"

lemma ref_ids_eq:
  "ref_ids v = (case v of PRef n a \<Rightarrow> {n} | _ \<Rightarrow> (\<Union>c \<in> set (child_list True v). ref_ids c))"
  unfolding ref_ids_def collect_refs_def
  by (subst tree_collect_eq) (auto simp: is_ref_def split: pyval.splits)

lemma ref_ids_node: "\<not> is_ref v \<Longrightarrow> ref_ids v = (\<Union>c \<in> set (child_list True v). ref_ids c)"
  by (subst ref_ids_eq) (simp add: is_ref_def split: pyval.splits)

lemma targets_eq:
  "set (collect_ref_targets w) =
     (case ref_target w of Some n \<Rightarrow> {n} | None \<Rightarrow> (\<Union>c \<in> set (child_list False w). set (collect_ref_targets c)))"
  unfolding collect_ref_targets_def
  by (subst tree_collect_eq) (auto split: option.splits)

text \<open>No dictionary key and no model field prints as \<open>$ref\<close>: the key is the program's own.\<close>

definition prints_ref_key :: "pyenv \<Rightarrow> pyval \<times> pyval \<Rightarrow> bool" where
  "prints_ref_key env kx = (py_str env (fst kx) = REF_KEY)"

definition claims_ref_key :: "pyenv \<Rightarrow> pyval \<Rightarrow> bool" where
  "claims_ref_key env v = (case v of
      PDict m \<Rightarrow> list_ex (prints_ref_key env) m
    | PModel c fs \<Rightarrow> list_ex (\<lambda>kx. fst kx = REF_KEY) fs
    | _ \<Rightarrow> False)"

definition no_ref_keys :: "pyenv \<Rightarrow> pyval \<Rightarrow> bool" where
  "no_ref_keys env v = (\<not> tree_any True (claims_ref_key env) v)"

lemma no_ref_keys_eq:
  "no_ref_keys env v \<longleftrightarrow> \<not> claims_ref_key env v \<and> (\<forall>c \<in> set (child_list True v). no_ref_keys env c)"
  unfolding no_ref_keys_def by (subst tree_any_eq) blast

lemma map_of_PStr_None: "PStr k \<notin> set (map fst m) \<Longrightarrow> map_of m (PStr k) = None"
  by (simp add: map_of_eq_None_iff)

lemma pd_get_pdict: "pd_get (map (\<lambda>(k, v). (PStr k, v)) m) k = map_of m k"
  by (induction m) (auto simp: pd_get_def)

lemma py_str_PStr [simp]: "py_str env (PStr s) = s"
  by (simp add: py_str_def)

lemma tree_step_no_marker:
  assumes "tree_step env s f v = Inr w" and "\<not> is_handle v" and "\<not> claims_ref_key env v"
  shows "ref_target w = None"
proof (cases v)
  case (PDict m)
  then obtain r where r: "map_items env s f [] m = Inr r" and w: "w = PDict r"
    using assms(1) by (auto simp: tree_step_def rbind_Inr_iff)
  have "PStr REF_KEY \<notin> set (map fst r)"
    unfolding map_items_fst [OF r] using assms(3) PDict
    by (force simp: claims_ref_key_def prints_ref_key_def list_ex_iff split: if_splits)
  then show ?thesis by (simp add: w ref_target_def pd_get_def map_of_PStr_None)
next
  case (PModel c fs)
  let ?g = "\<lambda>(k, x). rbind (f x) (\<lambda>y. Inr (k, y))"
  obtain r where r: "rmap ?g (sort_key fst fs) = Inr r" and w: "w = pdict r"
    using assms(1) PModel by (auto simp: tree_step_def rbind_Inr_iff)
  have "map fst r = map fst xs" if "rmap ?g xs = Inr r" for xs
    using that by (induction xs arbitrary: r) (auto simp: rbind_Inr_iff)
  from arg_cong [OF this [OF r], of set] have "fst ` set r = fst ` set fs" by simp
  moreover have "REF_KEY \<notin> fst ` set fs"
    using assms(3) PModel by (auto simp: claims_ref_key_def list_ex_iff)
  ultimately have "REF_KEY \<notin> fst ` set r" by simp
  then have "map_of r REF_KEY = None" by (simp add: map_of_eq_None_iff)
  then show ?thesis by (simp add: w ref_target_def pdict_def pd_get_pdict)
qed (use assms in \<open>auto simp: tree_step_def rbind_Inr_iff ref_target_def is_handle_def\<close>)

lemma targets_scalar: "is_scalar v \<Longrightarrow> set (collect_ref_targets v) = {}"
  by (subst targets_eq) (auto simp: child_list_scalar ref_target_def is_scalar_def split: pyval.splits)

lemma targets_single:
  "k \<noteq> REF_KEY \<Longrightarrow> set (collect_ref_targets (pdict [(k, v)])) = set (collect_ref_targets v)"
  by (subst targets_eq) (simp add: ref_target_def pd_get_def pdict_def)

lemma targets_pair:
  "j \<noteq> REF_KEY \<Longrightarrow> k \<noteq> REF_KEY \<Longrightarrow> set (collect_ref_targets (pdict [(j, v), (k, w)])) =
    set (collect_ref_targets v) \<union> set (collect_ref_targets w)"
  by (subst targets_eq) (auto simp: ref_target_def pd_get_def pdict_def)

lemma targets_list: "set (collect_ref_targets (PList vs)) = (\<Union>v \<in> set vs. set (collect_ref_targets v))"
  by (subst targets_eq) (simp add: ref_target_def)

lemma targets_ref:
  "CHR ''#'' \<notin> set n \<Longrightarrow> set (collect_ref_targets (pdict [(REF_KEY, PStr (n @ ''#'' @ a))])) = {n}"
  by (subst targets_eq) (simp add: ref_target_def pd_get_def pdict_def partition_at_sep)

lemma targets_secret: "set (collect_ref_targets (pdict [(SECRET_REF_KEY, pdict [(''name'', PStr n), (''provider'', opt_str p)])])) = {}"
  by (subst targets_single, simp add: marker_keys, subst targets_pair)
    (auto simp add: marker_keys targets_scalar simp del: set_empty set_empty2)

lemma targets_stack: "set (collect_ref_targets (pdict [(STACK_OUTPUT_KEY, PStr t)])) = {}"
  by (subst targets_single) (auto simp add: marker_keys targets_scalar simp del: set_empty set_empty2)

lemma UN_results:
  assumes "Inr ` A = f ` B" and "\<And>c d. c \<in> B \<Longrightarrow> f c = Inr d \<Longrightarrow> T d = R c"
  shows "(\<Union>d \<in> A. T d) = (\<Union>c \<in> B. R c)"
proof (intro equalityI subsetI)
  fix x assume "x \<in> (\<Union>d \<in> A. T d)"
  then obtain d where d: "d \<in> A" "x \<in> T d" by blast
  then obtain c where "c \<in> B" "f c = Inr d" using assms(1) by (metis imageE imageI)
  then show "x \<in> (\<Union>c \<in> B. R c)" using assms(2) d by blast
next
  fix x assume "x \<in> (\<Union>c \<in> B. R c)"
  then obtain c where c: "c \<in> B" "x \<in> R c" by blast
  then obtain d where "d \<in> A" "f c = Inr d" using assms(1) by (metis imageE imageI)
  then show "x \<in> (\<Union>d \<in> A. T d)" using assms(2) c by blast
qed

lemma targets_of_lowered:
  "handles_to_markers env is_handle s v = Inr w \<Longrightarrow> no_ref_keys env v \<Longrightarrow>
    (\<And>n. n \<in> ref_ids v \<Longrightarrow> CHR ''#'' \<notin> set n) \<Longrightarrow> set (collect_ref_targets w) = ref_ids v"
proof (induction v arbitrary: s w rule: child_induct [of True])
  case (node v)
  have sub: "set (collect_ref_targets d) = ref_ids c"
    if "\<not> is_ref v" "c \<in> set (child_list True v)" "handles_to_markers env is_handle t c = Inr d" for t c d
  proof (rule node.IH [OF that(2,3)])
    show "no_ref_keys env c" using node.prems(2) that(2) no_ref_keys_eq by blast
    show "CHR ''#'' \<notin> set n" if "n \<in> ref_ids c" for n
      using node.prems(3) [of n] that \<open>c \<in> _\<close> ref_ids_node [OF \<open>\<not> is_ref v\<close>] by blast
  qed
  show ?case
  proof (cases "is_handle v")
    case True
    then have c: "canonical env v = Inr w" using node.prems by (simp add: handles_to_markers_handle)
    show ?thesis
    proof (cases v)
      case (PTransform op args)
      then obtain ws where ws: "rmap (handles_to_markers env is_handle False) args = Inr ws"
        and w: "w = pdict [(TRANSFORM_KEY, pdict [(''op'', PStr op), (''args'', PList ws)])]"
        using c by (auto simp: rbind_Inr_iff)
      have "(\<Union>x \<in> set ws. set (collect_ref_targets x)) = (\<Union>x \<in> set args. ref_ids x)"
        using arg_cong [OF rmap_Inr_map [OF ws], of set]
        by (intro UN_results [of _ "handles_to_markers env is_handle False"])
          (use sub PTransform in \<open>auto simp: is_ref_def\<close>)
      then show ?thesis
        by (subst ref_ids_eq)
          (simp add: w PTransform targets_single targets_pair targets_list targets_scalar marker_keys)
    next
      case (PRef n a)
      then have "CHR ''#'' \<notin> set n" using node.prems(3) by (subst (asm) ref_ids_eq) simp
      moreover have "w = pdict [(REF_KEY, PStr (n @ ''#'' @ a))]" using c PRef by simp
      ultimately have "set (collect_ref_targets w) = {n}" using targets_ref by blast
      with PRef show ?thesis by (subst ref_ids_eq) simp
    next
      case (PSecretRef n p)
      with c have "set (collect_ref_targets w) = {}" using targets_secret by auto
      with PSecretRef show ?thesis by (subst ref_ids_eq) simp
    next
      case (PStackOut n a)
      with c have "set (collect_ref_targets w) = {}" using targets_stack by auto
      with PStackOut show ?thesis by (subst ref_ids_eq) simp
    qed (use True in \<open>auto simp: is_handle_def\<close>)
  next
    case False
    then have st: "tree_step env s (handles_to_markers env is_handle s) v = Inr w"
      using node.prems by (simp add: handles_to_markers_step)
    have nt: "\<not> is_transform v" using False is_transform_handle by blast
    have nr: "\<not> is_ref v" using False by (cases v) (simp_all add: is_ref_def is_handle_def)
    have "\<not> claims_ref_key env v" using node.prems(2) no_ref_keys_eq by blast
    then have "ref_target w = None" by (rule tree_step_no_marker [OF st False])
    moreover have "(\<Union>d \<in> set (child_list False w). set (collect_ref_targets d)) =
        (\<Union>c \<in> set (child_list True v). ref_ids c)"
      by (rule UN_results [OF tree_step_children [OF st nt]]) (use sub nr in blast)
    moreover have "ref_ids v = (\<Union>c \<in> set (child_list True v). ref_ids c)"
      using nr by (rule ref_ids_node)
    ultimately show ?thesis by (subst targets_eq) simp
  qed
qed

text \<open>
  Lowering keeps exactly the dependencies. The node ids the diff reads off the lowered
  tree (\<open>collect_ref_targets\<close>) are the ids of the live references in the declared value
  (\<open>collect_refs\<close>, from which the dependency edges are made), wherever they are nested,
  provided ids contain no \<open>#\<close> and no key of the value is the reserved \<open>$ref\<close>.
\<close>

lemma canonicalize_keeps_dependencies:
  assumes "canonicalize env v = Inr w" and "no_ref_keys env v"
    and "\<forall>n \<in> ref_ids v. CHR ''#'' \<notin> set n"
  shows "set (collect_ref_targets w) = ref_ids v"
  using assms by (intro targets_of_lowered) (auto simp: canonicalize_def)

lemma ref_ids_code [code]: "ref_ids v = set (map (\<lambda>r. case r of PRef n a \<Rightarrow> n | _ \<Rightarrow> []) (collect_refs v))"
proof -
  have r: "\<exists>n a. r = PRef n a" if "r \<in> set (collect_refs v)" for r
  proof -
    have "is_ref r" using that unfolding collect_refs_def by (rule tree_collect_sound)
    then show ?thesis by (auto simp: is_ref_def split: pyval.splits)
  qed
  have "n \<in> ref_ids v \<longleftrightarrow> (\<exists>r \<in> set (collect_refs v). n = (case r of PRef n a \<Rightarrow> n | _ \<Rightarrow> []))" for n
    unfolding ref_ids_def mem_Collect_eq by (metis pyval.case(11) r)
  then show ?thesis by auto
qed

subsection \<open>Lowered trees\<close>

text \<open>What JSON can say: scalars, lists, and dictionaries with distinct string keys.\<close>

definition is_str :: "pyval \<Rightarrow> bool" where
  "is_str v = (case v of PStr _ \<Rightarrow> True | _ \<Rightarrow> False)"

lemma is_str_iff: "is_str v \<longleftrightarrow> (\<exists>s. v = PStr s)"
  by (cases v) (simp_all add: is_str_def)

definition json_keys :: "(pyval \<times> pyval) list \<Rightarrow> bool" where
  "json_keys m = (distinct (map fst m) \<and> list_all (\<lambda>kx. is_str (fst kx)) m)"

definition json_node :: "pyval \<Rightarrow> bool" where
  "json_node v = (is_scalar v \<or> (case v of PList _ \<Rightarrow> True | PDict m \<Rightarrow> json_keys m | _ \<Rightarrow> False))"

definition json_tree :: "pyval \<Rightarrow> bool" where
  "json_tree v = (\<not> tree_any True (\<lambda>w. \<not> json_node w) v)"

lemma json_tree_eq: "json_tree v \<longleftrightarrow> json_node v \<and> (\<forall>c \<in> set (child_list True v). json_tree c)"
  unfolding json_tree_def by (subst tree_any_eq) blast

lemma json_keysE:
  assumes "json_keys m" and "(k, x) \<in> set m"
  obtains s where "k = PStr s"
  using assms by (fastforce simp: json_keys_def list_all_iff is_str_iff)

lemma map_items_total:
  "json_keys m \<Longrightarrow> fst ` set m \<inter> set seen = {} \<Longrightarrow> \<forall>k \<in> set seen. \<exists>s. k = PStr s \<Longrightarrow>
    \<forall>x \<in> snd ` set m. f x = Inr (g x) \<Longrightarrow>
    map_items env s f seen m = Inr (map (\<lambda>(k, x). (k, g x)) m)"
proof (induction m arbitrary: seen)
  case (Cons kx m)
  obtain k x where kx: "kx = (k, x)" by (cases kx)
  obtain t where t: "k = PStr t" using Cons.prems(1) kx by (rule_tac json_keysE) auto
  have fresh: "\<not> list_ex (py_eq (PStr t)) seen"
    using Cons.prems(2,3) kx t by (auto simp: list_ex_iff)
  have "map_items env s f (PStr t # seen) m = Inr (map (\<lambda>(k, x). (k, g x)) m)"
    using Cons.prems kx t by (intro Cons.IH) (auto simp: json_keys_def image_iff)
  then show ?case using fresh Cons.prems(4) kx t by (cases s) (simp_all add: Let_def)
qed simp

lemma tree_step_json:
  assumes "json_node v" and "\<And>c. c \<in> set (child_list True v) \<Longrightarrow> f c = Inr (g c)"
  shows "tree_step env s f v = Inr (case v of PList vs \<Rightarrow> PList (map g vs)
    | PDict m \<Rightarrow> PDict (map (\<lambda>(k, x). (k, g x)) m) | _ \<Rightarrow> v)"
proof (cases v)
  case (PDict m)
  then have "map_items env s f [] m = Inr (map (\<lambda>(k, x). (k, g x)) m)"
    using assms by (intro map_items_total) (auto simp: json_node_def)
  with PDict show ?thesis by (simp add: tree_step_def)
next
  case (PList vs)
  then have "rmap f vs = Inr (map g vs)" using assms(2) by (intro rmap_pure) simp
  with PList show ?thesis by (simp add: tree_step_def)
qed (use assms(1) in \<open>auto simp: tree_step_def json_node_def\<close>)

lemma tree_map_id:
  assumes "json_tree v" and "\<And>w. subvalue True w v \<Longrightarrow> leaf w = Inr None"
  shows "tree_map env leaf s v = Inr v"
  using assms
proof (induction v rule: child_induct [of True])
  case (node v)
  have jt: "json_node v" "\<And>c. c \<in> set (child_list True v) \<Longrightarrow> json_tree c"
    using node.prems(1) json_tree_eq by blast+
  have "tree_map env leaf s c = Inr c" if "c \<in> set (child_list True v)" for c
    using that jt(2) by (intro node.IH node.prems(2)) (auto intro: sub_child)
  then have "tree_step env s (tree_map env leaf s) v = Inr v"
    by (subst tree_step_json [OF jt(1), where g = "\<lambda>x. x"]) (auto split: pyval.splits)
  moreover have "leaf v = Inr None" by (rule node.prems(2)) (rule sub_root)
  ultimately show ?case by (simp add: tree_map.simps [of _ _ _ v])
qed

lemma json_node_not_handle: "json_node v \<Longrightarrow> \<not> is_handle v"
  by (auto simp: json_node_def is_handle_def split: pyval.splits)

lemma json_tree_subvalue: "subvalue True w v \<Longrightarrow> json_tree v \<Longrightarrow> json_node w"
proof (induction rule: subvalue.induct)
  case (sub_root v)
  then show ?case using json_tree_eq by blast
next
  case (sub_child c v w)
  then show ?case using json_tree_eq [of v] by blast
qed

text \<open>
  Canonicalizing is a normal form. A tree that JSON can already say, which is what a
  stored artifact or a state row gives back, is returned unchanged, with no error.
\<close>

lemma canonicalize_normal_form:
  assumes "json_tree v"
  shows "canonicalize env v = Inr v"
  unfolding canonicalize_def handles_to_markers_def
  using assms json_tree_subvalue json_node_not_handle
  by (intro tree_map_id) (auto simp: handle_leaf_def)

subsection \<open>Renaming\<close>

text \<open>Every dictionary with a \<open>$ref\<close> key is a marker in its strict form.\<close>

definition bad_ref_entry :: "pyval \<Rightarrow> bool" where
  "bad_ref_entry v = (has_ref_entry v \<and> \<not> is_ref_marker v)"

definition strict_refs :: "pyval \<Rightarrow> bool" where
  "strict_refs v = (\<not> tree_any True bad_ref_entry v)"

lemma strict_refs_eq:
  "strict_refs v \<longleftrightarrow> \<not> bad_ref_entry v \<and> (\<forall>c \<in> set (child_list True v). strict_refs c)"
  unfolding strict_refs_def by (subst tree_any_eq) blast

lemma is_ref_markerE:
  assumes "is_ref_marker v"
  obtains n a where "v = PDict [(PStr REF_KEY, PStr (n @ ''#'' @ a))]" and "CHR ''#'' \<notin> set n"
proof -
  obtain m t where m: "v = PDict m" "length m = 1" "pd_get m REF_KEY = Some (PStr t)" "CHR ''#'' \<in> set t"
    using assms by (auto simp: is_ref_marker_def single_key_marker_def bind_eq_Some_conv
        split: pyval.split_asm option.split_asm if_split_asm)
  obtain n a where na: "t = n @ CHR ''#'' # a" "CHR ''#'' \<notin> set n"
    using m(4) split_list_first by metis
  moreover have "m = [(PStr REF_KEY, PStr t)]"
    using m(2,3) by (cases m) (auto simp: pd_get_def split: if_splits)
  ultimately show thesis using m(1) that by auto
qed

lemma remap_marker:
  assumes "CHR ''#'' \<notin> set n"
  shows "remap_refs env (PDict [(PStr REF_KEY, PStr (n @ ''#'' @ a))]) remap =
    Inr (PDict [(PStr REF_KEY, PStr (dget remap n n @ ''#'' @ a))])"
proof -
  let ?v = "PDict [(PStr REF_KEY, PStr (n @ ''#'' @ a))]"
  have leaf: "remap_leaf remap ?v = Inr (case map_of remap n of None \<Rightarrow> None
      | Some n' \<Rightarrow> Some (PDict [(PStr REF_KEY, PStr (n' @ ''#'' @ a))]))"
    using assms by (simp add: remap_leaf_def is_ref_marker_def single_key_marker_def pd_get_def
        ref_from_marker_def split_once_sep pdict_def split: option.splits)
  have "remap_leaf remap (PStr t) = Inr None" for t
    by (simp add: remap_leaf_def is_ref_marker_def single_key_marker_def)
  then have step: "tree_step env False (tree_map env (remap_leaf remap) False) ?v = Inr ?v"
    by (simp add: tree_step_def tree_map.simps [of _ _ _ "PStr t" for t])
  show ?thesis
    unfolding remap_refs_def tree_map.simps [of _ _ _ ?v] leaf using step
    by (cases "map_of remap n") (simp_all add: dget_def)
qed

lemma remap_node:
  "\<not> is_ref_marker v \<Longrightarrow> remap_refs env v remap = tree_step env False (\<lambda>c. remap_refs env c remap) v"
  by (simp add: remap_refs_def tree_map.simps [of _ _ _ v]) (simp add: remap_leaf_def remap_refs_def [abs_def])

lemma targets_marker:
  "CHR ''#'' \<notin> set n \<Longrightarrow> set (collect_ref_targets (PDict [(PStr REF_KEY, PStr (n @ ''#'' @ a))])) = {n}"
  using targets_ref [of n a] by (simp add: pdict_def)

lemma has_ref_entry_target: "\<not> has_ref_entry v \<Longrightarrow> ref_target v = None"
  by (auto simp: has_ref_entry_def ref_target_def split: pyval.splits)

lemma targets_node: "\<not> has_ref_entry v \<Longrightarrow>
    set (collect_ref_targets v) = (\<Union>c \<in> set (child_list False v). set (collect_ref_targets c))"
  by (subst targets_eq) (simp add: has_ref_entry_target)

lemma child_list_json: "json_node v \<Longrightarrow> child_list False v = child_list True v"
  by (auto simp: json_node_def split: pyval.splits)

lemma has_ref_entry_map:
  "has_ref_entry (PDict (map (\<lambda>(k, x). (k, g x)) m)) \<longleftrightarrow> has_ref_entry (PDict m)"
  by (induction m) (auto simp: has_ref_entry_def pd_get_def)

lemma remap_refs_targets:
  assumes "json_tree v" and "strict_refs v" and "\<And>n'. n' \<in> snd ` set remap \<Longrightarrow> CHR ''#'' \<notin> set n'"
  shows "\<exists>w. remap_refs env v remap = Inr w \<and>
    set (collect_ref_targets w) = (\<lambda>n. dget remap n n) ` set (collect_ref_targets v)"
  using assms(1,2)
proof (induction v rule: child_induct [of True])
  case (node v)
  show ?case
  proof (cases "is_ref_marker v")
    case True
    then obtain n a where v: "v = PDict [(PStr REF_KEY, PStr (n @ ''#'' @ a))]" and n: "CHR ''#'' \<notin> set n"
      by (rule is_ref_markerE)
    have "CHR ''#'' \<notin> set (dget remap n n)"
      using assms(3) n by (auto simp: dget_def split: option.splits dest!: map_of_SomeD) force
    then show ?thesis
      using remap_marker [OF n, of env a remap] targets_marker [OF n, of a]
        targets_marker [of "dget remap n n" a]
      by (metis (no_types, lifting) image_empty image_insert v)
  next
    case False
    have jv: "json_node v" "\<And>c. c \<in> set (child_list True v) \<Longrightarrow> json_tree c"
      using node.prems(1) json_tree_eq by blast+
    have sv: "\<not> has_ref_entry v" "\<And>c. c \<in> set (child_list True v) \<Longrightarrow> strict_refs c"
      using node.prems(2) False strict_refs_eq bad_ref_entry_def by blast+
    let ?rm = "\<lambda>c. remap_refs env c remap" and ?R = "\<lambda>n. dget remap n n"
    have "\<forall>c. \<exists>d. c \<in> set (child_list True v) \<longrightarrow> ?rm c = Inr d \<and>
        set (collect_ref_targets d) = ?R ` set (collect_ref_targets c)"
      using node.IH jv(2) sv(2) by blast
    then obtain g where g: "\<And>c. c \<in> set (child_list True v) \<Longrightarrow> ?rm c = Inr (g c) \<and>
        set (collect_ref_targets (g c)) = ?R ` set (collect_ref_targets c)"
      by metis
    let ?w = "case v of PList vs \<Rightarrow> PList (map g vs) | PDict m \<Rightarrow> PDict (map (\<lambda>(k, x). (k, g x)) m) | _ \<Rightarrow> v"
    have w: "remap_refs env v remap = Inr ?w"
      unfolding remap_node [OF False] by (rule tree_step_json [OF jv(1)]) (use g in blast)
    have cw: "set (child_list False ?w) = g ` set (child_list True v)"
      using jv(1) by (auto simp: json_node_def image_iff is_scalar_def split: pyval.splits) force+
    have nw: "\<not> has_ref_entry ?w"
      using sv(1) by (cases v) (simp_all add: has_ref_entry_map, simp_all add: has_ref_entry_def)
    have "set (collect_ref_targets ?w) = (\<Union>c \<in> set (child_list True v). set (collect_ref_targets (g c)))"
      unfolding targets_node [OF nw] cw by blast
    also have "\<dots> = (\<Union>c \<in> set (child_list True v). ?R ` set (collect_ref_targets c))"
      using g by (intro SUP_cong) auto
    also have "\<dots> = ?R ` set (collect_ref_targets v)"
      unfolding targets_node [OF sv(1)] child_list_json [OF jv(1)] by blast
    finally show ?thesis using w by blast
  qed
qed

text \<open>
  Renaming resources rewrites the references to them and nothing else. On a stored tree
  whose \<open>$ref\<close> entries are markers, \<open>remap_refs\<close> succeeds and the ids its result refers to are
  the renamed ids of what the tree referred to; with nothing to rename it returns the tree
  itself.
\<close>

lemma remap_refs_renames:
  assumes "json_tree v" and "strict_refs v" and "\<forall>n' \<in> snd ` set remap. CHR ''#'' \<notin> set n'"
  shows "(\<exists>w. remap_refs env v remap = Inr w \<and>
    set (collect_ref_targets w) = (\<lambda>n. dget remap n n) ` set (collect_ref_targets v)) \<and>
    remap_refs env v [] = Inr v"
proof
  show "\<exists>w. remap_refs env v remap = Inr w \<and>
      set (collect_ref_targets w) = (\<lambda>n. dget remap n n) ` set (collect_ref_targets v)"
    using assms by (intro remap_refs_targets) auto
  have "remap_leaf [] w = Inr None" for w
  proof (cases "is_ref_marker w")
    case True
    then obtain n a where "w = PDict [(PStr REF_KEY, PStr (n @ ''#'' @ a))]" "CHR ''#'' \<notin> set n"
      by (rule is_ref_markerE)
    with True show ?thesis
      by (simp add: remap_leaf_def ref_from_marker_def pd_get_def split_once_sep)
  qed (simp add: remap_leaf_def)
  then show "remap_refs env v [] = Inr v"
    unfolding remap_refs_def by (intro tree_map_id assms(1)) simp
qed

end
