(* ===== verification/Canonical.thy ===== *)
theory Canonical
  imports Markers
begin

text \<open>
  Canonical JSON (\<open>ir/canonical.py\<close>): the encoding whose bytes are hashed into a plan's
  identity. \<open>float_repr\<close> of the environment stands for \<open>repr\<close> of a finite float, and \<open>sha\<close>
  for \<open>hashlib.sha256(...).hexdigest()\<close>. A pydantic model is encoded from its fields, as its
  dump is when they hold what JSON can say; \<open>canonicalize\<close> leaves none in an IR. Strings hold
  code points below 256, so each of them has a UTF-8 form and the error for lone surrogates
  cannot arise here. The theorems: two values have the same encoding exactly when they are
  the same JSON value, key order and list or tuple aside.
\<close>

subsection \<open>Encoding\<close>

definition key_of :: "pyval \<Rightarrow> string" where
  "key_of k = (case k of PStr s \<Rightarrow> s | _ \<Rightarrow> [])"

definition index_path :: "string \<Rightarrow> nat \<Rightarrow> string" where
  "index_path path i = path @ ''['' @ nat_str i @ '']''"

definition encode_float :: "pyenv \<Rightarrow> string \<Rightarrow> pyfloat \<Rightarrow> (aerror, string) result" where
  "encode_float env path f = (case f of
      FNan \<Rightarrow> Inl (IRError ''non-finite float is not encodable'' [path])
    | FInf neg \<Rightarrow> Inl (IRError ''non-finite float is not encodable'' [path])
    | _ \<Rightarrow> Inr (float_repr env f))"

text \<open>\<open>sorted(obj)\<close> with \<open>obj[key]\<close>, after the check that every key is a string.\<close>

definition sorted_items :: "(pyval \<times> pyval) list \<Rightarrow> (string \<times> pyval) list" where
  "sorted_items m = sort_key fst (map (\<lambda>(k, x). (key_of k, x)) m)"

lemma sorted_items_size [termination_simp]: "(k, x) \<in> set (sorted_items m) \<Longrightarrow> size x < Suc (size_list (size_prod size size) m)"
  by (auto simp: sorted_items_def size_pair_in)

lemma enumerate_size [termination_simp]: "(i, x) \<in> set (enumerate n vs) \<Longrightarrow> size x < Suc (size_list size (vs :: pyval list))"
  by (auto simp: in_set_enumerate_eq size_elem_in)

function encode :: "pyenv \<Rightarrow> string \<Rightarrow> pyval \<Rightarrow> (aerror, string) result" where
  "encode env path v = (case v of
      PNone \<Rightarrow> Inr ''null''
    | PBool b \<Rightarrow> Inr (if b then ''true'' else ''false'')
    | PStr s \<Rightarrow> Inr (json_str False s)
    | PInt i \<Rightarrow> Inr (int_str i)
    | PFloat f \<Rightarrow> encode_float env path f
    | PDict m \<Rightarrow>
        (case find (\<lambda>kx. \<not> is_str (fst kx)) m of
           Some kx \<Rightarrow> Inl (IRError ''object key is not a string'' [path])
         | None \<Rightarrow> rbind (rmap (\<lambda>(k, x). rbind (encode env (path @ ''.'' @ k) x)
                       (\<lambda>t. Inr (json_str False k @ '':'' @ t))) (sorted_items m))
                     (\<lambda>parts. Inr (''{'' @ join_with '','' parts @ ''}'')))
    | PList vs \<Rightarrow> rbind (rmap (\<lambda>(i, x). encode env (index_path path i) x) (enumerate 0 vs))
        (\<lambda>parts. Inr (''['' @ join_with '','' parts @ '']''))
    | PTuple vs \<Rightarrow> rbind (rmap (\<lambda>(i, x). encode env (index_path path i) x) (enumerate 0 vs))
        (\<lambda>parts. Inr (''['' @ join_with '','' parts @ '']''))
    | PModel c fs \<Rightarrow> rbind (rmap (\<lambda>(k, x). rbind (encode env (path @ ''.'' @ k) x)
                       (\<lambda>t. Inr (json_str False k @ '':'' @ t))) (sort_key fst fs))
                     (\<lambda>parts. Inr (''{'' @ join_with '','' parts @ ''}''))
    | _ \<Rightarrow> Inl (IRError ''value is not JSON-encodable'' [path]))"
  by pat_completeness auto
termination
  by (relation "measure (\<lambda>(_, _, v). size v)")
    (auto simp: sorted_items_size enumerate_size size_pair_in)

declare encode.simps [simp del]

lemma encode_simps [simp]:
  "encode env path PNone = Inr ''null''" "encode env path (PBool b) = Inr (if b then ''true'' else ''false'')"
  "encode env path (PStr s) = Inr (json_str False s)" "encode env path (PInt i) = Inr (int_str i)"
  "encode env path (PFloat f) = encode_float env path f"
  by (subst encode.simps, simp)+

lemma encode_list:
  "encode env path (PList vs) = rbind (rmap (\<lambda>(i, x). encode env (index_path path i) x) (enumerate 0 vs))
     (\<lambda>parts. Inr (''['' @ join_with '','' parts @ '']''))"
  "encode env path (PTuple vs) = rbind (rmap (\<lambda>(i, x). encode env (index_path path i) x) (enumerate 0 vs))
     (\<lambda>parts. Inr (''['' @ join_with '','' parts @ '']''))"
  by (subst encode.simps, simp)+

lemma encode_items:
  "encode env path (PDict m) = (case find (\<lambda>kx. \<not> is_str (fst kx)) m of
      Some kx \<Rightarrow> Inl (IRError ''object key is not a string'' [path])
    | None \<Rightarrow> rbind (rmap (\<lambda>(k, x). rbind (encode env (path @ ''.'' @ k) x)
         (\<lambda>t. Inr (json_str False k @ '':'' @ t))) (sorted_items m))
       (\<lambda>parts. Inr (''{'' @ join_with '','' parts @ ''}'')))"
  "encode env path (PModel c fs) = rbind (rmap (\<lambda>(k, x). rbind (encode env (path @ ''.'' @ k) x)
         (\<lambda>t. Inr (json_str False k @ '':'' @ t))) (sort_key fst fs))
       (\<lambda>parts. Inr (''{'' @ join_with '','' parts @ ''}''))"
  by (subst encode.simps, simp)+

lemma encode_handle: "is_handle v \<or> (\<exists>vs. v = PSet vs) \<or> (\<exists>c. v = PObj c) \<Longrightarrow>
    encode env path v = Inl (IRError ''value is not JSON-encodable'' [path])"
  by (subst encode.simps) (auto simp: is_handle_def split: pyval.splits)

text \<open>\<open>text.encode("utf-8")\<close>\<close>

definition utf8_char :: "char \<Rightarrow> string" where
  "utf8_char c = (let n = (of_char c :: nat) in
     if n < 128 then [c] else [char_of (192 + n div 64), char_of (128 + n mod 64)])"

definition utf8 :: "string \<Rightarrow> string" where
  "utf8 s = concat (map utf8_char s)"

definition to_canonical_json :: "pyenv \<Rightarrow> pyval \<Rightarrow> (aerror, string) result" where
  "to_canonical_json env v = rbind (encode env ''<root>'' v) (\<lambda>t. Inr (utf8 t))"

definition canonical_sha256 :: "pyenv \<Rightarrow> (string \<Rightarrow> string) \<Rightarrow> pyval \<Rightarrow> (aerror, string) result" where
  "canonical_sha256 env sha v = rbind (to_canonical_json env v) (\<lambda>b. Inr (sha b))"

subsection \<open>The value an encoding stands for\<close>

datatype json = JNull | JBool bool | JInt int | JFloat pyfloat | JStr string
  | JArr "json list" | JObj "(string \<times> json) list"

function json_of :: "pyval \<Rightarrow> json" where
  "json_of v = (case v of
      PNone \<Rightarrow> JNull | PBool b \<Rightarrow> JBool b | PStr s \<Rightarrow> JStr s | PInt i \<Rightarrow> JInt i | PFloat f \<Rightarrow> JFloat f
    | PDict m \<Rightarrow> JObj (map (\<lambda>(k, x). (k, json_of x)) (sorted_items m))
    | PList vs \<Rightarrow> JArr (map json_of vs)
    | PTuple vs \<Rightarrow> JArr (map json_of vs)
    | PModel c fs \<Rightarrow> JObj (map (\<lambda>(k, x). (k, json_of x)) (sort_key fst fs))
    | _ \<Rightarrow> JNull)"
  by pat_completeness auto
termination
  by (relation "measure size") (auto simp: sorted_items_size size_elem_in size_pair_in)

declare json_of.simps [simp del]

lemma json_of_simps [simp]:
  "json_of PNone = JNull" "json_of (PBool b) = JBool b" "json_of (PStr s) = JStr s"
  "json_of (PInt i) = JInt i" "json_of (PFloat f) = JFloat f"
  "json_of (PList vs) = JArr (map json_of vs)" "json_of (PTuple vs) = JArr (map json_of vs)"
  "json_of (PDict m) = JObj (map (\<lambda>(k, x). (k, json_of x)) (sorted_items m))"
  "json_of (PModel c fs) = JObj (map (\<lambda>(k, x). (k, json_of x)) (sort_key fst fs))"
  by (subst json_of.simps, simp)+

text \<open>How a JSON value is written: what \<open>encode\<close> computes when it raises no error.\<close>

function json_text :: "pyenv \<Rightarrow> json \<Rightarrow> string" where
  "json_text env JNull = ''null''"
| "json_text env (JBool b) = (if b then ''true'' else ''false'')"
| "json_text env (JInt i) = int_str i"
| "json_text env (JFloat f) = float_repr env f"
| "json_text env (JStr s) = json_str False s"
| "json_text env (JArr vs) = ''['' @ join_with '','' (map (json_text env) vs) @ '']''"
| "json_text env (JObj m) = ''{'' @ join_with '','' (map (\<lambda>(k, x). json_str False k @ '':'' @ json_text env x) m) @ ''}''"
  by pat_completeness auto
termination
proof (relation "measure (\<lambda>(_, v). size v)", goal_cases)
  case (2 env vs x)
  then show ?case by (induction vs) auto
next
  case (3 env m kx k x)
  then show ?case by (induction m) auto
qed simp

definition finite_float :: "pyfloat \<Rightarrow> bool" where
  "finite_float f = (case f of FNan \<Rightarrow> False | FInf _ \<Rightarrow> False | _ \<Rightarrow> True)"

fun json_floats_finite :: "json \<Rightarrow> bool" where
  "json_floats_finite (JFloat f) = finite_float f"
| "json_floats_finite (JArr vs) = list_all json_floats_finite vs"
| "json_floats_finite (JObj m) = list_all (\<lambda>(k, x). json_floats_finite x) m"
| "json_floats_finite _ = True"

subsection \<open>An encoding is the text of its value\<close>

lemma rmap_enumerate:
  assumes "rmap (\<lambda>(i, x). f i x) (enumerate n vs) = Inr ts"
  shows "length ts = length vs \<and> (\<forall>i < length vs. f (n + i) (vs ! i) = Inr (ts ! i))"
  using assms by (simp add: rmap_Inr_iff nth_enumerate_eq)

lemma rmap_items:
  assumes "rmap (\<lambda>(k, x). rbind (f k x) (\<lambda>t. Inr (h k t))) m = Inr ts"
    and "\<And>k x t. (k, x) \<in> set m \<Longrightarrow> f k x = Inr t \<Longrightarrow> t = g x"
  shows "ts = map (\<lambda>(k, x). h k (g x)) m \<and> (\<forall>(k, x) \<in> set m. \<exists>t. f k x = Inr t)"
  using assms
proof (induction m arbitrary: ts)
  case (Cons kx m)
  obtain k x where kx: "kx = (k, x)" by (cases kx)
  from Cons.prems(1) obtain t ts' where t: "f k x = Inr t" "ts = h k t # ts'"
    and ts': "rmap (\<lambda>(k, x). rbind (f k x) (\<lambda>t. Inr (h k t))) m = Inr ts'"
    by (auto simp: kx rbind_Inr_iff)
  have "t = g x" using Cons.prems(2) [of k x t] t(1) kx by simp
  moreover have "ts' = map (\<lambda>(k, x). h k (g x)) m \<and> (\<forall>(k, x) \<in> set m. \<exists>t. f k x = Inr t)"
    by (rule Cons.IH [OF ts']) (use Cons.prems(2) in auto)
  ultimately show ?case using t kx by auto
qed simp

lemma encode_text_list:
  assumes "\<And>x p t. x \<in> set vs \<Longrightarrow> encode env p x = Inr t \<Longrightarrow> t = json_text env (json_of x) \<and> json_floats_finite (json_of x)"
    and "rmap (\<lambda>(i, x). encode env (index_path path i) x) (enumerate 0 vs) = Inr ts"
  shows "ts = map (\<lambda>x. json_text env (json_of x)) vs \<and> list_all (\<lambda>x. json_floats_finite (json_of x)) vs"
proof -
  have ts: "length ts = length vs" "\<And>i. i < length vs \<Longrightarrow> encode env (index_path path i) (vs ! i) = Inr (ts ! i)"
    using rmap_enumerate [OF assms(2)] by auto
  have el: "ts ! i = json_text env (json_of (vs ! i)) \<and> json_floats_finite (json_of (vs ! i))" if "i < length vs" for i
    by (rule assms(1) [OF nth_mem [OF that] ts(2) [OF that]])
  have "ts = map (\<lambda>x. json_text env (json_of x)) vs" using ts(1) el by (intro nth_equalityI) auto
  with el show ?thesis by (auto simp: list_all_length)
qed

lemma encode_text_items:
  assumes "\<And>k x p t. (k, x) \<in> set m \<Longrightarrow> encode env p x = Inr t \<Longrightarrow> t = json_text env (json_of x) \<and> json_floats_finite (json_of x)"
    and "rmap (\<lambda>(k, x). rbind (encode env (path @ ''.'' @ k) x) (\<lambda>t. Inr (json_str False k @ '':'' @ t))) m = Inr ts"
  shows "ts = map (\<lambda>(k, x). json_str False k @ '':'' @ json_text env (json_of x)) m \<and>
    list_all (\<lambda>(k, x). json_floats_finite (json_of x)) m"
proof -
  have "ts = map (\<lambda>(k, x). json_str False k @ '':'' @ json_text env (json_of x)) m \<and>
      (\<forall>(k, x) \<in> set m. \<exists>t. encode env (path @ ''.'' @ k) x = Inr t)"
    by (rule rmap_items [OF assms(2)]) (use assms(1) in blast)
  then show ?thesis using assms(1) by (fastforce simp: list_all_iff)
qed

lemma json_text_items:
  "json_text env (JObj (map (\<lambda>(k, x). (k, json_of x)) m)) =
     ''{'' @ join_with '','' (map (\<lambda>(k, x). json_str False k @ '':'' @ json_text env (json_of x)) m) @ ''}''"
  "json_floats_finite (JObj (map (\<lambda>(k, x). (k, json_of x)) m)) = list_all (\<lambda>(k, x). json_floats_finite (json_of x)) m"
  by (auto simp: comp_def case_prod_unfold list_all_iff)

lemma encode_text:
  "encode env path v = Inr t \<Longrightarrow> t = json_text env (json_of v) \<and> json_floats_finite (json_of v)"
proof (induction v arbitrary: path t rule: child_induct [of True])
  case (node v)
  note enc = node.prems
  show ?case
  proof (cases v)
    case (PFloat f)
    with enc show ?thesis
      by (cases f) (auto simp: encode_float_def finite_float_def)
  next
    case (PList vs)
    then obtain ts where "rmap (\<lambda>(i, x). encode env (index_path path i) x) (enumerate 0 vs) = Inr ts"
      and "t = ''['' @ join_with '','' ts @ '']''"
      using enc by (auto simp: encode_list rbind_Inr_iff)
    with encode_text_list [OF node.IH this(1)] PList show ?thesis
      by (simp add: comp_def list_all_iff)
  next
    case (PTuple vs)
    then obtain ts where "rmap (\<lambda>(i, x). encode env (index_path path i) x) (enumerate 0 vs) = Inr ts"
      and "t = ''['' @ join_with '','' ts @ '']''"
      using enc by (auto simp: encode_list rbind_Inr_iff)
    with encode_text_list [OF node.IH this(1)] PTuple show ?thesis
      by (simp add: comp_def list_all_iff)
  next
    case (PDict m)
    then obtain ts where ts: "rmap (\<lambda>(k, x). rbind (encode env (path @ ''.'' @ k) x)
          (\<lambda>t. Inr (json_str False k @ '':'' @ t))) (sorted_items m) = Inr ts"
      and t: "t = ''{'' @ join_with '','' ts @ ''}''"
      using enc by (auto simp: encode_items rbind_Inr_iff split: option.splits)
    have "x \<in> set (child_list True v)" if "(k, x) \<in> set (sorted_items m)" for k x
      using that PDict by (force simp: sorted_items_def)
    from encode_text_items [OF node.IH [OF this] ts] t PDict show ?thesis
      by (simp only: json_of_simps json_text_items simp_thms)
  next
    case (PModel c fs)
    then obtain ts where ts: "rmap (\<lambda>(k, x). rbind (encode env (path @ ''.'' @ k) x)
          (\<lambda>t. Inr (json_str False k @ '':'' @ t))) (sort_key fst fs) = Inr ts"
      and t: "t = ''{'' @ join_with '','' ts @ ''}''"
      using enc by (auto simp: encode_items rbind_Inr_iff)
    have "x \<in> set (child_list True v)" if "(k, x) \<in> set (sort_key fst fs)" for k x
      using that PModel by force
    from encode_text_items [OF node.IH [OF this] ts] t PModel show ?thesis
      by (simp only: json_of_simps json_text_items simp_thms)
  qed (use enc in \<open>auto simp: encode_handle is_handle_def\<close>)
qed

subsection \<open>The text determines the value\<close>

text \<open>
  What is relied on of \<open>repr\<close> of a finite float: it is written with digits, a sign, a point
  and an exponent mark, contains a point or an exponent mark (so no \<open>int\<close> prints like it),
  and reads back as the float it printed.
\<close>

definition float_chars :: "string \<Rightarrow> bool" where
  "float_chars s = (s \<noteq> [] \<and> list_all (\<lambda>c. is_digit c \<or> c \<in> set ''+-.e'') s \<and> list_ex (\<lambda>c. c \<in> set ''.e'') s)"

definition float_repr_ok :: "pyenv \<Rightarrow> bool" where
  "float_repr_ok env = (\<forall>f g. finite_float f \<longrightarrow> finite_float g \<longrightarrow>
     float_chars (float_repr env f) \<and> (float_repr env f = float_repr env g \<longrightarrow> f = g))"

definition is_delim :: "char \<Rightarrow> bool" where
  "is_delim c = (c \<in> set '',]}'')"

definition delim_rest :: "string \<Rightarrow> bool" where
  "delim_rest r = (case r of [] \<Rightarrow> True | c # _ \<Rightarrow> is_delim c)"

lemma delim_rest_simps [simp]:
  "delim_rest []" "delim_rest (CHR '','' # r)" "delim_rest (CHR '']'' # r)" "delim_rest (CHR ''}'' # r)"
  by (simp_all add: delim_rest_def is_delim_def)

lemma token_prefix:
  assumes "\<forall>c \<in> set a. \<not> is_delim c" and "\<forall>c \<in> set b. \<not> is_delim c"
    and "delim_rest r" and "delim_rest r'" and "a @ r = b @ r'"
  shows "a = b \<and> r = r'"
  using assms
proof (induction a arbitrary: b)
  case Nil
  then show ?case by (cases b) (auto simp: delim_rest_def split: list.splits)
next
  case (Cons c a)
  then show ?case by (cases b) (auto simp: delim_rest_def split: list.splits)
qed

subsubsection \<open>Strings\<close>

lemma hex_char_inj: "m < 16 \<Longrightarrow> n < 16 \<Longrightarrow> hex_char m = hex_char n \<Longrightarrow> m = n"
  using arg_cong [of "hex_char m" "hex_char n" "of_char :: char \<Rightarrow> nat"]
  by (auto simp: hex_char_def digit_char_def split: if_splits)

lemma char_eq_of_char: "c = d \<longleftrightarrow> (of_char c :: nat) = of_char d"
  by (metis char_of_char)

text \<open>The escape of a character is never empty, never starts with a quote, and is prefix-free.\<close>

lemma short_escape_inj: "short_escape m = Some d \<Longrightarrow> short_escape n = Some d \<Longrightarrow> m = n"
  by (auto simp: short_escape_def split: if_split_asm)

lemma short_escape_not_u: "short_escape n \<noteq> Some CHR ''u''"
  by (simp add: short_escape_def)

lemma short_escape_quote: "short_escape 34 \<noteq> None" "short_escape 92 \<noteq> None"
  by (simp_all add: short_escape_def)

lemma plain_char: "short_escape (of_char c) = None \<Longrightarrow> c \<noteq> CHR 0x22 \<and> c \<noteq> CHR 0x5C"
  using short_escape_quote by auto

lemma json_char_hd: "\<exists>h t. json_char b c = h # t \<and> h \<noteq> CHR 0x22"
  using plain_char [of c] by (cases "short_escape (of_char c)") (simp_all add: json_char_def Let_def)

lemma hex_pair_inj:
  assumes "hex_char (m div 16) = hex_char (n div 16)" and "hex_char (m mod 16) = hex_char (n mod 16)"
    and "m < 32" and "n < 32"
  shows "m = n"
proof -
  have "m div 16 = n div 16" "m mod 16 = n mod 16"
    using assms hex_char_inj [of "m div 16" "n div 16"] hex_char_inj [of "m mod 16" "n mod 16"] by auto
  then show ?thesis by (metis div_mult_mod_eq)
qed

lemma json_char_cases:
  "short_escape (of_char c) = Some a \<Longrightarrow> json_char False c = [CHR 0x5C, a]"
  "short_escape (of_char c) = None \<Longrightarrow> (of_char c :: nat) < 32 \<Longrightarrow> json_char False c =
     [CHR 0x5C, CHR ''u'', CHR ''0'', CHR ''0'', hex_char (of_char c div 16), hex_char (of_char c mod 16)]"
  "short_escape (of_char c) = None \<Longrightarrow> \<not> (of_char c :: nat) < 32 \<Longrightarrow> json_char False c = [c]"
  by (simp_all add: json_char_def Let_def)

lemma json_char_prefix:
  assumes "json_char False c @ x = json_char False d @ y"
  shows "c = d \<and> x = y"
proof (cases "short_escape (of_char c)"; cases "short_escape (of_char d)")
  fix a b
  assume e: "short_escape (of_char c) = Some a" "short_escape (of_char d) = Some b"
  then have "a = b \<and> x = y" using assms by (simp add: json_char_cases)
  moreover from this e have "of_char c = (of_char d :: nat)" using short_escape_inj by blast
  ultimately show ?thesis by simp
next
  fix a
  assume "short_escape (of_char c) = Some a" "short_escape (of_char d) = None"
  then show ?thesis using assms short_escape_not_u [of "of_char c"] plain_char [of d]
    by (cases "(of_char d :: nat) < 32") (simp_all add: json_char_cases)
next
  fix b
  assume "short_escape (of_char c) = None" "short_escape (of_char d) = Some b"
  then show ?thesis using assms short_escape_not_u [of "of_char d"] plain_char [of c]
    by (cases "(of_char c :: nat) < 32") (auto simp: json_char_cases)
next
  assume e: "short_escape (of_char c) = None" "short_escape (of_char d) = None"
  show ?thesis
  proof (cases "(of_char c :: nat) < 32"; cases "(of_char d :: nat) < 32")
    assume s: "(of_char c :: nat) < 32" "(of_char d :: nat) < 32"
    then have "of_char c = (of_char d :: nat) \<and> x = y"
      using assms hex_pair_inj [of "of_char c" "of_char d"] e by (simp add: json_char_cases)
    then show ?thesis by simp
  qed (use assms e plain_char [of c] plain_char [of d] in \<open>auto simp: json_char_cases\<close>)
qed

lemma json_chars_prefix:
  "concat (map (json_char False) s) @ CHR 0x22 # r = concat (map (json_char False) s') @ CHR 0x22 # r' \<Longrightarrow>
    s = s' \<and> r = r'"
proof (induction s arbitrary: s')
  case Nil
  then show ?case
    using json_char_hd [of False "hd s'"] by (cases s') auto
next
  case (Cons c s)
  show ?case
  proof (cases s')
    case Nil
    then show ?thesis using Cons.prems json_char_hd [of False c] by auto
  next
    case (Cons d t)
    then have "json_char False c @ concat (map (json_char False) s) @ CHR 0x22 # r =
        json_char False d @ concat (map (json_char False) t) @ CHR 0x22 # r'"
      using Cons.prems by simp
    from json_char_prefix [OF this] Cons.IH [of t] Cons show ?thesis by auto
  qed
qed

lemma json_str_prefix: "json_str False s @ r = json_str False s' @ r' \<Longrightarrow> s = s' \<and> r = r'"
  using json_chars_prefix [of s r s' r'] by (simp add: json_str_def)

lemma json_str_hd: "\<exists>t. json_str False s = CHR 0x22 # t"
  by (simp add: json_str_def)

subsubsection \<open>Sequences\<close>

lemma join_with_Cons: "join_with sep (x # xs) = x @ concat (map (\<lambda>y. sep @ y) xs)"
  by (induction xs arbitrary: x) auto

definition starts_item :: "string \<Rightarrow> bool" where
  "starts_item t = (t \<noteq> [] \<and> \<not> is_delim (hd t))"

lemma tail_prefix:
  assumes "\<forall>x \<in> set xs. \<forall>y r r'. Q y \<longrightarrow> delim_rest r \<longrightarrow> delim_rest r' \<longrightarrow> I x @ r = I y @ r' \<longrightarrow> x = y \<and> r = r'"
    and "\<forall>y \<in> set ys. Q y" and "c \<in> {CHR '']'', CHR ''}''}"
    and "concat (map (\<lambda>x. CHR '','' # I x) xs) @ c # r = concat (map (\<lambda>x. CHR '','' # I x) ys) @ c # r'"
  shows "xs = ys \<and> r = r'"
  using assms(1,2,4)
proof (induction xs arbitrary: ys)
  case Nil
  then show ?case using assms(3) by (cases ys) auto
next
  case (Cons x xs)
  show ?case
  proof (cases ys)
    case Nil
    then show ?thesis using Cons.prems(3) assms(3) by auto
  next
    case (Cons y zs)
    let ?rest = "\<lambda>zs r. concat (map (\<lambda>x. CHR '','' # I x) zs) @ c # r"
    have d: "delim_rest (?rest zs r)" for zs r using assms(3) by (cases zs) auto
    have "I x @ ?rest xs r = I y @ ?rest zs r'" using Cons.prems(3) Cons by simp
    then have "x = y \<and> ?rest xs r = ?rest zs r'"
      using Cons.prems(1,2) Cons d by (metis list.set_intros(1))
    then show ?thesis using Cons.IH [of zs] Cons.prems(1,2) Cons by auto
  qed
qed

lemma seq_prefix:
  assumes "\<forall>x \<in> set xs. \<forall>y r r'. Q y \<longrightarrow> delim_rest r \<longrightarrow> delim_rest r' \<longrightarrow> I x @ r = I y @ r' \<longrightarrow> x = y \<and> r = r'"
    and "\<forall>y \<in> set ys. Q y" and "c \<in> {CHR '']'', CHR ''}''}" and "\<And>x. x \<in> set xs \<union> set ys \<Longrightarrow> starts_item (I x)"
    and "join_with '','' (map I xs) @ c # r = join_with '','' (map I ys) @ c # r'"
  shows "xs = ys \<and> r = r'"
proof (cases xs; cases ys)
  fix x zs
  assume "xs = []" "ys = x # zs"
  then show ?thesis using assms(3,5) assms(4) [of x]
    by (cases "I x") (auto simp: join_with_Cons starts_item_def is_delim_def)
next
  fix x zs
  assume "xs = x # zs" "ys = []"
  then show ?thesis using assms(3,5) assms(4) [of x]
    by (cases "I x") (auto simp: join_with_Cons starts_item_def is_delim_def)
next
  fix x xs' y ys'
  assume e: "xs = x # xs'" "ys = y # ys'"
  let ?rest = "\<lambda>zs r. concat (map (\<lambda>x. CHR '','' # I x) zs) @ c # r"
  have d: "delim_rest (?rest zs r)" for zs r using assms(3) by (cases zs) auto
  have "I x @ ?rest xs' r = I y @ ?rest ys' r'" using assms(5) e by (simp add: join_with_Cons comp_def)
  then have xy: "x = y \<and> ?rest xs' r = ?rest ys' r'" using assms(1,2) e d by (metis list.set_intros(1))
  have "xs' = ys' \<and> r = r'"
    by (rule tail_prefix [where Q = Q and I = I and c = c]) (use assms(1-3) e xy in auto)
  with xy e show ?thesis by simp
qed (use assms(5) in auto)

subsubsection \<open>Values\<close>

fun is_token :: "json \<Rightarrow> bool" where
  "is_token (JStr _) = False" | "is_token (JArr _) = False" | "is_token (JObj _) = False"
| "is_token _ = True"

lemma digit_not_special: "is_digit c \<Longrightarrow> \<not> is_delim c \<and> c \<notin> set ''ntf-.e[{'' \<and> c \<noteq> CHR 0x22"
  by (auto simp: is_digit_def is_delim_def)

lemma int_str_chars: "c \<in> set (int_str i) \<Longrightarrow> is_digit c \<or> c = CHR ''-''"
  by (auto simp: int_str_def nat_str_digits split: if_splits)

lemma int_str_inj: "int_str i = int_str j \<Longrightarrow> i = j"
proof -
  assume e: "int_str i = int_str j"
  have no_minus: "CHR ''-'' \<notin> set (nat_str n)" for n
    using nat_str_digits [of "CHR ''-''" n] digit_not_special by auto
  have "(i < 0) = (j < 0)"
  proof (rule ccontr)
    assume "(i < 0) \<noteq> (j < 0)"
    then have "CHR ''-'' \<in> set (nat_str (nat i)) \<or> CHR ''-'' \<in> set (nat_str (nat j))"
      using e by (auto simp: int_str_def split: if_splits) (metis list.set_intros(1))+
    then show False using no_minus by blast
  qed
  then have "nat (if i < 0 then - i else i) = nat (if j < 0 then - j else j)"
    using e by (auto simp: int_str_def dest: nat_str_inj split: if_splits)
  with \<open>(i < 0) = (j < 0)\<close> show "i = j" by (auto split: if_splits)
qed

lemma int_str_ne: "int_str i \<noteq> []"
  by (simp add: int_str_def)

definition token_ok :: "string \<Rightarrow> bool" where
  "token_ok t = (t \<noteq> [] \<and> (\<forall>c \<in> set t. \<not> is_delim c) \<and> hd t \<notin> set ''[{'' \<and> hd t \<noteq> CHR 0x22)"

lemma number_token:
  assumes "t \<noteq> []" and "\<forall>c \<in> set t. is_digit c \<or> c \<in> set ''+-.e''"
  shows "token_ok t"
proof -
  have "\<not> is_delim c \<and> c \<notin> set ''[{'' \<and> c \<noteq> CHR 0x22" if "c \<in> set t" for c
  proof (cases "is_digit c")
    case True
    then show ?thesis using digit_not_special [OF True] by simp
  next
    case False
    then have "c = CHR ''+'' \<or> c = CHR ''-'' \<or> c = CHR ''.'' \<or> c = CHR ''e''" using assms(2) that by auto
    then show ?thesis by (elim disjE) (simp_all add: is_delim_def)
  qed
  then show ?thesis using assms(1) hd_in_set [OF assms(1)] unfolding token_ok_def by blast
qed

lemma token_ok_text:
  assumes "float_repr_ok env" and "json_floats_finite v" and "is_token v"
  shows "token_ok (json_text env v)"
proof (cases v)
  case (JInt i)
  have "is_digit c \<or> c \<in> set ''+-.e''" if "c \<in> set (int_str i)" for c
    using int_str_chars [OF that] by auto
  then show ?thesis using JInt int_str_ne by (simp only: json_text.simps) (rule number_token, blast+)
next
  case (JFloat f)
  then have "float_chars (float_repr env f)" using assms by (simp add: float_repr_ok_def)
  then show ?thesis using JFloat
    by (intro number_token) (auto simp: float_chars_def list_all_iff)
qed (use assms(3) in \<open>auto simp: token_ok_def is_delim_def\<close>)

lemma token_first:
  assumes "float_repr_ok env" and "json_floats_finite v" and "is_token v" and "c \<in> set (json_text env v)"
    and "c \<in> set ''nulltruefalse''" and "c \<noteq> CHR ''e''"
  shows "v = JNull \<or> (\<exists>b. v = JBool b)"
proof (cases v)
  case (JInt i)
  then show ?thesis using assms(4-6) int_str_chars [of c i] by (auto simp: is_digit_def)
next
  case (JFloat f)
  then have "float_chars (float_repr env f)" using assms by (simp add: float_repr_ok_def)
  then show ?thesis using JFloat assms(4-6) by (auto simp: float_chars_def list_all_iff is_digit_def)
qed (use assms(3) in auto)

lemma token_inj:
  assumes "float_repr_ok env" and "json_floats_finite v" and "json_floats_finite w"
    and "is_token v" and "is_token w" and "json_text env v = json_text env w"
  shows "v = w"
proof -
  have word: "v = w" if "v = JNull \<or> (\<exists>b. v = JBool b)" "is_token w" "json_floats_finite w"
    "json_text env v = json_text env w" for v w
  proof -
    have "CHR ''u'' \<in> set (json_text env w) \<or> CHR ''l'' \<in> set (json_text env w)"
      using that(1) that(4) [symmetric] by (auto split: if_split_asm)
    then have "w = JNull \<or> (\<exists>b. w = JBool b)"
      using token_first [OF assms(1) that(3,2)] by auto
    then show ?thesis using that(1,4) by (auto split: if_splits)
  qed
  have num: "json_text env (JInt i) \<noteq> json_text env (JFloat f)" if "finite_float f" for i f
  proof -
    have "float_chars (float_repr env f)" using assms(1) that by (simp add: float_repr_ok_def)
    then obtain c where "c \<in> set (float_repr env f)" "c \<in> set ''.e''"
      by (auto simp: float_chars_def list_ex_iff)
    then show ?thesis using int_str_chars [of c i] by (auto simp: is_digit_def)
  qed
  show ?thesis
  proof (cases "(v = JNull \<or> (\<exists>b. v = JBool b)) \<or> (w = JNull \<or> (\<exists>b. w = JBool b))")
    case True
    then show ?thesis using word [of v w] word [of w v] assms by metis
  next
    case False
    have number: "(\<exists>i. x = JInt i) \<or> (\<exists>f. x = JFloat f)"
      if "is_token x" "\<not> (x = JNull \<or> (\<exists>b. x = JBool b))" for x
      using that by (cases x) auto
    consider i j where "v = JInt i" "w = JInt j" | i f where "v = JInt i" "w = JFloat f"
      | f i where "v = JFloat f" "w = JInt i" | f g where "v = JFloat f" "w = JFloat g"
      using number [of v] number [of w] assms(4,5) False by blast
    then show ?thesis
    proof cases
      case 1
      then show ?thesis using assms(6) int_str_inj by simp
    next
      case 2
      then show ?thesis using assms(3,6) num [of f i] by simp
    next
      case 3
      then show ?thesis using assms(2,6) num [of f i] by simp
    next
      case 4
      then show ?thesis using assms(1-3,6) unfolding float_repr_ok_def by simp
    qed
  qed
qed

text \<open>What an item of an array or an object looks like, to the sequence lemma.\<close>

lemma starts_item_text:
  assumes "float_repr_ok env" and "json_floats_finite v"
  shows "starts_item (json_text env v)"
proof (cases "is_token v")
  case True
  then show ?thesis using token_ok_text [OF assms True] by (auto simp: token_ok_def starts_item_def)
next
  case False
  then show ?thesis using json_str_hd by (cases v) (auto simp: starts_item_def is_delim_def json_str_def)
qed

definition item_text :: "pyenv \<Rightarrow> string \<times> json \<Rightarrow> string" where
  "item_text env = (\<lambda>(k, x). json_str False k @ '':'' @ json_text env x)"

lemma starts_item_item: "starts_item (item_text env kx)"
  by (auto simp: starts_item_def item_text_def json_str_def is_delim_def split: prod.split)

lemma structured_hd:
  "\<not> is_token v \<Longrightarrow> \<exists>t. json_text env v = (case v of JStr _ \<Rightarrow> CHR 0x22 | JArr _ \<Rightarrow> CHR ''['' | _ \<Rightarrow> CHR ''{'') # t"
  by (cases v) (auto simp: json_str_def)

lemma token_vs_structured:
  assumes "float_repr_ok env" and "json_floats_finite v" and "is_token v" and "\<not> is_token w"
  shows "json_text env v @ r \<noteq> json_text env w @ r'"
proof -
  obtain c t where c: "json_text env v = c # t" "c \<notin> set ''[{''" "c \<noteq> CHR 0x22"
    using token_ok_text [OF assms(1-3)] by (cases "json_text env v") (auto simp: token_ok_def)
  then show ?thesis using structured_hd [OF assms(4), of env] by (auto split: json.splits)
qed

lemma Cons_eq_hd: "x # xs = y # ys \<Longrightarrow> x = y"
  by simp

lemma json_text_prefix:
  assumes "float_repr_ok env"
  shows "json_floats_finite v \<Longrightarrow> json_floats_finite w \<Longrightarrow> delim_rest r \<Longrightarrow> delim_rest r' \<Longrightarrow>
    json_text env v @ r = json_text env w @ r' \<Longrightarrow> v = w \<and> r = r'"
proof (induction v arbitrary: w r r' rule: measure_induct_rule [of size])
  case (less v)
  note eq = less.prems(5)
  consider "is_token v" "is_token w" | "is_token v" "\<not> is_token w" | "\<not> is_token v" "is_token w"
    | "\<not> is_token v" "\<not> is_token w" by blast
  then show ?case
  proof cases
    case 1
    have "json_text env v = json_text env w \<and> r = r'"
      by (rule token_prefix [OF _ _ less.prems(3,4) eq])
        (use token_ok_text [OF assms less.prems(1) 1(1)] token_ok_text [OF assms less.prems(2) 1(2)]
          in \<open>simp_all add: token_ok_def\<close>)
    then show ?thesis using token_inj [OF assms less.prems(1,2) 1] by blast
  next
    case 2
    then show ?thesis using token_vs_structured [OF assms less.prems(1)] eq by blast
  next
    case 3
    then show ?thesis using token_vs_structured [OF assms less.prems(2)] eq by metis
  next
    case 4
    let ?hd = "\<lambda>v. case v of JStr _ \<Rightarrow> CHR 0x22 | JArr _ \<Rightarrow> CHR ''['' | _ \<Rightarrow> CHR ''{''"
    have hds: "?hd v = ?hd w"
    proof -
      obtain t t' where t: "json_text env v = ?hd v # t" "json_text env w = ?hd w # t'"
        using structured_hd [OF 4(1), of env] structured_hd [OF 4(2), of env] by blast
      have "?hd v # t @ r = ?hd w # t' @ r'" using eq unfolding t by simp
      then show ?thesis by (rule Cons_eq_hd)
    qed
    consider s s' where "v = JStr s" "w = JStr s'" | xs ys where "v = JArr xs" "w = JArr ys"
      | m m' where "v = JObj m" "w = JObj m'"
      using 4 hds by (cases v; cases w; simp)
    then show ?thesis
    proof cases
      case 1
      then have "json_str False s @ r = json_str False s' @ r'" using eq by simp
      from json_str_prefix [OF this] 1 show ?thesis by simp
    next
      case 2
      have "xs = ys \<and> r = r'"
      proof (rule seq_prefix [where Q = json_floats_finite and I = "json_text env" and c = "CHR '']''"])
        show "\<forall>x \<in> set xs. \<forall>y r r'. json_floats_finite y \<longrightarrow> delim_rest r \<longrightarrow> delim_rest r' \<longrightarrow>
            json_text env x @ r = json_text env y @ r' \<longrightarrow> x = y \<and> r = r'"
        proof clarify
          fix x y r r'
          assume x: "x \<in> set xs" and h: "json_floats_finite y" "delim_rest r" "delim_rest r'"
            "json_text env x @ r = json_text env y @ r'"
          have "size x < size v" using x 2 by (induction xs arbitrary: v) force+
          moreover have "json_floats_finite x" using x 2 less.prems(1) by (simp add: list_all_iff)
          ultimately show "x = y \<and> r = r'" using less.IH h by blast
        qed
      qed (use 2 eq less.prems(1,2) starts_item_text [OF assms] in \<open>auto simp: list_all_iff\<close>)
      with 2 show ?thesis by simp
    next
      case 3
      have "m = m' \<and> r = r'"
      proof (rule seq_prefix [where Q = "\<lambda>kx. json_floats_finite (snd kx)" and I = "item_text env" and c = "CHR ''}''"])
        show "\<forall>x \<in> set m. \<forall>y r r'. json_floats_finite (snd y) \<longrightarrow> delim_rest r \<longrightarrow> delim_rest r' \<longrightarrow>
            item_text env x @ r = item_text env y @ r' \<longrightarrow> x = y \<and> r = r'"
        proof clarify
          fix k x k' x' r r'
          assume x: "(k, x) \<in> set m" and h: "json_floats_finite (snd (k', x'))" "delim_rest r" "delim_rest r'"
            "item_text env (k, x) @ r = item_text env (k', x') @ r'"
          have sz: "size x < size v" using x 3 by (induction m arbitrary: v) force+
          have fx: "json_floats_finite x" using x 3 less.prems(1) by (auto simp: list_all_iff)
          have "json_str False k @ '':'' @ json_text env x @ r = json_str False k' @ '':'' @ json_text env x' @ r'"
            using h(4) by (simp add: item_text_def)
          from json_str_prefix [OF this] have "k = k'" "json_text env x @ r = json_text env x' @ r'" by auto
          then show "(k, x) = (k', x') \<and> r = r'" using less.IH [OF sz fx] h(1-3) by auto
        qed
        show "join_with '','' (map (item_text env) m) @ CHR ''}'' # r = join_with '','' (map (item_text env) m') @ CHR ''}'' # r'"
          using 3 eq by (simp add: item_text_def)
      qed (use 3 less.prems(1,2) starts_item_item in \<open>auto simp: list_all_iff\<close>)
      with 3 show ?thesis by simp
    qed
  qed
qed

subsection \<open>Bytes\<close>

lemma utf8_char_cases:
  "(of_char c :: nat) < 128 \<Longrightarrow> utf8_char c = [c]"
  "\<not> (of_char c :: nat) < 128 \<Longrightarrow> utf8_char c = [char_of (192 + (of_char c :: nat) div 64), char_of (128 + (of_char c :: nat) mod 64)]"
  by (simp_all add: utf8_char_def Let_def)

lemma utf8_char_prefix: "utf8_char c @ x = utf8_char d @ y \<Longrightarrow> c = d \<and> x = y"
proof -
  let ?m = "of_char c :: nat" and ?n = "of_char d :: nat"
  have range: "?m < 256" "?n < 256" by simp_all
  have lead: "(of_char (char_of (192 + k div 64) :: char) :: nat) = 192 + k div 64"
    "(of_char (char_of (128 + k mod 64) :: char) :: nat) = 128 + k mod 64" if "k < 256" for k :: nat
    using that by simp_all
  assume e: "utf8_char c @ x = utf8_char d @ y"
  consider "?m < 128" "?n < 128" | "?m < 128" "\<not> ?n < 128" | "\<not> ?m < 128" "?n < 128" | "\<not> ?m < 128" "\<not> ?n < 128"
    by blast
  then show ?thesis
  proof cases
    case 1
    then show ?thesis using e by (simp add: utf8_char_cases)
  next
    case 2
    then have "c = char_of (192 + ?n div 64)" using e by (simp add: utf8_char_cases)
    then have "?m = 192 + ?n div 64" using lead(1) [OF range(2)] by metis
    with 2 show ?thesis by simp
  next
    case 3
    then have "d = char_of (192 + ?m div 64)" using e by (simp add: utf8_char_cases)
    then have "?n = 192 + ?m div 64" using lead(1) [OF range(1)] by metis
    with 3 show ?thesis by simp
  next
    case 4
    then have h: "(char_of (192 + ?m div 64) :: char) = char_of (192 + ?n div 64)"
      "(char_of (128 + ?m mod 64) :: char) = char_of (128 + ?n mod 64)" "x = y"
      using e by (auto simp add: utf8_char_cases)
    have "?m div 64 = ?n div 64" using lead(1) range h(1) by (metis add_left_cancel)
    moreover have "?m mod 64 = ?n mod 64" using lead(2) range h(2) by (metis add_left_cancel)
    ultimately have "?m = ?n" by (metis div_mult_mod_eq)
    with h(3) show ?thesis by simp
  qed
qed

lemma utf8_char_ne: "utf8_char c \<noteq> []"
  by (simp add: utf8_char_def Let_def)

lemma utf8_inj: "utf8 s = utf8 t \<Longrightarrow> s = t"
proof (induction s arbitrary: t)
  case Nil
  then show ?case using utf8_char_ne by (cases t) (auto simp: utf8_def)
next
  case (Cons c s)
  show ?case
  proof (cases t)
    case Nil
    then show ?thesis using Cons.prems utf8_char_ne by (auto simp: utf8_def)
  next
    case (Cons d u)
    then have "utf8_char c @ utf8 s = utf8_char d @ utf8 u" using Cons.prems by (simp add: utf8_def)
    from utf8_char_prefix [OF this] Cons.IH Cons show ?thesis by auto
  qed
qed

lemma canonical_json_unambiguous_bytes:
  assumes "float_repr_ok env" and "to_canonical_json env v = Inr b" and "to_canonical_json env w = Inr b'"
  shows "b = b' \<longleftrightarrow> json_of v = json_of w"
proof -
  obtain t where t: "encode env ''<root>'' v = Inr t" "b = utf8 t"
    using assms(2) by (auto simp: to_canonical_json_def rbind_Inr_iff)
  obtain u where u: "encode env ''<root>'' w = Inr u" "b' = utf8 u"
    using assms(3) by (auto simp: to_canonical_json_def rbind_Inr_iff)
  note vt = encode_text [OF t(1)] and wu = encode_text [OF u(1)]
  have "json_of v = json_of w" if "b = b'"
  proof -
    have "t = u" using that t(2) u(2) utf8_inj by simp
    then have "json_text env (json_of v) @ [] = json_text env (json_of w) @ []" using vt wu by simp
    then show ?thesis using json_text_prefix [OF assms(1), of "json_of v" "json_of w" "[]" "[]"] vt wu by simp
  qed
  then show ?thesis using vt wu t(2) u(2) by auto
qed

text \<open>
  C31: the canonical encoding is unambiguous. Two values that encode have the same bytes
  exactly when they are the same JSON value: sorted keys, lists and tuples alike, but never a
  string for a number, \<open>true\<close> for \<open>1\<close>, or one nesting for another.
\<close>

theorem canonical_json_unambiguous:
  assumes "float_repr_ok env" and "to_canonical_json env v = Inr b" and "to_canonical_json env w = Inr b'"
  shows "b = b' \<longleftrightarrow> json_of v = json_of w"
  using assms by (rule canonical_json_unambiguous_bytes)

definition sample_float_repr :: "pyfloat \<Rightarrow> string" where
  "sample_float_repr f = (case f of FNegZero \<Rightarrow> ''-0.0''
     | FNum q \<Rightarrow> int_str (fst (quotient_of q)) @ ''.e'' @ int_str (snd (quotient_of q)) | _ \<Rightarrow> ''nan'')"

definition sample_env :: pyenv where
  "sample_env = \<lparr>float_repr = sample_float_repr, obj_repr = (\<lambda>_. ''object'')\<rparr>"

lemma sample_env_inj:
  assumes "int_str a @ ''.e'' @ int_str b = int_str c @ ''.e'' @ int_str d"
  shows "a = c \<and> b = d"
proof -
  have no_point: "CHR ''.'' \<notin> set (int_str i)" for i
    using int_str_chars [of "CHR ''.''" i] by (auto simp: is_digit_def)
  have "split_once CHR ''.'' (int_str a @ CHR ''.'' # CHR ''e'' # int_str b) = split_once CHR ''.'' (int_str c @ CHR ''.'' # CHR ''e'' # int_str d)"
    using assms by simp
  then show ?thesis using int_str_inj by (auto simp: split_once_sep no_point)
qed

lemma sample_env_repr:
  "float_repr sample_env FNegZero = ''-0.0''"
  "float_repr sample_env (FNum q) = int_str (fst (quotient_of q)) @ ''.e'' @ int_str (snd (quotient_of q))"
  by (simp_all add: sample_env_def sample_float_repr_def)

lemma sample_chars: "float_chars (int_str a @ ''.e'' @ int_str b)"
  using int_str_chars by (auto simp: float_chars_def list_all_iff)

lemma sample_not_zero: "int_str a @ ''.e'' @ int_str b \<noteq> ''-0.0''"
proof
  assume e: "int_str a @ ''.e'' @ int_str b = ''-0.0''"
  have "CHR ''e'' \<in> set (int_str a @ ''.e'' @ int_str b)" by simp
  then have "CHR ''e'' \<in> set ''-0.0''" unfolding e .
  then show False by simp
qed

lemma sample_env_ok: "float_repr_ok sample_env"
  unfolding float_repr_ok_def
proof (intro allI impI)
  fix f g
  assume "finite_float f" "finite_float g"
  then consider "f = FNegZero" "g = FNegZero" | q where "f = FNegZero" "g = FNum q"
    | q where "f = FNum q" "g = FNegZero" | p q where "f = FNum p" "g = FNum q"
    by (cases f; cases g) (simp_all add: finite_float_def)
  then show "float_chars (float_repr sample_env f) \<and> (float_repr sample_env f = float_repr sample_env g \<longrightarrow> f = g)"
  proof cases
    case 1
    then show ?thesis by (simp add: sample_env_repr float_chars_def is_digit_def)
  next
    case 2
    then show ?thesis using sample_not_zero by (simp add: sample_env_repr float_chars_def is_digit_def) metis
  next
    case 3
    then show ?thesis using sample_not_zero sample_chars unfolding 3 sample_env_repr by blast
  next
    case 4
    show ?thesis unfolding 4 sample_env_repr
      using sample_chars sample_env_inj by (metis prod.collapse quotient_of_inject)
  qed
qed

theorem canonical_json_unambiguous_witness:
  "(''[1,null]'' = ''[true,null]'') = (json_of (PList [PInt 1, PNone]) = json_of (PTuple [PBool True, PNone]))"
  by (rule canonical_json_unambiguous [OF sample_env_ok]) code_simp+

lemma json_keys_sorted_items:
  assumes "json_keys m" and "mset m = mset m'"
  shows "sorted_items m = sorted_items m'"
proof -
  have str: "\<exists>s. k = PStr s" if "k \<in> fst ` set m" for k
    using assms(1) that by (auto simp: json_keys_def list_all_iff is_str_iff)
  have "inj_on key_of (fst ` set m)"
  proof (rule inj_onI)
    fix j k
    assume "j \<in> fst ` set m" "k \<in> fst ` set m" "key_of j = key_of k"
    then show "j = k" using str [of j] str [of k] by (auto simp: key_of_def)
  qed
  then have "distinct (map (key_of \<circ> fst) m)"
    using assms(1) by (simp add: json_keys_def distinct_map comp_inj_on)
  then show ?thesis
    unfolding sorted_items_def using assms(2)
    by (intro sort_key_perm) (simp_all add: comp_def case_prod_unfold)
qed

text \<open>
  The order in which a dictionary was filled does not show. Whatever the order of its
  entries, a dictionary encodes to the same bytes (or fails with the same error), so its hash
  is the same on every run and machine.
\<close>

lemma canonical_json_key_order:
  assumes "json_keys m" and "mset m = mset m'"
  shows "to_canonical_json env (PDict m) = to_canonical_json env (PDict m') \<and>
    canonical_sha256 env sha (PDict m) = canonical_sha256 env sha (PDict m')"
proof -
  have no: "find (\<lambda>kx. \<not> is_str (fst kx)) m = None" "find (\<lambda>kx. \<not> is_str (fst kx)) m' = None"
    using assms mset_eq_setD [OF assms(2)] by (auto simp: find_None_iff json_keys_def list_all_iff)
  have "encode env p (PDict m) = encode env p (PDict m')" for p
    by (simp add: encode_items no json_keys_sorted_items [OF assms])
  then show ?thesis by (simp add: to_canonical_json_def canonical_sha256_def)
qed

end
