(* ===== verification/IRModel.thy ===== *)
theory IRModel
  imports Canonical
begin

text \<open>
  Atlas IR (\<open>ir/model.py\<close>) and its identity (\<open>ir/hash.py\<close>). A node is a record with the source's fields; \<open>to_canonical\<close> is what is
  hashed, \<open>to_stored\<close> what an artifact keeps. The theorems: a stored node reads back as
  itself, the hash covers every field except the two migration directives, and equal input
  hashes mean equal subtrees. Documents read back are those whose fields have their declared
  types; the model answers a \<open>TypeError\<close> for any other, which Python would store unchecked.
\<close>

subsection \<open>Nodes\<close>

datatype node_kind = ResourceKind | DataKind

record irnode =
  nid :: node_id
  ntype :: string
  nprovider :: string
  nprovider_version :: string
  nproperties :: props
  ndependencies :: "node_id list"
  nprevent_destroy :: bool
  ncbd :: bool
  nignore_changes :: "string list"
  naliases :: "node_id list"
  ndepends_on :: "node_id list"
  nkind :: node_kind

definition is_data :: "irnode \<Rightarrow> bool" where
  "is_data n = (nkind n = DataKind)"

definition kind_str :: "node_kind \<Rightarrow> string" where
  "kind_str k = (case k of ResourceKind \<Rightarrow> ''resource'' | DataKind \<Rightarrow> ''data'')"

definition strs :: "string list \<Rightarrow> pyval" where
  "strs xs = PList (map PStr xs)"

text \<open>\<open>if b: node[k] = v\<close>, for a key not set before.\<close>

definition opt_item :: "bool \<Rightarrow> string \<Rightarrow> pyval \<Rightarrow> props" where
  "opt_item b k v = (if b then [(k, v)] else [])"

lemma map_of_opt_item [simp]:
  "map_of (opt_item b k v @ m) x = (if b \<and> x = k then Some v else map_of m x)"
  "map_of (opt_item b k v) x = (if b \<and> x = k then Some v else None)"
  by (simp_all add: opt_item_def)

lemma keys_opt_item [simp]: "map fst (opt_item b k v) = (if b then [k] else [])"
  by (simp add: opt_item_def)

definition canonical_items :: "irnode \<Rightarrow> props" where
  "canonical_items n =
     [(''id'', PStr (nid n)), (''type'', PStr (ntype n)), (''provider'', PStr (nprovider n)),
      (''provider_version'', PStr (nprovider_version n)), (''properties'', pdict (nproperties n)),
      (''dependencies'', strs (ndependencies n))]
     @ opt_item (nkind n \<noteq> ResourceKind) ''kind'' (PStr (kind_str (nkind n)))
     @ opt_item (nprevent_destroy n) ''prevent_destroy'' (PBool True)
     @ opt_item (ncbd n) ''create_before_destroy'' (PBool True)
     @ opt_item (nignore_changes n \<noteq> []) ''ignore_changes'' (strs (nignore_changes n))"

definition node_to_canonical :: "irnode \<Rightarrow> pyval" where
  "node_to_canonical n = pdict (canonical_items n)"

definition node_to_stored :: "irnode \<Rightarrow> pyval" where
  "node_to_stored n = pdict (canonical_items n
     @ opt_item (naliases n \<noteq> []) ''aliases'' (strs (naliases n))
     @ opt_item (ndepends_on n \<noteq> []) ''depends_on'' (strs (ndepends_on n)))"

text \<open>Reading a parsed document: \<open>d[k]\<close>, \<open>d.get(k, default)\<close>, and the declared types.\<close>

definition as_dict :: "pyval \<Rightarrow> (aerror, (pyval \<times> pyval) list) result" where
  "as_dict v = (case v of PDict m \<Rightarrow> Inr m | _ \<Rightarrow> Inl (PyTypeError ''not a mapping''))"

definition at_key :: "(pyval \<times> pyval) list \<Rightarrow> string \<Rightarrow> (aerror, pyval) result" where
  "at_key m k = (case pd_get m k of Some v \<Rightarrow> Inr v | None \<Rightarrow> Inl (KeyError k))"

definition at_key_or :: "(pyval \<times> pyval) list \<Rightarrow> string \<Rightarrow> pyval \<Rightarrow> pyval" where
  "at_key_or m k d = (case pd_get m k of Some v \<Rightarrow> v | None \<Rightarrow> d)"

definition to_str :: "pyval \<Rightarrow> (aerror, string) result" where
  "to_str v = (case v of PStr s \<Rightarrow> Inr s | _ \<Rightarrow> Inl (PyTypeError ''not a string''))"

definition to_bool :: "pyval \<Rightarrow> (aerror, bool) result" where
  "to_bool v = (case v of PBool b \<Rightarrow> Inr b | _ \<Rightarrow> Inl (PyTypeError ''not a bool''))"

definition to_int :: "pyval \<Rightarrow> (aerror, int) result" where
  "to_int v = (case v of PInt i \<Rightarrow> Inr i | _ \<Rightarrow> Inl (PyTypeError ''not an int''))"

definition to_list :: "pyval \<Rightarrow> (aerror, pyval list) result" where
  "to_list v = (case v of PList vs \<Rightarrow> Inr vs | PTuple vs \<Rightarrow> Inr vs | _ \<Rightarrow> Inl (PyTypeError ''not a list''))"

definition to_strs :: "pyval \<Rightarrow> (aerror, string list) result" where
  "to_strs v = rbind (to_list v) (rmap to_str)"

definition to_props :: "pyval \<Rightarrow> (aerror, props) result" where
  "to_props v = rbind (as_dict v) (rmap (\<lambda>(k, x). rbind (to_str k) (\<lambda>s. Inr (s, x))))"

definition node_kind_of :: "pyval \<Rightarrow> (aerror, node_kind) result" where
  "node_kind_of v = (case v of PStr s \<Rightarrow>
      if s = ''resource'' then Inr ResourceKind else if s = ''data'' then Inr DataKind
      else Inl (PyValueError ''unknown node kind'')
    | _ \<Rightarrow> Inl (PyValueError ''unknown node kind''))"

definition node_from_stored :: "pyval \<Rightarrow> (aerror, irnode) result" where
  "node_from_stored v =
     rbind (as_dict v) (\<lambda>m.
     rbind (rbind (at_key m ''id'') to_str) (\<lambda>i.
     rbind (rbind (at_key m ''type'') to_str) (\<lambda>t.
     rbind (rbind (at_key m ''provider'') to_str) (\<lambda>p.
     rbind (rbind (at_key m ''provider_version'') to_str) (\<lambda>pv.
     rbind (rbind (at_key m ''properties'') to_props) (\<lambda>props.
     rbind (rbind (at_key m ''dependencies'') to_strs) (\<lambda>deps.
     rbind (to_bool (at_key_or m ''prevent_destroy'' (PBool False))) (\<lambda>pd.
     rbind (to_bool (at_key_or m ''create_before_destroy'' (PBool False))) (\<lambda>cbd.
     rbind (to_strs (at_key_or m ''ignore_changes'' (PTuple []))) (\<lambda>ign.
     rbind (to_strs (at_key_or m ''aliases'' (PTuple []))) (\<lambda>al.
     rbind (to_strs (at_key_or m ''depends_on'' (PTuple []))) (\<lambda>don.
     rbind (node_kind_of (at_key_or m ''kind'' (PStr ''resource''))) (\<lambda>k.
     Inr \<lparr>nid = i, ntype = t, nprovider = p, nprovider_version = pv, nproperties = props,
          ndependencies = deps, nprevent_destroy = pd, ncbd = cbd, nignore_changes = ign,
          naliases = al, ndepends_on = don, nkind = k\<rparr>)))))))))))))"

definition edges :: "irnode \<Rightarrow> node_id list" where
  "edges n = sorted_set (ndependencies n @ ndepends_on n)"

lemma set_edges [simp]: "set (edges n) = set (ndependencies n) \<union> set (ndepends_on n)"
  by (simp add: edges_def)

subsection \<open>Graphs\<close>

record irgraph =
  gnodes :: "irnode list"
  gversion :: int

definition IR_VERSION :: int where "IR_VERSION = 1"

definition graph_to_canonical :: "irgraph \<Rightarrow> pyval" where
  "graph_to_canonical g = pdict [(''version'', PInt (gversion g)), (''nodes'', PList (map node_to_canonical (gnodes g)))]"

definition graph_to_stored :: "irgraph \<Rightarrow> pyval" where
  "graph_to_stored g = pdict [(''version'', PInt (gversion g)), (''nodes'', PList (map node_to_stored (gnodes g)))]"

definition graph_from_stored :: "pyval \<Rightarrow> (aerror, irgraph) result" where
  "graph_from_stored v =
     rbind (as_dict v) (\<lambda>m.
     rbind (rbind (rbind (at_key m ''nodes'') to_list) (rmap node_from_stored)) (\<lambda>ns.
     rbind (rbind (at_key m ''version'') to_int) (\<lambda>ver.
     Inr \<lparr>gnodes = ns, gversion = ver\<rparr>)))"

definition graph_node :: "irgraph \<Rightarrow> node_id \<Rightarrow> irnode option" where
  "graph_node g i = find (\<lambda>n. nid n = i) (gnodes g)"

definition graph_len :: "irgraph \<Rightarrow> nat" where
  "graph_len g = length (gnodes g)"

definition by_id :: "irgraph \<Rightarrow> (node_id \<times> irnode) list" where
  "by_id g = dict_of nid (\<lambda>n. n) (gnodes g)"

definition canonical_bytes :: "pyenv \<Rightarrow> irgraph \<Rightarrow> (aerror, string) result" where
  "canonical_bytes env g = to_canonical_json env (graph_to_canonical g)"

definition hash_ir :: "pyenv \<Rightarrow> (string \<Rightarrow> string) \<Rightarrow> irgraph \<Rightarrow> (aerror, string) result" where
  "hash_ir env sha g = canonical_sha256 env sha (graph_to_canonical g)"

subsection \<open>Storing and reading back\<close>

lemma pd_get_pdict_items: "pdict m = PDict p \<Longrightarrow> pd_get p k = map_of m k"
  by (auto simp: pdict_def pd_get_pdict)

lemma to_strs_strs [simp]: "to_strs (strs xs) = Inr xs"
  by (simp add: to_strs_def strs_def to_list_def) (induction xs, simp_all add: to_str_def)

lemma to_strs_empty [simp]: "to_strs (PTuple []) = Inr []"
  by (simp add: to_strs_def to_list_def)

lemma to_props_pdict [simp]: "to_props (pdict m) = Inr m"
  by (simp add: to_props_def pdict_def as_dict_def) (induction m, auto simp: to_str_def)

lemma as_dict_pdict: "as_dict (pdict m) = Inr (map (\<lambda>(k, v). (PStr k, v)) m)"
  by (simp add: as_dict_def pdict_def)

lemma node_kind_of_str [simp]: "node_kind_of (PStr (kind_str k)) = Inr k"
  by (cases k) (simp_all add: node_kind_of_def kind_str_def)

lemma node_kind_of_resource [simp]: "node_kind_of (PStr ''resource'') = Inr ResourceKind"
  by (simp add: node_kind_of_def)

lemma node_stored_get:
  defines "m n \<equiv> canonical_items n
     @ opt_item (naliases n \<noteq> []) ''aliases'' (strs (naliases n))
     @ opt_item (ndepends_on n \<noteq> []) ''depends_on'' (strs (ndepends_on n))"
  shows "map_of (m n) ''id'' = Some (PStr (nid n))"
    and "map_of (m n) ''type'' = Some (PStr (ntype n))"
    and "map_of (m n) ''provider'' = Some (PStr (nprovider n))"
    and "map_of (m n) ''provider_version'' = Some (PStr (nprovider_version n))"
    and "map_of (m n) ''properties'' = Some (pdict (nproperties n))"
    and "map_of (m n) ''dependencies'' = Some (strs (ndependencies n))"
    and "map_of (m n) ''kind'' = (if nkind n = ResourceKind then None else Some (PStr (kind_str (nkind n))))"
    and "map_of (m n) ''prevent_destroy'' = (if nprevent_destroy n then Some (PBool True) else None)"
    and "map_of (m n) ''create_before_destroy'' = (if ncbd n then Some (PBool True) else None)"
    and "map_of (m n) ''ignore_changes'' = (if nignore_changes n = [] then None else Some (strs (nignore_changes n)))"
    and "map_of (m n) ''aliases'' = (if naliases n = [] then None else Some (strs (naliases n)))"
    and "map_of (m n) ''depends_on'' = (if ndepends_on n = [] then None else Some (strs (ndepends_on n)))"
  unfolding m_def canonical_items_def by (simp_all del: map_of_append)

lemma node_from_stored_to_stored: "node_from_stored (node_to_stored n) = Inr n"
  unfolding node_from_stored_def node_to_stored_def as_dict_pdict rbind_simps at_key_def at_key_or_def
    pd_get_pdict node_stored_get
  by (simp add: to_str_def to_bool_def)

lemma stored_roundtrip: "graph_from_stored (graph_to_stored g) = Inr g"
proof -
  have "rmap node_from_stored (map node_to_stored ns) = Inr ns" for ns
    by (induction ns) (simp_all add: node_from_stored_to_stored)
  then show ?thesis
    by (simp add: graph_from_stored_def graph_to_stored_def as_dict_pdict at_key_def pd_get_def
        to_list_def to_int_def)
qed

subsection \<open>What the hash covers\<close>

definition json_map :: "props \<Rightarrow> string \<Rightarrow> json option" where
  "json_map m k = map_option json_of (map_of m k)"

lemma sorted_items_pdict: "sorted_items (map (\<lambda>(k, v). (PStr k, v)) m) = sort_key fst m"
  by (simp add: sorted_items_def comp_def case_prod_unfold key_of_def)

lemma json_of_pdict_eq:
  assumes "wf_dict m" and "wf_dict m'"
  shows "json_of (pdict m) = json_of (pdict m') \<longleftrightarrow> json_map m = json_map m'"
proof -
  let ?j = "\<lambda>m. map (\<lambda>(k, x). (k, json_of x)) m"
  have wf: "wf_dict (?j m)" "wf_dict (?j (sort_key fst m))" if "wf_dict m" for m
  proof -
    have "map fst (?j m) = map fst m" "map fst (?j (sort_key fst m)) = map fst (sort_key fst m)"
      by auto
    moreover have "distinct (map fst (sort_key fst m))"
      using that by (metis mset_eq_imp_distinct_iff mset_map mset_sort)
    ultimately show "wf_dict (?j m)" "wf_dict (?j (sort_key fst m))" using that by (simp_all only:)
  qed
  have jm: "json_map m = map_of (?j m)" for m
    by (simp add: fun_eq_iff json_map_def map_of_map [of json_of])
  have sj: "sort_key fst (?j m) = ?j (sort_key fst m)" if "wf_dict m" for m
  proof (rule properties_for_sort_key)
    show "mset (?j (sort_key fst m)) = mset (?j m)" by simp
    show "sorted (map fst (?j (sort_key fst m)))" by (simp add: comp_def case_prod_unfold)
    fix k
    assume k: "k \<in> set (?j (sort_key fst m))"
    then have "k \<in> set (?j m)" by simp
    with k show "filter (\<lambda>x. fst k = fst x) (?j (sort_key fst m)) = filter (\<lambda>x. fst k = fst x) (?j m)"
      using filter_key_single [OF wf(1) [OF that]] filter_key_single [OF wf(2) [OF that]] by simp
  qed
  have "json_of (pdict m) = json_of (pdict m') \<longleftrightarrow> sort_key fst (?j m) = sort_key fst (?j m')"
    by (simp only: pdict_def json_of_simps sorted_items_pdict json.inject sj [OF assms(1)] sj [OF assms(2)])
  also have "\<dots> \<longleftrightarrow> set (?j m) = set (?j m')"
  proof
    assume "sort_key fst (?j m) = sort_key fst (?j m')"
    then show "set (?j m) = set (?j m')" by (metis set_sort)
  next
    assume "set (?j m) = set (?j m')"
    then have "mset (?j m) = mset (?j m')"
      using wf(1) assms by (metis distinct_map set_eq_iff_mset_eq_distinct)
    then show "sort_key fst (?j m) = sort_key fst (?j m')"
      using wf(1) assms by (intro sort_key_perm) auto
  qed
  also have "\<dots> \<longleftrightarrow> json_map m = json_map m'"
    using map_of_inject_set [OF wf(1) [OF assms(1)] wf(1) [OF assms(2)]] by (simp add: jm)
  finally show ?thesis .
qed

text \<open>
  Two nodes with the same identity: every field agrees but the rename and ordering directives;
  properties agree as JSON values.
\<close>

definition same_identity :: "irnode \<Rightarrow> irnode \<Rightarrow> bool" where
  "same_identity n m \<longleftrightarrow> nid n = nid m \<and> ntype n = ntype m \<and> nprovider n = nprovider m \<and>
     nprovider_version n = nprovider_version m \<and> json_of (pdict (nproperties n)) = json_of (pdict (nproperties m)) \<and>
     ndependencies n = ndependencies m \<and> nprevent_destroy n = nprevent_destroy m \<and> ncbd n = ncbd m \<and>
     nignore_changes n = nignore_changes m \<and> nkind n = nkind m"

lemma wf_canonical_items: "wf_dict (canonical_items n)"
  by (simp add: canonical_items_def split: if_splits)

lemma json_of_strs: "json_of (strs xs) = JArr (map JStr xs)"
  by (simp add: strs_def comp_def)

lemma map_JStr_inj: "map JStr xs = map JStr ys \<longleftrightarrow> xs = ys"
  by (rule inj_map_eq_map) (simp add: inj_def)

lemma kind_str_inj: "kind_str j = kind_str k \<longleftrightarrow> j = k"
  by (cases j; cases k) (simp_all add: kind_str_def)

lemma canonical_items_map:
  "json_map (canonical_items n) = (\<lambda>k.
     if k = ''id'' then Some (JStr (nid n)) else if k = ''type'' then Some (JStr (ntype n))
     else if k = ''provider'' then Some (JStr (nprovider n))
     else if k = ''provider_version'' then Some (JStr (nprovider_version n))
     else if k = ''properties'' then Some (json_of (pdict (nproperties n)))
     else if k = ''dependencies'' then Some (JArr (map JStr (ndependencies n)))
     else if k = ''kind'' then (if nkind n = ResourceKind then None else Some (JStr (kind_str (nkind n))))
     else if k = ''prevent_destroy'' then (if nprevent_destroy n then Some (JBool True) else None)
     else if k = ''create_before_destroy'' then (if ncbd n then Some (JBool True) else None)
     else if k = ''ignore_changes'' then (if nignore_changes n = [] then None else Some (JArr (map JStr (nignore_changes n))))
     else None)"
  by (rule ext) (simp add: json_map_def canonical_items_def json_of_strs del: map_of_append)

lemma node_identity:
  "json_of (node_to_canonical n) = json_of (node_to_canonical m) \<longleftrightarrow> same_identity n m"
proof
  assume "json_of (node_to_canonical n) = json_of (node_to_canonical m)"
  then have e: "json_map (canonical_items n) = json_map (canonical_items m)"
    by (simp add: node_to_canonical_def json_of_pdict_eq wf_canonical_items)
  note at = fun_cong [OF e, unfolded canonical_items_map]
  show "same_identity n m"
    using at [of "''id''"] at [of "''type''"] at [of "''provider''"] at [of "''provider_version''"]
      at [of "''properties''"] at [of "''dependencies''"] at [of "''kind''"] at [of "''prevent_destroy''"]
      at [of "''create_before_destroy''"] at [of "''ignore_changes''"]
    by (simp add: same_identity_def map_JStr_inj kind_str_inj split: if_split_asm)
next
  assume "same_identity n m"
  then have "json_map (canonical_items n) = json_map (canonical_items m)"
    unfolding canonical_items_map same_identity_def by (elim conjE) (simp only:)
  then show "json_of (node_to_canonical n) = json_of (node_to_canonical m)"
    by (simp add: node_to_canonical_def json_of_pdict_eq wf_canonical_items)
qed

lemma graph_identity:
  "json_of (graph_to_canonical g) = json_of (graph_to_canonical h) \<longleftrightarrow>
     gversion g = gversion h \<and> list_all2 same_identity (gnodes g) (gnodes h)"
proof -
  have "json_of (graph_to_canonical g) = json_of (graph_to_canonical h) \<longleftrightarrow>
      json_map [(''version'', PInt (gversion g)), (''nodes'', PList (map node_to_canonical (gnodes g)))] =
      json_map [(''version'', PInt (gversion h)), (''nodes'', PList (map node_to_canonical (gnodes h)))]"
    unfolding graph_to_canonical_def by (rule json_of_pdict_eq) simp_all
  also have "\<dots> \<longleftrightarrow> gversion g = gversion h \<and>
      map (json_of \<circ> node_to_canonical) (gnodes g) = map (json_of \<circ> node_to_canonical) (gnodes h)"
    (is "?l \<longleftrightarrow> ?r")
  proof
    assume e: ?l
    show ?r using fun_cong [OF e, of "''version''"] fun_cong [OF e, of "''nodes''"] by (simp add: json_map_def)
  qed (simp add: json_map_def fun_eq_iff)
  also have "map (json_of \<circ> node_to_canonical) ns = map (json_of \<circ> node_to_canonical) ms \<longleftrightarrow>
      list_all2 same_identity ns ms" for ns ms
    by (induction ns arbitrary: ms) (auto simp: list_all2_Cons1 map_eq_Cons_conv node_identity, auto simp: Cons_eq_map_conv node_identity)
  finally show ?thesis .
qed

text \<open>
  The plan identity covers exactly the declared content. For graphs that encode, and a
  digest that does not collide on the two encodings, the hashes agree iff the nodes agree
  pairwise in every field but \<open>aliases\<close> and \<open>depends_on\<close>.
\<close>

lemma hash_ir_identity:
  assumes "float_repr_ok env" and "canonical_bytes env g = Inr b" and "canonical_bytes env h = Inr b'"
    and "sha b = sha b' \<longrightarrow> b = b'"
  shows "hash_ir env sha g = hash_ir env sha h \<longleftrightarrow>
    gversion g = gversion h \<and> list_all2 same_identity (gnodes g) (gnodes h)"
proof -
  have "b = b' \<longleftrightarrow> json_of (graph_to_canonical g) = json_of (graph_to_canonical h)"
    using assms(1-3) unfolding canonical_bytes_def by (rule canonical_json_unambiguous_bytes)
  moreover have "hash_ir env sha g = hash_ir env sha h \<longleftrightarrow> b = b'"
    using assms(2-4) by (auto simp: hash_ir_def canonical_sha256_def canonical_bytes_def)
  ultimately show ?thesis by (simp add: graph_identity)
qed

definition sample_node :: irnode where
  "sample_node = \<lparr>nid = ''s:t:a'', ntype = ''t'', nprovider = ''aws'', nprovider_version = ''1'',
     nproperties = [(''size'', PInt 3)], ndependencies = [], nprevent_destroy = True, ncbd = False,
     nignore_changes = [], naliases = [''s:t:old''], ndepends_on = [], nkind = ResourceKind\<rparr>"

definition sample_ir :: irgraph where
  "sample_ir = \<lparr>gnodes = [sample_node], gversion = 1\<rparr>"

definition renamed_ir :: irgraph where
  "renamed_ir = \<lparr>gnodes = [sample_node\<lparr>naliases := []\<rparr>], gversion = 1\<rparr>"

end
