(* ===== verification/Digraph.thy ===== *)
theory Digraph
  imports IRModel Worklist
begin

text \<open>
  The dependency graph (\<open>graph/model.py\<close>) and how it is built and checked (\<open>graph/build.py\<close>):
  adjacency from the IR, then an iterative Tarjan search whose explicit work stack and state
  are the source's, one loop iteration per \<open>tarjan_step\<close>. The child of a frame is looked up by
  the frame's position, as in the source; node ids the search meets are keys of \<open>deps\<close>,
  because \<open>adjacency\<close> rejects an edge to an unknown one.
\<close>

record digraph =
  node_ids :: "node_id list"
  deps :: "(node_id \<times> node_id list) list"
  dependents :: "(node_id \<times> node_id list) list"

definition graph_contains :: "digraph \<Rightarrow> node_id \<Rightarrow> bool" where
  "graph_contains g i = (i \<in> fst ` set (deps g))"

definition lookup :: "('k \<times> 'v) list \<Rightarrow> 'k \<Rightarrow> string \<Rightarrow> (aerror, 'v) result" where
  "lookup m k msg = (case map_of m k of Some v \<Rightarrow> Inr v | None \<Rightarrow> Inl (KeyError msg))"

definition predecessors :: "digraph \<Rightarrow> node_id \<Rightarrow> bool \<Rightarrow> (aerror, node_id list) result" where
  "predecessors g i reverse = (if reverse then lookup (dependents g) i i else lookup (deps g) i i)"

definition successors :: "digraph \<Rightarrow> node_id \<Rightarrow> bool \<Rightarrow> (aerror, node_id list) result" where
  "successors g i reverse = (if reverse then lookup (deps g) i i else lookup (dependents g) i i)"

subsection \<open>Adjacency\<close>

fun add_edges :: "node_id list \<Rightarrow> node_id \<Rightarrow> node_id list \<Rightarrow> (node_id \<times> node_id list) list
    \<Rightarrow> (aerror, (node_id \<times> node_id list) list) result" where
  "add_edges known n [] acc = Inr acc"
| "add_edges known n (d # ds) acc =
     (if d \<notin> set known then Inl (IRError ''node depends on unknown node'' [n, d])
      else add_edges known n ds (AList.update d (dget acc d [] @ [n]) acc))"

fun adjacency_loop :: "node_id list \<Rightarrow> irnode list \<Rightarrow> (node_id \<times> node_id list) list \<Rightarrow> (node_id \<times> node_id list) list
    \<Rightarrow> (aerror, (node_id \<times> node_id list) list \<times> (node_id \<times> node_id list) list) result" where
  "adjacency_loop known [] ds acc = Inr (ds, acc)"
| "adjacency_loop known (n # ns) ds acc =
     rbind (add_edges known (nid n) (edges n) acc)
       (\<lambda>acc'. adjacency_loop known ns (AList.update (nid n) (edges n) ds) acc')"

definition adjacency :: "irnode list \<Rightarrow> node_id list
    \<Rightarrow> (aerror, (node_id \<times> node_id list) list \<times> (node_id \<times> node_id list) list) result" where
  "adjacency ns ids = rbind (adjacency_loop ids ns [] (dict_of (\<lambda>i. i) (\<lambda>_. []) ids))
     (\<lambda>(ds, acc). Inr (ds, map (\<lambda>(i, v). (i, sort v)) acc))"

subsection \<open>Tarjan's search\<close>

record tarjan =
  index_of :: "(node_id \<times> nat) list"
  low :: "(node_id \<times> nat) list"
  on_stack :: "node_id set"
  scc_stack :: "node_id list"
  sccs :: "node_id list list"
  counter :: nat

definition tarjan_init :: tarjan where
  "tarjan_init = \<lparr>index_of = [], low = [], on_stack = {}, scc_stack = [], sccs = [], counter = 0\<rparr>"

text \<open>\<open>n in self.index_of\<close>\<close>

definition seen :: "tarjan \<Rightarrow> node_id set" where
  "seen t = fst ` set (index_of t)"

text \<open>The Python lists grow at the end; \<open>scc_stack\<close> and the work stack are kept top first.\<close>

definition enter :: "node_id \<Rightarrow> tarjan \<Rightarrow> tarjan" where
  "enter n t = t\<lparr>index_of := AList.update n (counter t) (index_of t), low := AList.update n (counter t) (low t),
     counter := counter t + 1, scc_stack := n # scc_stack t, on_stack := insert n (on_stack t)\<rparr>"

text \<open>\<open>pop()\<close> until the root comes off: what comes off, in that order, and what is left.\<close>

fun pop_until :: "node_id \<Rightarrow> node_id list \<Rightarrow> node_id list \<times> node_id list" where
  "pop_until r [] = ([], [])"
| "pop_until r (w # ws) = (if w = r then ([w], ws)
     else (let (c, rest) = pop_until r ws in (w # c, rest)))"

definition pop_scc :: "node_id \<Rightarrow> tarjan \<Rightarrow> tarjan" where
  "pop_scc r t = (let (component, rest) = pop_until r (scc_stack t) in
     t\<lparr>scc_stack := rest, on_stack := on_stack t - set component,
       sccs := (if length component > 1 then sccs t @ [sort component] else sccs t)\<rparr>)"

definition low_min :: "node_id \<Rightarrow> nat \<Rightarrow> tarjan \<Rightarrow> tarjan" where
  "low_min n k t = t\<lparr>low := AList.update n (min (dget (low t) n 0) k) (low t)\<rparr>"

type_synonym frame = "node_id \<times> nat"

definition tarjan_step :: "(node_id \<times> node_id list) list \<Rightarrow> frame list \<times> tarjan \<Rightarrow> frame list \<times> tarjan" where
  "tarjan_step ds st = (case st of
      ([], t) \<Rightarrow> ([], t)
    | ((node, next_child) # work, t) \<Rightarrow>
        (let t = (if next_child = 0 then enter node t else t);
             children = dget ds node []
         in if next_child < length children then
              (let child = children ! next_child; work' = (node, next_child + 1) # work
               in if child \<notin> seen t then ((child, 0) # work', t)
                  else if child \<in> on_stack t then (work', low_min node (dget (index_of t) child 0) t)
                  else (work', t))
            else
              (let t = (if dget (low t) node 0 = dget (index_of t) node 0 then pop_scc node t else t)
               in case work of
                    [] \<Rightarrow> ([], t)
                  | (parent, k) # _ \<Rightarrow> (work, low_min parent (dget (low t) node 0) t))))"

definition visit :: "(node_id \<times> node_id list) list \<Rightarrow> node_id \<Rightarrow> tarjan \<Rightarrow> tarjan option" where
  "visit ds r t = (if r \<in> seen t then Some t
     else map_option snd (while_option (\<lambda>(work, _). work \<noteq> []) (tarjan_step ds) ([(r, 0)], t)))"

fun visit_all :: "(node_id \<times> node_id list) list \<Rightarrow> node_id list \<Rightarrow> tarjan \<Rightarrow> tarjan option" where
  "visit_all ds [] t = Some t"
| "visit_all ds (r # rs) t = Option.bind (visit ds r t) (visit_all ds rs)"

definition find_cycles :: "node_id list \<Rightarrow> (node_id \<times> node_id list) list \<Rightarrow> node_id list list option" where
  "find_cycles ids ds = map_option (\<lambda>t. sccs t @ map (\<lambda>i. [i]) (filter (\<lambda>i. i \<in> set (dget ds i [])) ids))
     (visit_all ds ids tarjan_init)"

text \<open>
  \<open>build_graph\<close>: \<open>None\<close> would be a search that never returns, which the theorems exclude.
  The inner \<open>Inl\<close> is the \<open>Failure(CycleError)\<close>, the outer one the raised \<open>IRError\<close>.
\<close>

definition build_graph :: "irgraph \<Rightarrow> (aerror, (aerror, digraph) result) result option" where
  "build_graph ir =
     (let ids = sort (map nid (gnodes ir)) in
      case adjacency (gnodes ir) ids of
        Inl e \<Rightarrow> Some (Inl e)
      | Inr (ds, dts) \<Rightarrow> map_option (\<lambda>cycles. Inr (if cycles \<noteq> [] then Inl (CycleError cycles)
           else Inr \<lparr>node_ids = ids, deps = ds, dependents = dts\<rparr>)) (find_cycles ids ds))"

subsection \<open>Reading the search state\<close>

abbreviation idx :: "tarjan \<Rightarrow> node_id \<Rightarrow> nat" where "idx t n \<equiv> dget (index_of t) n 0"
abbreviation lo :: "tarjan \<Rightarrow> node_id \<Rightarrow> nat" where "lo t n \<equiv> dget (low t) n 0"
abbreviation kids :: "(node_id \<times> node_id list) list \<Rightarrow> node_id \<Rightarrow> node_id list" where "kids ds n \<equiv> dget ds n []"

lemma dget_update: "dget (AList.update k v m) x d = (if x = k then v else dget m x d)"
  by (simp add: dget_def update_conv')

lemma keys_update: "fst ` set (AList.update k v m) = insert k (fst ` set m)"
  by (simp add: dom_update)

lemma enter_simps [simp]:
  "idx (enter n t) m = (if m = n then counter t else idx t m)"
  "lo (enter n t) m = (if m = n then counter t else lo t m)"
  "seen (enter n t) = insert n (seen t)"
  "on_stack (enter n t) = insert n (on_stack t)" "scc_stack (enter n t) = n # scc_stack t"
  "sccs (enter n t) = sccs t" "counter (enter n t) = counter t + 1"
  by (auto simp: enter_def dget_update keys_update seen_def)

lemma low_min_simps [simp]:
  "index_of (low_min n k t) = index_of t" "seen (low_min n k t) = seen t" "on_stack (low_min n k t) = on_stack t"
  "scc_stack (low_min n k t) = scc_stack t" "sccs (low_min n k t) = sccs t"
  "counter (low_min n k t) = counter t"
  "lo (low_min n k t) m = (if m = n then min (lo t n) k else lo t m)"
  by (simp_all add: low_min_def dget_update seen_def)

lemma pop_until_split: "r \<notin> set xs \<Longrightarrow> pop_until r (xs @ r # ys) = (xs @ [r], ys)"
  by (induction xs) auto

lemma pop_scc_simps [simp]:
  "index_of (pop_scc r t) = index_of t" "seen (pop_scc r t) = seen t" "low (pop_scc r t) = low t" "counter (pop_scc r t) = counter t"
  "scc_stack (pop_scc r t) = snd (pop_until r (scc_stack t))"
  "on_stack (pop_scc r t) = on_stack t - set (fst (pop_until r (scc_stack t)))"
  "sccs (pop_scc r t) = (if length (fst (pop_until r (scc_stack t))) > 1
     then sccs t @ [sort (fst (pop_until r (scc_stack t)))] else sccs t)"
  by (simp_all add: pop_scc_def seen_def split: prod.splits)

text \<open>The state as the loop body sees it: a fresh top frame has been entered.\<close>

fun entered :: "frame list \<times> tarjan \<Rightarrow> tarjan" where
  "entered ([], t) = t"
| "entered ((n, k) # work, t) = (if k = 0 then enter n t else t)"

lemma tarjan_step_cases:
  assumes "st = ((n, k) # work, t)"
  obtains
    (fresh) c where "k < length (kids ds n)" and "c = kids ds n ! k" and "c \<notin> seen (entered st)"
      and "tarjan_step ds st = ((c, 0) # (n, k + 1) # work, entered st)"
  | (link) c where "k < length (kids ds n)" and "c = kids ds n ! k" and "c \<in> seen (entered st)"
      and "c \<in> on_stack (entered st)"
      and "tarjan_step ds st = ((n, k + 1) # work, low_min n (idx (entered st) c) (entered st))"
  | (cross) c where "k < length (kids ds n)" and "c = kids ds n ! k" and "c \<in> seen (entered st)"
      and "c \<notin> on_stack (entered st)" and "tarjan_step ds st = ((n, k + 1) # work, entered st)"
  | (settle) t' where "\<not> k < length (kids ds n)"
      and "t' = (if lo (entered st) n = idx (entered st) n then pop_scc n (entered st) else entered st)"
      and "tarjan_step ds st = (work, case work of [] \<Rightarrow> t' | (p, j) # _ \<Rightarrow> low_min p (lo (entered st) n) t')"
proof (cases "k < length (kids ds n)")
  case True
  then show thesis
    using fresh [OF True refl] link [OF True refl] cross [OF True refl] unfolding assms
    by (auto simp: tarjan_step_def Let_def split: if_splits)
next
  case False
  show thesis
  proof (rule settle [OF False refl])
    show "tarjan_step ds st = (work, case work of
        [] \<Rightarrow> if lo (entered st) n = idx (entered st) n then pop_scc n (entered st) else entered st
      | (p, j) # _ \<Rightarrow> low_min p (lo (entered st) n)
          (if lo (entered st) n = idx (entered st) n then pop_scc n (entered st) else entered st))"
      using False unfolding assms
      by (cases work) (auto simp: tarjan_step_def Let_def split: if_splits)
  qed
qed

subsection \<open>The invariant of the search\<close>

text \<open>
  \<open>ranked\<close>: the stack holds visited nodes, each once, newest first. \<open>lows_ok\<close>: a low link
  lies between the index of the root of the visit and the node's own. \<open>frames_ok\<close>: the work
  stack is a path of stack nodes, and what a frame has looked at is visited, and if still on
  the stack has been taken into the frame's low link or is the frame above it. \<open>done_ok\<close>: as
  long as no cycle was recorded, the popped nodes are closed under edges and acyclic.
\<close>

definition ranked :: "tarjan \<Rightarrow> bool" where
  "ranked t \<longleftrightarrow> on_stack t = set (scc_stack t) \<and> on_stack t \<subseteq> seen t \<and> (\<forall>n \<in> seen t. idx t n < counter t) \<and>
     sorted_wrt (\<lambda>a b. idx t b < idx t a) (scc_stack t)"

definition lows_ok :: "tarjan \<Rightarrow> bool" where
  "lows_ok t \<longleftrightarrow> (\<forall>n \<in> set (scc_stack t). idx t (last (scc_stack t)) \<le> lo t n \<and> lo t n \<le> idx t n)"

definition done_edges :: "(node_id \<times> node_id list) list \<Rightarrow> node_id set \<Rightarrow> (node_id \<times> node_id) set" where
  "done_edges ds D = {(a, b). a \<in> D \<and> b \<in> set (kids ds a) \<and> a \<noteq> b}"

definition done_ok :: "(node_id \<times> node_id list) list \<Rightarrow> tarjan \<Rightarrow> bool" where
  "done_ok ds t \<longleftrightarrow> (sccs t = [] \<longrightarrow> (\<forall>n \<in> seen t - on_stack t. set (kids ds n) \<subseteq> insert n (seen t - on_stack t)) \<and>
     acyclic (done_edges ds (seen t - on_stack t)))"

definition looked_at :: "(node_id \<times> node_id list) list \<Rightarrow> tarjan \<Rightarrow> node_id option \<Rightarrow> node_id \<Rightarrow> nat \<Rightarrow> bool" where
  "looked_at ds t up n k \<longleftrightarrow> k \<le> length (kids ds n) \<and> (\<forall>j < k. kids ds n ! j \<in> seen t \<and>
     (kids ds n ! j \<in> on_stack t \<longrightarrow> lo t n \<le> idx t (kids ds n ! j) \<or> up = Some (kids ds n ! j)))"

fun frames_ok :: "(node_id \<times> node_id list) list \<Rightarrow> tarjan \<Rightarrow> node_id option \<Rightarrow> frame list \<Rightarrow> bool" where
  "frames_ok ds t up [] \<longleftrightarrow> True"
| "frames_ok ds t up ((n, k) # work) \<longleftrightarrow> n \<in> on_stack t \<and> (up \<noteq> None \<longrightarrow> 0 < k) \<and> looked_at ds t up n k \<and>
     (case work of [] \<Rightarrow> n = last (scc_stack t) | (p, _) # _ \<Rightarrow> idx t p < idx t n) \<and> frames_ok ds t (Some n) work"

definition searching :: "(node_id \<times> node_id list) list \<Rightarrow> frame list \<Rightarrow> tarjan \<Rightarrow> bool" where
  "searching ds work t \<longleftrightarrow> ranked t \<and> lows_ok t \<and> done_ok ds t \<and> frames_ok ds t None work \<and> work \<noteq> []"

definition settled_state :: "(node_id \<times> node_id list) list \<Rightarrow> tarjan \<Rightarrow> bool" where
  "settled_state ds t \<longleftrightarrow> ranked t \<and> scc_stack t = [] \<and> done_ok ds t"

lemma ranked_last: "ranked t \<Longrightarrow> m \<in> set (scc_stack t) \<Longrightarrow> idx t (last (scc_stack t)) \<le> idx t m"
proof -
  assume r: "ranked t" and m: "m \<in> set (scc_stack t)"
  have "sorted_wrt (\<lambda>a b. idx t b < idx t a) xs \<Longrightarrow> m \<in> set xs \<Longrightarrow> idx t (last xs) \<le> idx t m" for xs
    by (induction xs) (auto intro: less_imp_le)
  with r m show ?thesis by (simp add: ranked_def)
qed

lemma ranked_distinct: "ranked t \<Longrightarrow> distinct (scc_stack t)"
proof -
  assume r: "ranked t"
  have "sorted_wrt (\<lambda>a b. idx t b < idx t a) xs \<Longrightarrow> distinct xs" for xs
    by (induction xs) auto
  with r show ?thesis by (simp add: ranked_def)
qed

lemma ranked_enter:
  assumes "ranked t" and "n \<notin> seen t"
  shows "ranked (enter n t)"
proof -
  have ne: "m \<noteq> n" if "m \<in> set (scc_stack t)" for m using assms that by (auto simp: ranked_def)
  have "sorted_wrt (\<lambda>a b. idx (enter n t) b < idx (enter n t) a) (scc_stack t)"
    using assms ne by (auto simp: ranked_def intro: sorted_wrt_mono_rel [rotated])
  then show ?thesis using assms ne by (auto simp: ranked_def less_Suc_eq)
qed

lemma frames_ok_nodes: "frames_ok ds t up work \<Longrightarrow> fst ` set work \<subseteq> on_stack t"
proof (induction work arbitrary: up)
  case (Cons f work)
  obtain n k where f: "f = (n, k)" by (cases f)
  then have "frames_ok ds t (Some n) work" "n \<in> on_stack t" using Cons.prems by auto
  with Cons.IH f show ?case by simp
qed simp

lemma looked_at_mono:
  assumes "looked_at ds t up n k"
    and "seen t \<subseteq> seen t'" and "\<And>m. m \<in> seen t \<Longrightarrow> idx t' m = idx t m"
    and "\<And>m. m \<in> seen t \<Longrightarrow> m \<in> on_stack t' \<Longrightarrow> m \<in> on_stack t" and "lo t' n \<le> lo t n"
  shows "looked_at ds t' up n k"
  unfolding looked_at_def
proof (intro conjI allI impI)
  show "k \<le> length (kids ds n)" using assms(1) by (simp add: looked_at_def)
  fix j
  assume "j < k"
  then have j: "kids ds n ! j \<in> seen t"
    "kids ds n ! j \<in> on_stack t \<Longrightarrow> lo t n \<le> idx t (kids ds n ! j) \<or> up = Some (kids ds n ! j)"
    using assms(1) by (auto simp: looked_at_def)
  show "kids ds n ! j \<in> seen t'" using j(1) assms(2) by blast
  assume "kids ds n ! j \<in> on_stack t'"
  then show "lo t' n \<le> idx t' (kids ds n ! j) \<or> up = Some (kids ds n ! j)"
    using j assms(3-5) by (metis le_trans)
qed

lemma frames_ok_mono:
  assumes "frames_ok ds t up work"
    and "seen t \<subseteq> seen t'" and "\<And>m. m \<in> seen t \<Longrightarrow> idx t' m = idx t m"
    and "\<And>m. m \<in> seen t \<Longrightarrow> m \<in> on_stack t' \<Longrightarrow> m \<in> on_stack t"
    and "fst ` set work \<subseteq> on_stack t' \<inter> seen t" and "\<And>m. m \<in> fst ` set work \<Longrightarrow> lo t' m \<le> lo t m"
    and "last (scc_stack t') = last (scc_stack t)"
  shows "frames_ok ds t' up work"
  using assms(1,5,6)
proof (induction work arbitrary: up)
  case (Cons f work)
  obtain n k where f: "f = (n, k)" by (cases f)
  have "looked_at ds t' up n k"
    by (rule looked_at_mono [OF _ assms(2-4)]) (use Cons.prems f in auto)
  moreover have "frames_ok ds t' (Some n) work"
    by (rule Cons.IH) (use Cons.prems f in auto)
  moreover have "case work of [] \<Rightarrow> n = last (scc_stack t') | (p, _) # _ \<Rightarrow> idx t' p < idx t' n"
    using Cons.prems f assms(3,7) by (cases work) auto
  ultimately show ?case
    using Cons.prems f by simp
qed simp

lemma frames_ok_pop_above:
  assumes "frames_ok ds t (Some n) ((p, j) # work)" and "n \<notin> on_stack t \<or> lo t p \<le> idx t n"
  shows "frames_ok ds t None ((p, j) # work)"
  using assms by (auto simp: looked_at_def)

subsection \<open>Each iteration keeps the invariant\<close>

lemma searching_fresh:
  assumes J: "searching ds ((n, k) # work) t" and k: "k < length (kids ds n)"
    and c: "kids ds n ! k \<notin> seen t"
  shows "searching ds ((kids ds n ! k, 0) # (n, k + 1) # work) (enter (kids ds n ! k) t)"
proof -
  let ?c = "kids ds n ! k" and ?t = "enter (kids ds n ! k) t"
  have R: "ranked t" and L: "lows_ok t" and D: "done_ok ds t" and F: "frames_ok ds t None ((n, k) # work)"
    using J by (auto simp: searching_def)
  have nst: "n \<in> on_stack t" "n \<in> seen t" and ne: "scc_stack t \<noteq> []"
    using F R by (auto simp: ranked_def)
  have fresh: "m \<noteq> ?c" if "m \<in> on_stack t \<or> m \<in> seen t" for m using that c R by (auto simp: ranked_def)
  have nodes: "fst ` set work \<subseteq> on_stack t" using frames_ok_nodes [OF F] by simp
  have "lows_ok ?t"
    using L R ne fresh by (auto simp: lows_ok_def ranked_def) (meson last_in_set less_imp_le subsetD)+
  moreover have "done_ok ds ?t"
  proof -
    have "seen ?t - on_stack ?t = seen t - on_stack t" using c R by (auto simp: ranked_def)
    with D show ?thesis by (simp add: done_ok_def)
  qed
  moreover have "frames_ok ds ?t (Some n) work"
    by (rule frames_ok_mono [where t = t])
      (use F nodes R fresh ne in \<open>auto simp: ranked_def\<close>)
  moreover have "looked_at ds ?t (Some ?c) n (k + 1)"
    using F k fresh nst by (auto simp: looked_at_def less_Suc_eq)
  moreover have "case work of [] \<Rightarrow> n = last (scc_stack ?t) | (p, _) # _ \<Rightarrow> idx ?t p < idx ?t n"
  proof (cases work)
    case Nil
    then show ?thesis using F ne by simp
  next
    case (Cons f rest)
    then obtain p j where p: "f = (p, j)" "p \<noteq> ?c" "n \<noteq> ?c"
      using nodes fresh nst by (cases f) auto
    then show ?thesis using F Cons by simp
  qed
  moreover have "idx ?t n < idx ?t ?c" using R nst fresh by (simp add: ranked_def)
  ultimately show ?thesis
    using ranked_enter [OF R c] nst by (simp add: searching_def looked_at_def [of _ _ None])
qed

lemma searching_link:
  assumes J: "searching ds ((n, k) # work) t" and k: "k < length (kids ds n)"
    and c: "kids ds n ! k \<in> on_stack t"
  shows "searching ds ((n, k + 1) # work) (low_min n (idx t (kids ds n ! k)) t)"
proof -
  let ?c = "kids ds n ! k" and ?t = "low_min n (idx t (kids ds n ! k)) t"
  have R: "ranked t" and L: "lows_ok t" and D: "done_ok ds t" and F: "frames_ok ds t None ((n, k) # work)"
    using J by (auto simp: searching_def)
  have cs: "?c \<in> seen t" "?c \<in> set (scc_stack t)" using R c by (auto simp: ranked_def)
  have "ranked ?t" using R unfolding ranked_def low_min_simps .
  moreover have "lows_ok ?t"
    using L ranked_last [OF R cs(2)] by (auto simp: lows_ok_def min_le_iff_disj)
  moreover have "done_ok ds ?t" using D by (simp add: done_ok_def)
  moreover have "frames_ok ds ?t (Some n) work"
    by (rule frames_ok_mono [where t = t]) (use F frames_ok_nodes [OF F] R in \<open>auto simp: ranked_def\<close>)
  moreover have "looked_at ds ?t None n (k + 1)"
    using F k cs by (auto simp: looked_at_def less_Suc_eq min_le_iff_disj)
  ultimately show ?thesis
    using F by (auto simp: searching_def split: list.splits)
qed

lemma searching_cross:
  assumes "searching ds ((n, k) # work) t" and "k < length (kids ds n)"
    and "kids ds n ! k \<in> seen t" and "kids ds n ! k \<notin> on_stack t"
  shows "searching ds ((n, k + 1) # work) t"
  using assms by (auto simp: searching_def looked_at_def less_Suc_eq split: list.splits)

text \<open>
  Settling a frame. When the low link is the node's own index its component is popped: what
  lies above the node on the stack. If that is the node alone, its children are all done.
\<close>

lemma rest_below:
  assumes "ranked t" and "r \<in> on_stack t" and "m \<in> on_stack t"
  shows "m \<in> set (snd (pop_until r (scc_stack t))) \<longleftrightarrow> idx t m < idx t r"
    and "m \<in> set (fst (pop_until r (scc_stack t))) \<longleftrightarrow> idx t r \<le> idx t m"
proof -
  have st: "on_stack t = set (scc_stack t)" and so: "sorted_wrt (\<lambda>a b. idx t b < idx t a) (scc_stack t)"
    using assms(1) by (auto simp: ranked_def)
  obtain xs ys where s: "scc_stack t = xs @ r # ys" "r \<notin> set xs"
    using assms(2) st by (metis split_list_first)
  have "fst (pop_until r (scc_stack t)) = xs @ [r]" "snd (pop_until r (scc_stack t)) = ys"
    using pop_until_split [OF s(2)] by (simp_all add: s(1))
  moreover have "\<forall>x \<in> set xs. idx t r < idx t x" "\<forall>y \<in> set ys. idx t y < idx t r"
    using so s(1) by (auto simp: sorted_wrt_append)
  ultimately show "m \<in> set (snd (pop_until r (scc_stack t))) \<longleftrightarrow> idx t m < idx t r"
    "m \<in> set (fst (pop_until r (scc_stack t))) \<longleftrightarrow> idx t r \<le> idx t m"
    using assms(3) st s(1) by (auto simp: not_less)
qed

lemma ranked_pop:
  assumes "ranked t" and "r \<in> on_stack t"
  shows "ranked (pop_scc r t)"
proof -
  have r: "r \<in> set (scc_stack t)" using assms by (simp add: ranked_def)
  then obtain xs ys where s: "scc_stack t = xs @ r # ys" "r \<notin> set xs" by (metis split_list_first)
  have p: "fst (pop_until r (scc_stack t)) = xs @ [r]" "snd (pop_until r (scc_stack t)) = ys"
    using pop_until_split [OF s(2)] by (simp_all add: s(1))
  have "distinct (xs @ r # ys)" using ranked_distinct [OF assms(1)] s(1) by simp
  then have "on_stack t - set (xs @ [r]) = set ys" using assms(1) s(1) by (auto simp: ranked_def)
  then show ?thesis
    using assms(1) s(1) pop_until_split [OF s(2), of ys] by (auto simp: ranked_def sorted_wrt_append)
qed

lemma done_insert:
  assumes "acyclic (done_edges ds D)" and "\<forall>n \<in> D. set (kids ds n) \<subseteq> insert n D"
    and "set (kids ds r) \<subseteq> insert r D" and "r \<notin> D"
  shows "acyclic (done_edges ds (insert r D)) \<and> (\<forall>n \<in> insert r D. set (kids ds n) \<subseteq> insert n (insert r D))"
proof
  have sub: "done_edges ds (insert r D) = done_edges ds D \<union> {(r, b) |b. b \<in> set (kids ds r) \<and> b \<noteq> r}"
    by (auto simp: done_edges_def)
  have into: "b \<noteq> r" if "(a, b) \<in> (done_edges ds (insert r D))\<^sup>+" for a b
    using that assms(2-4) by (induction rule: trancl_induct) (auto simp: done_edges_def)
  have stay: "a \<in> D \<Longrightarrow> (a, b) \<in> (done_edges ds D)\<^sup>+ \<and> b \<in> D" if "(a, b) \<in> (done_edges ds (insert r D))\<^sup>+" for a b
    using that
  proof (induction rule: trancl_induct)
    case (base b)
    then show ?case using assms(2,4) by (auto simp: done_edges_def)
  next
    case (step b c)
    then have "(b, c) \<in> done_edges ds D" "c \<in> D" using assms(2,4) by (auto simp: done_edges_def)
    with step show ?case by (meson trancl_into_trancl)
  qed
  show "acyclic (done_edges ds (insert r D))"
    unfolding acyclic_def
  proof (intro allI notI)
    fix x
    assume x: "(x, x) \<in> (done_edges ds (insert r D))\<^sup>+"
    have "x \<noteq> r" using into [OF x] .
    moreover have "x \<in> insert r D" using x by (induction rule: converse_trancl_induct) (auto simp: done_edges_def)
    ultimately have "(x, x) \<in> (done_edges ds D)\<^sup>+" using stay [OF x] by auto
    then show False using assms(1) by (simp add: acyclic_def)
  qed
  show "\<forall>n \<in> insert r D. set (kids ds n) \<subseteq> insert n (insert r D)" using assms(2,3) by blast
qed

lemma settle_done:
  assumes R: "ranked t" and D: "done_ok ds t" and n: "n \<in> on_stack t" and l: "lo t n = idx t n"
    and F: "looked_at ds t None n k" and k: "\<not> k < length (kids ds n)"
  shows "done_ok ds (pop_scc n t)"
  unfolding done_ok_def
proof (intro impI)
  let ?p = "pop_until n (scc_stack t)" and ?D = "seen t - on_stack t"
  assume "sccs (pop_scc n t) = []"
  then have s: "sccs t = []" and len: "length (fst ?p) \<le> 1" by (auto split: if_splits)
  have st: "on_stack t = set (scc_stack t)" using R by (simp add: ranked_def)
  have "n \<in> set (fst ?p)" using rest_below(2) [OF R n n] by simp
  with len have p: "fst ?p = [n]" by (cases "fst ?p") auto
  then have only: "m = n" if "m \<in> on_stack t" "idx t n \<le> idx t m" for m
    using rest_below(2) [OF R n that(1)] that(2) by simp
  have kids: "set (kids ds n) \<subseteq> insert n ?D"
  proof
    fix c
    assume "c \<in> set (kids ds n)"
    then obtain j where j: "j < k" "c = kids ds n ! j" using k by (metis in_set_conv_nth less_le_trans not_le)
    then have "c \<in> seen t" "c \<in> on_stack t \<longrightarrow> idx t n \<le> idx t c"
      using F l by (auto simp: looked_at_def)
    then show "c \<in> insert n ?D" using only by blast
  qed
  have "seen (pop_scc n t) - on_stack (pop_scc n t) = insert n ?D" using n R p by (auto simp: ranked_def)
  then show "(\<forall>n' \<in> seen (pop_scc n t) - on_stack (pop_scc n t).
        set (kids ds n') \<subseteq> insert n' (seen (pop_scc n t) - on_stack (pop_scc n t))) \<and>
      acyclic (done_edges ds (seen (pop_scc n t) - on_stack (pop_scc n t)))"
    using done_insert [of ds ?D n] D s kids n by (simp add: done_ok_def)
qed

definition settled_top :: "node_id \<Rightarrow> tarjan \<Rightarrow> tarjan" where
  "settled_top n t = (if lo t n = idx t n then pop_scc n t else t)"

lemma searching_settle:
  assumes J: "searching ds ((n, k) # (p, j) # work) t" and k: "\<not> k < length (kids ds n)"
  shows "searching ds ((p, j) # work) (low_min p (lo t n) (settled_top n t))"
proof -
  let ?u = "settled_top n t" let ?t = "low_min p (lo t n) ?u"
  have R: "ranked t" and L: "lows_ok t" and D: "done_ok ds t" and F: "frames_ok ds t None ((n, k) # (p, j) # work)"
    using J by (auto simp: searching_def)
  have st: "on_stack t = set (scc_stack t)" using R by (simp add: ranked_def)
  have np: "n \<in> on_stack t" "p \<in> on_stack t" "idx t p < idx t n" using F by auto
  have la: "looked_at ds t None n k" using F by simp
  have ln: "idx t (last (scc_stack t)) \<le> lo t n" "lo t n \<le> idx t n" using L np st by (auto simp: lows_ok_def)
  have mono: "seen ?u = seen t" "index_of ?u = index_of t" "low ?u = low t" "on_stack ?u \<subseteq> on_stack t"
    by (auto simp: settled_top_def)
  have Ru: "ranked ?u" using R ranked_pop [OF R np(1)] by (simp add: settled_top_def)
  have keep: "m \<in> on_stack ?u" if "m \<in> on_stack t" "idx t m < idx t n" for m
    using rest_below [OF R np(1) that(1)] that by (auto simp: settled_top_def)
  have gone: "n \<notin> on_stack ?u \<or> lo t n < idx t n"
    using rest_below(2) [OF R np(1) np(1)] ln by (auto simp: settled_top_def)
  have below: "idx t m < idx t n" if "m \<in> fst ` set ((p, j) # work)" for m
  proof -
    have "frames_ok ds t up fs \<Longrightarrow> fs = (a, b) # rest \<Longrightarrow> m \<in> fst ` set rest \<Longrightarrow> idx t m < idx t a" for up fs a b rest m
    proof (induction fs arbitrary: up a b rest)
      case (Cons f fs)
      then show ?case by (cases rest) (force split: prod.splits)+
    qed simp
    from this [OF F refl that] show ?thesis .
  qed
  have lastu: "last (scc_stack ?u) = last (scc_stack t)"
  proof (cases "lo t n = idx t n")
    case True
    obtain xs ys where s: "scc_stack t = xs @ n # ys" "n \<notin> set xs" using np(1) st by (metis split_list_first)
    then have "scc_stack ?u = ys" using pop_until_split [OF s(2), of ys] True by (simp add: settled_top_def)
    moreover have "p \<in> on_stack ?u" using keep np by blast
    ultimately have "ys \<noteq> []" "scc_stack ?u = ys" using Ru by (auto simp: ranked_def)
    then show ?thesis using s by simp
  qed (simp add: settled_top_def)
  have nodes: "fst ` set ((p, j) # work) \<subseteq> on_stack t" using frames_ok_nodes [OF F] by simp
  have Fu: "frames_ok ds ?t (Some n) ((p, j) # work)"
  proof (rule frames_ok_mono [where t = t])
    show "frames_ok ds t (Some n) ((p, j) # work)" using F by simp
    show "fst ` set ((p, j) # work) \<subseteq> on_stack ?t \<inter> seen t"
    proof
      fix m
      assume m: "m \<in> fst ` set ((p, j) # work)"
      then have "m \<in> on_stack t" using nodes by blast
      moreover from this have "m \<in> seen t" using R unfolding ranked_def by blast
      ultimately show "m \<in> on_stack ?t \<inter> seen t" using keep below [OF m] by simp
    qed
  qed (use mono lastu in auto)
  have "frames_ok ds ?t None ((p, j) # work)"
    using gone ln(2) mono by (intro frames_ok_pop_above [OF Fu]) auto
  moreover have "ranked ?t" using Ru unfolding ranked_def low_min_simps .
  moreover have "lows_ok ?t"
  proof -
    have "idx t (last (scc_stack t)) \<le> idx t m" if "m \<in> on_stack t" for m
      using ranked_last [OF R] that st by simp
    then have "lows_ok ?u" using L lastu mono Ru st by (auto simp: lows_ok_def ranked_def)
    then show ?thesis using ln lastu mono by (auto simp: lows_ok_def min_le_iff_disj)
  qed
  moreover have "done_ok ds ?t"
  proof -
    have "done_ok ds ?u" using settle_done [OF R D np(1) _ la k] D by (simp add: settled_top_def)
    then show ?thesis by (simp add: done_ok_def)
  qed
  ultimately show ?thesis by (simp add: searching_def)
qed

lemma searching_root:
  assumes J: "searching ds [(n, k)] t" and k: "\<not> k < length (kids ds n)"
  shows "settled_state ds (settled_top n t)"
proof -
  have R: "ranked t" and L: "lows_ok t" and D: "done_ok ds t" and F: "frames_ok ds t None [(n, k)]"
    using J by (auto simp: searching_def)
  have n: "n \<in> on_stack t" "n = last (scc_stack t)" "looked_at ds t None n k" using F by auto
  have st: "on_stack t = set (scc_stack t)" using R by (simp add: ranked_def)
  have "idx t (last (scc_stack t)) \<le> lo t n \<and> lo t n \<le> idx t n" using L n(1) st by (simp add: lows_ok_def)
  then have l: "lo t n = idx t n" unfolding n(2) [symmetric] by simp
  obtain xs ys where s: "scc_stack t = xs @ n # ys" "n \<notin> set xs" using n(1) st by (metis split_list_first)
  have "n \<notin> set ys" using ranked_distinct [OF R] s(1) by simp
  moreover have "ys \<noteq> [] \<Longrightarrow> n = last ys" using n(2) s(1) by (metis last_ConsR last_appendR list.distinct(1))
  ultimately have "ys = []" using last_in_set by metis
  then have "scc_stack (pop_scc n t) = []" using pop_until_split [OF s(2), of ys] s by simp
  then show ?thesis
    using ranked_pop [OF R n(1)] settle_done [OF R D n(1) l n(3) k] l
    by (simp add: settled_state_def settled_top_def)
qed

subsection \<open>The loop of one visit\<close>

definition kid_edges :: "(node_id \<times> node_id list) list \<Rightarrow> (node_id \<times> node_id) set" where
  "kid_edges ds = {(a, b). b \<in> set (kids ds a)}"

fun path_ok :: "(node_id \<times> node_id list) list \<Rightarrow> frame list \<Rightarrow> bool" where
  "path_ok ds (f # g # work) \<longleftrightarrow> fst f \<in> set (kids ds (fst g)) \<and> path_ok ds (g # work)"
| "path_ok ds _ \<longleftrightarrow> True"

text \<open>In an acyclic graph the stack is the path searched and no low link is ever lowered.\<close>

definition on_path :: "(node_id \<times> node_id list) list \<Rightarrow> frame list \<Rightarrow> tarjan \<Rightarrow> bool" where
  "on_path ds work t \<longleftrightarrow> sccs t = [] \<and> scc_stack t = map fst work \<and> (\<forall>n \<in> set (scc_stack t). lo t n = idx t n) \<and> path_ok ds work"

lemma path_ok_reach: "path_ok ds (f # work) \<Longrightarrow> c \<in> fst ` set (f # work) \<Longrightarrow> (c, fst f) \<in> (kid_edges ds)\<^sup>*"
proof (induction work arbitrary: f)
  case (Cons g work)
  show ?case
  proof (cases "c = fst f")
    case False
    then have "(c, fst g) \<in> (kid_edges ds)\<^sup>*" using Cons by auto
    moreover have "(fst g, fst f) \<in> kid_edges ds" using Cons.prems by (simp add: kid_edges_def)
    ultimately show ?thesis by (rule rtrancl_into_rtrancl)
  qed simp
qed simp

definition visit_inv :: "(node_id \<times> node_id list) list \<Rightarrow> node_id set \<Rightarrow> frame list \<times> tarjan \<Rightarrow> bool" where
  "visit_inv ds V st \<longleftrightarrow> V \<subseteq> seen (entered st) \<and>
     (if fst st = [] then settled_state ds (snd st) else searching ds (fst st) (entered st)) \<and>
     (acyclic (kid_edges ds) \<longrightarrow> on_path ds (fst st) (entered st))"

lemma visit_inv_init:
  assumes "settled_state ds t" and "r \<notin> seen t" and "acyclic (kid_edges ds) \<longrightarrow> sccs t = []"
  shows "visit_inv ds (insert r (seen t)) ([(r, 0)], t)"
proof -
  have R: "ranked t" and e: "scc_stack t = []" "on_stack t = {}" and D: "done_ok ds t"
    using assms(1) by (auto simp: settled_state_def ranked_def)
  have "seen (enter r t) - on_stack (enter r t) = seen t - on_stack t" using assms(2) e by auto
  then have "done_ok ds (enter r t)" using D by (simp add: done_ok_def)
  then show ?thesis
    using ranked_enter [OF R assms(2)] e assms(3)
    by (auto simp: visit_inv_def searching_def lows_ok_def looked_at_def on_path_def)
qed

lemma visit_inv_step:
  assumes I: "visit_inv ds V st" and ne: "fst st \<noteq> []"
  shows "visit_inv ds V (tarjan_step ds st)"
proof -
  obtain n k work t where st: "st = ((n, k) # work, t)" using ne by (cases st, cases "fst st") auto
  let ?t = "entered st" let ?A = "acyclic (kid_edges ds)"
  have V: "V \<subseteq> seen ?t" and J: "searching ds ((n, k) # work) ?t" and P: "?A \<longrightarrow> on_path ds ((n, k) # work) ?t"
    using I st by (auto simp: visit_inv_def)
  show ?thesis
  proof (cases rule: tarjan_step_cases [OF st, where ds = ds, case_names fresh link cross settle])
    case (fresh c)
    have "on_path ds ((c, 0) # (n, k + 1) # work) (enter c ?t)" if ?A
      using P that fresh(1-3) by (cases work) (auto simp: on_path_def searching_def ranked_def)
    then show ?thesis
      using searching_fresh [OF J fresh(1)] fresh V by (auto simp: visit_inv_def)
  next
    case (link c)
    have "\<not> ?A"
    proof
      assume a: ?A
      then have "path_ok ds ((n, k) # work)" "c \<in> fst ` set ((n, k) # work)"
        using P J link(4) by (auto simp: on_path_def searching_def ranked_def)
      from path_ok_reach [OF this] have "(c, n) \<in> (kid_edges ds)\<^sup>*" by simp
      moreover have "(n, c) \<in> kid_edges ds" using link(1,2) by (simp add: kid_edges_def)
      ultimately have "(n, n) \<in> (kid_edges ds)\<^sup>+" by (meson rtrancl_into_trancl2)
      with a show False by (simp add: acyclic_def)
    qed
    then show ?thesis using searching_link [OF J link(1)] link V by (auto simp: visit_inv_def)
  next
    case (cross c)
    have "on_path ds ((n, k + 1) # work) ?t" if ?A
      using P that by (cases work) (auto simp: on_path_def)
    then show ?thesis using searching_cross [OF J cross(1)] cross V by (auto simp: visit_inv_def)
  next
    case (settle t')
    then have t': "t' = settled_top n ?t" by (simp add: settled_top_def)
    have ns: "n \<in> on_stack ?t" using J by (simp add: searching_def)
    have pop: "sccs (pop_scc n ?t) = []" "scc_stack (pop_scc n ?t) = map fst work" if ?A
      using P that by (auto simp: on_path_def)
    show ?thesis
    proof (cases work)
      case Nil
      have "on_path ds [] t'" if ?A
        using P that pop [OF that] Nil by (auto simp: on_path_def t' settled_top_def)
      then show ?thesis
        using searching_root [of ds n k ?t] J settle(1,3) Nil V t'
        by (auto simp: visit_inv_def settled_top_def)
    next
      case (Cons f work')
      obtain p j where f: "f = (p, j)" by (cases f)
      have J': "searching ds ((p, j) # work') (low_min p (lo ?t n) t')"
        unfolding t' by (rule searching_settle [OF _ settle(1)]) (use J Cons f in simp)
      have j: "0 < j" using J Cons f by (simp add: searching_def)
      have "on_path ds work (low_min p (lo ?t n) t')" if a: ?A
      proof -
        have "lo ?t n = idx ?t n" "lo ?t p = idx ?t p" "idx ?t p < idx ?t n"
          using P a J Cons f by (auto simp: on_path_def searching_def)
        then show ?thesis
          using P a pop [OF a] Cons f by (auto simp: on_path_def t' settled_top_def)
      qed
      moreover have "seen (low_min p (lo ?t n) t') = seen ?t" by (simp add: t' settled_top_def)
      ultimately show ?thesis using J' j settle(3) Cons f V by (simp add: visit_inv_def)
    qed
  qed
qed

definition frames_left :: "(node_id \<times> node_id list) list \<Rightarrow> frame list \<Rightarrow> nat" where
  "frames_left ds work = (\<Sum>(n, k) \<leftarrow> work. length (kids ds n) - k + 1)"

lemma visit_step_decreases:
  assumes I: "visit_inv ds V st" and ne: "fst st \<noteq> []" and U: "finite U" "{c. \<exists>a. c \<in> set (kids ds a)} \<subseteq> U"
  shows "(tarjan_step ds st, st) \<in> measures [\<lambda>st. card (U - seen (entered st)), \<lambda>st. frames_left ds (fst st)]"
proof -
  obtain n k work t where st: "st = ((n, k) # work, t)" using ne by (cases st, cases "fst st") auto
  let ?t = "entered st"
  have J: "searching ds ((n, k) # work) ?t" using I st by (auto simp: visit_inv_def)
  show ?thesis
  proof (cases rule: tarjan_step_cases [OF st, where ds = ds, case_names fresh link cross settle])
    case (fresh c)
    have "c \<in> U" using U(2) fresh(2) nth_mem [OF fresh(1)] by blast
    then have "card (U - insert c (seen ?t)) < card (U - seen ?t)"
      using U(1) fresh(3) by (intro psubset_card_mono) auto
    then show ?thesis using fresh(4) by simp
  next
    case (link c)
    then show ?thesis using st by (simp add: frames_left_def)
  next
    case (cross c)
    then show ?thesis using st by (simp add: frames_left_def)
  next
    case (settle t')
    have "seen (entered (tarjan_step ds st)) = seen ?t"
    proof (cases work)
      case Nil
      then show ?thesis using settle(2,3) by simp
    next
      case (Cons f work')
      then have "0 < snd f" using J by (cases f) (simp add: searching_def)
      then show ?thesis using settle(2,3) Cons by (cases f) simp
    qed
    then show ?thesis using st settle(3) by (simp add: frames_left_def)
  qed
qed

lemma visit_result:
  assumes "settled_state ds t" and "acyclic (kid_edges ds) \<longrightarrow> sccs t = []"
  shows "\<exists>t'. visit ds r t = Some t' \<and> settled_state ds t' \<and> insert r (seen t) \<subseteq> seen t' \<and>
    (acyclic (kid_edges ds) \<longrightarrow> sccs t' = [])"
proof (cases "r \<in> seen t")
  case True
  then show ?thesis using assms by (auto simp: visit_def)
next
  case False
  let ?V = "insert r (seen t)" and ?b = "\<lambda>(work, _ :: tarjan). work \<noteq> []" and ?s0 = "([(r, 0)], t)"
  let ?U = "{c. \<exists>a. c \<in> set (kids ds a)}"
  let ?m = "measures [\<lambda>st. card (?U - seen (entered st)), \<lambda>st. frames_left ds (fst st)]"
  have step: "visit_inv ds ?V (tarjan_step ds st)" if "visit_inv ds ?V st" "?b st" for st
    using that visit_inv_step by (auto split: prod.splits)
  have dec: "(tarjan_step ds st, st) \<in> ?m" if "visit_inv ds ?V st" "?b st" for st
    by (rule visit_step_decreases [OF that(1)]) (use that(2) finite_dget_range in auto)
  have "wf {(t, st). (visit_inv ds ?V st \<and> ?b st) \<and> t = tarjan_step ds st}"
    by (rule wf_subset [of ?m]) (use dec in auto)
  then have "\<exists>st. while_option ?b (tarjan_step ds) ?s0 = Some st"
    by (rule wf_while_option_Some [where P = "visit_inv ds ?V"])
      (use step visit_inv_init [OF assms(1) False assms(2)] in auto)
  then obtain st where w: "while_option ?b (tarjan_step ds) ?s0 = Some st" by blast
  have "visit_inv ds ?V st"
    by (rule while_option_rule [OF _ w]) (use step visit_inv_init [OF assms(1) False assms(2)] in auto)
  moreover have "fst st = []" using while_option_stop [OF w] by (cases st) auto
  ultimately have "settled_state ds (snd st)" "?V \<subseteq> seen (snd st)" "acyclic (kid_edges ds) \<longrightarrow> sccs (snd st) = []"
    by (cases st; auto simp: visit_inv_def on_path_def)+
  then show ?thesis using w False by (simp add: visit_def)
qed

lemma visit_all_result:
  assumes "settled_state ds t" and "acyclic (kid_edges ds) \<longrightarrow> sccs t = []"
  shows "\<exists>t'. visit_all ds rs t = Some t' \<and> settled_state ds t' \<and> set rs \<union> seen t \<subseteq> seen t' \<and>
    (acyclic (kid_edges ds) \<longrightarrow> sccs t' = [])"
  using assms
proof (induction rs arbitrary: t)
  case (Cons r rs)
  obtain t1 where 1: "visit ds r t = Some t1" "settled_state ds t1" "insert r (seen t) \<subseteq> seen t1"
    "acyclic (kid_edges ds) \<longrightarrow> sccs t1 = []"
    using visit_result [OF Cons.prems] by blast
  from Cons.IH [OF 1(2,4)] 1 show ?case by auto
qed simp

lemma find_cycles_result:
  assumes "\<And>a. a \<notin> set ids \<Longrightarrow> kids ds a = []"
  shows "\<exists>cs. find_cycles ids ds = Some cs \<and> (cs = [] \<longleftrightarrow> acyclic (kid_edges ds))"
proof -
  have init: "settled_state ds tarjan_init" "sccs tarjan_init = []"
    by (auto simp: settled_state_def ranked_def done_ok_def tarjan_init_def done_edges_def acyclic_def seen_def)
  obtain t where t: "visit_all ds ids tarjan_init = Some t" "settled_state ds t" "set ids \<subseteq> seen t"
    "acyclic (kid_edges ds) \<longrightarrow> sccs t = []"
    using visit_all_result [OF init(1), of ids] init(2) by auto
  let ?loops = "filter (\<lambda>i. i \<in> set (kids ds i)) ids"
  have fc: "find_cycles ids ds = Some (sccs t @ map (\<lambda>i. [i]) ?loops)"
    using t(1) by (simp add: find_cycles_def)
  have "acyclic (kid_edges ds)" if "sccs t = []" "?loops = []"
  proof -
    have "on_stack t = {}" using t(2) by (auto simp: settled_state_def ranked_def)
    then have ac: "acyclic (done_edges ds (seen t))" using t(2) that(1) by (simp add: settled_state_def done_ok_def)
    have "kid_edges ds \<subseteq> done_edges ds (seen t)"
    proof clarify
      fix a b
      assume ab: "(a, b) \<in> kid_edges ds"
      then have "a \<in> set ids" using assms by (force simp: kid_edges_def)
      moreover from this have "a \<notin> set (kids ds a)" using that(2) by (simp add: filter_empty_conv)
      ultimately show "(a, b) \<in> done_edges ds (seen t)"
        using ab t(3) by (auto simp: kid_edges_def done_edges_def)
    qed
    with ac show ?thesis by (rule acyclic_subset)
  qed
  moreover have "?loops = []" if "acyclic (kid_edges ds)"
  proof -
    have "(i, i) \<notin> kid_edges ds" for i using that unfolding acyclic_def by blast
    then show ?thesis by (simp add: filter_empty_conv kid_edges_def)
  qed
  ultimately show ?thesis using fc t(4) by auto
qed

subsection \<open>Building the graph\<close>

definition known_edges :: "irgraph \<Rightarrow> bool" where
  "known_edges ir = (\<forall>n \<in> set (gnodes ir). set (edges n) \<subseteq> nid ` set (gnodes ir))"

definition ir_edges :: "irgraph \<Rightarrow> (node_id \<times> node_id) set" where
  "ir_edges ir = {(nid n, d) |n d. n \<in> set (gnodes ir) \<and> d \<in> set (edges n)}"

lemma ir_edges_code [code]: "ir_edges ir = set (concat (map (\<lambda>n. map (Pair (nid n)) (edges n)) (gnodes ir)))"
  by (auto simp: ir_edges_def)

lemma add_edges_ok: "set es \<subseteq> set known \<Longrightarrow> \<exists>acc'. add_edges known n es acc = Inr acc' \<and>
    fst ` set acc' = fst ` set acc \<union> set es \<and> (wf_dict acc \<longrightarrow> wf_dict acc') \<and>
    (distinct es \<longrightarrow> (\<forall>d. dget acc' d [] = dget acc d [] @ (if d \<in> set es then [n] else [])))"
proof (induction es arbitrary: acc)
  case (Cons e es)
  let ?acc = "AList.update e (dget acc e [] @ [n]) acc"
  have "set es \<subseteq> set known" using Cons.prems by simp
  from Cons.IH [OF this, of ?acc] obtain acc' where a: "add_edges known n es ?acc = Inr acc'"
    "fst ` set acc' = fst ` set ?acc \<union> set es" "wf_dict ?acc \<longrightarrow> wf_dict acc'"
    "distinct es \<longrightarrow> (\<forall>d. dget acc' d [] = dget ?acc d [] @ (if d \<in> set es then [n] else []))"
    by blast
  have "wf_dict acc \<longrightarrow> wf_dict ?acc" by (simp add: distinct_update)
  with a Cons.prems show ?case by (auto simp: dget_update keys_update)
qed simp

lemma add_edges_bad: "\<not> set es \<subseteq> set known \<Longrightarrow> \<exists>d \<in> set es. d \<notin> set known \<and>
    add_edges known n es acc = Inl (IRError ''node depends on unknown node'' [n, d])"
  by (induction es arbitrary: acc) auto

lemma adjacency_loop_bad:
  "\<exists>n \<in> set ns. \<not> set (edges n) \<subseteq> set known \<Longrightarrow> \<exists>n d. adjacency_loop known ns ds acc =
    Inl (IRError ''node depends on unknown node'' [n, d]) \<and> d \<notin> set known"
proof (induction ns arbitrary: ds acc)
  case (Cons n ns)
  show ?case
  proof (cases "set (edges n) \<subseteq> set known")
    case True
    then show ?thesis using Cons add_edges_ok [OF True, of "nid n" acc] by auto
  next
    case False
    then show ?thesis using add_edges_bad [OF False, of "nid n" acc] by auto
  qed
qed simp

lemma adjacency_loop_ok:
  assumes "\<forall>n \<in> set ns. set (edges n) \<subseteq> set known" and "wf_dict acc" and "wf_dict ds" and "set known \<subseteq> fst ` set acc"
  shows "\<exists>ds' acc'. adjacency_loop known ns ds acc = Inr (ds', acc') \<and> wf_dict ds' \<and> wf_dict acc' \<and>
    fst ` set ds' = fst ` set ds \<union> nid ` set ns \<and> fst ` set acc' = fst ` set acc \<and>
    (distinct (map nid ns) \<longrightarrow> (\<forall>n \<in> set ns. dget ds' (nid n) [] = edges n)) \<and>
    (\<forall>i. i \<notin> nid ` set ns \<longrightarrow> dget ds' i [] = dget ds i []) \<and>
    (\<forall>d. dget acc' d [] = dget acc d [] @ map nid (filter (\<lambda>n. d \<in> set (edges n)) ns))"
  using assms
proof (induction ns arbitrary: ds acc)
  case (Cons n ns)
  have sub: "set (edges n) \<subseteq> set known" using Cons.prems by simp
  obtain acc1 where a: "add_edges known (nid n) (edges n) acc = Inr acc1"
    "fst ` set acc1 = fst ` set acc \<union> set (edges n)" "wf_dict acc1"
    "\<forall>d. dget acc1 d [] = dget acc d [] @ (if d \<in> set (edges n) then [nid n] else [])"
    using add_edges_ok [OF sub, of "nid n" acc] Cons.prems(2) by (auto simp: edges_def)
  let ?ds = "AList.update (nid n) (edges n) ds"
  have keys1: "fst ` set acc1 = fst ` set acc" using a(2) sub Cons.prems(4) by blast
  have wf1: "wf_dict ?ds" using Cons.prems(3) by (simp add: distinct_update)
  have tl: "\<forall>n \<in> set ns. set (edges n) \<subseteq> set known" "set known \<subseteq> fst ` set acc1"
    using Cons.prems keys1 by auto
  from Cons.IH [OF tl(1) a(3) wf1 tl(2)] obtain ds' acc' where r:
    "adjacency_loop known ns ?ds acc1 = Inr (ds', acc')" "wf_dict ds'" "wf_dict acc'"
    "fst ` set ds' = fst ` set ?ds \<union> nid ` set ns" "fst ` set acc' = fst ` set acc1"
    "distinct (map nid ns) \<longrightarrow> (\<forall>n \<in> set ns. dget ds' (nid n) [] = edges n)"
    "\<forall>i. i \<notin> nid ` set ns \<longrightarrow> dget ds' i [] = dget ?ds i []"
    "\<forall>d. dget acc' d [] = dget acc1 d [] @ map nid (filter (\<lambda>n. d \<in> set (edges n)) ns)"
    by (elim exE conjE) (rule that; assumption)
  show ?case
  proof (rule exI [of _ ds'], rule exI [of _ acc'], intro conjI)
    show "adjacency_loop known (n # ns) ds acc = Inr (ds', acc')" using a(1) r(1) by simp
    show "fst ` set ds' = fst ` set ds \<union> nid ` set (n # ns)" using r(4) by (simp add: keys_update)
    show "fst ` set acc' = fst ` set acc" using r(5) keys1 by simp
    show "distinct (map nid (n # ns)) \<longrightarrow> (\<forall>n \<in> set (n # ns). dget ds' (nid n) [] = edges n)"
    proof (intro impI ballI)
      fix m
      assume d: "distinct (map nid (n # ns))" and m: "m \<in> set (n # ns)"
      then have "nid n \<notin> nid ` set ns" "distinct (map nid ns)" by simp_all
      then show "dget ds' (nid m) [] = edges m" using r(6,7) m by (auto simp: dget_update)
    qed
    show "\<forall>i. i \<notin> nid ` set (n # ns) \<longrightarrow> dget ds' i [] = dget ds i []" using r(7) by (simp add: dget_update)
    show "\<forall>d. dget acc' d [] = dget acc d [] @ map nid (filter (\<lambda>n. d \<in> set (edges n)) (n # ns))"
      using r(8) a(4) by (simp del: set_edges)
  qed (use r in blast)+
qed simp

text \<open>
  What the rest of the program relies on of a \<open>DiGraph\<close>: both maps are keyed by every node,
  edges stay within the graph, the two directions agree, no edge is listed twice, and there is
  no cycle.
\<close>

definition wf_digraph :: "digraph \<Rightarrow> bool" where
  "wf_digraph g \<longleftrightarrow> distinct (node_ids g) \<and>
     fst ` set (deps g) = set (node_ids g) \<and> fst ` set (dependents g) = set (node_ids g) \<and>
     (\<forall>a. set (dget (deps g) a []) \<subseteq> set (node_ids g)) \<and>
     (\<forall>a b. b \<in> set (dget (dependents g) a []) \<longleftrightarrow> a \<in> set (dget (deps g) b [])) \<and>
     (\<forall>a. distinct (dget (deps g) a []) \<and> distinct (dget (dependents g) a [])) \<and>
     (\<forall>a. sorted (dget (deps g) a []) \<and> sorted (dget (dependents g) a [])) \<and>
     acyclic (kid_edges (deps g))"

definition dep_edges :: "digraph \<Rightarrow> (node_id \<times> node_id) set" where
  "dep_edges g = kid_edges (deps g)"

lemma dget_map_snd: "dget (map (\<lambda>(i, v). (i, f v)) m) k [] = (if k \<in> fst ` set m then f (dget m k []) else [])"
  by (induction m) (auto simp: dget_def)

lemma dget_not_key: "k \<notin> fst ` set m \<Longrightarrow> dget m k d = d"
  by (simp add: dget_def map_of_eq_None_iff [THEN iffD2])

lemma adjacency_ok:
  assumes "distinct (map nid (gnodes ir))" and "known_edges ir"
  defines "ids \<equiv> sort (map nid (gnodes ir))"
  shows "\<exists>ds dts. adjacency (gnodes ir) ids = Inr (ds, dts) \<and> kid_edges ds = ir_edges ir \<and>
    (\<forall>n \<in> set (gnodes ir). dget ds (nid n) [] = edges n) \<and>
    (acyclic (kid_edges ds) \<longrightarrow> wf_digraph \<lparr>node_ids = ids, deps = ds, dependents = dts\<rparr>)"
proof -
  let ?ns = "gnodes ir" and ?acc0 = "dict_of (\<lambda>i. i) (\<lambda>_. [] :: node_id list) ids"
  have ids: "set ids = nid ` set ?ns" "distinct ids" using assms(1) by (simp_all add: ids_def)
  have acc0: "wf_dict ?acc0" "fst ` set ?acc0 = set ids" "dget ?acc0 d [] = []" for d
    using dict_of_keys [of "\<lambda>i. i" "\<lambda>_. []" ids] wf_dict_of
    by (auto simp: dget_def map_of_dict_of_distinct ids(2) map_of_map_self)
  have k1: "\<forall>n \<in> set ?ns. set (edges n) \<subseteq> set ids" using assms(2) ids(1) by (auto simp: known_edges_def)
  have k2: "wf_dict ([] :: (node_id \<times> node_id list) list)" and k3: "set ids \<subseteq> fst ` set ?acc0"
    using equalityD2 [OF acc0(2)] by simp_all
  from adjacency_loop_ok [OF k1 acc0(1) k2 k3] obtain ds acc where r0:
    "adjacency_loop ids ?ns [] ?acc0 = Inr (ds, acc)"
    "fst ` set ds = fst ` set ([] :: (node_id \<times> node_id list) list) \<union> nid ` set ?ns" "fst ` set acc = fst ` set ?acc0"
    "distinct (map nid ?ns) \<longrightarrow> (\<forall>n \<in> set ?ns. dget ds (nid n) [] = edges n)"
    "\<forall>d. dget acc d [] = dget ?acc0 d [] @ map nid (filter (\<lambda>n. d \<in> set (edges n)) ?ns)"
    by (elim exE conjE) (rule that; assumption)
  have r: "adjacency_loop ids ?ns [] ?acc0 = Inr (ds, acc)" "fst ` set ds = set ids" "fst ` set acc = set ids"
    "\<forall>n \<in> set ?ns. dget ds (nid n) [] = edges n"
    using r0(1-4) acc0(2) ids(1) assms(1) by simp_all
  have r7: "dget acc d [] = map nid (filter (\<lambda>n. d \<in> set (edges n)) ?ns)" for d
    using r0(5) acc0(3) by (metis append_Nil)
  let ?dts = "map (\<lambda>(i, v). (i, sort v)) acc"
  have adj: "adjacency ?ns ids = Inr (ds, ?dts)" using r(1) by (simp add: adjacency_def)
  have none: "dget ds a [] = []" if "a \<notin> set ids" for a using that r(2) by (simp add: dget_not_key)
  have in_ds: "b \<in> set (dget ds a []) \<longleftrightarrow> (\<exists>n \<in> set ?ns. nid n = a \<and> b \<in> set (edges n))" for a b
  proof (cases "a \<in> set ids")
    case True
    then obtain n where n: "n \<in> set ?ns" "nid n = a" using ids(1) by auto
    have uniq: "m = n" if "m \<in> set ?ns" "nid m = a" for m
      using assms(1) n that by (metis inj_on_def distinct_map)
    have "dget ds a [] = edges n" using r(4) n by blast
    then show ?thesis using uniq n by metis
  qed (use none ids(1) in auto)
  have dts: "dget ?dts d [] = (if d \<in> set ids then sort (map nid (filter (\<lambda>n. d \<in> set (edges n)) ?ns)) else [])" for d
    by (simp add: dget_map_snd r(3) r7 del: set_edges)
  have known: "b \<in> set ids" if "b \<in> set (dget ds a [])" for a b
    using that in_ds assms(2) ids(1) by (auto simp: known_edges_def)
  have "distinct (dget ds a [])" "sorted (dget ds a [])" for a
    by (cases "a \<in> set ids"; use r(4) none ids(1) in \<open>auto simp: edges_def\<close>)+
  moreover have "distinct (dget ?dts a [])" "sorted (dget ?dts a [])" for a
    using assms(1) by (auto simp: dts distinct_map_filter)
  moreover have "b \<in> set (dget ?dts a []) \<longleftrightarrow> a \<in> set (dget ds b [])" for a b
    using known in_ds by (auto simp: dts)
  moreover have "fst ` set ?dts = set ids" using r(3) by (simp add: image_image case_prod_unfold)
  ultimately have "acyclic (kid_edges ds) \<longrightarrow> wf_digraph \<lparr>node_ids = ids, deps = ds, dependents = ?dts\<rparr>"
    using ids(2) r(2) known by (auto simp: wf_digraph_def)
  moreover have "kid_edges ds = ir_edges ir" using in_ds by (auto simp: kid_edges_def ir_edges_def)
  ultimately show ?thesis using adj r(4) by blast
qed

lemma build_graph_result:
  assumes "distinct (map nid (gnodes ir))"
  shows "if \<not> known_edges ir then \<exists>n d. build_graph ir = Some (Inl (IRError ''node depends on unknown node'' [n, d])) \<and>
        d \<notin> nid ` set (gnodes ir)
    else if acyclic (ir_edges ir) then \<exists>g. build_graph ir = Some (Inr (Inr g)) \<and> wf_digraph g \<and>
        node_ids g = sort (map nid (gnodes ir)) \<and> dep_edges g = ir_edges ir
    else \<exists>cs. cs \<noteq> [] \<and> build_graph ir = Some (Inr (Inl (CycleError cs)))"
proof (cases "known_edges ir")
  case False
  let ?ids = "sort (map nid (gnodes ir))"
  have "\<exists>n \<in> set (gnodes ir). \<not> set (edges n) \<subseteq> set ?ids" using False by (auto simp: known_edges_def)
  from adjacency_loop_bad [OF this, of "[]" "dict_of (\<lambda>i. i) (\<lambda>_. []) ?ids"] False
  show ?thesis by (auto simp: build_graph_def adjacency_def)
next
  case True
  let ?ids = "sort (map nid (gnodes ir))"
  obtain ds dts where a: "adjacency (gnodes ir) ?ids = Inr (ds, dts)" "kid_edges ds = ir_edges ir"
    "acyclic (kid_edges ds) \<longrightarrow> wf_digraph \<lparr>node_ids = ?ids, deps = ds, dependents = dts\<rparr>"
    using adjacency_ok [OF assms True] by blast
  have "kids ds i = []" if "i \<notin> set ?ids" for i
  proof -
    have "b \<notin> set (kids ds i)" for b
      using that a(2) by (auto simp: kid_edges_def ir_edges_def set_eq_iff)
    then show ?thesis by (metis last_in_set)
  qed
  then obtain cs where "find_cycles ?ids ds = Some cs" "cs = [] \<longleftrightarrow> acyclic (kid_edges ds)"
    using find_cycles_result by blast
  then show ?thesis using True a by (auto simp: build_graph_def dep_edges_def)
qed

text \<open>
  C30: building the graph decides exactly whether the dependencies can be ordered. For nodes
  with distinct ids the search always ends; an edge to an unknown id is an \<open>IRError\<close>; otherwise
  the result is a graph with exactly the declared edges, well formed, if they are acyclic, and
  a \<open>CycleError\<close> naming at least one cycle if they are not.
\<close>

theorem build_graph_decides:
  assumes "distinct (map nid (gnodes ir))"
  shows "if \<not> known_edges ir then \<exists>n d. build_graph ir = Some (Inl (IRError ''node depends on unknown node'' [n, d])) \<and>
        d \<notin> nid ` set (gnodes ir)
    else if acyclic (ir_edges ir) then \<exists>g. build_graph ir = Some (Inr (Inr g)) \<and> wf_digraph g \<and>
        node_ids g = sort (map nid (gnodes ir)) \<and> dep_edges g = ir_edges ir
    else \<exists>cs. cs \<noteq> [] \<and> build_graph ir = Some (Inr (Inl (CycleError cs)))"
  by (rule build_graph_result [OF assms])

definition mk_node :: "node_id \<Rightarrow> node_id list \<Rightarrow> node_id list \<Rightarrow> irnode" where
  "mk_node i ds dons = \<lparr>nid = i, ntype = ''t'', nprovider = ''p'', nprovider_version = ''1'', nproperties = [],
     ndependencies = ds, nprevent_destroy = False, ncbd = False, nignore_changes = [], naliases = [],
     ndepends_on = dons, nkind = ResourceKind\<rparr>"

definition chain_ir :: irgraph where
  "chain_ir = \<lparr>gnodes = [mk_node ''a'' [] [], mk_node ''b'' [''a''] [], mk_node ''c'' [''a''] [''b'']], gversion = 1\<rparr>"

definition loop_ir :: irgraph where
  "loop_ir = \<lparr>gnodes = [mk_node ''a'' [''b''] [], mk_node ''b'' [] [''a'']], gversion = 1\<rparr>"

theorem build_graph_decides_witness:
  "\<exists>cs. cs \<noteq> [] \<and> build_graph loop_ir = Some (Inr (Inl (CycleError cs)))"
proof -
  have e: "(''a'', ''b'') \<in> ir_edges loop_ir" "(''b'', ''a'') \<in> ir_edges loop_ir"
    by code_simp+
  then have "\<not> acyclic (ir_edges loop_ir)" unfolding acyclic_def by (meson trancl.simps)
  moreover have "known_edges loop_ir" by code_simp
  moreover have "distinct (map nid (gnodes loop_ir))" by code_simp
  ultimately show ?thesis using build_graph_decides [of loop_ir] by simp
qed

end
