(* ===== verification/TopoOrder.thy ===== *)
theory TopoOrder
  imports Digraph
begin

text \<open>
  Kahn's algorithm with a heap (\<open>graph/order.py\<close>). The heap is modelled by what \<open>heapq\<close>
  promises: the list is kept sorted, and \<open>heappop\<close> takes its head, the smallest. The loop is a
  partial function; the theorem shows that on a well-formed graph it returns, raises nothing,
  and gives the one order in which every node follows what it needs and ties go to the
  smallest id.
\<close>

fun relax :: "node_id list \<Rightarrow> (node_id \<times> int) list \<Rightarrow> node_id list \<Rightarrow> (aerror, (node_id \<times> int) list \<times> node_id list) result" where
  "relax [] indegree ready = Inr (indegree, ready)"
| "relax (s # ss) indegree ready = (case map_of indegree s of
      None \<Rightarrow> Inl (KeyError s)
    | Some d \<Rightarrow> relax ss (AList.update s (d - 1) indegree) (if d - 1 = 0 then insort s ready else ready))"

partial_function (option) kahn :: "(node_id \<Rightarrow> (aerror, node_id list) result) \<Rightarrow> node_id list
    \<Rightarrow> (node_id \<times> int) list \<Rightarrow> node_id list \<Rightarrow> (aerror, node_id list) result option" where
  "kahn succs ready indegree order = (case ready of
      [] \<Rightarrow> Some (Inr order)
    | node # rest \<Rightarrow> (case succs node of
        Inl e \<Rightarrow> Some (Inl e)
      | Inr ss \<Rightarrow> (case relax ss indegree rest of
          Inl e \<Rightarrow> Some (Inl e)
        | Inr (indegree', ready') \<Rightarrow> kahn succs ready' indegree' (order @ [node]))))"

definition topological_order :: "digraph \<Rightarrow> bool \<Rightarrow> (aerror, node_id list) result option" where
  "topological_order g reverse =
     (case rmap (\<lambda>i. rbind (predecessors g i reverse) (\<lambda>ps. Inr (i, int (length ps)))) (node_ids g) of
        Inl e \<Rightarrow> Some (Inl e)
      | Inr indegree \<Rightarrow>
          kahn (\<lambda>i. successors g i reverse) (sort (map fst (filter (\<lambda>(i, deg). deg = 0) indegree))) indegree [])"

declare kahn.simps [code]

subsection \<open>What the loop computes\<close>

lemma relax_ok:
  assumes "set ss \<subseteq> fst ` set indeg" and "distinct ss" and "sorted ready"
    and "set ready \<inter> set ss = {}" and "distinct ready"
  shows "\<exists>indeg' ready'. relax ss indeg ready = Inr (indeg', ready') \<and> fst ` set indeg' = fst ` set indeg \<and>
    (\<forall>i. dget indeg' i 0 = dget indeg i 0 - (if i \<in> set ss then 1 else 0)) \<and>
    set ready' = set ready \<union> {s \<in> set ss. dget indeg s 0 = 1} \<and> sorted ready' \<and> distinct ready'"
  using assms
proof (induction ss arbitrary: indeg ready)
  case (Cons s ss)
  obtain d where d: "map_of indeg s = Some d"
    using Cons.prems(1) by (metis insert_subset list.simps(15) map_of_eq_None_iff option.exhaust)
  let ?indeg = "AList.update s (d - 1) indeg" and ?ready = "if d - 1 = 0 then insort s ready else ready"
  have c1: "set ss \<subseteq> fst ` set ?indeg" using Cons.prems(1) by (auto simp: keys_update)
  have c2: "distinct ss" using Cons.prems(2) by simp
  have c3: "sorted ?ready" "set ?ready \<inter> set ss = {}" "distinct ?ready"
    using Cons.prems(2-5) by (auto simp: sorted_insort set_insort_key distinct_insort)
  from Cons.IH [OF c1 c2 c3] obtain indeg' ready' where r: "relax ss ?indeg ?ready = Inr (indeg', ready')"
    "fst ` set indeg' = fst ` set ?indeg"
    "\<forall>i. dget indeg' i 0 = dget ?indeg i 0 - (if i \<in> set ss then 1 else 0)"
    "set ready' = set ?ready \<union> {s \<in> set ss. dget ?indeg s 0 = 1}" "sorted ready'" "distinct ready'"
    by (elim exE conjE) (rule that; assumption)
  have ds: "dget indeg s 0 = d" using d by (simp add: dget_def)
  have "s \<in> fst ` set indeg" using Cons.prems(1) by simp
  then have "fst ` set indeg' = fst ` set indeg" using r(2) by (auto simp: keys_update)
  moreover have "\<forall>i. dget indeg' i 0 = dget indeg i 0 - (if i \<in> set (s # ss) then 1 else 0)"
    using r(3) ds Cons.prems(2) by (auto simp: dget_update)
  moreover have "set ready' = set ready \<union> {x \<in> set (s # ss). dget indeg x 0 = 1}"
    using r(4) ds Cons.prems(2) by (auto simp: dget_update set_insort_key)
  ultimately show ?case using r(1,5,6) d by simp
qed simp

text \<open>
  The specification: position by position, the smallest id whose predecessors have all been
  listed. \<open>before\<close> is the set of predecessors of a node.
\<close>

definition available :: "node_id set \<Rightarrow> (node_id \<Rightarrow> node_id set) \<Rightarrow> node_id set \<Rightarrow> node_id set" where
  "available N before D = {i \<in> N - D. before i \<subseteq> D}"

definition smallest_first :: "node_id set \<Rightarrow> (node_id \<Rightarrow> node_id set) \<Rightarrow> node_id list \<Rightarrow> bool" where
  "smallest_first N before xs \<longleftrightarrow>
     (\<forall>k < length xs. xs ! k \<in> available N before (set (take k xs)) \<and>
        (\<forall>i \<in> available N before (set (take k xs)). xs ! k \<le> i))"

lemma smallest_first_closed:
  assumes "smallest_first N before xs" and "x \<in> set xs"
  shows "before x \<subseteq> set xs"
proof -
  obtain k where k: "k < length xs" "x = xs ! k" using assms(2) by (metis in_set_conv_nth)
  then have "x \<in> available N before (set (take k xs))" using assms(1) unfolding smallest_first_def by blast
  then have "before x \<subseteq> set (take k xs)" by (simp add: available_def)
  also have "\<dots> \<subseteq> set xs" by (rule set_take_subset)
  finally show ?thesis .
qed

lemma smallest_first_snoc:
  assumes "smallest_first N before xs" and "x \<in> available N before (set xs)"
    and "\<forall>i \<in> available N before (set xs). x \<le> i"
  shows "smallest_first N before (xs @ [x])"
  using assms by (auto simp: smallest_first_def nth_append less_Suc_eq)

definition kahn_inv :: "node_id set \<Rightarrow> (node_id \<Rightarrow> node_id set) \<Rightarrow> node_id list \<Rightarrow> (node_id \<times> int) list \<Rightarrow> node_id list \<Rightarrow> bool" where
  "kahn_inv N before ready indeg order \<longleftrightarrow>
     distinct order \<and> set order \<subseteq> N \<and> sorted ready \<and> distinct ready \<and>
     set ready = available N before (set order) \<and> fst ` set indeg = N \<and>
     (\<forall>i \<in> N. dget indeg i 0 = int (card (before i - set order))) \<and> smallest_first N before order"

lemma acyclic_available:
  assumes "finite N" and "acyclic {(b, a). b \<in> before a}" and "\<And>a. before a \<subseteq> N" and "D \<subseteq> N" and "D \<noteq> N"
  shows "available N before D \<noteq> {}"
proof -
  let ?r = "{(b, a). b \<in> before a \<and> a \<in> N}"
  have "?r \<subseteq> N \<times> N" using assms(3) by auto
  then have "finite ?r" using assms(1) by (meson finite_SigmaI finite_subset)
  moreover have "acyclic ?r" using assms(2) by (rule acyclic_subset) auto
  ultimately have "wf ?r" by (rule finite_acyclic_wf)
  moreover obtain x where "x \<in> N - D" using assms(4,5) by blast
  ultimately obtain z where z: "z \<in> N - D" "\<And>y. (y, z) \<in> ?r \<Longrightarrow> y \<notin> N - D"
    by (rule wfE_min) blast
  have "before z \<subseteq> D" using z assms(3) by blast
  with z(1) show ?thesis by (auto simp: available_def)
qed

lemma kahn_result:
  assumes fin: "finite N" and ac: "acyclic {(b, a). b \<in> before a}" and sub: "\<And>a. before a \<subseteq> N"
    and succs: "\<And>a. a \<in> N \<Longrightarrow> \<exists>ss. succs a = Inr ss \<and> distinct ss \<and> (\<forall>b. b \<in> set ss \<longleftrightarrow> a \<in> before b \<and> b \<in> N)"
    and inv: "kahn_inv N before ready indeg order"
  shows "\<exists>xs. kahn succs ready indeg order = Some (Inr xs) \<and> distinct xs \<and> set xs = N \<and> smallest_first N before xs"
  using inv
proof (induction "card (N - set order)" arbitrary: ready indeg order rule: less_induct)
  case less
  note I = less.prems
  have ord: "distinct order" "set order \<subseteq> N" and av: "set ready = available N before (set order)"
    and rd: "sorted ready" "distinct ready" and keys: "fst ` set indeg = N"
    and deg: "\<And>i. i \<in> N \<Longrightarrow> dget indeg i 0 = int (card (before i - set order))"
    and sf: "smallest_first N before order"
    using I by (auto simp: kahn_inv_def)
  show ?case
  proof (cases ready)
    case Nil
    then have "set order = N" using acyclic_available [OF fin ac sub ord(2)] av by auto
    then show ?thesis using Nil ord sf by (subst kahn.simps) simp
  next
    case (Cons n rest)
    have n: "n \<in> N" "n \<notin> set order" "before n \<subseteq> set order" using av Cons by (auto simp: available_def)
    obtain ss where ss: "succs n = Inr ss" "distinct ss" "\<And>b. b \<in> set ss \<longleftrightarrow> n \<in> before b \<and> b \<in> N"
      using succs [OF n(1)] by blast
    have nss: "n \<notin> before n" using n by blast
    have "set ss \<subseteq> fst ` set indeg" using ss(3) keys by auto
    moreover have "set rest \<inter> set ss = {}" using av Cons ss(3) n(2) by (auto simp: available_def)
    ultimately obtain indeg' ready' where r: "relax ss indeg rest = Inr (indeg', ready')"
      "fst ` set indeg' = fst ` set indeg"
      "\<And>i. dget indeg' i 0 = dget indeg i 0 - (if i \<in> set ss then 1 else 0)"
      "set ready' = set rest \<union> {s \<in> set ss. dget indeg s 0 = 1}" "sorted ready'" "distinct ready'"
      using relax_ok [of ss indeg rest] ss(2) rd Cons by auto
    have fb: "finite (before i)" for i using sub fin by (rule finite_subset)
    have card_n: "int (card (before i - set order)) - (if i \<in> set ss then 1 else 0) =
        int (card (before i - set (order @ [n])))" if "i \<in> N" for i
    proof (cases "n \<in> before i")
      case True
      then have "card (before i - set order) = Suc (card (before i - set order - {n}))"
        using fb n(2) by (intro card.remove) auto
      moreover have "before i - set order - {n} = before i - set (order @ [n])" by auto
      ultimately show ?thesis using True that ss(3) by simp
    next
      case False
      then have "before i - set order = before i - set (order @ [n])" by auto
      then show ?thesis using False ss(3) by simp
    qed
    have new: "dget indeg s 0 = 1 \<longleftrightarrow> before s \<subseteq> set (order @ [n])" if "s \<in> set ss" for s
    proof -
      have "s \<in> N" using that ss(3) by blast
      then have "dget indeg s 0 = 1 \<longleftrightarrow> card (before s - set (order @ [n])) = 0"
        using card_n [of s] deg [of s] that unfolding if_P [OF that] by linarith
      also have "\<dots> \<longleftrightarrow> before s - set (order @ [n]) = {}" using fb by (intro card_0_eq) simp
      finally show ?thesis by blast
    qed
    have nb: "x \<notin> set order" if "n \<in> before x" for x
      using smallest_first_closed [OF sf] n(2) that by blast
    have "set ready' = available N before (set (order @ [n]))"
    proof (intro set_eqI iffI)
      fix x
      assume "x \<in> set ready'"
      then show "x \<in> available N before (set (order @ [n]))"
        using r(4) new av Cons rd(2) ss(3) nss n nb by (auto simp: available_def)
    next
      fix x
      assume x: "x \<in> available N before (set (order @ [n]))"
      show "x \<in> set ready'"
      proof (cases "n \<in> before x")
        case True
        then show ?thesis using x r(4) new ss(3) by (auto simp: available_def)
      next
        case False
        then have "x \<in> set ready" using x av by (auto simp: available_def)
        then show ?thesis using x r(4) Cons by (auto simp: available_def)
      qed
    qed
    moreover have "smallest_first N before (order @ [n])"
      using sf av Cons rd(1) by (intro smallest_first_snoc) auto
    ultimately have inv': "kahn_inv N before ready' indeg' (order @ [n])"
      using ord n r(2,3,5,6) keys deg card_n by (auto simp: kahn_inv_def)
    have "card (N - set (order @ [n])) < card (N - set order)"
      using n fin by (intro psubset_card_mono) auto
    from less.hyps [OF this inv'] show ?thesis using Cons ss(1) r(1) by (subst kahn.simps) simp
  qed
qed

subsection \<open>The order of a graph\<close>

definition needs :: "digraph \<Rightarrow> bool \<Rightarrow> node_id \<Rightarrow> node_id set" where
  "needs g reverse i = set (dget (if reverse then dependents g else deps g) i [])"

lemma lookup_ok: "k \<in> fst ` set m \<Longrightarrow> lookup m k msg = Inr (dget m k d)"
  by (cases "map_of m k") (simp_all add: lookup_def dget_def map_of_eq_None_iff)

lemma neighbours_ok:
  assumes "wf_digraph g" and "i \<in> set (node_ids g)"
  shows "\<exists>ps. predecessors g i reverse = Inr ps \<and> set ps = needs g reverse i \<and> distinct ps"
    and "\<exists>ss. successors g i reverse = Inr ss \<and> distinct ss \<and> (\<forall>b. b \<in> set ss \<longleftrightarrow> i \<in> needs g reverse b)"
proof -
  have k: "i \<in> fst ` set (deps g)" "i \<in> fst ` set (dependents g)" using assms by (auto simp: wf_digraph_def)
  show "\<exists>ps. predecessors g i reverse = Inr ps \<and> set ps = needs g reverse i \<and> distinct ps"
    using assms(1) lookup_ok [OF k(1), of i "[]"] lookup_ok [OF k(2), of i "[]"]
    by (auto simp: predecessors_def needs_def wf_digraph_def)
  show "\<exists>ss. successors g i reverse = Inr ss \<and> distinct ss \<and> (\<forall>b. b \<in> set ss \<longleftrightarrow> i \<in> needs g reverse b)"
    using assms(1) lookup_ok [OF k(1), of i "[]"] lookup_ok [OF k(2), of i "[]"]
    by (auto simp: successors_def needs_def wf_digraph_def)
qed

lemma needs_in_graph: "wf_digraph g \<Longrightarrow> needs g reverse i \<subseteq> set (node_ids g)"
proof
  fix b
  assume wf: "wf_digraph g" and b: "b \<in> needs g reverse i"
  show "b \<in> set (node_ids g)"
  proof (cases reverse)
    case True
    then have "i \<in> set (dget (deps g) b [])" using wf b by (simp add: needs_def wf_digraph_def)
    then have "b \<in> fst ` set (deps g)" using dget_not_key [of b "deps g" "[]"] by force
    then show ?thesis using wf by (simp add: wf_digraph_def)
  next
    case False
    then show ?thesis using wf b by (auto simp: needs_def wf_digraph_def)
  qed
qed

lemma needs_acyclic: "wf_digraph g \<Longrightarrow> acyclic {(b, a). b \<in> needs g reverse a}"
proof -
  assume wf: "wf_digraph g"
  have "{(b, a). b \<in> needs g reverse a} = (if reverse then kid_edges (deps g) else (kid_edges (deps g))\<inverse>)"
    using wf by (auto simp: needs_def kid_edges_def wf_digraph_def)
  with wf show ?thesis by (simp add: wf_digraph_def)
qed

lemma topological_order_result:
  assumes wf: "wf_digraph g"
  shows "\<exists>xs. topological_order g reverse = Some (Inr xs) \<and> distinct xs \<and> set xs = set (node_ids g) \<and>
    smallest_first (set (node_ids g)) (needs g reverse) xs"
proof -
  let ?N = "node_ids g"
  have "\<exists>ps. i \<in> set ?N \<longrightarrow> predecessors g i reverse = Inr ps \<and> set ps = needs g reverse i \<and> distinct ps" for i
    using neighbours_ok(1) [OF wf] by blast
  then obtain P where P: "\<And>i. i \<in> set ?N \<Longrightarrow> predecessors g i reverse = Inr (P i) \<and> set (P i) = needs g reverse i \<and> distinct (P i)"
    by metis
  let ?indeg = "map (\<lambda>i. (i, int (length (P i)))) ?N"
  have r: "rmap (\<lambda>i. rbind (predecessors g i reverse) (\<lambda>ps. Inr (i, int (length ps)))) ?N = Inr ?indeg"
    by (rule rmap_pure) (simp add: P)
  have deg: "dget ?indeg i 0 = int (card (needs g reverse i))" if "i \<in> set ?N" for i
    using that P [OF that] by (simp add: dget_def map_of_map_self) (metis distinct_card)
  have fin: "finite (needs g reverse i)" for i by (simp add: needs_def)
  have empty: "int (length (P i)) = 0 \<longleftrightarrow> needs g reverse i = {}" if "i \<in> set ?N" for i
    using P [OF that] by auto
  have ready: "map fst (filter (\<lambda>(i, d). d = 0) (map (\<lambda>i. (i, int (length (P i)))) ns)) =
      filter (\<lambda>i. int (length (P i)) = 0) ns" for ns
    by (induction ns) auto
  have "set (filter (\<lambda>i. int (length (P i)) = 0) ?N) = available (set ?N) (needs g reverse) {}"
    using empty by (auto simp: available_def)
  then have "kahn_inv (set ?N) (needs g reverse) (sort (map fst (filter (\<lambda>(i, d). d = 0) ?indeg))) ?indeg []"
    using deg wf unfolding ready
    by (simp add: kahn_inv_def smallest_first_def wf_digraph_def image_image)
  then have "\<exists>xs. kahn (\<lambda>i. successors g i reverse) (sort (map fst (filter (\<lambda>(i, d). d = 0) ?indeg))) ?indeg [] =
      Some (Inr xs) \<and> distinct xs \<and> set xs = set ?N \<and> smallest_first (set ?N) (needs g reverse) xs"
  proof (rule kahn_result [OF _ needs_acyclic [OF wf] needs_in_graph [OF wf], rotated 2])
    fix a
    assume a: "a \<in> set ?N"
    have "b \<in> set ?N" if "a \<in> needs g reverse b" for b
    proof (rule ccontr)
      assume "b \<notin> set ?N"
      then have "needs g reverse b = {}"
        using wf dget_not_key [of b "deps g" "[]"] dget_not_key [of b "dependents g" "[]"]
        by (simp add: needs_def wf_digraph_def)
      with that show False by simp
    qed
    then show "\<exists>ss. successors g a reverse = Inr ss \<and> distinct ss \<and>
        (\<forall>b. (b \<in> set ss) = (a \<in> needs g reverse b \<and> b \<in> set ?N))"
      using neighbours_ok(2) [OF wf a, of reverse] by blast
  qed simp
  then show ?thesis by (simp add: topological_order_def r)
qed

text \<open>
  The order of a well-formed graph, in either direction, is total and deterministic.
  \<open>topological_order\<close> returns, raises nothing, lists every node once, puts each node after
  everything it needs (its dependencies, or in destroy order its dependents), and at every
  position takes the smallest id that may come next.
\<close>

lemma topological_order_correct:
  assumes "wf_digraph g"
  shows "\<exists>xs. topological_order g reverse = Some (Inr xs) \<and> distinct xs \<and> set xs = set (node_ids g) \<and>
    (\<forall>i < length xs. \<forall>b \<in> needs g reverse (xs ! i). b \<in> set (take i xs)) \<and>
    smallest_first (set (node_ids g)) (needs g reverse) xs"
proof -
  obtain xs where "topological_order g reverse = Some (Inr xs)" "distinct xs" "set xs = set (node_ids g)"
    and s: "smallest_first (set (node_ids g)) (needs g reverse) xs"
    using topological_order_result [OF assms] by blast
  moreover have "\<forall>i < length xs. \<forall>b \<in> needs g reverse (xs ! i). b \<in> set (take i xs)"
    using s by (auto simp: smallest_first_def available_def)
  ultimately show ?thesis by blast
qed

definition chain_graph :: digraph where
  "chain_graph = \<lparr>node_ids = [''a'', ''b'', ''c''], deps = [(''a'', []), (''b'', [''a'']), (''c'', [''a'', ''b''])],
     dependents = [(''a'', [''b'', ''c'']), (''b'', [''c'']), (''c'', [])]\<rparr>"

lemma chain_graph_wf: "wf_digraph chain_graph"
proof -
  have kids: "dget (deps chain_graph) x [] = (if x = ''b'' then [''a''] else if x = ''c'' then [''a'', ''b''] else [])"
    "dget (dependents chain_graph) x [] = (if x = ''a'' then [''b'', ''c''] else if x = ''b'' then [''c''] else [])" for x
    by (simp_all add: chain_graph_def dget_def)
  have "acyclic (kid_edges (deps chain_graph))"
  proof (rule acyclic_subset)
    show "kid_edges (deps chain_graph) \<subseteq> {(a, b). b < a}" by (auto simp: kid_edges_def kids split: if_splits)
    show "acyclic {(a :: string, b). b < a}"
    proof (rule acyclicI, intro allI notI)
      fix x :: string
      have "(a, b) \<in> {(a, b). b < a}\<^sup>+ \<Longrightarrow> b < a" for a b :: string
        by (induction rule: trancl_induct) auto
      moreover assume "(x, x) \<in> {(a, b). b < a}\<^sup>+"
      ultimately show False by blast
    qed
  qed
  moreover have "sorted (dget (deps chain_graph) x [])" "sorted (dget (dependents chain_graph) x [])" for x
    by (simp_all add: kids)
  ultimately show ?thesis
    by (simp add: wf_digraph_def kids) (auto simp: chain_graph_def split: if_splits)
qed

end
