(* ===== verification/GraphSelect.thy ===== *)
theory GraphSelect
  imports TopoOrder
begin

text \<open>
  Choosing nodes (\<open>graph/select.py\<close>): the closure of a \<open>--target\<close> selection and the pattern
  matching that seeds it; and create-before-destroy propagation (\<open>graph/cbd.py\<close>). Both walk
  the graph with a stack, marking a node when it is popped, so both are instances of the
  worklist contract \<open>visit_once\<close>.
\<close>

subsection \<open>Closure\<close>

definition closure_nexts :: "digraph \<Rightarrow> bool \<Rightarrow> node_id \<Rightarrow> node_id list" where
  "closure_nexts g reverse i = (if reverse then dget (dependents g) i [] else dget (deps g) i [])"

text \<open>
  \<open>graph.dependents[node_id]\<close> raises for a node outside the graph, \<open>graph.deps.get(node_id, ())\<close>
  does not. In a graph whose edges stay inside it only a seed can be outside, and the stack
  meets the last of those first.
\<close>

definition closure :: "digraph \<Rightarrow> node_id list \<Rightarrow> bool \<Rightarrow> (aerror, node_id set) result option" where
  "closure g seeds reverse =
     (let missing = filter (\<lambda>i. i \<notin> fst ` set (dependents g)) seeds in
      if reverse \<and> missing \<noteq> [] then Some (Inl (KeyError (last missing)))
      else map_option (\<lambda>(_, selected). Inr selected)
             (drain_pop (\<lambda>s i. i \<in> s) insert (closure_nexts g reverse) seeds {}))"

lemma finite_closure_nexts: "finite {b. \<exists>a. b \<in> set (closure_nexts g reverse a)}"
  using finite_dget_range [of "dependents g"] finite_dget_range [of "deps g"]
  by (cases reverse) (simp_all add: closure_nexts_def)

interpretation closure_walk: visit_once "\<lambda>s i. i \<in> s" insert "closure_nexts g reverse" for g reverse
  by unfold_locales (auto simp: finite_closure_nexts)

lemma closure_result:
  "\<not> reverse \<or> set seeds \<subseteq> fst ` set (dependents g) \<Longrightarrow>
    closure g seeds reverse = Some (Inr ((edges_of (closure_nexts g reverse))\<^sup>* `` set seeds))"
proof -
  assume a: "\<not> reverse \<or> set seeds \<subseteq> fst ` set (dependents g)"
  obtain s' where s: "drain_pop (\<lambda>s i. i \<in> s) insert (closure_nexts g reverse) seeds {} = Some ([], s')"
    "\<And>b. b \<in> s' \<longleftrightarrow> b \<in> {} \<or> b \<in> (edges_of (closure_nexts g reverse))\<^sup>* `` set seeds"
    by (rule closure_walk.drain_pop_reach [of "{}" g reverse seeds]) auto
  have "s' = (edges_of (closure_nexts g reverse))\<^sup>* `` set seeds" using s(2) by blast
  moreover have "\<not> (reverse \<and> filter (\<lambda>i. i \<notin> fst ` set (dependents g)) seeds \<noteq> [])"
    using a by (auto simp: filter_empty_conv)
  ultimately show ?thesis using s(1) by (simp add: closure_def)
qed

text \<open>
  A selection is closed and minimal. For a well-formed graph and seeds in it, the closure
  returns the seeds and everything they transitively require in the direction of the action:
  it holds the seeds, contains with a node all its dependencies (dependents on destroy), and
  is the least such set.
\<close>

lemma closure_least:
  assumes "wf_digraph g" and "set seeds \<subseteq> set (node_ids g)"
  shows "\<exists>S. closure g seeds reverse = Some (Inr S) \<and> set seeds \<subseteq> S \<and> S \<subseteq> set (node_ids g) \<and>
    (\<forall>i \<in> S. needs g reverse i \<subseteq> S) \<and>
    (\<forall>T. set seeds \<subseteq> T \<longrightarrow> (\<forall>i \<in> T. needs g reverse i \<subseteq> T) \<longrightarrow> S \<subseteq> T)"
proof -
  let ?E = "edges_of (closure_nexts g reverse)" let ?S = "?E\<^sup>* `` set seeds"
  have needs: "needs g reverse i = ?E `` {i}" for i
    by (auto simp: needs_def closure_nexts_def edges_of_def)
  have "closure g seeds reverse = Some (Inr ?S)"
    using assms by (intro closure_result) (simp add: wf_digraph_def)
  moreover have "\<forall>i \<in> ?S. needs g reverse i \<subseteq> ?S"
    by (auto simp: needs intro: rtrancl_into_rtrancl)
  moreover have least: "?S \<subseteq> T" if "set seeds \<subseteq> T" "\<forall>i \<in> T. needs g reverse i \<subseteq> T" for T
  proof
    fix x
    assume "x \<in> ?S"
    then obtain a where "a \<in> set seeds" "(a, x) \<in> ?E\<^sup>*" by blast
    moreover have "?E `` T \<subseteq> T" using that(2) unfolding needs by blast
    ultimately show "x \<in> T" using that(1) rtrancl_closed [of a x ?E T] by blast
  qed
  moreover have "?S \<subseteq> set (node_ids g)"
    using least [OF assms(2)] needs_in_graph [OF assms(1)] by blast
  ultimately show ?thesis by blast
qed

subsection \<open>Target patterns\<close>

text \<open>
  \<open>fnmatch\<close>: \<open>*\<close> any run, \<open>?\<close> one character, \<open>[...]\<close> a class with ranges and \<open>!\<close> for its
  complement, an unclosed bracket itself.
\<close>

fun class_has :: "string \<Rightarrow> char \<Rightarrow> bool" where
  "class_has (a # h # b # rest) c =
     (if h = CHR ''-'' then (a \<le> c \<and> c \<le> b) \<or> class_has rest c else a = c \<or> class_has (h # b # rest) c)"
| "class_has (a # rest) c = (a = c \<or> class_has rest c)"
| "class_has [] c = False"

definition eat :: "char \<Rightarrow> string \<Rightarrow> string \<times> string" where
  "eat c s = (if s \<noteq> [] \<and> hd s = c then ([c], tl s) else ([], s))"

definition class_end :: "string \<Rightarrow> (string \<times> string) option" where
  "class_end p = (let (bang, q) = eat CHR ''!'' p; (close, r) = eat CHR '']'' q
    in if CHR '']'' \<in> set r
       then Some (bang @ close @ takeWhile (\<lambda>c. c \<noteq> CHR '']'') r, tl (dropWhile (\<lambda>c. c \<noteq> CHR '']'') r)) else None)"

definition class_match :: "string \<Rightarrow> char \<Rightarrow> bool" where
  "class_match stuff c = (if fst (eat CHR ''!'' stuff) = [] then class_has stuff c
     else \<not> class_has (tl stuff) c)"

function glob :: "string \<Rightarrow> string \<Rightarrow> bool" where
  "glob p s = (case p of
      [] \<Rightarrow> s = []
    | x # q \<Rightarrow>
        if x = CHR ''*'' then glob q s \<or> (case s of [] \<Rightarrow> False | _ # t \<Rightarrow> glob p t)
        else if x = CHR ''?'' then (case s of [] \<Rightarrow> False | _ # t \<Rightarrow> glob q t)
        else (case (if x = CHR ''['' then class_end q else None) of
            Some (stuff, rest) \<Rightarrow> (case s of [] \<Rightarrow> False | c # t \<Rightarrow> class_match stuff c \<and> glob rest t)
          | None \<Rightarrow> (case s of [] \<Rightarrow> False | c # t \<Rightarrow> x = c \<and> glob q t)))"
  by pat_completeness auto
termination
  by (relation "measures [\<lambda>(p, s). length s, \<lambda>(p, s). length p]") auto

declare glob.simps [simp del]

definition match_one :: "string \<Rightarrow> node_id list \<Rightarrow> string \<Rightarrow> node_id list" where
  "match_one pattern ids default_stack =
     (if pattern \<in> set ids then [pattern]
      else if default_stack @ '':'' @ pattern \<in> set ids then [default_stack @ '':'' @ pattern]
      else filter (\<lambda>i. glob pattern i \<or> glob pattern (short_id i)) ids)"

fun match_targets :: "string list \<Rightarrow> node_id list \<Rightarrow> string \<Rightarrow> (aerror, node_id set) result" where
  "match_targets [] ids default_stack = Inr {}"
| "match_targets (p # ps) ids default_stack =
     (let matched = match_one p ids default_stack in
      if matched = [] then Inl (TargetError ''--target matched no resource'' (p # take 1 ids))
      else rbind (match_targets ps ids default_stack) (\<lambda>selected. Inr (set matched \<union> selected)))"

lemma match_targets_Inr:
  "match_targets ps ids d = Inr S \<longleftrightarrow> (\<forall>p \<in> set ps. match_one p ids d \<noteq> []) \<and> S = (\<Union>p \<in> set ps. set (match_one p ids d))"
  by (induction ps arbitrary: S) (auto simp: Let_def rbind_Inr_iff)

lemma match_targets_Inl:
  "(\<exists>e. match_targets ps ids d = Inl e) \<longleftrightarrow> (\<exists>p \<in> set ps. match_one p ids d = [])"
proof -
  have "(\<exists>e. match_targets ps ids d = Inl e) \<longleftrightarrow> (\<nexists>S. match_targets ps ids d = Inr S)"
    by (cases "match_targets ps ids d") auto
  then show ?thesis by (auto simp: match_targets_Inr)
qed

text \<open>
  A target list never silently selects nothing. Selection fails exactly when some pattern
  matches no known resource; otherwise what is selected is known, every pattern contributes,
  and a full node id selects that resource alone, whatever it looks like as a glob.
\<close>

lemma match_targets_exact:
  "((\<exists>e. match_targets ps ids d = Inl e) \<longleftrightarrow> (\<exists>p \<in> set ps. match_one p ids d = [])) \<and>
   (\<forall>S. match_targets ps ids d = Inr S \<longrightarrow> S \<subseteq> set ids \<and> (\<forall>p \<in> set ps. set (match_one p ids d) \<inter> S \<noteq> {}) \<and>
      (ps \<noteq> [] \<longrightarrow> S \<noteq> {})) \<and>
   (\<forall>i \<in> set ids. match_targets [i] ids d = Inr {i})"
proof (intro conjI allI impI ballI)
  show "(\<exists>e. match_targets ps ids d = Inl e) \<longleftrightarrow> (\<exists>p \<in> set ps. match_one p ids d = [])"
    by (rule match_targets_Inl)
  fix S
  assume S: "match_targets ps ids d = Inr S"
  have one: "set (match_one p ids d) \<subseteq> set ids" for p by (auto simp: match_one_def)
  show "S \<subseteq> set ids" using S one by (fastforce simp: match_targets_Inr)
  show "set (match_one p ids d) \<inter> S \<noteq> {}" if "p \<in> set ps" for p
    using S that by (fastforce simp: match_targets_Inr neq_Nil_conv)
  show "S \<noteq> {}" if "ps \<noteq> []" using S that unfolding match_targets_Inr by (cases ps) auto
next
  fix i
  assume "i \<in> set ids"
  then show "match_targets [i] ids d = Inr {i}" by (simp add: match_one_def)
qed

lemma match_targets_globs:
  "match_targets [''prod:*'', ''*:b''] [''prod:t:a'', ''dev:t:b'', ''dev:t:c''] ''default'' =
     Inr {''prod:t:a'', ''dev:t:b''}"
  by code_simp

subsection \<open>Create-before-destroy\<close>

definition cbd_nexts :: "irgraph \<Rightarrow> node_id \<Rightarrow> node_id list" where
  "cbd_nexts ir i = (case map_of (by_id ir) i of Some n \<Rightarrow> edges n | None \<Rightarrow> [])"

definition forced_by :: "node_id \<Rightarrow> (node_id \<times> node_id set) list \<Rightarrow> node_id \<Rightarrow> bool" where
  "forced_by origin forcers i = (origin \<in> dget forcers i {})"

definition add_forcer :: "node_id \<Rightarrow> node_id \<Rightarrow> (node_id \<times> node_id set) list \<Rightarrow> (node_id \<times> node_id set) list" where
  "add_forcer origin i forcers = AList.update i (insert origin (dget forcers i {})) forcers"

fun cbd_from :: "irgraph \<Rightarrow> node_id list \<Rightarrow> (node_id \<times> node_id set) list \<Rightarrow> (node_id \<times> node_id set) list option" where
  "cbd_from ir [] forcers = Some forcers"
| "cbd_from ir (origin # os) forcers =
     Option.bind (drain_pop (forced_by origin) (add_forcer origin) (cbd_nexts ir) [origin] forcers)
       (\<lambda>(_, forcers'). cbd_from ir os forcers')"

definition cbd_forcers :: "irgraph \<Rightarrow> (node_id \<times> node_id set) list option" where
  "cbd_forcers ir = cbd_from ir (map nid (filter ncbd (gnodes ir))) []"

definition effective_cbd :: "irgraph \<Rightarrow> node_id set option" where
  "effective_cbd ir = map_option (\<lambda>forcers. fst ` set forcers) (cbd_forcers ir)"

lemma finite_cbd_nexts: "finite {b. \<exists>a. b \<in> set (cbd_nexts ir a)}"
proof (rule finite_subset)
  show "{b. \<exists>a. b \<in> set (cbd_nexts ir a)} \<subseteq> (\<Union>n \<in> snd ` set (by_id ir). set (edges n))"
  proof clarify
    fix b a
    assume "b \<in> set (cbd_nexts ir a)"
    then obtain n where "map_of (by_id ir) a = Some n" "b \<in> set (edges n)"
      by (cases "map_of (by_id ir) a") (auto simp: cbd_nexts_def)
    then show "b \<in> (\<Union>n \<in> snd ` set (by_id ir). set (edges n))"
      by (intro UN_I [of n]) (auto dest!: map_of_SomeD intro: rev_image_eqI)
  qed
qed simp

interpretation cbd_walk: visit_once "forced_by origin" "add_forcer origin" "cbd_nexts ir" for origin ir
  by unfold_locales (auto simp: forced_by_def add_forcer_def dget_update finite_cbd_nexts)

definition forcers_ok :: "irgraph \<Rightarrow> node_id set \<Rightarrow> (node_id \<times> node_id set) list \<Rightarrow> bool" where
  "forcers_ok ir origins forcers \<longleftrightarrow>
     (\<forall>i r. r \<in> dget forcers i {} \<longleftrightarrow> r \<in> origins \<and> (r, i) \<in> (edges_of (cbd_nexts ir))\<^sup>*) \<and>
     (\<forall>i. i \<in> fst ` set forcers \<longleftrightarrow> dget forcers i {} \<noteq> {})"

lemma forcers_step:
  assumes "forcers_ok ir origins forcers"
  shows "\<exists>forcers'. drain_pop (forced_by r) (add_forcer r) (cbd_nexts ir) [r] forcers = Some ([], forcers') \<and>
    forcers_ok ir (insert r origins) forcers'"
proof -
  let ?E = "edges_of (cbd_nexts ir)"
  have iff: "s \<in> dget forcers i {} \<longleftrightarrow> s \<in> origins \<and> (s, i) \<in> ?E\<^sup>*" for s i
    using assms by (simp add: forcers_ok_def)
  have closed: "set (cbd_nexts ir a) \<subseteq> Collect (forced_by r forcers)" if "forced_by r forcers a" for a
    using that rtrancl_into_rtrancl [OF _ edges_of_iff [THEN iffD2]] by (auto simp: forced_by_def iff)
  obtain f where f: "drain_pop (forced_by r) (add_forcer r) (cbd_nexts ir) [r] forcers = Some ([], f)"
    "\<And>b. forced_by r f b \<longleftrightarrow> forced_by r forcers b \<or> b \<in> ?E\<^sup>* `` set [r]"
    by (rule cbd_walk.drain_pop_reach [of r forcers ir "[r]"]) (use closed in auto)
  have other: "\<forall>i. forced_by s f i = forced_by s forcers i" if "s \<noteq> r" for s
  proof -
    have "\<forall>i. forced_by s (snd ([] :: node_id list, f)) i = forced_by s forcers i"
      by (rule drain_pop_keeps [OF f(1), where Q = "\<lambda>g. \<forall>i. forced_by s g i = forced_by s forcers i"])
        (use that in \<open>auto simp: forced_by_def add_forcer_def dget_update\<close>)
    then show ?thesis by simp
  qed
  have keys: "\<forall>i. i \<in> fst ` set (snd ([] :: node_id list, f)) \<longleftrightarrow> dget (snd ([] :: node_id list, f)) i {} \<noteq> {}"
    by (rule drain_pop_keeps [OF f(1), where Q = "\<lambda>g. \<forall>i. i \<in> fst ` set g \<longleftrightarrow> dget g i {} \<noteq> {}"])
      (use assms in \<open>auto simp: forcers_ok_def add_forcer_def dget_update keys_update\<close>)
  have "s \<in> dget f i {} \<longleftrightarrow> s \<in> insert r origins \<and> (s, i) \<in> ?E\<^sup>*" for s i
  proof (cases "s = r")
    case True
    then show ?thesis using f(2) [of i] iff [of r i] by (auto simp: forced_by_def)
  next
    case False
    then show ?thesis using other [OF False] iff [of s i] by (simp add: forced_by_def)
  qed
  then have "forcers_ok ir (insert r origins) f" using keys by (simp add: forcers_ok_def)
  with f(1) show ?thesis by blast
qed

lemma cbd_from_ok: "forcers_ok ir origins forcers \<Longrightarrow> \<exists>f. cbd_from ir os forcers = Some f \<and> forcers_ok ir (set os \<union> origins) f"
proof (induction os arbitrary: origins forcers)
  case (Cons r os)
  obtain g where g: "drain_pop (forced_by r) (add_forcer r) (cbd_nexts ir) [r] forcers = Some ([], g)"
    "forcers_ok ir (insert r origins) g"
    using forcers_step [OF Cons.prems] by blast
  from Cons.IH [OF g(2)] g(1) show ?case by simp
qed simp

lemma cbd_forcers_ok: "\<exists>f. cbd_forcers ir = Some f \<and> forcers_ok ir (nid ` {n \<in> set (gnodes ir). ncbd n}) f"
  using cbd_from_ok [of ir "{}" "[]" "map nid (filter ncbd (gnodes ir))"]
  by (auto simp: cbd_forcers_def forcers_ok_def dget_def)

text \<open>
  Create-before-destroy reaches exactly what it must. The computation ends; a node is
  replaced create-first iff it is declared so or some declared node depends on it through
  value references and ordering edges, and the forcers recorded for a node are exactly the
  declared nodes that make it so.
\<close>

lemma effective_cbd_reach:
  "\<exists>f. cbd_forcers ir = Some f \<and>
     (\<forall>i r. r \<in> dget f i {} \<longleftrightarrow> r \<in> nid ` {n \<in> set (gnodes ir). ncbd n} \<and> (r, i) \<in> (edges_of (cbd_nexts ir))\<^sup>*) \<and>
     effective_cbd ir = Some ((edges_of (cbd_nexts ir))\<^sup>* `` (nid ` {n \<in> set (gnodes ir). ncbd n}))"
proof -
  let ?D = "nid ` {n \<in> set (gnodes ir). ncbd n}"
  obtain f where f: "cbd_forcers ir = Some f" "forcers_ok ir ?D f" using cbd_forcers_ok by blast
  have iff: "r \<in> dget f i {} \<longleftrightarrow> r \<in> ?D \<and> (r, i) \<in> (edges_of (cbd_nexts ir))\<^sup>*" for r i
    using f(2) by (simp add: forcers_ok_def)
  have "fst ` set f = {i. dget f i {} \<noteq> {}}" using f(2) by (auto simp: forcers_ok_def)
  also have "\<dots> = (edges_of (cbd_nexts ir))\<^sup>* `` ?D" using iff by blast
  finally show ?thesis using f(1) iff by (simp add: effective_cbd_def)
qed

end
