(* ===== verification/Schedule.thy ===== *)
theory Schedule
  imports TopoOrder
begin

text \<open>
  What the concurrent scheduler (\<open>graph/schedule.py\<close>) promises, as a step relation over sets; the
  coroutines it runs are \<open>phase_run\<close> of \<open>ExecRun\<close>, which is shown to stay within it. A task waits for the
  events of its predecessors, then for the semaphore, then works, then sets its own event; a
  step is one task getting past such a point. What the work returns is any value: \<open>work n r\<close>
  says that \<open>work(n)\<close> may return \<open>r\<close>, or raise when \<open>r\<close> is \<open>Inl\<close>. A raise cancels the tasks
  that remain, so nothing starts and nothing finishes after it.
\<close>

record 'v sched =
  waiting :: "node_id set"
  running :: "node_id set"
  results :: "(node_id \<times> 'v) list"
  raised :: "aerror option"

definition finished :: "'v sched \<Rightarrow> node_id set" where
  "finished s = fst ` set (results s)"

text \<open>\<open>parallelism < 1\<close> is a \<open>ValueError\<close> before any task exists.\<close>

definition sched_init :: "digraph \<Rightarrow> int \<Rightarrow> (aerror, 'v sched) result" where
  "sched_init g parallelism = (if parallelism < 1 then Inl (PyValueError ''parallelism must be >= 1'')
     else Inr \<lparr>waiting = set (node_ids g), running = {}, results = [], raised = None\<rparr>)"

inductive sched_step :: "digraph \<Rightarrow> bool \<Rightarrow> int \<Rightarrow> (node_id \<Rightarrow> (aerror, 'v) result \<Rightarrow> bool) \<Rightarrow> 'v sched \<Rightarrow> 'v sched \<Rightarrow> bool"
  for g reverse parallelism work where
  start: "raised s = None \<Longrightarrow> n \<in> waiting s \<Longrightarrow> needs g reverse n \<subseteq> finished s \<Longrightarrow>
    int (card (running s)) < parallelism \<Longrightarrow>
    sched_step g reverse parallelism work s (s\<lparr>waiting := waiting s - {n}, running := insert n (running s)\<rparr>)"
| finish: "raised s = None \<Longrightarrow> n \<in> running s \<Longrightarrow> work n (Inr v) \<Longrightarrow>
    sched_step g reverse parallelism work s
      (s\<lparr>running := running s - {n}, results := AList.update n v (results s)\<rparr>)"
| failed: "raised s = None \<Longrightarrow> n \<in> running s \<Longrightarrow> work n (Inl e) \<Longrightarrow>
    sched_step g reverse parallelism work s (s\<lparr>waiting := {}, running := {}, raised := Some e\<rparr>)"

inductive_cases sched_stepE: "sched_step g reverse parallelism work s s'"

inductive sched_reach :: "digraph \<Rightarrow> bool \<Rightarrow> int \<Rightarrow> (node_id \<Rightarrow> (aerror, 'v) result \<Rightarrow> bool) \<Rightarrow> 'v sched \<Rightarrow> bool"
  for g reverse parallelism work where
  init: "sched_init g parallelism = Inr s \<Longrightarrow> sched_reach g reverse parallelism work s"
| step: "sched_reach g reverse parallelism work s \<Longrightarrow> sched_step g reverse parallelism work s s' \<Longrightarrow>
    sched_reach g reverse parallelism work s'"

definition sched_ok :: "digraph \<Rightarrow> bool \<Rightarrow> int \<Rightarrow> 'v sched \<Rightarrow> bool" where
  "sched_ok g reverse parallelism s \<longleftrightarrow>
     1 \<le> parallelism \<and> finite (running s) \<and> int (card (running s)) \<le> parallelism \<and>
     waiting s \<inter> running s = {} \<and> waiting s \<inter> finished s = {} \<and> running s \<inter> finished s = {} \<and>
     waiting s \<union> running s \<union> finished s \<subseteq> set (node_ids g) \<and> wf_dict (results s) \<and>
     (raised s = None \<longrightarrow> waiting s \<union> running s \<union> finished s = set (node_ids g)) \<and>
     (\<forall>n \<in> running s \<union> finished s. needs g reverse n \<subseteq> finished s)"

lemma finished_update: "finished (s\<lparr>running := R, results := AList.update n v (results s)\<rparr>) = insert n (finished s)"
  by (simp add: finished_def keys_update)

lemma sched_ok_init: "sched_init g parallelism = Inr s \<Longrightarrow> sched_ok g reverse parallelism s"
  by (auto simp: sched_init_def sched_ok_def finished_def split: if_splits)

lemma sched_ok_start:
  assumes ok: "sched_ok g reverse parallelism s" and "raised s = None" "n \<in> waiting s"
    "needs g reverse n \<subseteq> finished s" "int (card (running s)) < parallelism"
  shows "sched_ok g reverse parallelism (s\<lparr>waiting := waiting s - {n}, running := insert n (running s)\<rparr>)"
proof -
  have [simp]: "finished (s\<lparr>waiting := W, running := R\<rparr>) = finished s" for W R by (simp add: finished_def)
  have "n \<notin> running s" "n \<notin> finished s" using ok assms(3) by (auto simp: sched_ok_def)
  then show ?thesis using assms unfolding sched_ok_def by (auto simp: card_insert_if)
qed

lemma sched_ok_finish:
  assumes ok: "sched_ok g reverse parallelism s" and n: "raised s = None" "n \<in> running s"
  shows "sched_ok g reverse parallelism (s\<lparr>running := running s - {n}, results := AList.update n v (results s)\<rparr>)"
proof -
  have "card (running s - {n}) \<le> card (running s)" using ok by (intro card_mono) (auto simp: sched_ok_def)
  moreover have "needs g reverse m \<subseteq> insert n (finished s)" if "m \<in> running s \<union> finished s" for m
    using that ok unfolding sched_ok_def by blast
  moreover have "wf_dict (AList.update n v (results s))" using ok by (simp add: sched_ok_def distinct_update)
  moreover have "waiting s \<union> (running s - {n}) \<union> insert n (finished s) = waiting s \<union> running s \<union> finished s"
    using n(2) by blast
  ultimately show ?thesis using ok n unfolding sched_ok_def finished_update by auto
qed

lemma sched_ok_failed:
  assumes ok: "sched_ok g reverse parallelism s"
  shows "sched_ok g reverse parallelism (s\<lparr>waiting := {}, running := {}, raised := Some e\<rparr>)"
proof -
  have [simp]: "finished (s\<lparr>waiting := W, running := R, raised := x\<rparr>) = finished s" for W R x by (simp add: finished_def)
  show ?thesis using ok unfolding sched_ok_def by simp
qed

lemma sched_ok_step:
  assumes "sched_step g reverse parallelism work s s'" and "sched_ok g reverse parallelism s"
  shows "sched_ok g reverse parallelism s'"
  using assms by (cases rule: sched_step.cases) (auto intro: sched_ok_start sched_ok_finish sched_ok_failed)

lemma sched_reach_ok: "sched_reach g reverse parallelism work s \<Longrightarrow> sched_ok g reverse parallelism s"
  by (induction rule: sched_reach.induct) (auto intro: sched_ok_init sched_ok_step)

text \<open>
  The scheduler is safe. In every state it can reach, at most \<open>parallelism\<close> nodes work at
  once, no node works twice, and whatever has started has all its predecessors (dependents in
  destroy order) finished; what has finished is recorded once.
\<close>

lemma schedule_safe:
  assumes "sched_reach g reverse parallelism work s"
  shows "int (card (running s)) \<le> parallelism \<and> running s \<inter> finished s = {} \<and> waiting s \<inter> (running s \<union> finished s) = {} \<and>
    (\<forall>n \<in> running s \<union> finished s. needs g reverse n \<subseteq> finished s) \<and> wf_dict (results s)"
  using sched_reach_ok [OF assms] by (auto simp: sched_ok_def)

text \<open>Each step uses up one of at most \<open>2 * n + 1\<close> units.\<close>

definition sched_left :: "'v sched \<Rightarrow> nat" where
  "sched_left s = 2 * card (waiting s) + card (running s) + (if raised s = None then 1 else 0)"

lemma sched_step_decreases:
  assumes "sched_step g reverse parallelism work s s'" and "sched_ok g reverse parallelism s"
  shows "sched_left s' < sched_left s"
proof -
  have fin: "finite (waiting s)" "finite (running s)"
    using assms(2) by (auto simp: sched_ok_def intro: finite_subset [of _ "set (node_ids g)"])
  show ?thesis
    using assms(1)
  proof (cases rule: sched_step.cases)
    case (start n)
    have "card (waiting s - {n}) = card (waiting s) - 1" "0 < card (waiting s)"
      using start fin by (auto simp: card_gt_0_iff)
    moreover have "card (insert n (running s)) \<le> Suc (card (running s))" using fin(2) by (simp add: card_insert_if)
    ultimately show ?thesis using start by (simp add: sched_left_def)
  next
    case (finish n v)
    have "card (running s - {n}) < card (running s)" using finish fin by (intro psubset_card_mono) auto
    then show ?thesis using finish by (simp add: sched_left_def)
  next
    case (failed n e)
    have "0 < card (running s)" using failed fin by (auto simp: card_gt_0_iff)
    then show ?thesis using failed by (simp add: sched_left_def)
  qed
qed

lemma sched_progress:
  assumes wf: "wf_digraph g" and ok: "sched_ok g reverse parallelism s" and "raised s = None"
    and work: "\<forall>n. \<exists>r. work n r" and unfinished: "finished s \<noteq> set (node_ids g)"
  shows "\<exists>s'. sched_step g reverse parallelism work s s'"
proof (cases "running s = {}")
  case True
  have "finished s \<subseteq> set (node_ids g)" using ok by (auto simp: sched_ok_def)
  then have "available (set (node_ids g)) (needs g reverse) (finished s) \<noteq> {}"
    using acyclic_available [OF _ needs_acyclic [OF wf] needs_in_graph [OF wf] _ unfinished] by simp
  then obtain n where n: "n \<in> set (node_ids g)" "n \<notin> finished s" "needs g reverse n \<subseteq> finished s"
    by (auto simp: available_def)
  then have "n \<in> waiting s" using True ok assms(3) by (auto simp: sched_ok_def)
  moreover have "int (card (running s)) < parallelism" using True ok by (simp add: sched_ok_def)
  ultimately show ?thesis using sched_step.start [OF assms(3)] n by blast
next
  case False
  then obtain n where n: "n \<in> running s" by blast
  obtain r where r: "work n r" using work by blast
  show ?thesis
  proof (cases r)
    case (Inl e)
    then show ?thesis using sched_step.failed [OF assms(3) n] r by blast
  next
    case (Inr v)
    then show ?thesis using sched_step.finish [OF assms(3) n] r by blast
  qed
qed

text \<open>
  The scheduler never deadlocks and always ends. On a well-formed graph whose work always
  returns or raises, every reachable state that has not raised and has not finished every node
  has a next step; every step uses up one of at most \<open>2 * n\<close>; and a state with no next step
  and no error has a result for every node.
\<close>

lemma schedule_live:
  assumes "wf_digraph g" and "sched_reach g reverse parallelism work s" and "\<forall>n. \<exists>r. work n r" and "raised s = None"
  shows "(finished s \<noteq> set (node_ids g) \<longrightarrow> (\<exists>s'. sched_step g reverse parallelism work s s')) \<and>
    (\<forall>s'. sched_step g reverse parallelism work s s' \<longrightarrow> sched_left s' < sched_left s) \<and>
    ((\<nexists>s'. sched_step g reverse parallelism work s s') \<longrightarrow> fst ` set (results s) = set (node_ids g))"
  using sched_progress [OF assms(1) sched_reach_ok [OF assms(2)] assms(4,3)]
    sched_step_decreases [OF _ sched_reach_ok [OF assms(2)]]
  by (auto simp: finished_def)

end
