(* ===== verification/Merkle.thy ===== *)
theory Merkle
  imports Digraph
begin

text \<open>
  The Merkle input hashes (\<open>ir/merkle.py\<close>). A node's hash is taken over its type, the
  properties it does not ignore, and the hashes of its dependencies in sorted order, in the
  order \<open>topo\<close>. What the hash stands for is \<open>same_inputs\<close>: two nodes with the same type and
  properties whose dependencies correspond one to one. The digest is a parameter.
\<close>

definition kept_properties :: "irnode \<Rightarrow> props" where
  "kept_properties n = filter (\<lambda>kv. fst kv \<notin> set (nignore_changes n)) (nproperties n)"

definition merkle_payload :: "irnode \<Rightarrow> string list \<Rightarrow> pyval" where
  "merkle_payload n hs = pdict [(''type'', PStr (ntype n)), (''properties'', pdict (kept_properties n)), (''deps'', strs hs)]"

text \<open>The bytes that are digested for node \<open>i\<close>, given the hashes so far.\<close>

definition merkle_bytes :: "pyenv \<Rightarrow> (node_id \<times> irnode) list \<Rightarrow> (node_id \<times> string) list \<Rightarrow> node_id \<Rightarrow> (aerror, string) result" where
  "merkle_bytes env nodes hashes i =
     rbind (lookup nodes i i) (\<lambda>n.
     rbind (rmap (\<lambda>d. lookup hashes d d) (sort (ndependencies n))) (\<lambda>hs.
     to_canonical_json env (merkle_payload n hs)))"

fun merkle_loop :: "pyenv \<Rightarrow> (string \<Rightarrow> string) \<Rightarrow> (node_id \<times> irnode) list \<Rightarrow> node_id list \<Rightarrow> (node_id \<times> string) list
    \<Rightarrow> (aerror, (node_id \<times> string) list) result" where
  "merkle_loop env sha nodes [] hashes = Inr hashes"
| "merkle_loop env sha nodes (i # is) hashes =
     rbind (merkle_bytes env nodes hashes i) (\<lambda>b. merkle_loop env sha nodes is (AList.update i (sha b) hashes))"

definition merkle_hashes :: "pyenv \<Rightarrow> (string \<Rightarrow> string) \<Rightarrow> irgraph \<Rightarrow> node_id list \<Rightarrow> (aerror, (node_id \<times> string) list) result" where
  "merkle_hashes env sha ir topo = merkle_loop env sha (by_id ir) topo []"

subsection \<open>What the hashes stand for\<close>

inductive same_inputs :: "irgraph \<Rightarrow> irgraph \<Rightarrow> node_id \<Rightarrow> node_id \<Rightarrow> bool" for ir ir' where
  same: "map_of (by_id ir) i = Some n \<Longrightarrow> map_of (by_id ir') j = Some m \<Longrightarrow> ntype n = ntype m \<Longrightarrow>
    json_of (pdict (kept_properties n)) = json_of (pdict (kept_properties m)) \<Longrightarrow>
    list_all2 (same_inputs ir ir') (sort (ndependencies n)) (sort (ndependencies m)) \<Longrightarrow> same_inputs ir ir' i j"

inductive_cases same_inputsE: "same_inputs ir ir' i j"

lemma json_of_payload:
  "json_of (merkle_payload n hs) = json_of (merkle_payload m ks) \<longleftrightarrow>
     ntype n = ntype m \<and> json_of (pdict (kept_properties n)) = json_of (pdict (kept_properties m)) \<and> hs = ks"
proof -
  let ?p = "\<lambda>n hs. [(''type'', PStr (ntype n)), (''properties'', pdict (kept_properties n)), (''deps'', strs hs)]"
  have "json_of (merkle_payload n hs) = json_of (merkle_payload m ks) \<longleftrightarrow> json_map (?p n hs) = json_map (?p m ks)"
    unfolding merkle_payload_def by (rule json_of_pdict_eq) simp_all
  also have "\<dots> \<longleftrightarrow> ntype n = ntype m \<and> json_of (pdict (kept_properties n)) = json_of (pdict (kept_properties m)) \<and> hs = ks"
    (is "?l \<longleftrightarrow> ?r")
  proof
    assume e: ?l
    show ?r using fun_cong [OF e, of "''type''"] fun_cong [OF e, of "''properties''"] fun_cong [OF e, of "''deps''"]
      by (simp add: json_map_def json_of_strs map_JStr_inj)
  qed (simp add: json_map_def fun_eq_iff)
  finally show ?thesis .
qed

subsection \<open>The loop\<close>

lemma merkle_bytes_Inr:
  "merkle_bytes env nodes hashes i = Inr b \<longleftrightarrow> (\<exists>n hs. map_of nodes i = Some n \<and>
     rmap (\<lambda>d. lookup hashes d d) (sort (ndependencies n)) = Inr hs \<and> to_canonical_json env (merkle_payload n hs) = Inr b)"
  by (auto simp: merkle_bytes_def rbind_Inr_iff lookup_def split: option.splits)

lemma lookup_Inr [simp]: "lookup m k msg = Inr v \<longleftrightarrow> map_of m k = Some v"
  by (simp add: lookup_def split: option.splits)

lemma rmap_lookup_mono:
  assumes "rmap (\<lambda>d. lookup hashes d d) ds = Inr hs" and "\<And>k v. map_of hashes k = Some v \<Longrightarrow> map_of hashes' k = Some v"
  shows "rmap (\<lambda>d. lookup hashes' d d) ds = Inr hs"
  using assms by (auto simp: rmap_Inr_iff)

lemma merkle_bytes_mono:
  assumes "merkle_bytes env nodes hashes i = Inr b" and "\<And>k v. map_of hashes k = Some v \<Longrightarrow> map_of hashes' k = Some v"
  shows "merkle_bytes env nodes hashes' i = Inr b"
  using assms rmap_lookup_mono [OF _ assms(2)] unfolding merkle_bytes_Inr by blast

definition hashed_deps :: "(node_id \<times> irnode) list \<Rightarrow> node_id set \<Rightarrow> node_id \<Rightarrow> bool" where
  "hashed_deps nodes S i = (\<exists>n. map_of nodes i = Some n \<and> set (ndependencies n) \<subseteq> S)"

lemma merkle_loop_result:
  assumes "merkle_loop env sha nodes topo h0 = Inr h" and "distinct topo" and "set topo \<inter> fst ` set h0 = {}"
  shows "(\<forall>k v. map_of h0 k = Some v \<longrightarrow> map_of h k = Some v) \<and> fst ` set h = fst ` set h0 \<union> set topo \<and>
    (\<forall>k < length topo. hashed_deps nodes (fst ` set h0 \<union> set (take k topo)) (topo ! k) \<and>
      (\<exists>b. merkle_bytes env nodes h (topo ! k) = Inr b \<and> map_of h (topo ! k) = Some (sha b)))"
  using assms
proof (induction topo arbitrary: h0)
  case (Cons i topo)
  from Cons.prems(1) obtain b where b: "merkle_bytes env nodes h0 i = Inr b"
    and rest: "merkle_loop env sha nodes topo (AList.update i (sha b) h0) = Inr h"
    by (auto simp: rbind_Inr_iff)
  let ?h1 = "AList.update i (sha b) h0"
  have keys: "fst ` set ?h1 = insert i (fst ` set h0)" by (simp add: keys_update)
  from Cons.IH [OF rest] Cons.prems keys have IH:
    "\<forall>k v. map_of ?h1 k = Some v \<longrightarrow> map_of h k = Some v" "fst ` set h = fst ` set ?h1 \<union> set topo"
    "\<forall>k < length topo. hashed_deps nodes (fst ` set ?h1 \<union> set (take k topo)) (topo ! k) \<and>
      (\<exists>b. merkle_bytes env nodes h (topo ! k) = Inr b \<and> map_of h (topo ! k) = Some (sha b))"
    by auto
  have "map_of h0 i = None" using Cons.prems(3) by (simp add: map_of_eq_None_iff)
  then have mono: "map_of h0 k = Some v \<Longrightarrow> map_of h k = Some v" for k v
    using IH(1) [rule_format, of k v] by (cases "k = i") (simp_all add: update_conv')
  have hi: "map_of h i = Some (sha b)" using IH(1) by (simp add: update_conv')
  obtain n hs where n: "map_of nodes i = Some n" "rmap (\<lambda>d. lookup h0 d d) (sort (ndependencies n)) = Inr hs"
    using b unfolding merkle_bytes_Inr by blast
  have "set (ndependencies n) \<subseteq> fst ` set h0"
  proof
    fix d
    assume "d \<in> set (ndependencies n)"
    then obtain y where "map_of h0 d = Some y" using rmap_Inr_exD [OF n(2), of d] by auto
    then show "d \<in> fst ` set h0" by (metis domI dom_map_of_conv_image_fst)
  qed
  then have "hashed_deps nodes (fst ` set h0) i" using n(1) by (auto simp: hashed_deps_def)
  moreover have "merkle_bytes env nodes h i = Inr b" using b mono by (rule merkle_bytes_mono)
  ultimately have first: "hashed_deps nodes (fst ` set h0 \<union> set (take 0 (i # topo))) i \<and>
      (\<exists>b. merkle_bytes env nodes h i = Inr b \<and> map_of h i = Some (sha b))"
    using hi by simp
  have "hashed_deps nodes (fst ` set h0 \<union> set (take k (i # topo))) ((i # topo) ! k) \<and>
      (\<exists>b. merkle_bytes env nodes h ((i # topo) ! k) = Inr b \<and> map_of h ((i # topo) ! k) = Some (sha b))"
    if "k < length (i # topo)" for k
  proof (cases k)
    case 0
    then show ?thesis using first by simp
  next
    case (Suc j)
    then show ?thesis using IH(3) that keys by simp
  qed
  then show ?case using mono IH(2) keys by auto
qed simp

text \<open>A table of hashes over \<open>topo\<close>: what a finished run leaves.\<close>

definition merkle_table :: "pyenv \<Rightarrow> (string \<Rightarrow> string) \<Rightarrow> irgraph \<Rightarrow> node_id list \<Rightarrow> (node_id \<times> string) list \<Rightarrow> bool" where
  "merkle_table env sha ir topo h \<longleftrightarrow> fst ` set h = set topo \<and>
     (\<forall>k < length topo. hashed_deps (by_id ir) (set (take k topo)) (topo ! k) \<and>
       (\<exists>b. merkle_bytes env (by_id ir) h (topo ! k) = Inr b \<and> map_of h (topo ! k) = Some (sha b)))"

lemma merkle_hashes_table:
  "merkle_hashes env sha ir topo = Inr h \<Longrightarrow> distinct topo \<Longrightarrow> merkle_table env sha ir topo h"
  using merkle_loop_result [of env sha "by_id ir" topo "[]" h]
  by (simp add: merkle_hashes_def merkle_table_def)

lemma list_all2_lookup:
  assumes "rmap (\<lambda>d. lookup h d d) ds = Inr hs" and "rmap (\<lambda>d. lookup h' d d) es = Inr ks"
    and "\<And>d e. d \<in> set ds \<Longrightarrow> e \<in> set es \<Longrightarrow> map_of h d = map_of h' e \<longleftrightarrow> R d e"
  shows "hs = ks \<longleftrightarrow> list_all2 R ds es"
  using assms
proof (induction ds arbitrary: hs ks es)
  case Nil
  then show ?case by (cases es) (auto simp: rbind_Inr_iff)
next
  case (Cons d ds)
  show ?case
  proof (cases es)
    case Nil
    with Cons.prems show ?thesis by (auto simp: rbind_Inr_iff)
  next
    case (Cons e es')
    from Cons.prems(1) obtain x hs' where h: "map_of h d = Some x" "hs = x # hs'" "rmap (\<lambda>d. lookup h d d) ds = Inr hs'"
      by (auto simp: rbind_Inr_iff)
    from Cons.prems(2) Cons obtain y ks' where k: "map_of h' e = Some y" "ks = y # ks'" "rmap (\<lambda>d. lookup h' d d) es' = Inr ks'"
      by (auto simp: rbind_Inr_iff)
    have "hs' = ks' \<longleftrightarrow> list_all2 R ds es'"
      by (rule Cons.IH [OF h(3) k(3)]) (use Cons.prems(3) Cons in auto)
    moreover have "x = y \<longleftrightarrow> R d e" using Cons.prems(3) [of d e] h(1) k(1) Cons by simp
    ultimately show ?thesis by (simp add: h(2) k(2) Cons)
  qed
qed

lemma merkle_table_iff:
  assumes env: "float_repr_ok env" and t: "merkle_table env sha ir topo h" and t': "merkle_table env sha ir' topo' h'"
    and inj: "\<And>i j b b'. i \<in> set topo \<Longrightarrow> j \<in> set topo' \<Longrightarrow> merkle_bytes env (by_id ir) h i = Inr b \<Longrightarrow>
      merkle_bytes env (by_id ir') h' j = Inr b' \<Longrightarrow> sha b = sha b' \<Longrightarrow> b = b'"
  shows "k < length topo \<Longrightarrow> l < length topo' \<Longrightarrow>
    map_of h (topo ! k) = map_of h' (topo' ! l) \<longleftrightarrow> same_inputs ir ir' (topo ! k) (topo' ! l)"
proof (induction k arbitrary: l rule: less_induct)
  case (less k)
  let ?i = "topo ! k" and ?j = "topo' ! l"
  from t less.prems obtain b where b: "merkle_bytes env (by_id ir) h ?i = Inr b" "map_of h ?i = Some (sha b)"
    and hd: "hashed_deps (by_id ir) (set (take k topo)) ?i" by (auto simp: merkle_table_def)
  from t' less.prems obtain b' where b': "merkle_bytes env (by_id ir') h' ?j = Inr b'" "map_of h' ?j = Some (sha b')"
    and hd': "hashed_deps (by_id ir') (set (take l topo')) ?j" by (auto simp: merkle_table_def)
  obtain n hs where n: "map_of (by_id ir) ?i = Some n" "rmap (\<lambda>d. lookup h d d) (sort (ndependencies n)) = Inr hs"
    "to_canonical_json env (merkle_payload n hs) = Inr b" using b(1) unfolding merkle_bytes_Inr by blast
  obtain m ks where m: "map_of (by_id ir') ?j = Some m" "rmap (\<lambda>d. lookup h' d d) (sort (ndependencies m)) = Inr ks"
    "to_canonical_json env (merkle_payload m ks) = Inr b'" using b'(1) unfolding merkle_bytes_Inr by blast
  have deps: "hs = ks \<longleftrightarrow> list_all2 (same_inputs ir ir') (sort (ndependencies n)) (sort (ndependencies m))"
  proof (rule list_all2_lookup [OF n(2) m(2)])
    fix d e
    assume "d \<in> set (sort (ndependencies n))" "e \<in> set (sort (ndependencies m))"
    then have "d \<in> set (take k topo)" "e \<in> set (take l topo')" using hd hd' n(1) m(1) by (auto simp: hashed_deps_def)
    then obtain k' l' where "k' < k" "d = topo ! k'" "l' < l" "e = topo' ! l'"
      using less.prems by (auto simp: in_set_conv_nth)
    with less.IH [of k' l'] less.prems show "map_of h d = map_of h' e \<longleftrightarrow> same_inputs ir ir' d e" by simp
  qed
  have "map_of h ?i = map_of h' ?j \<longleftrightarrow> b = b'"
    using b b' inj [OF nth_mem [OF less.prems(1)] nth_mem [OF less.prems(2)] b(1) b'(1)] by auto
  also have "\<dots> \<longleftrightarrow> ntype n = ntype m \<and> json_of (pdict (kept_properties n)) = json_of (pdict (kept_properties m)) \<and> hs = ks"
    by (simp only: canonical_json_unambiguous_bytes [OF env n(3) m(3)] json_of_payload)
  also have "\<dots> \<longleftrightarrow> same_inputs ir ir' ?i ?j"
    unfolding deps using n(1) m(1) by (auto elim!: same_inputsE intro: same_inputs.same)
  finally show ?case .
qed

text \<open>
  C25: the input hash is exactly the subtree it covers. Two nodes of two graphs (an old plan and a
  new one) have the same Merkle hash iff their types agree, the JSON of the properties they do not
  ignore is the same, and their dependencies, taken in the order of their sorted ids, correspond one
  by one with the same hashes in turn. The digest is assumed free of collisions on the byte strings
  hashed here.
\<close>

theorem merkle_hash_is_subtree:
  assumes "float_repr_ok env" and "merkle_hashes env sha ir topo = Inr h" and "merkle_hashes env sha ir' topo' = Inr h'"
    and "distinct topo" and "distinct topo'" and "i \<in> set topo" and "j \<in> set topo'"
    and "\<And>i j b b'. i \<in> set topo \<Longrightarrow> j \<in> set topo' \<Longrightarrow> merkle_bytes env (by_id ir) h i = Inr b \<Longrightarrow>
      merkle_bytes env (by_id ir') h' j = Inr b' \<Longrightarrow> sha b = sha b' \<Longrightarrow> b = b'"
  shows "map_of h i = map_of h' j \<longleftrightarrow> same_inputs ir ir' i j"
proof -
  obtain k l :: nat where "k < length topo" "topo ! k = i" "l < length topo'" "topo' ! l = j"
    using assms(6,7) unfolding in_set_conv_nth by blast
  with merkle_table_iff [OF assms(1) merkle_hashes_table [OF assms(2,4)] merkle_hashes_table [OF assms(3,5)] assms(8), where k = k and l = l]
  show ?thesis by simp
qed

definition drifted_ir :: irgraph where
  "drifted_ir = \<lparr>gnodes = [(mk_node ''a'' [] [])\<lparr>nproperties := [(''size'', PInt 1)]\<rparr>, mk_node ''b'' [''a''] [], mk_node ''c'' [''a''] [''b'']], gversion = 1\<rparr>"

subsection \<open>The hashes exist\<close>

text \<open>A value that encodes, wherever it stands in a document.\<close>

definition encodable :: "pyenv \<Rightarrow> pyval \<Rightarrow> bool" where
  "encodable env v = (\<forall>path. \<exists>t. encode env path v = Inr t)"

lemma encodable_strs: "encodable env (strs xs)"
proof -
  have "\<exists>ts. rmap (\<lambda>(i, x). encode env (index_path path i) x) (enumerate n (map PStr xs)) = Inr ts" for path n
    by (rule rmap_total) (auto simp: in_set_enumerate_eq)
  then show ?thesis by (fastforce simp: encodable_def strs_def encode_list rbind_Inr_iff)
qed

lemma encodable_pdict:
  assumes "\<forall>(k, v) \<in> set m. encodable env v"
  shows "encodable env (pdict m)"
proof -
  have "find (\<lambda>kx. \<not> is_str (fst kx)) (map (\<lambda>(k, v). (PStr k, v)) m) = None"
    by (auto simp: find_None_iff is_str_iff)
  moreover have "\<exists>ts. rmap (\<lambda>(k, x). rbind (encode env (path @ ''.'' @ k) x) (\<lambda>t. Inr (json_str False k @ '':'' @ t)))
      (sort_key fst m) = Inr ts" for path
    by (rule rmap_total) (use assms in \<open>fastforce simp: encodable_def rbind_Inr_iff\<close>)
  ultimately show ?thesis by (fastforce simp: encodable_def pdict_def encode_items sorted_items_pdict rbind_Inr_iff)
qed

lemma encodable_payload:
  assumes "\<forall>(k, v) \<in> set (nproperties n). encodable env v"
  shows "\<exists>b. to_canonical_json env (merkle_payload n hs) = Inr b"
proof -
  have "encodable env (pdict (kept_properties n))"
    by (rule encodable_pdict) (use assms in \<open>auto simp: kept_properties_def\<close>)
  moreover have "encodable env (PStr s)" for s by (simp add: encodable_def)
  ultimately have "encodable env (merkle_payload n hs)"
    unfolding merkle_payload_def by (intro encodable_pdict) (simp add: encodable_strs)
  then show ?thesis unfolding to_canonical_json_def encodable_def by (metis rbind_simps(2))
qed

lemma merkle_loop_total:
  assumes "\<And>n v. n \<in> snd ` set nodes \<Longrightarrow> \<forall>(k, v) \<in> set (nproperties n). encodable env v"
    and "\<forall>k < length topo. hashed_deps nodes (fst ` set h0 \<union> set (take k topo)) (topo ! k)"
  shows "\<exists>h. merkle_loop env sha nodes topo h0 = Inr h"
  using assms(2)
proof (induction topo arbitrary: h0)
  case (Cons i topo)
  from Cons.prems obtain n where n: "map_of nodes i = Some n" "set (ndependencies n) \<subseteq> fst ` set h0"
    by (fastforce simp: hashed_deps_def)
  have "\<exists>hs. rmap (\<lambda>d. lookup h0 d d) (sort (ndependencies n)) = Inr hs"
    by (rule rmap_total) (use n(2) in \<open>auto simp: subset_iff image_iff weak_map_of_SomeI\<close>)
  moreover have "n \<in> snd ` set nodes" using n(1) by (force dest: map_of_SomeD)
  ultimately obtain b where "merkle_bytes env nodes h0 i = Inr b"
    using n(1) encodable_payload [OF assms(1)] unfolding merkle_bytes_Inr by blast
  moreover have "\<exists>h. merkle_loop env sha nodes topo (AList.update i (sha b) h0) = Inr h"
  proof (rule Cons.IH, intro allI impI)
    fix k
    assume "k < length topo"
    with Cons.prems [rule_format, of "Suc k"]
    show "hashed_deps nodes (fst ` set (AList.update i (sha b) h0) \<union> set (take k topo)) (topo ! k)"
      by (simp add: keys_update)
  qed
  ultimately show ?case by simp
qed simp

text \<open>
  Every plan gets its hashes. When the properties encode and the order is one
  \<open>topological_order\<close> gives for the graph built from the IR, no lookup fails: every node, and
  nothing else, has a hash.
\<close>

lemma merkle_hashes_total:
  assumes "distinct (map nid (gnodes ir))" and "\<forall>n \<in> set (gnodes ir). \<forall>(k, v) \<in> set (nproperties n). encodable env v"
    and "set topo = nid ` set (gnodes ir)" and "distinct topo"
    and "\<forall>n \<in> set (gnodes ir). \<forall>k < length topo. topo ! k = nid n \<longrightarrow> set (edges n) \<subseteq> set (take k topo)"
  shows "\<exists>h. merkle_hashes env sha ir topo = Inr h \<and> fst ` set h = nid ` set (gnodes ir)"
proof -
  have at: "map_of (by_id ir) (nid n) = Some n" if "n \<in> set (gnodes ir)" for n
    unfolding by_id_def by (rule map_of_dict_of_Some [OF assms(1) that])
  have "\<exists>h. merkle_loop env sha (by_id ir) topo [] = Inr h"
  proof (rule merkle_loop_total)
    fix n v
    assume "n \<in> snd ` set (by_id ir)"
    moreover have "snd ` set (by_id ir) \<subseteq> set (gnodes ir)"
      using dict_of_values [of nid "\<lambda>n. n" "gnodes ir"] by (simp add: by_id_def)
    ultimately show "\<forall>(k, v) \<in> set (nproperties n). encodable env v" using assms(2) by blast
  next
    show "\<forall>k < length topo. hashed_deps (by_id ir) (fst ` set [] \<union> set (take k topo)) (topo ! k)"
    proof (intro allI impI)
      fix k
      assume k: "k < length topo"
      then have "topo ! k \<in> nid ` set (gnodes ir)" using assms(3) nth_mem by metis
      then obtain n where n: "n \<in> set (gnodes ir)" "topo ! k = nid n" by blast
      then show "hashed_deps (by_id ir) (fst ` set [] \<union> set (take k topo)) (topo ! k)"
        using assms(5) k at [OF n(1)] by (fastforce simp: hashed_deps_def)
    qed
  qed
  then obtain h where h: "merkle_hashes env sha ir topo = Inr h" by (auto simp: merkle_hashes_def)
  with merkle_hashes_table [OF h assms(4)] assms(3) show ?thesis by (simp add: merkle_table_def)
qed

lemma sample_encodable: "encodable sample_env (PInt i)"
  by (simp add: encodable_def)

lemma mk_node_simps [simp]:
  "nid (mk_node i ds dons) = i" "ndependencies (mk_node i ds dons) = ds" "ndepends_on (mk_node i ds dons) = dons"
  "nproperties (mk_node i ds dons) = []"
  by (simp_all add: mk_node_def)

lemma chain_orders:
  assumes "ir \<in> {chain_ir, drifted_ir}"
  shows "distinct (map nid (gnodes ir))" "set [''a'', ''b'', ''c''] = nid ` set (gnodes ir)"
    "\<forall>n \<in> set (gnodes ir). \<forall>(k, v) \<in> set (nproperties n). encodable sample_env v"
    "\<forall>n \<in> set (gnodes ir). \<forall>k < length [''a'', ''b'', ''c'']. [''a'', ''b'', ''c''] ! k = nid n \<longrightarrow> set (edges n) \<subseteq> set (take k [''a'', ''b'', ''c''])"
  using assms
  by (elim insertE emptyE; simp add: chain_ir_def drifted_ir_def sample_encodable less_Suc_eq all_conj_distrib; fail)+

theorem merkle_hash_is_subtree_witness:
  "\<exists>h h'. merkle_hashes sample_env (\<lambda>s. s) chain_ir [''a'', ''b''] = Inr h \<and>
     merkle_hashes sample_env (\<lambda>s. s) drifted_ir [''a'', ''b''] = Inr h' \<and>
     (map_of h ''b'' = map_of h' ''b'' \<longleftrightarrow> same_inputs chain_ir drifted_ir ''b'' ''b'')"
proof -
  have "\<exists>h. merkle_hashes sample_env (\<lambda>s. s) ir [''a'', ''b''] = Inr h" if ir: "ir \<in> {chain_ir, drifted_ir}" for ir
    unfolding merkle_hashes_def
  proof (rule merkle_loop_total)
    fix n v
    assume "n \<in> snd ` set (by_id ir)"
    then have "n \<in> set (gnodes ir)" using dict_of_values [of nid "\<lambda>n. n" "gnodes ir"] by (auto simp: by_id_def)
    then show "\<forall>(k, v) \<in> set (nproperties n). encodable sample_env v" using chain_orders(3) [OF ir] by blast
  next
    show "\<forall>k < length [''a'', ''b'']. hashed_deps (by_id ir) (fst ` set [] \<union> set (take k [''a'', ''b''])) ([''a'', ''b''] ! k)"
      using ir by (auto simp: less_Suc_eq hashed_deps_def by_id_def dict_of_def chain_ir_def drifted_ir_def)
  qed
  then obtain h h' where h: "merkle_hashes sample_env (\<lambda>s. s) chain_ir [''a'', ''b''] = Inr h"
    "merkle_hashes sample_env (\<lambda>s. s) drifted_ir [''a'', ''b''] = Inr h'" by blast
  have "map_of h ''b'' = map_of h' ''b'' \<longleftrightarrow> same_inputs chain_ir drifted_ir ''b'' ''b''"
    by (rule merkle_hash_is_subtree [OF sample_env_ok h]) auto
  with h show ?thesis by blast
qed

end
