(* ===== verification/FieldDecl.thy ===== *)
theory FieldDecl
  imports Prelude
begin

text \<open>
  Field declarations (\<open>core/fields.py\<close>): what \<open>mutable\<close>, \<open>immutable\<close>, \<open>computed\<close> and
  \<open>secret\<close> put into a field's metadata, and the views of a class the diff and the executor
  read. A class is its fields in declaration order, \<open>None\<close> for one declared without any of
  the four. The caches return what they would compute, so they are not part of the model.
\<close>

datatype mutability = MUTABLE | IMMUTABLE | COMPUTED

record field_meta =
  mutability :: mutability
  sensitive :: bool
  physical_name :: bool

type_synonym model_class = "(string \<times> field_meta option) list"

definition mutable :: "bool \<Rightarrow> bool \<Rightarrow> field_meta" where
  "mutable sens phys = \<lparr>mutability = MUTABLE, sensitive = sens, physical_name = phys\<rparr>"

definition immutable :: "bool \<Rightarrow> bool \<Rightarrow> field_meta" where
  "immutable sens phys = \<lparr>mutability = IMMUTABLE, sensitive = sens, physical_name = phys\<rparr>"

definition computed :: "bool \<Rightarrow> field_meta" where
  "computed sens = \<lparr>mutability = COMPUTED, sensitive = sens, physical_name = False\<rparr>"

definition secret :: "bool \<Rightarrow> field_meta" where
  "secret phys = \<lparr>mutability = MUTABLE, sensitive = True, physical_name = phys\<rparr>"

definition field_mutability :: "model_class \<Rightarrow> (string \<times> mutability) list" where
  "field_mutability c = map (\<lambda>(n, m). (n, case m of Some x \<Rightarrow> mutability x | None \<Rightarrow> MUTABLE)) c"

definition meta_sensitive :: "field_meta option \<Rightarrow> bool" where
  "meta_sensitive m = (case m of Some x \<Rightarrow> sensitive x | None \<Rightarrow> False)"

definition is_sensitive_field :: "model_class \<Rightarrow> string \<Rightarrow> (aerror, bool) result" where
  "is_sensitive_field c n = (case map_of c n of Some m \<Rightarrow> Inr (meta_sensitive m) | None \<Rightarrow> Inl (KeyError n))"

definition sensitive_fields :: "model_class \<Rightarrow> string list" where
  "sensitive_fields c = map fst (filter (\<lambda>(n, m). meta_sensitive m) c)"

definition physical_name_field :: "model_class \<Rightarrow> string option" where
  "physical_name_field c =
     map_option fst (find (\<lambda>(n, m). case m of Some x \<Rightarrow> physical_name x | None \<Rightarrow> False) c)"

text \<open>\<open>type_mutability\<close> of \<open>reconcile/changes.py\<close>: the table the diff classifies by.\<close>

type_synonym type_table = "(string \<times> model_class) list"
type_synonym mutability_table = "(string \<times> (string \<times> mutability) list) list"

definition type_mutability :: "type_table \<Rightarrow> mutability_table" where
  "type_mutability types = map (\<lambda>(n, c). (n, field_mutability c)) types"

lemma map_of_field_mutability:
  "map_of (field_mutability c) n = map_option (\<lambda>m. case m of Some x \<Rightarrow> mutability x | None \<Rightarrow> MUTABLE) (map_of c n)"
  by (simp add: field_mutability_def map_of_map)

lemma sensitive_fields_iff:
  assumes "wf_dict c"
  shows "n \<in> set (sensitive_fields c) \<longleftrightarrow> is_sensitive_field c n = Inr True"
  unfolding sensitive_fields_def keys_filter_iff [OF assms]
  by (auto simp: is_sensitive_field_def split: option.splits)

end
