(* ===== verification/StateModel.thy ===== *)
theory StateModel
  imports IRModel
begin

text \<open>
  Persisted state (\<open>state/model.py\<close>) and the action vocabulary (\<open>core/actions.py\<close>). A row's
  \<open>status\<close> is the stored string, as in the source, where it may come from any document.
\<close>

record state_node =
  sid :: node_id
  stype :: string
  sprovider :: string
  sprovider_version :: string
  sinput_hash :: string
  soutputs :: props
  sproperties :: props
  sdependencies :: "node_id list"
  sprevent_destroy :: bool
  sstatus :: string
  ssecret_digests :: "(string \<times> string) list"
  sref_digests :: "(string \<times> string) list"
  sdepends_on :: "node_id list"

definition CREATED :: string where "CREATED = ''created''"
definition CREATING :: string where "CREATING = ''creating''"

lemma status_distinct [simp]: "CREATED \<noteq> CREATING" "CREATING \<noteq> CREATED"
  by (simp_all add: CREATED_def CREATING_def)

text \<open>No digest is empty, so a row with this hash never equals a computed one.\<close>

definition NO_INPUT_HASH :: string where "NO_INPUT_HASH = []"

type_synonym state_graph = "(node_id \<times> state_node) list"

datatype action = CREATE | UPDATE | REPLACE | DELETE | NOOP

definition action_str :: "action \<Rightarrow> string" where
  "action_str a = (case a of CREATE \<Rightarrow> ''create'' | UPDATE \<Rightarrow> ''update'' | REPLACE \<Rightarrow> ''replace''
     | DELETE \<Rightarrow> ''delete'' | NOOP \<Rightarrow> ''noop'')"

definition destructive :: "action \<Rightarrow> bool" where
  "destructive a = (a = DELETE \<or> a = REPLACE)"

text \<open>\<open>_REIDENTIFYING\<close> of the diff and of the guards: a new physical identity.\<close>

definition reidentifying :: "action \<Rightarrow> bool" where
  "reidentifying a = (a = CREATE \<or> a = REPLACE)"

definition mk_row :: "irnode \<Rightarrow> string \<Rightarrow> state_node" where
  "mk_row n h = \<lparr>sid = nid n, stype = ntype n, sprovider = nprovider n, sprovider_version = nprovider_version n,
     sinput_hash = h, soutputs = [], sproperties = nproperties n, sdependencies = ndependencies n,
     sprevent_destroy = nprevent_destroy n, sstatus = CREATED, ssecret_digests = [], sref_digests = [],
     sdepends_on = ndepends_on n\<rparr>"

end
