(* ===== verification/Changes.thy ===== *)
theory Changes
  imports Merkle StateModel FieldDecl
begin

text \<open>
  The diff's output (\<open>reconcile/changes.py\<close>), what an upstream's move means for a field
  (\<open>reconcile/upstream.py\<close>) and the per-node rules (\<open>reconcile/classify.py\<close>). Property values
  compare with Python's \<open>==\<close> (\<open>py_eq\<close>), by which \<open>1\<close> equals \<open>True\<close>.
\<close>

subsection \<open>Changes\<close>

record change =
  cid :: node_id
  caction :: action
  cdesired :: "irnode option"
  cprior :: "state_node option"
  cfields :: "string list"
  cconditional :: bool
  ccbd :: bool
  cstate_only :: bool
  cupstream_moved :: "string list"

text \<open>\<open>Change(node_id, action)\<close> with the defaults of the dataclass.\<close>

definition plain_change :: "node_id \<Rightarrow> action \<Rightarrow> change" where
  "plain_change i a = \<lparr>cid = i, caction = a, cdesired = None, cprior = None, cfields = [], cconditional = False,
     ccbd = False, cstate_only = False, cupstream_moved = []\<rparr>"

lemma plain_change_simps [simp]:
  "cid (plain_change i a) = i" "caction (plain_change i a) = a" "cdesired (plain_change i a) = None"
  "cprior (plain_change i a) = None" "cfields (plain_change i a) = []" "cconditional (plain_change i a) = False"
  "ccbd (plain_change i a) = False" "cstate_only (plain_change i a) = False" "cupstream_moved (plain_change i a) = []"
  by (simp_all add: plain_change_def)

type_synonym change_set = "change list"

definition FORCED_FIELD :: string where "FORCED_FIELD = ''(forced)''"

definition by_action :: "change_set \<Rightarrow> action \<Rightarrow> change list" where
  "by_action cs a = filter (\<lambda>c. caction c = a) cs"

definition actionable :: "change_set \<Rightarrow> change list" where
  "actionable cs = filter (\<lambda>c. caction c \<noteq> NOOP) cs"

definition pending :: "change_set \<Rightarrow> change list" where
  "pending cs = filter (\<lambda>c. caction c \<noteq> NOOP \<or> cstate_only c) cs"

definition fingerprint :: "change_set \<Rightarrow> (node_id \<times> string \<times> string list \<times> bool \<times> bool) set" where
  "fingerprint cs = set (map (\<lambda>c. (cid c, action_str (caction c), cfields c, cconditional c, ccbd c)) (pending cs))"

definition restrict_to :: "change_set \<Rightarrow> node_id set \<Rightarrow> change_set" where
  "restrict_to cs selected = map (\<lambda>c. if cid c \<in> selected then c else plain_change (cid c) NOOP) cs"

subsection \<open>Upstream values\<close>

datatype consumed = MOVED | UNRECORDED

type_synonym verdicts = "(string \<times> consumed) list"

definition prop_at :: "irnode \<Rightarrow> string \<Rightarrow> pyval" where
  "prop_at n f = dget (nproperties n) f PNone"

definition touches :: "irnode \<Rightarrow> pyval \<Rightarrow> node_id set \<Rightarrow> bool" where
  "touches n v moved = list_ex (\<lambda>t. t \<noteq> nid n \<and> t \<in> moved) (collect_ref_targets v)"

definition stable :: "irnode \<Rightarrow> string \<Rightarrow> node_id set \<Rightarrow> bool" where
  "stable n f moved = (\<not> touches n (prop_at n f) moved)"

definition settled :: "irnode \<Rightarrow> verdicts \<Rightarrow> node_id set \<Rightarrow> string set" where
  "settled n vs moved = set (map fst (filter (\<lambda>(f, v). v = MOVED \<and> stable n f moved) vs))"

definition unrecorded :: "irnode \<Rightarrow> verdicts \<Rightarrow> node_id set \<Rightarrow> string list" where
  "unrecorded n vs moved =
     sort (map fst (filter (\<lambda>(f, v). v = UNRECORDED \<and> f \<notin> set (nignore_changes n) \<and> stable n f moved) vs))"

subsection \<open>Classification\<close>

definition forced :: "change \<Rightarrow> change" where
  "forced c = (if caction c = DELETE \<or> caction c = REPLACE then c
     else (case (cdesired c, cprior c) of
         (Some want, Some have) \<Rightarrow> (plain_change (cid c) REPLACE)\<lparr>cdesired := Some want, cprior := Some have,
            cfields := [FORCED_FIELD], ccbd := ncbd want\<rparr>
       | _ \<Rightarrow> c))"

text \<open>
  \<open>value != prior.properties.get(name, _ABSENT)\<close>: a missing key differs from any value.
\<close>

definition differs :: "pyval \<Rightarrow> pyval option \<Rightarrow> bool" where
  "differs v old = (case old of None \<Rightarrow> True | Some w \<Rightarrow> \<not> py_eq v w)"

definition literal_changes :: "irnode \<Rightarrow> state_node \<Rightarrow> string list" where
  "literal_changes n s =
     filter (\<lambda>f. f \<notin> set (nignore_changes n))
       (map fst (filter (\<lambda>(f, v). differs v (map_of (sproperties s) f)) (nproperties n))
        @ filter (\<lambda>f. f \<notin> fst ` set (nproperties n)) (map fst (sproperties s)))"

definition changed_fields :: "irnode \<Rightarrow> state_node \<Rightarrow> node_id set \<Rightarrow> string set \<Rightarrow> string list" where
  "changed_fields n s moved known =
     sorted_list_of_set
       (set (literal_changes n s
          @ map fst (filter (\<lambda>(f, v). f \<notin> set (nignore_changes n) \<and> touches n v moved) (nproperties n)))
        \<union> (known - set (nignore_changes n)))"

definition immutable_in :: "(string \<times> mutability) list \<Rightarrow> string \<Rightarrow> bool" where
  "immutable_in muts f = (map_of muts f = Some IMMUTABLE)"

definition changes_of :: "irnode \<Rightarrow> state_node \<Rightarrow> node_id set \<Rightarrow> verdicts \<Rightarrow> bool \<Rightarrow> string list" where
  "changes_of n s moved vs unexplained =
     (let changed = changed_fields n s moved (settled n vs moved)
      in if unexplained \<and> changed = [] then unrecorded n vs moved else changed)"

definition classify_node ::
  "irnode \<Rightarrow> state_node \<Rightarrow> (string \<times> mutability) list \<Rightarrow> node_id set \<Rightarrow> verdicts \<Rightarrow> bool \<Rightarrow> change" where
  "classify_node n s muts moved vs unexplained =
     (let known = settled n vs moved;
          changed = changes_of n s moved vs unexplained;
          upstream_moved = filter (\<lambda>f. f \<in> known) changed;
          base = \<lparr>cid = nid n, caction = UPDATE, cdesired = Some n, cprior = Some s, cfields = changed,
                  cconditional = False, ccbd = False, cstate_only = False, cupstream_moved = upstream_moved\<rparr>
      in if is_data n then base
         else (let immutable_changed = filter (immutable_in muts) changed
               in if immutable_changed \<noteq> [] then
                    base\<lparr>caction := REPLACE,
                      cconditional := list_all (\<lambda>f. has_ref_key (prop_at n f) \<and> f \<notin> known) immutable_changed,
                      ccbd := ncbd n\<rparr>
                  else base))"

text \<open>
  Reclassification at apply. A recorded value that moved must differ from whatever the field
  resolves to; \<open>moved_since_apply\<close> is such a value.
\<close>

definition moved_since_apply :: pyval where
  "moved_since_apply = PFloat FNan"

lemma moved_since_apply_differs: "\<not> py_eq v moved_since_apply"
  by (cases v) (auto simp: py_eq.simps moved_since_apply_def num_val_def split: pyfloat.splits)

fun consult_record :: "(string \<Rightarrow> pyval \<Rightarrow> string \<Rightarrow> bool option) \<Rightarrow> props \<Rightarrow> (string \<times> string) list \<Rightarrow> props \<Rightarrow> props" where
  "consult_record matches desired [] prior = prior"
| "consult_record matches desired ((f, d) # rest) prior =
     consult_record matches desired rest
       (case map_of desired f of
          None \<Rightarrow> prior
        | Some v \<Rightarrow> (case matches f v d of
             None \<Rightarrow> prior
           | Some same \<Rightarrow> AList.update f (if same then v else moved_since_apply) prior))"

definition reclassify ::
  "change \<Rightarrow> props \<Rightarrow> props \<Rightarrow> (string \<times> mutability) list \<Rightarrow> (string \<times> string) list
    \<Rightarrow> (string \<Rightarrow> pyval \<Rightarrow> string \<Rightarrow> bool option) option \<Rightarrow> (aerror, change) result" where
  "reclassify c desired_properties prior_properties muts recorded matches =
     (case (cdesired c, cprior c) of
        (Some want, Some have) \<Rightarrow>
          (let prior = (case matches of None \<Rightarrow> prior_properties
                          | Some f \<Rightarrow> consult_record f desired_properties recorded prior_properties);
               fresh = classify_node (want\<lparr>nproperties := desired_properties\<rparr>) (have\<lparr>sproperties := prior\<rparr>) muts {} [] False
           in if caction fresh = REPLACE then Inr c
              else Inr (c\<lparr>caction := (if cfields fresh \<noteq> [] then UPDATE else NOOP), cfields := cfields fresh,
                          cconditional := False, ccbd := False\<rparr>))
      | _ \<Rightarrow> Inl PyAssertionError)"

subsection \<open>What the rules decide\<close>

lemma settled_iff: "f \<in> settled n vs moved \<longleftrightarrow> (f, MOVED) \<in> set vs \<and> stable n f moved"
  by (auto simp: settled_def image_iff)

lemma finite_settled [simp]: "finite (settled n vs moved)"
  by (simp add: settled_def)

lemma set_literal_changes:
  assumes "wf_dict (nproperties n)"
  shows "f \<in> set (literal_changes n s) \<longleftrightarrow> f \<notin> set (nignore_changes n) \<and>
    (case map_of (nproperties n) f of Some v \<Rightarrow> differs v (map_of (sproperties s) f) | None \<Rightarrow> map_of (sproperties s) f \<noteq> None)"
proof -
  have "f \<in> set (literal_changes n s) \<longleftrightarrow> f \<notin> set (nignore_changes n) \<and>
      (f \<in> set (map fst (filter (\<lambda>(f, v). differs v (map_of (sproperties s) f)) (nproperties n))) \<or>
       f \<in> fst ` set (sproperties s) \<and> f \<notin> fst ` set (nproperties n))"
    by (auto simp: literal_changes_def)
  then show ?thesis unfolding keys_filter_iff [OF assms] key_iff by (auto split: option.splits)
qed

lemma set_changed_fields:
  assumes "wf_dict (nproperties n)" and "finite known"
  shows "f \<in> set (changed_fields n s moved known) \<longleftrightarrow> f \<notin> set (nignore_changes n) \<and>
    (f \<in> set (literal_changes n s) \<or> (\<exists>v. map_of (nproperties n) f = Some v \<and> touches n v moved) \<or> f \<in> known)"
proof -
  have "f \<in> set (changed_fields n s moved known) \<longleftrightarrow> f \<in> set (literal_changes n s) \<or>
      f \<in> set (map fst (filter (\<lambda>(f, v). f \<notin> set (nignore_changes n) \<and> touches n v moved) (nproperties n))) \<or>
      f \<in> known - set (nignore_changes n)"
    using assms(2) by (simp add: changed_fields_def)
  then show ?thesis unfolding keys_filter_iff [OF assms(1)] using set_literal_changes [OF assms(1)] by blast
qed

text \<open>
  Which fields a plan reports, and what they make of the node. A field is reported iff it
  is not ignored and its value differs from the row's, or it refers to an upstream that moves
  in this run, or its recorded upstream value is known to have moved. The node is replaced iff
  it is a resource and some reported field is immutable; the replace is conditional iff every
  such field holds a reference whose value is not known yet. Nothing is ever a NOOP here.
\<close>

lemma classify_node_decides:
  fixes n s muts moved vs
  defines "c \<equiv> classify_node n s muts moved vs False"
  assumes "wf_dict (nproperties n)"
  shows "(\<forall>f. f \<in> set (cfields c) \<longleftrightarrow> f \<notin> set (nignore_changes n) \<and>
      ((case map_of (nproperties n) f of
          Some v \<Rightarrow> differs v (map_of (sproperties s) f) \<or> touches n v moved
        | None \<Rightarrow> map_of (sproperties s) f \<noteq> None)
       \<or> (f, MOVED) \<in> set vs \<and> stable n f moved)) \<and>
    caction c = (if \<not> is_data n \<and> (\<exists>f \<in> set (cfields c). map_of muts f = Some IMMUTABLE) then REPLACE else UPDATE) \<and>
    (cconditional c \<longleftrightarrow> caction c = REPLACE \<and>
      (\<forall>f \<in> set (cfields c). map_of muts f = Some IMMUTABLE \<longrightarrow> has_ref_key (prop_at n f) \<and> \<not> ((f, MOVED) \<in> set vs \<and> stable n f moved)))"
proof -
  have f: "cfields c = changed_fields n s moved (settled n vs moved)"
    by (simp add: c_def classify_node_def changes_of_def Let_def)
  have "f \<in> set (cfields c) \<longleftrightarrow> f \<notin> set (nignore_changes n) \<and>
      ((case map_of (nproperties n) f of
          Some v \<Rightarrow> differs v (map_of (sproperties s) f) \<or> touches n v moved
        | None \<Rightarrow> map_of (sproperties s) f \<noteq> None)
       \<or> (f, MOVED) \<in> set vs \<and> stable n f moved)" for f
    unfolding f set_changed_fields [OF assms(2) finite_settled] set_literal_changes [OF assms(2)] settled_iff
    by (cases "map_of (nproperties n) f") auto
  moreover have "filter (immutable_in muts) (cfields c) \<noteq> [] \<longleftrightarrow> (\<exists>f \<in> set (cfields c). map_of muts f = Some IMMUTABLE)"
    by (auto simp: filter_empty_conv immutable_in_def)
  moreover have "caction c = (if \<not> is_data n \<and> filter (immutable_in muts) (cfields c) \<noteq> [] then REPLACE else UPDATE)"
    by (simp add: f) (simp add: c_def classify_node_def changes_of_def Let_def)
  moreover have "cconditional c \<longleftrightarrow> (\<not> is_data n \<and> filter (immutable_in muts) (cfields c) \<noteq> []) \<and>
      list_all (\<lambda>f. has_ref_key (prop_at n f) \<and> f \<notin> settled n vs moved) (filter (immutable_in muts) (cfields c))"
    by (simp add: f) (simp add: c_def classify_node_def changes_of_def Let_def)
  ultimately show ?thesis
    by (auto simp: list_all_iff immutable_in_def settled_iff)
qed

subsection \<open>Reclassifying at apply\<close>

text \<open>
  What the apply compares a field with: the record if it covers the field and its digest can
  be checked, the resolved row otherwise.
\<close>

definition value_moved ::
  "(string \<Rightarrow> pyval \<Rightarrow> string \<Rightarrow> bool option) \<Rightarrow> props \<Rightarrow> props \<Rightarrow> (string \<times> string) list \<Rightarrow> string \<Rightarrow> bool" where
  "value_moved matches desired prior recorded f =
     (case map_of desired f of
        None \<Rightarrow> map_of prior f \<noteq> None
      | Some v \<Rightarrow> (case Option.bind (map_of recorded f) (matches f v) of
          Some same \<Rightarrow> \<not> same
        | None \<Rightarrow> differs v (map_of prior f)))"

lemma consult_record_at:
  assumes "wf_dict recorded"
  shows "map_of (consult_record matches desired recorded prior) f =
    (case Option.bind (map_of desired f) (\<lambda>v. map_option (Pair v) (Option.bind (map_of recorded f) (matches f v))) of
       None \<Rightarrow> map_of prior f
     | Some (v, same) \<Rightarrow> Some (if same then v else moved_since_apply))"
  using assms
proof (induction recorded arbitrary: prior)
  case Nil
  then show ?case by (cases "map_of desired f") simp_all
next
  case (Cons fd recorded)
  obtain g d where fd: "fd = (g, d)" by (cases fd)
  have IH: "map_of (consult_record matches desired recorded p) f =
    (case Option.bind (map_of desired f) (\<lambda>v. map_option (Pair v) (Option.bind (map_of recorded f) (matches f v))) of
       None \<Rightarrow> map_of p f
     | Some (v, same) \<Rightarrow> Some (if same then v else moved_since_apply))" for p
    using Cons by (simp add: fd)
  have "map_of recorded g = None" using Cons.prems by (simp add: fd map_of_eq_None_iff)
  then show ?case
    by (simp add: fd IH update_conv' split: option.splits)
qed

lemma value_moved_record:
  assumes "wf_dict recorded" and "\<forall>(f, v) \<in> set desired. py_eq v v"
  shows "(case map_of desired f of Some v \<Rightarrow> differs v (map_of (consult_record matches desired recorded prior) f)
      | None \<Rightarrow> map_of (consult_record matches desired recorded prior) f \<noteq> None)
    \<longleftrightarrow> value_moved matches desired prior recorded f"
proof (cases "map_of desired f")
  case None
  then show ?thesis by (simp add: value_moved_def consult_record_at [OF assms(1)])
next
  case (Some v)
  then have "py_eq v v" using assms(2) by (auto dest!: map_of_SomeD)
  then show ?thesis
    using Some moved_since_apply_differs
    by (auto simp: value_moved_def consult_record_at [OF assms(1)] differs_def split: option.splits)
qed

text \<open>
  A conditional replace is settled by the values. With the references resolved and a
  record to compare with, the node is still replaced iff an immutable field that is not
  ignored really moved; otherwise it becomes an update of exactly the fields that moved, or
  nothing at all when none did, and no flag of the replace survives.
\<close>

lemma reclassify_decides:
  fixes matches prior
  assumes "cdesired c = Some want" and "cprior c = Some have" and "wf_dict desired" and "wf_dict recorded"
    and "\<forall>(f, v) \<in> set desired. py_eq v v" and "\<not> is_data want"
  defines "moved \<equiv> \<lambda>f. f \<notin> set (nignore_changes want) \<and> value_moved matches desired prior recorded f"
  shows "\<exists>c'. reclassify c desired prior muts recorded (Some matches) = Inr c' \<and>
    (if \<exists>f. moved f \<and> map_of muts f = Some IMMUTABLE then c' = c
     else (\<forall>f. f \<in> set (cfields c') \<longleftrightarrow> moved f) \<and> caction c' = (if \<exists>f. moved f then UPDATE else NOOP) \<and>
       \<not> cconditional c' \<and> \<not> ccbd c' \<and> cid c' = cid c)"
proof -
  let ?n = "want\<lparr>nproperties := desired\<rparr>"
  let ?s = "have\<lparr>sproperties := consult_record matches desired recorded prior\<rparr>"
  let ?fresh = "classify_node ?n ?s muts {} [] False"
  have d: "\<not> is_data ?n" using assms(6) by (simp add: is_data_def)
  have none: "\<not> touches ?n v {}" for v by (simp add: touches_def list_ex_iff)
  have changed: "f \<in> set (cfields ?fresh) \<longleftrightarrow> moved f" for f
  proof -
    have "f \<in> set (cfields ?fresh) \<longleftrightarrow> f \<in> set (changed_fields ?n ?s {} {})"
      by (simp add: classify_node_def changes_of_def Let_def settled_def)
    also have "\<dots> \<longleftrightarrow> f \<in> set (literal_changes ?n ?s)"
      using assms(3) by (subst set_changed_fields) (auto simp: none set_literal_changes)
    also have "\<dots> \<longleftrightarrow> moved f"
      using assms(3) value_moved_record [OF assms(4,5), where f = f and matches = matches and prior = prior]
      by (cases "map_of desired f") (simp_all add: set_literal_changes moved_def)
    finally show ?thesis .
  qed
  have "filter (immutable_in muts) (cfields ?fresh) \<noteq> [] \<longleftrightarrow> (\<exists>f. moved f \<and> map_of muts f = Some IMMUTABLE)"
    by (auto simp: filter_empty_conv immutable_in_def changed)
  moreover have "caction ?fresh = (if filter (immutable_in muts) (cfields ?fresh) \<noteq> [] then REPLACE else UPDATE)"
    using d by (simp add: classify_node_def Let_def)
  ultimately have r: "caction ?fresh = REPLACE \<longleftrightarrow> (\<exists>f. moved f \<and> map_of muts f = Some IMMUTABLE)" by simp
  have "cfields ?fresh \<noteq> [] \<longleftrightarrow> (\<exists>f. moved f)" using changed by (metis last_in_set length_greater_0_conv length_pos_if_in_set)
  then show ?thesis
    using r changed assms(1,2) by (auto simp: reclassify_def Let_def)
qed

end
