(* ===== verification/Ordering.thy ===== *)
theory Ordering
  imports Changes "HOL-Library.While_Combinator"
begin

text \<open>
  Replace ordering (\<open>reconcile/ordering.py\<close>) and the destroy guard (\<open>reconcile/guards.py\<close>)
  over a change set. A \<open>Failure\<close> is an \<open>Inl\<close> of its error; the only exception these functions
  raise themselves is an \<open>assert\<close>, which is \<open>Inl PyAssertionError\<close>.
\<close>

subsection \<open>Create-first\<close>

definition create_first :: "change \<Rightarrow> node_id set \<Rightarrow> change" where
  "create_first c cbd = (if caction c = REPLACE \<and> cid c \<in> cbd then c\<lparr>ccbd := True\<rparr> else c)"

definition muts_of :: "mutability_table \<Rightarrow> string \<Rightarrow> (string \<times> mutability) list" where
  "muts_of mut t = dget mut t []"

definition cbd_collides :: "change \<Rightarrow> type_table \<Rightarrow> mutability_table \<Rightarrow> (aerror, bool) result" where
  "cbd_collides c types mut =
     (if \<not> (caction c = REPLACE \<and> ccbd c) then Inr False
      else (case (cdesired c, cprior c) of
          (Some want, Some have) \<Rightarrow>
            (case Option.bind (map_of types (ntype want)) physical_name_field of
               Some f \<Rightarrow> Inr (py_eq (prop_at want f) (dget (sproperties have) f PNone))
             | None \<Rightarrow> Inr (\<not> list_ex (immutable_in (muts_of mut (ntype want))) (cfields c)))
        | _ \<Rightarrow> Inl PyAssertionError))"

text \<open>The loop of \<open>resolve_cbd\<close>: changes, warned ids and conflicts so far, each reversed.\<close>

fun resolve_loop :: "type_table \<Rightarrow> mutability_table \<Rightarrow> (node_id \<times> node_id set) list \<Rightarrow> change list
    \<Rightarrow> (aerror, change list \<times> node_id list \<times> node_id list) result" where
  "resolve_loop types mut forcers [] = Inr ([], [], [])"
| "resolve_loop types mut forcers (c # cs) =
     rbind (cbd_collides c types mut) (\<lambda>collides.
     rbind (resolve_loop types mut forcers cs) (\<lambda>(out, warnings, conflicts).
       if \<not> collides then Inr (c # out, warnings, conflicts)
       else if dget forcers (cid c) {} - {cid c} \<noteq> {} then Inr (out, warnings, cid c # conflicts)
       else Inr (c\<lparr>ccbd := False\<rparr> # out, cid c # warnings, conflicts)))"

definition resolve_cbd :: "change_set \<Rightarrow> type_table \<Rightarrow> mutability_table \<Rightarrow> (node_id \<times> node_id set) list
    \<Rightarrow> (aerror, change_set \<times> node_id list) result" where
  "resolve_cbd cs types mut forcers =
     rbind (resolve_loop types mut forcers cs) (\<lambda>(out, warnings, conflicts).
       if conflicts \<noteq> [] then Inl (AtlantideError ''cannot replace create-before-destroy'' conflicts)
       else Inr (out, warnings))"

subsection \<open>What must go before a destroy-first delete\<close>

definition destroyed_first :: "change \<Rightarrow> bool" where
  "destroyed_first c = (caction c = REPLACE \<and> \<not> ccbd c \<and> cprior c \<noteq> None)"

definition behind :: "mutability_table \<Rightarrow> change \<Rightarrow> node_id set \<Rightarrow> bool" where
  "behind mut c first = (caction c = REPLACE \<and> cconditional c \<and>
     (case cdesired c of None \<Rightarrow> False
      | Some want \<Rightarrow> list_ex (\<lambda>f. immutable_in (muts_of mut (ntype want)) f \<and> touches want (prop_at want f) first) (cfields c)))"

definition pin_one :: "mutability_table \<Rightarrow> change \<Rightarrow> node_id set \<times> node_id set \<times> bool \<Rightarrow> node_id set \<times> node_id set \<times> bool" where
  "pin_one mut c st = (case st of (pinned, first, grew) \<Rightarrow>
     if cid c \<in> pinned \<or> \<not> behind mut c first then st
     else (insert (cid c) pinned, if \<not> ccbd c then insert (cid c) first else first, True))"

definition pin_all :: "change_set \<Rightarrow> mutability_table \<Rightarrow> (node_id set \<times> node_id set \<times> bool) option" where
  "pin_all cs mut = while_option (\<lambda>(_, _, grew). grew)
     (\<lambda>(pinned, first, _). fold (pin_one mut) cs (pinned, first, False))
     ({}, set (map cid (filter destroyed_first cs)), True)"

definition behind_destroy_first :: "change_set \<Rightarrow> mutability_table \<Rightarrow> change_set option" where
  "behind_destroy_first cs mut =
     map_option (\<lambda>(pinned, _, _). if pinned = {} then cs
       else map (\<lambda>c. if cid c \<in> pinned then c\<lparr>cconditional := False\<rparr> else c) cs) (pin_all cs mut)"

subsection \<open>The destroy guard\<close>

definition referenced :: "change \<Rightarrow> node_id set" where
  "referenced c = (case cdesired c of None \<Rightarrow> {}
     | Some want \<Rightarrow> set (concat (map (\<lambda>f. collect_ref_targets (prop_at want f)) (cfields c))))"

definition deferred_to_apply :: "change_set \<Rightarrow> node_id set \<Rightarrow> node_id set" where
  "deferred_to_apply cs protected =
     (let recreated = map cid (filter (\<lambda>c. reidentifying (caction c)) cs)
      in set (map cid (filter (\<lambda>c. cid c \<in> protected \<and> caction c = REPLACE \<and> cconditional c \<and>
           list_all (\<lambda>i. i \<notin> referenced c) recreated) cs)))"

definition check_prevent_destroy :: "change_set \<Rightarrow> node_id set \<Rightarrow> (aerror, change_set) result" where
  "check_prevent_destroy cs protected =
     (let blocked = map cid (filter (\<lambda>c. destructive (caction c) \<and> cid c \<in> protected \<and> cid c \<notin> deferred_to_apply cs protected) cs)
      in if blocked \<noteq> [] then Inl (PreventDestroyError ''prevent_destroy blocks destroying'' (sort blocked)) else Inr cs)"

subsection \<open>The pinned changes are the least such set\<close>

text \<open>The nodes deleted before their replacement exists, directly or because one they hang on is.\<close>

inductive must_go :: "change_set \<Rightarrow> mutability_table \<Rightarrow> node_id \<Rightarrow> bool" for cs mut where
  first: "c \<in> set cs \<Longrightarrow> destroyed_first c \<Longrightarrow> must_go cs mut (cid c)"
| later: "must_go cs mut i \<Longrightarrow> c \<in> set cs \<Longrightarrow> behind mut c {i} \<Longrightarrow> \<not> ccbd c \<Longrightarrow> must_go cs mut (cid c)"

lemma behind_Union: "behind mut c S \<longleftrightarrow> (\<exists>i \<in> S. behind mut c {i})"
  by (auto simp: behind_def touches_def list_ex_iff split: option.splits)

lemma pin_one_skip: "cid c \<in> p \<or> \<not> behind mut c f \<Longrightarrow> pin_one mut c (p, f, g) = (p, f, g)"
  by (auto simp: pin_one_def)

lemma pin_one_take: "cid c \<notin> p \<Longrightarrow> behind mut c f \<Longrightarrow>
    pin_one mut c (p, f, g) = (insert (cid c) p, if \<not> ccbd c then insert (cid c) f else f, True)"
  by (simp add: pin_one_def)

definition pinned_by :: "change_set \<Rightarrow> mutability_table \<Rightarrow> change \<Rightarrow> bool" where
  "pinned_by cs mut c = (\<exists>i. must_go cs mut i \<and> behind mut c {i})"

definition pin_ok :: "change_set \<Rightarrow> mutability_table \<Rightarrow> node_id set \<times> node_id set \<times> bool \<Rightarrow> bool" where
  "pin_ok cs mut st \<longleftrightarrow> (case st of (pinned, first, grew) \<Rightarrow>
     (\<forall>i \<in> pinned. \<exists>c \<in> set cs. cid c = i \<and> pinned_by cs mut c) \<and> (\<forall>i \<in> first. must_go cs mut i) \<and>
     (\<forall>c \<in> set cs. destroyed_first c \<longrightarrow> cid c \<in> first) \<and>
     (\<forall>c \<in> set cs. cid c \<in> pinned \<longrightarrow> \<not> ccbd c \<longrightarrow> cid c \<in> first))"

lemma pin_one_ok:
  assumes "distinct (map cid cs)" and "c \<in> set cs" and "pin_ok cs mut st"
  shows "pin_ok cs mut (pin_one mut c st)"
proof -
  obtain pinned first grew where st: "st = (pinned, first, grew)" by (cases st)
  show ?thesis
  proof (cases "cid c \<in> pinned \<or> \<not> behind mut c first")
    case True
    then show ?thesis using assms(3) by (simp add: pin_one_def st)
  next
    case False
    then obtain i where i: "i \<in> first" "behind mut c {i}" using behind_Union by blast
    then have "must_go cs mut i" using assms(3) by (simp add: pin_ok_def st)
    then have p: "pinned_by cs mut c" "\<not> ccbd c \<Longrightarrow> must_go cs mut (cid c)"
      using i(2) assms(2) must_go.later unfolding pinned_by_def by blast+
    have uniq: "c' = c" if "c' \<in> set cs" "cid c' = cid c" for c'
      using that assms(1,2) by (meson distinct_map inj_onD)
    show ?thesis using False assms(2,3) p uniq unfolding pin_ok_def pin_one_def st by auto
  qed
qed

lemma pin_fold_ok:
  "distinct (map cid cs) \<Longrightarrow> set ds \<subseteq> set cs \<Longrightarrow> pin_ok cs mut st \<Longrightarrow> pin_ok cs mut (fold (pin_one mut) ds st)"
  by (induction ds arbitrary: st) (simp_all add: pin_one_ok)

text \<open>A pass that pins nothing finds nothing to pin.\<close>

lemma pin_fold_grew: "snd (snd (fold (pin_one mut) ds (p, f, True)))"
proof (induction ds arbitrary: p f)
  case (Cons c ds)
  then show ?case by (cases "cid c \<in> p \<or> \<not> behind mut c f") (simp_all add: pin_one_skip pin_one_take)
qed simp

lemma pin_fold_quiet:
  "fold (pin_one mut) ds (pinned, first, False) = (pinned', first', False) \<Longrightarrow>
    pinned' = pinned \<and> first' = first \<and> (\<forall>c \<in> set ds. cid c \<in> pinned \<or> \<not> behind mut c first)"
proof (induction ds)
  case (Cons c ds)
  show ?case
  proof (cases "cid c \<in> pinned \<or> \<not> behind mut c first")
    case True
    then show ?thesis using Cons by (simp add: pin_one_skip)
  next
    case False
    then show ?thesis
      using Cons.prems pin_fold_grew [of mut ds "insert (cid c) pinned" "if \<not> ccbd c then insert (cid c) first else first"]
      by (simp add: pin_one_take split: if_splits)
  qed
qed simp

lemma pin_fold_mono: "pinned \<subseteq> fst (fold (pin_one mut) ds (pinned, first, g)) \<and>
    fst (fold (pin_one mut) ds (pinned, first, g)) \<subseteq> pinned \<union> cid ` set ds \<and>
    (snd (snd (fold (pin_one mut) ds (pinned, first, g))) \<longrightarrow> g \<or> pinned \<subset> fst (fold (pin_one mut) ds (pinned, first, g)))"
proof (induction ds arbitrary: pinned first g)
  case (Cons c ds)
  show ?case
  proof (cases "cid c \<in> pinned \<or> \<not> behind mut c first")
    case True
    then show ?thesis using Cons [of pinned first g] by (auto simp: pin_one_skip)
  next
    case False
    let ?q = "fold (pin_one mut) ds (insert (cid c) pinned, if \<not> ccbd c then insert (cid c) first else first, True)"
    have q: "fold (pin_one mut) (c # ds) (pinned, first, g) = ?q" using False by (simp add: pin_one_take)
    have "insert (cid c) pinned \<subseteq> fst ?q" "fst ?q \<subseteq> insert (cid c) pinned \<union> cid ` set ds" by (simp_all only: Cons)
    then show ?thesis unfolding q using False by auto
  qed
qed simp

lemma pin_all_result:
  assumes "distinct (map cid cs)"
  shows "\<exists>pinned first. pin_all cs mut = Some (pinned, first, False) \<and>
    (\<forall>c \<in> set cs. cid c \<in> pinned \<longleftrightarrow> pinned_by cs mut c)"
proof -
  let ?first = "set (map cid (filter destroyed_first cs))"
  let ?step = "\<lambda>(pinned, first, _ :: bool). fold (pin_one mut) cs (pinned, first, False)"
  let ?I = "\<lambda>st. pin_ok cs mut st \<and> fst st \<subseteq> cid ` set cs \<and>
    (\<not> snd (snd st) \<longrightarrow> (\<forall>c \<in> set cs. cid c \<in> fst st \<or> \<not> behind mut c (fst (snd st))))"
  let ?r = "measure (\<lambda>(pinned, _ :: node_id set, grew). 2 * card (cid ` set cs - pinned) + (if grew then 1 else 0))"
  have init: "?I ({}, ?first, True)" by (auto simp: pin_ok_def intro: must_go.first)
  have step: "?I (?step st) \<and> (?step st, st) \<in> ?r" if I: "?I st" and g: "snd (snd st)" for st
  proof -
    obtain pinned first where st: "st = (pinned, first, True)" using g by (cases st) auto
    obtain pinned' first' grew' where st': "?step st = (pinned', first', grew')" by (cases "?step st")
    then have f: "fold (pin_one mut) cs (pinned, first, False) = (pinned', first', grew')" by (simp add: st)
    have "pin_ok cs mut (pinned, first, False)" using I [THEN conjunct1] by (simp only: st pin_ok_def prod.case)
    from pin_fold_ok [OF assms order_refl this] have ok: "pin_ok cs mut (pinned', first', grew')" unfolding f .
    have m: "pinned \<subseteq> pinned'" "pinned' \<subseteq> pinned \<union> cid ` set cs" "grew' \<longrightarrow> pinned \<subset> pinned'"
      using pin_fold_mono [of pinned mut cs first False] by (simp_all add: f)
    have sub: "pinned' \<subseteq> cid ` set cs" using m(2) I by (auto simp: st)
    have quiet: "\<not> grew' \<Longrightarrow> \<forall>c \<in> set cs. cid c \<in> pinned' \<or> \<not> behind mut c first'"
      using pin_fold_quiet [of mut cs pinned first pinned' first'] f by auto
    have "card (cid ` set cs - pinned') \<le> card (cid ` set cs - pinned)" using m(1) by (intro card_mono) auto
    moreover have "card (cid ` set cs - pinned') < card (cid ` set cs - pinned)" if grew'
      using m(3) that sub by (intro psubset_card_mono) auto
    ultimately show ?thesis using ok sub quiet unfolding st' by (auto simp: st)
  qed
  have b: "(case st of (_, _, grew) \<Rightarrow> grew) = snd (snd st)" for st :: "node_id set \<times> node_id set \<times> bool"
    by (cases st) auto
  have "\<exists>st. pin_all cs mut = Some st"
    unfolding pin_all_def
    by (rule wf_rel_while_option_Some [where R = ?r and P = ?I]) (use step init b in auto)
  then obtain st where st: "pin_all cs mut = Some st" ..
  have I: "?I st"
    by (rule while_option_rule [OF _ st [unfolded pin_all_def], where P = ?I]) (use step init b in auto)
  have "\<not> snd (snd st)" using while_option_stop [OF st [unfolded pin_all_def]] b by auto
  then obtain pinned first where e: "st = (pinned, first, False)" by (cases st) auto
  have closed: "i \<in> first" if "must_go cs mut i" for i
    using that
  proof induction
    case (first c)
    then show ?case using I by (simp add: e pin_ok_def)
  next
    case (later i c)
    then have "behind mut c first" using behind_Union by blast
    then have "cid c \<in> pinned" using I later(2) by (auto simp: e)
    then show ?case using I later(2,4) by (auto simp: e pin_ok_def)
  qed
  have "cid c \<in> pinned \<longleftrightarrow> pinned_by cs mut c" if c: "c \<in> set cs" for c
  proof
    assume "cid c \<in> pinned"
    then obtain c' where "c' \<in> set cs" "cid c' = cid c" "pinned_by cs mut c'" using I by (auto simp: e pin_ok_def)
    then show "pinned_by cs mut c" using c assms by (metis distinct_map inj_onD)
  next
    assume "pinned_by cs mut c"
    then obtain i where "i \<in> first" "behind mut c {i}" using closed by (auto simp: pinned_by_def)
    then have "behind mut c first" using behind_Union by blast
    then show "cid c \<in> pinned" using I c by (auto simp: e)
  qed
  then show ?thesis using st e by blast
qed

lemma behind_destroy_first_result:
  assumes "distinct (map cid cs)"
  shows "behind_destroy_first cs mut =
      Some (map (\<lambda>c. if pinned_by cs mut c then c\<lparr>cconditional := False\<rparr> else c) cs) \<and>
    (\<forall>out. behind_destroy_first cs mut = Some out \<longrightarrow>
      (\<forall>c \<in> set out. \<forall>d \<in> set out. destroyed_first d \<longrightarrow> \<not> behind mut c {cid d}))"
proof -
  obtain pinned first where p: "pin_all cs mut = Some (pinned, first, False)"
    "\<forall>c \<in> set cs. cid c \<in> pinned \<longleftrightarrow> pinned_by cs mut c"
    using pin_all_result [OF assms] by blast
  have same: "map (\<lambda>c. if cid c \<in> pinned then c\<lparr>cconditional := False\<rparr> else c) cs =
      map (\<lambda>c. if pinned_by cs mut c then c\<lparr>cconditional := False\<rparr> else c) cs"
    using p(2) by (intro map_cong) auto
  have eq: "behind_destroy_first cs mut = Some (map (\<lambda>c. if pinned_by cs mut c then c\<lparr>cconditional := False\<rparr> else c) cs)"
  proof (cases "pinned = {}")
    case True
    then have "map (\<lambda>c. if pinned_by cs mut c then c\<lparr>cconditional := False\<rparr> else c) cs = cs"
      using p(2) by (intro map_idI) auto
    then show ?thesis using True p(1) by (simp add: behind_destroy_first_def)
  next
    case False
    then show ?thesis using p(1) same by (simp add: behind_destroy_first_def)
  qed
  let ?u = "\<lambda>c. if pinned_by cs mut c then c\<lparr>cconditional := False\<rparr> else c"
  have "\<not> behind mut (?u c) {cid d}" if "c \<in> set cs" "d \<in> set cs" "destroyed_first d" for c d
    using that must_go.first [of d cs mut] by (auto simp: behind_def pinned_by_def)
  moreover have "destroyed_first (?u d) = destroyed_first d" "cid (?u d) = cid d" for d
    by (simp_all add: destroyed_first_def)
  ultimately have "\<forall>c \<in> ?u ` set cs. \<forall>d \<in> ?u ` set cs. destroyed_first d \<longrightarrow> \<not> behind mut c {cid d}"
    by (simp only: ball_simps) blast
  then show ?thesis unfolding eq by simp
qed

text \<open>
  No conditional replace waits behind a delete it must precede. The pass always ends; it
  changes no flag but \<open>conditional\<close>; and it clears that flag on exactly the conditional
  replaces with an immutable reference to a node that is deleted first, where "deleted first"
  is the least set that has every destroy-first replace and every such dependent that is not
  created first itself. So in the result no conditional replace hangs on a destroy-first one.
\<close>

lemma behind_destroy_first_least:
  assumes "distinct (map cid cs)"
  shows "behind_destroy_first cs mut =
      Some (map (\<lambda>c. if pinned_by cs mut c then c\<lparr>cconditional := False\<rparr> else c) cs) \<and>
    (\<forall>out. behind_destroy_first cs mut = Some out \<longrightarrow>
      (\<forall>c \<in> set out. \<forall>d \<in> set out. destroyed_first d \<longrightarrow> \<not> behind mut c {cid d}))"
  using assms by (rule behind_destroy_first_result)

definition replace_of :: "irnode \<Rightarrow> string list \<Rightarrow> bool \<Rightarrow> change" where
  "replace_of n fs cond = (plain_change (nid n) REPLACE)\<lparr>cdesired := Some n, cprior := Some (mk_row n []),
     cfields := fs, cconditional := cond, ccbd := ncbd n\<rparr>"

text \<open>A network that is replaced, and a machine in it whose \<open>net\<close> field refers to it.\<close>

definition net_node :: irnode where
  "net_node = (mk_node ''s:net:a'' [] [])\<lparr>ntype := ''net''\<rparr>"

definition vm_node :: irnode where
  "vm_node = (mk_node ''s:vm:b'' [''s:net:a''] [])\<lparr>ntype := ''vm'',
     nproperties := [(''net'', pdict [(REF_KEY, PStr ''s:net:a#id'')])]\<rparr>"

definition vm_muts :: mutability_table where
  "vm_muts = [(''vm'', [(''net'', IMMUTABLE)])]"

subsection \<open>The guard and the fallback\<close>

lemma protected_blocked:
  "destructive (caction c) \<and> cid c \<in> protected \<and> cid c \<notin> deferred_to_apply cs protected \<longleftrightarrow>
     cid c \<in> protected \<and> (caction c = DELETE \<or> caction c = REPLACE \<and>
       (\<not> cconditional c \<or> (\<exists>d \<in> set cs. reidentifying (caction d) \<and> cid d \<in> referenced c)))"
  if "distinct (map cid cs)" "c \<in> set cs"
proof -
  have "cid c \<in> deferred_to_apply cs protected \<longleftrightarrow> cid c \<in> protected \<and> caction c = REPLACE \<and> cconditional c \<and>
      (\<forall>d \<in> set cs. reidentifying (caction d) \<longrightarrow> cid d \<notin> referenced c)"
    using that by (auto simp: deferred_to_apply_def list_all_iff distinct_map inj_on_def)
  then show ?thesis by (auto simp: destructive_def)
qed

text \<open>
  C24: \<open>prevent_destroy\<close> holds. A plan passes the guard, unchanged, iff no protected node is
  deleted and every protected node that is replaced is a conditional replace that refers,
  through a changed field, to no node created or replaced in this run; otherwise it fails and
  the error names exactly the offending nodes.
\<close>

theorem prevent_destroy_guards:
  fixes cs protected
  assumes "distinct (map cid cs)"
  defines "bad \<equiv> \<lambda>c. cid c \<in> protected \<and> (caction c = DELETE \<or> caction c = REPLACE \<and>
       (\<not> cconditional c \<or> (\<exists>d \<in> set cs. reidentifying (caction d) \<and> cid d \<in> referenced c)))"
  shows "check_prevent_destroy cs protected =
    (if \<exists>c \<in> set cs. bad c then Inl (PreventDestroyError ''prevent_destroy blocks destroying'' (sort (map cid (filter bad cs))))
     else Inr cs)"
proof -
  have "filter (\<lambda>c. destructive (caction c) \<and> cid c \<in> protected \<and> cid c \<notin> deferred_to_apply cs protected) cs = filter bad cs"
    using protected_blocked [OF assms(1)] by (intro filter_cong) (auto simp: bad_def)
  then show ?thesis by (auto simp: check_prevent_destroy_def Let_def filter_empty_conv)
qed

theorem prevent_destroy_guards_witness:
  "check_prevent_destroy [replace_of net_node [''cidr''] False, replace_of vm_node [''net''] True] {''s:vm:b''} =
    Inl (PreventDestroyError ''prevent_destroy blocks destroying'' [''s:vm:b''])"
proof -
  let ?cs = "[replace_of net_node [''cidr''] False, replace_of vm_node [''net''] True]"
  have d: "distinct (map cid ?cs)" by code_simp
  have r: "''s:net:a'' \<in> referenced (replace_of vm_node [''net''] True)" by code_simp
  show ?thesis using r unfolding prevent_destroy_guards [OF d]
    by (simp add: replace_of_def net_node_def vm_node_def reidentifying_def)
qed

definition collides :: "type_table \<Rightarrow> mutability_table \<Rightarrow> change \<Rightarrow> bool" where
  "collides types mut c = (cbd_collides c types mut = Inr True)"

lemma cbd_collides_total:
  "(caction c = REPLACE \<longrightarrow> cdesired c \<noteq> None \<and> cprior c \<noteq> None) \<Longrightarrow> cbd_collides c types mut = Inr (collides types mut c)"
  by (auto simp: cbd_collides_def collides_def split: option.splits)

lemma resolve_loop_result:
  fixes types mut forcers
  assumes "\<forall>c \<in> set cs. caction c = REPLACE \<longrightarrow> cdesired c \<noteq> None \<and> cprior c \<noteq> None"
  defines "stuck \<equiv> \<lambda>c. collides types mut c \<and> dget forcers (cid c) {} - {cid c} \<noteq> {}"
  shows "resolve_loop types mut forcers cs =
    Inr (map (\<lambda>c. if collides types mut c then c\<lparr>ccbd := False\<rparr> else c) (filter (\<lambda>c. \<not> stuck c) cs),
         map cid (filter (\<lambda>c. collides types mut c \<and> \<not> stuck c) cs), map cid (filter stuck cs))"
  using assms(1) by (induction cs) (auto simp: cbd_collides_total stuck_def)

text \<open>
  Create-before-destroy never leaves two resources with one identity. The plan fails,
  naming exactly the replaces whose replacement would clash with the old resource while
  another create-before-destroy node depends on them; otherwise it succeeds, the clashing
  replaces and only those fall back to destroy-first, each with a warning, and none clashes.
\<close>

lemma resolve_cbd_decides:
  fixes types mut forcers
  assumes "\<forall>c \<in> set cs. caction c = REPLACE \<longrightarrow> cdesired c \<noteq> None \<and> cprior c \<noteq> None"
  defines "stuck \<equiv> \<lambda>c. collides types mut c \<and> dget forcers (cid c) {} - {cid c} \<noteq> {}"
  shows "if \<exists>c \<in> set cs. stuck c
    then resolve_cbd cs types mut forcers = Inl (AtlantideError ''cannot replace create-before-destroy'' (map cid (filter stuck cs)))
    else \<exists>out. resolve_cbd cs types mut forcers = Inr (out, map cid (filter (collides types mut) cs)) \<and>
      out = map (\<lambda>c. if collides types mut c then c\<lparr>ccbd := False\<rparr> else c) cs \<and> (\<forall>c \<in> set out. \<not> collides types mut c)"
proof (cases "\<exists>c \<in> set cs. stuck c")
  case True
  then have "filter stuck cs \<noteq> []" by (simp add: filter_empty_conv)
  with True show ?thesis by (simp add: resolve_cbd_def resolve_loop_result [OF assms(1)] stuck_def)
next
  case False
  then have "filter stuck cs = []" "filter (\<lambda>c. \<not> stuck c) cs = cs"
    "filter (\<lambda>c. collides types mut c \<and> \<not> stuck c) cs = filter (collides types mut) cs"
    by (auto simp: filter_empty_conv filter_id_conv intro: filter_cong)
  moreover have "\<not> collides types mut (c\<lparr>ccbd := False\<rparr>)" for c
    by (simp add: collides_def cbd_collides_def)
  ultimately show ?thesis using False
    by (auto simp: resolve_cbd_def resolve_loop_result [OF assms(1)] stuck_def)
qed

end
