(* ===== verification/Diff.thy ===== *)
theory Diff
  imports Ordering GraphSelect
begin

text \<open>
  The whole-graph pass (\<open>reconcile/diff.py\<close>) that turns a compiled config, its Merkle hashes
  and the stored rows into a change set: a first classification of every id, the search for
  dependents of recreated nodes, and the refinement that knows which upstreams move. \<open>None\<close>
  would be a search that never ends, which the theorems exclude.
\<close>

record diff_inputs =
  in_wants :: "(node_id \<times> irnode) list"
  in_hashes :: "(node_id \<times> string) list"
  in_rows :: state_graph
  in_muts :: mutability_table
  in_checks :: "(node_id \<times> verdicts) list"

definition classify_in :: "diff_inputs \<Rightarrow> irnode \<Rightarrow> state_node \<Rightarrow> node_id set \<Rightarrow> (aerror, change) result" where
  "classify_in inp want have moved =
     rbind (lookup (in_hashes inp) (nid want) (nid want)) (\<lambda>h.
       Inr (classify_node want have (muts_of (in_muts inp) (ntype want)) moved (dget (in_checks inp) (nid want) [])
         (sinput_hash have \<notin> {h, NO_INPUT_HASH})))"

definition change_for :: "diff_inputs \<Rightarrow> node_id \<Rightarrow> (aerror, change) result" where
  "change_for inp i =
     (case (map_of (in_wants inp) i, map_of (in_rows inp) i) of
        (None, have) \<Rightarrow> Inr ((plain_change i DELETE)\<lparr>cprior := have\<rparr>)
      | (Some want, None) \<Rightarrow> Inr ((plain_change i CREATE)\<lparr>cdesired := Some want\<rparr>)
      | (Some want, Some have) \<Rightarrow>
          if sstatus have \<noteq> CREATED then Inr ((plain_change i CREATE)\<lparr>cdesired := Some want, cprior := Some have\<rparr>)
          else rbind (lookup (in_hashes inp) i i) (\<lambda>h.
            if h = sinput_hash have then
              (if \<exists>f \<in> settled want (dget (in_checks inp) i []) {}. f \<notin> set (nignore_changes want)
               then classify_in inp want have {}
               else Inr ((plain_change i NOOP)\<lparr>cdesired := Some want, cprior := Some have,
                      cstate_only := (nprevent_destroy want \<noteq> sprevent_destroy have)\<rparr>))
            else classify_in inp want have {}))"

definition refine :: "diff_inputs \<Rightarrow> change \<Rightarrow> node_id set \<Rightarrow> node_id set \<Rightarrow> (aerror, change) result" where
  "refine inp c stale moved =
     (case (map_of (in_wants inp) (cid c), map_of (in_rows inp) (cid c)) of
        (Some want, Some have) \<Rightarrow>
          if caction c = NOOP then (if cid c \<notin> stale then Inr c else classify_in inp want have moved)
          else if caction c \<in> {UPDATE, REPLACE} \<and> FORCED_FIELD \<notin> set (cfields c) then classify_in inp want have moved
          else Inr c
      | _ \<Rightarrow> Inr c)"

definition dependents_of :: "irnode list \<Rightarrow> (node_id \<times> node_id list) list" where
  "dependents_of ns = fold (\<lambda>n acc. fold (\<lambda>d acc. AList.update d (dget acc d [] @ [nid n]) acc) (edges n) acc) ns []"

definition stale_dependents :: "change list \<Rightarrow> (node_id \<times> irnode) list \<Rightarrow> node_id set option" where
  "stale_dependents cs wants_by_id =
     map_option snd (drain_push (\<lambda>_. True) (\<lambda>i. dget (dependents_of (map snd wants_by_id)) i [])
       (map cid (filter (\<lambda>c. reidentifying (caction c)) cs)) {})"

definition diff ::
  "irgraph \<Rightarrow> (node_id \<times> string) list \<Rightarrow> state_graph \<Rightarrow> mutability_table \<Rightarrow> node_id set \<Rightarrow> (node_id \<times> verdicts) list
    \<Rightarrow> (aerror, change_set) result option" where
  "diff desired hashes prior mut replace consumed =
     (let inp = \<lparr>in_wants = by_id desired, in_hashes = hashes, in_rows = prior, in_muts = mut, in_checks = consumed\<rparr>;
          all_ids = sorted_set (map fst (by_id desired) @ map fst prior)
      in case rmap (change_for inp) all_ids of
           Inl e \<Rightarrow> Some (Inl e)
         | Inr changes0 \<Rightarrow>
             (let changes = map (\<lambda>c. if cid c \<in> replace then forced c else c) changes0
              in Option.bind (stale_dependents changes (by_id desired)) (\<lambda>stale.
                 (let moved = set (map cid (filter (\<lambda>c. caction c \<noteq> NOOP) changes)) \<union> stale
                  in Option.bind (effective_cbd desired) (\<lambda>cbd.
                     case rmap (\<lambda>c. rbind (refine inp c stale moved) (\<lambda>c'. Inr (create_first c' cbd))) changes of
                       Inl e \<Rightarrow> Some (Inl e)
                     | Inr refined \<Rightarrow> map_option Inr (behind_destroy_first refined mut))))))"

subsection \<open>The search for dependents\<close>

lemma dependents_step:
  "x \<in> set (dget (fold (\<lambda>d acc. AList.update d (dget acc d [] @ [n]) acc) ds acc) i []) \<longleftrightarrow>
     x \<in> set (dget acc i []) \<or> (x = n \<and> i \<in> set ds)"
  by (induction ds arbitrary: acc) (auto simp: dget_update)

lemma dependents_of_iff:
  "x \<in> set (dget (dependents_of ns) i []) \<longleftrightarrow> (\<exists>n \<in> set ns. nid n = x \<and> i \<in> set (edges n))"
proof -
  have "x \<in> set (dget (fold (\<lambda>n acc. fold (\<lambda>d acc. AList.update d (dget acc d [] @ [nid n]) acc) (edges n) acc) ns acc) i []) \<longleftrightarrow>
      x \<in> set (dget acc i []) \<or> (\<exists>n \<in> set ns. nid n = x \<and> i \<in> set (edges n))" for acc
    by (induction ns arbitrary: acc) (auto simp: dependents_step simp del: set_edges)
  from this [of "[]"] show ?thesis by (simp add: dependents_of_def dget_def)
qed

lemma finite_dependents: "finite {b. \<exists>a. b \<in> set (dget (dependents_of ns) a [])}"
  by (rule finite_subset [of _ "nid ` set ns"]) (auto simp: dependents_of_iff)

interpretation stale_walk: push_search "\<lambda>_. True" "\<lambda>i. dget (dependents_of ns) i []" for ns
  by unfold_locales (rule finite_dependents)

definition depends_rel :: "irgraph \<Rightarrow> (node_id \<times> node_id) set" where
  "depends_rel ir = {(i, d). \<exists>n. map_of (by_id ir) i = Some n \<and> d \<in> set (edges n)}"

text \<open>With distinct ids, the search finds exactly the nodes that depend on a recreated one.\<close>

lemma wants_distinct:
  assumes "distinct (map nid (gnodes ir))"
  shows "map_of (by_id ir) i = Some n \<longleftrightarrow> n \<in> set (gnodes ir) \<and> nid n = i"
  unfolding by_id_def using assms
  by (auto simp: map_of_dict_of_distinct map_of_eq_Some_iff comp_def)

lemma wants_values: "n \<in> set (map snd (by_id ir)) \<Longrightarrow> n \<in> set (gnodes ir)"
  using dict_of_values [of nid "\<lambda>n. n" "gnodes ir"] by (auto simp: by_id_def)

lemma stale_dependents_result:
  assumes "distinct (map nid (gnodes ir))"
  shows "stale_dependents cs (by_id ir) =
    Some {i. \<exists>c \<in> set cs. reidentifying (caction c) \<and> (i, cid c) \<in> (depends_rel ir)\<^sup>+}"
proof -
  let ?ns = "map snd (by_id ir)" and ?start = "map cid (filter (\<lambda>c. reidentifying (caction c)) cs)"
  have "push_edges (\<lambda>_. True) (\<lambda>i. dget (dependents_of ?ns) i []) = (depends_rel ir)\<inverse>"
  proof -
    have "(\<exists>n \<in> set ?ns. nid n = b \<and> a \<in> set (edges n)) \<longleftrightarrow> (b, a) \<in> depends_rel ir" for a b
    proof
      assume "\<exists>n \<in> set ?ns. nid n = b \<and> a \<in> set (edges n)"
      then obtain n where "n \<in> set (gnodes ir)" "nid n = b" "a \<in> set (edges n)" using wants_values by blast
      then show "(b, a) \<in> depends_rel ir" unfolding depends_rel_def wants_distinct [OF assms] by blast
    next
      assume "(b, a) \<in> depends_rel ir"
      then obtain n where n: "map_of (by_id ir) b = Some n" "a \<in> set (edges n)" by (auto simp: depends_rel_def)
      then have "nid n = b" using wants_distinct [OF assms] by blast
      moreover have "n \<in> set ?ns" using n(1) by (force dest: map_of_SomeD)
      ultimately show "\<exists>n \<in> set ?ns. nid n = b \<and> a \<in> set (edges n)" using n(2) by blast
    qed
    then show ?thesis by (auto simp del: set_edges simp: dependents_of_iff)
  qed
  then have "drain_push (\<lambda>_. True) (\<lambda>i. dget (dependents_of ?ns) i []) ?start {} = Some ([], ((depends_rel ir)\<inverse>)\<^sup>+ `` set ?start)"
    using stale_walk.drain_push_reach [of ?ns ?start] by simp
  then show ?thesis by (auto simp: stale_dependents_def trancl_converse)
qed

subsection \<open>One node\<close>

definition inputs_of :: "irgraph \<Rightarrow> (node_id \<times> string) list \<Rightarrow> state_graph \<Rightarrow> mutability_table \<Rightarrow> (node_id \<times> verdicts) list \<Rightarrow> diff_inputs" where
  "inputs_of desired hashes prior mut consumed =
     \<lparr>in_wants = by_id desired, in_hashes = hashes, in_rows = prior, in_muts = mut, in_checks = consumed\<rparr>"

lemma inputs_of_simps [simp]:
  "in_wants (inputs_of d h p m c) = by_id d" "in_hashes (inputs_of d h p m c) = h" "in_rows (inputs_of d h p m c) = p"
  "in_muts (inputs_of d h p m c) = m" "in_checks (inputs_of d h p m c) = c"
  by (simp_all add: inputs_of_def)

definition confirmed :: "state_graph \<Rightarrow> node_id \<Rightarrow> bool" where
  "confirmed prior i = (\<exists>row. map_of prior i = Some row \<and> sstatus row = CREATED)"

text \<open>A row the Merkle skip leaves alone: its hash is the config's, and no value it consumes moved.\<close>

definition unchanged_row :: "diff_inputs \<Rightarrow> node_id \<Rightarrow> bool" where
  "unchanged_row inp i = (\<exists>want row. map_of (in_wants inp) i = Some want \<and> map_of (in_rows inp) i = Some row \<and>
     sstatus row = CREATED \<and> map_of (in_hashes inp) i = Some (sinput_hash row) \<and>
     \<not> (\<exists>f \<in> settled want (dget (in_checks inp) i []) {}. f \<notin> set (nignore_changes want)))"

lemma classify_node_fields:
  "cid (classify_node n s m moved vs u) = nid n" "cdesired (classify_node n s m moved vs u) = Some n"
  "cprior (classify_node n s m moved vs u) = Some s" "caction (classify_node n s m moved vs u) \<in> {UPDATE, REPLACE}"
  by (simp_all add: classify_node_def Let_def)

lemma lookup_Some [simp]: "map_of m k = Some v \<Longrightarrow> lookup m k msg = Inr v"
  by simp

lemma classify_in_total:
  assumes "nid want \<in> fst ` set (in_hashes inp)"
  shows "\<exists>c. classify_in inp want row moved = Inr c \<and> cid c = nid want \<and> cdesired c = Some want \<and> cprior c = Some row \<and>
    caction c \<in> {UPDATE, REPLACE}"
proof -
  obtain h where "map_of (in_hashes inp) (nid want) = Some h"
    using assms by (auto simp: key_iff)
  then have "classify_in inp want row moved = Inr (classify_node want row (muts_of (in_muts inp) (ntype want)) moved
      (dget (in_checks inp) (nid want) []) (sinput_hash row \<notin> {h, NO_INPUT_HASH}))"
    by (simp add: classify_in_def)
  then show ?thesis using classify_node_fields by simp
qed

text \<open>\<open>prevent_destroy\<close> in the config is not what the row says.\<close>

definition flag_differs :: "diff_inputs \<Rightarrow> node_id \<Rightarrow> bool" where
  "flag_differs inp i = (map_option nprevent_destroy (map_of (in_wants inp) i) \<noteq> map_option sprevent_destroy (map_of (in_rows inp) i))"

definition good_first :: "diff_inputs \<Rightarrow> node_id \<Rightarrow> change \<Rightarrow> bool" where
  "good_first inp i c \<longleftrightarrow> cid c = i \<and> cdesired c = map_of (in_wants inp) i \<and> cprior c = map_of (in_rows inp) i \<and>
     (caction c = DELETE \<longleftrightarrow> map_of (in_wants inp) i = None) \<and>
     (caction c = CREATE \<longleftrightarrow> map_of (in_wants inp) i \<noteq> None \<and> \<not> confirmed (in_rows inp) i) \<and>
     (caction c = NOOP \<longleftrightarrow> unchanged_row inp i) \<and> (caction c = NOOP \<longrightarrow> cstate_only c = flag_differs inp i)"

lemma change_for_total:
  assumes "\<And>j want. map_of (in_wants inp) j = Some want \<Longrightarrow> nid want = j \<and> j \<in> fst ` set (in_hashes inp)"
  shows "\<exists>c. change_for inp i = Inr c \<and> good_first inp i c"
proof (cases "map_of (in_wants inp) i")
  case None
  then show ?thesis by (auto simp: change_for_def good_first_def unchanged_row_def)
next
  case (Some want)
  note w = Some
  show ?thesis
  proof (cases "map_of (in_rows inp) i")
    case None
    then show ?thesis using w by (auto simp: change_for_def good_first_def unchanged_row_def confirmed_def)
  next
    case (Some row)
    show ?thesis
    proof (cases "sstatus row = CREATED")
      case False
      then show ?thesis using w Some by (auto simp: change_for_def good_first_def unchanged_row_def confirmed_def)
    next
      case True
      obtain h where h: "map_of (in_hashes inp) i = Some h" using assms [OF w] by (auto simp: key_iff)
      from classify_in_total [of want inp row "{}"] obtain c where c: "classify_in inp want row {} = Inr c" "cid c = i"
        "cdesired c = Some want" "cprior c = Some row" "caction c \<in> {UPDATE, REPLACE}" using assms [OF w] by auto
      show ?thesis
      proof (cases "unchanged_row inp i")
        case True
        then show ?thesis using w Some h \<open>sstatus row = CREATED\<close>
          by (auto simp: change_for_def good_first_def unchanged_row_def confirmed_def flag_differs_def)
      next
        case False
        then have "change_for inp i = Inr c" using w Some h c(1) \<open>sstatus row = CREATED\<close>
          by (simp add: change_for_def unchanged_row_def)
        then show ?thesis using c False w Some \<open>sstatus row = CREATED\<close> by (auto simp: good_first_def confirmed_def)
      qed
    qed
  qed
qed

lemma forced_fields:
  "cid (forced c) = cid c" "cdesired (forced c) = cdesired c" "cprior (forced c) = cprior c"
  "caction (forced c) = (if caction c = DELETE \<or> caction c = REPLACE \<or> cdesired c = None \<or> cprior c = None then caction c else REPLACE)"
  by (auto simp: forced_def split: option.splits)

text \<open>The action of the first pass, forcing included.\<close>

definition first_action :: "diff_inputs \<Rightarrow> node_id set \<Rightarrow> node_id \<Rightarrow> action" where
  "first_action inp replace i = (case change_for inp i of Inr c \<Rightarrow> caction (if i \<in> replace then forced c else c) | Inl _ \<Rightarrow> NOOP)"

lemma refine_total:
  assumes "\<And>j want. map_of (in_wants inp) j = Some want \<Longrightarrow> nid want = j \<and> j \<in> fst ` set (in_hashes inp)"
    and c: "good_first inp i c" "c' = (if b then forced c else c)"
  shows "\<exists>d. refine inp c' stale moved = Inr d \<and> cid d = i \<and>
    (caction d = DELETE \<longleftrightarrow> caction c' = DELETE) \<and> (caction d = CREATE \<longleftrightarrow> caction c' = CREATE) \<and>
    (caction d = NOOP \<longleftrightarrow> caction c' = NOOP \<and> i \<notin> stale) \<and> (caction d = NOOP \<longrightarrow> cstate_only d = flag_differs inp i)"
proof -
  have only: "caction c' = NOOP \<Longrightarrow> cstate_only c' = flag_differs inp i"
    using c by (auto simp: good_first_def forced_def split: if_splits option.splits)
  have i: "cid c' = i" using c by (simp add: good_first_def forced_fields)
  consider (none) "map_of (in_wants inp) i = None \<or> map_of (in_rows inp) i = None"
    | (both) want row where "map_of (in_wants inp) i = Some want" "map_of (in_rows inp) i = Some row"
    by fastforce
  then show ?thesis
  proof cases
    case none
    then have "refine inp c' stale moved = Inr c'" by (auto simp: refine_def i split: option.splits)
    moreover have "caction c' \<noteq> NOOP"
      using none c by (auto simp: good_first_def forced_fields unchanged_row_def)
    ultimately show ?thesis using i by simp
  next
    case both
    from assms(1) [OF both(1)] classify_in_total [of want inp row moved] obtain d where
      d: "classify_in inp want row moved = Inr d" "cid d = i" "caction d \<in> {UPDATE, REPLACE}" by auto
    show ?thesis
    proof (cases "(caction c' = NOOP \<and> i \<in> stale) \<or> (caction c' \<in> {UPDATE, REPLACE} \<and> FORCED_FIELD \<notin> set (cfields c'))")
      case True
      then have "refine inp c' stale moved = Inr d" using both d(1) by (auto simp: refine_def i)
      then show ?thesis using True d by auto
    next
      case False
      then have "refine inp c' stale moved = Inr c'" using both by (auto simp: refine_def i)
      then show ?thesis using False i only by auto
    qed
  qed
qed

lemma create_first_fields [simp]:
  "cid (create_first c cbd) = cid c" "caction (create_first c cbd) = caction c" "cstate_only (create_first c cbd) = cstate_only c"
  by (simp_all add: create_first_def)

lemma behind_destroy_first_fields:
  assumes "distinct (map cid cs)"
  shows "\<exists>out. behind_destroy_first cs mut = Some out \<and> map cid out = map cid cs \<and>
    map (\<lambda>c. (caction c, cstate_only c)) out = map (\<lambda>c. (caction c, cstate_only c)) cs"
  unfolding behind_destroy_first_result [OF assms, THEN conjunct1] by (auto simp: comp_def)

subsection \<open>The plan\<close>

lemma diff_result:
  fixes desired hashes prior mut consumed replace
  assumes "distinct (map nid (gnodes desired))" and "nid ` set (gnodes desired) \<subseteq> fst ` set hashes"
  defines "inp \<equiv> inputs_of desired hashes prior mut consumed"
  defines "ids \<equiv> sorted_set (map fst (by_id desired) @ map fst prior)"
  shows "\<exists>cs. diff desired hashes prior mut replace consumed = Some (Inr cs) \<and> map cid cs = ids \<and>
    (\<forall>c \<in> set cs. (caction c = DELETE \<longleftrightarrow> first_action inp replace (cid c) = DELETE) \<and>
      (caction c = CREATE \<longleftrightarrow> first_action inp replace (cid c) = CREATE) \<and>
      (caction c = NOOP \<longleftrightarrow> first_action inp replace (cid c) = NOOP \<and>
        \<not> (\<exists>r \<in> set ids. reidentifying (first_action inp replace r) \<and> (cid c, r) \<in> (depends_rel desired)\<^sup>+)) \<and>
      (caction c = NOOP \<longrightarrow> cstate_only c = flag_differs inp (cid c)))"
proof -
  have key: "nid want = j \<and> j \<in> fst ` set (in_hashes inp)" if "map_of (in_wants inp) j = Some want" for j want
    using that assms(2) wants_distinct [OF assms(1)] by (auto simp: inp_def)
  obtain F where F: "\<And>i. change_for inp i = Inr (F i) \<and> good_first inp i (F i)"
    using change_for_total [OF key] by metis
  let ?F = "\<lambda>i. if i \<in> replace then forced (F i) else F i"
  have fa: "first_action inp replace i = caction (?F i)" and cidF: "cid (?F i) = i" for i
    using F [of i] by (auto simp: first_action_def good_first_def forced_fields)
  have r0: "rmap (change_for inp) ids = Inr (map F ids)" by (rule rmap_pure) (use F in blast)
  have changes: "map (\<lambda>c. if cid c \<in> replace then forced c else c) (map F ids) = map ?F ids"
    using F by (auto simp: good_first_def)
  define stale where "stale = {i. \<exists>c \<in> set (map ?F ids). reidentifying (caction c) \<and> (i, cid c) \<in> (depends_rel desired)\<^sup>+}"
  have st1: "stale_dependents (map ?F ids) (by_id desired) = Some stale"
    unfolding stale_def by (rule stale_dependents_result [OF assms(1)])
  have "i \<in> stale \<longleftrightarrow> (\<exists>r \<in> set ids. reidentifying (caction (?F r)) \<and> (i, cid (?F r)) \<in> (depends_rel desired)\<^sup>+)" for i
    unfolding stale_def by (simp only: mem_Collect_eq set_map bex_simps)
  then have st2: "i \<in> stale \<longleftrightarrow> (\<exists>r \<in> set ids. reidentifying (first_action inp replace r) \<and> (i, r) \<in> (depends_rel desired)\<^sup>+)" for i
    unfolding cidF fa .
  obtain cbd where cbd: "effective_cbd desired = Some cbd"
    using cbd_forcers_ok [of desired] unfolding effective_cbd_def by force
  define moved where "moved = set (map cid (filter (\<lambda>c. caction c \<noteq> NOOP) (map ?F ids))) \<union> stale"
  have "\<exists>d. refine inp (?F i) stale moved = Inr d \<and> cid d = i \<and>
    (caction d = DELETE \<longleftrightarrow> caction (?F i) = DELETE) \<and> (caction d = CREATE \<longleftrightarrow> caction (?F i) = CREATE) \<and>
    (caction d = NOOP \<longleftrightarrow> caction (?F i) = NOOP \<and> i \<notin> stale) \<and> (caction d = NOOP \<longrightarrow> cstate_only d = flag_differs inp i)" for i
    using refine_total [OF key, of i "F i" "?F i" "i \<in> replace"] F [of i] by simp
  then obtain D where D: "\<And>i. refine inp (?F i) stale moved = Inr (D i) \<and> cid (D i) = i \<and>
    (caction (D i) = DELETE \<longleftrightarrow> caction (?F i) = DELETE) \<and> (caction (D i) = CREATE \<longleftrightarrow> caction (?F i) = CREATE) \<and>
    (caction (D i) = NOOP \<longleftrightarrow> caction (?F i) = NOOP \<and> i \<notin> stale) \<and> (caction (D i) = NOOP \<longrightarrow> cstate_only (D i) = flag_differs inp i)" by metis
  let ?R = "map (\<lambda>i. create_first (D i) cbd) ids"
  have r1: "rmap (\<lambda>c. rbind (refine inp c stale moved) (\<lambda>c'. Inr (create_first c' cbd))) (map ?F ids) = Inr ?R"
    unfolding rmap_map by (rule rmap_pure) (use D in simp)
  have cidR: "map cid ?R = ids" using D by (simp add: comp_def)
  have "distinct ids" by (simp add: ids_def)
  then obtain out where out: "behind_destroy_first ?R mut = Some out" "map cid out = ids"
    "map (\<lambda>c. (caction c, cstate_only c)) out = map (\<lambda>c. (caction c, cstate_only c)) ?R"
    using behind_destroy_first_fields [of ?R mut] cidR by auto
  have d: "diff desired hashes prior mut replace consumed = Some (Inr out)"
    using r0 r1 st1 cbd out(1)
    unfolding diff_def Let_def inputs_of_def [symmetric] inp_def [symmetric] ids_def [symmetric]
    by (simp only: sum.case changes moved_def [symmetric] bind.bind_lunit option.map)
  have act: "caction c = caction (D (cid c)) \<and> cstate_only c = cstate_only (D (cid c))" if "c \<in> set out" for c
  proof -
    from that obtain k where k: "k < length out" "c = out ! k" by (auto simp: in_set_conv_nth)
    moreover have len: "length out = length ids" using out(2) by (metis length_map)
    moreover have "cid (out ! k) = ids ! k" using out(2) k(1) by (metis nth_map)
    moreover have "(caction (out ! k), cstate_only (out ! k)) = (caction (?R ! k), cstate_only (?R ! k))"
      using arg_cong [OF out(3), of "\<lambda>xs. xs ! k"] k(1) len by simp
    ultimately show ?thesis by simp
  qed
  show ?thesis using d out(2) act D st2 fa by auto
qed

lemma wanted_iff: "map_of (by_id ir) i \<noteq> None \<longleftrightarrow> i \<in> nid ` set (gnodes ir)"
  using dict_of_keys [of nid "\<lambda>n. n" "gnodes ir"] unfolding key_iff [symmetric] by_id_def by simp

lemma first_action_iff:
  fixes desired hashes prior mut consumed replace
  assumes "distinct (map nid (gnodes desired))" and "nid ` set (gnodes desired) \<subseteq> fst ` set hashes"
  defines "inp \<equiv> inputs_of desired hashes prior mut consumed"
  shows "first_action inp replace i = DELETE \<longleftrightarrow> i \<notin> nid ` set (gnodes desired)"
    and "first_action inp replace i = CREATE \<longleftrightarrow> i \<in> nid ` set (gnodes desired) \<and> \<not> confirmed prior i \<and> (i \<in> replace \<longrightarrow> i \<notin> fst ` set prior)"
    and "first_action inp replace i = NOOP \<longleftrightarrow> unchanged_row inp i \<and> i \<notin> replace"
proof -
  have key: "nid want = j \<and> j \<in> fst ` set (in_hashes inp)" if "map_of (in_wants inp) j = Some want" for j want
    using that assms(2) wants_distinct [OF assms(1)] by (auto simp: inp_def)
  obtain c where c: "change_for inp i = Inr c" "good_first inp i c" using change_for_total [OF key] by blast
  note w = wanted_iff [of desired i] and g = c(2) [unfolded good_first_def]
  have in_w: "in_wants inp = by_id desired" "in_rows inp = prior" by (simp_all add: inp_def)
  show "first_action inp replace i = DELETE \<longleftrightarrow> i \<notin> nid ` set (gnodes desired)"
    using g w by (auto simp: first_action_def c(1) forced_fields in_w)
  show "first_action inp replace i = CREATE \<longleftrightarrow> i \<in> nid ` set (gnodes desired) \<and> \<not> confirmed prior i \<and> (i \<in> replace \<longrightarrow> i \<notin> fst ` set prior)"
    using g w by (auto simp: first_action_def c(1) forced_fields in_w key_iff)
  show "first_action inp replace i = NOOP \<longleftrightarrow> unchanged_row inp i \<and> i \<notin> replace"
    using g w by (auto simp: first_action_def c(1) forced_fields in_w unchanged_row_def)
qed

text \<open>
  C22: the plan covers every node and each action is the right one. The diff returns one change
  per id of config or state, in order. A node is deleted iff the config does not declare it. It
  is created iff it is declared and its row is missing or unconfirmed (and \<open>--replace\<close> does not
  name a row that is there). It is left alone iff the row is confirmed, its hash is the
  config's, no value it consumes is known to have moved, it is not forced, and nothing it
  depends on, at any distance, is created or replaced by the first pass. Any other node is
  updated or replaced.
\<close>

theorem diff_decides:
  assumes "distinct (map nid (gnodes desired))" and "nid ` set (gnodes desired) \<subseteq> fst ` set hashes"
  shows "\<exists>cs. diff desired hashes prior mut replace consumed = Some (Inr cs) \<and>
    map cid cs = sorted_set (map fst (by_id desired) @ map fst prior) \<and>
    (\<forall>c \<in> set cs.
      (caction c = DELETE \<longleftrightarrow> cid c \<notin> nid ` set (gnodes desired)) \<and>
      (caction c = CREATE \<longleftrightarrow> cid c \<in> nid ` set (gnodes desired) \<and> \<not> confirmed prior (cid c) \<and>
        (cid c \<in> replace \<longrightarrow> cid c \<notin> fst ` set prior)) \<and>
      (caction c = NOOP \<longleftrightarrow> unchanged_row (inputs_of desired hashes prior mut consumed) (cid c) \<and> cid c \<notin> replace \<and>
        \<not> (\<exists>d \<in> set cs. reidentifying (first_action (inputs_of desired hashes prior mut consumed) replace (cid d)) \<and>
             (cid c, cid d) \<in> (depends_rel desired)\<^sup>+)))"
proof -
  obtain cs where cs: "diff desired hashes prior mut replace consumed = Some (Inr cs)"
    "map cid cs = sorted_set (map fst (by_id desired) @ map fst prior)"
    "\<forall>c \<in> set cs. (caction c = DELETE \<longleftrightarrow> first_action (inputs_of desired hashes prior mut consumed) replace (cid c) = DELETE) \<and>
      (caction c = CREATE \<longleftrightarrow> first_action (inputs_of desired hashes prior mut consumed) replace (cid c) = CREATE) \<and>
      (caction c = NOOP \<longleftrightarrow> first_action (inputs_of desired hashes prior mut consumed) replace (cid c) = NOOP \<and>
        \<not> (\<exists>r \<in> set (map cid cs). reidentifying (first_action (inputs_of desired hashes prior mut consumed) replace r) \<and>
             (cid c, r) \<in> (depends_rel desired)\<^sup>+))"
    using diff_result [OF assms, where prior = prior and mut = mut and consumed = consumed and replace = replace] by metis
  have ex: "(\<exists>r \<in> set (map cid cs). P r) \<longleftrightarrow> (\<exists>d \<in> set cs. P (cid d))" for P by auto
  show ?thesis using cs unfolding first_action_iff [OF assms] ex by blast
qed


theorem diff_decides_witness:
  "\<exists>cs. diff chain_ir [(''a'', ''h''), (''b'', ''h''), (''c'', ''h'')] [] [] {} [] = Some (Inr cs) \<and>
    map cid cs = sorted_set (map fst (by_id chain_ir) @ map fst ([] :: state_graph)) \<and>
    (\<forall>c \<in> set cs.
      (caction c = DELETE \<longleftrightarrow> cid c \<notin> nid ` set (gnodes chain_ir)) \<and>
      (caction c = CREATE \<longleftrightarrow> cid c \<in> nid ` set (gnodes chain_ir) \<and> \<not> confirmed [] (cid c) \<and>
        (cid c \<in> {} \<longrightarrow> cid c \<notin> fst ` set ([] :: state_graph))) \<and>
      (caction c = NOOP \<longleftrightarrow> unchanged_row (inputs_of chain_ir [(''a'', ''h''), (''b'', ''h''), (''c'', ''h'')] [] [] []) (cid c) \<and> cid c \<notin> {} \<and>
        \<not> (\<exists>d \<in> set cs. reidentifying (first_action (inputs_of chain_ir [(''a'', ''h''), (''b'', ''h''), (''c'', ''h'')] [] [] []) {} (cid d)) \<and>
             (cid c, cid d) \<in> (depends_rel chain_ir)\<^sup>+)))"
  by (rule diff_decides) (simp_all add: chain_ir_def)



subsection \<open>A replace the first pass does not see\<close>

definition app_node :: irnode where
  "app_node = (mk_node ''s:app:c'' [''s:vm:b''] [])\<lparr>ntype := ''app'', nproperties := [(''vm'', pdict [(REF_KEY, PStr ''s:vm:b#id'')])]\<rparr>"

definition drift_ir :: irgraph where
  "drift_ir = \<lparr>gnodes = [app_node, net_node, vm_node], gversion = 1\<rparr>"

definition drift_rows :: state_graph where
  "drift_rows = [(''s:app:c'', mk_row app_node ''h''), (''s:net:a'', mk_row net_node NO_INPUT_HASH), (''s:vm:b'', mk_row vm_node NO_INPUT_HASH)]"

text \<open>
  A dependent can stay behind a replace. A refresh has marked a network and a machine in it
  as drifted, nothing else. The first pass plans two updates, so the search for dependents
  starts nowhere; the refinement then turns the machine's update into a conditional replace,
  because its immutable reference points at the changing network, and the application on the
  machine is still planned as a NOOP.
\<close>

lemma diff_leaves_dependent_of_late_replace:
  "map_option (map_sum (\<lambda>e. ()) (map (\<lambda>c. (cid c, caction c, cconditional c))))
     (diff drift_ir [(''s:app:c'', ''h''), (''s:net:a'', ''h''), (''s:vm:b'', ''h'')] drift_rows vm_muts {} []) =
   Some (Inr [(''s:app:c'', NOOP, False), (''s:net:a'', UPDATE, False), (''s:vm:b'', REPLACE, True)])"
  by code_simp

end
