(* ===== verification/Leases.thy ===== *)
theory Leases
  imports Prelude
begin

text \<open>
  Leases and the run-side guard (\<open>state/leases.py\<close>), and who may write or lock a node
  (\<open>state/fencing.py\<close>). Times are rational seconds; the clock is the argument \<open>now\<close> of the
  operations that read it. Of a refusal the model keeps the kind and the names in it.
\<close>

type_synonym time = rat

record lease =
  lowner :: string
  expires_at :: time
  lscope :: "node_id list"
  lfence :: int

definition blocks :: "lease \<Rightarrow> string \<Rightarrow> time \<Rightarrow> bool" where
  "blocks l owner now = (lowner l \<noteq> owner \<and> expires_at l > now)"

definition LOCK_TTL :: time where "LOCK_TTL = 300"

record lock_policy =
  ttl :: time
  renew_interval :: time
  renew_grace :: time

definition DEFAULT_LOCK_POLICY :: lock_policy where
  "DEFAULT_LOCK_POLICY = \<lparr>ttl = LOCK_TTL, renew_interval = LOCK_TTL / 3, renew_grace = 30\<rparr>"

definition validate_policy :: "lock_policy \<Rightarrow> (aerror, unit) result" where
  "validate_policy p =
     (if ttl p \<le> 0 then Inl (LockError ''lock_ttl must be positive'' [])
      else if renew_interval p \<le> 0 then Inl (LockError ''lock_renew_interval must be positive'' [])
      else if renew_interval p \<ge> ttl p then Inl (LockError ''lock_renew_interval must be shorter than lock_ttl'' [])
      else if renew_grace p \<ge> ttl p then Inl (LockError ''lock renew grace must be shorter than lock_ttl'' [])
      else Inr ())"

definition DEFAULT_SKEW_MARGIN :: time where "DEFAULT_SKEW_MARGIN = 30"

definition require_skew_margin :: "time \<Rightarrow> (aerror, time) result" where
  "require_skew_margin margin = (if margin < 0 then Inl (StateError ''lock_skew_margin must not be negative'' []) else Inr margin)"

subsection \<open>The guard\<close>

record lease_guard =
  grace :: time
  guarded :: "lease option"
  lost :: "aerror option"

definition new_guard :: "time \<Rightarrow> lease_guard" where
  "new_guard g = \<lparr>grace = g, guarded = None, lost = None\<rparr>"

definition guard_renewed :: "lease \<Rightarrow> lease_guard \<Rightarrow> lease_guard" where
  "guard_renewed l g = g\<lparr>guarded := Some l\<rparr>"

definition guard_fail :: "aerror \<Rightarrow> lease_guard \<Rightarrow> lease_guard" where
  "guard_fail e g = g\<lparr>lost := Some e\<rparr>"

text \<open>\<open>check\<close> at time \<open>now\<close>: the guard after it, and whether it raises.\<close>

definition guard_check :: "time \<Rightarrow> lease_guard \<Rightarrow> lease_guard \<times> (aerror, unit) result" where
  "guard_check now g =
     (case lost g of Some e \<Rightarrow> (g, Inl e)
      | None \<Rightarrow> (case guarded g of
          None \<Rightarrow> (g, Inr ())
        | Some l \<Rightarrow>
            (let remaining = expires_at l - now
             in if remaining \<le> grace g then
                  (let e = LeaseLostError (if remaining < 0 then ''the state lock expired'' else ''the state lock expires within the grace window'') []
                   in (g\<lparr>lost := Some e\<rparr>, Inl e))
                else (g, Inr ()))))"

subsection \<open>Fencing\<close>

definition fence_one :: "lease \<Rightarrow> (node_id \<times> lease) list \<Rightarrow> time \<Rightarrow> node_id \<Rightarrow> aerror option" where
  "fence_one l held now i =
     (case map_of held i of
        None \<Rightarrow> if i \<notin> set (lscope l) then Some (FencedWriteError ''outside this run's lock scope'' [i]) else None
      | Some cur \<Rightarrow>
          if lowner cur \<noteq> lowner l then Some (FencedWriteError ''held by another'' [i, lowner cur])
          else if lfence cur > lfence l then Some (FencedWriteError ''superseded by a newer lease'' [i])
          else if expires_at cur \<le> now then Some (FencedWriteError ''this run's lease expired'' [i])
          else None)"

fun first_some :: "('a \<Rightarrow> 'b option) \<Rightarrow> 'a list \<Rightarrow> 'b option" where
  "first_some f [] = None"
| "first_some f (x # xs) = (case f x of Some y \<Rightarrow> Some y | None \<Rightarrow> first_some f xs)"

lemma first_some_None [simp]: "first_some f xs = None \<longleftrightarrow> (\<forall>x \<in> set xs. f x = None)"
  by (induction xs) (auto split: option.splits)

lemma first_some_Some: "first_some f xs = Some y \<Longrightarrow> \<exists>x \<in> set xs. f x = Some y"
  by (induction xs) (auto split: option.splits)

definition fence_violation :: "lease option \<Rightarrow> (node_id \<times> lease) list \<Rightarrow> time \<Rightarrow> node_id list \<Rightarrow> aerror option" where
  "fence_violation l held now touched =
     (case l of None \<Rightarrow> None | Some l \<Rightarrow> first_some (fence_one l held now) (sorted_set touched))"

definition scope_conflict :: "(node_id \<times> lease) list \<Rightarrow> string \<Rightarrow> time \<Rightarrow> node_id list \<Rightarrow> aerror option" where
  "scope_conflict held owner now scope =
     first_some (\<lambda>i. case map_of held i of
        None \<Rightarrow> None
      | Some cur \<Rightarrow> if blocks cur owner now then Some (LockError ''node is locked by'' [i, lowner cur]) else None)
       (sorted_set scope)"

lemma scope_conflict_None:
  "scope_conflict held owner now scope = None \<longleftrightarrow> (\<forall>i \<in> set scope. \<forall>l. map_of held i = Some l \<longrightarrow> \<not> blocks l owner now)"
  by (auto simp: scope_conflict_def split: option.splits)

lemma fence_one_None: "fence_one l held now i = None \<longleftrightarrow> (case map_of held i of
      None \<Rightarrow> i \<in> set (lscope l)
    | Some cur \<Rightarrow> lowner cur = lowner l \<and> lfence cur \<le> lfence l \<and> now < expires_at cur)"
  by (cases "map_of held i") (simp_all add: fence_one_def not_le not_less)

lemma fence_violation_None:
  "fence_violation (Some l) held now touched = None \<longleftrightarrow> (\<forall>i \<in> set touched. case map_of held i of
      None \<Rightarrow> i \<in> set (lscope l)
    | Some cur \<Rightarrow> lowner cur = lowner l \<and> lfence cur \<le> lfence l \<and> now < expires_at cur)"
  by (simp add: fence_violation_def fence_one_None)

subsection \<open>A policy and its guard\<close>

text \<open>
  A run that renews on time: it took its lease at \<open>r 0\<close>, renewed it at \<open>r 1, r 2, \<dots>\<close>, each at
  most one interval after the one before, and checks the guard at \<open>now\<close> before the next.
\<close>

definition guard_at :: "lock_policy \<Rightarrow> lease \<Rightarrow> time \<Rightarrow> lease_guard" where
  "guard_at p l r = guard_renewed (l\<lparr>expires_at := r + ttl p\<rparr>) (new_guard (renew_grace p))"

lemma guard_check_at:
  "guard_check now (guard_at p l r) = (if ttl p - (now - r) \<le> renew_grace p
     then (let e = LeaseLostError (if r + ttl p < now then ''the state lock expired'' else ''the state lock expires within the grace window'') []
           in ((guard_at p l r)\<lparr>lost := Some e\<rparr>, Inl e))
     else (guard_at p l r, Inr ()))"
  by (simp add: guard_check_def guard_at_def guard_renewed_def new_guard_def algebra_simps)

lemma guard_lost: "lost g = Some e \<Longrightarrow> guard_check now (guard_renewed l g) = (guard_renewed l g, Inl e)"
  by (simp add: guard_check_def guard_renewed_def)

text \<open>
  When a run that renews on time may write. For a policy that validates, the guard passes
  at every moment until the next renewal is due iff one interval plus the grace is shorter
  than the lease; otherwise it refuses, before the renewal is due, and whatever is renewed
  after that, it never passes again.
\<close>

lemma guard_between_renewals:
  assumes "validate_policy p = Inr ()"
  shows "if renew_interval p + renew_grace p < ttl p
    then \<forall>now. r \<le> now \<longrightarrow> now \<le> r + renew_interval p \<longrightarrow> guard_check now (guard_at p l r) = (guard_at p l r, Inr ())
    else \<exists>g e. guard_check (r + renew_interval p) (guard_at p l r) = (g, Inl e) \<and>
      (\<forall>now l'. guard_check now (guard_renewed l' g) = (guard_renewed l' g, Inl e))"
proof (cases "renew_interval p + renew_grace p < ttl p")
  case False
  then show ?thesis by (auto simp: guard_check_at Let_def guard_lost)
qed (auto simp: guard_check_at)

end
