(* ===== verification/MemoryBackend.thy ===== *)
theory MemoryBackend
  imports Leases StateModel
begin

text \<open>
  The backend interface (\<open>state/backend.py\<close>) and the in-process backend (\<open>state/memory.py\<close>).
  A backend is a value; an operation returns the backend after it and its result, and a raise
  is an \<open>Inl\<close> with the backend as it is left. The clock is the argument \<open>now\<close>.
\<close>

definition merge_outputs :: "props \<Rightarrow> props \<Rightarrow> string list \<Rightarrow> props" where
  "merge_outputs current outputs remove =
     fold (\<lambda>(k, v) m. AList.update k v m) outputs (filter (\<lambda>kv. fst kv \<notin> set remove) current)"

record memory =
  mnodes :: state_graph
  moutputs :: props
  mserial :: nat
  mholds :: "(node_id \<times> lease) list"
  mbound :: "lease option"
  mfence :: int

definition new_memory :: memory where
  "new_memory = \<lparr>mnodes = [], moutputs = [], mserial = 0, mholds = [], mbound = None, mfence = 0\<rparr>"

definition mem_check :: "time \<Rightarrow> node_id list \<Rightarrow> memory \<Rightarrow> (aerror, unit) result" where
  "mem_check now touched b = (case fence_violation (mbound b) (mholds b) now touched of Some e \<Rightarrow> Inl e | None \<Rightarrow> Inr ())"

definition mem_load :: "memory \<Rightarrow> state_graph" where
  "mem_load b = mnodes b"

definition mem_set_outputs :: "props \<Rightarrow> string list \<Rightarrow> memory \<Rightarrow> memory" where
  "mem_set_outputs outputs remove b = b\<lparr>moutputs := merge_outputs (moutputs b) outputs remove\<rparr>"

definition mem_store :: "state_node \<Rightarrow> memory \<Rightarrow> memory" where
  "mem_store n b = b\<lparr>mnodes := AList.update (sid n) n (mnodes b), mserial := mserial b + 1\<rparr>"

definition mem_drop :: "node_id \<Rightarrow> memory \<Rightarrow> memory" where
  "mem_drop i b = (if i \<in> fst ` set (mnodes b) then b\<lparr>mnodes := AList.delete i (mnodes b), mserial := mserial b + 1\<rparr> else b)"

text \<open>The operations that write: check first, then change.\<close>

definition checked :: "time \<Rightarrow> node_id list \<Rightarrow> (memory \<Rightarrow> memory) \<Rightarrow> memory \<Rightarrow> memory \<times> (aerror, unit) result" where
  "checked now touched f b = (case mem_check now touched b of Inl e \<Rightarrow> (b, Inl e) | Inr _ \<Rightarrow> (f b, Inr ()))"

definition mem_put :: "time \<Rightarrow> state_node \<Rightarrow> memory \<Rightarrow> memory \<times> (aerror, unit) result" where
  "mem_put now n = checked now [sid n] (mem_store n)"

definition mem_put_many :: "time \<Rightarrow> state_node list \<Rightarrow> memory \<Rightarrow> memory \<times> (aerror, unit) result" where
  "mem_put_many now ns = checked now (map sid ns) (fold mem_store ns)"

definition mem_replace_many :: "time \<Rightarrow> node_id list \<Rightarrow> state_node list \<Rightarrow> memory \<Rightarrow> memory \<times> (aerror, unit) result" where
  "mem_replace_many now is ns = checked now (is @ map sid ns) (\<lambda>b. fold mem_store ns (fold mem_drop is b))"

definition mem_delete :: "time \<Rightarrow> node_id \<Rightarrow> memory \<Rightarrow> memory \<times> (aerror, unit) result" where
  "mem_delete now i = checked now [i] (mem_drop i)"

definition minted_lease :: "string \<Rightarrow> time \<Rightarrow> node_id list \<Rightarrow> int \<Rightarrow> lease" where
  "minted_lease owner expires scope fence = \<lparr>lowner = owner, expires_at = expires, lscope = scope, lfence = fence\<rparr>"

definition mem_acquire_lock :: "time \<Rightarrow> string \<Rightarrow> time \<Rightarrow> node_id list \<Rightarrow> memory \<Rightarrow> memory \<times> (aerror, lease) result" where
  "mem_acquire_lock now owner ttl_seconds scope b =
     (case scope_conflict (mholds b) owner now scope of
        Some e \<Rightarrow> (b, Inl e)
      | None \<Rightarrow>
          (let l = minted_lease owner (now + ttl_seconds) scope (mfence b + 1)
           in (b\<lparr>mfence := mfence b + 1, mholds := fold (\<lambda>i. AList.update i l) scope (mholds b)\<rparr>, Inr l)))"

text \<open>\<open>renew_lock\<close> of the base class acquires again.\<close>

definition mem_renew_lock :: "time \<Rightarrow> string \<Rightarrow> time \<Rightarrow> node_id list \<Rightarrow> memory \<Rightarrow> memory \<times> (aerror, lease) result" where
  "mem_renew_lock = mem_acquire_lock"

definition mem_release_lock :: "string \<Rightarrow> memory \<Rightarrow> memory" where
  "mem_release_lock owner b = b\<lparr>mholds := filter (\<lambda>(i, l). lowner l \<noteq> owner) (mholds b)\<rparr>"

definition mem_force_unlock :: "node_id list \<Rightarrow> memory \<Rightarrow> memory \<times> nat" where
  "mem_force_unlock is b =
     (let broken = filter (\<lambda>i. i \<in> fst ` set (mholds b)) is
      in (b\<lparr>mholds := filter (\<lambda>(i, l). i \<notin> set broken) (mholds b)\<rparr>, length broken))"

definition mem_bind_lease :: "lease option \<Rightarrow> memory \<Rightarrow> memory" where
  "mem_bind_lease l b = b\<lparr>mbound := l\<rparr>"

text \<open>
  What a caller of the interface may rely on: a write is refused and changes nothing, or it is
  seen by the next load and touches no other row.
\<close>

locale state_store =
  fixes put :: "time \<Rightarrow> state_node \<Rightarrow> 'b \<Rightarrow> 'b \<times> (aerror, unit) result"
    and del :: "time \<Rightarrow> node_id \<Rightarrow> 'b \<Rightarrow> 'b \<times> (aerror, unit) result"
    and row :: "'b \<Rightarrow> node_id \<Rightarrow> state_node option"
  assumes put_ok: "put now n b = (b', Inr ()) \<Longrightarrow> row b' = (row b)(sid n \<mapsto> n)"
    and put_refused: "put now n b = (b', Inl e) \<Longrightarrow> b' = b"
    and del_ok: "del now i b = (b', Inr ()) \<Longrightarrow> row b' = (row b)(i := None)"
    and del_refused: "del now i b = (b', Inl e) \<Longrightarrow> b' = b"
begin

text \<open>The default \<open>put_many\<close> and \<open>replace_many\<close> of the base class: loops that stop at a refusal.\<close>

fun put_loop :: "time \<Rightarrow> state_node list \<Rightarrow> 'b \<Rightarrow> 'b \<times> (aerror, unit) result" where
  "put_loop now [] b = (b, Inr ())"
| "put_loop now (n # ns) b = (case put now n b of (b', Inr _) \<Rightarrow> put_loop now ns b' | (b', Inl e) \<Rightarrow> (b', Inl e))"

fun del_loop :: "time \<Rightarrow> node_id list \<Rightarrow> 'b \<Rightarrow> 'b \<times> (aerror, unit) result" where
  "del_loop now [] b = (b, Inr ())"
| "del_loop now (i # is) b = (case del now i b of (b', Inr _) \<Rightarrow> del_loop now is b' | (b', Inl e) \<Rightarrow> (b', Inl e))"

lemma put_loop_ok: "put_loop now ns b = (b', Inr ()) \<Longrightarrow> row b' = row b ++ map_of (rev (map (\<lambda>n. (sid n, n)) ns))"
proof (induction ns arbitrary: b)
  case (Cons n ns)
  obtain c r where c: "put now n b = (c, r)" by (cases "put now n b")
  with Cons.prems obtain u where r: "r = Inr u" "put_loop now ns c = (b', Inr ())" by (cases r) auto
  then have "row c = (row b)(sid n \<mapsto> n)" using c put_ok by simp
  then show ?case using Cons.IH [OF r(2)] by (auto simp: map_add_def fun_eq_iff split: option.splits)
qed simp

lemma del_loop_ok: "del_loop now is b = (b', Inr ()) \<Longrightarrow> row b' = (\<lambda>i. if i \<in> set is then None else row b i)"
proof (induction "is" arbitrary: b)
  case (Cons i "is")
  obtain c r where c: "del now i b = (c, r)" by (cases "del now i b")
  with Cons.prems obtain u where r: "r = Inr u" "del_loop now is c = (b', Inr ())" by (cases r) auto
  then have "row c = (row b)(i := None)" using c del_ok by simp
  then show ?case using Cons.IH [OF r(2)] by auto
qed simp

text \<open>A refused loop may stop half-way, but every row it leaves is an old one or a new one.\<close>

lemma put_loop_refused:
  "put_loop now ns b = (b', Inl e) \<Longrightarrow> row b' i = row b i \<or> (\<exists>n \<in> set ns. sid n = i \<and> row b' i = Some n)"
proof (induction ns arbitrary: b)
  case (Cons n ns)
  obtain c r where c: "put now n b = (c, r)" by (cases "put now n b")
  show ?case
  proof (cases r)
    case (Inl e')
    then have "put now n b = (b', Inl e)" using c Cons.prems by auto
    then show ?thesis using put_refused by blast
  next
    case (Inr u)
    then have "put_loop now ns c = (b', Inl e)" "row c = (row b)(sid n \<mapsto> n)" using c Cons.prems put_ok by auto
    then show ?thesis using Cons.IH [of c] by (auto split: if_splits)
  qed
qed simp

end

definition mem_row :: "memory \<Rightarrow> node_id \<Rightarrow> state_node option" where
  "mem_row b = map_of (mem_load b)"

lemma mem_row_store: "mem_row (mem_store n b) = (mem_row b)(sid n \<mapsto> n)"
  by (simp add: mem_row_def mem_load_def mem_store_def update_conv')

lemma mem_row_drop: "mem_row (mem_drop i b) = (mem_row b)(i := None)"
proof (cases "i \<in> fst ` set (mnodes b)")
  case True
  then show ?thesis by (simp add: mem_row_def mem_load_def mem_drop_def delete_conv')
next
  case False
  then have "map_of (mnodes b) i = None" by (simp add: map_of_eq_None_iff)
  then show ?thesis using False by (auto simp: mem_row_def mem_load_def mem_drop_def fun_eq_iff)
qed

lemma checked_cases:
  "checked now touched f b = (b', Inr ()) \<longleftrightarrow> mem_check now touched b = Inr () \<and> b' = f b"
  "checked now touched f b = (b', Inl e) \<longleftrightarrow> mem_check now touched b = Inl e \<and> b' = b"
  by (auto simp: checked_def split: sum.splits)

interpretation mem: state_store mem_put mem_delete mem_row
  by unfold_locales (auto simp: mem_put_def mem_delete_def checked_cases mem_row_store mem_row_drop)

lemma mem_row_fold_store: "mem_row (fold mem_store ns b) = mem_row b ++ map_of (rev (map (\<lambda>n. (sid n, n)) ns))"
  by (induction ns arbitrary: b) (auto simp: mem_row_store map_add_def fun_eq_iff split: option.splits)

lemma mem_row_fold_drop: "mem_row (fold mem_drop is b) = (\<lambda>i. if i \<in> set is then None else mem_row b i)"
  by (induction "is" arbitrary: b) (auto simp: mem_row_drop)

lemma fold_store_same [simp]:
  "mbound (fold mem_store ns b) = mbound b" "mholds (fold mem_store ns b) = mholds b"
  "mbound (fold mem_drop is b) = mbound b" "mholds (fold mem_drop is b) = mholds b"
proof -
  have "mbound (fold mem_store ns b) = mbound b \<and> mholds (fold mem_store ns b) = mholds b" for b
    by (induction ns arbitrary: b) (simp_all add: mem_store_def)
  moreover have "mbound (fold mem_drop is b) = mbound b \<and> mholds (fold mem_drop is b) = mholds b" for b
    by (induction "is" arbitrary: b) (simp_all add: mem_drop_def)
  ultimately show "mbound (fold mem_store ns b) = mbound b" "mholds (fold mem_store ns b) = mholds b"
    "mbound (fold mem_drop is b) = mbound b" "mholds (fold mem_drop is b) = mholds b" by simp_all
qed

subsection \<open>Batches\<close>

definition may_write :: "time \<Rightarrow> memory \<Rightarrow> node_id \<Rightarrow> bool" where
  "may_write now b i = (case mbound b of None \<Rightarrow> True
     | Some l \<Rightarrow> (case map_of (mholds b) i of None \<Rightarrow> i \<in> set (lscope l)
         | Some cur \<Rightarrow> lowner cur = lowner l \<and> lfence cur \<le> lfence l \<and> now < expires_at cur))"

lemma mem_check_ok: "mem_check now touched b = Inr () \<longleftrightarrow> (\<forall>i \<in> set touched. may_write now b i)"
proof (cases "mbound b")
  case None
  then show ?thesis by (simp add: mem_check_def may_write_def fence_violation_def)
next
  case (Some l)
  have "mem_check now touched b = Inr () \<longleftrightarrow> fence_violation (Some l) (mholds b) now touched = None"
    by (simp add: mem_check_def Some split: option.splits)
  then show ?thesis unfolding fence_violation_None by (simp add: may_write_def Some)
qed

text \<open>
  A batch is all or nothing. \<open>replace_many\<close> writes iff the bound lease may write every id
  it deletes or stores; refused, it leaves the backend as it was; otherwise the deleted ids are
  gone, the stored rows are there (the last of an id wins), every other row is untouched, and
  the rows are those the one-by-one loops of the interface would leave.
\<close>

lemma replace_many_atomic:
  "if \<forall>i \<in> set is \<union> sid ` set ns. may_write now b i then
     \<exists>b'. mem_replace_many now is ns b = (b', Inr ()) \<and> mholds b' = mholds b \<and>
       mem_row b' = (\<lambda>i. if i \<in> set is then None else mem_row b i) ++ map_of (rev (map (\<lambda>n. (sid n, n)) ns)) \<and>
       (\<forall>b1 b2. mem.del_loop now is b = (b1, Inr ()) \<longrightarrow> mem.put_loop now ns b1 = (b2, Inr ()) \<longrightarrow> mem_row b2 = mem_row b')
   else \<exists>e. mem_replace_many now is ns b = (b, Inl e)"
proof (cases "\<forall>i \<in> set is \<union> sid ` set ns. may_write now b i")
  case True
  let ?b' = "fold mem_store ns (fold mem_drop is b)"
  have "mem_replace_many now is ns b = (?b', Inr ())"
    using True by (simp add: mem_replace_many_def checked_cases mem_check_ok ball_Un)
  moreover have rows: "mem_row ?b' = (\<lambda>i. if i \<in> set is then None else mem_row b i) ++ map_of (rev (map (\<lambda>n. (sid n, n)) ns))"
    by (simp only: mem_row_fold_store mem_row_fold_drop)
  moreover have "mem_row b2 = mem_row ?b'"
    if "mem.del_loop now is b = (b1, Inr ())" "mem.put_loop now ns b1 = (b2, Inr ())" for b1 b2
    using mem.put_loop_ok [OF that(2)] mem.del_loop_ok [OF that(1)] rows by simp
  ultimately show ?thesis using True by auto
next
  case False
  then have "mem_check now (is @ map sid ns) b \<noteq> Inr ()" by (auto simp: mem_check_ok)
  then obtain e where "mem_check now (is @ map sid ns) b = Inl e" by (cases "mem_check now (is @ map sid ns) b") auto
  then show ?thesis using False by (auto simp: mem_replace_many_def checked_cases)
qed

subsection \<open>Runs that share a store\<close>

datatype mem_op =
    Put state_node
  | ReplaceMany "node_id list" "state_node list"
  | Delete node_id
  | Acquire string time "node_id list"
  | Release string
  | ForceUnlock "node_id list"
  | Bind "lease option"
  | SetOutputs props "string list"
  | Tick time

fun mem_exec :: "mem_op \<Rightarrow> time \<times> memory \<Rightarrow> time \<times> memory" where
  "mem_exec (Put n) (now, b) = (now, fst (mem_put now n b))"
| "mem_exec (ReplaceMany is ns) (now, b) = (now, fst (mem_replace_many now is ns b))"
| "mem_exec (Delete i) (now, b) = (now, fst (mem_delete now i b))"
| "mem_exec (Acquire owner d scope) (now, b) = (now, fst (mem_acquire_lock now owner d scope b))"
| "mem_exec (Release owner) (now, b) = (now, mem_release_lock owner b)"
| "mem_exec (ForceUnlock is) (now, b) = (now, fst (mem_force_unlock is b))"
| "mem_exec (Bind l) (now, b) = (now, mem_bind_lease l b)"
| "mem_exec (SetOutputs outs remove) (now, b) = (now, mem_set_outputs outs remove b)"
| "mem_exec (Tick d) (now, b) = (now + d, b)"

text \<open>What the holder of \<open>i\<close> and the operator must not do before the deadline.\<close>

definition keeps_hold :: "string \<Rightarrow> node_id \<Rightarrow> time \<Rightarrow> mem_op \<Rightarrow> bool" where
  "keeps_hold owner i need op = (case op of
     Release o' \<Rightarrow> o' \<noteq> owner | ForceUnlock is \<Rightarrow> i \<notin> set is | Tick d \<Rightarrow> 0 \<le> d
   | Acquire o' d scope \<Rightarrow> (o' = owner \<longrightarrow> need \<le> d) | _ \<Rightarrow> True)"

text \<open>Operations of other runs only: no write is unfenced or made under the holder's lease.\<close>

definition others_only :: "string \<Rightarrow> mem_op \<Rightarrow> bool" where
  "others_only owner op = (case op of Bind l \<Rightarrow> (\<exists>l'. l = Some l' \<and> lowner l' \<noteq> owner) | _ \<Rightarrow> True)"

definition held_until :: "string \<Rightarrow> node_id \<Rightarrow> time \<Rightarrow> memory \<Rightarrow> bool" where
  "held_until owner i T b = (\<exists>l. map_of (mholds b) i = Some l \<and> lowner l = owner \<and> T \<le> expires_at l)"

lemma checked_fst: "fst (checked now touched f b) = (if mem_check now touched b = Inr () then f b else b)"
  by (simp add: checked_def split: sum.splits)

lemma map_of_fold_update_const: "map_of (fold (\<lambda>i. AList.update i l) is m) j = (if j \<in> set is then Some l else map_of m j)"
  by (induction "is" arbitrary: m) (auto simp: update_conv')

lemma map_of_filter_keep:
  "map_of m k = Some v \<Longrightarrow> P k v \<Longrightarrow> map_of (filter (\<lambda>(k, v). P k v) m) k = Some v"
  by (induction m) auto

lemma writes_keep_holds [simp]:
  "mholds (fst (mem_put now n b)) = mholds b" "mholds (fst (mem_delete now i b)) = mholds b"
  "mholds (fst (mem_replace_many now is ns b)) = mholds b" "mholds (mem_bind_lease l b) = mholds b"
  "mholds (mem_set_outputs os rs b) = mholds b"
  by (simp_all add: mem_put_def mem_delete_def mem_replace_many_def checked_fst mem_store_def mem_drop_def
      mem_bind_lease_def mem_set_outputs_def)

lemma exec_held:
  assumes h: "held_until owner i T b" and k: "keeps_hold owner i (T - now0) op" and t: "now0 \<le> now" "now < T"
  shows "held_until owner i T (snd (mem_exec op (now, b)))"
proof -
  obtain l where l: "map_of (mholds b) i = Some l" "lowner l = owner" "T \<le> expires_at l"
    using h by (auto simp: held_until_def)
  show ?thesis
  proof (cases op)
    case (Acquire o' d scope)
    show ?thesis
    proof (cases "scope_conflict (mholds b) o' now scope")
      case None
      then have "i \<in> set scope \<longrightarrow> o' = owner"
        using l t(2) unfolding scope_conflict_None by (auto simp: blocks_def)
      then show ?thesis using Acquire None l k t(1)
        by (auto simp: held_until_def mem_acquire_lock_def Let_def map_of_fold_update_const keeps_hold_def minted_lease_def)
    next
      case (Some e)
      then show ?thesis using h Acquire by (simp add: mem_acquire_lock_def)
    qed
  next
    case (Release o')
    then have "map_of (filter (\<lambda>(i, l). lowner l \<noteq> o') (mholds b)) i = Some l"
      using l k by (intro map_of_filter_keep) (auto simp: keeps_hold_def)
    then show ?thesis using Release l by (auto simp: held_until_def mem_release_lock_def)
  next
    case (ForceUnlock "is")
    then have "map_of (filter (\<lambda>(j, l). j \<notin> set (filter (\<lambda>i. i \<in> fst ` set (mholds b)) is)) (mholds b)) i = Some l"
      using l k by (intro map_of_filter_keep) (auto simp: keeps_hold_def)
    then show ?thesis using ForceUnlock l by (auto simp: held_until_def mem_force_unlock_def Let_def)
  qed (use h in \<open>simp_all add: held_until_def\<close>)
qed

definition fenced_out :: "string \<Rightarrow> memory \<Rightarrow> bool" where
  "fenced_out owner b = (\<exists>l. mbound b = Some l \<and> lowner l \<noteq> owner)"

lemma exec_fenced:
  assumes "fenced_out owner b" and "others_only owner op"
  shows "fenced_out owner (snd (mem_exec op (now, b)))"
  using assms
  by (cases op) (auto simp: fenced_out_def others_only_def mem_put_def mem_delete_def mem_replace_many_def checked_fst
      mem_store_def mem_drop_def mem_acquire_lock_def mem_release_lock_def mem_force_unlock_def Let_def
      mem_bind_lease_def mem_set_outputs_def split: option.splits)

lemma exec_row_kept:
  assumes "held_until owner i T b" and "fenced_out owner b"
  shows "mem_row (snd (mem_exec op (now, b))) i = mem_row b i"
proof -
  have no: "\<not> may_write now b i" using assms by (auto simp: may_write_def held_until_def fenced_out_def)
  then have "mem_check now touched b = Inr () \<Longrightarrow> i \<notin> set touched" for touched by (auto simp: mem_check_ok)
  note out = this
  show ?thesis
  proof (cases op)
    case (Put n)
    then show ?thesis using out [of "[sid n]"] by (auto simp: mem_put_def checked_fst mem_row_store)
  next
    case (Delete j)
    then show ?thesis using out [of "[j]"] by (auto simp: mem_delete_def checked_fst mem_row_drop)
  next
    case (ReplaceMany "is" ns)
    have "i \<notin> sid ` set ns \<Longrightarrow> map_of (rev (map (\<lambda>n. (sid n, n)) ns)) i = None"
      by (auto simp: map_of_eq_None_iff)
    then show ?thesis using ReplaceMany out [of "is @ map sid ns"]
      by (auto simp: mem_replace_many_def checked_fst mem_row_fold_store mem_row_fold_drop map_add_def)
  qed (auto simp: mem_row_def mem_load_def mem_acquire_lock_def mem_release_lock_def mem_force_unlock_def Let_def
      mem_bind_lease_def mem_set_outputs_def split: option.splits)
qed

lemma exec_time: "keeps_hold owner i need op \<Longrightarrow> now \<le> fst (mem_exec op (now, b))"
  by (cases op) (auto simp: keeps_hold_def)

lemma exec_time_le:
  "list_all (keeps_hold owner i need) ops \<Longrightarrow> fst st \<le> fst (fold mem_exec ops st)"
proof (induction ops arbitrary: st)
  case (Cons op ops)
  have "fst st \<le> fst (mem_exec op st)" using exec_time [of owner i need op "fst st" "snd st"] Cons.prems by simp
  also have "\<dots> \<le> fst (fold mem_exec ops (mem_exec op st))" using Cons by simp
  finally show ?case by simp
qed simp

lemma exec_all:
  assumes "list_all (keeps_hold owner i (T - now0)) ops" and "now0 \<le> fst st" and "fst (fold mem_exec ops st) < T"
    and "held_until owner i T (snd st)"
  shows "held_until owner i T (snd (fold mem_exec ops st)) \<and>
    (fenced_out owner (snd st) \<longrightarrow> list_all (others_only owner) ops \<longrightarrow> mem_row (snd (fold mem_exec ops st)) i = mem_row (snd st) i)"
  using assms
proof (induction ops arbitrary: st)
  case (Cons op ops)
  let ?st = "mem_exec op st"
  have k: "keeps_hold owner i (T - now0) op" "list_all (keeps_hold owner i (T - now0)) ops" using Cons.prems(1) by simp_all
  have t1: "fst st \<le> fst ?st" using exec_time [OF k(1), of "fst st" "snd st"] by simp
  have t2: "fst ?st < T" using exec_time_le [OF k(2), of ?st] Cons.prems(3) by simp
  have h: "held_until owner i T (snd ?st)"
    using exec_held [OF Cons.prems(4) k(1) Cons.prems(2)] t1 t2 by simp
  from Cons.IH [OF k(2) _ _ h] Cons.prems(2,3) t1
  have IH: "held_until owner i T (snd (fold mem_exec ops ?st))"
    "fenced_out owner (snd ?st) \<longrightarrow> list_all (others_only owner) ops \<longrightarrow> mem_row (snd (fold mem_exec ops ?st)) i = mem_row (snd ?st) i"
    by simp_all
  show ?case
    using IH exec_fenced [of owner "snd st" op "fst st"] exec_row_kept [OF Cons.prems(4), of op "fst st"] by simp
qed simp

text \<open>
  C23: the lock excludes. Once an owner holds a node, then until the deadline, whatever the
  runs sharing the store do in whatever order (writes, batches, acquisitions, releases,
  rebinding), as long as the holder neither releases nor shortens its lease and nobody breaks
  the lock by force, the holder still holds the node; and if only other runs' leases were bound
  meanwhile, the node's row has not changed.
\<close>

theorem lock_excludes:
  assumes "mem_acquire_lock now owner d scope b = (b', Inr l)" and "i \<in> set scope"
    and "list_all (keeps_hold owner i d) ops" and "fst (fold mem_exec ops (now, b')) < now + d"
  shows "held_until owner i (now + d) (snd (fold mem_exec ops (now, b'))) \<and>
    (fenced_out owner b' \<longrightarrow> list_all (others_only owner) ops \<longrightarrow> mem_row (snd (fold mem_exec ops (now, b'))) i = mem_row b' i)"
proof -
  have "held_until owner i (now + d) b'"
    using assms(1,2) by (auto simp: mem_acquire_lock_def Let_def held_until_def map_of_fold_update_const minted_lease_def split: option.splits)
  then show ?thesis using exec_all [of owner i "now + d" now ops "(now, b')"] assms(3,4) by simp
qed

definition other_lease :: lease where
  "other_lease = minted_lease ''B'' 100 [''n''] 0"

definition other_ops :: "mem_op list" where
  "other_ops = [Bind (Some other_lease), Tick 3, Acquire ''B'' 5 [''n''], Delete ''n'', Release ''B'']"

theorem lock_excludes_witness:
  "held_until ''A'' ''n'' (0 + 10) (snd (fold mem_exec other_ops (0, fst (mem_acquire_lock 0 ''A'' 10 [''n''] new_memory))))"
proof -
  let ?r = "mem_acquire_lock 0 ''A'' 10 [''n''] new_memory"
  have a: "?r = (fst ?r, Inr (minted_lease ''A'' 10 [''n''] 1))"
    by (simp add: mem_acquire_lock_def new_memory_def scope_conflict_def sorted_set_def Let_def minted_lease_def)
  have k: "list_all (keeps_hold ''A'' ''n'' 10) other_ops" by (simp add: other_ops_def keeps_hold_def)
  have t: "fst (fold mem_exec other_ops (0, fst ?r)) < 0 + 10" by (simp add: other_ops_def)
  show ?thesis using lock_excludes [OF a, of "''n''" other_ops] k t by simp
qed

text \<open>
  A run that lost its lease can write again. A takes the lock for ten seconds and stalls;
  B takes it over, deletes the row A was about to write, and releases. The store no longer
  records any holder, so A's write, under its expired lease, is accepted, and the row is back.
\<close>

lemma stale_lease_writes_after_release:
  fixes n
  assumes "sid n = ''n''"
  defines "la \<equiv> minted_lease ''A'' 10 [''n''] 1" and "lb \<equiv> minted_lease ''B'' 30 [''n''] 2"
  shows "\<exists>st. st = fold mem_exec [Acquire ''A'' 10 [''n''], Bind (Some la), Put n, Tick 20, Acquire ''B'' 10 [''n''],
        Bind (Some lb), Delete ''n'', Release ''B'', Bind (Some la)] (0, new_memory) \<and>
      expires_at la < fst st \<and> mem_row (snd st) ''n'' = None \<and>
      (\<exists>b. mem_put (fst st) n (snd st) = (b, Inr ()) \<and> mem_row b ''n'' = Some n)"
  using assms(1)
  by (simp add: la_def lb_def minted_lease_def mem_acquire_lock_def new_memory_def scope_conflict_def sorted_set_def Let_def
      mem_bind_lease_def mem_put_def mem_delete_def checked_def mem_check_def fence_violation_def fence_one_def
      mem_store_def mem_drop_def mem_release_lock_def blocks_def mem_row_def mem_load_def)

end
