(* ===== verification/StateConfig.thy ===== *)
theory StateConfig
  imports Leases
begin

text \<open>
  The \<open>[state]\<close> table (\<open>state/factory.py\<close>): which keys a backend requires, and the lease
  timings a project gets. An environment variable is the argument \<open>environ\<close>; times are
  rational seconds, as in the lease model. Building the backend objects is left out.
\<close>

record state_config =
  sc_backend :: string
  sc_bucket :: "string option"
  sc_key :: "string option"
  sc_lock_table :: "string option"
  sc_kms_key_id :: "string option"
  sc_region :: "string option"
  sc_profile :: "string option"
  sc_endpoint :: "string option"
  sc_dsn :: "string option"
  sc_schema :: "string option"
  sc_lock_ttl :: "time option"
  sc_lock_renew_interval :: "time option"
  sc_node_timeout :: "time option"
  sc_lock_skew_margin :: "time option"
  sc_journal_table :: "string option"
  sc_write_concurrency :: "int option"

definition default_state_config :: state_config where
  "default_state_config = \<lparr>sc_backend = ''local'', sc_bucket = None, sc_key = None, sc_lock_table = None,
     sc_kms_key_id = None, sc_region = None, sc_profile = None, sc_endpoint = None, sc_dsn = None, sc_schema = None,
     sc_lock_ttl = None, sc_lock_renew_interval = None, sc_node_timeout = None, sc_lock_skew_margin = None,
     sc_journal_table = None, sc_write_concurrency = None\<rparr>"

definition BACKENDS :: "string list" where
  "BACKENDS = [''local'', ''s3'', ''postgres'']"

definition REQUIRED_KEYS :: "(string \<times> string list) list" where
  "REQUIRED_KEYS = [(''local'', []), (''s3'', [''bucket'', ''key'', ''lock_table'']), (''postgres'', [])]"

text \<open>\<open>getattr\<close> on the string keys; a falsy value is a missing one.\<close>

definition config_str :: "state_config \<Rightarrow> string \<Rightarrow> string option" where
  "config_str c k = (if k = ''bucket'' then sc_bucket c else if k = ''key'' then sc_key c
     else if k = ''lock_table'' then sc_lock_table c else if k = ''kms_key_id'' then sc_kms_key_id c
     else if k = ''region'' then sc_region c else if k = ''profile'' then sc_profile c
     else if k = ''endpoint'' then sc_endpoint c else if k = ''dsn'' then sc_dsn c
     else if k = ''schema'' then sc_schema c else if k = ''journal_table'' then sc_journal_table c
     else if k = ''backend'' then Some (sc_backend c) else None)"

definition falsy :: "string option \<Rightarrow> bool" where
  "falsy v = (v = None \<or> v = Some [])"

definition is_remote :: "state_config \<Rightarrow> bool" where
  "is_remote c = (sc_backend c \<noteq> ''local'')"

definition resolved_dsn :: "string option \<Rightarrow> state_config \<Rightarrow> string option" where
  "resolved_dsn environ c = (if falsy (sc_dsn c) then environ else sc_dsn c)"

definition validate_config :: "string option \<Rightarrow> state_config \<Rightarrow> (aerror, unit) result" where
  "validate_config environ c =
     (if sc_backend c \<notin> set BACKENDS then Inl (StateError ''unknown backend'' [sc_backend c])
      else (let missing = filter (\<lambda>k. falsy (config_str c k)) (dget REQUIRED_KEYS (sc_backend c) [])
            in if missing \<noteq> [] then Inl (StateError ''backend requires'' missing)
               else if sc_backend c = ''postgres'' \<and> falsy (resolved_dsn environ c) then Inl (StateError ''postgres requires a dsn'' [])
               else Inr ()))"

definition require_key :: "state_config \<Rightarrow> string \<Rightarrow> (aerror, string) result" where
  "require_key c k = (case config_str c k of Some v \<Rightarrow> Inr v | None \<Rightarrow> Inl (StateError ''is required'' [k]))"

definition config_lock_policy :: "state_config \<Rightarrow> (aerror, lock_policy) result" where
  "config_lock_policy c =
     (let t = (case sc_lock_ttl c of Some x \<Rightarrow> x | None \<Rightarrow> ttl DEFAULT_LOCK_POLICY);
          i = (case sc_lock_renew_interval c of Some x \<Rightarrow> x | None \<Rightarrow> t / 3);
          p = \<lparr>ttl = t, renew_interval = i, renew_grace = min (renew_grace DEFAULT_LOCK_POLICY) (t / 3)\<rparr>
      in rbind (validate_policy p) (\<lambda>_. Inr p))"

text \<open>
  A configuration that validates has every key its backend reads. After \<open>validate\<close> passes,
  the backend is one of the known ones, the keys \<open>make_state_backend\<close> requires of it are there
  and not empty, and a postgres backend has a connection string.
\<close>

lemma validated_config_is_complete:
  assumes "validate_config environ c = Inr ()"
  shows "sc_backend c \<in> set BACKENDS \<and>
    (sc_backend c = ''s3'' \<longrightarrow> (\<forall>k \<in> {''bucket'', ''key'', ''lock_table''}. \<exists>v. require_key c k = Inr v \<and> v \<noteq> [])) \<and>
    (sc_backend c = ''postgres'' \<longrightarrow> (\<exists>v. resolved_dsn environ c = Some v \<and> v \<noteq> []))"
proof -
  have b: "sc_backend c \<in> set BACKENDS" using assms by (simp add: validate_config_def split: if_split_asm)
  have m: "\<forall>k \<in> set (dget REQUIRED_KEYS (sc_backend c) []). \<not> falsy (config_str c k)"
    using assms b by (simp add: validate_config_def Let_def filter_empty_conv split: if_split_asm)
  have d: "sc_backend c = ''postgres'' \<longrightarrow> \<not> falsy (resolved_dsn environ c)"
    using assms b m by (simp add: validate_config_def Let_def filter_empty_conv split: if_split_asm)
  have some: "\<exists>v. x = Some v \<and> v \<noteq> []" if "\<not> falsy x" for x
    using that by (cases x) (simp_all add: falsy_def)
  have "\<exists>v. require_key c k = Inr v \<and> v \<noteq> []" if "\<not> falsy (config_str c k)" for k
    using some [OF that] by (auto simp: require_key_def)
  moreover have "sc_backend c = ''s3'' \<Longrightarrow> set (dget REQUIRED_KEYS (sc_backend c) []) = {''bucket'', ''key'', ''lock_table''}"
    by (simp add: dget_def REQUIRED_KEYS_def)
  ultimately show ?thesis using b m d some by metis
qed

text \<open>A lease no renewal interval is set for always leaves room for the grace.\<close>

lemma default_interval_leaves_room:
  assumes "sc_lock_renew_interval c = None" and "config_lock_policy c = Inr p"
  shows "renew_interval p + renew_grace p < ttl p"
  using assms by (auto simp: config_lock_policy_def Let_def rbind_Inr_iff validate_policy_def min_def DEFAULT_LOCK_POLICY_def
      field_simps split: if_splits option.splits)

text \<open>
  C27: which configured timings keep a lease usable between two renewals. Whatever is configured,
  the policy accepted lets every write through from one renewal until the next is due exactly when
  the interval and the grace together are shorter than the time to live. It always is so when no
  interval is configured; with one, every \<open>0 < i < t\<close> is accepted, whatever the grace, and where
  there is no room the writes of the last stretch before the next renewal are refused, and every
  later write too, however often the lease is renewed.
\<close>

theorem accepted_timings_refuse_writes:
  assumes "config_lock_policy c = Inr p"
  shows "((\<forall>now. r \<le> now \<and> now \<le> r + renew_interval p \<longrightarrow> guard_check now (guard_at p l r) = (guard_at p l r, Inr ())) \<longleftrightarrow>
      renew_interval p + renew_grace p < ttl p) \<and>
    (sc_lock_renew_interval c = None \<longrightarrow> renew_interval p + renew_grace p < ttl p) \<and>
    ((\<exists>q. config_lock_policy (c\<lparr>sc_lock_ttl := Some t, sc_lock_renew_interval := Some i\<rparr>) = Inr q) \<longleftrightarrow> 0 < i \<and> i < t) \<and>
    (\<forall>now. r + ttl p - renew_grace p \<le> now \<longrightarrow> (\<exists>e g. guard_check now (guard_at p l r) = (g, Inl e) \<and>
      (\<forall>later l'. guard_check later (guard_renewed l' g) = (guard_renewed l' g, Inl e))))"
proof (intro conjI)
  have v: "validate_policy p = Inr ()" using assms by (auto simp: config_lock_policy_def Let_def rbind_Inr_iff)
  then have pos: "0 < renew_interval p" by (simp add: validate_policy_def split: if_splits)
  show "(\<forall>now. r \<le> now \<and> now \<le> r + renew_interval p \<longrightarrow> guard_check now (guard_at p l r) = (guard_at p l r, Inr ())) \<longleftrightarrow>
      renew_interval p + renew_grace p < ttl p"
  proof (cases "renew_interval p + renew_grace p < ttl p")
    case True
    then show ?thesis using guard_between_renewals [OF v, where r = r and l = l] by simp
  next
    case False
    then have "guard_check (r + renew_interval p) (guard_at p l r) \<noteq> (guard_at p l r, Inr ())"
      by (simp add: guard_check_at Let_def)
    then show ?thesis using False pos by (auto intro!: exI [of _ "r + renew_interval p"])
  qed
  show "sc_lock_renew_interval c = None \<longrightarrow> renew_interval p + renew_grace p < ttl p"
    using default_interval_leaves_room [OF _ assms] by blast
  show "(\<exists>q. config_lock_policy (c\<lparr>sc_lock_ttl := Some t, sc_lock_renew_interval := Some i\<rparr>) = Inr q) \<longleftrightarrow> 0 < i \<and> i < t"
  proof -
    let ?q = "\<lparr>ttl = t, renew_interval = i, renew_grace = min (renew_grace DEFAULT_LOCK_POLICY) (t / 3)\<rparr>"
    have "min (renew_grace DEFAULT_LOCK_POLICY) (t / 3) < t" if "0 < t" using that by (simp add: min_less_iff_disj)
    then have "validate_policy ?q = Inr () \<longleftrightarrow> 0 < i \<and> i < t" by (auto simp: validate_policy_def)
    then show ?thesis by (simp add: config_lock_policy_def Let_def rbind_Inr_iff)
  qed
  show "\<forall>now. r + ttl p - renew_grace p \<le> now \<longrightarrow> (\<exists>e g. guard_check now (guard_at p l r) = (g, Inl e) \<and>
      (\<forall>later l'. guard_check later (guard_renewed l' g) = (guard_renewed l' g, Inl e)))"
    by (auto simp: guard_check_at Let_def guard_lost)
qed

text \<open>With \<open>lock_ttl = 60\<close> and \<open>lock_renew_interval = 45\<close> the guard refuses the writes from the fortieth second on.\<close>

theorem accepted_timings_refuse_writes_witness:
  "\<exists>p. config_lock_policy (default_state_config\<lparr>sc_lock_ttl := Some 60, sc_lock_renew_interval := Some 45\<rparr>) = Inr p \<and>
    42 < renew_interval p \<and> (\<forall>l. \<exists>e g. guard_check 42 (guard_at p l 0) = (g, Inl e))"
proof -
  let ?p = "\<lparr>ttl = 60, renew_interval = 45, renew_grace = 20\<rparr>"
  have p: "config_lock_policy (default_state_config\<lparr>sc_lock_ttl := Some 60, sc_lock_renew_interval := Some 45\<rparr>) = Inr ?p"
    by (simp add: config_lock_policy_def default_state_config_def DEFAULT_LOCK_POLICY_def validate_policy_def Let_def)
  have "\<exists>e g. guard_check 42 (guard_at ?p l 0) = (g, Inl e)" for l
    using conjunct2 [OF conjunct2 [OF conjunct2 [OF accepted_timings_refuse_writes [OF p, where r = 0 and l = l]]]]
    by (auto dest: spec [of _ 42])
  with p show ?thesis by auto
qed

end
