(* ===== verification/Secrets.thy ===== *)
theory Secrets
  imports Canonical
begin

text \<open>
  Secrets: the rotation digest (\<open>secrets/digest.py\<close>), the keyfile (\<open>secrets/_aesgcm.py\<close>),
  the per-install material (\<open>secrets/material.py\<close>) and the registry (\<open>secrets/registry.py\<close>).
  The record \<open>crypto\<close> holds the primitives of \<open>hashlib\<close>, \<open>cryptography\<close> and \<open>base64\<close>, and
  \<open>chance\<close> what one call meets by chance: the random bytes it draws, and what another
  process put at the keyfile's name between the check and the link. Byte strings are strings.
\<close>

record crypto =
  sha_hex :: "string \<Rightarrow> string"
  sha_raw :: "string \<Rightarrow> string"
  gcm_encrypt :: "string \<Rightarrow> string \<Rightarrow> string \<Rightarrow> string \<Rightarrow> string"
  gcm_decrypt :: "string \<Rightarrow> string \<Rightarrow> string \<Rightarrow> string \<Rightarrow> string option"
  b64encode :: "string \<Rightarrow> string"
  b64decode :: "string \<Rightarrow> string option"

text \<open>\<open>data.decode("utf-8")\<close>, for the code points below 256.\<close>

fun utf8_decode :: "string \<Rightarrow> (aerror, string) result" where
  "utf8_decode [] = Inr []"
| "utf8_decode (c # s) =
     (if (of_char c :: nat) < 128 then rbind (utf8_decode s) (\<lambda>t. Inr (c # t))
      else (case s of
          d # s' \<Rightarrow>
            if 194 \<le> (of_char c :: nat) \<and> (of_char c :: nat) \<le> 195 \<and> (of_char d :: nat) div 64 = 2
            then rbind (utf8_decode s') (\<lambda>t. Inr (char_of (((of_char c :: nat) - 192) * 64 + (of_char d :: nat) mod 64) # t))
            else Inl (PyValueError ''utf-8'')
        | [] \<Rightarrow> Inl (PyValueError ''utf-8'')))"

lemma utf8_decode_char: "utf8_decode (utf8_char c @ s) = rbind (utf8_decode s) (\<lambda>t. Inr (c # t))"
proof (cases "(of_char c :: nat) < 128")
  case False
  define q r where "q = (of_char c :: nat) div 64" and "r = (of_char c :: nat) mod 64"
  have c: "(of_char c :: nat) = q * 64 + r" by (simp add: q_def r_def)
  have r: "r < 64" by (simp add: r_def)
  moreover have "(of_char c :: nat) < 256" by simp
  ultimately have q: "q = 2 \<or> q = 3" using False unfolding c by linarith
  have code: "utf8_char c = [char_of (192 + q), char_of (128 + r)]"
    using False by (simp add: utf8_char_def Let_def q_def r_def)
  have whole: "char_of (q * 64 + r) = c" by (simp flip: c)
  have e: "128 + r = r + 2 * 64" by simp
  have d: "(128 + r) div 64 = 2" "(128 + r) mod 64 = r"
    using r unfolding e mod_mult_self1 by simp_all
  show ?thesis using q r whole by (auto simp: code d)
qed (simp add: utf8_char_def Let_def)

lemma utf8_decode_utf8 [simp]: "utf8_decode (utf8 s) = Inr s"
proof (induction s)
  case (Cons c s)
  then show ?case using utf8_decode_char [of c "utf8 s"] by (simp add: utf8_def)
qed (simp add: utf8_def)

subsection \<open>Digests and handles\<close>

definition FALLBACK_SALT :: string where "FALLBACK_SALT = ''atlantide/secret/v1''"

definition secret_digest :: "crypto \<Rightarrow> string \<Rightarrow> string \<Rightarrow> string \<Rightarrow> string" where
  "secret_digest c scope plaintext salt = sha_hex c (salt @ utf8 scope @ [CHR 0x00] @ utf8 plaintext)"

definition is_secret_ref_marker :: "pyval \<Rightarrow> bool" where
  "is_secret_ref_marker v = (case single_key_marker v SECRET_REF_KEY of Some (PDict _) \<Rightarrow> True | _ \<Rightarrow> False)"

text \<open>\<open>str(inner["name"])\<close>; a provider that is not a string is stored as it is, which no reader expects.\<close>

definition secret_ref_from_marker :: "pyenv \<Rightarrow> pyval \<Rightarrow> (aerror, string \<times> string option) result" where
  "secret_ref_from_marker env v = (case single_key_marker v SECRET_REF_KEY of
      Some (PDict b) \<Rightarrow> (case pd_get b ''name'' of
          None \<Rightarrow> Inl (KeyError ''name'')
        | Some n \<Rightarrow> Inr (py_str env n, Option.bind (pd_get b ''provider'') as_str))
    | _ \<Rightarrow> Inl (KeyError SECRET_REF_KEY))"

lemma secret_marker_roundtrip:
  "is_secret_ref_marker m \<and> secret_ref_from_marker env m = Inr (n, p)"
  if "canonical env (PSecretRef n p) = Inr m" for m
  using that
  by (auto simp: is_secret_ref_marker_def secret_ref_from_marker_def single_key_marker_def pd_get_pdict
      pdict_def pd_get_def opt_str_def as_str_def SECRET_REF_KEY_def split: option.splits)

subsection \<open>The keyfile\<close>

text \<open>What the keyfile's name holds: nothing, a link to nothing, or a file of a mode and its bytes.\<close>

datatype kfile = Absent | Dangling | Keyfile nat string

definition file_exists :: "kfile \<Rightarrow> bool" where
  "file_exists f = (case f of Keyfile _ _ \<Rightarrow> True | _ \<Rightarrow> False)"

definition OWNER_ONLY_MODE :: nat where "OWNER_ONLY_MODE = 384"
definition KEY_BYTES :: nat where "KEY_BYTES = 32"
definition NONCE_BYTES :: nat where "NONCE_BYTES = 12"

text \<open>\<open>mode & 0o077\<close>: any of the six low bits.\<close>

definition read_key :: "kfile \<Rightarrow> (aerror, string) result" where
  "read_key f = (case f of
      Keyfile mode bytes \<Rightarrow>
        if mode mod 64 \<noteq> 0 then Inl (SecretsError ''keyfile must not be readable by group or others'' [])
        else if length bytes \<noteq> KEY_BYTES then Inl (SecretsError ''keyfile has the wrong length'' [])
        else Inr bytes
    | _ \<Rightarrow> Inl (SecretsError ''no keyfile'' []))"

definition load_key :: "kfile \<Rightarrow> (aerror, string) result" where
  "load_key f = (if \<not> file_exists f then Inl (SecretsError ''no keyfile'' []) else read_key f)"

record chance =
  fresh_key :: string
  fresh_nonce :: string
  appeared :: kfile

text \<open>
  \<open>_publish_key\<close> links a complete owner-only file into place, or answers \<open>False\<close> and leaves
  what holds the name; \<open>load_or_create_key\<close> answers the key and the file left behind.
\<close>

definition publish_key :: "kfile \<Rightarrow> string \<Rightarrow> bool \<times> kfile" where
  "publish_key f key = (if f = Absent then (True, Keyfile OWNER_ONLY_MODE key) else (False, f))"

definition load_or_create_key :: "chance \<Rightarrow> kfile \<Rightarrow> (aerror, string) result \<times> kfile" where
  "load_or_create_key ch f =
     (if file_exists f then (read_key f, f)
      else (let (created, f') = publish_key (if f = Absent then appeared ch else f) (fresh_key ch)
            in if created then (Inr (fresh_key ch), f')
               else if file_exists f' then (read_key f', f')
               else (Inl (SecretsError ''keyfile exists but cannot be read'' []), f')))"

definition salt_from_key :: "crypto \<Rightarrow> string \<Rightarrow> string" where
  "salt_from_key c key = sha_raw c (''atlantide/secret-salt/v1'' @ key)"

definition encrypt :: "crypto \<Rightarrow> string \<Rightarrow> string \<Rightarrow> string \<Rightarrow> string \<Rightarrow> string" where
  "encrypt c nonce key data aad = nonce @ gcm_encrypt c key nonce data aad"

definition decrypt :: "crypto \<Rightarrow> string \<Rightarrow> string \<Rightarrow> string \<Rightarrow> (aerror, string) result" where
  "decrypt c key blob aad =
     (case gcm_decrypt c key (take NONCE_BYTES blob) (drop NONCE_BYTES blob) aad of
        Some data \<Rightarrow> Inr data
      | None \<Rightarrow> Inl (SecretsError ''failed to decrypt secrets store'' []))"

subsection \<open>Key material\<close>

record material =
  km_key :: "string option"
  km_file :: kfile
  km_may_create :: bool

definition key_bytes :: "chance \<Rightarrow> bool \<Rightarrow> material \<Rightarrow> (aerror, string) result \<times> material" where
  "key_bytes ch create m = (case km_key m of
      Some k \<Rightarrow> (Inr k, m)
    | None \<Rightarrow>
        (let (r, f) = (if create then load_or_create_key ch (km_file m) else (load_key (km_file m), km_file m))
         in case r of
              Inl e \<Rightarrow> (Inl e, m\<lparr>km_file := f\<rparr>)
            | Inr k \<Rightarrow> (Inr k, m\<lparr>km_file := f, km_key := Some k\<rparr>)))"

definition salt :: "crypto \<Rightarrow> chance \<Rightarrow> bool option \<Rightarrow> material \<Rightarrow> (aerror, string) result \<times> material" where
  "salt c ch create m =
     (let may_create = (case create of None \<Rightarrow> km_may_create m | Some b \<Rightarrow> b)
      in if km_key m = None \<and> \<not> may_create \<and> \<not> file_exists (km_file m)
         then (Inl (SecretsError ''no keyfile: state holds secret digests salted with the keyfile that wrote it'' []), m)
         else (let (r, m') = key_bytes ch may_create m in (rbind r (\<lambda>k. Inr (salt_from_key c k)), m')))"

definition SEALED_KEY :: string where "SEALED_KEY = ''$sealed''"
definition SEAL_V2_PREFIX :: string where "SEAL_V2_PREFIX = ''v2:''"
definition SEAL_V2_AAD :: string where "SEAL_V2_AAD = ''atlantide/sealed/v2''"

definition is_sealed_marker :: "pyval \<Rightarrow> bool" where
  "is_sealed_marker v = (Option.bind (single_key_marker v SEALED_KEY) as_str \<noteq> None)"

definition seal_material :: "crypto \<Rightarrow> chance \<Rightarrow> string \<Rightarrow> material \<Rightarrow> (aerror, pyval) result \<times> material" where
  "seal_material c ch v m =
     (let (r, m') = key_bytes ch True m
      in (rbind r (\<lambda>k. Inr (pdict [(SEALED_KEY,
            PStr (SEAL_V2_PREFIX @ b64encode c (encrypt c (fresh_nonce ch) k (utf8 v) SEAL_V2_AAD)))])), m'))"

definition unseal_material :: "crypto \<Rightarrow> chance \<Rightarrow> pyval \<Rightarrow> material \<Rightarrow> (aerror, string) result \<times> material" where
  "unseal_material c ch v m =
     (case Option.bind (single_key_marker v SEALED_KEY) as_str of
        None \<Rightarrow> (Inl (KeyError SEALED_KEY), m)
      | Some payload \<Rightarrow>
          if take (length SEAL_V2_PREFIX) payload \<noteq> SEAL_V2_PREFIX
          then (Inl (SecretsError ''legacy sealed value (unversioned, no AAD) is not supported'' []), m)
          else (case b64decode c (drop (length SEAL_V2_PREFIX) payload) of
              None \<Rightarrow> (Inl (SecretsError ''corrupt sealed value'' []), m)
            | Some blob \<Rightarrow>
                (let (r, m') = key_bytes ch False m
                 in (rbind r (\<lambda>k. rbind (decrypt c k blob SEAL_V2_AAD) utf8_decode), m'))))"

subsection \<open>The registry\<close>

text \<open>A provider is what its \<open>resolve\<close> answers to a secret's name.\<close>

record secrets_registry =
  sr_providers :: "(string \<times> (string \<Rightarrow> (aerror, string) result)) list"
  sr_default :: "string option"
  sr_material :: "material option"

definition new_registry :: "material option \<Rightarrow> secrets_registry" where
  "new_registry m = \<lparr>sr_providers = [], sr_default = None, sr_material = m\<rparr>"

definition register_secrets ::
  "string \<Rightarrow> (string \<Rightarrow> (aerror, string) result) \<Rightarrow> bool \<Rightarrow> secrets_registry \<Rightarrow> (aerror, secrets_registry) result" where
  "register_secrets name provider dflt r =
     (if name = [] then Inl (SecretsError ''secrets provider declares no name'' [])
      else if map_of (sr_providers r) name \<noteq> None then Inl (SecretsError ''duplicate secrets provider'' [name])
      else Inr (r\<lparr>sr_providers := AList.update name provider (sr_providers r),
                 sr_default := (if dflt \<or> sr_default r = None then Some name else sr_default r)\<rparr>))"

definition get_secrets :: "secrets_registry \<Rightarrow> string \<Rightarrow> (aerror, string \<Rightarrow> (aerror, string) result) result" where
  "get_secrets r name = (case map_of (sr_providers r) name of
     None \<Rightarrow> Inl (SecretsError ''unknown secrets provider'' [name]) | Some p \<Rightarrow> Inr p)"

text \<open>\<open>ref.provider or self._default\<close>: an empty provider name falls back as an absent one does.\<close>

definition resolve_secret :: "secrets_registry \<Rightarrow> string \<Rightarrow> string option \<Rightarrow> (aerror, string) result" where
  "resolve_secret r name provider =
     (case (if provider = None \<or> provider = Some [] then sr_default r else provider) of
        None \<Rightarrow> Inl (SecretsError ''no secrets provider registered'' [])
      | Some p \<Rightarrow> rbind (get_secrets r p) (\<lambda>f. f name))"

definition with_material ::
  "secrets_registry \<Rightarrow> 'a \<Rightarrow> (material \<Rightarrow> 'a \<times> material) \<Rightarrow> 'a \<times> secrets_registry" where
  "with_material r absent f = (case sr_material r of
      None \<Rightarrow> (absent, r)
    | Some m \<Rightarrow> (let (a, m') = f m in (a, r\<lparr>sr_material := Some m'\<rparr>)))"

definition digest_secret ::
  "crypto \<Rightarrow> chance \<Rightarrow> string \<Rightarrow> string \<Rightarrow> secrets_registry \<Rightarrow> (aerror, string) result \<times> secrets_registry" where
  "digest_secret c ch scope plaintext r =
     with_material r (Inr (secret_digest c scope plaintext FALLBACK_SALT)) (\<lambda>m.
       let (s, m') = salt c ch None m in (rbind s (\<lambda>x. Inr (secret_digest c scope plaintext x)), m'))"

definition digest_matches ::
  "crypto \<Rightarrow> chance \<Rightarrow> string \<Rightarrow> string \<Rightarrow> string option \<Rightarrow> secrets_registry
     \<Rightarrow> (aerror, bool) result \<times> secrets_registry" where
  "digest_matches c ch scope plaintext stored r = (case stored of
      None \<Rightarrow> (Inr False, r)
    | Some d \<Rightarrow> with_material r (Inr (d = secret_digest c scope plaintext FALLBACK_SALT)) (\<lambda>m.
        let (s, m') = salt c ch (Some False) m in (rbind s (\<lambda>x. Inr (d = secret_digest c scope plaintext x)), m')))"

definition seal_secret :: "crypto \<Rightarrow> chance \<Rightarrow> string \<Rightarrow> secrets_registry \<Rightarrow> (aerror, pyval) result \<times> secrets_registry" where
  "seal_secret c ch v r = with_material r (Inr (PStr v)) (seal_material c ch v)"

definition unseal_secret :: "crypto \<Rightarrow> chance \<Rightarrow> pyval \<Rightarrow> secrets_registry \<Rightarrow> (aerror, pyval) result \<times> secrets_registry" where
  "unseal_secret c ch v r =
     (if is_sealed_marker v then with_material r (Inr v) (\<lambda>m.
        let (s, m') = unseal_material c ch v m in (rbind s (\<lambda>x. Inr (PStr x)), m'))
      else (Inr v, r))"

text \<open>
  What a run sees of the registry once its key is settled: what each call answers. The
  reconciler's definitions take this, so that they do not thread the key cache.
\<close>

record secrets_api =
  api_resolve :: "string \<Rightarrow> string option \<Rightarrow> (aerror, string) result"
  api_digest :: "string \<Rightarrow> string \<Rightarrow> (aerror, string) result"
  api_seal :: "string \<Rightarrow> (aerror, pyval) result"
  api_unseal :: "pyval \<Rightarrow> (aerror, pyval) result"

definition api_of :: "crypto \<Rightarrow> (string \<Rightarrow> chance) \<Rightarrow> secrets_registry \<Rightarrow> secrets_api" where
  "api_of c ch r = \<lparr>api_resolve = resolve_secret r, api_digest = (\<lambda>s p. fst (digest_secret c (ch p) s p r)),
     api_seal = (\<lambda>v. fst (seal_secret c (ch v) v r)), api_unseal = (\<lambda>v. fst (unseal_secret c (ch []) v r))\<rparr>"

subsection \<open>What the calls keep\<close>

definition material_file :: "secrets_registry \<Rightarrow> kfile option" where
  "material_file r = map_option km_file (sr_material r)"

lemma key_bytes_Some [simp]: "km_key m = Some k \<Longrightarrow> key_bytes ch b m = (Inr k, m)"
  by (simp add: key_bytes_def)

lemma key_bytes_cached: "fst (key_bytes ch b m) = Inr k \<Longrightarrow> km_key (snd (key_bytes ch b m)) = Some k"
  by (cases b) (auto simp: key_bytes_def Let_def split: option.splits sum.splits prod.splits)

lemma key_bytes_no_create [simp]: "km_file (snd (key_bytes ch False m)) = km_file m"
  by (auto simp: key_bytes_def Let_def split: option.split sum.split)

lemma salt_no_create:
  assumes "case create of None \<Rightarrow> \<not> km_may_create m | Some b \<Rightarrow> \<not> b"
  shows "km_file (snd (salt c ch create m)) = km_file m"
proof -
  have "(case create of None \<Rightarrow> km_may_create m | Some b \<Rightarrow> b) = False"
    using assms by (cases create) auto
  then show ?thesis by (simp add: salt_def split_beta)
qed

lemma unseal_no_create [simp]: "km_file (snd (unseal_material c ch v m)) = km_file m"
  by (simp add: unseal_material_def split_beta split: option.split)

lemma with_material_file:
  assumes "\<And>m. sr_material r = Some m \<Longrightarrow> km_file (snd (f m)) = km_file m"
  shows "material_file (snd (with_material r a f)) = material_file r"
  using assms by (simp add: with_material_def material_file_def split_beta split: option.split)

text \<open>
  A keyfile is created only by sealing or by an armed digest: a comparison, an unsealing, and
  a digest of a run that is not armed leave the file as it was.
\<close>

lemma read_only_calls_keep_file:
  "material_file (snd (digest_matches c ch scope p stored r)) = material_file r"
  "material_file (snd (unseal_secret c ch v r)) = material_file r"
  "(\<And>m. sr_material r = Some m \<Longrightarrow> \<not> km_may_create m) \<Longrightarrow>
     material_file (snd (digest_secret c ch scope p r)) = material_file r"
  by (auto simp: digest_matches_def unseal_secret_def digest_secret_def split_beta salt_no_create
      intro!: with_material_file split: option.split)

text \<open>A sealed value reads back, on the install whose key sealed it.\<close>

lemma unseal_seal_material:
  assumes seal: "seal_material c ch v m = (Inr marker, m')"
    and gcm: "\<And>k n d a. gcm_decrypt c k n (gcm_encrypt c k n d a) a = Some d"
    and b64: "\<And>b. b64decode c (b64encode c b) = Some b"
    and nonce: "length (fresh_nonce ch) = NONCE_BYTES"
  shows "is_sealed_marker marker \<and> unseal_material c ch' marker m' = (Inr v, m')"
proof -
  obtain k where k: "fst (key_bytes ch True m) = Inr k" and m': "m' = snd (key_bytes ch True m)"
    and marker: "marker = pdict [(SEALED_KEY,
      PStr (SEAL_V2_PREFIX @ b64encode c (encrypt c (fresh_nonce ch) k (utf8 v) SEAL_V2_AAD)))]"
    using seal by (cases "fst (key_bytes ch True m)") (auto simp: seal_material_def split_beta)
  have "km_key m' = Some k" using key_bytes_cached [OF k] m' by simp
  then show ?thesis
    by (simp add: marker is_sealed_marker_def unseal_material_def single_key_marker_def pdict_def pd_get_def
        b64 gcm decrypt_def encrypt_def nonce)
qed

lemma unseal_seal_secret:
  assumes "\<And>k n d a. gcm_decrypt c k n (gcm_encrypt c k n d a) a = Some d"
    and "\<And>b. b64decode c (b64encode c b) = Some b" and "length (fresh_nonce ch) = NONCE_BYTES"
  shows "seal_secret c ch v r = (Inr sealed, r') \<longrightarrow> unseal_secret c ch' sealed r' = (Inr (PStr v), r')"
proof (cases "sr_material r")
  case None
  then show ?thesis
    by (auto simp: seal_secret_def with_material_def unseal_secret_def is_sealed_marker_def single_key_marker_def)
next
  case (Some m)
  show ?thesis
  proof
    assume sealed: "seal_secret c ch v r = (Inr sealed, r')"
    obtain m' where m': "sr_material r' = Some m'" and s: "seal_material c ch v m = (Inr sealed, m')"
      using sealed Some by (auto simp: seal_secret_def with_material_def split: prod.splits)
    have "is_sealed_marker sealed \<and> unseal_material c ch' sealed m' = (Inr v, m')"
      by (rule unseal_seal_material [OF s assms])
    then show "unseal_secret c ch' sealed r' = (Inr (PStr v), r')"
      using m' by (simp add: unseal_secret_def with_material_def)
  qed
qed

text \<open>
  C29: Secrets at rest. What a registry seals it unseals to the same plaintext, with key
  material (a versioned marker) or without (the value itself, unless it is a marker); and a
  keyfile is created only by sealing or by an armed digest: a comparison with a stored
  digest, an unsealing, and a digest of a run that is not armed leave the keyfile as it was.
\<close>

theorem sealing_roundtrip:
  assumes "\<And>k n d a. gcm_decrypt c k n (gcm_encrypt c k n d a) a = Some d"
    and "\<And>b. b64decode c (b64encode c b) = Some b"
    and "length (fresh_nonce ch) = NONCE_BYTES"
  shows "(seal_secret c ch v r = (Inr sealed, r') \<longrightarrow> unseal_secret c ch' sealed r' = (Inr (PStr v), r')) \<and>
    material_file (snd (digest_matches c ch scope p stored r)) = material_file r \<and>
    material_file (snd (unseal_secret c ch w r)) = material_file r \<and>
    ((\<forall>m. sr_material r = Some m \<longrightarrow> \<not> km_may_create m) \<longrightarrow>
      material_file (snd (digest_secret c ch scope p r)) = material_file r)"
  using unseal_seal_secret [OF assms] by (simp add: read_only_calls_keep_file)

definition toy_crypto :: crypto where
  "toy_crypto = \<lparr>sha_hex = (\<lambda>s. s), sha_raw = (\<lambda>s. s), gcm_encrypt = (\<lambda>k n d a. rev d),
     gcm_decrypt = (\<lambda>k n d a. Some (rev d)), b64encode = (\<lambda>s. s), b64decode = Some\<rparr>"

definition toy_chance :: chance where
  "toy_chance = \<lparr>fresh_key = replicate 32 CHR ''k'', fresh_nonce = replicate 12 CHR ''n'', appeared = Absent\<rparr>"

definition toy_registry :: secrets_registry where
  "toy_registry = new_registry (Some \<lparr>km_key = None, km_file = Absent, km_may_create = False\<rparr>)"

lemma toy_seals_material:
  "seal_material toy_crypto toy_chance ''pw'' \<lparr>km_key = None, km_file = Absent, km_may_create = False\<rparr> =
    (Inr (PDict [(PStr ''$sealed'', PStr (''v2:'' @ replicate 12 CHR ''n'' @ ''wp''))]),
     \<lparr>km_key = Some (replicate 32 CHR ''k''), km_file = Keyfile 384 (replicate 32 CHR ''k''), km_may_create = False\<rparr>)"
  by code_simp

lemma toy_seals: "seal_secret toy_crypto toy_chance ''pw'' toy_registry =
    (Inr (PDict [(PStr ''$sealed'', PStr (''v2:'' @ replicate 12 CHR ''n'' @ ''wp''))]),
     toy_registry\<lparr>sr_material := Some \<lparr>km_key = Some (replicate 32 CHR ''k''),
       km_file = Keyfile 384 (replicate 32 CHR ''k''), km_may_create = False\<rparr>\<rparr>)"
  by (simp add: seal_secret_def toy_registry_def new_registry_def with_material_def toy_seals_material)

theorem sealing_roundtrip_witness:
  "unseal_secret toy_crypto toy_chance (PDict [(PStr ''$sealed'', PStr (''v2:'' @ replicate 12 CHR ''n'' @ ''wp''))])
     (snd (seal_secret toy_crypto toy_chance ''pw'' toy_registry)) =
     (Inr (PStr ''pw''), snd (seal_secret toy_crypto toy_chance ''pw'' toy_registry)) \<and>
   material_file (snd (digest_secret toy_crypto toy_chance ''s'' ''pw'' toy_registry)) = Some Absent"
proof -
  have "(seal_secret toy_crypto toy_chance ''pw'' toy_registry =
      (Inr (PDict [(PStr ''$sealed'', PStr (''v2:'' @ replicate 12 CHR ''n'' @ ''wp''))]),
       snd (seal_secret toy_crypto toy_chance ''pw'' toy_registry)) \<longrightarrow>
      unseal_secret toy_crypto toy_chance (PDict [(PStr ''$sealed'', PStr (''v2:'' @ replicate 12 CHR ''n'' @ ''wp''))])
        (snd (seal_secret toy_crypto toy_chance ''pw'' toy_registry)) =
      (Inr (PStr ''pw''), snd (seal_secret toy_crypto toy_chance ''pw'' toy_registry))) \<and>
    material_file (snd (digest_matches toy_crypto toy_chance ''s'' ''pw'' None toy_registry)) = material_file toy_registry \<and>
    material_file (snd (unseal_secret toy_crypto toy_chance PNone toy_registry)) = material_file toy_registry \<and>
    ((\<forall>m. sr_material toy_registry = Some m \<longrightarrow> \<not> km_may_create m) \<longrightarrow>
      material_file (snd (digest_secret toy_crypto toy_chance ''s'' ''pw'' toy_registry)) = material_file toy_registry)"
    by (rule sealing_roundtrip) (simp_all add: toy_crypto_def toy_chance_def NONCE_BYTES_def)
  then show ?thesis
    by (simp add: toy_seals) (simp add: toy_registry_def new_registry_def material_file_def)
qed

end
