(* ===== verification/ResourceModel.thy ===== *)
theory ResourceModel
  imports NodeId Markers FieldDecl
begin

text \<open>
  Resources and their registry (\<open>core/resource.py\<close>), lifecycle overrides
  (\<open>core/lifecycle.py\<close>) and policy bindings (\<open>core/policy.py\<close>). A class is its name, its
  provider, its field declarations, the default its \<open>tags\<close> field has and whether it is a
  \<open>DataSource\<close>; an instance adds its names and the raw value of every declared field.
  Validation by pydantic is the argument \<open>validate\<close>; the context variables a declaration
  reads (active stack, region, tags, prefixes) are the record \<open>decl_ctx\<close>.
\<close>

subsection \<open>Classes and instances\<close>

record lifecycle =
  lc_prevent_destroy :: bool
  lc_cbd :: bool
  lc_ignore_changes :: "string list"
  lc_aliases :: "string list"

definition DEFAULT_LIFECYCLE :: lifecycle where
  "DEFAULT_LIFECYCLE = \<lparr>lc_prevent_destroy = False, lc_cbd = False, lc_ignore_changes = [], lc_aliases = []\<rparr>"

record resource_class =
  rc_name :: string
  rc_provider :: string
  rc_fields :: model_class
  rc_tags_default :: pyval
  rc_data :: bool

record resource =
  rclass :: resource_class
  rname :: string
  rstack :: string
  rvalues :: props
  rlifecycle :: "lifecycle option"
  rdepends_on :: "node_id list"

definition lifecycle_of :: "resource \<Rightarrow> lifecycle" where
  "lifecycle_of r = (case rlifecycle r of None \<Rightarrow> DEFAULT_LIFECYCLE | Some l \<Rightarrow> l)"

definition type_name :: "resource_class \<Rightarrow> string" where
  "type_name c = (if rc_provider c \<noteq> [] then rc_provider c @ ''.'' @ rc_name c else rc_name c)"

definition node_id_of :: "resource \<Rightarrow> node_id" where
  "node_id_of r = format_node_id (rstack r) (type_name (rclass r)) (rname r)"

text \<open>\<open>UNSET\<close>, and \<open>__getattribute__\<close>: reading a computed field that has no value yields a \<open>Ref\<close>.\<close>

definition UNSET :: pyval where "UNSET = PObj ''UNSET''"

definition read_field :: "resource \<Rightarrow> string \<Rightarrow> pyval option" where
  "read_field r a = (case map_of (rvalues r) a of
      None \<Rightarrow> None
    | Some v \<Rightarrow> Some (if v = UNSET then PRef (node_id_of r) a else v))"

text \<open>\<open>raw[name]\<close>: pydantic gives an instance a value for every field.\<close>

definition input_values :: "resource \<Rightarrow> (aerror, props) result" where
  "input_values r =
     rmap (\<lambda>(n, m). case map_of (rvalues r) n of Some v \<Rightarrow> Inr (n, v) | None \<Rightarrow> Inl (KeyError n))
       (filter (\<lambda>(n, m). m \<noteq> COMPUTED) (field_mutability (rc_fields (rclass r))))"

definition canonical_inputs :: "pyenv \<Rightarrow> resource \<Rightarrow> (aerror, props) result" where
  "canonical_inputs env r =
     rbind (input_values r) (rmap (\<lambda>(n, v). rbind (canonicalize env v) (\<lambda>w. Inr (n, w))))"

definition resource_refs :: "resource \<Rightarrow> (aerror, pyval list) result" where
  "resource_refs r = rbind (input_values r) (\<lambda>m. Inr (concat (map (\<lambda>(n, v). collect_refs v) m)))"

subsection \<open>The registry\<close>

datatype policy_level = ADVISORY | MANDATORY

record policy_binding =
  pb_name :: string
  pb_level :: policy_level
  pb_types :: "string list option"
  pb_params :: props

definition applies_to :: "policy_binding \<Rightarrow> string \<Rightarrow> bool" where
  "applies_to b t = (case pb_types b of None \<Rightarrow> True | Some ts \<Rightarrow> t \<in> set ts)"

record resource_registry =
  reg_resources :: "(node_id \<times> resource) list"
  reg_bindings :: "policy_binding list"
  reg_outputs :: "(string \<times> pyval) list"
  reg_inputs :: props
  reg_envs_declared :: "string list"
  reg_envs_selected :: "string list"

definition empty_registry :: resource_registry where
  "empty_registry = \<lparr>reg_resources = [], reg_bindings = [], reg_outputs = [], reg_inputs = [],
     reg_envs_declared = [], reg_envs_selected = []\<rparr>"

definition add_output :: "string \<Rightarrow> pyval \<Rightarrow> resource_registry \<Rightarrow> (aerror, resource_registry) result" where
  "add_output k v g = (if k \<in> fst ` set (reg_outputs g) then Inl (RegistryError ''duplicate output'' [k])
     else Inr (g\<lparr>reg_outputs := AList.update k v (reg_outputs g)\<rparr>))"

definition register :: "resource \<Rightarrow> resource_registry \<Rightarrow> (aerror, resource_registry) result" where
  "register r g = (if node_id_of r \<in> fst ` set (reg_resources g) then Inl (RegistryError ''duplicate resource'' [node_id_of r])
     else Inr (g\<lparr>reg_resources := AList.update (node_id_of r) r (reg_resources g)\<rparr>))"

definition registry_get :: "resource_registry \<Rightarrow> node_id \<Rightarrow> (aerror, resource) result" where
  "registry_get g i = (case map_of (reg_resources g) i of
     None \<Rightarrow> Inl (RegistryError ''unknown resource'' [i]) | Some r \<Rightarrow> Inr r)"

definition registry_all :: "resource_registry \<Rightarrow> resource list" where
  "registry_all g = map (\<lambda>k. the (map_of (reg_resources g) k)) (sort (map fst (reg_resources g)))"

text \<open>What registration keeps: each resource under its own id, each id once.\<close>

definition registry_ok :: "resource_registry \<Rightarrow> bool" where
  "registry_ok g \<longleftrightarrow> wf_dict (reg_resources g) \<and> (\<forall>(i, r) \<in> set (reg_resources g). node_id_of r = i)"

lemma registry_ok_empty [inv_intros]: "registry_ok empty_registry"
  by (simp add: registry_ok_def empty_registry_def)

lemma register_ok [inv_intros]:
  assumes "registry_ok g" and "register r g = Inr g'"
  shows "registry_ok g' \<and> reg_resources g' = reg_resources g @ [(node_id_of r, r)]"
proof -
  have "node_id_of r \<notin> fst ` set (reg_resources g)" using assms(2) by (auto simp: register_def split: if_splits)
  then show ?thesis using assms by (auto simp: register_def registry_ok_def update_fresh)
qed

lemma registry_all_ids:
  assumes "registry_ok g"
  shows "map node_id_of (registry_all g) = sort (map fst (reg_resources g))"
    and "set (registry_all g) = set (map snd (reg_resources g))"
proof -
  have w: "wf_dict (reg_resources g)" using assms by (simp add: registry_ok_def)
  have the: "map_of (reg_resources g) k = Some r \<Longrightarrow> node_id_of r = k" for k r
    using assms by (auto simp: registry_ok_def dest!: map_of_SomeD)
  have ex: "k \<in> fst ` set (reg_resources g) \<Longrightarrow> \<exists>r. map_of (reg_resources g) k = Some r" for k
    by (auto simp: key_iff)
  show "map node_id_of (registry_all g) = sort (map fst (reg_resources g))"
    unfolding registry_all_def map_map by (rule map_idI) (use ex the in fastforce)
  have "(\<lambda>k. the (map_of (reg_resources g) k)) ` fst ` set (reg_resources g) = snd ` set (reg_resources g)"
    unfolding image_image using w by (intro image_cong refl) (auto simp: map_of_is_SomeI)
  then show "set (registry_all g) = set (map snd (reg_resources g))"
    by (simp add: registry_all_def)
qed

subsection \<open>Declaring a resource\<close>

record decl_ctx =
  dc_prefix :: "string option"
  dc_stack :: string
  dc_tags :: props
  dc_region :: "string option"
  dc_name_prefix :: "string option"

datatype declared_edge = EdgeTo resource | EdgeId node_id | EdgeOther string

text \<open>\<open>_explicit_edges\<close>; the argument is a bare string or a sequence.\<close>

definition explicit_edges :: "string + declared_edge list \<Rightarrow> (aerror, node_id list) result" where
  "explicit_edges d = (case d of
      Inl s \<Rightarrow> Inl (IRError ''depends_on must be a sequence, not a bare string'' [s])
    | Inr es \<Rightarrow> rbind (rmap (\<lambda>e. case e of EdgeTo r \<Rightarrow> Inr (node_id_of r) | EdgeId i \<Rightarrow> Inr i
          | EdgeOther t \<Rightarrow> Inl (IRError ''depends_on takes resources or node ids'' [t])) es)
        (\<lambda>is. Inr (sorted_set is)))"

definition dict_merge :: "('k \<times> 'v) list \<Rightarrow> ('k \<times> 'v) list \<Rightarrow> ('k \<times> 'v) list" where
  "dict_merge m m' = fold (\<lambda>(k, v) d. AList.update k v d) m' m"

definition merge_stack_tags :: "decl_ctx \<Rightarrow> resource_class \<Rightarrow> props \<Rightarrow> (aerror, props) result" where
  "merge_stack_tags x c data =
     (if dc_tags x = [] \<or> ''tags'' \<notin> fst ` set (rc_fields c) then Inr data
      else let own = dget data ''tags'' (rc_tags_default c)
        in if own = UNSET then Inr data
           else case own of
               PNone \<Rightarrow> Inr (AList.update ''tags'' (pdict (dc_tags x)) data)
             | PDict m \<Rightarrow> Inr (AList.update ''tags''
                 (PDict (dict_merge (map (\<lambda>(k, v). (PStr k, v)) (dc_tags x)) m)) data)
             | _ \<Rightarrow> Inl (IRError ''tags must be a dict to merge with the stack's tags'' [rc_name c]))"

definition set_absent :: "'k \<Rightarrow> 'v option \<Rightarrow> ('k \<times> 'v) list \<Rightarrow> ('k \<times> 'v) list" where
  "set_absent k v m = (case v of None \<Rightarrow> m | Some w \<Rightarrow> if k \<in> fst ` set m then m else AList.update k w m)"

definition apply_stack_defaults :: "decl_ctx \<Rightarrow> resource_class \<Rightarrow> string \<Rightarrow> props \<Rightarrow> (aerror, props) result" where
  "apply_stack_defaults x c name data =
     (let regional = (if ''region'' \<in> fst ` set (rc_fields c)
                      then set_absent ''region'' (map_option PStr (dc_region x)) data else data);
          named = (case (dc_name_prefix x, physical_name_field (rc_fields c)) of
             (Some p, Some f) \<Rightarrow> set_absent f (Some (PStr (p @ ''-'' @ name @ ''-'' @ dc_stack x))) regional
           | _ \<Rightarrow> regional)
      in merge_stack_tags x c named)"

definition new_resource ::
  "(resource_class \<Rightarrow> props \<Rightarrow> (aerror, props) result) \<Rightarrow> decl_ctx \<Rightarrow> resource_class \<Rightarrow> string \<Rightarrow> lifecycle option
     \<Rightarrow> string + declared_edge list \<Rightarrow> props \<Rightarrow> (aerror, resource) result" where
  "new_resource validate x c name lc deps data =
     rbind (require_identifier name ''resource'') (\<lambda>_.
       let full = (case dc_prefix x of None \<Rightarrow> name | Some p \<Rightarrow> p @ ''-'' @ name)
       in rbind (apply_stack_defaults x c full data) (\<lambda>d.
          rbind (validate c d) (\<lambda>vals.
          rbind (explicit_edges deps) (\<lambda>es.
            Inr \<lparr>rclass = c, rname = full, rstack = dc_stack x, rvalues = vals, rlifecycle = lc, rdepends_on = es\<rparr>))))"

text \<open>\<open>__init__\<close> registers the instance in the active registry, when there is one.\<close>

definition declare_resource ::
  "(resource_class \<Rightarrow> props \<Rightarrow> (aerror, props) result) \<Rightarrow> decl_ctx \<Rightarrow> resource_class \<Rightarrow> string \<Rightarrow> lifecycle option
     \<Rightarrow> string + declared_edge list \<Rightarrow> props \<Rightarrow> resource_registry option
     \<Rightarrow> (aerror, resource \<times> resource_registry option) result" where
  "declare_resource validate x c name lc deps data g =
     rbind (new_resource validate x c name lc deps data) (\<lambda>r. case g of
         None \<Rightarrow> Inr (r, None)
       | Some g \<Rightarrow> rbind (register r g) (\<lambda>g'. Inr (r, Some g')))"

lemma new_resource_fields:
  "new_resource validate x c name lc deps data = Inr r \<Longrightarrow>
     rstack r = dc_stack x \<and> rclass r = c \<and> rlifecycle r = lc \<and> identifier_match name \<and>
     sorted (rdepends_on r) \<and> distinct (rdepends_on r)"
  by (auto simp: new_resource_def rbind_Inr_iff require_identifier_def Let_def explicit_edges_def
      split: if_splits sum.splits)

lemma declared_registered:
  assumes "declare_resource validate x c name lc deps data (Some g) = Inr (r, g')" and "registry_ok g"
  shows "\<exists>h. g' = Some h \<and> registry_ok h \<and> reg_resources h = reg_resources g @ [(node_id_of r, r)]"
  using assms register_ok [OF assms(2)] by (auto simp: declare_resource_def rbind_Inr_iff)

end
