(* ===== verification/Template.thy ===== *)
theory Template
  imports PyValue
begin

text \<open>
  Format templates (\<open>core/types.py\<close>): \<open>str.format\<close> restricted to positional fields.
  \<open>next_markup\<close> is one step of the scanner behind \<open>string.Formatter.parse\<close>, which yields a
  literal and, unless an escaped brace ended it, a field of name, conversion and
  specification. What a conversion makes of a value and how a value prints under a
  specification are the platform's, the record \<open>formatting\<close>.
\<close>

record field_markup =
  fm_name :: string
  fm_conversion :: "char option"
  fm_spec :: string

type_synonym markup = "string \<times> field_markup option"

subsection \<open>The scanner\<close>

text \<open>The name runs to a brace, a colon or an exclamation mark; brackets are skipped whole.\<close>

fun skip_index :: "string \<Rightarrow> string \<times> string" where
  "skip_index [] = ([], [])"
| "skip_index (c # s) = (if c = CHR '']'' then ([], c # s) else (let (a, b) = skip_index s in (c # a, b)))"

lemma skip_index_length [termination_simp]: "skip_index s = (a, b) \<Longrightarrow> length b \<le> length s"
  by (induction s arbitrary: a b) (auto split: if_splits prod.splits)

function scan_name :: "string \<Rightarrow> (aerror, string \<times> char option \<times> string) result" where
  "scan_name [] = Inr ([], None, [])"
| "scan_name (c # s) =
     (if c = CHR ''{'' then Inl (PyValueError ''unexpected { in field name'')
      else if c = CHR ''}'' \<or> c = CHR '':'' \<or> c = CHR ''!'' then Inr ([], Some c, s)
      else if c = CHR ''['' then (let (inside, rest) = skip_index s
        in rbind (scan_name rest) (\<lambda>(n, d, r). Inr (c # inside @ n, d, r)))
      else rbind (scan_name s) (\<lambda>(n, d, r). Inr (c # n, d, r)))"
  by pat_completeness auto
termination by (relation "measure length") (auto dest: skip_index_length [OF sym])

fun scan_spec :: "nat \<Rightarrow> string \<Rightarrow> (aerror, string \<times> string) result" where
  "scan_spec n [] = Inl (PyValueError ''unmatched { in format spec'')"
| "scan_spec n (c # s) =
     (if c = CHR ''}'' \<and> n \<le> 1 then Inr ([], s)
      else rbind (scan_spec (if c = CHR ''{'' then Suc n else if c = CHR ''}'' then n - 1 else n) s)
        (\<lambda>(spec, r). Inr (c # spec, r)))"

definition scan_field :: "string \<Rightarrow> (aerror, field_markup \<times> string) result" where
  "scan_field s = rbind (scan_name s) (\<lambda>(n, d, r). case d of
      None \<Rightarrow> Inl (PyValueError ''expected } before end of string'')
    | Some e \<Rightarrow>
        if e = CHR ''}'' then Inr (\<lparr>fm_name = n, fm_conversion = None, fm_spec = []\<rparr>, r)
        else if e = CHR '':'' then
          rbind (scan_spec 1 r) (\<lambda>(spec, r'). Inr (\<lparr>fm_name = n, fm_conversion = None, fm_spec = spec\<rparr>, r'))
        else (case r of
            [] \<Rightarrow> Inl (PyValueError ''end of string while looking for conversion specifier'')
          | conv # r1 \<Rightarrow> (case r1 of
              [] \<Rightarrow> Inl (PyValueError ''unmatched { in format spec'')
            | c # r2 \<Rightarrow>
                if c = CHR ''}'' then Inr (\<lparr>fm_name = n, fm_conversion = Some conv, fm_spec = []\<rparr>, r2)
                else if c \<noteq> CHR '':'' then Inl (PyValueError ''expected : after conversion specifier'')
                else rbind (scan_spec 1 r2) (\<lambda>(spec, r').
                  Inr (\<lparr>fm_name = n, fm_conversion = Some conv, fm_spec = spec\<rparr>, r')))))"

fun next_markup :: "string \<Rightarrow> (aerror, markup \<times> string) result" where
  "next_markup [] = Inr (([], None), [])"
| "next_markup (c # s) =
     (if c = CHR ''{'' then (case s of
          [] \<Rightarrow> Inl (PyValueError ''Single { encountered in format string'')
        | d # s' \<Rightarrow> if d = CHR ''{'' then Inr (([CHR ''{''], None), s')
            else rbind (scan_field s) (\<lambda>(f, r). Inr (([], Some f), r)))
      else if c = CHR ''}'' then (case s of
          d # s' \<Rightarrow> if d = CHR ''}'' then Inr (([CHR ''}''], None), s')
            else Inl (PyValueError ''Single } encountered in format string'')
        | [] \<Rightarrow> Inl (PyValueError ''Single } encountered in format string''))
      else rbind (next_markup s) (\<lambda>((l, f), r). Inr ((c # l, f), r)))"

lemma scan_name_length: "scan_name s = Inr (n, d, r) \<Longrightarrow> length r \<le> length s"
proof (induction s arbitrary: n d r rule: scan_name.induct)
  case (2 c s)
  show ?case
  proof (cases "c = CHR ''[''")
    case True
    then obtain n' where *: "scan_name (snd (skip_index s)) = Inr (n', d, r)"
      using "2.prems" by (auto simp: rbind_Inr_iff split: prod.splits if_splits)
    have "length (snd (skip_index s)) \<le> length s" using skip_index_length [of s] by (cases "skip_index s") auto
    moreover have "length r \<le> length (snd (skip_index s))"
      using "2.IH"(1) * True by (cases "skip_index s") auto
    ultimately show ?thesis by simp
  next
    case False
    then show ?thesis using 2 by (auto simp: rbind_Inr_iff split: if_splits)
  qed
qed simp

lemma scan_spec_length: "scan_spec n s = Inr (spec, r) \<Longrightarrow> length r < length s"
  by (induction s arbitrary: n spec r) (auto simp: rbind_Inr_iff less_SucI split: if_splits)

lemma scan_field_length: "scan_field s = Inr (f, r) \<Longrightarrow> length r \<le> length s"
proof -
  assume f: "scan_field s = Inr (f, r)"
  then obtain n d r0 where n: "scan_name s = Inr (n, d, r0)" by (auto simp: scan_field_def rbind_Inr_iff)
  have "length r \<le> length r0"
    using f n by (auto simp: scan_field_def rbind_Inr_iff split: option.splits if_splits list.splits dest!: scan_spec_length)
  with scan_name_length [OF n] show ?thesis by simp
qed

lemma next_markup_length: "next_markup s = Inr (m, r) \<Longrightarrow> s \<noteq> [] \<Longrightarrow> length r < length s"
proof (induction s arbitrary: m r)
  case (Cons c s)
  show ?case
  proof (cases "c = CHR ''{'' \<or> c = CHR ''}''")
    case True
    then show ?thesis
      using Cons.prems by (auto simp: rbind_Inr_iff less_Suc_eq_le split: list.splits if_splits dest!: scan_field_length)
  next
    case False
    then obtain m' where "next_markup s = Inr (m', r)" using Cons.prems(1) by (auto simp: rbind_Inr_iff)
    then show ?thesis using Cons.IH by (cases s) (auto simp: less_SucI)
  qed
qed simp

text \<open>\<open>Formatter.parse\<close>, drained: the markups up to the end, or the error that stops the scan.\<close>

function parse_template :: "string \<Rightarrow> markup list \<times> aerror option" where
  "parse_template s = (if s = [] then ([], None)
     else (case next_markup s of
         Inl e \<Rightarrow> ([], Some e)
       | Inr (m, r) \<Rightarrow> (let (ms, e) = parse_template r in (m # ms, e))))"
  by pat_completeness auto
termination by (relation "measure length") (auto dest: next_markup_length)

declare parse_template.simps [simp del]

subsection \<open>Checking and formatting\<close>

text \<open>\<open>str.isdigit\<close>: Latin-1's superscripts one to three count as digits, and \<open>int\<close> then rejects them.\<close>

definition superscript_digit :: "char \<Rightarrow> bool" where
  "superscript_digit c = (c = CHR 0xB2 \<or> c = CHR 0xB3 \<or> c = CHR 0xB9)"

definition isdigit :: "string \<Rightarrow> bool" where
  "isdigit s = (s \<noteq> [] \<and> list_all (\<lambda>c. is_digit c \<or> superscript_digit c) s)"

definition digits_value :: "string \<Rightarrow> nat" where
  "digits_value s = foldl (\<lambda>n c. 10 * n + (of_char c - 48)) 0 s"

definition to_index :: "string \<Rightarrow> (aerror, nat) result" where
  "to_index s = (if list_all is_digit s then Inr (digits_value s) else Inl (PyValueError ''invalid literal for int''))"

definition reject_field :: "string \<Rightarrow> aerror" where
  "reject_field n = LanguageError ''template field is not a plain positional index'' [n]"

fun check_markups :: "bool \<Rightarrow> bool \<Rightarrow> markup list \<Rightarrow> (aerror, bool \<times> bool) result" where
  "check_markups auto manual [] = Inr (auto, manual)"
| "check_markups auto manual ((l, f) # ms) = (case f of
      None \<Rightarrow> check_markups auto manual ms
    | Some m \<Rightarrow>
        if fm_name m = [] then check_markups True manual ms
        else if isdigit (fm_name m) then check_markups auto True ms
        else Inl (reject_field (fm_name m)))"

definition check_template :: "string \<Rightarrow> (aerror, unit) result" where
  "check_template t = (let (ms, e) = parse_template t
     in rbind (check_markups False False ms) (\<lambda>(auto, manual). case e of
          Some err \<Rightarrow> Inl err
        | None \<Rightarrow> if auto \<and> manual
            then Inl (LanguageError ''template mixes automatic {} and manual {0} placeholder numbering; use one style'' [])
            else Inr ()))"

definition get_field :: "string \<Rightarrow> pyval list \<Rightarrow> (aerror, pyval) result" where
  "get_field n args =
     (if \<not> isdigit n then Inl (reject_field n)
      else rbind (to_index n) (\<lambda>i. if length args \<le> i
        then Inl (LanguageError ''template references an argument that was not given'' [n]) else Inr (args ! i)))"

text \<open>
  \<open>Formatter._vformat\<close>. The automatic index is \<open>None\<close> once a manual one was used; a
  specification is a template of its own, expanded one level deep.
\<close>

definition number_field :: "string \<Rightarrow> nat option \<Rightarrow> (aerror, string \<times> nat option) result" where
  "number_field n auto =
     (if n = [] then (case auto of
          None \<Rightarrow> Inl (PyValueError ''cannot switch from manual field specification to automatic field numbering'')
        | Some i \<Rightarrow> Inr (nat_str i, Some (Suc i)))
      else if isdigit n then
        (if auto \<noteq> None \<and> auto \<noteq> Some 0 then Inl (PyValueError ''cannot switch from manual field specification to automatic field numbering'')
         else Inr (n, None))
      else Inr (n, auto))"

record formatting =
  convert_field :: "char \<Rightarrow> pyval \<Rightarrow> (aerror, pyval) result"
  format_field :: "string \<Rightarrow> pyval \<Rightarrow> (aerror, string) result"

definition converted :: "formatting \<Rightarrow> char option \<Rightarrow> pyval \<Rightarrow> (aerror, pyval) result" where
  "converted fmt c v = (case c of None \<Rightarrow> Inr v | Some d \<Rightarrow> convert_field fmt d v)"

fun vformat_markups :: "(string \<Rightarrow> nat option \<Rightarrow> (aerror, string \<times> nat option) result) \<Rightarrow> formatting
    \<Rightarrow> pyval list \<Rightarrow> markup list \<Rightarrow> nat option \<Rightarrow> (aerror, string \<times> nat option) result" where
  "vformat_markups expand fmt args [] auto = Inr ([], auto)"
| "vformat_markups expand fmt args ((l, f) # ms) auto = (case f of
      None \<Rightarrow> rbind (vformat_markups expand fmt args ms auto) (\<lambda>(t, a). Inr (l @ t, a))
    | Some m \<Rightarrow>
        rbind (number_field (fm_name m) auto) (\<lambda>(n, a1).
        rbind (get_field n args) (\<lambda>obj.
        rbind (converted fmt (fm_conversion m) obj) (\<lambda>shown.
        rbind (expand (fm_spec m) a1) (\<lambda>(spec, a2).
        rbind (format_field fmt spec shown) (\<lambda>s.
        rbind (vformat_markups expand fmt args ms a2) (\<lambda>(t, a). Inr (l @ s @ t, a))))))))"

fun vformat :: "nat \<Rightarrow> formatting \<Rightarrow> pyval list \<Rightarrow> string \<Rightarrow> nat option \<Rightarrow> (aerror, string \<times> nat option) result" where
  "vformat 0 fmt args t auto = Inl (PyValueError ''Max string recursion exceeded'')"
| "vformat (Suc depth) fmt args t auto = (let (ms, e) = parse_template t
     in rbind (vformat_markups (vformat depth fmt args) fmt args ms auto) (\<lambda>r. case e of Some err \<Rightarrow> Inl err | None \<Rightarrow> Inr r))"

text \<open>\<open>recursion_depth=2\<close> counts down to a negative number: three levels.\<close>

definition format_template :: "formatting \<Rightarrow> string \<Rightarrow> pyval list \<Rightarrow> (aerror, string) result" where
  "format_template fmt t args = rbind (vformat 3 fmt args t (Some 0)) (\<lambda>(s, a). Inr s)"

subsection \<open>What a checked template still needs\<close>

lemma digit_value: "is_digit c \<Longrightarrow> (of_char c :: nat) - 48 < 10 \<and> digit_char (of_char c - 48) = c"
  by (auto simp: is_digit_def digit_char_def)

lemma digits_value_snoc: "digits_value (s @ [c]) = 10 * digits_value s + (of_char c - 48)"
  by (simp add: digits_value_def)

lemma digit_char_value: "n < 10 \<Longrightarrow> (of_char (digit_char n) :: nat) - 48 = n"
  by (simp add: digit_char_def)

lemma digits_value_nat_str: "digits_value (nat_str n) = n"
proof (induction n rule: nat_str.induct)
  case (1 n)
  show ?case
  proof (cases "n < 10")
    case True
    then have "nat_str n = [digit_char n]" by (subst nat_str.simps) simp
    then show ?thesis using True by (simp only:) (simp add: digits_value_def digit_char_value)
  next
    case False
    then have "nat_str n = nat_str (n div 10) @ [digit_char (n mod 10)]" by (subst nat_str.simps) simp
    with 1 False show ?thesis by (simp only:) (simp add: digits_value_snoc digit_char_value)
  qed
qed

lemma nat_str_isdigit: "isdigit (nat_str n)" "to_index (nat_str n) = Inr n"
  using nat_str_digits [of _ n] by (auto simp: isdigit_def to_index_def list_all_iff digits_value_nat_str)

text \<open>A markup without conversion, specification or superscript, and the arguments it asks for.\<close>

definition plain_field :: "markup \<Rightarrow> bool" where
  "plain_field m = (case snd m of None \<Rightarrow> True
     | Some f \<Rightarrow> fm_conversion f = None \<and> fm_spec f = [] \<and> list_all is_digit (fm_name f))"

definition auto_field :: "markup \<Rightarrow> bool" where
  "auto_field m = (case snd m of Some f \<Rightarrow> fm_name f = [] | None \<Rightarrow> False)"

definition manual_field :: "markup \<Rightarrow> bool" where
  "manual_field m = (case snd m of Some f \<Rightarrow> fm_name f \<noteq> [] | None \<Rightarrow> False)"

definition auto_fields :: "markup list \<Rightarrow> nat" where
  "auto_fields ms = length (filter auto_field ms)"

definition index_given :: "nat \<Rightarrow> markup \<Rightarrow> bool" where
  "index_given n m = (case snd m of Some f \<Rightarrow> fm_name f \<noteq> [] \<longrightarrow> digits_value (fm_name f) < n | None \<Rightarrow> True)"

lemma field_simps_of [simp]:
  "auto_fields [] = 0" "auto_fields (x # ms) = (if auto_field x then Suc (auto_fields ms) else auto_fields ms)"
  "auto_field (l, None) = False" "auto_field (l, Some f) \<longleftrightarrow> fm_name f = []"
  "manual_field (l, None) = False" "manual_field (l, Some f) \<longleftrightarrow> fm_name f \<noteq> []"
  by (simp_all add: auto_fields_def auto_field_def manual_field_def)

lemma check_markups_flags:
  "check_markups a m ms = Inr (a', m') \<Longrightarrow>
     a' = (a \<or> auto_fields ms > 0) \<and> m' = (m \<or> list_ex manual_field ms)"
proof (induction ms arbitrary: a m)
  case (Cons x ms)
  then show ?case by (cases x; cases "snd x") (auto split: if_splits)
qed simp

lemma vformat_markups_manual:
  assumes "list_all plain_field ms" and "list_all (index_given (length args)) ms" and "auto_fields ms = 0"
    and fmt: "\<And>v. \<exists>s. format_field fmt [] v = Inr s" and ex: "\<And>a. expand [] a = Inr ([], a)"
    and "auto = None \<or> auto = Some 0"
  shows "\<exists>r. vformat_markups expand fmt args ms auto = Inr r"
  using assms(1-3,6)
proof (induction ms arbitrary: auto)
  case (Cons x ms)
  obtain l f where x: "x = (l, f)" by (cases x)
  have IH: "\<exists>r. vformat_markups expand fmt args ms a = Inr r" if "a = None \<or> a = Some 0" for a
    using Cons.IH [OF _ _ _ that] Cons.prems by (auto split: if_splits)
  show ?case
  proof (cases f)
    case None
    then show ?thesis using IH [OF Cons.prems(4)] x by auto
  next
    case (Some m)
    then have m: "fm_name m \<noteq> []" "list_all is_digit (fm_name m)" "fm_conversion m = None" "fm_spec m = []"
      "digits_value (fm_name m) < length args"
      using Cons.prems x by (auto simp: plain_field_def index_given_def split: if_splits)
    have "isdigit (fm_name m)" using m by (auto simp: isdigit_def list_all_iff)
    moreover obtain s where "format_field fmt [] (args ! digits_value (fm_name m)) = Inr s" using fmt by blast
    moreover obtain t a where "vformat_markups expand fmt args ms None = Inr (t, a)" using IH by fastforce
    ultimately show ?thesis
      using m ex Cons.prems(4) x Some
      by (auto simp: number_field_def get_field_def to_index_def converted_def)
  qed
qed simp

lemma vformat_markups_auto:
  assumes "list_all plain_field ms" and "i + auto_fields ms \<le> length args" and "\<not> list_ex manual_field ms"
    and fmt: "\<And>v. \<exists>s. format_field fmt [] v = Inr s" and ex: "\<And>a. expand [] a = Inr ([], a)"
  shows "\<exists>r. vformat_markups expand fmt args ms (Some i) = Inr r"
  using assms(1-3)
proof (induction ms arbitrary: i)
  case (Cons x ms)
  obtain l f where x: "x = (l, f)" by (cases x)
  show ?case
  proof (cases f)
    case None
    then have "\<exists>r. vformat_markups expand fmt args ms (Some i) = Inr r" using Cons x by simp
    then show ?thesis using None x by auto
  next
    case (Some m)
    then have m: "fm_name m = []" "fm_conversion m = None" "fm_spec m = []" and i: "Suc i + auto_fields ms \<le> length args"
      using Cons.prems x by (auto simp: plain_field_def split: if_splits)
    obtain s where "format_field fmt [] (args ! i) = Inr s" using fmt by blast
    moreover obtain t a where "vformat_markups expand fmt args ms (Some (Suc i)) = Inr (t, a)"
      using Cons.IH [OF _ i] Cons.prems by fastforce
    ultimately show ?thesis
      using m i ex x Some
      by (auto simp: number_field_def get_field_def nat_str_isdigit converted_def)
  qed
qed simp

lemma vformat_empty: "vformat (Suc d) fmt args [] a = Inr ([], a)"
  by (simp add: parse_template.simps)

text \<open>
  A template the config-time check accepts, whose fields are bare (no conversion, no
  specification, decimal indices), formats at apply whenever it is given the arguments it
  names: neither a rejected field nor mixed numbering can surface then.
\<close>

lemma checked_template_formats:
  assumes "check_template t = Inr ()" and "list_all plain_field (fst (parse_template t))"
    and "list_all (index_given (length args)) (fst (parse_template t))"
    and "auto_fields (fst (parse_template t)) \<le> length args"
    and "\<And>v. \<exists>s. format_field fmt [] v = Inr s"
  shows "\<exists>s. format_template fmt t args = Inr s"
proof -
  define ms where "ms = fst (parse_template t)"
  obtain a m where c: "check_markups False False ms = Inr (a, m)" and e: "snd (parse_template t) = None" and am: "\<not> (a \<and> m)"
    using assms(1) by (auto simp: check_template_def ms_def rbind_Inr_iff split: prod.splits option.splits if_splits)
  let ?expand = "vformat 2 fmt args"
  have expand: "?expand [] x = Inr ([], x)" for x using vformat_empty [of 1] by (simp add: numeral_2_eq_2)
  have "\<exists>r. vformat_markups ?expand fmt args ms (Some 0) = Inr r"
  proof (cases "auto_fields ms = 0")
    case True
    then show ?thesis
      using assms(2,3,5) expand by (intro vformat_markups_manual) (auto simp: ms_def)
  next
    case False
    then have "\<not> list_ex manual_field ms"
      using check_markups_flags [OF c] am by auto
    then show ?thesis
      using assms(2,4,5) expand by (intro vformat_markups_auto) (auto simp: ms_def)
  qed
  then show ?thesis
    using e by (auto simp: format_template_def ms_def numeral_3_eq_3 numeral_2_eq_2 split: prod.splits)
qed

definition str_only :: formatting where
  "str_only = \<lparr>convert_field = (\<lambda>c v. Inr v), format_field = (\<lambda>spec v. Inr (case v of PStr s \<Rightarrow> s | _ \<Rightarrow> []))\<rparr>"

text \<open>
  The check does not descend into a specification, and takes a superscript for an index: such
  templates pass at config time and fail at apply.
\<close>

lemma checked_template_fails_at_apply:
  "check_template ''{:{a.b}}'' = Inr () \<and>
   format_template fmt ''{:{a.b}}'' [PStr ''x''] = Inl (reject_field ''a.b'') \<and>
   check_template [CHR ''{'', CHR 0xB2, CHR ''}''] = Inr () \<and>
   format_template fmt [CHR ''{'', CHR 0xB2, CHR ''}''] [PStr ''x''] = Inl (PyValueError ''invalid literal for int'')"
proof -
  let ?n = "\<lparr>fm_name = [], fm_conversion = None, fm_spec = ''{a.b}''\<rparr>"
  let ?f = "\<lparr>fm_name = ''a.b'', fm_conversion = None, fm_spec = []\<rparr>"
  let ?s = "\<lparr>fm_name = [CHR 0xB2], fm_conversion = None, fm_spec = []\<rparr>"
  have p: "parse_template ''{:{a.b}}'' = ([([], Some ?n)], None)" "parse_template ''{a.b}'' = ([([], Some ?f)], None)"
    "parse_template [CHR ''{'', CHR 0xB2, CHR ''}''] = ([([], Some ?s)], None)" by code_simp+
  have i: "\<not> isdigit ''a.b''" "isdigit [CHR 0xB2]" "to_index [CHR 0xB2] = Inl (PyValueError ''invalid literal for int'')"
    "isdigit (nat_str 0)" "to_index (nat_str 0) = Inr 0" by code_simp+
  show ?thesis
    by (simp add: check_template_def p i format_template_def numeral_3_eq_3 number_field_def get_field_def converted_def reject_field_def)
qed

end
