(* ===== verification/Resolve.thy ===== *)
theory Resolve
  imports ResourceModel Template Secrets StateModel Digraph
begin

text \<open>
  Handle resolution (\<open>reconcile/resolve.py\<close>), the environment it reads
  (\<open>reconcile/env.py\<close>) and state read back as a graph (\<open>reconcile/state_ir.py\<close>). Resolution
  reads live outputs, the secrets registry and committed stack outputs; it calls no provider.
  \<open>apply_env\<close> holds the services of a run: the registered types, the names of the registered
  providers, the secrets, the stack outputs, and the platform's printing, formatting,
  validation, digest and \<open>to_jsonable_python\<close>.
\<close>

type_synonym live_outputs = "(node_id \<times> props) list"

record apply_env =
  ae_types :: "(string \<times> resource_class) list"
  ae_providers :: "string list"
  ae_secrets :: secrets_api
  ae_stack_outputs :: "(string \<times> pyval) list"
  ae_py :: pyenv
  ae_format :: formatting
  ae_validate :: "resource_class \<Rightarrow> props \<Rightarrow> (aerror, props) result"
  ae_sha :: "string \<Rightarrow> string"
  ae_jsonable :: "pyval \<Rightarrow> (aerror, pyval) result"

definition provider_for :: "apply_env \<Rightarrow> string \<Rightarrow> (aerror, string) result" where
  "provider_for env name = (if name \<in> set (ae_providers env) then Inr name
     else Inl (ProviderError (''no provider registered for '' @ name) None None None))"

text \<open>
  \<open>node_failure\<close>: a \<open>ProviderError\<close> is tagged with the node in place, any other error of
  atlantide passes, a raw exception is wrapped.
\<close>

definition node_failure :: "node_id \<Rightarrow> string \<Rightarrow> aerror \<Rightarrow> aerror" where
  "node_failure i op e = (case e of
      ProviderError m n o_p t \<Rightarrow> ProviderError m (case n of None \<Rightarrow> Some i | Some j \<Rightarrow> Some j) o_p t
    | _ \<Rightarrow> if is_atlantide_error e then e else ProviderError (op @ '' failed'') (Some i) (Some op) None)"

subsection \<open>Values\<close>

text \<open>The reducers of \<open>_TRANSFORM_OPS\<close>; an operation that cannot be hashed is a \<open>TypeError\<close>.\<close>

definition reduce_join :: "pyenv \<Rightarrow> pyval list \<Rightarrow> (aerror, pyval) result" where
  "reduce_join env vs = (case vs of
      sep # parts # _ \<Rightarrow> (case parts of
          PList xs \<Rightarrow> Inr (PStr (join_with (py_str env sep) (map (py_str env) xs)))
        | PTuple xs \<Rightarrow> Inr (PStr (join_with (py_str env sep) (map (py_str env) xs)))
        | PSet xs \<Rightarrow> Inr (PStr (join_with (py_str env sep) (map (py_str env) xs)))
        | PDict m \<Rightarrow> Inr (PStr (join_with (py_str env sep) (map (\<lambda>(k, x). py_str env k) m)))
        | PStr s \<Rightarrow> Inr (PStr (join_with (py_str env sep) (map (\<lambda>c. [c]) s)))
        | _ \<Rightarrow> Inl (PyTypeError ''not iterable''))
    | _ \<Rightarrow> Inl PyIndexError)"

definition reduce_transform :: "pyenv \<Rightarrow> formatting \<Rightarrow> pyval \<Rightarrow> pyval list \<Rightarrow> (aerror, pyval) result" where
  "reduce_transform env fmt op vs = (case op of
      PStr s \<Rightarrow>
        if s = ''concat'' then Inr (PStr (concat (map (py_str env) vs)))
        else if s = ''interpolate'' then (case vs of
            t # args \<Rightarrow> rbind (format_template fmt (py_str env t) args) (\<lambda>r. Inr (PStr r))
          | [] \<Rightarrow> Inl PyIndexError)
        else if s = ''join'' then reduce_join env vs
        else Inl (ProviderError ''unknown transform op'' None None None)
    | PList _ \<Rightarrow> Inl (PyTypeError ''unhashable'') | PDict _ \<Rightarrow> Inl (PyTypeError ''unhashable'')
    | PSet _ \<Rightarrow> Inl (PyTypeError ''unhashable'')
    | _ \<Rightarrow> Inl (ProviderError ''unknown transform op'' None None None))"

text \<open>\<open>None\<close> where the lookup falls back to the value given, so that the walk goes on.\<close>

definition lookup_output :: "live_outputs \<Rightarrow> bool \<Rightarrow> node_id \<Rightarrow> string \<Rightarrow> (aerror, pyval option) result" where
  "lookup_output outs strict n a = (case map_of outs n of
      None \<Rightarrow> if strict then Inl (KeyError n) else Inr None
    | Some bucket \<Rightarrow> (case map_of bucket a of
        None \<Rightarrow> if strict then Inl (KeyError a) else Inr None
      | Some v \<Rightarrow> Inr (Some v)))"

lemma transform_args_size: "transform_from_marker w = Inr (op, args) \<Longrightarrow> a \<in> set args \<Longrightarrow> size a < size w"
proof -
  assume t: "transform_from_marker w = Inr (op, args)" and a: "a \<in> set args"
  obtain b m where w: "w = PDict m" and m: "map_of m (PStr TRANSFORM_KEY) = Some (PDict b)"
    using t by (auto simp: transform_from_marker_def single_key_marker_def pd_get_def split: pyval.splits option.splits if_splits)
  have sk: "single_key_marker w TRANSFORM_KEY = Some (PDict b)"
    using t w m by (auto simp: transform_from_marker_def single_key_marker_def pd_get_def split: if_splits)
  obtain x where b: "map_of b (PStr ''args'') = Some x"
    and args: "(case x of PList as \<Rightarrow> Some as | PTuple as \<Rightarrow> Some as | PSet as \<Rightarrow> Some as
      | PDict m \<Rightarrow> Some (map fst m) | PStr s \<Rightarrow> Some (map (\<lambda>c. PStr [c]) s) | _ \<Rightarrow> None) = Some args"
    using t sk by (simp add: transform_from_marker_def pd_get_def split: option.splits pyval.splits)
  have x: "size a \<le> size x"
    using args a by (auto dest: size_elem_in simp: less_imp_le size_pair_fst split: pyval.splits)
  have "size x < size (PDict b)" using size_pair_in [OF map_of_SomeD [OF b]] by simp
  moreover have "size (PDict b) < size w" using size_pair_in [OF map_of_SomeD [OF m]] w by simp
  ultimately show ?thesis using x by simp
qed

function resolve_value :: "pyenv \<Rightarrow> formatting \<Rightarrow> live_outputs \<Rightarrow> bool \<Rightarrow> pyval \<Rightarrow> (aerror, pyval) result" where
  "resolve_value env fmt outs strict v = tree_map env (\<lambda>w.
     case w of
       PTransform op args \<Rightarrow>
         rbind (rmap (resolve_value env fmt outs strict) args) (\<lambda>vs.
         rbind (reduce_transform env fmt (PStr op) vs) (\<lambda>r. Inr (Some r)))
     | PRef n a \<Rightarrow> lookup_output outs strict n a
     | _ \<Rightarrow>
         if is_transform_marker w then
           (case transform_from_marker w of
              Inl e \<Rightarrow> Inl e
            | Inr (op, args) \<Rightarrow>
                rbind (rmap (resolve_value env fmt outs strict) args) (\<lambda>vs.
                rbind (reduce_transform env fmt op vs) (\<lambda>r. Inr (Some r))))
         else if is_ref_marker w then
           rbind (ref_from_marker w) (\<lambda>(n, a). rbind (lookup_output outs strict n a)
             (\<lambda>r. Inr (Some (case r of None \<Rightarrow> PRef n a | Some x \<Rightarrow> x))))
         else Inr None) False v"
  by pat_completeness auto
termination
  by (relation "measure (\<lambda>(_, _, _, _, v). size v)")
    (auto dest: size_elem_in transform_args_size)

declare resolve_value.simps [simp del]

definition needs_resolution :: "pyval \<Rightarrow> bool" where
  "needs_resolution v = tree_any False (\<lambda>w. is_ref_or_marker w \<or> is_transform_marker w) v"

definition resolve_properties :: "pyenv \<Rightarrow> formatting \<Rightarrow> live_outputs \<Rightarrow> bool \<Rightarrow> props \<Rightarrow> (aerror, props) result" where
  "resolve_properties env fmt outs strict m =
     rmap (\<lambda>(n, v). if needs_resolution v then rbind (resolve_value env fmt outs strict v) (\<lambda>w. Inr (n, w))
       else Inr (n, v)) m"

subsection \<open>Resources\<close>

text \<open>
  \<open>_updated_inputs\<close>: \<open>rewrite\<close> answers \<open>None\<close> for \<open>_KEEP\<close>; \<open>model_copy(update=...)\<close>
  overwrites the fields it is given.
\<close>

definition updated_inputs :: "resource \<Rightarrow> (pyval \<Rightarrow> (aerror, pyval option) result) \<Rightarrow> (aerror, resource) result" where
  "updated_inputs r rewrite =
     rbind (input_values r) (\<lambda>m.
     rbind (rmap (\<lambda>(n, v). rbind (rewrite v) (\<lambda>w. Inr (n, w))) m) (\<lambda>us.
       Inr (r\<lparr>rvalues := fold (\<lambda>(n, w) d. case w of None \<Rightarrow> d | Some x \<Rightarrow> AList.update n x d) us (rvalues r)\<rparr>)))"

definition resolve_refs :: "apply_env \<Rightarrow> live_outputs \<Rightarrow> resource \<Rightarrow> (aerror, resource) result" where
  "resolve_refs env outs r = updated_inputs r (\<lambda>v.
     if needs_resolution v then rbind (resolve_value (ae_py env) (ae_format env) outs True v) (\<lambda>w. Inr (Some w))
     else Inr None)"

definition resolve_secret_refs :: "apply_env \<Rightarrow> resource \<Rightarrow> (aerror, resource) result" where
  "resolve_secret_refs env r = updated_inputs r (\<lambda>v. case v of
      PSecretRef n p \<Rightarrow> rbind (api_resolve (ae_secrets env) n p) (\<lambda>s. Inr (Some (PStr s)))
    | _ \<Rightarrow> Inr None)"

definition is_stack_out :: "pyval \<Rightarrow> bool" where
  "is_stack_out v = (case v of PStackOut _ _ \<Rightarrow> True | _ \<Rightarrow> False)"

definition missing_output :: "(string \<times> pyval) list \<Rightarrow> pyval \<Rightarrow> bool" where
  "missing_output outs v = (case v of PStackOut s n \<Rightarrow> map_of outs (s @ '':'' @ n) = None | _ \<Rightarrow> False)"

function substitute_stack :: "pyenv \<Rightarrow> (string \<times> pyval) list \<Rightarrow> bool \<Rightarrow> pyval \<Rightarrow> (aerror, pyval) result" where
  "substitute_stack env outs strict v = tree_map env (\<lambda>w. case w of
      PTransform op args \<Rightarrow> rbind (rmap (substitute_stack env outs strict) args) (\<lambda>as. Inr (Some (PTransform op as)))
    | PStackOut s n \<Rightarrow> (case map_of outs (s @ '':'' @ n) of
          Some x \<Rightarrow> Inr (Some x)
        | None \<Rightarrow> if strict then Inl (ProviderError (''stack output not found: '' @ s @ '':'' @ n) None None None)
            else Inr None)
    | _ \<Rightarrow> Inr None) False v"
  by pat_completeness auto
termination by (relation "measure (\<lambda>(_, _, _, v). size v)") (auto dest: size_elem_in)

declare substitute_stack.simps [simp del]

definition rewrite_stack_refs :: "apply_env \<Rightarrow> bool \<Rightarrow> pyval \<Rightarrow> (aerror, pyval option) result" where
  "rewrite_stack_refs env strict v =
     (if \<not> tree_any True is_stack_out v then Inr None
      else rbind (substitute_stack (ae_py env) (ae_stack_outputs env) strict v) (\<lambda>w.
        if tree_any True (missing_output (ae_stack_outputs env)) v then Inr None
        else if needs_resolution w \<or> \<not> tree_any True is_transform w then Inr (Some w)
        else rbind (resolve_value (ae_py env) (ae_format env) [] True w) (\<lambda>x. Inr (Some x))))"

definition resolve_stack_refs :: "apply_env \<Rightarrow> bool \<Rightarrow> resource \<Rightarrow> (aerror, resource) result" where
  "resolve_stack_refs env strict r = updated_inputs r (rewrite_stack_refs env strict)"

text \<open>The resource a provider is given: stack outputs, then refs, then secrets.\<close>

definition resolve_for_apply :: "apply_env \<Rightarrow> live_outputs \<Rightarrow> resource \<Rightarrow> (aerror, resource) result" where
  "resolve_for_apply env outs r =
     rbind (resolve_stack_refs env True r) (\<lambda>r1. rbind (resolve_refs env outs r1) (resolve_secret_refs env))"

subsection \<open>Rows\<close>

definition COMPANION_SUFFIX :: string where "COMPANION_SUFFIX = ''~replaced''"

definition cbd_companion_id :: "node_id \<Rightarrow> node_id" where
  "cbd_companion_id i = i @ COMPANION_SUFFIX"

definition remove_suffix :: "string \<Rightarrow> string \<Rightarrow> string" where
  "remove_suffix s t = (if length t \<le> length s \<and> drop (length s - length t) s = t then take (length s - length t) s else s)"

lemma remove_suffix_append [simp]: "remove_suffix (s @ t) t = s"
  by (simp add: remove_suffix_def)

definition stack_marker_key :: "pyval \<Rightarrow> string option" where
  "stack_marker_key v = Option.bind (single_key_marker v STACK_OUTPUT_KEY) as_str"

definition committed_leaf :: "(string \<times> pyval) list \<Rightarrow> pyval \<Rightarrow> (aerror, pyval option) result" where
  "committed_leaf outs v = (case stack_marker_key v of None \<Rightarrow> Inr None | Some k \<Rightarrow> Inr (map_of outs k))"

definition rebuild_value :: "apply_env \<Rightarrow> live_outputs \<Rightarrow> pyval \<Rightarrow> (aerror, pyval) result" where
  "rebuild_value env outs v =
     (if is_secret_ref_marker v then rbind (secret_ref_from_marker (ae_py env) v) (\<lambda>(n, p). Inr (PSecretRef n p))
      else if is_stack_output_marker v then rbind (stack_output_from_marker v) (\<lambda>(s, n). Inr (PStackOut s n))
      else rbind (if tree_any True is_stack_output_marker v
                  then tree_map (ae_py env) (committed_leaf (ae_stack_outputs env)) False v else Inr v)
        (resolve_value (ae_py env) (ae_format env) outs False))"

text \<open>Outside any stack: what an instance built at apply inherits.\<close>

definition bare_ctx :: decl_ctx where
  "bare_ctx = \<lparr>dc_prefix = None, dc_stack = ''default'', dc_tags = [], dc_region = None, dc_name_prefix = None\<rparr>"

definition restored_outputs :: "apply_env \<Rightarrow> resource_class \<Rightarrow> props \<Rightarrow> props \<Rightarrow> (aerror, props) result" where
  "restored_outputs env c given outs =
     rmap (\<lambda>(k, v). rbind (api_unseal (ae_secrets env) v) (\<lambda>w. Inr (k, w)))
       (filter (\<lambda>(k, v). k \<in> fst ` set (rc_fields c) \<and> k \<notin> fst ` set given) outs)"

definition reconstruct :: "apply_env \<Rightarrow> live_outputs \<Rightarrow> state_node \<Rightarrow> (aerror, resource) result" where
  "reconstruct env outs s = (case map_of (ae_types env) (stype s) of
      None \<Rightarrow> Inl (ProviderError (''resource type is unavailable: '' @ stype s) None None None)
    | Some c \<Rightarrow>
        rbind (rmap (\<lambda>(k, v). rbind (rebuild_value env outs v) (\<lambda>w. Inr (k, w))) (sproperties s)) (\<lambda>given.
        rbind (restored_outputs env c given (soutputs s)) (\<lambda>restored.
        rbind (new_resource (ae_validate env) bare_ctx c (remove_suffix (local_name_of (sid s)) COMPANION_SUFFIX)
                 None (Inr []) (given @ restored)) (\<lambda>r.
        rbind (resolve_secret_refs env r) (resolve_stack_refs env False)))))"

definition seal_outputs :: "secrets_api \<Rightarrow> resource_class \<Rightarrow> props \<Rightarrow> (aerror, props) result" where
  "seal_outputs secrets c outs =
     (let sens = sensitive_fields (rc_fields c)
      in if sens = [] then Inr outs
         else rmap (\<lambda>(k, v). case v of
             PStr s \<Rightarrow> if k \<in> set sens then rbind (api_seal secrets s) (\<lambda>w. Inr (k, w)) else Inr (k, v)
           | _ \<Rightarrow> Inr (k, v)) outs)"

definition unseal_outputs :: "secrets_api \<Rightarrow> props \<Rightarrow> (aerror, props) result" where
  "unseal_outputs secrets outs = rmap (\<lambda>(k, v). rbind (api_unseal secrets v) (\<lambda>w. Inr (k, w))) outs"

definition live_outputs_of :: "secrets_api \<Rightarrow> state_graph \<Rightarrow> (aerror, live_outputs) result" where
  "live_outputs_of secrets rows = rmap (\<lambda>(i, s). rbind (unseal_outputs secrets (soutputs s)) (\<lambda>o_s. Inr (i, o_s))) rows"

definition ref_of :: "pyval \<Rightarrow> (aerror, node_id \<times> string) result" where
  "ref_of v = (case v of PRef n a \<Rightarrow> Inr (n, a) | _ \<Rightarrow> ref_from_marker v)"

text \<open>A reference to a sensitive output, or to one of a type this build does not know.\<close>

definition refers_sensitive :: "(string \<times> resource_class) list \<Rightarrow> pyval \<Rightarrow> (aerror, bool) result" where
  "refers_sensitive types v = rbind (ref_of v) (\<lambda>(n, a). rbind (type_name_of n) (\<lambda>t.
     case map_of types t of None \<Rightarrow> Inr True | Some c \<Rightarrow> Inr (a \<in> set (sensitive_fields (rc_fields c)))))"

fun any_sensitive :: "(string \<times> resource_class) list \<Rightarrow> pyval list \<Rightarrow> (aerror, bool) result" where
  "any_sensitive types [] = Inr False"
| "any_sensitive types (v # vs) = rbind (refers_sensitive types v) (\<lambda>b. if b then Inr True else any_sensitive types vs)"

definition sensitive_output_names :: "apply_env \<Rightarrow> (string \<times> pyval) list \<Rightarrow> (aerror, string list) result" where
  "sensitive_output_names env decls =
     rbind (rmap (\<lambda>(n, v). rbind (any_sensitive (ae_types env) (tree_collect False is_ref_or_marker v)) (\<lambda>b. Inr (n, b))) decls)
       (\<lambda>bs. Inr (map fst (filter snd bs)))"

definition secret_digests :: "apply_env \<Rightarrow> resource \<Rightarrow> node_id \<Rightarrow> (aerror, (string \<times> string) list) result" where
  "secret_digests env r i =
     rbind (input_values r) (\<lambda>raw.
       rbind (rmap (\<lambda>n. case map_of raw n of
           Some (PStr s) \<Rightarrow> rbind (api_digest (ae_secrets env) (field_scope i n) s) (\<lambda>d. Inr [(n, d)])
         | _ \<Rightarrow> Inr []) (sensitive_fields (rc_fields (rclass r)))) (\<lambda>ds. Inr (concat ds)))"

subsection \<open>State as a graph\<close>

definition ir_from_state :: "state_graph \<Rightarrow> bool \<Rightarrow> (node_id \<times> string list) list \<Rightarrow> irgraph" where
  "ir_from_state rows with_properties ignore =
     (let present = fst ` set rows
      in \<lparr>gnodes = map (\<lambda>(i, s). \<lparr>nid = sid s, ntype = stype s, nprovider = sprovider s,
          nprovider_version = sprovider_version s, nproperties = (if with_properties then sproperties s else []),
          ndependencies = filter (\<lambda>d. d \<in> present) (sdependencies s), nprevent_destroy = False, ncbd = False,
          nignore_changes = dget ignore (sid s) [], naliases = [],
          ndepends_on = filter (\<lambda>d. d \<in> present) (sdepends_on s), nkind = ResourceKind\<rparr>) rows,
         gversion = IR_VERSION\<rparr>)"

text \<open>\<open>unwrap()\<close> of a \<open>Failure\<close> raises an error that is not the failure itself.\<close>

definition unwrap :: "(aerror, (aerror, 'a) result) result \<Rightarrow> (aerror, 'a) result" where
  "unwrap r = rbind r (\<lambda>s. case s of Inl e \<Rightarrow> Inl (PyValueError ''UnwrapFailedError'') | Inr a \<Rightarrow> Inr a)"

definition state_digraph :: "state_graph \<Rightarrow> (aerror, digraph) result option" where
  "state_digraph rows = map_option unwrap (build_graph (ir_from_state rows False []))"

subsection \<open>Markers resolve as the handles they stand for\<close>

text \<open>
  A live value: scalars, references, transforms, lists, and dictionaries whose keys are
  strings other than the two marker keys. Sets are left out (a set of references is ordered by
  its markers when it is lowered, by its values when it is resolved), as are models and the
  handles that are not references.
\<close>

definition live_node :: "pyval \<Rightarrow> bool" where
  "live_node v = (case v of
      PDict m \<Rightarrow> list_all (\<lambda>(k, x). case k of PStr s \<Rightarrow> s \<noteq> REF_KEY \<and> s \<noteq> TRANSFORM_KEY | _ \<Rightarrow> False) m
    | PRef n a \<Rightarrow> CHR ''#'' \<notin> set n
    | PTransform op args \<Rightarrow> True | PList vs \<Rightarrow> True | PTuple vs \<Rightarrow> True
    | _ \<Rightarrow> is_scalar v)"

definition live_value :: "pyval \<Rightarrow> bool" where
  "live_value v = (\<not> tree_any True (\<lambda>w. \<not> live_node w) v)"

lemma live_value_eq: "live_value v \<longleftrightarrow> live_node v \<and> (\<forall>c \<in> set (child_list True v). live_value c)"
  unfolding live_value_def by (subst tree_any_eq) blast

lemma rmap_transfer:
  "rmap h xs = Inr ys \<Longrightarrow> (\<And>x y. x \<in> set xs \<Longrightarrow> h x = Inr y \<Longrightarrow> f y = f x) \<Longrightarrow> rmap f ys = rmap f xs"
proof (induction xs arbitrary: ys)
  case (Cons x xs)
  then obtain y zs where "h x = Inr y" "rmap h xs = Inr zs" "ys = y # zs" by (auto simp: rbind_Inr_iff)
  moreover from this have "f y = f x" "rmap f zs = rmap f xs" using Cons.prems(2) Cons.IH by auto
  ultimately show ?case by simp
qed simp

lemma map_items_transfer:
  assumes "map_items env b h sn m = Inr r" and "list_all (\<lambda>(k, x). \<exists>s. k = PStr s) m"
    and "\<And>k x y. (k, x) \<in> set m \<Longrightarrow> h x = Inr y \<Longrightarrow> f y = f x"
  shows "map_items env False f sn r = map_items env False f sn m \<and> map fst r = map fst m"
  using assms
proof (induction m arbitrary: sn r)
  case (Cons kx m)
  obtain s x where kx: "kx = (PStr s, x)" using Cons.prems(2) by (cases kx) auto
  obtain y r' where y: "h x = Inr y" and r': "map_items env b h (PStr s # sn) m = Inr r'" and r: "r = (PStr s, y) # r'"
    and fresh: "\<not> list_ex (py_eq (PStr s)) sn"
    using Cons.prems(1) kx by (auto simp: Let_def rbind_Inr_iff split: if_splits)
  have "map_items env False f (PStr s # sn) r' = map_items env False f (PStr s # sn) m \<and> map fst r' = map fst m"
    by (rule Cons.IH [OF r']) (use Cons.prems kx in auto)
  moreover have "f y = f x" using Cons.prems(3) [of "PStr s" x y] y kx by simp
  ultimately show ?case using fresh by (simp add: kx r Let_def)
qed simp

definition plain_dict :: "(pyval \<times> pyval) list \<Rightarrow> bool" where
  "plain_dict m = list_all (\<lambda>k. \<exists>s. k = PStr s \<and> s \<noteq> REF_KEY \<and> s \<noteq> TRANSFORM_KEY) (map fst m)"

lemma plain_dict_no_marker: "plain_dict m \<Longrightarrow> \<not> is_ref_marker (PDict m) \<and> \<not> is_transform_marker (PDict m)"
proof -
  assume p: "plain_dict m"
  have "map_of m (PStr k) = None" if "k = REF_KEY \<or> k = TRANSFORM_KEY" for k
    using p that by (fastforce simp: plain_dict_def list_all_iff map_of_eq_None_iff)
  then show ?thesis
    by (simp add: is_ref_marker_def is_transform_marker_def single_key_marker_def pd_get_def)
qed

lemma resolve_step:
  assumes "\<not> is_ref v" and "\<not> is_transform v" and "\<not> is_ref_marker v" and "\<not> is_transform_marker v"
  shows "resolve_value env fmt outs strict v = tree_step env False (resolve_value env fmt outs strict) v"
proof -
  have "tree_map env (\<lambda>w. case w of
       PTransform op args \<Rightarrow>
         rbind (rmap (resolve_value env fmt outs strict) args) (\<lambda>vs.
         rbind (reduce_transform env fmt (PStr op) vs) (\<lambda>r. Inr (Some r)))
     | PRef n a \<Rightarrow> lookup_output outs strict n a
     | _ \<Rightarrow>
         if is_transform_marker w then
           (case transform_from_marker w of
              Inl e \<Rightarrow> Inl e
            | Inr (op, args) \<Rightarrow>
                rbind (rmap (resolve_value env fmt outs strict) args) (\<lambda>vs.
                rbind (reduce_transform env fmt op vs) (\<lambda>r. Inr (Some r))))
         else if is_ref_marker w then
           rbind (ref_from_marker w) (\<lambda>(n, a). rbind (lookup_output outs strict n a)
             (\<lambda>r. Inr (Some (case r of None \<Rightarrow> PRef n a | Some x \<Rightarrow> x))))
         else Inr None) False = resolve_value env fmt outs strict"
    by (rule ext) (simp only: resolve_value.simps [symmetric])
  then show ?thesis
    using assms by (subst resolve_value.simps, subst tree_map.simps) (cases v; simp add: is_ref_def is_transform_def)
qed

lemma resolve_ref: "resolve_value env fmt outs True (PRef n a) = rbind (lookup_output outs True n a) (\<lambda>r. Inr (the r))"
  by (subst resolve_value.simps, subst tree_map.simps)
    (auto simp: lookup_output_def split: option.split)

lemma resolve_transform: "resolve_value env fmt outs strict (PTransform op args) =
    rbind (rmap (resolve_value env fmt outs strict) args) (reduce_transform env fmt (PStr op))"
  by (subst resolve_value.simps, subst tree_map.simps)
    (cases "rmap (resolve_value env fmt outs strict) args"; simp add: rbind_def split: sum.split)

lemma resolve_ref_marker:
  assumes "CHR ''#'' \<notin> set n"
  shows "resolve_value env fmt outs True (pdict [(REF_KEY, PStr (n @ ''#'' @ a))]) = resolve_value env fmt outs True (PRef n a)"
proof -
  let ?m = "pdict [(REF_KEY, PStr (n @ ''#'' @ a))]"
  have "is_ref_marker ?m" "ref_from_marker ?m = Inr (n, a)" "\<not> is_transform_marker ?m"
    using assms split_once_sep [of "CHR ''#''" n a]
    by (simp_all add: is_ref_marker_def ref_from_marker_def is_transform_marker_def single_key_marker_def
        pdict_def pd_get_def marker_keys)
  then show ?thesis
    unfolding resolve_ref by (subst resolve_value.simps, subst tree_map.simps)
      (auto simp: pdict_def lookup_output_def split: option.split)
qed

lemma resolve_transform_marker:
  "resolve_value env fmt outs strict (pdict [(TRANSFORM_KEY, pdict [(''op'', PStr op), (''args'', PList ws)])]) =
    rbind (rmap (resolve_value env fmt outs strict) ws) (reduce_transform env fmt (PStr op))"
proof -
  let ?m = "pdict [(TRANSFORM_KEY, pdict [(''op'', PStr op), (''args'', PList ws)])]"
  have "is_transform_marker ?m" "transform_from_marker ?m = Inr (PStr op, ws)"
    by (simp_all add: is_transform_marker_def transform_from_marker_def single_key_marker_def pdict_def pd_get_def)
  then show ?thesis
    by (subst resolve_value.simps, subst tree_map.simps)
      (cases "rmap (resolve_value env fmt outs strict) ws"; simp add: pdict_def rbind_def split: sum.split)
qed

lemma not_handle: "\<not> is_handle (PDict m)" "\<not> is_handle (PList vs)" "\<not> is_handle (PTuple vs)"
  by (simp_all add: is_handle_def)

lemma scalar_lowers: "is_scalar v \<Longrightarrow> handles_to_markers env is_handle b v = Inr v"
  by (subst handles_to_markers_step; cases v; simp add: is_handle_def tree_step_def)

lemma resolve_marker_agrees_gen:
  assumes "live_value v" and "handles_to_markers env is_handle b v = Inr w"
  shows "resolve_value env fmt outs True w = resolve_value env fmt outs True v"
  using assms
proof (induction v arbitrary: b w rule: child_induct [of True])
  case (node v)
  let ?R = "resolve_value env fmt outs True"
  have live: "live_node v" "\<And>c. c \<in> set (child_list True v) \<Longrightarrow> live_value c"
    using node.prems(1) live_value_eq by blast+
  have IH: "c \<in> set (child_list True v) \<Longrightarrow> handles_to_markers env is_handle b' c = Inr y \<Longrightarrow> ?R y = ?R c" for c b' y
    using node.IH live(2) by blast
  have step: "handles_to_markers env is_handle b v = tree_step env b (handles_to_markers env is_handle b) v"
    if "\<not> is_handle v" using that by (rule handles_to_markers_step)
  show ?case
  proof (cases v)
    case (PRef n a)
    then show ?thesis
      using node.prems(2) live(1) resolve_ref_marker by (auto simp: handles_to_markers_handle is_handle_def live_node_def)
  next
    case (PTransform op args)
    then obtain ws where ws: "rmap (handles_to_markers env is_handle False) args = Inr ws"
      and w: "w = pdict [(TRANSFORM_KEY, pdict [(''op'', PStr op), (''args'', PList ws)])]"
      using node.prems(2) by (auto simp: handles_to_markers_handle is_handle_def rbind_Inr_iff)
    have "rmap ?R ws = rmap ?R args"
      using ws by (rule rmap_transfer) (rule IH, simp_all add: PTransform)
    then show ?thesis by (simp add: w PTransform resolve_transform_marker resolve_transform)
  next
    case (PDict m)
    have plain: "plain_dict m" using live(1) PDict by (fastforce simp: live_node_def plain_dict_def list_all_iff split: pyval.splits)
    obtain r where r: "map_items env b (handles_to_markers env is_handle b) [] m = Inr r" and w: "w = PDict r"
      using node.prems(2) step [unfolded PDict] PDict by (auto simp: not_handle tree_step_def rbind_Inr_iff)
    have t: "map_items env False ?R [] r = map_items env False ?R [] m \<and> map fst r = map fst m"
    proof (rule map_items_transfer [OF r])
      show "list_all (\<lambda>(k, x). \<exists>s. k = PStr s) m" using plain by (fastforce simp: plain_dict_def list_all_iff)
      show "?R y = ?R x" if "(k, x) \<in> set m" "handles_to_markers env is_handle b x = Inr y" for k x y
        by (rule IH [OF _ that(2)]) (use that(1) PDict in force)
    qed
    then have "plain_dict r" using plain by (simp add: plain_dict_def)
    then show ?thesis
      using t plain_dict_no_marker plain by (simp add: w PDict resolve_step is_ref_def is_transform_def tree_step_def)
  next
    case (PList vs)
    have "tree_step env b (handles_to_markers env is_handle b) v = Inr w"
      using node.prems(2) by (simp add: PList not_handle handles_to_markers_step)
    then obtain ws where ws: "rmap (handles_to_markers env is_handle b) vs = Inr ws" and w: "w = PList ws"
      by (auto simp: PList tree_step_def rbind_Inr_iff)
    have "rmap ?R ws = rmap ?R vs"
      using ws by (rule rmap_transfer) (rule IH, simp_all add: PList)
    then show ?thesis
      by (simp add: w PList resolve_step is_ref_def is_transform_def is_ref_marker_def is_transform_marker_def
          single_key_marker_def tree_step_def)
  next
    case (PTuple vs)
    have "tree_step env b (handles_to_markers env is_handle b) v = Inr w"
      using node.prems(2) by (simp add: PTuple not_handle handles_to_markers_step)
    then obtain ws where ws: "rmap (handles_to_markers env is_handle b) vs = Inr ws" and w: "w = PList ws"
      by (auto simp: PTuple tree_step_def rbind_Inr_iff)
    have "rmap ?R ws = rmap ?R vs"
      using ws by (rule rmap_transfer) (rule IH, simp_all add: PTuple)
    then show ?thesis
      by (simp add: w PTuple resolve_step is_ref_def is_transform_def is_ref_marker_def is_transform_marker_def
          single_key_marker_def tree_step_def)
  qed (use node.prems(2) live(1) scalar_lowers in \<open>auto simp: live_node_def\<close>)
qed

text \<open>
  What the row records is what the provider was given: the marker form of a live value (in
  the IR, in an artifact, in a state row) resolves against any outputs exactly as the live
  value does, to the same value or to the same error.
\<close>

lemma resolve_marker_agrees:
  assumes "live_value v" and "canonicalize env v = Inr w"
  shows "resolve_value env fmt outs True w = resolve_value env fmt outs True v"
  by (rule resolve_marker_agrees_gen [OF assms(1)]) (use assms(2) in \<open>simp add: canonicalize_def\<close>)

definition live_sample :: pyval where
  "live_sample = pdict [(''url'', PTransform ''concat'' [PStr ''https://'', PRef ''s:t:a'' ''host'']), (''n'', PTuple [PInt 1])]"

definition live_sample_marker :: pyval where
  "live_sample_marker = pdict [(''url'', pdict [(TRANSFORM_KEY, pdict [(''op'', PStr ''concat''),
     (''args'', PList [PStr ''https://'', pdict [(REF_KEY, PStr ''s:t:a#host'')]])])]), (''n'', PList [PInt 1])]"

subsection \<open>Handles that are not resolved\<close>

definition page_class :: resource_class where
  "page_class = \<lparr>rc_name = ''Page'', rc_provider = ''web'',
     rc_fields = [(''url'', Some (mutable False False)), (''tags'', Some (mutable False False))],
     rc_tags_default = PDict [], rc_data = False\<rparr>"

definition page_resource :: resource where
  "page_resource = \<lparr>rclass = page_class, rname = ''p'', rstack = ''s'',
     rvalues = [(''url'', PTransform ''concat'' [PStr ''https://'', PStr ''x'']),
                (''tags'', pdict [(''token'', PSecretRef ''api/token'' None)])],
     rlifecycle = None, rdepends_on = []\<rparr>"

lemma updated_inputs_keep:
  "input_values r = Inr m \<Longrightarrow> (\<And>n v. (n, v) \<in> set m \<Longrightarrow> rewrite v = Inr None) \<Longrightarrow> updated_inputs r rewrite = Inr r"
proof -
  assume m: "input_values r = Inr m" and k: "\<And>n v. (n, v) \<in> set m \<Longrightarrow> rewrite v = Inr None"
  have "rmap (\<lambda>(n, v). rbind (rewrite v) (\<lambda>w. Inr (n, w))) m = Inr (map (\<lambda>(n, v). (n, None)) m)"
    by (rule rmap_pure) (use k in auto)
  moreover have "fold (\<lambda>(n, w) d. case w of None \<Rightarrow> d | Some x \<Rightarrow> AList.update n x d) (map (\<lambda>(n, v). (n, None)) m) d = d" for d :: props
    by (induction m arbitrary: d) auto
  ultimately show ?thesis using m by (simp add: updated_inputs_def)
qed

text \<open>
  Two forms a configuration may write reach the provider unresolved, whatever the
  environment: a transform over literals alone (no reference makes it \<open>needs_resolution\<close>),
  and a secret handle inside a container (only a field that is itself a handle is replaced).
  The marker of that transform, which a deployed artifact holds, does resolve, to the string.
\<close>

lemma unresolved_handles_reach_provider:
  "resolve_for_apply env outs page_resource = Inr page_resource \<and>
   resolve_value (ae_py env) (ae_format env) outs True
     (pdict [(TRANSFORM_KEY, pdict [(''op'', PStr ''concat''), (''args'', PList [PStr ''https://'', PStr ''x''])])])
     = Inr (PStr ''https://x'')"
proof
  let ?m = "rvalues page_resource"
  have m: "input_values page_resource = Inr ?m" by code_simp
  have none: "tree_any True is_stack_out v = False \<and> needs_resolution v = False \<and> (\<forall>n p. v \<noteq> PSecretRef n p)"
    if "(n, v) \<in> set ?m" for n v
  proof -
    have "list_all (\<lambda>(n, v). \<not> tree_any True is_stack_out v \<and> \<not> needs_resolution v) ?m" by code_simp
    then show ?thesis using that by (auto simp: list_all_iff page_resource_def pdict_def)
  qed
  have "resolve_stack_refs env True page_resource = Inr page_resource"
    unfolding resolve_stack_refs_def by (rule updated_inputs_keep [OF m]) (use none in \<open>auto simp: rewrite_stack_refs_def\<close>)
  moreover have "resolve_refs env outs page_resource = Inr page_resource"
    unfolding resolve_refs_def by (rule updated_inputs_keep [OF m]) (use none in auto)
  moreover have "resolve_secret_refs env page_resource = Inr page_resource"
    unfolding resolve_secret_refs_def by (rule updated_inputs_keep [OF m]) (use none in \<open>auto split: pyval.split\<close>)
  ultimately show "resolve_for_apply env outs page_resource = Inr page_resource" by (simp add: resolve_for_apply_def)
  have "resolve_value (ae_py env) (ae_format env) outs True (PStr s) = Inr (PStr s)" for s
    by (subst resolve_step) (simp_all add: is_ref_def is_transform_def is_ref_marker_def is_transform_marker_def
        single_key_marker_def tree_step_def)
  then show "resolve_value (ae_py env) (ae_format env) outs True
     (pdict [(TRANSFORM_KEY, pdict [(''op'', PStr ''concat''), (''args'', PList [PStr ''https://'', PStr ''x''])])])
     = Inr (PStr ''https://x'')"
    by (simp add: resolve_transform_marker reduce_transform_def py_str_def)
qed

end
