(* ===== verification/Providers.thy ===== *)
theory Providers
  imports Template
begin

text \<open>
  The provider registry and version compatibility (\<open>core/registry.py\<close>). A provider is its
  name and its version string; the calls it answers belong to the executor's model.
\<close>

subsection \<open>Semantic versions\<close>

type_synonym semver = "nat \<times> nat \<times> nat"

definition number_part :: "string \<Rightarrow> nat option" where
  "number_part s = (if s \<noteq> [] \<and> list_all is_digit s then Some (digits_value s) else None)"

text \<open>The pattern's \<open>$\<close> also matches before a trailing newline.\<close>

definition drop_newline :: "string \<Rightarrow> string" where
  "drop_newline s = (if s \<noteq> [] \<and> last s = CHR 0x0A then butlast s else s)"

definition parse_semver :: "string \<Rightarrow> (aerror, semver) result" where
  "parse_semver v =
     (let (a, dot1, rest) = partition_at CHR ''.'' (drop_newline v);
          (b, dot2, c) = partition_at CHR ''.'' rest
      in case (number_part a, number_part b, number_part c) of
           (Some x, Some y, Some z) \<Rightarrow> Inr (x, y, z)
         | _ \<Rightarrow> Inl (RegistryError ''invalid semver: expected MAJOR.MINOR.PATCH'' [v]))"

definition semver_less :: "semver \<Rightarrow> semver \<Rightarrow> bool" where
  "semver_less v w = (case (v, w) of ((a, b, c), (x, y, z)) \<Rightarrow> a < x \<or> (a = x \<and> (b < y \<or> (b = y \<and> c < z))))"

text \<open>\<open>_requirement\<close>: whether \<open>actual\<close> fails to satisfy \<open>pinned\<close>.\<close>

definition incompatible :: "semver \<Rightarrow> semver \<Rightarrow> bool" where
  "incompatible pinned actual =
     (if fst pinned = 0 \<or> fst actual = 0 then pinned \<noteq> actual
      else fst pinned \<noteq> fst actual \<or> semver_less actual pinned)"

definition check_compatible :: "string \<Rightarrow> string \<Rightarrow> (aerror, unit) result" where
  "check_compatible pinned actual =
     rbind (parse_semver pinned) (\<lambda>p. rbind (parse_semver actual) (\<lambda>a.
       if incompatible p a then Inl (RegistryError ''provider version incompatible'' [pinned, actual]) else Inr ()))"

subsection \<open>The registry\<close>

type_synonym provider_registry = "(string \<times> string) list"

definition register_provider :: "string \<Rightarrow> string \<Rightarrow> provider_registry \<Rightarrow> (aerror, provider_registry) result" where
  "register_provider name version ps =
     (if name = [] then Inl (RegistryError ''provider declares no name'' [])
      else rbind (parse_semver version) (\<lambda>_.
        if name \<in> fst ` set ps then Inl (RegistryError ''duplicate provider'' [name])
        else Inr (AList.update name version ps)))"

definition get_provider :: "provider_registry \<Rightarrow> string \<Rightarrow> (aerror, string) result" where
  "get_provider ps name = (case map_of ps name of
     None \<Rightarrow> Inl (RegistryError ''unknown provider'' [name]) | Some v \<Rightarrow> Inr v)"

definition check_provider :: "provider_registry \<Rightarrow> string \<Rightarrow> string \<Rightarrow> (aerror, unit) result" where
  "check_provider ps name pinned = rbind (get_provider ps name) (check_compatible pinned)"

subsection \<open>Compatibility\<close>

lemma parse_partition:
  assumes "parse_semver v = Inr (x, y, z)"
  shows "\<exists>a b c. drop_newline v = a @ ''.'' @ b @ ''.'' @ c \<and> number_part a = Some x \<and> number_part b = Some y \<and> number_part c = Some z"
proof -
  obtain a d1 r where p1: "partition_at CHR ''.'' (drop_newline v) = (a, d1, r)" by (metis prod_cases3)
  obtain b d2 c where p2: "partition_at CHR ''.'' r = (b, d2, c)" by (metis prod_cases3)
  have n: "number_part a = Some x" "number_part b = Some y" "number_part c = Some z"
    using assms p1 p2 by (auto simp: parse_semver_def split: option.splits)
  have sep: "s = p @ d @ q" if "partition_at ch s = (p, d, q)" for ch s p d q
    using that partition_at_join [of ch s] by simp
  have dd: "d = [ch]" if "partition_at ch s = (p, d, q)" "q \<noteq> []" for ch s p d q
  proof (rule ccontr)
    assume "d \<noteq> [ch]"
    then have "ch \<notin> set s" using that(1) by (auto simp: partition_at_def split: if_splits)
    then have "dropWhile (\<lambda>x. x \<noteq> ch) s = []" by (auto simp: dropWhile_eq_Nil_conv)
    moreover have "q = drop 1 (dropWhile (\<lambda>x. x \<noteq> ch) s)" using that(1) unfolding partition_at_def by blast
    ultimately show False using that(2) by (metis drop_Nil)
  qed
  have "c \<noteq> []" using n by (auto simp: number_part_def split: if_splits)
  then have r: "r = b @ ''.'' @ c" using sep [OF p2] dd [OF p2] by simp
  moreover have "drop_newline v = a @ ''.'' @ r" using sep [OF p1] dd [OF p1] r by simp
  ultimately show ?thesis using n by blast
qed

text \<open>
  A build accepted for a pin is accepted for every pin it is itself pinned at in turn: from
  major one on, compatibility is a preorder, and below it equality.
\<close>

lemma compatible_trans: "\<not> incompatible u v \<Longrightarrow> \<not> incompatible v w \<Longrightarrow> \<not> incompatible u w"
  by (cases u; cases v; cases w) (auto simp: incompatible_def semver_less_def split: if_splits)

lemma compatible_refl: "\<not> incompatible v v"
  by (cases v) (auto simp: incompatible_def semver_less_def)

definition registry_wf :: "provider_registry \<Rightarrow> bool" where
  "registry_wf ps \<longleftrightarrow> wf_dict ps \<and> (\<forall>(n, v) \<in> set ps. n \<noteq> [] \<and> (\<exists>s. parse_semver v = Inr s))"

lemma register_provider_wf [inv_intros]:
  assumes "registry_wf ps" and "register_provider n v ps = Inr ps'"
  shows "registry_wf ps' \<and> map_of ps' n = Some v"
proof -
  have n: "n \<notin> fst ` set ps" and "ps' = AList.update n v ps" and "n \<noteq> []" "\<exists>s. parse_semver v = Inr s"
    using assms(2) by (auto simp: register_provider_def rbind_Inr_iff split: if_splits)
  moreover have "map_of ps n = None" using n by (simp add: map_of_eq_None_iff)
  moreover have "map_of (AList.update n v ps) n = Some v" by (simp add: update_conv')
  ultimately show ?thesis using assms(1) by (auto simp: registry_wf_def update_fresh simp del: map_of_append)
qed

text \<open>A registered provider satisfies its own version as a pin.\<close>

lemma check_own_version: "registry_wf ps \<Longrightarrow> map_of ps n = Some v \<Longrightarrow> check_provider ps n v = Inr ()"
  by (force simp: check_provider_def get_provider_def check_compatible_def registry_wf_def compatible_refl dest!: map_of_SomeD)

end
