(* ===== verification/Lowering.thy ===== *)
theory Lowering
  imports Resolve Providers Merkle TopoOrder
begin

text \<open>
  From declared resources to the compiled configuration and back: lowering
  (\<open>ir/lower.py\<close>), the portable artifact (\<open>ir/artifact.py\<close>), and compilation from source or
  from an artifact (\<open>engine/compiler.py\<close>, \<open>engine/model.py\<close>). \<open>artifact_json\<close> is the value handed to
  \<open>json.dumps\<close>, \<open>load_artifact\<close> reads the value \<open>json.loads\<close> gives; what lies between, the text of
  the file, is in \<open>ArtifactText\<close>.
\<close>

subsection \<open>Lowering\<close>

definition resolve_version :: "string \<Rightarrow> provider_registry option \<Rightarrow> string" where
  "resolve_version name ps = (case ps of
      None \<Rightarrow> []
    | Some r \<Rightarrow> if name = [] then [] else (case get_provider r name of Inr v \<Rightarrow> v | Inl _ \<Rightarrow> []))"

definition ref_node :: "pyval \<Rightarrow> node_id" where
  "ref_node v = (case v of PRef n _ \<Rightarrow> n | _ \<Rightarrow> [])"

definition lower_resource :: "pyenv \<Rightarrow> provider_registry option \<Rightarrow> resource \<Rightarrow> (aerror, irnode) result" where
  "lower_resource env ps r =
     rbind (resource_refs r) (\<lambda>refs.
     rbind (canonical_inputs env r) (\<lambda>m.
       let p = rc_provider (rclass r); lc = lifecycle_of r
       in Inr \<lparr>nid = node_id_of r, ntype = type_name (rclass r), nprovider = p, nprovider_version = resolve_version p ps,
           nproperties = m, ndependencies = sorted_set (map ref_node refs), nprevent_destroy = lc_prevent_destroy lc,
           ncbd = lc_cbd lc, nignore_changes = lc_ignore_changes lc, naliases = lc_aliases lc, ndepends_on = rdepends_on r,
           nkind = (if rc_data (rclass r) then DataKind else ResourceKind)\<rparr>))"

definition lower :: "pyenv \<Rightarrow> resource_registry \<Rightarrow> provider_registry option \<Rightarrow> (aerror, irgraph) result" where
  "lower env reg ps = rbind (rmap (lower_resource env ps) (registry_all reg)) (\<lambda>ns. Inr \<lparr>gnodes = ns, gversion = IR_VERSION\<rparr>)"

text \<open>A node per resource, sorted by id, each id once.\<close>

lemma lower_nodes:
  assumes "registry_ok reg" and "lower env reg ps = Inr ir"
  shows "map nid (gnodes ir) = sort (map fst (reg_resources reg)) \<and> distinct (map nid (gnodes ir)) \<and> sorted (map nid (gnodes ir))"
proof -
  obtain ns where ns: "rmap (lower_resource env ps) (registry_all reg) = Inr ns" and ir: "gnodes ir = ns"
    using assms(2) by (auto simp: lower_def rbind_Inr_iff)
  have "nid n = node_id_of r" if "lower_resource env ps r = Inr n" for n r
    using that by (auto simp: lower_resource_def rbind_Inr_iff Let_def)
  then have "map nid ns = map node_id_of (registry_all reg)"
    using ns by (intro nth_equalityI) (auto simp: rmap_Inr_iff)
  then have "map nid (gnodes ir) = sort (map fst (reg_resources reg))"
    using registry_all_ids(1) [OF assms(1)] ir by simp
  moreover have "wf_dict (reg_resources reg)" using assms(1) by (simp add: registry_ok_def)
  ultimately show ?thesis by simp
qed

subsection \<open>Artifacts\<close>

definition ARTIFACT_FORMAT :: int where "ARTIFACT_FORMAT = 1"

record artifact =
  ar_ir :: irgraph
  ar_hash :: string
  ar_pins :: "(string \<times> string) list"
  ar_policies :: "policy_binding list"
  ar_outputs :: props
  ar_component_pins :: "(string \<times> string) list"
  ar_envs :: "string list"
  ar_envs_declared :: "string list"
  ar_format :: int

fun provider_pins :: "irnode list \<Rightarrow> (string \<times> string) list \<Rightarrow> (aerror, (string \<times> string) list) result" where
  "provider_pins [] pins = Inr pins"
| "provider_pins (n # ns) pins =
     (if nprovider n = [] then provider_pins ns pins
      else if (case map_of pins (nprovider n) of None \<Rightarrow> False | Some v \<Rightarrow> v \<noteq> nprovider_version n)
      then Inl (ArtifactError ''provider pinned at two versions'' [nprovider n])
      else provider_pins ns (AList.update (nprovider n) (nprovider_version n) pins))"

definition build_artifact ::
  "pyenv \<Rightarrow> (string \<Rightarrow> string) \<Rightarrow> irgraph \<Rightarrow> policy_binding list \<Rightarrow> props \<Rightarrow> (string \<times> string) list \<Rightarrow> string list \<Rightarrow> string list
     \<Rightarrow> (aerror, artifact) result" where
  "build_artifact env sha ir policies outputs component_pins envs envs_declared =
     rbind (hash_ir env sha ir) (\<lambda>h.
     rbind (provider_pins (gnodes ir) []) (\<lambda>pins.
     rbind (rmap (\<lambda>(k, v). rbind (refs_to_markers env v) (\<lambda>w. Inr (k, w))) outputs) (\<lambda>outs.
       Inr \<lparr>ar_ir = ir, ar_hash = h, ar_pins = pins, ar_policies = policies, ar_outputs = outs,
           ar_component_pins = component_pins, ar_envs = envs, ar_envs_declared = envs_declared,
           ar_format = ARTIFACT_FORMAT\<rparr>)))"

definition verify_hash :: "pyenv \<Rightarrow> (string \<Rightarrow> string) \<Rightarrow> artifact \<Rightarrow> (aerror, unit) result" where
  "verify_hash env sha a = rbind (hash_ir env sha (ar_ir a)) (\<lambda>h.
     if h \<noteq> ar_hash a then Inl (ArtifactError ''artifact hash mismatch'' [ar_hash a, h]) else Inr ())"

definition str_dict :: "(string \<times> string) list \<Rightarrow> pyval" where
  "str_dict m = pdict (map (\<lambda>(k, v). (k, PStr v)) m)"

definition level_str :: "policy_level \<Rightarrow> string" where
  "level_str l = (case l of ADVISORY \<Rightarrow> ''advisory'' | MANDATORY \<Rightarrow> ''mandatory'')"

definition binding_json :: "policy_binding \<Rightarrow> pyval" where
  "binding_json b = pdict [(''name'', PStr (pb_name b)), (''level'', PStr (level_str (pb_level b))),
     (''types'', case pb_types b of None \<Rightarrow> PNone | Some ts \<Rightarrow> strs (sort ts)), (''params'', pdict (pb_params b))]"

definition artifact_json :: "artifact \<Rightarrow> pyval" where
  "artifact_json a = pdict [(''format_version'', PInt (ar_format a)), (''ir_hash'', PStr (ar_hash a)),
     (''ir'', graph_to_stored (ar_ir a)), (''provider_pins'', str_dict (ar_pins a)),
     (''component_pins'', str_dict (ar_component_pins a)), (''policies'', PList (map binding_json (ar_policies a))),
     (''outputs'', pdict (ar_outputs a)), (''envs'', strs (ar_envs a)), (''envs_declared'', strs (ar_envs_declared a))]"

definition level_of :: "string \<Rightarrow> (aerror, policy_level) result" where
  "level_of s = (if s = ''advisory'' then Inr ADVISORY else if s = ''mandatory'' then Inr MANDATORY
     else Inl (PyValueError ''not a PolicyLevel''))"

definition binding_from_json :: "pyval \<Rightarrow> (aerror, policy_binding) result" where
  "binding_from_json v =
     rbind (as_dict v) (\<lambda>m.
     rbind (at_key m ''types'') (\<lambda>ts.
     rbind (rbind (at_key m ''name'') to_str) (\<lambda>n.
     rbind (rbind (rbind (at_key m ''level'') to_str) level_of) (\<lambda>l.
     rbind (if ts = PNone then Inr None else rbind (to_strs ts) (\<lambda>xs. Inr (Some xs))) (\<lambda>types.
     rbind (rbind (at_key m ''params'') to_props) (\<lambda>ps.
       Inr \<lparr>pb_name = n, pb_level = l, pb_types = types, pb_params = ps\<rparr>))))))"

definition to_str_dict :: "pyval \<Rightarrow> (aerror, (string \<times> string) list) result" where
  "to_str_dict v = rbind (to_props v) (rmap (\<lambda>(k, x). rbind (to_str x) (\<lambda>s. Inr (k, s))))"

definition malformed :: "(aerror, 'a) result \<Rightarrow> (aerror, 'a) result" where
  "malformed r = (case r of
      Inl (KeyError k) \<Rightarrow> Inl (ArtifactError ''malformed artifact'' [])
    | Inl (PyTypeError k) \<Rightarrow> Inl (ArtifactError ''malformed artifact'' [])
    | Inl (PyValueError k) \<Rightarrow> Inl (ArtifactError ''malformed artifact'' [])
    | _ \<Rightarrow> r)"

text \<open>\<open>loads\<close>, on the value the text parses to.\<close>

definition load_artifact :: "pyval \<Rightarrow> (aerror, artifact) result" where
  "load_artifact v = (case v of
      PDict m \<Rightarrow>
        if \<not> py_eq (at_key_or m ''format_version'' PNone) (PInt ARTIFACT_FORMAT)
        then Inl (ArtifactError ''unsupported artifact format'' [])
        else malformed (
          rbind (rbind (at_key m ''ir'') graph_from_stored) (\<lambda>ir.
          rbind (rbind (at_key m ''ir_hash'') to_str) (\<lambda>h.
          rbind (rbind (at_key m ''provider_pins'') to_str_dict) (\<lambda>pins.
          rbind (rbind (rbind (at_key m ''policies'') to_list) (rmap binding_from_json)) (\<lambda>ps.
          rbind (rbind (at_key m ''outputs'') to_props) (\<lambda>outs.
          rbind (rbind (at_key m ''component_pins'') to_str_dict) (\<lambda>cps.
          rbind (rbind (at_key m ''envs'') to_strs) (\<lambda>es.
          rbind (to_strs (at_key_or m ''envs_declared'' (PTuple []))) (\<lambda>eds.
            Inr \<lparr>ar_ir = ir, ar_hash = h, ar_pins = pins, ar_policies = ps, ar_outputs = outs, ar_component_pins = cps,
                ar_envs = es, ar_envs_declared = eds, ar_format = ARTIFACT_FORMAT\<rparr>)))))))))
    | _ \<Rightarrow> Inl (ArtifactError ''artifact must be a JSON object'' []))"

subsection \<open>Compiled configurations\<close>

record compiled =
  co_ir :: irgraph
  co_graph :: digraph
  co_hashes :: "(node_id \<times> string) list"
  co_resources :: "(node_id \<times> resource) list"
  co_bindings :: "policy_binding list"
  co_outputs :: props
  co_inputs :: props
  co_envs_declared :: "string list"
  co_envs_selected :: "string list"

definition envs_excluded :: "compiled \<Rightarrow> string list" where
  "envs_excluded c = filter (\<lambda>e. e \<notin> set (co_envs_selected c)) (co_envs_declared c)"

text \<open>The graph and its order come from loops whose not ending would be the value \<open>None\<close>.\<close>

definition assemble_compiled ::
  "pyenv \<Rightarrow> (string \<Rightarrow> string) \<Rightarrow> irgraph \<Rightarrow> (node_id \<times> resource) list \<Rightarrow> policy_binding list \<Rightarrow> props \<Rightarrow> props
     \<Rightarrow> string list \<Rightarrow> string list \<Rightarrow> (aerror, compiled) result option" where
  "assemble_compiled env sha ir resources bindings outputs inputs declared selected =
     (case build_graph ir of
        None \<Rightarrow> None
      | Some (Inl e) \<Rightarrow> Some (Inl e)
      | Some (Inr (Inl e)) \<Rightarrow> Some (Inl e)
      | Some (Inr (Inr g)) \<Rightarrow> map_option (\<lambda>topo. rbind topo (\<lambda>order.
          rbind (merkle_hashes env sha ir order) (\<lambda>hs.
            Inr \<lparr>co_ir = ir, co_graph = g, co_hashes = hs, co_resources = resources, co_bindings = bindings,
                co_outputs = outputs, co_inputs = inputs, co_envs_declared = declared, co_envs_selected = selected\<rparr>)))
          (topological_order g False))"

definition compile_lowered ::
  "pyenv \<Rightarrow> (string \<Rightarrow> string) \<Rightarrow> resource_registry \<Rightarrow> provider_registry \<Rightarrow> (aerror, compiled) result option" where
  "compile_lowered env sha reg ps = (case lower env reg (Some ps) of
      Inl e \<Rightarrow> Some (Inl e)
    | Inr ir \<Rightarrow> assemble_compiled env sha ir (dict_of node_id_of (\<lambda>r. r) (registry_all reg)) (reg_bindings reg)
        (reg_outputs reg) (reg_inputs reg) (reg_envs_declared reg) (reg_envs_selected reg))"

definition artifact_of :: "pyenv \<Rightarrow> (string \<Rightarrow> string) \<Rightarrow> compiled \<Rightarrow> (string \<times> string) list \<Rightarrow> (aerror, artifact) result" where
  "artifact_of env sha c component_pins = build_artifact env sha (co_ir c) (co_bindings c) (co_outputs c) component_pins
     (co_envs_selected c) (co_envs_declared c)"

fun check_pins :: "provider_registry \<Rightarrow> (string \<times> string) list \<Rightarrow> (aerror, unit) result" where
  "check_pins ps [] = Inr ()"
| "check_pins ps ((n, v) # pins) = rbind (check_provider ps n v) (\<lambda>_. check_pins ps pins)"

definition verify_artifact :: "pyenv \<Rightarrow> (string \<Rightarrow> string) \<Rightarrow> artifact \<Rightarrow> provider_registry \<Rightarrow> (aerror, unit) result" where
  "verify_artifact env sha a ps = rbind (verify_hash env sha a) (\<lambda>_. check_pins ps (sort_key fst (ar_pins a)))"

definition markers_leaf :: "pyenv \<Rightarrow> pyval \<Rightarrow> (aerror, pyval option) result" where
  "markers_leaf env v =
     (if is_ref_marker v then rbind (ref_from_marker v) (\<lambda>(n, a). Inr (Some (PRef n a)))
      else if is_secret_ref_marker v then rbind (secret_ref_from_marker env v) (\<lambda>(n, p). Inr (Some (PSecretRef n p)))
      else Inr None)"

definition markers_to_refs :: "pyenv \<Rightarrow> pyval \<Rightarrow> (aerror, pyval) result" where
  "markers_to_refs env v = tree_map env (markers_leaf env) False v"

definition rehydrate_node ::
  "apply_env \<Rightarrow> irnode \<Rightarrow> (aerror, node_id \<times> resource) result" where
  "rehydrate_node env n = (case map_of (ae_types env) (ntype n) of
      None \<Rightarrow> Inl (RegistryError ''cannot deploy: resource type is not registered'' [nid n, ntype n])
    | Some c \<Rightarrow>
        rbind (rmap (\<lambda>(k, v). rbind (markers_to_refs (ae_py env) v) (\<lambda>w. Inr (k, w))) (nproperties n)) (\<lambda>ps.
        rbind (new_resource (ae_validate env) bare_ctx c (local_name_of (nid n))
                 (Some \<lparr>lc_prevent_destroy = nprevent_destroy n, lc_cbd = ncbd n,
                    lc_ignore_changes = nignore_changes n, lc_aliases = naliases n\<rparr>)
                 (Inr (map EdgeId (ndepends_on n))) ps) (\<lambda>r.
        Inr (nid n, r))))"

definition rehydrate_resources :: "apply_env \<Rightarrow> irgraph \<Rightarrow> (aerror, (node_id \<times> resource) list) result" where
  "rehydrate_resources env ir = rbind (rmap (rehydrate_node env) (gnodes ir)) (\<lambda>rs. Inr (dict_of fst snd rs))"

definition compiled_from_artifact ::
  "apply_env \<Rightarrow> (string \<Rightarrow> string) \<Rightarrow> artifact \<Rightarrow> (aerror, compiled) result option" where
  "compiled_from_artifact env sha a =
     (if ar_envs a \<noteq> [] \<and> ar_envs_declared a = []
      then Some (Inl (ArtifactError ''artifact was built with --env by an older atlantide'' []))
      else case rehydrate_resources env (ar_ir a) of
          Inl e \<Rightarrow> Some (Inl e)
        | Inr rs \<Rightarrow> assemble_compiled (ae_py env) sha (ar_ir a) rs (ar_policies a) (ar_outputs a) []
            (ar_envs_declared a) (ar_envs a))"

subsection \<open>What an artifact and a compilation hold\<close>

lemma to_str_dict_str_dict: "to_str_dict (str_dict m) = Inr m"
  by (induction m) (auto simp: to_str_dict_def str_dict_def to_props_pdict to_str_def)

lemma strs_ne [simp]: "strs xs \<noteq> PNone" "PNone \<noteq> strs xs"
  by (simp_all add: strs_def)

lemma provider_pins_record:
  "provider_pins ns pins = Inr pins' \<Longrightarrow>
     (\<forall>n \<in> set ns. nprovider n \<noteq> [] \<longrightarrow> map_of pins' (nprovider n) = Some (nprovider_version n)) \<and>
     (\<forall>p v. map_of pins p = Some v \<longrightarrow> map_of pins' p = Some v)"
proof (induction ns arbitrary: pins)
  case (Cons n ns)
  show ?case
  proof (cases "nprovider n = []")
    case True
    then show ?thesis using Cons by simp
  next
    case False
    let ?p = "AList.update (nprovider n) (nprovider_version n) pins"
    have c: "map_of pins (nprovider n) \<in> {None, Some (nprovider_version n)}" and r: "provider_pins ns ?p = Inr pins'"
      using Cons.prems False by (auto split: if_splits option.splits)
    have "map_of ?p p = Some v" if "map_of pins p = Some v" for p v
      using that c by (auto simp: update_conv')
    moreover have "map_of ?p (nprovider n) = Some (nprovider_version n)" by (simp add: update_conv')
    ultimately show ?thesis using Cons.IH [OF r] by auto
  qed
qed simp

lemma assembled_parts:
  assumes "assemble_compiled env sha ir rs bs outs ins declared selected = Some (Inr c)"
  shows "\<exists>g order. build_graph ir = Some (Inr (Inr g)) \<and> topological_order g False = Some (Inr order) \<and>
    merkle_hashes env sha ir order = Inr (co_hashes c) \<and> co_ir c = ir \<and> co_graph c = g \<and> co_resources c = rs \<and>
    co_bindings c = bs \<and> co_outputs c = outs \<and> co_envs_declared c = declared \<and> co_envs_selected c = selected"
  using assms
  by (auto simp: assemble_compiled_def rbind_Inr_iff split: option.splits sum.splits)

lemma artifact_parts:
  assumes "artifact_of env sha c cps = Inr a"
  shows "ar_ir a = co_ir c \<and> hash_ir env sha (co_ir c) = Inr (ar_hash a) \<and> provider_pins (gnodes (co_ir c)) [] = Inr (ar_pins a) \<and>
    ar_policies a = co_bindings c \<and> ar_envs a = co_envs_selected c \<and> ar_envs_declared a = co_envs_declared c \<and>
    ar_format a = ARTIFACT_FORMAT"
  using assms by (auto simp: artifact_of_def build_artifact_def rbind_Inr_iff)

definition one_node_ir :: irgraph where
  "one_node_ir = \<lparr>gnodes = [\<lparr>nid = ''s:web.Page:p'', ntype = ''web.Page'', nprovider = ''web'', nprovider_version = ''1.2.0'',
     nproperties = [(''url'', PStr ''x'')], ndependencies = [], nprevent_destroy = False, ncbd = False, nignore_changes = [],
     naliases = [], ndepends_on = [], nkind = ResourceKind\<rparr>], gversion = IR_VERSION\<rparr>"

definition toy_apply_env :: apply_env where
  "toy_apply_env = \<lparr>ae_types = [(''web.Page'', page_class)], ae_providers = [''web''],
     ae_secrets = \<lparr>api_resolve = (\<lambda>n p. Inr n), api_digest = (\<lambda>s p. Inr (s @ p)), api_seal = (\<lambda>s. Inr (PStr s)), api_unseal = Inr\<rparr>,
     ae_stack_outputs = [], ae_py = plain_env, ae_format = str_only, ae_validate = (\<lambda>c d. Inr d),
     ae_sha = (\<lambda>s. s), ae_jsonable = Inr\<rparr>"

lemma one_node_compiles:
  "\<exists>c a. assemble_compiled (ae_py toy_apply_env) (\<lambda>s. s) one_node_ir [] [] [] [] [''dev''] [''dev''] = Some (Inr c) \<and>
     artifact_of (ae_py toy_apply_env) (\<lambda>s. s) c [] = Inr a"
proof -
  have "case assemble_compiled plain_env (\<lambda>s. s) one_node_ir [] [] [] [] [''dev''] [''dev''] of
      Some (Inr c) \<Rightarrow> (case artifact_of plain_env (\<lambda>s. s) c [] of Inr a \<Rightarrow> True | _ \<Rightarrow> False) | _ \<Rightarrow> False"
    by code_simp
  then show ?thesis
    by (auto simp: toy_apply_env_def split: option.splits sum.splits)
qed

subsection \<open>Rehydrated resources\<close>

definition odd_secret :: "pyenv \<Rightarrow> pyval \<Rightarrow> bool" where
  "odd_secret env v = (is_secret_ref_marker v \<and>
     rbind (secret_ref_from_marker env v) (\<lambda>(n, p). canonical env (PSecretRef n p)) \<noteq> Inr v)"

definition rehydratable :: "pyenv \<Rightarrow> pyval \<Rightarrow> bool" where
  "rehydratable env v = (json_tree v \<and> \<not> tree_any True (odd_secret env) v)"

lemma rehydratable_eq:
  "rehydratable env v \<longleftrightarrow> json_node v \<and> \<not> odd_secret env v \<and> (\<forall>c \<in> set (child_list True v). rehydratable env c)"
  unfolding rehydratable_def by (subst tree_any_eq, subst json_tree_eq) blast

lemma ref_marker_split:
  assumes "is_ref_marker v"
  shows "\<exists>n a. ref_from_marker v = Inr (n, a) \<and> v = pdict [(REF_KEY, PStr (n @ ''#'' @ a))]"
proof -
  obtain n a where v: "v = PDict [(PStr REF_KEY, PStr (n @ ''#'' @ a))]" and n: "CHR ''#'' \<notin> set n"
    using assms by (rule is_ref_markerE)
  have "split_once CHR ''#'' (n @ ''#'' @ a) = [n, a]" using split_once_sep [OF n] by simp
  then show ?thesis
    by (intro exI [of _ n] exI [of _ a]) (simp add: v ref_from_marker_def pd_get_def pdict_def)
qed

lemma rehydrate_gen:
  assumes "rehydratable env w"
  shows "\<exists>x. markers_to_refs env w = Inr x \<and> canonicalize env x = Inr w"
  using assms
proof (induction w rule: child_induct [of True])
  case (node w)
  have jn: "json_node w" and odd: "\<not> odd_secret env w" and kids: "\<And>c. c \<in> set (child_list True w) \<Longrightarrow> rehydratable env c"
    using node.prems rehydratable_eq by blast+
  consider (r) "is_ref_marker w" | (s) "\<not> is_ref_marker w" "is_secret_ref_marker w"
    | (o) "\<not> is_ref_marker w" "\<not> is_secret_ref_marker w" by blast
  then show ?case
  proof cases
    case r
    then obtain n a where "ref_from_marker w = Inr (n, a)" "w = pdict [(REF_KEY, PStr (n @ ''#'' @ a))]"
      using ref_marker_split by blast
    then show ?thesis using r
      by (intro exI [of _ "PRef n a"])
        (simp add: markers_to_refs_def tree_map.simps markers_leaf_def canonicalize_def handles_to_markers_handle is_handle_def)
  next
    case s
    then obtain n p where "secret_ref_from_marker env w = Inr (n, p)" "canonical env (PSecretRef n p) = Inr w"
      using odd by (auto simp: odd_secret_def rbind_Inr_iff)
    then show ?thesis using s
      by (intro exI [of _ "PSecretRef n p"])
        (simp add: markers_to_refs_def tree_map.simps markers_leaf_def canonicalize_def handles_to_markers_handle is_handle_def)
  next
    case o
    let ?f = "markers_to_refs env" and ?g = "\<lambda>c. projr (markers_to_refs env c)" and ?h = "\<lambda>x. projr (canonicalize env x)"
    have step: "?f w = tree_step env False ?f w"
      using o by (simp add: markers_to_refs_def [abs_def] tree_map.simps [of _ _ _ w]) (simp add: markers_leaf_def)
    have f: "?f c = Inr (?g c)" and h: "canonicalize env (?g c) = Inr c" if "c \<in> set (child_list True w)" for c
      using node.IH [OF that kids [OF that]] by auto
    define x where "x = (case w of PList vs \<Rightarrow> PList (map ?g vs) | PDict m \<Rightarrow> PDict (map (\<lambda>(k, y). (k, ?g y)) m) | _ \<Rightarrow> w)"
    have x: "?f w = Inr x" unfolding step x_def using jn f by (rule tree_step_json)
    have jx: "json_node x" using jn by (auto simp: x_def json_node_def json_keys_def comp_def case_prod_unfold list_all_iff split: pyval.splits)
    have hx: "canonicalize env c = Inr (?h c)" if c: "c \<in> set (child_list True x)" for c
    proof -
      have "c \<in> ?g ` set (child_list True w)"
        using c jn by (auto simp: x_def json_node_def image_image case_prod_unfold split: pyval.splits)
      then show ?thesis using h by auto
    qed
    have "canonicalize env x = tree_step env True (canonicalize env) x"
      using json_node_not_handle [OF jx] unfolding canonicalize_def [abs_def] by (rule handles_to_markers_step)
    also have "\<dots> = Inr (case x of PList vs \<Rightarrow> PList (map ?h vs) | PDict m \<Rightarrow> PDict (map (\<lambda>(k, y). (k, ?h y)) m) | _ \<Rightarrow> x)"
      using jx hx by (rule tree_step_json)
    also have "\<dots> = Inr w"
      using h jn by (fastforce simp: x_def json_node_def comp_def case_prod_unfold image_iff intro!: map_idI split: pyval.splits)
    finally show ?thesis using x by blast
  qed
qed

text \<open>
  A rehydrated property lowers back to itself: turning the markers of a stored property
  into handles, as a deploy does, and lowering the result gives the stored property, provided
  its secret handles have their canonical form.
\<close>

lemma rehydrated_lowers_back:
  assumes "rehydratable env w"
  shows "\<exists>x. markers_to_refs env w = Inr x \<and> canonicalize env x = Inr w"
  by (rule rehydrate_gen [OF assms])

text \<open>An environment in which the output is committed.\<close>

definition committed :: "apply_env \<Rightarrow> string \<Rightarrow> apply_env" where
  "committed ae v = ae\<lparr>ae_stack_outputs := [(''prod:vpc'', PStr v)]\<rparr>"

lemma stack_output_substituted:
  assumes "map_of (ae_stack_outputs ae) ''prod:vpc'' = Some (PStr v)"
  shows "rewrite_stack_refs ae True (PStackOut ''prod'' ''vpc'') = Inr (Some (PStr v))"
proof -
  have "tree_any True is_stack_out (PStackOut ''prod'' ''vpc'')" by code_simp
  moreover have "substitute_stack (ae_py ae) (ae_stack_outputs ae) True (PStackOut ''prod'' ''vpc'') = Inr (PStr v)"
    using assms by (subst substitute_stack.simps, subst tree_map.simps) simp
  moreover have "\<not> tree_any True (missing_output (ae_stack_outputs ae)) (PStackOut ''prod'' ''vpc'')"
    using assms by (subst tree_any_eq) (simp add: missing_output_def)
  moreover have "\<not> tree_any True is_transform (PStr v)" by (subst tree_any_eq) (simp add: is_transform_def)
  ultimately show ?thesis by (simp add: rewrite_stack_refs_def)
qed

text \<open>
  A deploy leaves a cross-stack reference unresolved. The source's handle is replaced by
  the committed output; the marker an artifact holds for it is not made a handle again, so
  the provider is given the marker itself.
\<close>

lemma deployed_stack_output_stays_marker:
  "\<exists>w. canonicalize env (PStackOut ''prod'' ''vpc'') = Inr w \<and> markers_to_refs env w = Inr w \<and>
     rewrite_stack_refs (committed ae v) True w = Inr None \<and> \<not> needs_resolution w \<and>
     rewrite_stack_refs (committed ae v) True (PStackOut ''prod'' ''vpc'') = Inr (Some (PStr v))"
proof -
  let ?w = "PDict [(PStr ''$stack_output'', PStr ''prod:vpc'')]"
  have "canonicalize env (PStackOut ''prod'' ''vpc'') = Inr ?w"
    by (simp add: canonicalize_def handles_to_markers_handle is_handle_def pdict_def STACK_OUTPUT_KEY_def)
  moreover have "markers_to_refs env ?w = Inr ?w"
    unfolding markers_to_refs_def
  proof (rule tree_map_id)
    show "json_tree ?w" by code_simp
    show "markers_leaf env v = Inr None" if "subvalue True v ?w" for v
    proof -
      have "\<not> tree_any True (\<lambda>v. is_ref_marker v \<or> is_secret_ref_marker v) ?w" by code_simp
      then show ?thesis using that by (auto simp: tree_any_iff markers_leaf_def)
    qed
  qed
  moreover have "\<not> tree_any True is_stack_out ?w" "\<not> needs_resolution ?w" by code_simp+
  ultimately show ?thesis using stack_output_substituted [of "committed ae v" v]
    by (simp add: rewrite_stack_refs_def committed_def)
qed

end
