(* ===== verification/ArtifactText.thy ===== *)
theory ArtifactText
  imports Lowering
begin

text \<open>
  The text of an artifact (\<open>Artifact.dumps\<close> and \<open>loads\<close> of \<open>ir/artifact.py\<close>). \<open>jsonized\<close> is what
  \<open>json.loads\<close> gives of the text \<open>json.dumps(v, sort_keys=True)\<close> writes: tuples come back as
  lists, dicts in the order of their keys, with the keys as strings, and what JSON has no form for
  raises a \<open>TypeError\<close>. A value nested past the interpreter's recursion limit is not modelled.
\<close>

subsection \<open>Through JSON and back\<close>

definition json_key :: "pyenv \<Rightarrow> pyval \<Rightarrow> (aerror, string) result" where
  "json_key env k = (case k of
      PStr s \<Rightarrow> Inr s
    | PNone \<Rightarrow> Inr ''null''
    | PBool b \<Rightarrow> Inr (if b then ''true'' else ''false'')
    | PInt i \<Rightarrow> Inr (int_str i)
    | PFloat FNan \<Rightarrow> Inr ''NaN''
    | PFloat (FInf neg) \<Rightarrow> Inr (if neg then ''-Infinity'' else ''Infinity'')
    | PFloat f \<Rightarrow> Inr (float_repr env f)
    | _ \<Rightarrow> Inl (PyTypeError ''keys must be str, int, float, bool or None''))"

definition is_number :: "pyval \<Rightarrow> bool" where
  "is_number k = (case k of PBool _ \<Rightarrow> True | PInt _ \<Rightarrow> True | PFloat _ \<Rightarrow> True | _ \<Rightarrow> False)"

text \<open>\<open>sort_keys\<close> compares the keys themselves, before any is written.\<close>

definition keys_compare :: "(pyval \<times> pyval) list \<Rightarrow> bool" where
  "keys_compare m = (length m \<le> 1 \<or> list_all (\<lambda>kx. is_str (fst kx)) m \<or> list_all (\<lambda>kx. is_number (fst kx)) m)"

definition infinity_rank :: "pyval \<Rightarrow> int" where
  "infinity_rank k = (case k of PFloat (FInf neg) \<Rightarrow> if neg then -1 else 1 | _ \<Rightarrow> 0)"

definition in_key_order :: "(pyval \<times> pyval) list \<Rightarrow> (pyval \<times> pyval) list" where
  "in_key_order m = (if list_all (\<lambda>kx. is_str (fst kx)) m then sort_key (\<lambda>kx. key_of (fst kx)) m
     else sort_key (\<lambda>kx. infinity_rank (fst kx)) (sort_key (\<lambda>kx. case num_val (fst kx) of Some r \<Rightarrow> r | None \<Rightarrow> 0) m))"

lemma set_in_key_order [simp]: "set (in_key_order m) = set m"
  by (simp add: in_key_order_def)

function jsonized :: "pyenv \<Rightarrow> pyval \<Rightarrow> (aerror, pyval) result" where
  "jsonized env v = (case v of
      PNone \<Rightarrow> Inr v | PBool _ \<Rightarrow> Inr v | PInt _ \<Rightarrow> Inr v | PFloat _ \<Rightarrow> Inr v | PStr _ \<Rightarrow> Inr v
    | PList vs \<Rightarrow> rbind (rmap (jsonized env) vs) (\<lambda>ws. Inr (PList ws))
    | PTuple vs \<Rightarrow> rbind (rmap (jsonized env) vs) (\<lambda>ws. Inr (PList ws))
    | PDict m \<Rightarrow> if \<not> keys_compare m then Inl (PyTypeError ''keys do not compare'')
        else rbind (rmap (\<lambda>(k, x). rbind (json_key env k) (\<lambda>s. rbind (jsonized env x) (\<lambda>y. Inr (s, y)))) (in_key_order m))
          (\<lambda>kys. Inr (pdict kys))
    | _ \<Rightarrow> Inl (PyTypeError ''not JSON serializable''))"
  by pat_completeness auto
termination by (relation "measure (\<lambda>(_, v). size v)") (auto simp: size_elem_in size_pair_in)

declare jsonized.simps [simp del]

lemma jsonized_scalar [simp]:
  "jsonized env PNone = Inr PNone" "jsonized env (PBool b) = Inr (PBool b)" "jsonized env (PInt i) = Inr (PInt i)"
  "jsonized env (PFloat f) = Inr (PFloat f)" "jsonized env (PStr s) = Inr (PStr s)"
  by (subst jsonized.simps, simp)+

lemma jsonized_list:
  "jsonized env (PList vs) = rbind (rmap (jsonized env) vs) (\<lambda>ws. Inr (PList ws))"
  "jsonized env (PTuple vs) = rbind (rmap (jsonized env) vs) (\<lambda>ws. Inr (PList ws))"
  by (subst jsonized.simps, simp)+

lemma jsonized_strs [simp]: "jsonized env (strs xs) = Inr (strs xs)"
proof -
  have "rmap (jsonized env) (map PStr xs) = Inr (map PStr xs)" by (induction xs) simp_all
  then show ?thesis by (simp add: strs_def jsonized_list)
qed

definition jsonized_items :: "pyenv \<Rightarrow> props \<Rightarrow> (aerror, props) result" where
  "jsonized_items env m = rmap (\<lambda>(k, x). rbind (jsonized env x) (\<lambda>y. Inr (k, y))) (sort_key fst m)"

lemma insort_key_map:
  assumes "\<And>x. kf (f x) = lf x"
  shows "insort_key kf (f x) (map f xs) = map f (insort_key lf x xs)"
  by (induction xs) (simp_all add: assms)

lemma sort_key_over_map:
  assumes "\<And>x. kf (f x) = lf x"
  shows "sort_key kf (map f xs) = map f (sort_key lf xs)"
  by (induction xs) (simp_all add: insort_key_map [where kf = kf and f = f and lf = lf, OF assms])

lemma jsonized_pdict: "jsonized env (pdict m) = rbind (jsonized_items env m) (\<lambda>kys. Inr (pdict kys))"
proof -
  let ?f = "\<lambda>(k, x). (PStr k, x)"
  have "list_all (\<lambda>kx. is_str (fst kx)) (map ?f m)" by (auto simp: list_all_iff is_str_iff)
  moreover have "sort_key (\<lambda>kx. key_of (fst kx)) (map ?f m) = map ?f (sort_key fst m)"
    by (rule sort_key_over_map) (auto simp: key_of_def)
  ultimately have "keys_compare (map ?f m)" "in_key_order (map ?f m) = map ?f (sort_key fst m)"
    by (simp_all add: keys_compare_def in_key_order_def)
  moreover have "rmap (\<lambda>(k, x). rbind (json_key env k) (\<lambda>s. rbind (jsonized env x) (\<lambda>y. Inr (s, y)))) (map ?f l) =
      rmap (\<lambda>(k, x). rbind (jsonized env x) (\<lambda>y. Inr (k, y))) l" for l
    by (induction l) (auto simp: json_key_def)
  ultimately show ?thesis unfolding pdict_def by (subst jsonized.simps) (simp add: jsonized_items_def pdict_def)
qed

text \<open>Reading a document back: a key holds what its value has become.\<close>

lemma jsonized_items_get:
  assumes "jsonized_items env m = Inr d" and "wf_dict m"
  shows "map_of d k = (case map_of m k of None \<Rightarrow> None | Some x \<Rightarrow> (case jsonized env x of Inr y \<Rightarrow> Some y | Inl e \<Rightarrow> None))"
    and "(k, x) \<in> set m \<Longrightarrow> \<exists>y. jsonized env x = Inr y"
proof -
  let ?l = "sort_key fst m"
  have get: "map_of d k = (case map_of l k of None \<Rightarrow> None | Some x \<Rightarrow> (case jsonized env x of Inr y \<Rightarrow> Some y | Inl e \<Rightarrow> None))"
    if "rmap (\<lambda>(k, x). rbind (jsonized env x) (\<lambda>y. Inr (k, y))) l = Inr d" for l d
    using that by (induction l arbitrary: d) (auto simp: rbind_Inr_iff split: if_splits)
  have "distinct (map fst ?l)" using assms(2) by (metis mset_eq_imp_distinct_iff mset_map mset_sort)
  then have "map_of ?l = map_of m" using assms(2) map_of_inject_set [of ?l m] by simp
  then show "map_of d k = (case map_of m k of None \<Rightarrow> None | Some x \<Rightarrow> (case jsonized env x of Inr y \<Rightarrow> Some y | Inl e \<Rightarrow> None))"
    using get assms(1) unfolding jsonized_items_def by simp
  show "\<exists>y. jsonized env x = Inr y" if "(k, x) \<in> set m"
  proof -
    have "(k, x) \<in> set ?l" using that by simp
    from rmap_Inr_exD [OF assms(1) [unfolded jsonized_items_def] this] show ?thesis by (auto simp: rbind_Inr_iff)
  qed
qed

subsection \<open>The canonical form is kept\<close>

lemma enumerate_map_same: "enumerate n (map f xs) = map (\<lambda>(i, x). (i, f x)) (enumerate n xs)"
  by (induction xs arbitrary: n) simp_all

lemma encode_pdict:
  "encode env p (pdict m) = rbind (rmap (\<lambda>(k, x). rbind (encode env (p @ ''.'' @ k) x) (\<lambda>t. Inr (json_str False k @ '':'' @ t))) (sort_key fst m))
     (\<lambda>parts. Inr (''{'' @ join_with '','' parts @ ''}''))"
proof -
  have "find (\<lambda>kx. \<not> is_str (fst kx)) (map (\<lambda>(k, v). (PStr k, v)) m) = None"
    by (auto simp: find_None_iff is_str_iff)
  then show ?thesis by (simp add: pdict_def encode_items sorted_items_pdict)
qed

lemma encode_pdict_sorted: "encode env p (pdict (sort_key fst m)) = encode env p (pdict m)"
  by (simp add: encode_pdict sort_key_id_if_sorted)

lemma encode_pdict_cong:
  assumes "\<And>k x q. (k, x) \<in> set m \<Longrightarrow> encode env q (f k x) = encode env q x"
  shows "encode env p (pdict (map (\<lambda>(k, x). (k, f k x)) m)) = encode env p (pdict m)"
proof -
  have "sort_key fst (map (\<lambda>(k, x). (k, f k x)) m) = map (\<lambda>(k, x). (k, f k x)) (sort_key fst m)"
    by (rule sort_key_over_map) auto
  moreover have "rmap (\<lambda>x. (\<lambda>(k, x). rbind (encode env (p @ ''.'' @ k) x) (\<lambda>t. Inr (json_str False k @ '':'' @ t))) ((\<lambda>(k, x). (k, f k x)) x)) (sort_key fst m) =
      rmap (\<lambda>(k, x). rbind (encode env (p @ ''.'' @ k) x) (\<lambda>t. Inr (json_str False k @ '':'' @ t))) (sort_key fst m)"
    by (rule rmap_cong) (auto simp: assms)
  ultimately show ?thesis by (simp add: encode_pdict rmap_map)
qed

lemma encode_list_cong:
  assumes "\<And>x q. x \<in> set vs \<Longrightarrow> encode env q (f x) = encode env q x"
  shows "encode env p (PList (map f vs)) = encode env p (PList vs)"
proof -
  have "rmap (\<lambda>x. (\<lambda>(i, x). encode env (index_path p i) x) ((\<lambda>(i, x). (i, f x)) x)) (enumerate 0 vs) =
      rmap (\<lambda>(i, x). encode env (index_path p i) x) (enumerate 0 vs)"
    by (rule rmap_cong) (auto simp: assms in_set_enumerate_eq)
  then show ?thesis by (simp add: encode_list enumerate_map_same rmap_map)
qed

definition rejson :: "pyenv \<Rightarrow> pyval \<Rightarrow> pyval" where
  "rejson env v = (case jsonized env v of Inr w \<Rightarrow> w | Inl e \<Rightarrow> PNone)"

definition reread_props :: "pyenv \<Rightarrow> props \<Rightarrow> props" where
  "reread_props env m = map (\<lambda>(k, x). (k, rejson env x)) (sort_key fst m)"

lemma jsonized_items_reread: "jsonized_items env m = Inr d \<Longrightarrow> d = reread_props env m"
proof -
  have "rmap (\<lambda>(k, x). rbind (jsonized env x) (\<lambda>y. Inr (k, y))) l = Inr d \<Longrightarrow> d = map (\<lambda>(k, x). (k, rejson env x)) l" for l d
    by (induction l arbitrary: d) (auto simp: rbind_Inr_iff rejson_def)
  then show "jsonized_items env m = Inr d \<Longrightarrow> d = reread_props env m" by (simp add: jsonized_items_def reread_props_def)
qed

lemma jsonized_items_total:
  assumes "\<And>k x. (k, x) \<in> set m \<Longrightarrow> \<exists>y. jsonized env x = Inr y"
  shows "jsonized_items env m = Inr (reread_props env m)"
proof -
  have "\<exists>d. jsonized_items env m = Inr d"
    unfolding jsonized_items_def by (rule rmap_total) (use assms in \<open>fastforce simp: rbind_Inr_iff\<close>)
  then show ?thesis using jsonized_items_reread by blast
qed

lemma jsonized_pdict_iff:
  "jsonized env (pdict m) = Inr w \<longleftrightarrow> (\<forall>(k, x) \<in> set m. \<exists>y. jsonized env x = Inr y) \<and> w = pdict (reread_props env m)"
proof
  assume "jsonized env (pdict m) = Inr w"
  then obtain d where d: "jsonized_items env m = Inr d" "w = pdict d" by (auto simp: jsonized_pdict rbind_Inr_iff)
  have "\<exists>y. jsonized env x = Inr y" if "(k, x) \<in> set m" for k x
    using rmap_Inr_exD [OF d(1) [unfolded jsonized_items_def], of "(k, x)"] that by (auto simp: rbind_Inr_iff)
  then show "(\<forall>(k, x) \<in> set m. \<exists>y. jsonized env x = Inr y) \<and> w = pdict (reread_props env m)"
    using d jsonized_items_reread by blast
next
  assume a: "(\<forall>(k, x) \<in> set m. \<exists>y. jsonized env x = Inr y) \<and> w = pdict (reread_props env m)"
  then have "jsonized_items env m = Inr (reread_props env m)" by (intro jsonized_items_total) blast
  then show "jsonized env (pdict m) = Inr w" using a by (simp add: jsonized_pdict)
qed

lemma json_dict_pdict: "json_keys m \<Longrightarrow> \<exists>m0. PDict m = pdict m0 \<and> snd ` set m0 = snd ` set m"
proof (rule exI [of _ "map (\<lambda>(k, x). (key_of k, x)) m"], intro conjI)
  assume j: "json_keys m"
  have "map (\<lambda>(k, v). (PStr k, v)) (map (\<lambda>(k, x). (key_of k, x)) m) = m"
    using j by (auto simp: json_keys_def list_all_iff is_str_iff key_of_def comp_def intro!: map_idI split: prod.splits)
  then show "PDict m = pdict (map (\<lambda>(k, x). (key_of k, x)) m)" by (simp add: pdict_def)
qed force

text \<open>The value of a JSON tree comes back with the same canonical text, or the same error.\<close>

lemma jsonized_encode:
  "json_tree v \<Longrightarrow> \<exists>w. jsonized env v = Inr w \<and> (\<forall>p. encode env p w = encode env p v)"
proof (induction v rule: child_induct [of True])
  case (node v)
  have jn: "json_node v" and kids: "\<And>c. c \<in> set (child_list True v) \<Longrightarrow> json_tree c"
    using node.prems json_tree_eq by blast+
  have kid: "jsonized env c = Inr (rejson env c) \<and> (\<forall>p. encode env p (rejson env c) = encode env p c)"
    if "c \<in> set (child_list True v)" for c
    using node.IH [OF that kids [OF that]] by (auto simp: rejson_def)
  show ?case
  proof (cases v)
    case (PList vs)
    then have "rmap (jsonized env) vs = Inr (map (rejson env) vs)" using kid by (intro rmap_pure) simp
    moreover have "encode env p (PList (map (rejson env) vs)) = encode env p (PList vs)" for p
      by (rule encode_list_cong) (use kid PList in simp)
    ultimately show ?thesis using PList by (simp add: jsonized_list)
  next
    case (PDict m)
    then obtain m0 where m0: "v = pdict m0" "snd ` set m0 = snd ` set m"
      using jn json_dict_pdict [of m] by (auto simp: json_node_def)
    have kid': "jsonized env x = Inr (rejson env x) \<and> (\<forall>p. encode env p (rejson env x) = encode env p x)" if "(k, x) \<in> set m0" for k x
    proof (rule kid)
      have "x \<in> snd ` set m" using that m0(2) by force
      then show "x \<in> set (child_list True v)" using PDict by force
    qed
    have "jsonized env v = Inr (pdict (reread_props env m0))"
      unfolding m0(1) jsonized_pdict_iff using kid' by blast
    moreover have "encode env p (pdict (reread_props env m0)) = encode env p v" for p
      unfolding m0(1) reread_props_def
      using encode_pdict_cong [of "sort_key fst m0" env "\<lambda>k x. rejson env x" p] kid' encode_pdict_sorted [of env p m0] by simp
    ultimately show ?thesis by blast
  qed (use jn in \<open>auto simp: json_node_def is_scalar_def\<close>)
qed

subsection \<open>An artifact, written and read back\<close>

text \<open>What \<open>loads\<close> is given of the file \<open>dumps\<close> writes.\<close>

definition artifact_document :: "pyenv \<Rightarrow> artifact \<Rightarrow> (aerror, pyval) result" where
  "artifact_document env a = jsonized env (artifact_json a)"

definition reread_node :: "pyenv \<Rightarrow> irnode \<Rightarrow> irnode" where
  "reread_node env n = n\<lparr>nproperties := reread_props env (nproperties n)\<rparr>"

definition reread_graph :: "pyenv \<Rightarrow> irgraph \<Rightarrow> irgraph" where
  "reread_graph env g = g\<lparr>gnodes := map (reread_node env) (gnodes g)\<rparr>"

definition reread_binding :: "pyenv \<Rightarrow> policy_binding \<Rightarrow> policy_binding" where
  "reread_binding env b = b\<lparr>pb_params := reread_props env (pb_params b)\<rparr>"

definition reread :: "pyenv \<Rightarrow> artifact \<Rightarrow> artifact" where
  "reread env a = a\<lparr>ar_ir := reread_graph env (ar_ir a), ar_pins := sort_key fst (ar_pins a),
     ar_policies := map (reread_binding env) (ar_policies a), ar_outputs := reread_props env (ar_outputs a),
     ar_component_pins := sort_key fst (ar_component_pins a)\<rparr>"

lemma reread_node_simps [simp]:
  "nid (reread_node env n) = nid n" "ntype (reread_node env n) = ntype n" "nprovider (reread_node env n) = nprovider n"
  "nprovider_version (reread_node env n) = nprovider_version n" "ndependencies (reread_node env n) = ndependencies n"
  "ndepends_on (reread_node env n) = ndepends_on n" "nignore_changes (reread_node env n) = nignore_changes n"
  "nprevent_destroy (reread_node env n) = nprevent_destroy n" "ncbd (reread_node env n) = ncbd n"
  "naliases (reread_node env n) = naliases n" "nkind (reread_node env n) = nkind n"
  "nproperties (reread_node env n) = reread_props env (nproperties n)"
  by (simp_all add: reread_node_def)

lemma reread_get: "wf_dict m \<Longrightarrow> map_of (reread_props env m) k = map_option (rejson env) (map_of m k)"
proof -
  assume wf: "wf_dict m"
  then have "distinct (map fst (sort_key fst m))" by (metis mset_eq_imp_distinct_iff mset_map mset_sort)
  then have "map_of (sort_key fst m) = map_of m" using wf map_of_inject_set [of "sort_key fst m" m] by simp
  moreover have "map_of (map (\<lambda>(k, x). (k, rejson env x)) l) k = map_option (rejson env) (map_of l k)" for l
    by (induction l) auto
  ultimately show ?thesis by (simp add: reread_props_def)
qed

lemma rejson_simps [simp]:
  "rejson env (PBool b) = PBool b" "rejson env (PInt i) = PInt i" "rejson env (PStr s) = PStr s" "rejson env (strs xs) = strs xs"
  "rejson env PNone = PNone"
  by (simp_all add: rejson_def)

lemma rejson_pdict:
  assumes "\<exists>w. jsonized env (pdict m) = Inr w"
  shows "rejson env (pdict m) = pdict (reread_props env m)"
proof -
  obtain w where w: "jsonized env (pdict m) = Inr w" using assms by blast
  then have "w = pdict (reread_props env m)" by (simp add: jsonized_pdict_iff)
  with w show ?thesis by (simp add: rejson_def)
qed

lemma rejson_str_dict: "jsonized env (str_dict m) = Inr (str_dict (sort_key fst m))"
proof -
  have "sort_key fst (map (\<lambda>(k, v). (k, PStr v)) m) = map (\<lambda>(k, v). (k, PStr v)) (sort_key fst m)"
    by (rule sort_key_over_map) auto
  then have "reread_props env (map (\<lambda>(k, v). (k, PStr v)) m) = map (\<lambda>(k, v). (k, PStr v)) (sort_key fst m)"
    by (simp add: reread_props_def comp_def case_prod_unfold)
  then show ?thesis unfolding str_dict_def jsonized_pdict_iff by auto
qed

lemma wf_stored_items: "wf_dict (canonical_items n
     @ opt_item (naliases n \<noteq> []) ''aliases'' (strs (naliases n))
     @ opt_item (ndepends_on n \<noteq> []) ''depends_on'' (strs (ndepends_on n)))"
  by (simp add: canonical_items_def split: if_splits)

lemma node_reread:
  assumes "jsonized env (node_to_stored n) = Inr w"
  shows "node_from_stored w = Inr (reread_node env n)"
proof -
  let ?m = "canonical_items n
     @ opt_item (naliases n \<noteq> []) ''aliases'' (strs (naliases n))
     @ opt_item (ndepends_on n \<noteq> []) ''depends_on'' (strs (ndepends_on n))"
  have w: "w = pdict (reread_props env ?m)" and ok: "\<forall>(k, x) \<in> set ?m. \<exists>y. jsonized env x = Inr y"
    using assms unfolding node_to_stored_def jsonized_pdict_iff by blast+
  have "(''properties'', pdict (nproperties n)) \<in> set ?m" by (simp add: canonical_items_def)
  then have p: "rejson env (pdict (nproperties n)) = pdict (reread_props env (nproperties n))"
    using ok by (intro rejson_pdict) blast
  show ?thesis
    unfolding w node_from_stored_def as_dict_pdict rbind_simps at_key_def at_key_or_def
      pd_get_pdict reread_get [OF wf_stored_items] node_stored_get
    by (simp add: p to_str_def to_bool_def reread_node_def)
qed

lemma rmap_reread:
  assumes "rmap f xs = Inr ws" and "\<And>x w. x \<in> set xs \<Longrightarrow> f x = Inr w \<Longrightarrow> g w = Inr (h x)"
  shows "rmap g ws = Inr (map h xs)"
  using assms by (induction xs arbitrary: ws) (auto simp: rbind_Inr_iff)

lemma graph_reread:
  assumes "jsonized env (graph_to_stored g) = Inr w"
  shows "graph_from_stored w = Inr (reread_graph env g)"
proof -
  let ?m = "[(''version'', PInt (gversion g)), (''nodes'', PList (map node_to_stored (gnodes g)))]"
  have w: "w = pdict (reread_props env ?m)" and "\<forall>(k, x) \<in> set ?m. \<exists>y. jsonized env x = Inr y"
    using assms unfolding graph_to_stored_def jsonized_pdict_iff by blast+
  then obtain ws where ws: "rmap (jsonized env) (map node_to_stored (gnodes g)) = Inr ws"
    by (auto simp: jsonized_list rbind_Inr_iff)
  then have "rmap node_from_stored ws = Inr (map (reread_node env) (gnodes g))"
    by (intro rmap_reread [where f = "\<lambda>n. jsonized env (node_to_stored n)"]) (auto simp: rmap_map intro: node_reread)
  moreover have "rejson env (PList (map node_to_stored (gnodes g))) = PList ws" by (simp add: rejson_def jsonized_list ws)
  ultimately show ?thesis
    unfolding w graph_from_stored_def as_dict_pdict rbind_simps at_key_def pd_get_pdict
    by (simp add: reread_get to_list_def to_int_def reread_graph_def)
qed

lemma binding_reread:
  assumes "jsonized env (binding_json b) = Inr w" and "case pb_types b of None \<Rightarrow> True | Some ts \<Rightarrow> sorted ts"
  shows "binding_from_json w = Inr (reread_binding env b)"
proof -
  let ?m = "[(''name'', PStr (pb_name b)), (''level'', PStr (level_str (pb_level b))),
     (''types'', case pb_types b of None \<Rightarrow> PNone | Some ts \<Rightarrow> strs (sort ts)), (''params'', pdict (pb_params b))]"
  have w: "w = pdict (reread_props env ?m)" and "\<forall>(k, x) \<in> set ?m. \<exists>y. jsonized env x = Inr y"
    using assms(1) unfolding binding_json_def jsonized_pdict_iff by blast+
  then have p: "rejson env (pdict (pb_params b)) = pdict (reread_props env (pb_params b))"
    by (intro rejson_pdict) simp
  have l: "level_of (level_str (pb_level b)) = Inr (pb_level b)"
    by (cases "pb_level b") (simp_all add: level_of_def level_str_def)
  show ?thesis
    unfolding w binding_from_json_def as_dict_pdict rbind_simps at_key_def pd_get_pdict
    using assms(2) by (cases "pb_types b") (simp_all add: reread_get p l to_str_def reread_binding_def sorted_sort_id)
qed

lemma artifact_reread:
  assumes "artifact_document env a = Inr v" and "ar_format a = ARTIFACT_FORMAT"
    and sorted: "\<And>b. b \<in> set (ar_policies a) \<Longrightarrow> case pb_types b of None \<Rightarrow> True | Some ts \<Rightarrow> sorted ts"
  shows "load_artifact v = Inr (reread env a)"
proof -
  define m where "m = [(''format_version'', PInt (ar_format a)), (''ir_hash'', PStr (ar_hash a)),
     (''ir'', graph_to_stored (ar_ir a)), (''provider_pins'', str_dict (ar_pins a)),
     (''component_pins'', str_dict (ar_component_pins a)), (''policies'', PList (map binding_json (ar_policies a))),
     (''outputs'', pdict (ar_outputs a)), (''envs'', strs (ar_envs a)), (''envs_declared'', strs (ar_envs_declared a))]"
  have v: "v = pdict (reread_props env m)" and ok: "\<forall>(k, x) \<in> set m. \<exists>y. jsonized env x = Inr y"
    using assms(1) unfolding artifact_document_def artifact_json_def m_def jsonized_pdict_iff by blast+
  obtain gw where gw: "jsonized env (graph_to_stored (ar_ir a)) = Inr gw" using ok by (auto simp: m_def)
  obtain ws where ws: "rmap (jsonized env) (map binding_json (ar_policies a)) = Inr ws"
    using ok by (auto simp: m_def jsonized_list rbind_Inr_iff)
  have ps: "rmap binding_from_json ws = Inr (map (reread_binding env) (ar_policies a))"
    using ws by (intro rmap_reread [where f = "\<lambda>b. jsonized env (binding_json b)"]) (auto simp: rmap_map intro: binding_reread sorted)
  have o': "rejson env (pdict (ar_outputs a)) = pdict (reread_props env (ar_outputs a))"
    using ok by (intro rejson_pdict) (simp add: m_def)
  have g: "rejson env (graph_to_stored (ar_ir a)) = gw" by (simp add: rejson_def gw)
  have p: "rejson env (PList (map binding_json (ar_policies a))) = PList ws" by (simp add: rejson_def jsonized_list ws)
  have wf: "wf_dict m" by (simp add: m_def)
  have d: "rejson env (str_dict x) = str_dict (sort_key fst x)" for x by (simp add: rejson_def rejson_str_dict)
  have get: "map_of (reread_props env m) ''format_version'' = Some (PInt ARTIFACT_FORMAT)"
    "map_of (reread_props env m) ''ir_hash'' = Some (PStr (ar_hash a))" "map_of (reread_props env m) ''ir'' = Some gw"
    "map_of (reread_props env m) ''provider_pins'' = Some (str_dict (sort_key fst (ar_pins a)))"
    "map_of (reread_props env m) ''component_pins'' = Some (str_dict (sort_key fst (ar_component_pins a)))"
    "map_of (reread_props env m) ''policies'' = Some (PList ws)"
    "map_of (reread_props env m) ''outputs'' = Some (pdict (reread_props env (ar_outputs a)))"
    "map_of (reread_props env m) ''envs'' = Some (strs (ar_envs a))"
    "map_of (reread_props env m) ''envs_declared'' = Some (strs (ar_envs_declared a))"
    unfolding reread_get [OF wf] by (simp_all add: m_def g p d o' assms(2))
  show ?thesis
    unfolding v load_artifact_def pdict_def [of "reread_props env m"]
    by (simp add: at_key_def at_key_or_def pd_get_pdict get graph_reread [OF gw] to_str_def to_str_dict_str_dict
        to_list_def ps malformed_def reread_def assms(2) del: pdict_def)
qed

subsection \<open>What a deploy compiles\<close>

lemma json_tree_items:
  assumes "json_tree (pdict m)" and "(k, x) \<in> set m"
  shows "jsonized env x = Inr (rejson env x) \<and> encode env q (rejson env x) = encode env q x"
proof -
  have "x \<in> set (child_list True (pdict m))" using assms(2) by (force simp: pdict_def)
  then have "json_tree x" using assms(1) json_tree_eq by blast
  from jsonized_encode [OF this, of env] show ?thesis by (auto simp: rejson_def)
qed

lemma encode_kept:
  assumes "json_tree (pdict m)"
  shows "encode env p (pdict (filter (\<lambda>kv. Q (fst kv)) (reread_props env m))) = encode env p (pdict (filter (\<lambda>kv. Q (fst kv)) m))"
proof -
  have "filter (\<lambda>kv. Q (fst kv)) (reread_props env m) = map (\<lambda>(k, x). (k, rejson env x)) (filter (\<lambda>kv. Q (fst kv)) (sort_key fst m))"
    by (simp add: reread_props_def filter_map comp_def case_prod_unfold)
  also have "filter (\<lambda>kv. Q (fst kv)) (sort_key fst m) = sort_key fst (filter (\<lambda>kv. Q (fst kv)) m)"
    by (rule filter_sort)
  finally have f: "filter (\<lambda>kv. Q (fst kv)) (reread_props env m) =
      map (\<lambda>(k, x). (k, rejson env x)) (sort_key fst (filter (\<lambda>kv. Q (fst kv)) m))" .
  show ?thesis
    unfolding f encode_pdict_sorted [of env p "filter (\<lambda>kv. Q (fst kv)) m", symmetric]
    by (rule encode_pdict_cong) (use json_tree_items [OF assms] in auto)
qed

definition json_properties :: "irgraph \<Rightarrow> bool" where
  "json_properties ir \<longleftrightarrow> (\<forall>n \<in> set (gnodes ir). json_tree (pdict (nproperties n)))"

lemma encode_reread_node:
  assumes "json_tree (pdict (nproperties n))"
  shows "encode env p (node_to_canonical (reread_node env n)) = encode env p (node_to_canonical n)"
proof -
  let ?f = "\<lambda>k x. if k = ''properties'' then pdict (reread_props env (nproperties n)) else x"
  have c: "canonical_items (reread_node env n) = map (\<lambda>(k, x). (k, ?f k x)) (canonical_items n)"
    by (simp add: canonical_items_def opt_item_def)
  have "encode env q (pdict (reread_props env (nproperties n))) = encode env q (pdict (nproperties n))" for q
    using encode_kept [OF assms, where Q = "\<lambda>_. True"] by simp
  moreover have "x = pdict (nproperties n)" if "(''properties'', x) \<in> set (canonical_items n)" for x
    using that by (auto simp: canonical_items_def opt_item_def split: if_splits)
  ultimately show ?thesis unfolding node_to_canonical_def c by (intro encode_pdict_cong) auto
qed

lemma hash_ir_reread:
  assumes "json_properties ir"
  shows "hash_ir env sha (reread_graph env ir) = hash_ir env sha ir"
proof -
  let ?f = "\<lambda>k x. if k = ''nodes'' then PList (map node_to_canonical (map (reread_node env) (gnodes ir))) else x"
  let ?m = "[(''version'', PInt (gversion ir)), (''nodes'', PList (map node_to_canonical (gnodes ir)))]"
  have g: "graph_to_canonical (reread_graph env ir) = pdict (map (\<lambda>(k, x). (k, ?f k x)) ?m)"
    by (simp add: graph_to_canonical_def reread_graph_def)
  have "encode env q (PList (map node_to_canonical (map (reread_node env) (gnodes ir)))) = encode env q (PList (map node_to_canonical (gnodes ir)))" for q
  proof -
    have "rmap (\<lambda>ix. (\<lambda>(i, x). encode env (index_path q i) x) ((\<lambda>(i, x). (i, node_to_canonical (reread_node env x))) ix)) (enumerate 0 (gnodes ir)) =
        rmap (\<lambda>ix. (\<lambda>(i, x). encode env (index_path q i) x) ((\<lambda>(i, x). (i, node_to_canonical x)) ix)) (enumerate 0 (gnodes ir))"
      by (rule rmap_cong) (use assms encode_reread_node in \<open>auto simp: json_properties_def in_set_enumerate_eq\<close>)
    then show ?thesis by (simp add: encode_list enumerate_map_same rmap_map case_prod_unfold)
  qed
  then have "encode env p (pdict (map (\<lambda>(k, x). (k, ?f k x)) ?m)) = encode env p (pdict ?m)" for p
    by (intro encode_pdict_cong) auto
  then show ?thesis unfolding hash_ir_def canonical_sha256_def to_canonical_json_def g by (simp add: graph_to_canonical_def)
qed

lemma merkle_payload_reread:
  assumes "json_tree (pdict (nproperties n))"
  shows "to_canonical_json env (merkle_payload (reread_node env n) hs) = to_canonical_json env (merkle_payload n hs)"
proof -
  let ?f = "\<lambda>k x. if k = ''properties'' then pdict (kept_properties (reread_node env n)) else x"
  let ?m = "[(''type'', PStr (ntype n)), (''properties'', pdict (kept_properties n)), (''deps'', strs hs)]"
  have k: "encode env q (pdict (kept_properties (reread_node env n))) = encode env q (pdict (kept_properties n))" for q
    unfolding kept_properties_def reread_node_simps by (rule encode_kept [OF assms])
  have "encode env p (pdict (map (\<lambda>(k, x). (k, ?f k x)) ?m)) = encode env p (pdict ?m)" for p
    by (rule encode_pdict_cong) (auto simp: k)
  then show ?thesis by (simp add: to_canonical_json_def merkle_payload_def)
qed

lemma merkle_loop_reread:
  assumes "\<forall>n \<in> snd ` set nodes. json_tree (pdict (nproperties n))"
  shows "merkle_loop env sha (map (\<lambda>(i, n). (i, reread_node env n)) nodes) topo h = merkle_loop env sha nodes topo h"
proof -
  have l: "map_of (map (\<lambda>(i, n). (i, reread_node env n)) nodes) i = map_option (reread_node env) (map_of nodes i)" for i
    by (induction nodes) auto
  have b: "merkle_bytes env (map (\<lambda>(i, n). (i, reread_node env n)) nodes) h i = merkle_bytes env nodes h i" for h i
  proof (cases "map_of nodes i")
    case None
    then show ?thesis by (simp add: merkle_bytes_def lookup_def l)
  next
    case (Some n)
    then have "n \<in> snd ` set nodes" by (force dest: map_of_SomeD)
    then have "json_tree (pdict (nproperties n))" using assms by blast
    with Some show ?thesis by (simp add: merkle_bytes_def lookup_def l merkle_payload_reread)
  qed
  show ?thesis by (induction topo arbitrary: h) (simp_all add: b)
qed

lemma by_id_reread: "by_id (reread_graph env ir) = map (\<lambda>(i, n). (i, reread_node env n)) (by_id ir)"
proof -
  have u: "AList.update k (f v) (map (\<lambda>(i, n). (i, f n)) m) = map (\<lambda>(i, n). (i, f n)) (AList.update k v m)" for f k and v :: irnode and m
    by (induction m) auto
  have "fold (\<lambda>x m. AList.update (nid x) x m) (map (reread_node env) ns) (map (\<lambda>(i, n). (i, reread_node env n)) m) =
      map (\<lambda>(i, n). (i, reread_node env n)) (fold (\<lambda>x m. AList.update (nid x) x m) ns m)" for ns m
    by (induction ns arbitrary: m) (simp_all add: u)
  from this [of "gnodes ir" "[]"] show ?thesis by (simp add: by_id_def dict_of_def reread_graph_def)
qed

lemma merkle_hashes_reread:
  assumes "json_properties ir"
  shows "merkle_hashes env sha (reread_graph env ir) topo = merkle_hashes env sha ir topo"
proof -
  have "snd ` set (by_id ir) \<subseteq> set (gnodes ir)" using dict_of_values [of nid "\<lambda>n. n" "gnodes ir"] by (simp add: by_id_def)
  then have "\<forall>n \<in> snd ` set (by_id ir). json_tree (pdict (nproperties n))" using assms by (auto simp: json_properties_def)
  then show ?thesis unfolding merkle_hashes_def by_id_reread by (rule merkle_loop_reread)
qed

lemma build_graph_reread: "build_graph (reread_graph env ir) = build_graph ir"
proof -
  have e: "edges (reread_node env n) = edges n" for n by (simp add: edges_def)
  have "adjacency_loop known (map (reread_node env) ns) ds = adjacency_loop known ns ds" for known ns ds
  proof (induction ns arbitrary: ds)
    case (Cons n ns)
    show ?case by (rule ext) (simp add: e Cons.IH)
  qed (simp add: fun_eq_iff)
  then show ?thesis by (simp add: build_graph_def reread_graph_def adjacency_def comp_def)
qed

lemma provider_pins_wf: "provider_pins ns pins = Inr pins' \<Longrightarrow> wf_dict pins \<Longrightarrow> wf_dict pins'"
  by (induction ns pins rule: provider_pins.induct) (auto simp: distinct_update split: if_splits option.splits)

lemma deploy_same_plan:
  assumes c: "assemble_compiled (ae_py e) sha ir rs bs outs ins declared selected = Some (Inr c)"
    and a: "artifact_of (ae_py e) sha c cps = Inr a" and j: "json_properties ir"
    and d: "compiled_from_artifact e sha (reread (ae_py e) a) = Some (Inr d)"
  shows "co_ir d = reread_graph (ae_py e) ir \<and> co_graph d = co_graph c \<and> co_hashes d = co_hashes c \<and>
    co_bindings d = map (reread_binding (ae_py e)) bs \<and> envs_excluded d = envs_excluded c"
proof -
  let ?b = "reread (ae_py e) a"
  obtain rs' where "assemble_compiled (ae_py e) sha (ar_ir ?b) rs' (ar_policies ?b) (ar_outputs ?b) []
      (ar_envs_declared ?b) (ar_envs ?b) = Some (Inr d)"
    using d by (auto simp: compiled_from_artifact_def split: if_splits sum.splits)
  note d' = assembled_parts [OF this]
  have ic: "co_ir c = ir" using assembled_parts [OF c] by blast
  have j': "json_properties (co_ir c)" using j by (simp add: ic)
  from d' assembled_parts [OF c] artifact_parts [OF a]
  show ?thesis by (auto simp: envs_excluded_def reread_def build_graph_reread merkle_hashes_reread [OF j'])
qed

lemma document_iff:
  assumes "json_properties (ar_ir a)"
  shows "(\<exists>v. artifact_document env a = Inr v) \<longleftrightarrow> (\<forall>(k, x) \<in> set (ar_outputs a). \<exists>y. jsonized env x = Inr y) \<and>
    (\<forall>b \<in> set (ar_policies a). \<forall>(k, x) \<in> set (pb_params b). \<exists>y. jsonized env x = Inr y)"
proof -
  have n: "\<exists>w. jsonized env (node_to_stored n) = Inr w" if "n \<in> set (gnodes (ar_ir a))" for n
  proof -
    have "json_tree (pdict (nproperties n))" using that assms by (simp add: json_properties_def)
    then have "\<exists>w. jsonized env (pdict (nproperties n)) = Inr w" using jsonized_encode by blast
    then have "\<exists>y. jsonized env x = Inr y" if "(k, x) \<in> set (canonical_items n @ opt_item (naliases n \<noteq> []) ''aliases'' (strs (naliases n))
        @ opt_item (ndepends_on n \<noteq> []) ''depends_on'' (strs (ndepends_on n)))" for k x
      using that by (auto simp: canonical_items_def opt_item_def split: if_splits)
    then show ?thesis unfolding node_to_stored_def jsonized_pdict_iff by blast
  qed
  then obtain ws where "rmap (\<lambda>n. jsonized env (node_to_stored n)) (gnodes (ar_ir a)) = Inr ws" using rmap_total by metis
  then have g: "\<exists>w. jsonized env (graph_to_stored (ar_ir a)) = Inr w"
    unfolding graph_to_stored_def jsonized_pdict_iff by (auto simp: jsonized_list rmap_map)
  have b: "(\<exists>w. jsonized env (binding_json b) = Inr w) \<longleftrightarrow> (\<forall>(k, x) \<in> set (pb_params b). \<exists>y. jsonized env x = Inr y)" for b
    unfolding binding_json_def jsonized_pdict_iff by (auto split: option.split simp: jsonized_pdict_iff)
  have some: "(\<exists>ys. rmap f xs = Inr ys) \<longleftrightarrow> (\<forall>x \<in> set xs. \<exists>y. f x = Inr y)" for f :: "policy_binding \<Rightarrow> (aerror, pyval) result" and xs
    by (auto dest: rmap_Inr_exD intro: rmap_total)
  have p: "(\<exists>w. jsonized env (PList (map binding_json (ar_policies a))) = Inr w) \<longleftrightarrow>
      (\<forall>b \<in> set (ar_policies a). \<forall>(k, x) \<in> set (pb_params b). \<exists>y. jsonized env x = Inr y)"
    unfolding b [symmetric] some [symmetric] by (simp add: jsonized_list rmap_map rbind_Inr_iff)
  have o': "(\<exists>w. jsonized env (pdict (ar_outputs a)) = Inr w) \<longleftrightarrow> (\<forall>(k, x) \<in> set (ar_outputs a). \<exists>y. jsonized env x = Inr y)"
    by (simp add: jsonized_pdict_iff)
  have "(\<exists>v. artifact_document env a = Inr v) \<longleftrightarrow> (\<exists>w. jsonized env (graph_to_stored (ar_ir a)) = Inr w) \<and>
      (\<exists>w. jsonized env (PList (map binding_json (ar_policies a))) = Inr w) \<and> (\<exists>w. jsonized env (pdict (ar_outputs a)) = Inr w)"
    unfolding artifact_document_def artifact_json_def
    by (subst (1) jsonized_pdict_iff) (simp add: rejson_str_dict conj_ac)
  then show ?thesis using g p o' by (simp add: conj_commute)
qed

text \<open>
  C28: a deploy plans what its build compiled, through the text of the file. The artifact of a
  compiled configuration can be written exactly when JSON has a form for its outputs and for the
  parameters of its policies (a secret handle or a tuple key has none). What is read back has its
  hash verified and pins every provider at the version each node was compiled against; what is
  compiled from it has the graph, the input hashes and the environments left out of the source's
  compilation, and its nodes and policies but for what JSON changes in their values: the order of
  keys, and tuples that have become lists.
\<close>

theorem artifact_deploys_same_plan:
  assumes "assemble_compiled (ae_py e) sha ir rs bs outs ins declared selected = Some (Inr c)"
    and "artifact_of (ae_py e) sha c cps = Inr a"
    and "list_all (\<lambda>b. case pb_types b of None \<Rightarrow> True | Some ts \<Rightarrow> sorted ts) bs" and "json_properties ir"
  shows "((\<exists>v. artifact_document (ae_py e) a = Inr v) \<longleftrightarrow> (\<forall>(k, x) \<in> set (ar_outputs a). \<exists>y. jsonized (ae_py e) x = Inr y) \<and>
      (\<forall>b \<in> set bs. \<forall>(k, x) \<in> set (pb_params b). \<exists>y. jsonized (ae_py e) x = Inr y)) \<and>
    (\<forall>v. artifact_document (ae_py e) a = Inr v \<longrightarrow> (\<exists>b. load_artifact v = Inr b \<and> verify_hash (ae_py e) sha b = Inr () \<and>
      (\<forall>n \<in> set (gnodes ir). nprovider n \<noteq> [] \<longrightarrow> map_of (ar_pins b) (nprovider n) = Some (nprovider_version n)) \<and>
      (\<forall>d. compiled_from_artifact e sha b = Some (Inr d) \<longrightarrow>
        co_graph d = co_graph c \<and> co_hashes d = co_hashes c \<and> envs_excluded d = envs_excluded c \<and>
        co_ir d = reread_graph (ae_py e) ir \<and> co_bindings d = map (reread_binding (ae_py e)) bs)))"
proof (intro conjI allI impI)
  have parts: "co_ir c = ir" "co_bindings c = bs" using assembled_parts [OF assms(1)] by blast+
  note a = artifact_parts [OF assms(2)]
  have ir: "ar_ir a = ir" "ar_policies a = bs" using a parts by simp_all
  show "(\<exists>v. artifact_document (ae_py e) a = Inr v) \<longleftrightarrow> (\<forall>(k, x) \<in> set (ar_outputs a). \<exists>y. jsonized (ae_py e) x = Inr y) \<and>
      (\<forall>b \<in> set bs. \<forall>(k, x) \<in> set (pb_params b). \<exists>y. jsonized (ae_py e) x = Inr y)"
    using document_iff [of a "ae_py e"] assms(4) unfolding ir by blast
  fix v
  assume v: "artifact_document (ae_py e) a = Inr v"
  let ?b = "reread (ae_py e) a"
  have "load_artifact v = Inr ?b"
    by (rule artifact_reread [OF v]) (use a ir assms(3) in \<open>auto simp: list_all_iff\<close>)
  moreover have "verify_hash (ae_py e) sha ?b = Inr ()"
    using a parts by (simp add: verify_hash_def reread_def hash_ir_reread [OF assms(4)])
  moreover have "map_of (ar_pins ?b) (nprovider n) = Some (nprovider_version n)" if "n \<in> set (gnodes ir)" "nprovider n \<noteq> []" for n
  proof -
    have p: "provider_pins (gnodes ir) [] = Inr (ar_pins a)" using a parts by simp
    then have wf: "wf_dict (ar_pins a)" by (rule provider_pins_wf) simp
    then have "distinct (map fst (sort_key fst (ar_pins a)))" by (metis mset_eq_imp_distinct_iff mset_map mset_sort)
    then have "map_of (sort_key fst (ar_pins a)) = map_of (ar_pins a)" using wf map_of_inject_set [of "sort_key fst (ar_pins a)" "ar_pins a"] by simp
    then show ?thesis using provider_pins_record [OF p] that by (simp add: reread_def)
  qed
  ultimately show "\<exists>b. load_artifact v = Inr b \<and> verify_hash (ae_py e) sha b = Inr () \<and>
      (\<forall>n \<in> set (gnodes ir). nprovider n \<noteq> [] \<longrightarrow> map_of (ar_pins b) (nprovider n) = Some (nprovider_version n)) \<and>
      (\<forall>d. compiled_from_artifact e sha b = Some (Inr d) \<longrightarrow>
        co_graph d = co_graph c \<and> co_hashes d = co_hashes c \<and> envs_excluded d = envs_excluded c \<and>
        co_ir d = reread_graph (ae_py e) ir \<and> co_bindings d = map (reread_binding (ae_py e)) bs)"
    using deploy_same_plan [OF assms(1,2,4)] by blast
qed

text \<open>The two changes: a tuple comes back as a list, and a handle cannot be written.\<close>

lemma json_changes_values:
  "jsonized env (PTuple [PInt 1, PTuple []]) = Inr (PList [PInt 1, PList []])"
  "jsonized env (PDict [(PStr ''b'', PInt 1), (PStr ''a'', PBool True)]) = Inr (PDict [(PStr ''a'', PBool True), (PStr ''b'', PInt 1)])"
  "jsonized env (PDict [(PInt 1, PNone)]) = Inr (PDict [(PStr ''1'', PNone)])"
  "jsonized env (PDict [(PInt 1, PNone), (PStr ''1'', PNone)]) = Inl (PyTypeError ''keys do not compare'')"
  "jsonized env (PSecretRef n p) = Inl (PyTypeError ''not JSON serializable'')"
  by code_simp+

theorem artifact_deploys_same_plan_witness:
  "\<exists>c a v b. assemble_compiled (ae_py toy_apply_env) (\<lambda>s. s) one_node_ir [] [] [] [] [''dev''] [''dev''] = Some (Inr c) \<and>
     artifact_of (ae_py toy_apply_env) (\<lambda>s. s) c [] = Inr a \<and> artifact_document (ae_py toy_apply_env) a = Inr v \<and>
     load_artifact v = Inr b \<and> verify_hash (ae_py toy_apply_env) (\<lambda>s. s) b = Inr () \<and>
     map_of (ar_pins b) ''web'' = Some ''1.2.0''"
proof -
  obtain c a where c: "assemble_compiled (ae_py toy_apply_env) (\<lambda>s. s) one_node_ir [] [] [] [] [''dev''] [''dev''] = Some (Inr c)"
    and a: "artifact_of (ae_py toy_apply_env) (\<lambda>s. s) c [] = Inr a" using one_node_compiles by blast
  have "json_properties one_node_ir" by code_simp
  note main = artifact_deploys_same_plan [OF c a _ this, simplified]
  have "ar_outputs a = []" using a assembled_parts [OF c] by (auto simp: artifact_of_def build_artifact_def rbind_Inr_iff)
  then obtain v where v: "artifact_document (ae_py toy_apply_env) a = Inr v" using main by auto
  then obtain b where "load_artifact v = Inr b" "verify_hash (ae_py toy_apply_env) (\<lambda>s. s) b = Inr ()" "map_of (ar_pins b) ''web'' = Some ''1.2.0''"
    using main by (auto simp: one_node_ir_def)
  with c a v show ?thesis by blast
qed

end
