(* ===== verification/Applied.thy ===== *)
theory Applied
  imports Resolve Changes
begin

text \<open>
  What each \<open>$ref\<close> field resolved to when its node was last applied
  (\<open>reconcile/applied.py\<close>, with \<open>util/jsonfmt.py\<close>): the digests a row records, and the
  verdicts a plan reads off them. An unsalted digest is \<open>sha256\<close> over a domain prefix and the
  value's JSON; a salted one is the registry's rotation digest.
\<close>

subsection \<open>Compact JSON\<close>

text \<open>\<open>json.dumps\<close> with sorted keys and no whitespace, of what \<open>to_jsonable_python\<close> gives.\<close>

function compact_json :: "pyenv \<Rightarrow> bool \<Rightarrow> pyval \<Rightarrow> (aerror, string) result" where
  "compact_json env ascii v = (case v of
      PNone \<Rightarrow> Inr ''null''
    | PBool b \<Rightarrow> Inr (if b then ''true'' else ''false'')
    | PInt i \<Rightarrow> Inr (int_str i)
    | PFloat FNan \<Rightarrow> Inr ''NaN''
    | PFloat (FInf neg) \<Rightarrow> Inr (if neg then ''-Infinity'' else ''Infinity'')
    | PFloat f \<Rightarrow> Inr (float_repr env f)
    | PStr s \<Rightarrow> Inr (json_str ascii s)
    | PList vs \<Rightarrow> rbind (rmap (compact_json env ascii) vs) (\<lambda>ts. Inr (''['' @ join_with '','' ts @ '']''))
    | PTuple vs \<Rightarrow> rbind (rmap (compact_json env ascii) vs) (\<lambda>ts. Inr (''['' @ join_with '','' ts @ '']''))
    | PDict m \<Rightarrow> rbind (rmap (\<lambda>(k, x). rbind (key_str k) (\<lambda>s. rbind (compact_json env ascii x) (\<lambda>t. Inr (s, t)))) m)
        (\<lambda>kts. Inr (''{'' @ join_with '','' (map (\<lambda>(s, t). json_str ascii s @ '':'' @ t) (sort_key fst kts)) @ ''}''))
    | _ \<Rightarrow> Inl (PyTypeError ''not JSON serializable''))"
  by pat_completeness auto
termination by (relation "measure (\<lambda>(_, _, v). size v)") (auto simp: size_elem_in size_pair_in)

declare compact_json.simps [simp del]

subsection \<open>Digests\<close>

definition PLAIN_PREFIX :: string where "PLAIN_PREFIX = ''sha256:''"
definition SALTED_PREFIX :: string where "SALTED_PREFIX = ''salted:''"
definition PLAIN_DOMAIN :: string where "PLAIN_DOMAIN = ''atlantide/ref-digest/v1'' @ [CHR 0x00]"

definition canonical_text :: "apply_env \<Rightarrow> pyval \<Rightarrow> (aerror, string) result" where
  "canonical_text env v = rbind (ae_jsonable env v) (compact_json (ae_py env) False)"

definition ref_digest :: "apply_env \<Rightarrow> string \<Rightarrow> pyval \<Rightarrow> bool \<Rightarrow> (aerror, string) result" where
  "ref_digest env field v sens = rbind (canonical_text env v) (\<lambda>t.
     if sens then rbind (api_digest (ae_secrets env) (''$ref:'' @ field) t) (\<lambda>d. Inr (SALTED_PREFIX @ d))
     else Inr (PLAIN_PREFIX @ ae_sha env (PLAIN_DOMAIN @ utf8 t)))"

definition starts_with :: "string \<Rightarrow> string \<Rightarrow> bool" where
  "starts_with s p = (take (length p) s = p)"

text \<open>The errors of \<open>_UNDIGESTIBLE\<close> and of \<open>_UNRESOLVABLE\<close>.\<close>

definition undigestible :: "aerror \<Rightarrow> bool" where
  "undigestible e = (case e of PyTypeError _ \<Rightarrow> True | PyValueError _ \<Rightarrow> True | _ \<Rightarrow> False)"

definition unresolvable :: "aerror \<Rightarrow> bool" where
  "unresolvable e = (is_atlantide_error e \<or> (case e of KeyError _ \<Rightarrow> True | PyIndexError \<Rightarrow> True
     | PyTypeError _ \<Rightarrow> True | PyValueError _ \<Rightarrow> True | _ \<Rightarrow> False))"

text \<open>\<open>None\<close> for an unknown scheme or a value without a JSON form.\<close>

definition ref_matches :: "apply_env \<Rightarrow> string \<Rightarrow> pyval \<Rightarrow> string \<Rightarrow> (aerror, bool option) result" where
  "ref_matches env field v recorded =
     (if \<not> starts_with recorded SALTED_PREFIX \<and> \<not> starts_with recorded PLAIN_PREFIX then Inr None
      else (case ref_digest env field v (starts_with recorded SALTED_PREFIX) of
          Inl e \<Rightarrow> if undigestible e then Inr None else Inl e
        | Inr d \<Rightarrow> Inr (Some (d = recorded))))"

definition derives_sensitive :: "(string \<times> resource_class) list \<Rightarrow> bool \<Rightarrow> pyval \<Rightarrow> (aerror, bool) result" where
  "derives_sensitive types own v = (if own then Inr True else any_sensitive types (tree_collect False is_ref_marker v))"

definition record_field :: "apply_env \<Rightarrow> live_outputs \<Rightarrow> string list \<Rightarrow> string \<Rightarrow> pyval \<Rightarrow> (aerror, string) result" where
  "record_field env outs own name v =
     rbind (resolve_value (ae_py env) (ae_format env) outs True v) (\<lambda>x.
     rbind (derives_sensitive (ae_types env) (name \<in> set own) v) (\<lambda>s. ref_digest env name x s))"

fun record_fields :: "apply_env \<Rightarrow> live_outputs \<Rightarrow> string list \<Rightarrow> props \<Rightarrow> (aerror, (string \<times> string) list) result" where
  "record_fields env outs own [] = Inr []"
| "record_fields env outs own ((name, v) # m) =
     (if \<not> needs_resolution v then record_fields env outs own m
      else (case record_field env outs own name v of
          Inl e \<Rightarrow> if unresolvable e \<or> undigestible e then record_fields env outs own m else Inl e
        | Inr d \<Rightarrow> rbind (record_fields env outs own m) (\<lambda>r. Inr ((name, d) # r))))"

definition ref_digests :: "apply_env \<Rightarrow> live_outputs \<Rightarrow> string \<Rightarrow> props \<Rightarrow> (aerror, (string \<times> string) list) result" where
  "ref_digests env outs type m = record_fields env outs
     (case map_of (ae_types env) type of None \<Rightarrow> [] | Some c \<Rightarrow> sensitive_fields (rc_fields c)) m"

subsection \<open>Verdicts\<close>

definition opened_outputs :: "apply_env \<Rightarrow> state_graph \<Rightarrow> node_id \<Rightarrow> (aerror, props option) result" where
  "opened_outputs env prior i = (case map_of prior i of
      None \<Rightarrow> Inr None
    | Some row \<Rightarrow>
        if sstatus row \<noteq> CREATED then Inr None
        else (case unseal_outputs (ae_secrets env) (soutputs row) of
            Inl e \<Rightarrow> if is_atlantide_error e then Inr None else Inl e
          | Inr m \<Rightarrow> Inr (Some m)))"

definition field_verdict :: "apply_env \<Rightarrow> state_graph \<Rightarrow> string \<Rightarrow> pyval \<Rightarrow> string option \<Rightarrow> (aerror, consumed option) result" where
  "field_verdict env prior name v recorded = (case recorded of
      None \<Rightarrow> Inr (Some UNRECORDED)
    | Some d \<Rightarrow>
        rbind (rmap (\<lambda>t. rbind (opened_outputs env prior t) (\<lambda>o_s. Inr (t, o_s))) (collect_ref_targets v)) (\<lambda>ups.
          if list_ex (\<lambda>(t, o_s). o_s = None) ups then Inr None
          else (case resolve_value (ae_py env) (ae_format env) (dict_of fst (\<lambda>u. the (snd u)) ups) True v of
              Inl e \<Rightarrow> if unresolvable e then Inr None else Inl e
            | Inr x \<Rightarrow> rbind (ref_matches env name x d) (\<lambda>r. Inr (if r = Some False then Some MOVED else None)))))"

fun node_verdicts :: "apply_env \<Rightarrow> state_graph \<Rightarrow> irnode \<Rightarrow> state_node \<Rightarrow> props \<Rightarrow> (aerror, (string \<times> consumed) list) result" where
  "node_verdicts env prior n have [] = Inr []"
| "node_verdicts env prior n have ((name, v) # m) =
     (if name \<in> set (nignore_changes n) \<or> \<not> needs_resolution v
         \<or> (case map_of (sproperties have) name of None \<Rightarrow> True | Some w \<Rightarrow> \<not> py_eq w v)
      then node_verdicts env prior n have m
      else rbind (field_verdict env prior name v (map_of (sref_digests have) name)) (\<lambda>r.
           rbind (node_verdicts env prior n have m) (\<lambda>rs.
             Inr (case r of None \<Rightarrow> rs | Some c \<Rightarrow> (name, c) # rs))))"

fun consumed_in :: "apply_env \<Rightarrow> state_graph \<Rightarrow> irnode list \<Rightarrow> (aerror, (node_id \<times> (string \<times> consumed) list) list) result" where
  "consumed_in env prior [] = Inr []"
| "consumed_in env prior (n # ns) = (case map_of prior (nid n) of
      None \<Rightarrow> consumed_in env prior ns
    | Some have \<Rightarrow>
        if sstatus have \<noteq> CREATED then consumed_in env prior ns
        else rbind (node_verdicts env prior n have (nproperties n)) (\<lambda>fs.
             rbind (consumed_in env prior ns) (\<lambda>r. Inr (if fs = [] then r else (nid n, fs) # r))))"

definition consumed_verdicts ::
  "apply_env \<Rightarrow> irgraph \<Rightarrow> state_graph \<Rightarrow> (aerror, (node_id \<times> (string \<times> consumed) list) list) result" where
  "consumed_verdicts env ir prior = consumed_in env prior (gnodes ir)"

subsection \<open>What a verdict means\<close>

lemma ref_digest_schemes: "starts_with (PLAIN_PREFIX @ d) PLAIN_PREFIX" "\<not> starts_with (PLAIN_PREFIX @ d) SALTED_PREFIX"
  "starts_with (SALTED_PREFIX @ d) SALTED_PREFIX"
  by (simp_all add: starts_with_def PLAIN_PREFIX_def SALTED_PREFIX_def)

lemma ref_digest_form: "ref_digest env f v s = Inr d \<Longrightarrow> \<exists>x. d = (if s then SALTED_PREFIX else PLAIN_PREFIX) @ x"
  by (cases s; fastforce simp: ref_digest_def rbind_Inr_iff)

lemma ref_digest_scheme:
  assumes "ref_digest env f v s = Inr d"
  shows "starts_with d SALTED_PREFIX \<longleftrightarrow> s" and "starts_with d SALTED_PREFIX \<or> starts_with d PLAIN_PREFIX"
  using ref_digest_form [OF assms] ref_digest_schemes by (cases s; fastforce)+

text \<open>
  Both schemes compare the values' JSON: equal texts always match, and texts that differ do
  not, as long as the digest in use tells the two apart.
\<close>

definition digests_apart :: "apply_env \<Rightarrow> string \<Rightarrow> string \<Rightarrow> string \<Rightarrow> bool" where
  "digests_apart env field t u \<longleftrightarrow>
     ae_sha env (PLAIN_DOMAIN @ utf8 t) \<noteq> ae_sha env (PLAIN_DOMAIN @ utf8 u) \<and>
     (\<forall>d. \<not> (api_digest (ae_secrets env) (''$ref:'' @ field) t = Inr d \<and> api_digest (ae_secrets env) (''$ref:'' @ field) u = Inr d))"

lemma ref_matches_iff:
  assumes "ref_digest env field v s = Inr d" and "ref_digest env field w s = Inr d'"
    and "canonical_text env v = Inr t" and "canonical_text env w = Inr u" and "t \<noteq> u \<Longrightarrow> digests_apart env field t u"
  shows "ref_matches env field w d = Inr (Some (t = u))"
proof -
  have "(d' = d) = (t = u)"
  proof
    assume e: "d' = d"
    show "t = u"
    proof (rule ccontr)
      assume "t \<noteq> u"
      then have "digests_apart env field t u" by (rule assms(5))
      then show False using assms(1-4) e by (auto simp: digests_apart_def ref_digest_def rbind_Inr_iff split: if_splits)
    qed
  next
    assume "t = u"
    then show "d' = d" using assms(1-4) by (simp add: ref_digest_def)
  qed
  then show ?thesis using assms(2) ref_digest_scheme [OF assms(1)] by (auto simp: ref_matches_def)
qed

lemma record_fields_lookup:
  assumes "record_fields env outs own m = Inr r" and "wf_dict m"
  shows "map_of r f = (case map_of m f of None \<Rightarrow> None
    | Some v \<Rightarrow> if needs_resolution v then (case record_field env outs own f v of Inr d \<Rightarrow> Some d | Inl e \<Rightarrow> None) else None)"
  using assms
proof (induction m arbitrary: r)
  case (Cons nv m)
  obtain name v where nv: "nv = (name, v)" by (cases nv)
  have fresh: "map_of m name = None" using Cons.prems(2) nv by (simp add: map_of_eq_None_iff)
  show ?case
  proof (cases "needs_resolution v \<and> (\<exists>d. record_field env outs own name v = Inr d)")
    case True
    then obtain d r' where "record_field env outs own name v = Inr d" "record_fields env outs own m = Inr r'" "r = (name, d) # r'"
      using Cons.prems(1) nv by (auto simp: rbind_Inr_iff)
    then show ?thesis using Cons True nv by simp
  next
    case False
    then have "record_fields env outs own m = Inr r"
      using Cons.prems(1) nv by (auto split: sum.splits if_splits)
    then have r: "map_of r f = (case map_of m f of None \<Rightarrow> None
        | Some v \<Rightarrow> if needs_resolution v then (case record_field env outs own f v of Inr d \<Rightarrow> Some d | Inl e \<Rightarrow> None) else None)"
      using Cons nv by simp
    show ?thesis
      using r False nv fresh by (cases "f = name") (auto split: sum.splits option.splits)
  qed
qed simp

text \<open>The stored outputs a field's upstreams give, where all of them are confirmed and can be opened.\<close>

definition upstream_outputs :: "apply_env \<Rightarrow> state_graph \<Rightarrow> pyval \<Rightarrow> live_outputs \<Rightarrow> bool" where
  "upstream_outputs env prior v now \<longleftrightarrow>
     list_all (\<lambda>t. \<exists>m. opened_outputs env prior t = Inr (Some m)) (collect_ref_targets v) \<and>
     now = dict_of (\<lambda>t. t) (\<lambda>t. case opened_outputs env prior t of Inr (Some m) \<Rightarrow> m | _ \<Rightarrow> []) (collect_ref_targets v)"

lemma dict_of_map: "dict_of kf vf (map g xs) = dict_of (kf \<circ> g) (vf \<circ> g) xs"
  by (simp add: dict_of_def fold_map comp_def)

lemma field_verdict_moved:
  assumes rec: "record_field env outs own name v = Inr d" and now: "upstream_outputs env prior v now"
    and x: "resolve_value (ae_py env) (ae_format env) outs True v = Inr x" and y: "resolve_value (ae_py env) (ae_format env) now True v = Inr y"
    and t: "canonical_text env x = Inr t" and u: "canonical_text env y = Inr u"
    and apart: "t \<noteq> u \<Longrightarrow> digests_apart env name t u"
    and total: "\<exists>d'. \<forall>s. derives_sensitive (ae_types env) (name \<in> set own) v = Inr s \<longrightarrow> ref_digest env name y s = Inr d'"
  shows "field_verdict env prior name v (Some d) = Inr (if t = u then None else Some MOVED)"
proof -
  obtain s where s: "derives_sensitive (ae_types env) (name \<in> set own) v = Inr s" and d: "ref_digest env name x s = Inr d"
    using rec x by (auto simp: record_field_def rbind_Inr_iff)
  obtain d' where d': "ref_digest env name y s = Inr d'" using total s by blast
  let ?o = "\<lambda>i. case opened_outputs env prior i of Inr (Some m) \<Rightarrow> m | _ \<Rightarrow> []"
  have op: "opened_outputs env prior i = Inr (Some (?o i))" if "i \<in> set (collect_ref_targets v)" for i
    using now that by (auto simp: upstream_outputs_def list_all_iff)
  have ups: "rmap (\<lambda>i. rbind (opened_outputs env prior i) (\<lambda>o_s. Inr (i, o_s))) (collect_ref_targets v)
      = Inr (map (\<lambda>i. (i, Some (?o i))) (collect_ref_targets v))"
    by (rule rmap_pure) (subst op, assumption, simp)
  have "dict_of fst (\<lambda>w. the (snd w)) (map (\<lambda>i. (i, Some (?o i))) (collect_ref_targets v)) = now"
    using now by (simp add: dict_of_map upstream_outputs_def comp_def)
  moreover have "ref_matches env name y d = Inr (Some (t = u))"
    by (rule ref_matches_iff [OF d d' t u apart])
  ultimately show ?thesis
    using y by (simp add: field_verdict_def ups list_ex_iff)
qed

text \<open>
  A plan sees a moved upstream value. For a field a row recorded when it was applied,
  whose upstreams are recorded and can be opened: the verdict is \<open>MOVED\<close> exactly when the
  field now resolves, against the stored outputs, to a value whose JSON is not the one it was
  applied with, for any digests that tell those two texts apart; and a field the row did not
  record is \<open>UNRECORDED\<close>.
\<close>

lemma consumed_verdict_decides:
  assumes "record_field env outs own name v = Inr d" and "upstream_outputs env prior v now"
    and "resolve_value (ae_py env) (ae_format env) outs True v = Inr x"
    and "resolve_value (ae_py env) (ae_format env) now True v = Inr y"
    and "canonical_text env x = Inr t" and "canonical_text env y = Inr u"
    and "t \<noteq> u \<Longrightarrow> digests_apart env name t u"
    and "\<exists>d'. \<forall>s. derives_sensitive (ae_types env) (name \<in> set own) v = Inr s \<longrightarrow> ref_digest env name y s = Inr d'"
  shows "field_verdict env prior name v (Some d) = Inr (if t = u then None else Some MOVED) \<and>
    field_verdict env prior name v None = Inr (Some UNRECORDED)"
  using field_verdict_moved [OF assms] by (simp add: field_verdict_def)

definition net_row :: "string \<Rightarrow> state_node" where
  "net_row i = \<lparr>sid = ''s:aws.Vpc:net'', stype = ''aws.Vpc'', sprovider = ''aws'', sprovider_version = ''1.0.0'', sinput_hash = ''h'',
     soutputs = [(''id'', PStr i)], sproperties = [], sdependencies = [], sprevent_destroy = False, sstatus = CREATED,
     ssecret_digests = [], sref_digests = [], sdepends_on = []\<rparr>"

definition applied_env :: apply_env where
  "applied_env = \<lparr>ae_types = [(''aws.Vpc'', \<lparr>rc_name = ''Vpc'', rc_provider = ''aws'', rc_fields = [(''id'', Some (computed False))],
       rc_tags_default = PNone, rc_data = False\<rparr>)], ae_providers = [''aws''],
     ae_secrets = \<lparr>api_resolve = (\<lambda>n p. Inr n), api_digest = (\<lambda>s p. Inr (s @ p)), api_seal = (\<lambda>s. Inr (PStr s)), api_unseal = Inr\<rparr>,
     ae_stack_outputs = [], ae_py = plain_env, ae_format = str_only, ae_validate = (\<lambda>c d. Inr d), ae_sha = (\<lambda>s. s), ae_jsonable = Inr\<rparr>"

definition vpc_ref :: pyval where "vpc_ref = pdict [(REF_KEY, PStr ''s:aws.Vpc:net#id'')]"

lemma vpc_ref_facts:
  "collect_ref_targets vpc_ref = [''s:aws.Vpc:net'']"
  "tree_collect False is_ref_marker vpc_ref = [vpc_ref]"
  "refers_sensitive (ae_types applied_env) vpc_ref = Inr False"
  "resolve_value plain_env str_only [(''s:aws.Vpc:net'', [(''id'', PStr i)])] True vpc_ref = Inr (PStr i)"
proof -
  show "collect_ref_targets vpc_ref = [''s:aws.Vpc:net'']" by code_simp
  show "tree_collect False is_ref_marker vpc_ref = [vpc_ref]" by code_simp
  show "refers_sensitive (ae_types applied_env) vpc_ref = Inr False"
  proof -
    have "ref_of vpc_ref = Inr (''s:aws.Vpc:net'', ''id'')" "type_name_of ''s:aws.Vpc:net'' = Inr ''aws.Vpc''" by code_simp+
    then show ?thesis by (simp add: refers_sensitive_def applied_env_def sensitive_fields_def meta_sensitive_def computed_def)
  qed
  show "resolve_value plain_env str_only [(''s:aws.Vpc:net'', [(''id'', PStr i)])] True vpc_ref = Inr (PStr i)"
    using resolve_ref_marker [of "''s:aws.Vpc:net''" plain_env str_only "[(''s:aws.Vpc:net'', [(''id'', PStr i)])]" "''id''"]
    by (simp add: vpc_ref_def resolve_ref lookup_output_def)
qed

lemma text_of_str: "canonical_text applied_env (PStr s) = Inr (json_str False s)"
  by (simp add: canonical_text_def applied_env_def compact_json.simps)

end
