(* ===== verification/Aliases.thy ===== *)
theory Aliases
  imports Resolve Merkle TopoOrder MemoryBackend
begin

text \<open>
  Rename without replace (\<open>reconcile/aliases.py\<close>): which recorded ids the aliases of a
  configuration rename, the migrated copy of the state the diff runs against, and writing it
  back. The equality of rows that \<open>persist_migration\<close> tests is the records' own.
\<close>

definition expand_alias :: "string \<Rightarrow> node_id \<Rightarrow> (aerror, node_id) result" where
  "expand_alias alias new_id = (if CHR '':'' \<in> set alias then Inr alias
     else rbind (type_name_of new_id) (\<lambda>t. Inr (format_node_id (stack_of new_id) t alias)))"

text \<open>The first alias that names a recorded id no earlier node has taken.\<close>

fun first_alias :: "node_id set \<Rightarrow> (node_id \<times> node_id) list \<Rightarrow> node_id \<Rightarrow> string list \<Rightarrow> (aerror, node_id option) result" where
  "first_alias prior remap i [] = Inr None"
| "first_alias prior remap i (a # as) = rbind (expand_alias a i) (\<lambda>old_id.
     if old_id \<in> prior \<and> old_id \<notin> fst ` set remap then Inr (Some old_id) else first_alias prior remap i as)"

fun remap_nodes :: "node_id set \<Rightarrow> irnode list \<Rightarrow> (node_id \<times> node_id) list \<Rightarrow> (aerror, (node_id \<times> node_id) list) result" where
  "remap_nodes prior [] remap = Inr remap"
| "remap_nodes prior (n # ns) remap =
     (if nid n \<in> prior \<or> naliases n = [] then remap_nodes prior ns remap
      else rbind (first_alias prior remap (nid n) (naliases n)) (\<lambda>r.
        remap_nodes prior ns (case r of None \<Rightarrow> remap | Some old_id \<Rightarrow> AList.update old_id (nid n) remap)))"

definition alias_remap :: "state_graph \<Rightarrow> irgraph \<Rightarrow> (aerror, (node_id \<times> node_id) list) result" where
  "alias_remap prior ir = remap_nodes (fst ` set prior) (gnodes ir) []"

definition rekey :: "pyenv \<Rightarrow> (node_id \<times> node_id) list \<Rightarrow> state_node \<Rightarrow> (aerror, state_node) result" where
  "rekey env remap s =
     rbind (rbind (remap_refs env (pdict (sproperties s)) remap) to_props) (\<lambda>ps.
       Inr (s\<lparr>sid := dget remap (sid s) (sid s), sproperties := ps,
              sdependencies := map (\<lambda>d. dget remap d d) (sdependencies s),
              sdepends_on := map (\<lambda>d. dget remap d d) (sdepends_on s)\<rparr>))"

definition rehash :: "pyenv \<Rightarrow> (string \<Rightarrow> string) \<Rightarrow> state_graph \<Rightarrow> (node_id \<times> string list) list
    \<Rightarrow> (aerror, (node_id \<times> string) list) result option" where
  "rehash env sha rows ignore =
     (let ir = ir_from_state rows True ignore
      in case build_graph ir of
           None \<Rightarrow> None
         | Some r \<Rightarrow> (case unwrap r of
             Inl e \<Rightarrow> Some (Inl e)
           | Inr g \<Rightarrow> map_option (\<lambda>topo. rbind topo (merkle_hashes env sha ir)) (topological_order g False)))"

definition rehashed_row :: "(node_id \<times> string) list \<Rightarrow> node_id \<times> state_node \<Rightarrow> (aerror, node_id \<times> state_node) result" where
  "rehashed_row hashes r = (case r of (i, s) \<Rightarrow>
     if sinput_hash s = NO_INPUT_HASH then Inr (i, s)
     else (case map_of hashes i of None \<Rightarrow> Inl (KeyError i) | Some h \<Rightarrow> Inr (i, s\<lparr>sinput_hash := h\<rparr>)))"

definition resolve_aliases :: "pyenv \<Rightarrow> (string \<Rightarrow> string) \<Rightarrow> state_graph \<Rightarrow> irgraph
    \<Rightarrow> (aerror, state_graph \<times> (node_id \<times> node_id) list) result option" where
  "resolve_aliases env sha prior ir = (case alias_remap prior ir of
      Inl e \<Rightarrow> Some (Inl e)
    | Inr remap \<Rightarrow>
        if remap = [] then Some (Inr (prior, []))
        else (case rmap (rekey env remap) (map snd prior) of
            Inl e \<Rightarrow> Some (Inl e)
          | Inr rs \<Rightarrow>
              (let rows = dict_of sid (\<lambda>s. s) rs
               in map_option (\<lambda>hs. rbind hs (\<lambda>hashes. rbind (rmap (rehashed_row hashes) rows) (\<lambda>m. Inr (m, remap))))
                    (rehash env sha rows (dict_of nid nignore_changes (gnodes ir))))))"

definition moved_rows :: "state_graph \<Rightarrow> state_graph \<Rightarrow> state_node list" where
  "moved_rows prior migrated = map snd (filter (\<lambda>(i, s). map_of prior i \<noteq> Some s) migrated)"

definition persist_migration ::
  "time \<Rightarrow> state_graph \<Rightarrow> state_graph \<Rightarrow> (node_id \<times> node_id) list \<Rightarrow> memory \<Rightarrow> memory \<times> (aerror, unit) result" where
  "persist_migration now prior migrated remap = mem_replace_many now (map fst remap) (moved_rows prior migrated)"

subsection \<open>What is renamed\<close>

definition remap_ok :: "node_id set \<Rightarrow> node_id set \<Rightarrow> (node_id \<times> node_id) list \<Rightarrow> bool" where
  "remap_ok prior taken remap \<longleftrightarrow> wf_dict remap \<and> distinct (map snd remap) \<and> fst ` set remap \<subseteq> prior \<and>
     snd ` set remap \<inter> prior = {} \<and> snd ` set remap \<subseteq> taken"

lemma first_alias_Some:
  "first_alias prior remap i as = Inr (Some old_id) \<Longrightarrow> old_id \<in> prior \<and> old_id \<notin> fst ` set remap"
  by (induction as) (auto simp: rbind_Inr_iff split: if_splits)

lemma remap_nodes_ok:
  assumes "remap_nodes prior ns remap = Inr remap'" and "remap_ok prior taken remap"
    and "distinct (map nid ns)" and "taken \<inter> nid ` set ns = {}"
  shows "remap_ok prior (taken \<union> nid ` set ns) remap'"
  using assms
proof (induction ns arbitrary: remap taken)
  case (Cons n ns)
  let ?t = "insert (nid n) taken"
  have "\<exists>remap1. remap_nodes prior ns remap1 = Inr remap' \<and> remap_ok prior ?t remap1"
  proof (cases "nid n \<in> prior \<or> naliases n = []")
    case True
    then have "remap_nodes prior ns remap = Inr remap'" using Cons.prems(1) by simp
    moreover have "remap_ok prior ?t remap" using Cons.prems(2) by (auto simp: remap_ok_def)
    ultimately show ?thesis by blast
  next
    case False
    then obtain r where r: "first_alias prior remap (nid n) (naliases n) = Inr r"
      and rest: "remap_nodes prior ns (case r of None \<Rightarrow> remap | Some old_id \<Rightarrow> AList.update old_id (nid n) remap) = Inr remap'"
      using Cons.prems(1) by (auto simp: rbind_Inr_iff)
    show ?thesis
    proof (cases r)
      case None
      then have "remap_nodes prior ns remap = Inr remap'" using rest by simp
      moreover have "remap_ok prior ?t remap" using Cons.prems(2) by (auto simp: remap_ok_def)
      ultimately show ?thesis by blast
    next
      case (Some old_id)
      then have "old_id \<in> prior" "old_id \<notin> fst ` set remap" using r first_alias_Some by blast+
      then have "remap_ok prior ?t (AList.update old_id (nid n) remap)"
        using Cons.prems False by (auto simp: remap_ok_def update_fresh)
      then show ?thesis using rest Some by auto
    qed
  qed
  then obtain remap1 where "remap_nodes prior ns remap1 = Inr remap'" "remap_ok prior ?t remap1" by blast
  then have "remap_ok prior (?t \<union> nid ` set ns) remap'"
    using Cons.prems(3,4) by (intro Cons.IH) auto
  then show ?case by simp
qed simp

lemma alias_remap_ok:
  assumes "alias_remap prior ir = Inr remap" and "distinct (map nid (gnodes ir))"
  shows "remap_ok (fst ` set prior) (nid ` set (gnodes ir)) remap"
  using remap_nodes_ok [of "fst ` set prior" "gnodes ir" "[]" remap "{}"] assms by (simp add: alias_remap_def remap_ok_def)

text \<open>A recorded id's new name.\<close>

definition renamed :: "(node_id \<times> node_id) list \<Rightarrow> node_id \<Rightarrow> node_id" where
  "renamed remap i = dget remap i i"

lemma renamed_inj:
  assumes "remap_ok prior taken remap"
  shows "inj_on (renamed remap) prior"
proof (rule inj_onI)
  fix i j assume ij: "i \<in> prior" "j \<in> prior" "renamed remap i = renamed remap j"
  have val: "map_of remap k = Some v \<Longrightarrow> v \<notin> prior" for k v
    using assms by (force simp: remap_ok_def dest: map_of_SomeD)
  show "i = j"
  proof (cases "map_of remap i"; cases "map_of remap j")
    fix v w assume vw: "map_of remap i = Some v" "map_of remap j = Some w"
    then have "(i, v) \<in> set remap" "(j, v) \<in> set remap" using ij(3) by (auto simp: renamed_def dget_def dest: map_of_SomeD)
    moreover have "v = w" using vw ij(3) by (simp add: renamed_def dget_def)
    moreover have "inj_on snd (set remap)" using assms by (simp add: remap_ok_def distinct_map)
    ultimately show ?thesis by (metis inj_onD prod.inject snd_conv)
  qed (use ij val in \<open>auto simp: renamed_def dget_def\<close>)
qed

lemma renamed_not_old:
  assumes ok: "remap_ok prior taken remap" and i: "i \<in> renamed remap ` prior"
  shows "i \<notin> fst ` set remap"
proof
  assume old: "i \<in> fst ` set remap"
  obtain j where j: "j \<in> prior" "i = renamed remap j" using i by blast
  have "i \<in> prior" using ok old by (auto simp: remap_ok_def)
  show False
  proof (cases "map_of remap j")
    case None
    then have "i = j" using j by (simp add: renamed_def dget_def)
    then show False using None old by (simp add: map_of_eq_None_iff)
  next
    case (Some v)
    then have "i \<in> snd ` set remap" using j by (force simp: renamed_def dget_def dest: map_of_SomeD)
    then show False using ok \<open>i \<in> prior\<close> by (auto simp: remap_ok_def)
  qed
qed

lemma map_of_filter_key:
  "wf_dict m \<Longrightarrow> map_of (filter (\<lambda>(i, s). P i s) m) i = (case map_of m i of None \<Rightarrow> None | Some s \<Rightarrow> if P i s then Some s else None)"
  by (induction m) (auto simp: map_of_eq_None_iff split: option.splits)

subsection \<open>What a migration keeps\<close>

definition same_object :: "state_node \<Rightarrow> state_node \<Rightarrow> bool" where
  "same_object s s' \<longleftrightarrow> stype s' = stype s \<and> sprovider s' = sprovider s \<and> sprovider_version s' = sprovider_version s \<and>
     soutputs s' = soutputs s \<and> sprevent_destroy s' = sprevent_destroy s \<and> sstatus s' = sstatus s \<and>
     ssecret_digests s' = ssecret_digests s \<and> sref_digests s' = sref_digests s"

definition keyed :: "state_graph \<Rightarrow> bool" where
  "keyed rows \<longleftrightarrow> wf_dict rows \<and> (\<forall>r \<in> set rows. fst r = sid (snd r))"

text \<open>Row by row: the migrated copy holds the same objects, in the same order, under the new ids.\<close>

definition migrates :: "(node_id \<times> node_id) list \<Rightarrow> node_id \<times> state_node \<Rightarrow> node_id \<times> state_node \<Rightarrow> bool" where
  "migrates remap r r' \<longleftrightarrow> fst r' = renamed remap (fst r) \<and> sid (snd r') = fst r' \<and> same_object (snd r) (snd r') \<and>
     sdependencies (snd r') = map (renamed remap) (sdependencies (snd r))"

lemma rekey_same:
  "rekey env remap s = Inr s' \<Longrightarrow> sid s' = renamed remap (sid s) \<and> same_object s s' \<and>
    sdependencies s' = map (renamed remap) (sdependencies s)"
  by (auto simp: rekey_def rbind_Inr_iff same_object_def renamed_def)

lemma rehashed_same:
  "rehashed_row hashes r = Inr r' \<Longrightarrow> fst r' = fst r \<and> sid (snd r') = sid (snd r) \<and> same_object (snd r) (snd r') \<and>
    sdependencies (snd r') = sdependencies (snd r)"
  by (auto simp: rehashed_row_def same_object_def split: prod.splits if_splits option.splits)

lemma resolve_aliases_rows:
  assumes r: "resolve_aliases env sha prior ir = Some (Inr (migrated, remap))"
    and k: "keyed prior" and d: "distinct (map nid (gnodes ir))"
  shows "remap_ok (fst ` set prior) (nid ` set (gnodes ir)) remap \<and> list_all2 (migrates remap) prior migrated"
proof -
  have am: "alias_remap prior ir = Inr remap"
    using r by (auto simp: resolve_aliases_def Let_def rbind_Inr_iff split: sum.splits if_splits)
  have ok: "remap_ok (fst ` set prior) (nid ` set (gnodes ir)) remap" by (rule alias_remap_ok [OF am d])
  have "list_all2 (migrates remap) prior migrated"
  proof (cases "remap = []")
    case True
    then have "migrated = prior" using r am by (simp add: resolve_aliases_def)
    then show ?thesis using k True
      by (auto simp: list_all2_same migrates_def renamed_def [abs_def] dget_def same_object_def keyed_def)
  next
    case False
    from r am False obtain rs hashes where rs: "rmap (rekey env remap) (map snd prior) = Inr rs"
      and m: "rmap (rehashed_row hashes) (dict_of sid (\<lambda>s. s) rs) = Inr migrated"
      by (auto simp: resolve_aliases_def Let_def rbind_Inr_iff split: sum.splits)
    have len: "length rs = length prior" using rs by (auto dest: rmap_Inr_length)
    have row: "rekey env remap (snd (prior ! j)) = Inr (rs ! j)" if "j < length prior" for j
      using rs that by (simp add: rmap_Inr_iff)
    have sids: "map sid rs = map (renamed remap) (map fst prior)"
    proof (rule nth_equalityI)
      fix j assume "j < length (map sid rs)"
      then show "map sid rs ! j = map (renamed remap) (map fst prior) ! j"
        using rekey_same [OF row [of j]] k len by (simp add: keyed_def)
    qed (simp add: len)
    have "distinct (map sid rs)"
      unfolding sids using k renamed_inj [OF ok] by (simp add: keyed_def distinct_map [of "renamed remap"] del: map_map)
    then have m': "rmap (rehashed_row hashes) (map (\<lambda>s. (sid s, s)) rs) = Inr migrated" using m by (simp add: dict_of_distinct)
    have "migrates remap (prior ! j) (migrated ! j)" if j: "j < length prior" for j
    proof -
      have "rehashed_row hashes (sid (rs ! j), rs ! j) = Inr (migrated ! j)" using m' j len by (simp add: rmap_Inr_iff)
      from rehashed_same [OF this] rekey_same [OF row [OF j]] k j show ?thesis
        by (simp add: migrates_def same_object_def keyed_def)
    qed
    moreover have "length migrated = length prior" using m' len by (auto dest: rmap_Inr_length)
    ultimately show ?thesis by (simp add: list_all2_conv_all_nth)
  qed
  with ok show ?thesis by simp
qed

lemma migrates_keys: "list_all2 (migrates remap) prior migrated \<Longrightarrow> map fst migrated = map (renamed remap) (map fst prior)"
  by (induction rule: list_all2_induct) (auto simp: migrates_def)

lemma migrates_keyed:
  assumes "list_all2 (migrates remap) prior migrated" and "wf_dict prior" and "inj_on (renamed remap) (fst ` set prior)"
  shows "keyed migrated"
proof -
  have "wf_dict migrated" using assms by (simp add: migrates_keys distinct_map [of "renamed remap"] del: map_map)
  moreover have "\<forall>r \<in> set migrated. fst r = sid (snd r)"
    using assms(1) by (induction rule: list_all2_induct) (auto simp: migrates_def)
  ultimately show ?thesis by (simp add: keyed_def)
qed

lemma moved_rows_map:
  assumes "keyed migrated"
  shows "map_of (rev (map (\<lambda>n. (sid n, n)) (moved_rows prior migrated))) = map_of (filter (\<lambda>(i, s). map_of prior i \<noteq> Some s) migrated)"
proof -
  let ?f = "filter (\<lambda>(i, s). map_of prior i \<noteq> Some s) migrated"
  have "map (\<lambda>n. (sid n, n)) (moved_rows prior migrated) = map (\<lambda>r. r) ?f"
    unfolding moved_rows_def map_map using assms by (intro map_cong) (auto simp: keyed_def prod_eq_iff)
  moreover have "distinct (map fst ?f)" using assms by (simp add: keyed_def distinct_map_filter)
  ultimately show ?thesis by (simp add: map_of_rev_distinct)
qed

text \<open>
  A rename migrates the state without losing or duplicating a row. The recorded ids are
  renamed injectively; every row keeps its object (outputs, provider, digests, status) under
  its new id, with its dependencies renamed alike; and writing the migration back through one
  batch leaves a store that held the old rows holding exactly the migrated ones, provided the
  run may write every row the batch touches.
\<close>

lemma alias_migration_persists:
  assumes r: "resolve_aliases env sha prior ir = Some (Inr (migrated, remap))"
    and k: "keyed prior" and d: "distinct (map nid (gnodes ir))" and b: "mem_row b = map_of prior"
    and w: "\<forall>i \<in> fst ` set remap \<union> sid ` set (moved_rows prior migrated). may_write now b i"
  shows "inj_on (renamed remap) (fst ` set prior) \<and> list_all2 (migrates remap) prior migrated \<and>
    (\<exists>b'. persist_migration now prior migrated remap b = (b', Inr ()) \<and> mem_row b' = map_of migrated)"
proof -
  have ok: "remap_ok (fst ` set prior) (nid ` set (gnodes ir)) remap" and mig: "list_all2 (migrates remap) prior migrated"
    using resolve_aliases_rows [OF r k d] by simp_all
  have inj: "inj_on (renamed remap) (fst ` set prior)" by (rule renamed_inj [OF ok])
  have km: "keyed migrated" using migrates_keyed [OF mig _ inj] k by (simp add: keyed_def)
  have keys: "fst ` set migrated = renamed remap ` fst ` set prior" using migrates_keys [OF mig] by (metis image_set)
  let ?b' = "fold mem_store (moved_rows prior migrated) (fold mem_drop (map fst remap) b)"
  have "persist_migration now prior migrated remap b = (?b', Inr ())"
    using w by (simp add: persist_migration_def mem_replace_many_def checked_cases mem_check_ok ball_Un)
  moreover have "mem_row ?b' = map_of migrated"
  proof
    fix i
    have row: "mem_row ?b' i = (case map_of (filter (\<lambda>(i, s). map_of prior i \<noteq> Some s) migrated) i of
        Some s \<Rightarrow> Some s | None \<Rightarrow> if i \<in> fst ` set remap then None else map_of prior i)"
      using moved_rows_map [OF km, of prior] b
      by (simp only: mem_row_fold_store mem_row_fold_drop map_add_def set_map)
    have filt: "map_of (filter (\<lambda>(i, s). map_of prior i \<noteq> Some s) migrated) i =
        (case map_of migrated i of None \<Rightarrow> None | Some s \<Rightarrow> if map_of prior i \<noteq> Some s then Some s else None)"
      using km by (simp add: keyed_def map_of_filter_key)
    show "mem_row ?b' i = map_of migrated i"
    proof (cases "map_of migrated i")
      case None
      then have "i \<notin> renamed remap ` fst ` set prior" using keys by (simp add: map_of_eq_None_iff)
      moreover have "i \<notin> fst ` set remap \<Longrightarrow> renamed remap i = i"
        by (simp add: renamed_def dget_def map_of_eq_None_iff [THEN iffD2])
      ultimately have "i \<notin> fst ` set remap \<Longrightarrow> map_of prior i = None" by (metis image_eqI map_of_eq_None_iff)
      then show ?thesis using None by (simp add: row filt)
    next
      case (Some s)
      have "i \<notin> fst ` set remap" by (rule renamed_not_old [OF ok]) (metis Some keys map_of_SomeD fst_conv image_eqI)
      then show ?thesis using Some by (simp add: row filt)
    qed
  qed
  ultimately show ?thesis using inj mig by simp
qed

definition renamed_ir :: irgraph where
  "renamed_ir = \<lparr>gnodes = [\<lparr>nid = ''s:t:b'', ntype = ''t'', nprovider = ''p'', nprovider_version = ''1'', nproperties = [],
     ndependencies = [], nprevent_destroy = False, ncbd = False, nignore_changes = [], naliases = [''a''],
     ndepends_on = [], nkind = ResourceKind\<rparr>], gversion = IR_VERSION\<rparr>"

definition old_rows :: state_graph where
  "old_rows = [(''s:t:a'', mk_row ((hd (gnodes renamed_ir))\<lparr>nid := ''s:t:a''\<rparr>) ''h'')]"

end
