(* ===== verification/ExecProg.thy ===== *)
theory ExecProg
  imports ResourceModel StateModel
begin

text \<open>
  Coroutines. The executor is asynchronous: between two awaits a node's step runs alone, at an
  await anything may happen (other nodes' steps, a provider that fails, a cancellation, the end
  of the process). A step is therefore a program that computes on the run's shared state and
  asks for the calls it awaits; \<open>traces\<close> lists the calls it can make and their answers, cut off
  anywhere. An exception is one of atlantide's or the language's that the model names, one it does
  not (a timeout, the provider's own), a cancellation, or the group a failed rollback raises. The calls are the state writes of \<open>NodeRecords\<close> (put and drop check the lease on the
  writing thread, \<open>ForgetRow\<close> does not), the reads of state and lease, and the provider's.
\<close>

datatype exn = Fail aerror | Foreign string | Cancelled | Group "exn list"

datatype call = PutRow state_node | DropRow node_id | ForgetRow node_id | LoadRows | LeaseLost
  | Create string resource | Update string props resource | Destroy string resource

datatype answer = Ok | Outputs props | Rows state_graph | Lost "exn option" | Err exn

text \<open>What a call may answer. Only the read of the lease cannot raise.\<close>

fun answers :: "call \<Rightarrow> answer \<Rightarrow> bool" where
  "answers (Create p r) a = (case a of Outputs m \<Rightarrow> True | Err e \<Rightarrow> True | _ \<Rightarrow> False)"
| "answers (Update p m r) a = (case a of Outputs m \<Rightarrow> True | Err e \<Rightarrow> True | _ \<Rightarrow> False)"
| "answers LoadRows a = (case a of Rows m \<Rightarrow> True | Err e \<Rightarrow> True | _ \<Rightarrow> False)"
| "answers LeaseLost a = (case a of Lost e \<Rightarrow> True | _ \<Rightarrow> False)"
| "answers (PutRow s) a = (case a of Ok \<Rightarrow> True | Err e \<Rightarrow> True | _ \<Rightarrow> False)"
| "answers (DropRow i) a = (case a of Ok \<Rightarrow> True | Err e \<Rightarrow> True | _ \<Rightarrow> False)"
| "answers (ForgetRow i) a = (case a of Ok \<Rightarrow> True | Err e \<Rightarrow> True | _ \<Rightarrow> False)"
| "answers (Destroy p r) a = (case a of Ok \<Rightarrow> True | Err e \<Rightarrow> True | _ \<Rightarrow> False)"

datatype ('c, 'a) prog = Done 'a 'c | Raise exn 'c | Ask call 'c "answer \<Rightarrow> 'c \<Rightarrow> ('c, 'a) prog"

lemma prog_induct [case_names Done Raise Ask, induct type: prog]:
  assumes "\<And>v c. P (Done v c)" and "\<And>e c. P (Raise e c)" and "\<And>q c k. (\<And>a c'. P (k a c')) \<Longrightarrow> P (Ask q c k)"
  shows "P p"
proof (induction p rule: prog.induct)
  case (Ask q c k)
  show ?case by (rule assms(3)) (rule Ask.IH, auto)
qed (use assms in auto)

text \<open>A part of a step: a program once the shared state is known.\<close>

type_synonym ('c, 'a) act = "'c \<Rightarrow> ('c, 'a) prog"

primrec prog_bind :: "('c, 'a) prog \<Rightarrow> ('a \<Rightarrow> ('c, 'b) act) \<Rightarrow> ('c, 'b) prog" where
  "prog_bind (Done v c) f = f v c"
| "prog_bind (Raise e c) f = Raise e c"
| "prog_bind (Ask q c k) f = Ask q c (\<lambda>r c'. prog_bind (k r c') f)"

primrec prog_catch :: "('c, 'a) prog \<Rightarrow> (exn \<Rightarrow> ('c, 'a) act) \<Rightarrow> ('c, 'a) prog" where
  "prog_catch (Done v c) h = Done v c"
| "prog_catch (Raise e c) h = h e c"
| "prog_catch (Ask q c k) h = Ask q c (\<lambda>r c'. prog_catch (k r c') h)"

definition abind :: "('c, 'a) act \<Rightarrow> ('a \<Rightarrow> ('c, 'b) act) \<Rightarrow> ('c, 'b) act" where
  "abind m f = (\<lambda>c. prog_bind (m c) f)"

definition aseq :: "('c, unit) act \<Rightarrow> ('c, 'b) act \<Rightarrow> ('c, 'b) act" where
  "aseq m n = abind m (\<lambda>_. n)"

definition acatch :: "('c, 'a) act \<Rightarrow> (exn \<Rightarrow> ('c, 'a) act) \<Rightarrow> ('c, 'a) act" where
  "acatch m h = (\<lambda>c. prog_catch (m c) h)"

definition aret :: "'a \<Rightarrow> ('c, 'a) act" where "aret v = (\<lambda>c. Done v c)"
definition araise :: "exn \<Rightarrow> ('c, 'a) act" where "araise e = (\<lambda>c. Raise e c)"
definition aget :: "('c \<Rightarrow> 'a) \<Rightarrow> ('c, 'a) act" where "aget f = (\<lambda>c. Done (f c) c)"
definition aupd :: "('c \<Rightarrow> 'c) \<Rightarrow> ('c, unit) act" where "aupd f = (\<lambda>c. Done () (f c))"

definition alift :: "(aerror, 'a) result \<Rightarrow> ('c, 'a) act" where
  "alift r = (case r of Inl e \<Rightarrow> araise (Fail e) | Inr v \<Rightarrow> aret v)"

definition aread :: "('c \<Rightarrow> (aerror, 'a) result) \<Rightarrow> ('c, 'a) act" where
  "aread f = (\<lambda>c. alift (f c) c)"

text \<open>\<open>except Exception\<close> leaves a cancellation alone; \<open>except BaseException\<close> is \<open>acatch\<close>.\<close>

definition acatch_exception :: "('c, 'a) act \<Rightarrow> (exn \<Rightarrow> ('c, 'a) act) \<Rightarrow> ('c, 'a) act" where
  "acatch_exception m h = acatch m (\<lambda>e. if e = Cancelled then araise e else h e)"

subsection \<open>Awaiting a call\<close>

definition protocol :: exn where "protocol = Foreign ''protocol''"

definition await_ok :: "call \<Rightarrow> ('c, unit) act" where
  "await_ok q = (\<lambda>c. Ask q c (\<lambda>a. case a of Ok \<Rightarrow> aret () | Err e \<Rightarrow> araise e | _ \<Rightarrow> araise protocol))"

definition await_outputs :: "call \<Rightarrow> ('c, props) act" where
  "await_outputs q = (\<lambda>c. Ask q c (\<lambda>a. case a of Outputs m \<Rightarrow> aret m | Err e \<Rightarrow> araise e | _ \<Rightarrow> araise protocol))"

definition await_rows :: "('c, state_graph) act" where
  "await_rows = (\<lambda>c. Ask LoadRows c (\<lambda>a. case a of Rows m \<Rightarrow> aret m | Err e \<Rightarrow> araise e | _ \<Rightarrow> araise protocol))"

definition await_lost :: "('c, exn option) act" where
  "await_lost = (\<lambda>c. Ask LeaseLost c (\<lambda>a. case a of Lost m \<Rightarrow> aret m | Err e \<Rightarrow> araise e | _ \<Rightarrow> araise protocol))"

subsection \<open>Traces\<close>

text \<open>
  An event is a call, its answer and whether a write took effect: one that answered does, one
  that raised may have. \<open>rely\<close> bounds what the rest of the run does to the shared state
  meanwhile. \<open>None\<close> is a run cut off.
\<close>

type_synonym event = "call \<times> answer \<times> bool"

datatype 'a outcome = Returned 'a | Raised exn

definition event_ok :: "event \<Rightarrow> bool" where
  "event_ok ev = (case ev of (q, a, landed) \<Rightarrow> answers q a \<and> ((\<forall>e. a \<noteq> Err e) \<longrightarrow> landed))"

inductive traces :: "('c \<Rightarrow> 'c \<Rightarrow> bool) \<Rightarrow> ('c, 'a) prog \<Rightarrow> event list \<Rightarrow> ('c \<times> 'a outcome) option \<Rightarrow> bool"
  for rely where
  cut: "traces rely p [] None"
| returned: "traces rely (Done v c) [] (Some (c, Returned v))"
| raised: "traces rely (Raise e c) [] (Some (c, Raised e))"
| answered: "event_ok (q, a, landed) \<Longrightarrow> rely c c' \<Longrightarrow> traces rely (k a c') t r \<Longrightarrow>
    traces rely (Ask q c k) ((q, a, landed) # t) r"

inductive_cases traces_DoneE: "traces rely (Done v c) t r"
inductive_cases traces_RaiseE: "traces rely (Raise e c) t r"
inductive_cases traces_AskE: "traces rely (Ask q c k) t r"

inductive_simps traces_Done [simp]: "traces rely (Done v c) t r"
inductive_simps traces_Raise [simp]: "traces rely (Raise e c) t r"

inductive_simps traces_Ask: "traces rely (Ask q c k) (ev # t) r"

lemma traces_step:
  "event_ok (q, a, landed) \<Longrightarrow> rely c c \<Longrightarrow> traces rely (k a c) t r \<Longrightarrow> traces rely (Ask q c k) ((q, a, landed) # t) r"
  by (rule traces.answered)

subsection \<open>Verification conditions\<close>

text \<open>
  \<open>safe\<close> computes the condition under which a program run after the events \<open>h\<close> makes only calls
  that \<open>I\<close> allows (\<open>I h q\<close>: call \<open>q\<close> may be made after \<open>h\<close>) and ends with \<open>Q\<close>.
\<close>

primrec safe :: "('c \<Rightarrow> 'c \<Rightarrow> bool) \<Rightarrow> (event list \<Rightarrow> call \<Rightarrow> bool) \<Rightarrow> ('a outcome \<Rightarrow> 'c \<Rightarrow> event list \<Rightarrow> bool)
    \<Rightarrow> ('c, 'a) prog \<Rightarrow> event list \<Rightarrow> bool" where
  "safe R I Q (Done v c) = (\<lambda>h. Q (Returned v) c h)"
| "safe R I Q (Raise e c) = (\<lambda>h. Q (Raised e) c h)"
| "safe R I Q (Ask q c k) = (\<lambda>h. I h q \<and>
     (\<forall>a landed c'. event_ok (q, a, landed) \<longrightarrow> R c c' \<longrightarrow> safe R I Q (k a c') (h @ [(q, a, landed)])))"

lemma safe_traces:
  assumes "traces R p t r" and "safe R I Q p h"
  shows "(\<forall>j < length t. I (h @ take j t) (fst (t ! j))) \<and> (\<forall>c x. r = Some (c, x) \<longrightarrow> Q x c (h @ t))"
  using assms
proof (induction arbitrary: h rule: traces.induct)
  case (answered q a landed c c' k t r)
  have "safe R I Q (k a c') (h @ [(q, a, landed)])" and I: "I h q" using answered.prems answered.hyps by auto
  from answered.IH [OF this(1)]
  have IH: "\<And>j. j < length t \<Longrightarrow> I (h @ (q, a, landed) # take j t) (fst (t ! j))"
    "\<And>c x. r = Some (c, x) \<Longrightarrow> Q x c (h @ (q, a, landed) # t)" by auto
  have "I (h @ take j ((q, a, landed) # t)) (fst (((q, a, landed) # t) ! j))" if "j < length ((q, a, landed) # t)" for j
    using that I IH(1) by (cases j) auto
  then show ?case using IH(2) by auto
qed simp_all

lemma safe_bind: "safe R I Q (prog_bind p f) h =
    safe R I (\<lambda>x c h. case x of Returned v \<Rightarrow> safe R I Q (f v c) h | Raised e \<Rightarrow> Q (Raised e) c h) p h"
  by (induction p arbitrary: h) auto

lemma safe_catch: "safe R I Q (prog_catch p f) h =
    safe R I (\<lambda>x c h. case x of Returned v \<Rightarrow> Q (Returned v) c h | Raised e \<Rightarrow> safe R I Q (f e c) h) p h"
  by (induction p arbitrary: h) auto

lemma safe_mono: "safe R I Q p h \<Longrightarrow> (\<And>x c h'. Q x c (h @ h') \<Longrightarrow> Q' x c (h @ h')) \<Longrightarrow> safe R I Q' p h"
proof (induction p arbitrary: h)
  case (Done v c)
  then show ?case using Done.prems(2) [of "Returned v" c "[]"] by simp
next
  case (Raise e c)
  then show ?case using Raise.prems(2) [of "Raised e" c "[]"] by simp
next
  case (Ask q c k)
  have "safe R I Q' (k a c') (h @ [(q, a, landed)])" if "event_ok (q, a, landed)" "R c c'" for a landed c'
  proof (rule Ask.IH [where h = "h @ [(q, a, landed)]"])
    show "safe R I Q (k a c') (h @ [(q, a, landed)])" using Ask.prems(1) that by simp
    show "\<And>x c h'. Q x c ((h @ [(q, a, landed)]) @ h') \<Longrightarrow> Q' x c ((h @ [(q, a, landed)]) @ h')"
      using Ask.prems(2) by (metis append.assoc)
  qed
  then show ?case using Ask.prems(1) by simp
qed

text \<open>A program that makes only calls with \<open>P\<close> leaves a history of such calls.\<close>

lemma safe_calls:
  "safe R (\<lambda>_ q. P q) Q p h \<Longrightarrow> \<forall>ev \<in> set h. P (fst ev) \<Longrightarrow>
    safe R (\<lambda>h q. P q \<and> (\<forall>ev \<in> set h. P (fst ev))) (\<lambda>x c h. Q x c h \<and> (\<forall>ev \<in> set h. P (fst ev))) p h"
  by (induction p arbitrary: h) auto

lemma safe_allow: "safe R I Q p h \<Longrightarrow> (\<And>h q. I h q \<Longrightarrow> J h q) \<Longrightarrow> safe R J Q p h"
  by (induction p arbitrary: h) auto

lemma safe_True: "safe R (\<lambda>_ _. True) (\<lambda>_ _ _. True) p h"
  by (induction p arbitrary: h) auto

named_theorems vcg

lemma event_ok_unit [vcg]:
  "event_ok (PutRow s, a, landed) \<longleftrightarrow> (a = Ok \<and> landed) \<or> (\<exists>e. a = Err e)"
  "event_ok (DropRow i, a, landed) \<longleftrightarrow> (a = Ok \<and> landed) \<or> (\<exists>e. a = Err e)"
  "event_ok (ForgetRow i, a, landed) \<longleftrightarrow> (a = Ok \<and> landed) \<or> (\<exists>e. a = Err e)"
  "event_ok (Destroy p res, a, landed) \<longleftrightarrow> (a = Ok \<and> landed) \<or> (\<exists>e. a = Err e)"
  "event_ok (Create p res, a, landed) \<longleftrightarrow> (\<exists>m. a = Outputs m \<and> landed) \<or> (\<exists>e. a = Err e)"
  "event_ok (Update p os res, a, landed) \<longleftrightarrow> (\<exists>m. a = Outputs m \<and> landed) \<or> (\<exists>e. a = Err e)"
  "event_ok (LoadRows, a, landed) \<longleftrightarrow> (\<exists>m. a = Rows m \<and> landed) \<or> (\<exists>e. a = Err e)"
  "event_ok (LeaseLost, a, landed) \<longleftrightarrow> (\<exists>m. a = Lost m \<and> landed)"
  by (cases a; auto simp: event_ok_def)+

lemma safe_basic [vcg]:
  "safe R I Q (aret v c) h = Q (Returned v) c h"
  "safe R I Q (araise e c) h = Q (Raised e) c h"
  by (simp_all add: aret_def araise_def)

lemma safe_aget [vcg]: "safe R I Q (aget g c) h = Q (Returned (g c)) c h"
  by (simp add: aget_def)

lemma safe_aupd [vcg]: "safe R I Q (aupd g c) h = Q (Returned ()) (g c) h"
  by (simp add: aupd_def)

lemma safe_abind [vcg]: "safe R I Q (abind m f c) h =
    safe R I (\<lambda>x c h. case x of Returned v \<Rightarrow> safe R I Q (f v c) h | Raised e \<Rightarrow> Q (Raised e) c h) (m c) h"
  by (simp add: abind_def safe_bind)

lemma safe_aseq [vcg]: "safe R I Q (aseq m n c) h =
    safe R I (\<lambda>x c h. case x of Returned v \<Rightarrow> safe R I Q (n c) h | Raised e \<Rightarrow> Q (Raised e) c h) (m c) h"
  by (simp add: aseq_def safe_abind)

lemma safe_acatch [vcg]: "safe R I Q (acatch m w c) h =
    safe R I (\<lambda>x c h. case x of Returned v \<Rightarrow> Q (Returned v) c h | Raised e \<Rightarrow> safe R I Q (w e c) h) (m c) h"
  by (simp add: acatch_def safe_catch)

lemma safe_alift: "safe R I Q (alift r c) h = (case r of Inl e \<Rightarrow> Q (Raised (Fail e)) c h | Inr v \<Rightarrow> Q (Returned v) c h)"
  by (simp add: alift_def safe_basic split: sum.splits)

lemma safe_alift_steps [vcg]:
  "safe R I Q (alift (Inr v) c) h = Q (Returned v) c h"
  "safe R I Q (alift (rbind r f) c) h = (case r of Inl e \<Rightarrow> Q (Raised (Fail e)) c h | Inr v \<Rightarrow> safe R I Q (alift (f v) c) h)"
  by (simp_all add: safe_alift split: sum.splits)

lemma safe_aread [vcg]: "safe R I Q (aread f c) h = safe R I Q (alift (f c) c) h"
  by (simp add: aread_def)

lemma all_answers:
  "(\<forall>a landed c'. (\<exists>m. a = f m \<and> landed) \<or> (\<exists>e. a = Err e) \<longrightarrow> P a landed c') \<longleftrightarrow>
    (\<forall>c' m. P (f m) True c') \<and> (\<forall>e landed c'. P (Err e) landed c')"
  "(\<forall>a landed c'. (\<exists>m. a = f m \<and> landed) \<longrightarrow> P a landed c') \<longleftrightarrow> (\<forall>c' m. P (f m) True c')"
  "(\<forall>a landed c'. a = v \<and> landed \<or> (\<exists>e. a = Err e) \<longrightarrow> P a landed c') \<longleftrightarrow>
    (\<forall>c'. P v True c') \<and> (\<forall>e landed c'. P (Err e) landed c')"
  by (metis (full_types))+

lemma safe_await_ok [vcg]:
  "safe R I Q (await_ok (PutRow s) c) h \<longleftrightarrow> I h (PutRow s) \<and> (\<forall>c'. R c c' \<longrightarrow> Q (Returned ()) c' (h @ [(PutRow s, Ok, True)])) \<and>
      (\<forall>e landed c'. R c c' \<longrightarrow> Q (Raised e) c' (h @ [(PutRow s, Err e, landed)]))"
  "safe R I Q (await_ok (DropRow i) c) h \<longleftrightarrow> I h (DropRow i) \<and> (\<forall>c'. R c c' \<longrightarrow> Q (Returned ()) c' (h @ [(DropRow i, Ok, True)])) \<and>
      (\<forall>e landed c'. R c c' \<longrightarrow> Q (Raised e) c' (h @ [(DropRow i, Err e, landed)]))"
  "safe R I Q (await_ok (ForgetRow i) c) h \<longleftrightarrow> I h (ForgetRow i) \<and> (\<forall>c'. R c c' \<longrightarrow> Q (Returned ()) c' (h @ [(ForgetRow i, Ok, True)])) \<and>
      (\<forall>e landed c'. R c c' \<longrightarrow> Q (Raised e) c' (h @ [(ForgetRow i, Err e, landed)]))"
  "safe R I Q (await_ok (Destroy p res) c) h \<longleftrightarrow> I h (Destroy p res) \<and> (\<forall>c'. R c c' \<longrightarrow> Q (Returned ()) c' (h @ [(Destroy p res, Ok, True)])) \<and>
      (\<forall>e landed c'. R c c' \<longrightarrow> Q (Raised e) c' (h @ [(Destroy p res, Err e, landed)]))"
  unfolding await_ok_def safe.simps event_ok_unit all_answers by (simp_all add: aret_def araise_def)

lemma safe_await_outputs [vcg]:
  "safe R I Q (await_outputs (Create p res) c) h \<longleftrightarrow> I h (Create p res) \<and> (\<forall>c' m. R c c' \<longrightarrow> Q (Returned m) c' (h @ [(Create p res, Outputs m, True)])) \<and>
      (\<forall>e landed c'. R c c' \<longrightarrow> Q (Raised e) c' (h @ [(Create p res, Err e, landed)]))"
  "safe R I Q (await_outputs (Update p os res) c) h \<longleftrightarrow> I h (Update p os res) \<and> (\<forall>c' m. R c c' \<longrightarrow> Q (Returned m) c' (h @ [(Update p os res, Outputs m, True)])) \<and>
      (\<forall>e landed c'. R c c' \<longrightarrow> Q (Raised e) c' (h @ [(Update p os res, Err e, landed)]))"
  unfolding await_outputs_def safe.simps event_ok_unit all_answers by (simp_all add: aret_def araise_def)

lemma safe_await_rows [vcg]:
  "safe R I Q (await_rows c) h \<longleftrightarrow> I h LoadRows \<and> (\<forall>c' m. R c c' \<longrightarrow> Q (Returned m) c' (h @ [(LoadRows, Rows m, True)])) \<and>
      (\<forall>e landed c'. R c c' \<longrightarrow> Q (Raised e) c' (h @ [(LoadRows, Err e, landed)]))"
  unfolding await_rows_def safe.simps event_ok_unit all_answers by (simp add: aret_def araise_def)

lemma safe_await_lost [vcg]:
  "safe R I Q (await_lost c) h \<longleftrightarrow> I h LeaseLost \<and> (\<forall>c' m. R c c' \<longrightarrow> Q (Returned m) c' (h @ [(LeaseLost, Lost m, True)]))"
  unfolding await_lost_def safe.simps event_ok_unit all_answers by (simp add: aret_def araise_def)

end
