(* ===== verification/ExecContext.thy ===== *)
theory ExecContext
  imports ExecProg Applied Changes
begin

text \<open>
  What a run shares (\<open>reconcile/report.py\<close>, \<open>reconcile/env.py\<close> \<open>Desired\<close>,
  \<open>executor/context.py\<close>), its state rows (\<open>executor/records.py\<close>) and the compensation saga
  (\<open>executor/saga.py\<close>). What a run is given is a \<open>run_env\<close>, what it changes a \<open>run_ctx\<close>;
  progress and events, which never fail, are left out, and so is the text of an error: a report
  keeps the exception.
\<close>

subsection \<open>The report\<close>

datatype reason = Because exn | Unreadable exn | NotAttempted exn

record apply_report =
  rp_created :: "node_id list"
  rp_updated :: "node_id list"
  rp_replaced :: "node_id list"
  rp_deleted :: "node_id list"
  rp_noop :: "node_id list"
  rp_state_only :: "node_id list"
  rp_downgraded :: "(node_id \<times> string) list"
  rp_rolled_back :: "node_id list"
  rp_rollback_failed :: "(node_id \<times> reason) list"
  rp_poison_failed :: "(node_id \<times> reason) list"
  rp_orphaned :: "(node_id \<times> reason) list"
  rp_rollback_skipped :: "exn option"
  rp_outputs :: props
  rp_sensitive_outputs :: "string list"

definition empty_report :: apply_report where
  "empty_report = \<lparr>rp_created = [], rp_updated = [], rp_replaced = [], rp_deleted = [], rp_noop = [],
     rp_state_only = [], rp_downgraded = [], rp_rolled_back = [], rp_rollback_failed = [], rp_poison_failed = [],
     rp_orphaned = [], rp_rollback_skipped = None, rp_outputs = [], rp_sensitive_outputs = []\<rparr>"

subsection \<open>The run\<close>

record desired =
  ds_ir :: irgraph
  ds_graph :: digraph
  ds_hashes :: "(node_id \<times> string) list"
  ds_resources :: "(node_id \<times> resource) list"
  ds_outputs :: props

text \<open>A built undo: what it will call, with the provider by name.\<close>

datatype undo = UndoCreate string resource node_id | UndoUpdate string resource state_node props
  | UndoReplace string resource resource state_node | UndoDelete string resource state_node
  | UndoCbdCreate string resource state_node | RestoreRow state_node

record run_env =
  rn_desired :: desired
  rn_env :: apply_env
  rn_changes :: "(node_id \<times> change) list"
  rn_prior :: state_graph
  rn_prior_graph :: digraph
  rn_prior_outputs :: live_outputs
  rn_predeleted :: "node_id set"
  rn_rollback :: bool

record run_ctx =
  x_live :: live_outputs
  x_report :: apply_report
  x_compensations :: "(node_id \<times> undo) list"
  x_cbd_deferred :: "(node_id \<times> resource) list"
  x_delete_ids :: "node_id set"

definition delete_ids :: "change list \<Rightarrow> node_id set" where
  "delete_ids cs = cid ` set (filter (\<lambda>c. caction c = DELETE) cs)"

text \<open>\<open>wire\<close>; \<open>predeleted\<close> is left for the caller. A cyclic state is the error of \<open>build_graph\<close>.\<close>

definition wire ::
  "change list \<Rightarrow> desired \<Rightarrow> state_graph \<Rightarrow> apply_env \<Rightarrow> bool \<Rightarrow> (aerror, run_env \<times> run_ctx) result option" where
  "wire cs want prior env rollback = map_option (\<lambda>r.
     rbind r (\<lambda>g.
     rbind (live_outputs_of (ae_secrets env) prior) (\<lambda>outs.
       Inr (\<lparr>rn_desired = want, rn_env = env, rn_changes = dict_of cid (\<lambda>c. c) cs, rn_prior = prior, rn_prior_graph = g,
              rn_prior_outputs = outs, rn_predeleted = {}, rn_rollback = rollback\<rparr>,
            \<lparr>x_live = outs, x_report = empty_report, x_compensations = [], x_cbd_deferred = [],
              x_delete_ids = delete_ids cs\<rparr>)))) (state_digraph prior)"

definition on_report :: "(apply_report \<Rightarrow> apply_report) \<Rightarrow> (run_ctx, unit) act" where
  "on_report f = aupd (\<lambda>c. c\<lparr>x_report := f (x_report c)\<rparr>)"

definition set_live :: "node_id \<Rightarrow> props \<Rightarrow> (run_ctx, unit) act" where
  "set_live i outs = aupd (\<lambda>c. c\<lparr>x_live := AList.update i outs (x_live c)\<rparr>)"

text \<open>\<open>reraise_if_cancelled\<close>, then \<open>node_failure\<close>.\<close>

definition failed_node :: "node_id \<Rightarrow> string \<Rightarrow> exn \<Rightarrow> exn" where
  "failed_node i op e = (case e of
      Cancelled \<Rightarrow> Cancelled
    | Fail a \<Rightarrow> Fail (node_failure i op a)
    | _ \<Rightarrow> Fail (ProviderError (op @ '' failed'') (Some i) (Some op) None))"

subsection \<open>Rows\<close>

definition ir_node_of :: "run_env \<Rightarrow> node_id \<Rightarrow> (aerror, irnode) result" where
  "ir_node_of rn i = lookup (dict_of nid (\<lambda>n. n) (gnodes (ds_ir (rn_desired rn)))) i i"

definition hash_of :: "run_env \<Rightarrow> node_id \<Rightarrow> (aerror, string) result" where
  "hash_of rn i = lookup (ds_hashes (rn_desired rn)) i i"

definition node_row :: "run_env \<Rightarrow> live_outputs \<Rightarrow> node_id \<Rightarrow> resource \<Rightarrow> props \<Rightarrow> string \<Rightarrow> (aerror, state_node) result" where
  "node_row rn live i res outs status =
     rbind (ir_node_of rn i) (\<lambda>n.
     rbind (hash_of rn i) (\<lambda>h.
     rbind (seal_outputs (ae_secrets (rn_env rn)) (rclass res) outs) (\<lambda>sealed.
     rbind (secret_digests (rn_env rn) res i) (\<lambda>sd.
     rbind (ref_digests (rn_env rn) live (ntype n) (nproperties n)) (\<lambda>rd.
       Inr \<lparr>sid = i, stype = type_name (rclass res), sprovider = rc_provider (rclass res),
         sprovider_version = nprovider_version n, sinput_hash = h, soutputs = sealed, sproperties = nproperties n,
         sdependencies = ndependencies n, sprevent_destroy = lc_prevent_destroy (lifecycle_of res), sstatus = status,
         ssecret_digests = sd, sref_digests = rd, sdepends_on = ndepends_on n\<rparr>)))))"

definition collapsed_row :: "run_env \<Rightarrow> live_outputs \<Rightarrow> state_node \<Rightarrow> (aerror, state_node) result" where
  "collapsed_row rn live s =
     rbind (ir_node_of rn (sid s)) (\<lambda>n.
     rbind (hash_of rn (sid s)) (\<lambda>h.
     rbind (ref_digests (rn_env rn) live (ntype n) (nproperties n)) (\<lambda>rd.
       Inr (s\<lparr>sinput_hash := h, sproperties := nproperties n, sdependencies := ndependencies n,
              sdepends_on := ndepends_on n, sprevent_destroy := nprevent_destroy n, sref_digests := rd\<rparr>))))"

definition rewrite_row :: "state_node \<Rightarrow> (run_ctx, unit) act" where
  "rewrite_row s = await_ok (PutRow s)"

definition drop_row :: "node_id \<Rightarrow> (run_ctx, unit) act" where
  "drop_row i = await_ok (DropRow i)"

definition write_ahead :: "run_env \<Rightarrow> node_id \<Rightarrow> resource \<Rightarrow> (run_ctx, unit) act" where
  "write_ahead rn i res = abind (aread (\<lambda>c. node_row rn (x_live c) i res [] CREATING)) rewrite_row"

definition persist :: "run_env \<Rightarrow> node_id \<Rightarrow> resource \<Rightarrow> props \<Rightarrow> (run_ctx, unit) act" where
  "persist rn i res outs = abind (aread (\<lambda>c. node_row rn (x_live c) i res outs CREATED)) rewrite_row"

text \<open>
  \<open>mark_stale\<close> reads and writes in one job of the writer; here a cancellation may also fall
  between the two.
\<close>

definition poison :: "node_id \<Rightarrow> reason \<Rightarrow> (run_ctx, unit) act" where
  "poison i why = on_report (\<lambda>r. r\<lparr>rp_poison_failed := AList.update i why (rp_poison_failed r)\<rparr>)"

definition mark_stale :: "node_id \<Rightarrow> state_graph option \<Rightarrow> (run_ctx, unit) act" where
  "mark_stale i rows = acatch_exception
     (abind (case rows of None \<Rightarrow> await_rows | Some rs \<Rightarrow> aret rs) (\<lambda>rs. case map_of rs i of
         None \<Rightarrow> aret ()
       | Some s \<Rightarrow> rewrite_row (s\<lparr>sinput_hash := NO_INPUT_HASH\<rparr>)))
     (\<lambda>e. poison i (Because e))"

definition forget :: "node_id \<Rightarrow> (run_ctx, unit) act" where
  "forget i = acatch_exception (await_ok (ForgetRow i)) (\<lambda>e. aseq (mark_stale i None) (araise e))"

subsection \<open>Undoing\<close>

definition with_outputs :: "resource \<Rightarrow> props \<Rightarrow> resource" where
  "with_outputs res outs = res\<lparr>rvalues := fold (\<lambda>(k, v). AList.update k v)
     (filter (\<lambda>(k, v). k \<in> fst ` set (rc_fields (rclass res))) outs) (rvalues res)\<rparr>"

text \<open>\<open>restorer\<close>: the row of a compensating re-create.\<close>

definition restored_row :: "run_env \<Rightarrow> state_node \<Rightarrow> resource \<Rightarrow> props \<Rightarrow> (aerror, state_node) result" where
  "restored_row rn row old outs =
     rbind (seal_outputs (ae_secrets (rn_env rn)) (rclass old) outs) (\<lambda>sealed. Inr (row\<lparr>soutputs := sealed\<rparr>))"

definition recreate :: "run_env \<Rightarrow> string \<Rightarrow> resource \<Rightarrow> state_node \<Rightarrow> (run_ctx, unit) act" where
  "recreate rn p old row = abind (await_outputs (Create p old)) (\<lambda>outs.
     abind (alift (restored_row rn row old outs)) rewrite_row)"

definition run_undo :: "run_env \<Rightarrow> undo \<Rightarrow> (run_ctx, unit) act" where
  "run_undo rn u = (case u of
      UndoCreate p res i \<Rightarrow> aseq (await_ok (Destroy p res)) (drop_row i)
    | UndoUpdate p old row outs \<Rightarrow> abind (await_outputs (Update p outs old)) (\<lambda>_. rewrite_row row)
    | UndoReplace p new old row \<Rightarrow> aseq (await_ok (Destroy p new)) (recreate rn p old row)
    | UndoDelete p old row \<Rightarrow> recreate rn p old row
    | UndoCbdCreate p new row \<Rightarrow>
        aseq (await_ok (Destroy p new)) (aseq (rewrite_row row) (drop_row (cbd_companion_id (sid row))))
    | RestoreRow row \<Rightarrow> rewrite_row row)"

definition record_undo :: "run_env \<Rightarrow> node_id \<Rightarrow> undo \<Rightarrow> (run_ctx, unit) act" where
  "record_undo rn i u = aupd (\<lambda>c. if rn_rollback rn then c\<lparr>x_compensations := x_compensations c @ [(i, u)]\<rparr> else c)"

definition rollback_failed :: "node_id \<Rightarrow> reason \<Rightarrow> (run_ctx, unit) act" where
  "rollback_failed i why = on_report (\<lambda>r. r\<lparr>rp_rollback_failed := AList.update i why (rp_rollback_failed r)\<rparr>)"

text \<open>\<open>_rows\<close>: the state read once, or why it could not be.\<close>

definition rollback_rows :: "(node_id \<times> undo) list \<Rightarrow> (run_ctx, exn + state_graph) act" where
  "rollback_rows comps = (if comps = [] then aret (Inr [])
     else acatch_exception (abind await_rows (\<lambda>rs. aret (Inr rs))) (\<lambda>e. aret (Inl e)))"

definition undo_one :: "run_env \<Rightarrow> exn + state_graph \<Rightarrow> node_id \<times> undo \<Rightarrow> (run_ctx, unit) act" where
  "undo_one rn rows entry = (case entry of (i, u) \<Rightarrow> abind await_lost (\<lambda>lost. case lost of
      Some e \<Rightarrow> rollback_failed i (NotAttempted e)
    | None \<Rightarrow>
        aseq (on_report (\<lambda>r. r\<lparr>rp_rolled_back := rp_rolled_back r @ [i]\<rparr>))
        (aseq (case rows of Inl e \<Rightarrow> poison i (Unreadable e) | Inr rs \<Rightarrow> mark_stale i (Some rs))
              (acatch_exception (run_undo rn u) (\<lambda>e. rollback_failed i (Because e))))))"

fun undo_all :: "run_env \<Rightarrow> exn + state_graph \<Rightarrow> (node_id \<times> undo) list \<Rightarrow> (run_ctx, unit) act" where
  "undo_all rn rows [] = aret ()"
| "undo_all rn rows (x # xs) = aseq (undo_one rn rows x) (undo_all rn rows xs)"

definition rollback :: "run_env \<Rightarrow> (run_ctx, unit) act" where
  "rollback rn = abind (aget x_compensations) (\<lambda>comps.
     abind (rollback_rows comps) (\<lambda>rows. undo_all rn rows (rev comps)))"

definition rollback_errors :: "apply_report \<Rightarrow> exn list" where
  "rollback_errors r = map (\<lambda>(i, why). Fail (RollbackError i [])) (rp_rollback_failed r)"

end
