(* ===== verification/ExecSaga.thy ===== *)
theory ExecSaga
  imports ExecContext Diff
begin

text \<open>
  What a rollback achieves (\<open>executor/saga.py\<close>, over the definitions of \<open>ExecContext\<close>): the
  rows of the store are followed event by event.
\<close>

subsection \<open>The store under a trace\<close>

type_synonym row_map = "node_id \<Rightarrow> state_node option"

fun row_effect :: "event \<Rightarrow> row_map \<Rightarrow> row_map" where
  "row_effect (PutRow s, a, landed) m = (if landed then m(sid s \<mapsto> s) else m)"
| "row_effect (DropRow i, a, landed) m = (if landed then m(i := None) else m)"
| "row_effect (ForgetRow i, a, landed) m = (if landed then m(i := None) else m)"
| "row_effect ev m = m"

definition rows_after :: "event list \<Rightarrow> row_map \<Rightarrow> row_map" where
  "rows_after h m = fold row_effect h m"

lemma rows_after_simps [simp]:
  "rows_after [] m = m" "rows_after (ev # h) m = rows_after h (row_effect ev m)"
  "rows_after (h @ g) m = rows_after g (rows_after h m)"
  by (simp_all add: rows_after_def)

text \<open>A shielded rollback is not cancelled, and a read of the state is of the state.\<close>

fun fair :: "row_map \<Rightarrow> event \<Rightarrow> bool" where
  "fair m (q, Err e, landed) = (e \<noteq> Cancelled)"
| "fair m (q, Rows rs, landed) = (map_of rs = m)"
| "fair m ev = True"

definition shielded :: "row_map \<Rightarrow> event list \<Rightarrow> bool" where
  "shielded m h \<longleftrightarrow> list_all (fair m) h"

lemma shielded_simps [simp]:
  "shielded m (h @ g) \<longleftrightarrow> shielded m h \<and> shielded m g" "shielded m []" "shielded m (ev # h) \<longleftrightarrow> fair m ev \<and> shielded m h"
  by (simp_all add: shielded_def)

subsection \<open>One undo\<close>

fun undo_about :: "node_id \<Rightarrow> undo \<Rightarrow> bool" where
  "undo_about i (UndoCreate p res j) = (j = i)"
| "undo_about i (UndoUpdate p old row outs) = (sid row = i)"
| "undo_about i (UndoReplace p new old row) = (sid row = i)"
| "undo_about i (UndoDelete p old row) = (sid row = i)"
| "undo_about i (UndoCbdCreate p new row) = (sid row = i)"
| "undo_about i (RestoreRow row) = (sid row = i)"

text \<open>The row an undo leaves.\<close>

fun restored :: "undo \<Rightarrow> state_node option \<Rightarrow> bool" where
  "restored (UndoCreate p res j) s = (s = None)"
| "restored (UndoUpdate p old row outs) s = (s = Some row)"
| "restored (UndoReplace p new old row) s = (\<exists>outs. s = Some (row\<lparr>soutputs := outs\<rparr>))"
| "restored (UndoDelete p old row) s = (\<exists>outs. s = Some (row\<lparr>soutputs := outs\<rparr>))"
| "restored (UndoCbdCreate p new row) s = (s = Some row)"
| "restored (RestoreRow row) s = (s = Some row)"

lemma restored_recreated:
  "restored (UndoReplace p new old row) s \<longleftrightarrow> restored (UndoDelete p old row) s"
  "restored (UndoDelete p old row) (Some (row\<lparr>soutputs := outs\<rparr>))"
  by auto

declare restored.simps(3,4) [simp del]

definition is_cbd :: "undo \<Rightarrow> bool" where
  "is_cbd u = (case u of UndoCbdCreate p new row \<Rightarrow> True | _ \<Rightarrow> False)"

definition stale_row :: "state_node option \<Rightarrow> bool" where
  "stale_row s = (case s of None \<Rightarrow> True | Some r \<Rightarrow> sinput_hash r = NO_INPUT_HASH)"

text \<open>
  How the undo of a node ended: it is done, or it was not attempted and the row is as it was, or
  it failed and the row is absent, stale, already the restored one, or reported as neither.
\<close>

definition accounted :: "apply_report \<Rightarrow> row_map \<Rightarrow> row_map \<Rightarrow> node_id \<Rightarrow> undo \<Rightarrow> bool" where
  "accounted r before m i u = (case map_of (rp_rollback_failed r) i of
      None \<Rightarrow> restored u (m i) \<and> (is_cbd u \<longrightarrow> m (cbd_companion_id i) = None)
    | Some (NotAttempted e) \<Rightarrow> m i = before i \<and> m (cbd_companion_id i) = before (cbd_companion_id i)
    | Some _ \<Rightarrow> stale_row (m i) \<or> restored u (m i) \<or> map_of (rp_poison_failed r) i \<noteq> None)"

definition attempted :: "apply_report \<Rightarrow> node_id \<Rightarrow> bool" where
  "attempted r i = (case map_of (rp_rollback_failed r) i of Some (NotAttempted e) \<Rightarrow> False | _ \<Rightarrow> True)"

text \<open>What the undo of \<open>i\<close> leaves alone in the report.\<close>

definition same_report :: "node_id \<Rightarrow> apply_report \<Rightarrow> apply_report \<Rightarrow> bool" where
  "same_report i r r' \<longleftrightarrow> (\<forall>j. j \<noteq> i \<longrightarrow> map_of (rp_rollback_failed r') j = map_of (rp_rollback_failed r) j \<and>
     map_of (rp_poison_failed r') j = map_of (rp_poison_failed r) j)"

lemma companion_neq [simp]: "cbd_companion_id i \<noteq> i" "i \<noteq> cbd_companion_id i"
  by (simp_all add: cbd_companion_id_def COMPANION_SUFFIX_def)

definition same_rows :: "node_id \<Rightarrow> row_map \<Rightarrow> row_map \<Rightarrow> bool" where
  "same_rows i m m' \<longleftrightarrow> (\<forall>j. j \<noteq> i \<longrightarrow> j \<noteq> cbd_companion_id i \<longrightarrow> m' j = m j)"

lemma same_rows_refl [simp]: "same_rows i m m"
  by (simp add: same_rows_def)

lemma same_rows_upd [simp]: "same_rows i m m' \<Longrightarrow> same_rows i m (m'(i := s))"
  "same_rows i m m' \<Longrightarrow> same_rows i m (m'(cbd_companion_id i := s))"
  by (simp_all add: same_rows_def)

lemma recreate_spec:
  assumes "sid row = i"
  shows "safe (=) (\<lambda>_ _. True) (\<lambda>x c' h'. c' = c \<and> same_rows i (rows_after h m) (rows_after h' m) \<and> (case x of
        Returned v \<Rightarrow> restored (UndoDelete p old row) (rows_after h' m i)
      | Raised e \<Rightarrow> (shielded m0 h' \<longrightarrow> e \<noteq> Cancelled) \<and>
          (rows_after h' m i = rows_after h m i \<or> restored (UndoDelete p old row) (rows_after h' m i))))
    (recreate rn p old row c) h"
  using assms unfolding recreate_def rewrite_row_def
  by (simp add: vcg restored_row_def restored_recreated split: sum.splits)

lemma run_undo_spec:
  assumes "undo_about i u"
  shows "safe (=) (\<lambda>_ _. True) (\<lambda>x c' h'. c' = c \<and> same_rows i (rows_after h m) (rows_after h' m) \<and> (case x of
        Returned v \<Rightarrow> restored u (rows_after h' m i) \<and> (is_cbd u \<longrightarrow> rows_after h' m (cbd_companion_id i) = None)
      | Raised e \<Rightarrow> (shielded m0 h' \<longrightarrow> e \<noteq> Cancelled) \<and>
          (rows_after h' m i = rows_after h m i \<or> restored u (rows_after h' m i))))
    (run_undo rn u c) h"
proof (cases u)
  case (UndoReplace p new old row)
  then have row: "sid row = i" using assms by simp
  show ?thesis
    unfolding UndoReplace run_undo_def
    by (simp add: vcg is_cbd_def restored_recreated)
      (rule safe_mono [OF recreate_spec [OF row]], simp add: is_cbd_def restored_recreated split: outcome.splits)
next
  case (UndoDelete p old row)
  then have row: "sid row = i" using assms by simp
  show ?thesis
    unfolding UndoDelete run_undo_def
    by simp (rule safe_mono [OF recreate_spec [OF row]], simp add: is_cbd_def split: outcome.splits)
qed (use assms in \<open>auto simp: run_undo_def rewrite_row_def drop_row_def vcg is_cbd_def\<close>)

definition poisoned :: "node_id \<Rightarrow> run_ctx \<Rightarrow> run_ctx \<Rightarrow> bool" where
  "poisoned i c c' \<longleftrightarrow> (\<exists>why. c' = c\<lparr>x_report := (x_report c)\<lparr>rp_poison_failed := AList.update i why (rp_poison_failed (x_report c))\<rparr>\<rparr>)"

lemma safe_unshielded: "\<not> shielded m h \<Longrightarrow> safe R (\<lambda>_ _. True) (\<lambda>x c h'. shielded m h' \<longrightarrow> Q x c h') p h"
  by (rule safe_mono [OF safe_True]) simp

lemma mark_stale_spec:
  assumes "map_of rs i = rows_after h m i" and "\<And>s. rows_after h m i = Some s \<Longrightarrow> sid s = i"
  shows "safe (=) (\<lambda>_ _. True) (\<lambda>x c' h'. shielded m0 h' \<longrightarrow> x = Returned () \<and>
      (c' = c \<and> stale_row (rows_after h' m i) \<or> poisoned i c c') \<and>
      (\<forall>j. j \<noteq> i \<longrightarrow> rows_after h' m j = rows_after h m j)) (mark_stale i (Some rs) c) h"
proof (cases "rows_after h m i")
  case None
  then show ?thesis using assms by (simp add: mark_stale_def acatch_exception_def vcg stale_row_def)
next
  case (Some s)
  then have "sid s = i" using assms by simp
  then show ?thesis using assms Some
    by (auto simp: mark_stale_def acatch_exception_def rewrite_row_def poison_def on_report_def vcg stale_row_def poisoned_def)
qed

lemma undo_one_spec:
  assumes about: "undo_about i u" and snap: "\<And>rs. rows = Inr rs \<Longrightarrow> map_of rs i = rows_after h m i"
    and key: "\<And>s. rows_after h m i = Some s \<Longrightarrow> sid s = i"
    and fresh: "map_of (rp_rollback_failed (x_report c)) i = None"
  shows "safe (=) (\<lambda>_ _. True) (\<lambda>x c' h'. shielded m0 h' \<longrightarrow> x = Returned () \<and>
      accounted (x_report c') (rows_after h m) (rows_after h' m) i u \<and>
      same_report i (x_report c) (x_report c') \<and> same_rows i (rows_after h m) (rows_after h' m) \<and>
      rp_rolled_back (x_report c') = rp_rolled_back (x_report c) @ (if attempted (x_report c') i then [i] else []))
    (undo_one rn rows (i, u) c) h"
proof -
  let ?Q = "\<lambda>x c' h'. shielded m0 h' \<longrightarrow> x = Returned () \<and>
      accounted (x_report c') (rows_after h m) (rows_after h' m) i u \<and>
      same_report i (x_report c) (x_report c') \<and> same_rows i (rows_after h m) (rows_after h' m) \<and>
      rp_rolled_back (x_report c') = rp_rolled_back (x_report c) @ (if attempted (x_report c') i then [i] else [])"
  have undo: "safe (=) (\<lambda>_ _. True) ?Q (acatch_exception (run_undo rn u) (\<lambda>e. rollback_failed i (Because e)) c1) h1"
    if c1: "rp_rolled_back (x_report c1) = rp_rolled_back (x_report c) @ [i]" "rp_rollback_failed (x_report c1) = rp_rollback_failed (x_report c)"
      "same_report i (x_report c) (x_report c1)"
      and h1: "\<forall>j. j \<noteq> i \<longrightarrow> rows_after h1 m j = rows_after h m j"
      and st: "stale_row (rows_after h1 m i) \<or> map_of (rp_poison_failed (x_report c1)) i \<noteq> None" for c1 h1
    unfolding acatch_exception_def safe_acatch
    by (rule safe_mono [OF run_undo_spec [OF about, of c1 h1 m m0 rn]])
      (use c1 h1 st fresh in \<open>auto simp: vcg rollback_failed_def on_report_def accounted_def attempted_def same_report_def
        same_rows_def update_conv' split: outcome.splits\<close>)
  have undo': "safe (=) (\<lambda>_ _. True) ?Q (acatch_exception (run_undo rn u) (\<lambda>e. rollback_failed i (Because e)) c1) h1"
    if "shielded m0 h1 \<Longrightarrow> rp_rolled_back (x_report c1) = rp_rolled_back (x_report c) @ [i] \<and>
        rp_rollback_failed (x_report c1) = rp_rollback_failed (x_report c) \<and> same_report i (x_report c) (x_report c1) \<and>
        (\<forall>j. j \<noteq> i \<longrightarrow> rows_after h1 m j = rows_after h m j) \<and>
        (stale_row (rows_after h1 m i) \<or> map_of (rp_poison_failed (x_report c1)) i \<noteq> None)" for c1 h1
    using undo [of c1 h1] that safe_unshielded by (cases "shielded m0 h1") blast+
  let ?c1 = "c\<lparr>x_report := (x_report c)\<lparr>rp_rolled_back := rp_rolled_back (x_report c) @ [i]\<rparr>\<rparr>"
  let ?h1 = "h @ [(LeaseLost, Lost None, True)]"
  have mark: "safe (=) (\<lambda>_ _. True) (\<lambda>x c' h'. case x of
        Returned v \<Rightarrow> safe (=) (\<lambda>_ _. True) ?Q (acatch_exception (run_undo rn u) (\<lambda>e. rollback_failed i (Because e)) c') h'
      | Raised e \<Rightarrow> ?Q (Raised e) c' h')
      ((case rows of Inl e \<Rightarrow> poison i (Unreadable e) | Inr rs \<Rightarrow> mark_stale i (Some rs)) ?c1) ?h1"
  proof (cases rows)
    case (Inl e)
    then show ?thesis by (simp add: poison_def on_report_def vcg) (rule undo', simp add: same_report_def update_conv')
  next
    case (Inr rs)
    have at: "map_of rs i = rows_after ?h1 m i" "\<And>s. rows_after ?h1 m i = Some s \<Longrightarrow> sid s = i" using snap [OF Inr] key by simp_all
    show ?thesis unfolding Inr sum.case
    proof (rule safe_mono [OF mark_stale_spec [OF at, of m0 ?c1]])
      fix x c' h'
      assume m: "shielded m0 (?h1 @ h') \<longrightarrow> x = Returned () \<and>
        (c' = ?c1 \<and> stale_row (rows_after (?h1 @ h') m i) \<or> poisoned i ?c1 c') \<and>
        (\<forall>j. j \<noteq> i \<longrightarrow> rows_after (?h1 @ h') m j = rows_after ?h1 m j)"
      show "case x of Returned v \<Rightarrow> safe (=) (\<lambda>_ _. True) ?Q (acatch_exception (run_undo rn u) (\<lambda>e. rollback_failed i (Because e)) c') (?h1 @ h')
          | Raised e \<Rightarrow> ?Q (Raised e) c' (?h1 @ h')"
      proof (cases x)
        case (Returned v)
        show ?thesis unfolding Returned outcome.case
          by (rule undo') (use m in \<open>auto simp: poisoned_def same_report_def update_conv'\<close>)
      next
        case (Raised e)
        then show ?thesis using m by simp
      qed
    qed
  qed
  have "?Q (Returned ()) (c\<lparr>x_report := (x_report c)\<lparr>rp_rollback_failed := AList.update i (NotAttempted e) (rp_rollback_failed (x_report c))\<rparr>\<rparr>)
      (h @ [(LeaseLost, Lost (Some e), True)])" for e
    by (simp add: accounted_def attempted_def same_report_def update_conv')
  with mark show ?thesis
    unfolding undo_one_def on_report_def rollback_failed_def by (simp add: vcg split: option.splits)
qed

subsection \<open>The whole rollback\<close>

definition separate :: "node_id list \<Rightarrow> bool" where
  "separate is \<longleftrightarrow> distinct is \<and> (\<forall>i \<in> set is. cbd_companion_id i \<notin> set is)"

lemma companion_inj [simp]: "cbd_companion_id i = cbd_companion_id j \<longleftrightarrow> i = j"
  by (simp add: cbd_companion_id_def)

lemma accounted_cong:
  "map_of (rp_rollback_failed r') i = map_of (rp_rollback_failed r) i \<Longrightarrow>
    map_of (rp_poison_failed r') i = map_of (rp_poison_failed r) i \<Longrightarrow> m' i = m i \<Longrightarrow>
    m' (cbd_companion_id i) = m (cbd_companion_id i) \<Longrightarrow> b' i = b i \<Longrightarrow> b' (cbd_companion_id i) = b (cbd_companion_id i) \<Longrightarrow>
    accounted r' b' m' i u = accounted r b m i u"
  by (simp add: accounted_def split: option.splits reason.splits)

definition undone_all :: "apply_report \<Rightarrow> apply_report \<Rightarrow> row_map \<Rightarrow> row_map \<Rightarrow> (node_id \<times> undo) list \<Rightarrow> bool" where
  "undone_all r r' before m todo \<longleftrightarrow>
     (\<forall>(i, u) \<in> set todo. accounted r' before m i u) \<and>
     (\<forall>j. j \<notin> fst ` set todo \<longrightarrow> map_of (rp_rollback_failed r') j = map_of (rp_rollback_failed r) j \<and>
        map_of (rp_poison_failed r') j = map_of (rp_poison_failed r) j) \<and>
     (\<forall>j. j \<notin> fst ` set todo \<union> cbd_companion_id ` fst ` set todo \<longrightarrow> m j = before j) \<and>
     rp_rolled_back r' = rp_rolled_back r @ filter (attempted r') (map fst todo)"

lemma undo_all_spec:
  assumes "\<forall>(i, u) \<in> set todo. undo_about i u" and "separate (map fst todo)"
    and "\<And>rs i. rows = Inr rs \<Longrightarrow> i \<in> fst ` set todo \<Longrightarrow> map_of rs i = rows_after h m i"
    and "\<And>i s. i \<in> fst ` set todo \<Longrightarrow> rows_after h m i = Some s \<Longrightarrow> sid s = i"
    and "\<forall>i \<in> fst ` set todo. map_of (rp_rollback_failed (x_report c)) i = None"
  shows "safe (=) (\<lambda>_ _. True) (\<lambda>x c' h'. shielded m0 h' \<longrightarrow> x = Returned () \<and>
      undone_all (x_report c) (x_report c') (rows_after h m) (rows_after h' m) todo) (undo_all rn rows todo c) h"
  using assms
proof (induction todo arbitrary: c h)
  case Nil
  then show ?case by (simp add: vcg undone_all_def)
next
  case (Cons x todo)
  obtain i u where x: "x = (i, u)" by fastforce
  let ?Q = "\<lambda>x c' h'. shielded m0 h' \<longrightarrow> x = Returned () \<and>
      undone_all (x_report c) (x_report c') (rows_after h m) (rows_after h' m) ((i, u) # todo)"
  have one: "safe (=) (\<lambda>_ _. True) (\<lambda>x c' h'. shielded m0 h' \<longrightarrow> x = Returned () \<and>
      accounted (x_report c') (rows_after h m) (rows_after h' m) i u \<and>
      same_report i (x_report c) (x_report c') \<and> same_rows i (rows_after h m) (rows_after h' m) \<and>
      rp_rolled_back (x_report c') = rp_rolled_back (x_report c) @ (if attempted (x_report c') i then [i] else []))
    (undo_one rn rows (i, u) c) h"
    using Cons.prems x by (intro undo_one_spec) auto
  have rest: "safe (=) (\<lambda>_ _. True) ?Q (undo_all rn rows todo c1) h1"
    if acc: "accounted (x_report c1) (rows_after h m) (rows_after h1 m) i u"
      and rep: "same_report i (x_report c) (x_report c1)" and rows: "same_rows i (rows_after h m) (rows_after h1 m)"
      and order: "rp_rolled_back (x_report c1) = rp_rolled_back (x_report c) @ (if attempted (x_report c1) i then [i] else [])"
    for c1 h1
  proof -
    have sep: "separate (map fst todo)" "i \<notin> fst ` set todo" "i \<notin> cbd_companion_id ` fst ` set todo"
      "cbd_companion_id i \<notin> fst ` set todo"
      using Cons.prems(2) x by (auto simp: separate_def)
    have same: "rows_after h1 m j = rows_after h m j" if "j \<in> fst ` set todo" for j
      using rows that sep(2,4) unfolding same_rows_def by metis
    have kept: "map_of (rp_rollback_failed (x_report c1)) j = map_of (rp_rollback_failed (x_report c)) j"
      "map_of (rp_poison_failed (x_report c1)) j = map_of (rp_poison_failed (x_report c)) j" if "j \<noteq> i" for j
      using rep that by (simp_all add: same_report_def)
    have IH: "safe (=) (\<lambda>_ _. True) (\<lambda>x c' h'. shielded m0 h' \<longrightarrow> x = Returned () \<and>
        undone_all (x_report c1) (x_report c') (rows_after h1 m) (rows_after h' m) todo) (undo_all rn rows todo c1) h1"
      using Cons.prems x sep same kept by (intro Cons.IH) (auto, (metis image_eqI fst_conv)+)
    show ?thesis
    proof (rule safe_mono [OF IH], intro impI conjI)
      fix x' c' h'
      assume e: "shielded m0 (h1 @ h') \<longrightarrow> x' = Returned () \<and>
          undone_all (x_report c1) (x_report c') (rows_after h1 m) (rows_after (h1 @ h') m) todo" and sh: "shielded m0 (h1 @ h')"
      then show "x' = Returned ()" by blast
      have u: "undone_all (x_report c1) (x_report c') (rows_after h1 m) (rows_after (h1 @ h') m) todo" using e sh by blast
      then have at: "map_of (rp_rollback_failed (x_report c')) i = map_of (rp_rollback_failed (x_report c1)) i"
        "map_of (rp_poison_failed (x_report c')) i = map_of (rp_poison_failed (x_report c1)) i"
        "rows_after (h1 @ h') m i = rows_after h1 m i"
        "rows_after (h1 @ h') m (cbd_companion_id i) = rows_after h1 m (cbd_companion_id i)"
        using sep by (auto simp: undone_all_def image_iff)
      have here: "accounted (x_report c') (rows_after h m) (rows_after (h1 @ h') m) i u"
        using acc accounted_cong [OF at, of "rows_after h m" "rows_after h m" u] by simp
      have there: "accounted (x_report c') (rows_after h m) (rows_after (h1 @ h') m) j v" if jv: "(j, v) \<in> set todo" for j v
      proof -
        have j: "j \<in> fst ` set todo" using jv by force
        then have "cbd_companion_id j \<noteq> i" "cbd_companion_id j \<noteq> cbd_companion_id i" using sep by auto
        then have "rows_after h1 m (cbd_companion_id j) = rows_after h m (cbd_companion_id j)"
          using rows unfolding same_rows_def by blast
        moreover have "accounted (x_report c') (rows_after h1 m) (rows_after (h1 @ h') m) j v"
          using u jv by (auto simp: undone_all_def)
        ultimately show ?thesis
          using accounted_cong [of "x_report c'" j "x_report c'" "rows_after (h1 @ h') m" "rows_after (h1 @ h') m"
              "rows_after h1 m" "rows_after h m" v] same [OF j] by simp
      qed
      have "\<forall>(j, v) \<in> set todo. accounted (x_report c') (rows_after h m) (rows_after (h1 @ h') m) j v"
        using there by blast
      moreover have "attempted (x_report c') i = attempted (x_report c1) i" using at(1) by (simp add: attempted_def)
      moreover have "j \<noteq> i \<and> j \<notin> fst ` set todo \<longrightarrow>
          map_of (rp_rollback_failed (x_report c')) j = map_of (rp_rollback_failed (x_report c)) j \<and>
          map_of (rp_poison_failed (x_report c')) j = map_of (rp_poison_failed (x_report c)) j" for j
        using u kept [of j] by (simp add: undone_all_def)
      moreover have "rows_after (h1 @ h') m j = rows_after h m j"
        if "j \<noteq> i" "j \<noteq> cbd_companion_id i" "j \<notin> fst ` set todo \<union> cbd_companion_id ` fst ` set todo" for j
      proof -
        have "rows_after (h1 @ h') m j = rows_after h1 m j" using u that(3) unfolding undone_all_def by blast
        also have "\<dots> = rows_after h m j" using rows that(1,2) unfolding same_rows_def by blast
        finally show ?thesis .
      qed
      moreover have "rp_rolled_back (x_report c') = rp_rolled_back (x_report c1) @ filter (attempted (x_report c')) (map fst todo)"
        using u unfolding undone_all_def by blast
      ultimately show "undone_all (x_report c) (x_report c') (rows_after h m) (rows_after (h1 @ h') m) ((i, u) # todo)"
        unfolding undone_all_def using here order by simp
    qed
  qed
  have "safe (=) (\<lambda>_ _. True) (\<lambda>x c' h'. case x of Returned v \<Rightarrow> safe (=) (\<lambda>_ _. True) ?Q (undo_all rn rows todo c') h'
      | Raised e \<Rightarrow> ?Q (Raised e) c' h') (undo_one rn rows (i, u) c) h"
  proof (rule safe_mono [OF one])
    fix x' h' and c' :: run_ctx
    assume o: "shielded m0 (h @ h') \<longrightarrow> x' = Returned () \<and> accounted (x_report c') (rows_after h m) (rows_after (h @ h') m) i u \<and>
      same_report i (x_report c) (x_report c') \<and> same_rows i (rows_after h m) (rows_after (h @ h') m) \<and>
      rp_rolled_back (x_report c') = rp_rolled_back (x_report c) @ (if attempted (x_report c') i then [i] else [])"
    show "case x' of Returned v \<Rightarrow> safe (=) (\<lambda>_ _. True) ?Q (undo_all rn rows todo c') (h @ h')
      | Raised e \<Rightarrow> ?Q (Raised e) c' (h @ h')"
    proof (cases x')
      case (Returned v)
      have "safe (=) (\<lambda>_ _. True) ?Q (undo_all rn rows todo c') (h @ h')"
      proof (cases "shielded m0 (h @ h')")
        case True
        then show ?thesis using o by (intro rest) simp_all
      qed (rule safe_unshielded)
      then show ?thesis using Returned by simp
    next
      case (Raised e)
      then show ?thesis using o by auto
    qed
  qed
  then show ?case by (simp add: x vcg)
qed

lemma rollback_spec:
  assumes "\<forall>(i, u) \<in> set (x_compensations c). undo_about i u" and "separate (map fst (x_compensations c))"
    and key: "\<forall>i s. m i = Some s \<longrightarrow> sid s = i" and "rp_rollback_failed (x_report c) = []"
  shows "safe (=) (\<lambda>_ _. True) (\<lambda>x c' h'. shielded m h' \<longrightarrow> x = Returned () \<and>
      undone_all (x_report c) (x_report c') m (rows_after h' m) (rev (x_compensations c))) (rollback rn c) []"
proof -
  let ?todo = "rev (x_compensations c)"
  let ?Q = "\<lambda>x c' h'. shielded m h' \<longrightarrow> x = Returned () \<and>
      undone_all (x_report c) (x_report c') m (rows_after h' m) ?todo"
  have sep: "separate (map fst ?todo)" using assms(2) by (simp add: separate_def rev_map [symmetric])
  have all: "safe (=) (\<lambda>_ _. True) ?Q (undo_all rn rows ?todo c) h"
    if "shielded m h \<Longrightarrow> rows_after h m = m \<and> (\<forall>rs. rows = Inr rs \<longrightarrow> rs = [] \<and> ?todo = [] \<or> map_of rs = m)" for rows h
  proof (cases "shielded m h")
    case True
    then have "rows_after h m = m" "\<And>rs i. rows = Inr rs \<Longrightarrow> i \<in> fst ` set ?todo \<Longrightarrow> map_of rs i = m i" using that by auto
    then show ?thesis using undo_all_spec [of ?todo rows h m c m rn] assms sep by simp
  qed (rule safe_unshielded)
  show ?thesis
  proof (cases "x_compensations c = []")
    case True
    then show ?thesis by (simp add: rollback_def rollback_rows_def vcg undone_all_def)
  next
    case False
    then show ?thesis unfolding rollback_def rollback_rows_def acatch_exception_def
      by (auto simp: vcg intro!: all)
  qed
qed

text \<open>
  C3: a rollback accounts for every undo. Once it is not cancelled (it runs shielded), reads the
  state truly and the undone nodes are distinct (none the companion of another), it returns; it
  attempts the recorded undos in reverse, skipping those it finds the lease lost for; and it
  leaves each node in one of three ways: its undo is done and its row is the one the undo
  restores; or it was not attempted and the row is untouched; or it failed, is reported, and the
  row is absent, marked stale for the next plan, already the restored one, or reported as not
  markable. Every other row is untouched.
\<close>

theorem rollback_accounts:
  assumes "traces (=) (rollback rn c) t (Some (c', x))" and "shielded m t"
    and "\<forall>(i, u) \<in> set (x_compensations c). undo_about i u" and "separate (map fst (x_compensations c))"
    and "\<forall>i s. m i = Some s \<longrightarrow> sid s = i" and "rp_rollback_failed (x_report c) = []"
  shows "x = Returned () \<and> undone_all (x_report c) (x_report c') m (rows_after t m) (rev (x_compensations c))"
  using safe_traces [OF assms(1) rollback_spec [OF assms(3-6), of rn]] assms(2) by simp

lemmas run_defs = rollback_def rollback_rows_def undo_one_def run_undo_def recreate_def rewrite_row_def drop_row_def mark_stale_def
  poison_def rollback_failed_def on_report_def acatch_exception_def abind_def aseq_def acatch_def aret_def araise_def aget_def
  aupd_def alift_def await_rows_def await_lost_def await_ok_def await_outputs_def

definition toy_env :: run_env where
  "toy_env = \<lparr>rn_desired = \<lparr>ds_ir = \<lparr>gnodes = [], gversion = IR_VERSION\<rparr>, ds_graph = \<lparr>node_ids = [], deps = [], dependents = []\<rparr>,
       ds_hashes = [], ds_resources = [], ds_outputs = []\<rparr>,
     rn_env = \<lparr>ae_types = [], ae_providers = [], ae_secrets = \<lparr>api_resolve = (\<lambda>n p. Inr n), api_digest = (\<lambda>s p. Inr p),
         api_seal = (\<lambda>s. Inr (PStr s)), api_unseal = Inr\<rparr>,
       ae_stack_outputs = [], ae_py = plain_env, ae_format = str_only, ae_validate = (\<lambda>c d. Inr d), ae_sha = (\<lambda>s. s), ae_jsonable = Inr\<rparr>,
     rn_changes = [], rn_prior = [], rn_prior_graph = \<lparr>node_ids = [], deps = [], dependents = []\<rparr>, rn_prior_outputs = [],
     rn_predeleted = {}, rn_rollback = True\<rparr>"

definition toy_ctx :: "(node_id \<times> undo) list \<Rightarrow> run_ctx" where
  "toy_ctx undos = \<lparr>x_live = [], x_report = empty_report, x_compensations = undos, x_cbd_deferred = [], x_delete_ids = {}\<rparr>"

definition toy_row :: "string \<Rightarrow> state_node" where
  "toy_row h = \<lparr>sid = ''n'', stype = ''t'', sprovider = ''p'', sprovider_version = ''1'', sinput_hash = h, soutputs = [], sproperties = [],
     sdependencies = [], sprevent_destroy = False, sstatus = CREATED, ssecret_digests = [], sref_digests = [], sdepends_on = []\<rparr>"

definition toy_trace :: "event list" where
  "toy_trace = [(LoadRows, Rows [(''n'', toy_row ''new'')], True), (LeaseLost, Lost None, True),
     (PutRow (toy_row NO_INPUT_HASH), Ok, True), (PutRow (toy_row ''old''), Ok, True)]"

lemma toy_row_simps [simp]:
  "sid (toy_row h) = ''n''" "(toy_row h)\<lparr>sinput_hash := h'\<rparr> = toy_row h'"
  by (simp_all add: toy_row_def)

theorem rollback_accounts_witness:
  "\<exists>r. undone_all empty_report r [''n'' \<mapsto> toy_row ''new''] (rows_after toy_trace [''n'' \<mapsto> toy_row ''new'']) [(''n'', RestoreRow (toy_row ''old''))]"
proof -
  have "\<exists>c'. traces (=) (rollback toy_env (toy_ctx [(''n'', RestoreRow (toy_row ''old''))])) toy_trace (Some (c', Returned ()))"
    unfolding toy_trace_def
    by (auto simp: run_defs toy_ctx_def traces_Ask event_ok_def)
  then obtain c' where tr: "traces (=) (rollback toy_env (toy_ctx [(''n'', RestoreRow (toy_row ''old''))])) toy_trace (Some (c', Returned ()))" ..
  have "\<forall>i s. [''n'' \<mapsto> toy_row ''new''] i = Some s \<longrightarrow> sid s = i" by (auto split: if_splits)
  from rollback_accounts [where m = "[''n'' \<mapsto> toy_row ''new'']", OF tr _ _ _ this]
  have "undone_all (x_report (toy_ctx [(''n'', RestoreRow (toy_row ''old''))])) (x_report c') [''n'' \<mapsto> toy_row ''new'']
      (rows_after toy_trace [''n'' \<mapsto> toy_row ''new'']) (rev (x_compensations (toy_ctx [(''n'', RestoreRow (toy_row ''old''))])))"
    by (simp add: toy_ctx_def toy_trace_def separate_def cbd_companion_id_def COMPANION_SUFFIX_def empty_report_def)
  then show ?thesis by (auto simp: toy_ctx_def)
qed

text \<open>
  C21: a rolled back create-before-destroy replace whose companion row cannot be dropped leaves
  the live resource planned for deletion. The undo deletes the replacement, restores the
  primary row and then fails to drop the companion: the state holds both rows for the one live
  resource, and the next diff plans the companion as a DELETE whatever the configuration says
  of the node.
\<close>

theorem leftover_companion_deletes_live:
  "\<exists>t. traces (=) (run_undo rn (UndoCbdCreate p new row) c) t (Some (c, Raised (Foreign ''timeout''))) \<and>
     rows_after t [sid row \<mapsto> fresh, cbd_companion_id (sid row) \<mapsto> row\<lparr>sid := cbd_companion_id (sid row)\<rparr>] =
       [sid row \<mapsto> row, cbd_companion_id (sid row) \<mapsto> row\<lparr>sid := cbd_companion_id (sid row)\<rparr>] \<and>
     change_for \<lparr>in_wants = [(sid row, want)], in_hashes = [(sid row, sinput_hash row)],
         in_rows = [(sid row, row), (cbd_companion_id (sid row), row\<lparr>sid := cbd_companion_id (sid row)\<rparr>)],
         in_muts = [], in_checks = []\<rparr> (cbd_companion_id (sid row)) =
       Inr ((plain_change (cbd_companion_id (sid row)) DELETE)\<lparr>cprior := Some (row\<lparr>sid := cbd_companion_id (sid row)\<rparr>)\<rparr>)"
proof (intro exI conjI)
  let ?t = "[(Destroy p new, Ok, True), (PutRow row, Ok, True), (DropRow (cbd_companion_id (sid row)), Err (Foreign ''timeout''), False)]"
  show "traces (=) (run_undo rn (UndoCbdCreate p new row) c) ?t (Some (c, Raised (Foreign ''timeout'')))"
    by (auto simp: run_defs traces_Ask event_ok_def)
qed (simp_all add: change_for_def fun_upd_twist)

text \<open>
  The rollback of a replace that was deleted ahead of the forward pass can bring back the
  row of a resource it has just destroyed. Such a node has two undos, and the rows both mark
  stale are read once: the second mark writes the row the first undo dropped. If the original
  cannot be created again, the state is left with the outputs of the destroyed replacement.
\<close>

lemma second_mark_revives_row:
  "\<exists>t c'. traces (=) (rollback rn (toy_ctx [(sid fresh, UndoDelete p old row), (sid fresh, UndoCreate p new (sid fresh))])) t
       (Some (c', Returned ())) \<and>
     shielded [sid fresh \<mapsto> fresh] t \<and> (Destroy p new, Ok, True) \<in> set t \<and>
     rows_after t [sid fresh \<mapsto> fresh] (sid fresh) = Some (fresh\<lparr>sinput_hash := NO_INPUT_HASH\<rparr>)"
proof (intro exI conjI)
  let ?i = "sid fresh" and ?stale = "fresh\<lparr>sinput_hash := NO_INPUT_HASH\<rparr>"
  let ?comps = "[(?i, UndoDelete p old row), (?i, UndoCreate p new ?i)]"
  let ?t = "[(LoadRows, Rows [(?i, fresh)], True), (LeaseLost, Lost None, True), (PutRow ?stale, Ok, True),
      (Destroy p new, Ok, True), (DropRow ?i, Ok, True), (LeaseLost, Lost None, True), (PutRow ?stale, Ok, True),
      (Create p old, Err (Foreign ''quota''), False)]"
  show "shielded [?i \<mapsto> fresh] ?t" by auto
  show "rows_after ?t [?i \<mapsto> fresh] ?i = Some ?stale" by simp
  show "(Destroy p new, Ok, True) \<in> set ?t" by simp
  show "traces (=) (rollback rn (toy_ctx ?comps)) ?t (Some (
      (toy_ctx ?comps)\<lparr>x_report := empty_report\<lparr>rp_rolled_back := [?i, ?i], rp_rollback_failed := [(?i, Because (Foreign ''quota''))]\<rparr>\<rparr>, Returned ()))"
    by (auto simp: run_defs toy_ctx_def traces_Ask event_ok_def empty_report_def)
qed

end
