(* ===== verification/ExecSteps.thy ===== *)
theory ExecSteps
  imports ExecSaga
begin

text \<open>
  The steps of a run: the re-check of a conditional replace (\<open>executor/confirm.py\<close>), the two
  replace strategies (\<open>executor/replace.py\<close>), the deletes (\<open>executor/deletes.py\<close>) and what a
  node's turn does in each phase (\<open>executor/run.py\<close>).
\<close>

subsection \<open>Confirming a conditional replace\<close>

text \<open>The verdicts of \<open>NodeRecords.matches\<close> that \<open>reclassify\<close> asks for, in the order it asks.\<close>

definition recorded_table ::
  "apply_env \<Rightarrow> (string \<times> string) list \<Rightarrow> props \<Rightarrow> (aerror, (string \<times> bool option) list) result" where
  "recorded_table env recorded wanted = rmap (\<lambda>(f, d). case map_of wanted f of
      None \<Rightarrow> Inr (f, None)
    | Some v \<Rightarrow> rbind (ref_matches env f v d) (\<lambda>b. Inr (f, b))) recorded"

definition confirm_replace :: "run_env \<Rightarrow> live_outputs \<Rightarrow> node_id \<Rightarrow> change \<Rightarrow> (aerror, change) result" where
  "confirm_replace rn live i ch = (let env = rn_env rn in
     case (map_of (rn_prior rn) i, cdesired ch) of
       (Some row, Some want) \<Rightarrow>
         rbind (resolve_properties (ae_py env) (ae_format env) live True (nproperties want)) (\<lambda>wanted.
         rbind (resolve_properties (ae_py env) (ae_format env) (rn_prior_outputs rn) False (sproperties row)) (\<lambda>had.
         rbind (lookup (ds_resources (rn_desired rn)) i i) (\<lambda>res.
         rbind (if cprior ch = None then Inl PyAssertionError else recorded_table env (sref_digests row) wanted) (\<lambda>tab.
         rbind (reclassify ch wanted had (field_mutability (rc_fields (rclass res))) (sref_digests row)
                  (Some (\<lambda>f v d. dget tab f None))) (\<lambda>fresh.
           if caction fresh = REPLACE \<and> nprevent_destroy want
           then Inl (PreventDestroyError ''prevent_destroy blocks destroying'' [i]) else Inr fresh)))))
     | _ \<Rightarrow> Inl PyAssertionError)"

text \<open>\<open>_rewrite\<close>: the undo is recorded before the write.\<close>

definition rewrite_undoable :: "run_env \<Rightarrow> state_node \<Rightarrow> state_node \<Rightarrow> (run_ctx, unit) act" where
  "rewrite_undoable rn prior row = aseq (record_undo rn (sid prior) (RestoreRow prior)) (rewrite_row row)"

definition record_state_only :: "run_env \<Rightarrow> node_id \<Rightarrow> change \<Rightarrow> (run_ctx, unit) act" where
  "record_state_only rn i ch = (case (map_of (rn_prior rn) i, cdesired ch) of
       (Some prior, Some want) \<Rightarrow>
         aseq (rewrite_undoable rn prior (prior\<lparr>sprevent_destroy := nprevent_destroy want\<rparr>))
              (on_report (\<lambda>r. r\<lparr>rp_noop := rp_noop r @ [i], rp_state_only := rp_state_only r @ [i]\<rparr>))
     | _ \<Rightarrow> araise (Fail PyAssertionError))"

definition record_collapsed :: "run_env \<Rightarrow> node_id \<Rightarrow> (run_ctx, unit) act" where
  "record_collapsed rn i = (case map_of (rn_prior rn) i of
       Some prior \<Rightarrow>
         aseq (abind (aread (\<lambda>c. collapsed_row rn (x_live c) prior)) (rewrite_undoable rn prior))
              (on_report (\<lambda>r. r\<lparr>rp_noop := rp_noop r @ [i]\<rparr>))
     | None \<Rightarrow> araise (Fail PyAssertionError))"

subsection \<open>Deletes\<close>

definition dbc_change :: "run_env \<Rightarrow> change \<Rightarrow> bool" where
  "dbc_change rn c = (caction c = REPLACE \<and> \<not> ccbd c \<and> map_of (rn_prior rn) (cid c) \<noteq> None)"

definition destroyed_change :: "run_env \<Rightarrow> change \<Rightarrow> bool" where
  "destroyed_change rn c = (caction c = DELETE \<or> dbc_change rn c \<and> \<not> cconditional c)"

definition prior_dependents :: "run_env \<Rightarrow> node_id \<Rightarrow> node_id list" where
  "prior_dependents rn i = (if graph_contains (rn_prior_graph rn) i then dget (dependents (rn_prior_graph rn)) i [] else [])"

definition predeletes :: "run_env \<Rightarrow> change list \<Rightarrow> node_id set option" where
  "predeletes rn cs = map_option snd (drain_push
     (\<lambda>i. case map_of (rn_changes rn) i of None \<Rightarrow> False | Some c \<Rightarrow> destroyed_change rn c)
     (prior_dependents rn) (map cid (filter (dbc_change rn) cs)) {})"

text \<open>\<open>delete_node\<close>: at most once per node; a data source only loses its row.\<close>

definition delete_node :: "run_env \<Rightarrow> node_id \<Rightarrow> (run_ctx, unit) act" where
  "delete_node rn i = abind (aget (\<lambda>c. i \<in> x_delete_ids c)) (\<lambda>planned. if \<not> planned then aret () else
     aseq (aupd (\<lambda>c. c\<lparr>x_delete_ids := x_delete_ids c - {i}\<rparr>))
     (aseq (acatch (case map_of (rn_prior rn) i of
           None \<Rightarrow> araise (Fail PyAssertionError)
         | Some row \<Rightarrow> abind (aread (\<lambda>c. reconstruct (rn_env rn) (x_live c) row)) (\<lambda>res.
             aseq (if rc_data (rclass res) then aret ()
                   else abind (alift (provider_for (rn_env rn) (sprovider row))) (\<lambda>p. await_ok (Destroy p res)))
                  (forget i))) (\<lambda>e. araise (failed_node i ''delete'' e)))
       (on_report (\<lambda>r. r\<lparr>rp_deleted := rp_deleted r @ [i]\<rparr>))))"

definition predestroy :: "run_env \<Rightarrow> node_id \<Rightarrow> (run_ctx, unit) act" where
  "predestroy rn i = (case map_of (rn_prior rn) i of
       None \<Rightarrow> araise (Fail PyAssertionError)
     | Some row \<Rightarrow> acatch
         (abind (aread (\<lambda>c. reconstruct (rn_env rn) (x_live c) row)) (\<lambda>old.
          abind (alift (provider_for (rn_env rn) (sprovider row))) (\<lambda>p.
          abind (alift (lookup (ds_resources (rn_desired rn)) i i)) (\<lambda>res.
            aseq (write_ahead rn i res) (aseq (await_ok (Destroy p old)) (record_undo rn i (UndoDelete p old row)))))))
         (\<lambda>e. araise (failed_node i ''replace'' e)))"

definition predelete_node :: "run_env \<Rightarrow> node_id \<Rightarrow> (run_ctx, unit) act" where
  "predelete_node rn i = (if i \<notin> rn_predeleted rn then aret ()
     else abind (aget (\<lambda>c. i \<in> x_delete_ids c)) (\<lambda>planned. if planned then delete_node rn i else predestroy rn i))"

subsection \<open>Replacing\<close>

definition replace_cbd :: "run_env \<Rightarrow> node_id \<Rightarrow> resource \<Rightarrow> resource \<Rightarrow> state_node \<Rightarrow> string \<Rightarrow> (run_ctx, unit) act" where
  "replace_cbd rn i res old row p = (let companion = cbd_companion_id i in
     aseq (abind (aget (\<lambda>c. companion \<in> x_delete_ids c)) (\<lambda>planned.
        if planned then delete_node rn companion
        else if map_of (rn_prior rn) companion \<noteq> None \<and> companion \<notin> rn_predeleted rn
        then araise (Fail (ProviderError ''the companion still tracks an earlier replaced resource'' None None None))
        else aret ()))
     (aseq (rewrite_row (row\<lparr>sid := companion\<rparr>))
     (aseq (write_ahead rn i res)
     (abind (await_outputs (Create p res)) (\<lambda>created.
        aseq (set_live i created)
        (aseq (aupd (\<lambda>c. c\<lparr>x_cbd_deferred := AList.update i old (x_cbd_deferred c)\<rparr>))
              (record_undo rn i (UndoCbdCreate p (with_outputs res created) row))))))))"

definition replace_dbc ::
  "run_env \<Rightarrow> node_id \<Rightarrow> resource \<Rightarrow> resource \<Rightarrow> state_node option \<Rightarrow> string \<Rightarrow> (run_ctx, unit) act" where
  "replace_dbc rn i res old prior p =
     aseq (if i \<in> rn_predeleted rn then aret () else aseq (write_ahead rn i res) (await_ok (Destroy p old)))
     (abind (await_outputs (Create p res)) (\<lambda>created.
        aseq (set_live i created)
        (if i \<in> rn_predeleted rn then record_undo rn i (UndoCreate p (with_outputs res created) i)
         else case prior of None \<Rightarrow> aret ()
         | Some row \<Rightarrow> abind (aread (\<lambda>c. ref_digests (rn_env rn) (x_live c) (stype row) (sproperties row))) (\<lambda>rd.
             record_undo rn i (UndoReplace p (with_outputs res created) old (row\<lparr>sref_digests := rd\<rparr>))))))"

definition replace_node :: "run_env \<Rightarrow> node_id \<Rightarrow> change \<Rightarrow> resource \<Rightarrow> string \<Rightarrow> (run_ctx, unit) act" where
  "replace_node rn i ch res p =
     aseq (case map_of (rn_prior rn) i of
         None \<Rightarrow> replace_dbc rn i res res None p
       | Some row \<Rightarrow> abind (aread (\<lambda>c. reconstruct (rn_env rn) (x_live c) row)) (\<lambda>old.
           if ccbd ch then replace_cbd rn i res old row p else replace_dbc rn i res old (Some row) p))
     (on_report (\<lambda>r. r\<lparr>rp_replaced := rp_replaced r @ [i]\<rparr>))"

definition cbd_cleanup :: "run_env \<Rightarrow> node_id \<Rightarrow> (run_ctx, unit) act" where
  "cbd_cleanup rn i = abind (aget (\<lambda>c. map_of (x_cbd_deferred c) i)) (\<lambda>deferred. case deferred of
       None \<Rightarrow> aret ()
     | Some old \<Rightarrow> aseq (acatch_exception
           (abind (alift (provider_for (rn_env rn) (rc_provider (rclass old)))) (\<lambda>p. await_ok (Destroy p old)))
           (\<lambda>e. aseq (on_report (\<lambda>r. r\<lparr>rp_orphaned := AList.update i (Because e) (rp_orphaned r)\<rparr>)) (araise e)))
         (await_ok (ForgetRow (cbd_companion_id i))))"

subsection \<open>A node's turn\<close>

definition create_node :: "run_env \<Rightarrow> node_id \<Rightarrow> resource \<Rightarrow> string \<Rightarrow> (run_ctx, unit) act" where
  "create_node rn i res p = aseq (write_ahead rn i res) (abind (await_outputs (Create p res)) (\<lambda>created.
     aseq (set_live i created)
     (aseq (record_undo rn i (UndoCreate p (with_outputs res created) i))
           (on_report (\<lambda>r. r\<lparr>rp_created := rp_created r @ [i]\<rparr>)))))"

definition update_node :: "run_env \<Rightarrow> node_id \<Rightarrow> resource \<Rightarrow> string \<Rightarrow> (run_ctx, unit) act" where
  "update_node rn i res p =
     aseq (abind (aget (\<lambda>c. dget (x_live c) i [])) (\<lambda>outs. abind (await_outputs (Update p outs res)) (set_live i)))
     (aseq (case map_of (rn_prior rn) i of
         None \<Rightarrow> aret ()
       | Some row \<Rightarrow> abind (alift (reconstruct (rn_env rn) (rn_prior_outputs rn) row)) (\<lambda>old.
           abind (alift (unseal_outputs (ae_secrets (rn_env rn)) (soutputs row))) (\<lambda>outs.
             record_undo rn i (UndoUpdate p old row outs))))
     (on_report (\<lambda>r. r\<lparr>rp_updated := rp_updated r @ [i]\<rparr>)))"

definition apply_one :: "run_env \<Rightarrow> node_id \<Rightarrow> change \<Rightarrow> (run_ctx, unit) act" where
  "apply_one rn i ch =
     (if caction ch = NOOP then (if cstate_only ch then record_state_only rn i ch else record_collapsed rn i)
      else abind (aread (\<lambda>c. rbind (lookup (ds_resources (rn_desired rn)) i i) (resolve_for_apply (rn_env rn) (x_live c)))) (\<lambda>res.
        abind (alift (provider_for (rn_env rn) (rc_provider (rclass res)))) (\<lambda>p.
          aseq (case caction ch of
              CREATE \<Rightarrow> create_node rn i res p
            | UPDATE \<Rightarrow> update_node rn i res p
            | REPLACE \<Rightarrow> replace_node rn i ch res p
            | _ \<Rightarrow> araise (Fail (ProviderError ''unexpected action in apply phase'' None None None)))
          (abind (aread (\<lambda>c. lookup (x_live c) i i)) (persist rn i res)))))"

definition apply_node :: "run_env \<Rightarrow> node_id \<Rightarrow> (run_ctx, unit) act" where
  "apply_node rn i = (case map_of (rn_changes rn) i of
      None \<Rightarrow> araise (Fail (KeyError i))
    | Some ch \<Rightarrow>
        if caction ch = NOOP \<and> \<not> cstate_only ch then on_report (\<lambda>r. r\<lparr>rp_noop := rp_noop r @ [i]\<rparr>)
        else abind (acatch (if cconditional ch \<and> i \<notin> rn_predeleted rn then aread (\<lambda>c. confirm_replace rn (x_live c) i ch) else aret ch)
               (\<lambda>e. araise (failed_node i (action_str (caction ch)) e))) (\<lambda>effective.
          aseq (acatch (apply_one rn i effective) (\<lambda>e. araise (failed_node i (action_str (caction effective)) e)))
               (if caction effective \<noteq> caction ch
                then on_report (\<lambda>r. r\<lparr>rp_downgraded := AList.update i (action_str (caction effective)) (rp_downgraded r)\<rparr>)
                else aret ())))"

definition destroy_node :: "run_env \<Rightarrow> node_id \<Rightarrow> (run_ctx, unit) act" where
  "destroy_node rn i = abind (aget (\<lambda>c. i \<in> fst ` set (x_cbd_deferred c))) (\<lambda>deferred.
     if deferred then cbd_cleanup rn i else delete_node rn i)"

text \<open>
  \<open>_handle_forward_failure\<close>: the rollback if the run asked for one and still holds its lease;
  then the exception the run ends with (the caller re-raises its own unless another is raised).
\<close>

definition handle_forward_failure :: "run_env \<Rightarrow> exn \<Rightarrow> (run_ctx, unit) act" where
  "handle_forward_failure rn e = (if \<not> rn_rollback rn then araise e else
     abind await_lost (\<lambda>lost.
       aseq (case lost of
           Some why \<Rightarrow> on_report (\<lambda>r. r\<lparr>rp_rollback_skipped := Some why\<rparr>)
         | None \<Rightarrow> rollback rn)
       (abind (aget (\<lambda>c. x_report c)) (\<lambda>r.
          araise (if rp_rollback_failed r = [] \<or> e = Cancelled then e else Group (e # rollback_errors r))))))"

end
