(* ===== verification/ExecSafety.thy ===== *)
theory ExecSafety
  imports ExecSteps
begin

text \<open>
  What a node's step guarantees whatever the rest of the run, the providers and the store do
  meanwhile: nothing is created untracked or forgotten undestroyed, and what is created can be
  undone.
\<close>

lemma node_row_fields:
  "node_row rn live i res outs status = Inr s \<Longrightarrow> sid s = i \<and> sstatus s = status \<and>
    hash_of rn i = Inr (sinput_hash s) \<and> (outs = [] \<longrightarrow> soutputs s = [])"
  by (auto simp: node_row_def rbind_Inr_iff seal_outputs_def Let_def split: if_splits)

lemmas step_defs = create_node_def update_node_def replace_node_def replace_cbd_def replace_dbc_def delete_node_def
  forget_def mark_stale_def poison_def write_ahead_def persist_def rewrite_row_def rewrite_undoable_def
  record_state_only_def record_collapsed_def record_undo_def set_live_def on_report_def acatch_exception_def Let_def

definition creating :: "state_node option \<Rightarrow> bool" where
  "creating s = (case s of None \<Rightarrow> False | Some r \<Rightarrow> sstatus r = CREATING)"

definition tracked_create :: "row_map \<Rightarrow> node_id \<Rightarrow> event list \<Rightarrow> call \<Rightarrow> bool" where
  "tracked_create m i h q = (case q of Create p r \<Rightarrow> creating (rows_after h m i) | _ \<Rightarrow> True)"

lemma tracked_create_simps [simp]:
  "tracked_create m i h (Create p r) \<longleftrightarrow> creating (rows_after h m i)"
  "tracked_create m i h (PutRow s)" "tracked_create m i h (DropRow j)" "tracked_create m i h (ForgetRow j)"
  "tracked_create m i h LoadRows" "tracked_create m i h LeaseLost" "tracked_create m i h (Update p os r)"
  "tracked_create m i h (Destroy p r)"
  by (simp_all add: tracked_create_def)

subsection \<open>A judgement for steps\<close>

text \<open>Run after a history with \<open>K\<close>, the act makes only calls that \<open>I\<close> allows.\<close>

definition step_ok :: "('c \<Rightarrow> 'c \<Rightarrow> bool) \<Rightarrow> (event list \<Rightarrow> call \<Rightarrow> bool) \<Rightarrow> (event list \<Rightarrow> bool) \<Rightarrow> ('c, 'a) act \<Rightarrow> bool" where
  "step_ok R I K act \<longleftrightarrow> (\<forall>c h. K h \<longrightarrow> safe R I (\<lambda>_ _ _. True) (act c) h)"

abbreviation anywhen :: "event list \<Rightarrow> bool" where "anywhen \<equiv> \<lambda>_. True"

lemma step_ok_weaken: "step_ok R I anywhen act \<Longrightarrow> step_ok R I K act"
  by (simp add: step_ok_def)

lemma step_ok_pure:
  "step_ok R I K (aret v)" "step_ok R I K (araise e)" "step_ok R I K (aupd g)" "step_ok R I K (aget w)"
  by (simp_all add: step_ok_def vcg)

lemma step_ok_alift: "step_ok R I K (alift r)"
  by (cases r) (simp_all add: step_ok_def safe_alift)

lemma step_ok_aread: "step_ok R I K (aread f)"
  by (simp add: step_ok_def vcg safe_alift split: sum.splits)

lemma step_ok_bind_pure:
  "(\<And>v. step_ok R I K (f v)) \<Longrightarrow> step_ok R I K (abind (aget w) f)"
  "(\<And>v. step_ok R I K (f v)) \<Longrightarrow> step_ok R I K (abind (alift r) f)"
  "(\<And>v. step_ok R I K (f v)) \<Longrightarrow> step_ok R I K (abind (aread rf) f)"
  by (simp_all add: step_ok_def vcg safe_alift split: sum.splits)

lemma step_ok_bind_guarded:
  "(\<And>v. step_ok R I K (f v)) \<Longrightarrow> step_ok R I K (abind (acatch (if b then aread rf else aret w) (\<lambda>e. araise (g e))) f)"
  by (simp add: step_ok_def vcg safe_alift split: sum.splits)

lemma step_ok_seq_pure: "step_ok R I K n \<Longrightarrow> step_ok R I K (aseq (aupd g) n)" "step_ok R I K n \<Longrightarrow> step_ok R I K (aseq (aret ()) n)"
  "step_ok R I K (aseq (araise e) n)"
  by (simp_all add: step_ok_def vcg)

lemma safe_then:
  assumes "safe R I (\<lambda>_ _ _. True) p h" and "\<And>v c h. safe R I Q (f v c) h" and "\<And>e c h. Q (Raised e) c h"
  shows "safe R I (\<lambda>x c h. case x of Returned v \<Rightarrow> safe R I Q (f v c) h | Raised e \<Rightarrow> Q (Raised e) c h) p h"
  by (rule safe_mono [OF assms(1)]) (use assms(2,3) in \<open>auto split: outcome.splits\<close>)

lemma step_ok_bind: "step_ok R I K m \<Longrightarrow> (\<And>v. step_ok R I anywhen (f v)) \<Longrightarrow> step_ok R I K (abind m f)"
  unfolding step_ok_def safe_abind by (intro allI impI safe_then) auto

lemma step_ok_seq: "step_ok R I K m \<Longrightarrow> step_ok R I anywhen n \<Longrightarrow> step_ok R I K (aseq m n)"
  unfolding step_ok_def safe_aseq by (intro allI impI safe_then [where f = "\<lambda>_. n"]) auto

lemma step_ok_catch:
  assumes "step_ok R I K m" and "\<And>e. step_ok R I anywhen (w e)"
  shows "step_ok R I K (acatch m w)"
  unfolding step_ok_def safe_acatch
proof (intro allI impI)
  fix c h assume "K h"
  then have "safe R I (\<lambda>_ _ _. True) (m c) h" using assms(1) by (simp add: step_ok_def)
  then show "safe R I (\<lambda>x c h. case x of Returned v \<Rightarrow> True | Raised e \<Rightarrow> safe R I (\<lambda>_ _ _. True) (w e c) h) (m c) h"
    by (rule safe_mono) (use assms(2) in \<open>auto simp: step_ok_def split: outcome.splits\<close>)
qed

lemma step_ok_catch_raise: "step_ok R I K m \<Longrightarrow> step_ok R I K (acatch m (\<lambda>e. araise (g e)))"
  by (rule step_ok_catch) (auto intro: step_ok_pure)

lemma step_ok_catch_exception:
  "step_ok R I K m \<Longrightarrow> (\<And>e. step_ok R I anywhen (w e)) \<Longrightarrow> step_ok R I K (acatch_exception m w)"
  unfolding acatch_exception_def by (rule step_ok_catch) (auto intro: step_ok_pure)

lemma step_ok_if: "(b \<Longrightarrow> step_ok R I K m) \<Longrightarrow> (\<not> b \<Longrightarrow> step_ok R I K n) \<Longrightarrow> step_ok R I K (if b then m else n)"
  by simp

lemma step_ok_option:
  "(z = None \<Longrightarrow> step_ok R I K m) \<Longrightarrow> (\<And>v. z = Some v \<Longrightarrow> step_ok R I K (n v)) \<Longrightarrow> step_ok R I K (case z of None \<Rightarrow> m | Some v \<Rightarrow> n v)"
  by (cases z) simp_all

lemma step_ok_await:
  "(\<And>h. K h \<Longrightarrow> I h (PutRow s)) \<Longrightarrow> step_ok R I K (await_ok (PutRow s))"
  "(\<And>h. K h \<Longrightarrow> I h (DropRow i)) \<Longrightarrow> step_ok R I K (await_ok (DropRow i))"
  "(\<And>h. K h \<Longrightarrow> I h (ForgetRow i)) \<Longrightarrow> step_ok R I K (await_ok (ForgetRow i))"
  "(\<And>h. K h \<Longrightarrow> I h (Destroy p r)) \<Longrightarrow> step_ok R I K (await_ok (Destroy p r))"
  "(\<And>h. K h \<Longrightarrow> I h (Create p r)) \<Longrightarrow> step_ok R I K (await_outputs (Create p r))"
  "(\<And>h. K h \<Longrightarrow> I h (Update p os r)) \<Longrightarrow> step_ok R I K (await_outputs (Update p os r))"
  "(\<And>h. K h \<Longrightarrow> I h LoadRows) \<Longrightarrow> step_ok R I K await_rows"
  by (simp_all add: step_ok_def vcg)

lemmas step_rules = step_ok_pure step_ok_alift step_ok_aread step_ok_bind_guarded step_ok_bind_pure step_ok_seq_pure step_ok_catch_raise
  step_ok_catch_exception step_ok_if step_ok_option step_ok_await step_ok_bind step_ok_seq

lemmas plain_defs = on_report_def set_live_def record_undo_def rewrite_row_def poison_def

subsection \<open>Creations are tracked\<close>

abbreviation armed :: "row_map \<Rightarrow> node_id \<Rightarrow> event list \<Rightarrow> bool" where
  "armed m i \<equiv> \<lambda>h. creating (rows_after h m i)"

lemma armed_create: "(\<And>v. step_ok R (tracked_create m i) anywhen (f v)) \<Longrightarrow>
    step_ok R (tracked_create m i) (armed m i) (abind (await_outputs (Create p r)) f)"
  by (rule step_ok_bind) (auto intro: step_ok_await)

lemma armed_write_ahead:
  "step_ok R (tracked_create m i) (armed m i) n \<Longrightarrow> step_ok R (tracked_create m i) K (aseq (write_ahead rn i res) n)"
  unfolding step_ok_def
  by (auto simp: write_ahead_def rewrite_row_def vcg safe_alift creating_def dest!: node_row_fields split: sum.splits)

lemma armed_destroy:
  "step_ok R (tracked_create m i) (armed m i) n \<Longrightarrow>
    step_ok R (tracked_create m i) (armed m i) (aseq (await_ok (Destroy p r)) n)"
  unfolding step_ok_def by (simp add: vcg)

lemma prog_bind_assoc: "prog_bind (prog_bind p f) g = prog_bind p (\<lambda>v c. prog_bind (f v c) g)"
  by (induction p) auto

lemma aseq_assoc: "aseq (aseq a b) n = aseq a (aseq b n)"
  unfolding aseq_def abind_def prog_bind_assoc ..

lemma mark_stale_ok: "(\<And>s h. I h (PutRow s)) \<Longrightarrow> (\<And>h. I h LoadRows) \<Longrightarrow> step_ok R I K (mark_stale i rows)"
  unfolding mark_stale_def plain_defs by (intro step_rules) auto

lemma delete_node_ok:
  assumes "\<And>s h. I h (PutRow s)" and "\<And>h. I h LoadRows" and "\<And>p r h. I h (Destroy p r)" and "\<And>j h. I h (ForgetRow j)"
  shows "step_ok R I K (delete_node rn j)"
  unfolding delete_node_def forget_def plain_defs
  by (intro step_rules mark_stale_ok assms)

lemma creates_tracked:
  assumes "i \<in> rn_predeleted rn \<longrightarrow> creating (m i)"
  shows "step_ok R (tracked_create m i) (\<lambda>h. h = []) (apply_node rn i)"
proof -
  let ?I = "tracked_create m i"
  have dbc: "step_ok R ?I (\<lambda>h. h = []) (replace_dbc rn i res old prior p)" for res old prior p
  proof (cases "i \<in> rn_predeleted rn")
    case True
    have "step_ok R ?I (armed m i) (replace_dbc rn i res old prior p)"
      unfolding replace_dbc_def plain_defs using True by (simp, intro armed_create step_rules) simp_all
    then show ?thesis using assms True by (simp add: step_ok_def)
  next
    case False
    then show ?thesis unfolding replace_dbc_def plain_defs
      by (simp add: aseq_assoc) (intro armed_write_ahead armed_destroy armed_create step_rules)
  qed
  have cbd: "step_ok R ?I (\<lambda>h. h = []) (replace_cbd rn i res old row p)" for res old row p
    unfolding replace_cbd_def plain_defs Let_def
    by (intro armed_write_ahead armed_create step_rules delete_node_ok) simp_all
  have create: "step_ok R ?I (\<lambda>h. h = []) (create_node rn i res p)" for res p
    unfolding create_node_def plain_defs by (intro armed_write_ahead armed_create step_rules)
  have update: "step_ok R ?I (\<lambda>h. h = []) (update_node rn i res p)" for res p
    unfolding update_node_def plain_defs by (intro step_rules) simp_all
  have rows: "step_ok R ?I (\<lambda>h. h = []) (record_state_only rn i ch)" "step_ok R ?I (\<lambda>h. h = []) (record_collapsed rn i)" for ch
    unfolding record_state_only_def record_collapsed_def rewrite_undoable_def plain_defs
    by (cases "map_of (rn_prior rn) i"; cases "cdesired ch"; simp; intro step_rules; simp)+
  have replace: "step_ok R ?I (\<lambda>h. h = []) (replace_node rn i ch res p)" for ch res p
    unfolding replace_node_def on_report_def by (intro step_rules dbc cbd)
  have one: "step_ok R ?I (\<lambda>h. h = []) (apply_one rn i ch)" for ch
  proof (cases "caction ch = NOOP")
    case True
    then show ?thesis by (simp add: apply_one_def rows)
  next
    case False
    then show ?thesis unfolding apply_one_def persist_def rewrite_row_def
      by (cases "caction ch"; simp; intro step_rules create update replace; simp)
  qed
  show ?thesis
    unfolding apply_node_def on_report_def by (intro step_ok_bind_guarded one step_rules)
qed

text \<open>
  Nothing is created untracked. Whatever other nodes, providers and the store do during a
  node's step, each time it asks a provider to create, the store's row of the node, as the
  step's own writes have left it, is there and marked as being created; a node deleted ahead of
  the forward pass starts with that row.
\<close>

lemma creates_are_tracked:
  assumes "traces R (apply_node rn i c) t r" and "i \<in> rn_predeleted rn \<longrightarrow> creating (m i)"
    and "k < length t" and "fst (t ! k) = Create p res"
  shows "creating (rows_after (take k t) m i)"
proof -
  have "safe R (tracked_create m i) (\<lambda>_ _ _. True) (apply_node rn i c) []"
    using creates_tracked [of i rn m R] assms(2) by (simp add: step_ok_def)
  from safe_traces [OF assms(1) this] assms(3,4) show ?thesis by (auto simp: tracked_create_def)
qed

subsection \<open>A protected node is not destroyed by its upstreams\<close>

definition touches_resource :: "call \<Rightarrow> bool" where
  "touches_resource q = (case q of Create p r \<Rightarrow> True | Destroy p r \<Rightarrow> True | _ \<Rightarrow> False)"

lemma touches_resource_simps [simp]:
  "touches_resource (Create p r)" "touches_resource (Destroy p r)" "\<not> touches_resource (PutRow s)"
  "\<not> touches_resource (Update p os r)"
  by (simp_all add: touches_resource_def)

lemma confirmed_cases:
  assumes "confirm_replace rn live i ch = Inr v" and "cdesired ch = Some want" and "nprevent_destroy want" and "caction ch = REPLACE"
  shows "caction v = UPDATE \<or> caction v = NOOP"
  using assms
  by (auto simp: confirm_replace_def reclassify_def Let_def rbind_Inr_iff split: option.splits if_splits)

lemma protected_spec:
  assumes "map_of (rn_changes rn) i = Some ch" and "caction ch = REPLACE" and "cconditional ch" and "i \<notin> rn_predeleted rn"
    and "cdesired ch = Some want" and "nprevent_destroy want"
  shows "step_ok R (\<lambda>_ q. \<not> touches_resource q) anywhen (apply_node rn i)"
proof -
  let ?I = "\<lambda>_ q. \<not> touches_resource q"
  have rows: "step_ok R ?I anywhen (record_state_only rn i v)" "step_ok R ?I anywhen (record_collapsed rn i)" for v
    unfolding record_state_only_def record_collapsed_def rewrite_undoable_def plain_defs
    by (cases "map_of (rn_prior rn) i"; cases "cdesired v"; simp; intro step_rules; simp)+
  have update: "step_ok R ?I anywhen (update_node rn i res p)" for res p
    unfolding update_node_def plain_defs by (intro step_rules) simp_all
  have one: "step_ok R ?I anywhen (apply_one rn i v)" if "caction v = UPDATE \<or> caction v = NOOP" for v
  proof (cases "caction v = NOOP")
    case True
    then show ?thesis by (simp add: apply_one_def rows)
  next
    case False
    then have "caction v = UPDATE" using that by simp
    then show ?thesis unfolding apply_one_def persist_def rewrite_row_def by (simp, intro step_rules update) simp
  qed
  have rest: "step_ok R ?I anywhen (aseq (acatch (apply_one rn i v) (\<lambda>e. araise (failed_node i (action_str (caction v)) e)))
      (if caction v \<noteq> caction ch then on_report f else aret ()))" if "caction v = UPDATE \<or> caction v = NOOP" for v f
    unfolding on_report_def using that by (intro step_rules one) simp_all
  show ?thesis
    unfolding step_ok_def
  proof (intro allI impI)
    fix c h
    show "safe R ?I (\<lambda>_ _ _. True) (apply_node rn i c) h"
    proof (cases "confirm_replace rn (x_live c) i ch")
      case (Inl e)
      then show ?thesis using assms by (simp add: apply_node_def vcg safe_alift)
    next
      case (Inr v)
      have "caction v = UPDATE \<or> caction v = NOOP" by (rule confirmed_cases [OF Inr assms(5,6,2)])
      from rest [OF this] Inr show ?thesis using assms
        by (simp add: apply_node_def safe_abind safe_acatch safe_aread safe_alift step_ok_def)
    qed
  qed
qed

text \<open>
  C5: a protected node is never destroyed because an upstream moved. The plan leaves the
  verdict of a conditional replace to the apply; there, if the configuration protects the node
  (and it was not already deleted ahead), its step creates and destroys nothing at all,
  whatever the values turn out to be: it is refused, updated in place or only recorded.
\<close>

theorem protected_never_destroyed:
  assumes "traces R (apply_node rn i c) t r" and "map_of (rn_changes rn) i = Some ch" and "caction ch = REPLACE"
    and "cconditional ch" and "i \<notin> rn_predeleted rn" and "cdesired ch = Some want" and "nprevent_destroy want"
  shows "\<forall>ev \<in> set t. \<not> touches_resource (fst ev)"
proof -
  have "safe R (\<lambda>_ q. \<not> touches_resource q) (\<lambda>_ _ _. True) (apply_node rn i c) []"
    using protected_spec [OF assms(2-7), of R] by (simp add: step_ok_def)
  from safe_traces [OF assms(1) this] show ?thesis by (metis in_set_conv_nth)
qed

subsection \<open>Rows are forgotten after their resource is gone\<close>

definition data_row :: "run_env \<Rightarrow> node_id \<Rightarrow> bool" where
  "data_row rn i = (case map_of (rn_prior rn) i of None \<Rightarrow> False
     | Some row \<Rightarrow> (case map_of (ae_types (rn_env rn)) (stype row) of None \<Rightarrow> False | Some cl \<Rightarrow> rc_data cl))"

definition forgets_ok :: "run_env \<Rightarrow> event list \<Rightarrow> call \<Rightarrow> bool" where
  "forgets_ok rn h q = (case q of ForgetRow i \<Rightarrow> data_row rn i \<or> (\<exists>p r. (Destroy p r, Ok, True) \<in> set h) | DropRow i \<Rightarrow> False | _ \<Rightarrow> True)"

lemma forgets_ok_simps [simp]:
  "forgets_ok rn h (PutRow s)" "forgets_ok rn h LoadRows" "forgets_ok rn h (Destroy p r)"
  "forgets_ok rn h (ForgetRow i) \<longleftrightarrow> data_row rn i \<or> (\<exists>p r. (Destroy p r, Ok, True) \<in> set h)"
  by (simp_all add: forgets_ok_def)

lemma updated_inputs_class: "updated_inputs r f = Inr r' \<Longrightarrow> rclass r' = rclass r"
  by (auto simp: updated_inputs_def rbind_Inr_iff)

lemma reconstruct_class:
  "reconstruct env outs row = Inr r \<Longrightarrow> map_of (ae_types env) (stype row) = Some (rclass r)"
  by (auto simp: reconstruct_def rbind_Inr_iff resolve_secret_refs_def resolve_stack_refs_def
      dest!: updated_inputs_class new_resource_fields split: option.splits)

lemma forget_ok:
  assumes "\<And>h. K h \<Longrightarrow> forgets_ok rn h (ForgetRow i)"
  shows "step_ok R (forgets_ok rn) K (forget i)"
  unfolding forget_def plain_defs by (intro step_rules mark_stale_ok assms) simp_all

lemma destroy_then_forget:
  "step_ok R (forgets_ok rn) anywhen (aseq (await_ok (Destroy p r)) (forget i))"
  "step_ok R (forgets_ok rn) anywhen (aseq (await_ok (Destroy p r)) (await_ok (ForgetRow j)))"
proof -
  have "step_ok R (forgets_ok rn) (\<lambda>h. (Destroy p r, Ok, True) \<in> set h) (forget i)"
    by (rule forget_ok) auto
  then show "step_ok R (forgets_ok rn) anywhen (aseq (await_ok (Destroy p r)) (forget i))"
    by (simp add: step_ok_def vcg)
  show "step_ok R (forgets_ok rn) anywhen (aseq (await_ok (Destroy p r)) (await_ok (ForgetRow j)))"
    by (auto simp: step_ok_def vcg)
qed

lemma aseq_abind: "aseq (abind m f) n = abind m (\<lambda>v. aseq (f v) n)"
  unfolding aseq_def abind_def prog_bind_assoc ..

lemma destroy_or_data:
  assumes "rc_data (rclass res) \<longrightarrow> data_row rn i"
  shows "step_ok R (forgets_ok rn) anywhen
    (aseq (if rc_data (rclass res) then aret () else abind (alift r) (\<lambda>p. await_ok (Destroy p res))) (forget i))"
proof (cases "rc_data (rclass res)")
  case True
  then show ?thesis using assms by simp (intro step_rules forget_ok, simp)
next
  case False
  then show ?thesis by (simp add: aseq_abind) (intro step_rules destroy_then_forget)
qed

lemma delete_body_ok:
  assumes "map_of (rn_prior rn) i = Some row"
  shows "step_ok R (forgets_ok rn) anywhen (abind (aread (\<lambda>c. reconstruct (rn_env rn) (x_live c) row)) (\<lambda>res.
     aseq (if rc_data (rclass res) then aret ()
           else abind (alift (provider_for (rn_env rn) (sprovider row))) (\<lambda>p. await_ok (Destroy p res))) (forget i)))"
  unfolding step_ok_def
proof (intro allI impI)
  fix c h
  show "safe R (forgets_ok rn) (\<lambda>_ _ _. True) (abind (aread (\<lambda>c. reconstruct (rn_env rn) (x_live c) row)) (\<lambda>res.
     aseq (if rc_data (rclass res) then aret ()
           else abind (alift (provider_for (rn_env rn) (sprovider row))) (\<lambda>p. await_ok (Destroy p res))) (forget i)) c) h"
  proof (cases "reconstruct (rn_env rn) (x_live c) row")
    case (Inr res)
    have "rc_data (rclass res) \<longrightarrow> data_row rn i" using reconstruct_class [OF Inr] assms by (simp add: data_row_def)
    from destroy_or_data [OF this, of R "provider_for (rn_env rn) (sprovider row)"] Inr
    show ?thesis by (simp add: step_ok_def safe_abind safe_aread safe_alift)
  qed (simp add: vcg safe_alift)
qed

lemma forgets_spec: "step_ok R (forgets_ok rn) anywhen (destroy_node rn i)"
proof -
  have clean: "step_ok R (forgets_ok rn) anywhen (cbd_cleanup rn i)"
    unfolding cbd_cleanup_def plain_defs acatch_exception_def
    by (auto simp: step_ok_def vcg safe_alift split: option.splits sum.splits)
  show ?thesis unfolding destroy_node_def delete_node_def plain_defs
    by (intro delete_body_ok step_rules clean)
qed

text \<open>
  C6: no resource is forgotten while it may still be there. In the delete pass a node's row, or
  the companion row of a replaced one, is dropped only once a destroy issued by that step has
  succeeded, unless the row is a data source's, whose resource the configuration only reads.
\<close>

theorem forgotten_after_destroyed:
  assumes "traces R (destroy_node rn i c) t r" and "k < length t" and "fst (t ! k) = ForgetRow j"
  shows "data_row rn j \<or> (\<exists>p res. (Destroy p res, Ok, True) \<in> set (take k t))"
proof -
  have "safe R (forgets_ok rn) (\<lambda>_ _ _. True) (destroy_node rn i c) []"
    using forgets_spec [of R rn i] by (simp add: step_ok_def)
  from safe_traces [OF assms(1) this] assms(2,3) show ?thesis by fastforce
qed

end
