(* ===== verification/ExecRecovery.thy ===== *)
theory ExecRecovery
  imports ExecSafety
begin

text \<open>
  Recovering from a step that fails: what it created has an undo, a replaced resource stays
  tracked, and one case in which the state loses a live resource.
\<close>

subsection \<open>What is created has an undo\<close>

fun undoes_create :: "string \<Rightarrow> resource \<Rightarrow> node_id \<Rightarrow> undo \<Rightarrow> bool" where
  "undoes_create p new i (UndoCreate q n j) = (q = p \<and> n = new \<and> j = i)"
| "undoes_create p new i (UndoReplace q n old row) = (q = p \<and> n = new)"
| "undoes_create p new i (UndoCbdCreate q n row) = (q = p \<and> n = new)"
| "undoes_create p new i u = False"

definition covered :: "node_id \<Rightarrow> run_ctx \<Rightarrow> event list \<Rightarrow> bool" where
  "covered i c h \<longleftrightarrow> (\<forall>p res outs. (Create p res, Outputs outs, True) \<in> set h \<longrightarrow>
     (\<exists>u. (i, u) \<in> set (x_compensations c) \<and> undoes_create p (with_outputs res outs) i u))"

text \<open>Other nodes only add undos.\<close>

definition only_adds :: "run_ctx \<Rightarrow> run_ctx \<Rightarrow> bool" where
  "only_adds c c' \<longleftrightarrow> set (x_compensations c) \<subseteq> set (x_compensations c')"

definition keeps_covered :: "node_id \<Rightarrow> (run_ctx, 'a) act \<Rightarrow> bool" where
  "keeps_covered i act \<longleftrightarrow> (\<forall>c h. covered i c h \<longrightarrow> safe only_adds (\<lambda>_ _. True) (\<lambda>_ c' h'. covered i c' h') (act c) h)"

lemma covered_mono: "covered i c h \<Longrightarrow> only_adds c c' \<Longrightarrow> covered i c' h"
  by (fastforce simp: covered_def only_adds_def)

lemma covered_other:
  "covered i c h \<Longrightarrow> \<forall>p res outs. (Create p res, Outputs outs, True) \<noteq> (q, a, landed) \<Longrightarrow> covered i c (h @ [(q, a, landed)])"
  unfolding covered_def by (metis Un_iff empty_iff insert_iff list.set set_append)

lemma keeps_pure: "keeps_covered i (aret v)" "keeps_covered i (araise e)" "keeps_covered i (aget w)"
  by (simp_all add: keeps_covered_def vcg)

lemma keeps_alift: "keeps_covered i (alift r)"
  by (simp add: keeps_covered_def safe_alift split: sum.splits)

lemma keeps_aread: "keeps_covered i (aread f)"
  by (simp add: keeps_covered_def vcg safe_alift split: sum.splits)

lemma keeps_aupd: "(\<And>c. only_adds c (g c)) \<Longrightarrow> keeps_covered i (aupd g)"
  by (auto simp: keeps_covered_def vcg intro: covered_mono)

lemma keeps_bind: "keeps_covered i m \<Longrightarrow> (\<And>v. keeps_covered i (f v)) \<Longrightarrow> keeps_covered i (abind m f)"
  unfolding keeps_covered_def safe_abind
  by (intro allI impI, rule safe_mono, blast) (auto split: outcome.splits)

lemma keeps_seq: "keeps_covered i m \<Longrightarrow> keeps_covered i n \<Longrightarrow> keeps_covered i (aseq m n)"
  unfolding aseq_def by (rule keeps_bind)

lemma keeps_catch: "keeps_covered i m \<Longrightarrow> (\<And>e. keeps_covered i (w e)) \<Longrightarrow> keeps_covered i (acatch m w)"
  unfolding keeps_covered_def safe_acatch
  by (intro allI impI, rule safe_mono, blast) (auto split: outcome.splits)

lemma keeps_catch_exception: "keeps_covered i m \<Longrightarrow> (\<And>e. keeps_covered i (w e)) \<Longrightarrow> keeps_covered i (acatch_exception m w)"
  unfolding acatch_exception_def by (rule keeps_catch) (auto intro: keeps_pure)

lemma keeps_if: "(b \<Longrightarrow> keeps_covered i m) \<Longrightarrow> (\<not> b \<Longrightarrow> keeps_covered i n) \<Longrightarrow> keeps_covered i (if b then m else n)"
  by simp

lemma keeps_option:
  "(z = None \<Longrightarrow> keeps_covered i m) \<Longrightarrow> (\<And>v. z = Some v \<Longrightarrow> keeps_covered i (n v)) \<Longrightarrow> keeps_covered i (case z of None \<Rightarrow> m | Some v \<Rightarrow> n v)"
  by (cases z) simp_all

lemma keeps_await:
  "keeps_covered i (await_ok (PutRow s))" "keeps_covered i (await_ok (DropRow j))" "keeps_covered i (await_ok (ForgetRow j))"
  "keeps_covered i (await_ok (Destroy p r))" "keeps_covered i (await_outputs (Update p os r))" "keeps_covered i await_rows"
  by (auto simp: keeps_covered_def vcg intro!: covered_other intro: covered_mono)

lemma only_adds_upd [simp]:
  "only_adds c (c\<lparr>x_report := r\<rparr>)" "only_adds c (c\<lparr>x_live := l\<rparr>)" "only_adds c (c\<lparr>x_cbd_deferred := d\<rparr>)"
  "only_adds c (c\<lparr>x_delete_ids := s\<rparr>)" "only_adds c (if b then c\<lparr>x_compensations := x_compensations c @ us\<rparr> else c)"
  by (simp_all add: only_adds_def)

lemmas keeps_rules = keeps_pure keeps_alift keeps_aread keeps_aupd keeps_catch keeps_catch_exception keeps_if keeps_option keeps_await
  keeps_bind keeps_seq only_adds_upd

text \<open>The undo is recorded before anything else can happen.\<close>

lemma covered_create:
  assumes "covered i c h" and "only_adds c c'" and "undoes_create p (with_outputs res outs) i u"
    and "set (x_compensations c1) = insert (i, u) (set (x_compensations c'))"
  shows "covered i c1 (h @ [(Create p res, Outputs outs, True)])"
  unfolding covered_def
proof (intro allI impI)
  fix q r os assume "(Create q r, Outputs os, True) \<in> set (h @ [(Create p res, Outputs outs, True)])"
  then consider "(Create q r, Outputs os, True) \<in> set h" | "q = p" "r = res" "os = outs" by auto
  then show "\<exists>v. (i, v) \<in> set (x_compensations c1) \<and> undoes_create q (with_outputs r os) i v"
  proof cases
    case 1
    then obtain v where "(i, v) \<in> set (x_compensations c)" "undoes_create q (with_outputs r os) i v"
      using assms(1) unfolding covered_def by blast
    then show ?thesis using assms(2,4) unfolding only_adds_def by blast
  next
    case 2
    then show ?thesis using assms(3,4) by auto
  qed
qed

lemma covered_err: "covered i c h \<Longrightarrow> only_adds c c' \<Longrightarrow> covered i c' (h @ [(Create p res, Err e, landed)])"
  by (rule covered_other [OF covered_mono]) simp_all

lemma created_then_recorded:
  assumes "rn_rollback rn" and u: "\<And>created. undoes_create p (with_outputs res created) i (u created)"
  shows "keeps_covered i (abind (await_outputs (Create p res)) (\<lambda>created. aseq (set_live i created) (record_undo rn i (u created))))"
    and "keeps_covered i (abind (await_outputs (Create p res)) (\<lambda>created.
        aseq (set_live i created) (aseq (aupd (\<lambda>c. c\<lparr>x_cbd_deferred := d c\<rparr>)) (record_undo rn i (u created)))))"
  unfolding keeps_covered_def set_live_def record_undo_def
  by (simp_all add: vcg assms(1) covered_err) (intro allI impI, erule (1) covered_create [OF _ _ u], simp)+

lemma created_then_digested:
  assumes "rn_rollback rn" and rf: "\<And>c. \<exists>v. rf c = Inr v"
    and w: "\<And>created v. undoes_create p (with_outputs res created) i (w created v)"
  shows "keeps_covered i (abind (await_outputs (Create p res)) (\<lambda>created. aseq (set_live i created)
    (abind (aread rf) (\<lambda>v. record_undo rn i (w created v)))))"
proof -
  from rf obtain vf where "\<And>c. rf c = Inr (vf c)" by metis
  then show ?thesis
    unfolding keeps_covered_def set_live_def record_undo_def
    by (simp add: vcg assms(1) covered_err) (intro allI impI, erule (1) covered_create [OF _ _ w], simp)
qed

lemma keeps_mark_stale: "keeps_covered i (mark_stale j rows)"
  unfolding mark_stale_def plain_defs by (intro keeps_rules)

lemma keeps_delete_node: "keeps_covered i (delete_node rn j)"
  unfolding delete_node_def forget_def plain_defs by (intro keeps_rules keeps_mark_stale)

text \<open>The digests of the restored row are computed between the create and its undo.\<close>

definition digests_total :: "run_env \<Rightarrow> node_id \<Rightarrow> bool" where
  "digests_total rn i = (\<forall>row. map_of (rn_prior rn) i = Some row \<longrightarrow>
     (\<forall>live. \<exists>d. ref_digests (rn_env rn) live (stype row) (sproperties row) = Inr d))"

lemma created_steps:
  assumes "rn_rollback rn"
  shows "keeps_covered i (create_node rn i res p)" and "keeps_covered i (update_node rn i res p)"
    and "keeps_covered i (replace_cbd rn i res old row p)"
    and "map_of (rn_prior rn) i = Some row \<Longrightarrow> digests_total rn i \<Longrightarrow> keeps_covered i (replace_dbc rn i res old (Some row) p)"
proof -
  note recorded = created_then_recorded [OF assms] created_then_digested [OF assms]
  have ahead: "keeps_covered i (write_ahead rn i res)"
    unfolding write_ahead_def rewrite_row_def by (intro keeps_rules)
  show "keeps_covered i (create_node rn i res p)"
    unfolding create_node_def on_report_def aseq_assoc [symmetric] aseq_abind [symmetric]
    by (intro recorded keeps_seq keeps_aupd ahead) simp_all
  show "keeps_covered i (update_node rn i res p)"
    unfolding update_node_def plain_defs by (intro keeps_rules)
  show "keeps_covered i (replace_cbd rn i res old row p)"
    unfolding replace_cbd_def rewrite_row_def Let_def
    by (intro keeps_seq recorded ahead keeps_delete_node keeps_rules) simp_all
  show "keeps_covered i (replace_dbc rn i res old (Some row) p)" if "map_of (rn_prior rn) i = Some row" "digests_total rn i"
  proof (cases "i \<in> rn_predeleted rn")
    case True
    then show ?thesis unfolding replace_dbc_def
      by simp (intro keeps_seq recorded keeps_pure, simp)
  next
    case False
    have "\<exists>d. ref_digests (rn_env rn) live (stype row) (sproperties row) = Inr d" for live
      using that by (simp add: digests_total_def)
    then show ?thesis using False unfolding replace_dbc_def
      by simp (intro keeps_seq recorded ahead keeps_await, simp_all)
  qed
qed

lemma aret_simps: "acatch (aret v) w = aret v" "abind (aret v) f = f v"
  by (simp_all add: acatch_def aret_def abind_def)

lemma keeps_apply_one:
  assumes "rn_rollback rn" and "digests_total rn i" and "caction ch = REPLACE \<longrightarrow> map_of (rn_prior rn) i \<noteq> None"
  shows "keeps_covered i (apply_one rn i ch)"
proof (cases "caction ch = NOOP")
  case True
  have "keeps_covered i (record_state_only rn i ch)" "keeps_covered i (record_collapsed rn i)"
    unfolding record_state_only_def record_collapsed_def rewrite_undoable_def plain_defs
    by (cases "map_of (rn_prior rn) i"; cases "cdesired ch"; simp; intro keeps_rules; simp)+
  then show ?thesis using True by (simp add: apply_one_def)
next
  case False
  have "keeps_covered i (replace_node rn i ch res p)" if c: "caction ch = REPLACE" for res p
  proof -
    obtain row where "map_of (rn_prior rn) i = Some row" using assms(3) c by auto
    then show ?thesis unfolding replace_node_def on_report_def
      by simp (intro keeps_seq keeps_bind keeps_aread keeps_if created_steps assms keeps_aupd, simp_all)
  qed
  then show ?thesis using False unfolding apply_one_def persist_def rewrite_row_def
    by (cases "caction ch"; simp; intro created_steps(1,2) [OF assms(1)] keeps_rules; simp)
qed

lemma keeps_apply_node:
  assumes "rn_rollback rn" and "map_of (rn_changes rn) i = Some ch"
    and "caction ch = REPLACE \<or> cconditional ch \<longrightarrow> map_of (rn_prior rn) i \<noteq> None" and "digests_total rn i"
  shows "keeps_covered i (apply_node rn i)"
proof (cases "map_of (rn_prior rn) i")
  case None
  have "keeps_covered i (apply_one rn i ch)" using assms None by (intro keeps_apply_one) auto
  then show ?thesis using assms None unfolding apply_node_def on_report_def
    by (simp add: aret_simps) (intro conjI impI keeps_rules, simp_all)
next
  case (Some row)
  then have "keeps_covered i (apply_one rn i v)" for v using assms by (intro keeps_apply_one) auto
  then show ?thesis unfolding apply_node_def on_report_def by (intro keeps_rules)
qed

text \<open>
  What a step created can be undone. In a run that rolls back on failure, when a node's step
  ends, in whatever way and whatever the other nodes did meanwhile, every resource a provider
  has told it was created has an undo on record that destroys it by its new outputs, and the
  undo is recorded before the step can fail. (For a replace, the row had to be a recorded one
  and the digests of its references computable.)
\<close>

lemma created_has_undo:
  assumes "traces only_adds (apply_node rn i c) t (Some (c', x))" and "rn_rollback rn"
    and "map_of (rn_changes rn) i = Some ch" and "caction ch = REPLACE \<or> cconditional ch \<longrightarrow> map_of (rn_prior rn) i \<noteq> None"
    and "digests_total rn i" and "(Create p res, Outputs outs, True) \<in> set t"
  shows "\<exists>u. (i, u) \<in> set (x_compensations c') \<and> undoes_create p (with_outputs res outs) i u"
proof -
  have "safe only_adds (\<lambda>_ _. True) (\<lambda>_ c' h'. covered i c' h') (apply_node rn i c) []"
    using keeps_apply_node [OF assms(2-5)] by (simp add: keeps_covered_def covered_def)
  from safe_traces [OF assms(1) this] assms(6) show ?thesis by (simp add: covered_def)
qed

subsection \<open>A replaced resource stays tracked\<close>

text \<open>As \<open>step_ok\<close>, with what holds of the history on return.\<close>

definition step_to :: "('c \<Rightarrow> 'c \<Rightarrow> bool) \<Rightarrow> (event list \<Rightarrow> call \<Rightarrow> bool) \<Rightarrow> (event list \<Rightarrow> bool) \<Rightarrow> ('c, 'a) act \<Rightarrow> (event list \<Rightarrow> bool) \<Rightarrow> bool" where
  "step_to R I K act K' \<longleftrightarrow> (\<forall>c h. K h \<longrightarrow> safe R I (\<lambda>x _ h'. \<forall>v. x = Returned v \<longrightarrow> K' h') (act c) h)"

lemma step_to_ok: "step_to R I K act K' \<Longrightarrow> step_ok R I K act"
  unfolding step_to_def step_ok_def by (blast intro: safe_mono)

lemma step_to_bind: "step_to R I K m K1 \<Longrightarrow> (\<And>v. step_to R I K1 (f v) K') \<Longrightarrow> step_to R I K (abind m f) K'"
  unfolding step_to_def safe_abind
  by (intro allI impI, rule safe_mono, blast) (auto split: outcome.splits)

lemma step_to_seq: "step_to R I K m K1 \<Longrightarrow> step_to R I K1 n K' \<Longrightarrow> step_to R I K (aseq m n) K'"
  unfolding aseq_def by (rule step_to_bind)

lemma step_to_pure: "step_to R I K (aupd g) K" "step_to R I K (aret v) K" "step_to R I K (araise e) K'"
  by (simp_all add: step_to_def vcg)

lemma step_to_if: "step_to R I K m K' \<Longrightarrow> step_to R I K n K' \<Longrightarrow> step_to R I K (if b then m else n) K'"
  by simp

lemma step_to_aget: "step_to R I K (aget w) K"
  by (simp add: step_to_def vcg)

lemma step_to_aread: "step_to R I K (aread f) K" "step_to R I K (alift r) K"
  by (auto simp: step_to_def vcg safe_alift split: sum.splits)

lemma step_to_catch: "step_to R I K m K' \<Longrightarrow> step_to R I K (acatch m (\<lambda>e. araise (g e))) K'"
  unfolding step_to_def safe_acatch
  by (intro allI impI, rule safe_mono, blast) (auto simp: vcg split: outcome.splits)

lemma step_to_put: "(\<And>h. K h \<Longrightarrow> I h (PutRow s)) \<Longrightarrow> (\<And>h. K h \<Longrightarrow> K' (h @ [(PutRow s, Ok, True)])) \<Longrightarrow>
    step_to R I K (await_ok (PutRow s)) K'"
  by (simp add: step_to_def vcg)

definition is_create :: "call \<Rightarrow> bool" where
  "is_create q = (case q of Create p r \<Rightarrow> True | _ \<Rightarrow> False)"

lemma is_create_simps [simp]:
  "is_create (Create p r)" "\<not> is_create (PutRow s)" "\<not> is_create (ForgetRow j)" "\<not> is_create (Destroy p r)"
  "\<not> is_create (Update p os r)" "\<not> is_create LoadRows"
  by (simp_all add: is_create_def)

definition quiet :: "event list \<Rightarrow> bool" where
  "quiet h \<longleftrightarrow> (\<forall>ev \<in> set h. \<not> is_create (fst ev))"

definition old_kept :: "row_map \<Rightarrow> node_id \<Rightarrow> state_node \<Rightarrow> event list \<Rightarrow> bool" where
  "old_kept m i row h \<longleftrightarrow> rows_after h m (cbd_companion_id i) = Some (row\<lparr>sid := cbd_companion_id i\<rparr>)"

text \<open>From the create on, the old row is there under the companion id.\<close>

definition keeps_old :: "row_map \<Rightarrow> node_id \<Rightarrow> state_node \<Rightarrow> event list \<Rightarrow> call \<Rightarrow> bool" where
  "keeps_old m i row h q \<longleftrightarrow> (is_create q \<or> \<not> quiet h \<longrightarrow> old_kept m i row h)"

lemma quiet_step:
  assumes "step_ok R (\<lambda>_ q. \<not> is_create q) anywhen act"
  shows "step_to R (keeps_old m i row) quiet act quiet"
  unfolding step_to_def
proof (intro allI impI)
  fix c h assume "quiet h"
  then have "safe R (\<lambda>h q. \<not> is_create q \<and> (\<forall>ev \<in> set h. \<not> is_create (fst ev)))
      (\<lambda>x c h. True \<and> (\<forall>ev \<in> set h. \<not> is_create (fst ev))) (act c) h"
    using assms by (intro safe_calls) (simp_all add: step_ok_def quiet_def)
  then show "safe R (keeps_old m i row) (\<lambda>x _ h'. \<forall>v. x = Returned v \<longrightarrow> quiet h') (act c) h"
    by (rule safe_mono [OF safe_allow]) (auto simp: keeps_old_def quiet_def)
qed

lemma row_written:
  "step_to R (keeps_old m i row) (old_kept m i row) (abind (aread (\<lambda>c. node_row rn (live c) i res outs st)) rewrite_row) (old_kept m i row)"
  by (auto simp: step_to_def vcg safe_alift rewrite_row_def keeps_old_def old_kept_def dest!: node_row_fields split: sum.splits)

lemma cbd_keeps_old:
  "step_to R (keeps_old m i row) quiet (replace_cbd rn i res old row p) (old_kept m i row)"
proof -
  have del: "step_to R (keeps_old m i row) quiet (delete_node rn j) quiet" for j
    by (rule quiet_step) (rule delete_node_ok; simp)
  have first: "step_to R (keeps_old m i row) quiet (abind (aget (\<lambda>c. cbd_companion_id i \<in> x_delete_ids c)) (\<lambda>planned.
      if planned then delete_node rn (cbd_companion_id i)
      else if map_of (rn_prior rn) (cbd_companion_id i) \<noteq> None \<and> cbd_companion_id i \<notin> rn_predeleted rn
      then araise e else aret ())) quiet" for e
    by (intro step_to_bind [OF step_to_aget] step_to_if del step_to_pure)
  have copy: "step_to R (keeps_old m i row) quiet (rewrite_row (row\<lparr>sid := cbd_companion_id i\<rparr>)) (old_kept m i row)"
    unfolding rewrite_row_def by (rule step_to_put) (auto simp: keeps_old_def old_kept_def)
  have make: "step_to R (keeps_old m i row) (old_kept m i row) (await_outputs (Create p res)) (old_kept m i row)"
    by (auto simp: step_to_def vcg keeps_old_def old_kept_def)
  show ?thesis
    unfolding replace_cbd_def Let_def write_ahead_def set_live_def record_undo_def
    by (intro step_to_seq [OF first] step_to_seq [OF copy] step_to_seq [OF row_written] step_to_bind [OF make]
        step_to_seq [OF step_to_pure(1)] step_to_pure(1))
qed

lemma confirmed_result: "confirm_replace rn live i ch = Inr v \<Longrightarrow> v = ch \<or> caction v = UPDATE \<or> caction v = NOOP"
  by (auto simp: confirm_replace_def reclassify_def Let_def rbind_Inr_iff split: option.splits if_splits)

lemma replaced_spec:
  assumes "map_of (rn_changes rn) i = Some ch" and "caction ch = REPLACE" and "ccbd ch" and row: "map_of (rn_prior rn) i = Some row"
  shows "step_ok R (keeps_old m i row) quiet (apply_node rn i)"
proof -
  let ?I = "keeps_old m i row"
  have replace: "step_ok R ?I quiet (apply_one rn i v)" if v: "caction v = REPLACE" "ccbd v" for v
  proof -
    have "step_to R ?I quiet (replace_node rn i v res p) (old_kept m i row)" for res p
      unfolding replace_node_def on_report_def using row v
      by simp (intro step_to_seq [OF step_to_bind [OF step_to_aread(1) cbd_keeps_old]] step_to_pure)
    then have "step_to R ?I quiet (aseq (replace_node rn i v res p)
        (abind (aread (\<lambda>c. lookup (x_live c) i i)) (persist rn i res))) (old_kept m i row)" for res p
      unfolding persist_def by (rule step_to_seq) (rule step_to_bind [OF step_to_aread(1) row_written])
    then show ?thesis using v unfolding apply_one_def
      by simp (intro step_to_ok step_to_bind [OF step_to_aread(1)] step_to_bind [OF step_to_aread(2)])
  qed
  have others: "step_ok R ?I quiet (apply_one rn i v)" if "caction v = UPDATE \<or> caction v = NOOP" for v
  proof -
    have "step_ok R (\<lambda>_ q. \<not> is_create q) anywhen (record_state_only rn i v)"
      "step_ok R (\<lambda>_ q. \<not> is_create q) anywhen (record_collapsed rn i)" for v
      unfolding record_state_only_def record_collapsed_def rewrite_undoable_def plain_defs
      by (cases "map_of (rn_prior rn) i"; cases "cdesired v"; simp; intro step_rules; simp)+
    moreover have "step_ok R (\<lambda>_ q. \<not> is_create q) anywhen (update_node rn i res p)" for res p
      unfolding update_node_def plain_defs by (intro step_rules) simp_all
    ultimately have "step_ok R (\<lambda>_ q. \<not> is_create q) anywhen (apply_one rn i v)"
      using that unfolding apply_one_def persist_def rewrite_row_def by (auto; intro step_rules; simp)
    then show ?thesis by (rule step_to_ok [OF quiet_step])
  qed
  have rest: "step_ok R ?I quiet (aseq (acatch (apply_one rn i v) (\<lambda>e. araise (failed_node i (action_str (caction v)) e)))
      (if caction v \<noteq> caction ch then on_report f else aret ()))" if "v = ch \<or> caction v = UPDATE \<or> caction v = NOOP" for v f
  proof -
    have "step_ok R ?I quiet (apply_one rn i v)" using that replace others assms(2,3) by blast
    then show ?thesis unfolding on_report_def by (intro step_rules)
  qed
  show ?thesis
    unfolding step_ok_def
  proof (intro allI impI)
    fix c h assume h: "quiet h"
    show "safe R ?I (\<lambda>_ _ _. True) (apply_node rn i c) h"
    proof (cases "cconditional ch \<and> i \<notin> rn_predeleted rn")
      case True
      show ?thesis
      proof (cases "confirm_replace rn (x_live c) i ch")
        case (Inl e)
        then show ?thesis using assms True by (simp add: apply_node_def vcg safe_alift)
      next
        case (Inr v)
        from rest [OF confirmed_result [OF Inr]] Inr True h show ?thesis using assms
          by (simp add: apply_node_def safe_abind safe_acatch safe_aread safe_alift step_ok_def)
      qed
    next
      case False
      then show ?thesis using rest [of ch] assms h
        by (simp add: apply_node_def if_not_P [OF False] aret_simps step_ok_def)
    qed
  qed
qed

text \<open>
  C4: a create-before-destroy replace never loses the resource it replaces. From the moment the
  replacement is asked of the provider to the end of the node's step, at every call the store
  holds the old resource's row, outputs and all, under the companion id, so a run that dies
  there leaves both resources tracked.
\<close>

theorem replaced_stays_tracked:
  assumes "traces R (apply_node rn i c) t r" and "map_of (rn_changes rn) i = Some ch" and "caction ch = REPLACE" and "ccbd ch"
    and "map_of (rn_prior rn) i = Some row" and "k \<le> j" and "j < length t" and "fst (t ! k) = Create p res"
  shows "rows_after (take j t) m (cbd_companion_id i) = Some (row\<lparr>sid := cbd_companion_id i\<rparr>)"
proof -
  have "safe R (keeps_old m i row) (\<lambda>_ _ _. True) (apply_node rn i c) []"
    using replaced_spec [OF assms(2-5), of R m] by (simp add: step_ok_def quiet_def)
  from safe_traces [OF assms(1) this] have k: "keeps_old m i row (take j t) (fst (t ! j))" using assms(7) by simp
  show ?thesis
  proof (cases "k = j")
    case True
    then show ?thesis using k assms(8) by (simp add: keeps_old_def old_kept_def)
  next
    case False
    then have "take j t ! k = t ! k" "k < length (take j t)" using assms(6,7) by simp_all
    then have "t ! k \<in> set (take j t)" by (metis nth_mem)
    then have "\<not> quiet (take j t)" using assms(8) by (force simp: quiet_def)
    then show ?thesis using k by (simp add: keeps_old_def old_kept_def)
  qed
qed

end
