(* ===== verification/ExecOutputs.thy ===== *)
theory ExecOutputs
  imports ExecContext MemoryBackend
begin

text \<open>
  Committing a run's declared outputs (\<open>executor/outputs.py\<close>) on the memory backend: what is
  resolved, what is pruned, what is sealed, and that nothing else changes.
\<close>

text \<open>A declaration whose value refers to what the run does not know yet is skipped.\<close>

definition is_key_error :: "aerror \<Rightarrow> bool" where
  "is_key_error e = (case e of KeyError k \<Rightarrow> True | _ \<Rightarrow> False)"

fun resolved_outputs :: "apply_env \<Rightarrow> live_outputs \<Rightarrow> props \<Rightarrow> (aerror, props) result" where
  "resolved_outputs env live [] = Inr []"
| "resolved_outputs env live ((n, v) # ds) =
     (case resolve_value (ae_py env) (ae_format env) live True v of
        Inl e \<Rightarrow> if is_key_error e then resolved_outputs env live ds else Inl e
      | Inr w \<Rightarrow> rbind (resolved_outputs env live ds) (\<lambda>ws. Inr ((n, w) # ws)))"

definition persistable_outputs :: "apply_report \<Rightarrow> secrets_api \<Rightarrow> (aerror, props) result" where
  "persistable_outputs r secrets = rmap (\<lambda>(n, v). case v of
       PStr s \<Rightarrow> if n \<in> set (rp_sensitive_outputs r) then rbind (api_seal secrets s) (\<lambda>w. Inr (n, w)) else Inr (n, v)
     | _ \<Rightarrow> Inr (n, v)) (rp_outputs r)"

definition retired_outputs :: "desired \<Rightarrow> state_graph \<Rightarrow> apply_report \<Rightarrow> memory \<Rightarrow> string list" where
  "retired_outputs want prior r b = (let
       mine = stack_of ` (fst ` set (ds_resources want) \<union> fst ` set prior);
       declared = fst ` set (rp_outputs r) \<union> fst ` set (ds_outputs want)
     in sort (filter (\<lambda>k. stack_of k \<in> mine \<and> k \<notin> declared) (map fst (moutputs b))))"

definition commit_outputs ::
  "desired \<Rightarrow> apply_env \<Rightarrow> live_outputs \<Rightarrow> state_graph \<Rightarrow> apply_report \<Rightarrow> memory \<Rightarrow> (aerror, apply_report \<times> memory) result" where
  "commit_outputs want env live prior r b =
     rbind (resolved_outputs env live (ds_outputs want)) (\<lambda>outs.
     rbind (sensitive_output_names env (ds_outputs want)) (\<lambda>sens.
       let r' = r\<lparr>rp_outputs := outs, rp_sensitive_outputs := sens\<rparr> in
       rbind (persistable_outputs r' (ae_secrets env)) (\<lambda>stored.
         Inr (r', mem_set_outputs stored (retired_outputs want prior r' b) b))))"

subsection \<open>What is committed\<close>

lemma resolved_Cons:
  "resolved_outputs env live ((n, v) # ds) = Inr ws \<longleftrightarrow>
    (case resolve_value (ae_py env) (ae_format env) live True v of
       Inl e \<Rightarrow> is_key_error e \<and> resolved_outputs env live ds = Inr ws
     | Inr w \<Rightarrow> \<exists>us. resolved_outputs env live ds = Inr us \<and> ws = (n, w) # us)"
  by (auto simp: rbind_Inr_iff split: sum.splits)

lemma resolved_keys: "resolved_outputs env live ds = Inr ws \<Longrightarrow> fst ` set ws \<subseteq> fst ` set ds"
proof (induction ds arbitrary: ws)
  case (Cons d ds)
  obtain n v where d: "d = (n, v)" by (cases d)
  show ?case
  proof (cases "resolve_value (ae_py env) (ae_format env) live True v")
    case (Inl e)
    then have "resolved_outputs env live ds = Inr ws" using Cons.prems unfolding d resolved_Cons by simp
    from Cons.IH [OF this] show ?thesis using d by auto
  next
    case (Inr w)
    then obtain us where "resolved_outputs env live ds = Inr us" "ws = (n, w) # us"
      using Cons.prems unfolding d resolved_Cons by auto
    with Cons.IH show ?thesis using d by auto
  qed
qed simp

lemma resolved_distinct: "resolved_outputs env live ds = Inr ws \<Longrightarrow> wf_dict ds \<Longrightarrow> wf_dict ws"
proof (induction ds arbitrary: ws)
  case (Cons d ds)
  obtain n v where d: "d = (n, v)" by (cases d)
  have "n \<notin> fst ` set us" if "resolved_outputs env live ds = Inr us" for us
    using resolved_keys [OF that] Cons.prems(2) d by auto
  then show ?case using Cons d by (auto simp: resolved_Cons simp del: resolved_outputs.simps split: sum.splits)
qed simp

lemma resolved_lookup:
  "resolved_outputs env live ds = Inr ws \<Longrightarrow> wf_dict ds \<Longrightarrow> map_of ds n = Some v \<Longrightarrow>
    map_of ws n = (case resolve_value (ae_py env) (ae_format env) live True v of Inr w \<Rightarrow> Some w | Inl e \<Rightarrow> None)"
proof (induction ds arbitrary: ws)
  case (Cons d ds)
  obtain m u where d: "d = (m, u)" by (cases d)
  have absent: "map_of us m = None" if "resolved_outputs env live ds = Inr us" for us
    using resolved_keys [OF that] Cons.prems(2) d by (auto simp: map_of_eq_None_iff)
  show ?case
  proof (cases "n = m")
    case True
    then show ?thesis using Cons.prems absent d
      by (auto simp: resolved_Cons simp del: resolved_outputs.simps split: sum.splits)
  next
    case False
    then show ?thesis using Cons d
      by (auto simp: resolved_Cons simp del: resolved_outputs.simps split: sum.splits)
  qed
qed simp

definition stored_as :: "secrets_api \<Rightarrow> bool \<Rightarrow> pyval \<Rightarrow> pyval \<Rightarrow> bool" where
  "stored_as secrets hide v w = (case v of PStr s \<Rightarrow> if hide then api_seal secrets s = Inr w else w = v | _ \<Rightarrow> w = v)"

lemma persistable_lookup:
  assumes "persistable_outputs r secrets = Inr ws"
  shows "map fst ws = map fst (rp_outputs r)"
    and "rel_option (stored_as secrets (n \<in> set (rp_sensitive_outputs r))) (map_of (rp_outputs r) n) (map_of ws n)"
proof -
  have step: "fst kw = fst kv \<and> stored_as secrets (fst kv \<in> set (rp_sensitive_outputs r)) (snd kv) (snd kw)"
    if "(case kv of (n, v) \<Rightarrow> case v of PStr s \<Rightarrow> if n \<in> set (rp_sensitive_outputs r) then rbind (api_seal secrets s) (\<lambda>w. Inr (n, w))
      else Inr (n, v) | _ \<Rightarrow> Inr (n, v)) = Inr kw" for kv kw
    using that by (auto simp: stored_as_def rbind_Inr_iff split: prod.splits pyval.splits if_splits)
  have all: "list_all2 (\<lambda>kv kw. fst kw = fst kv \<and> stored_as secrets (fst kv \<in> set (rp_sensitive_outputs r)) (snd kv) (snd kw))
      (rp_outputs r) ws"
    using assms unfolding persistable_outputs_def rmap_Inr_iff by (auto simp: list_all2_conv_all_nth intro!: step)
  then show "map fst ws = map fst (rp_outputs r)" by (induction rule: list_all2_induct) auto
  from all show "rel_option (stored_as secrets (n \<in> set (rp_sensitive_outputs r))) (map_of (rp_outputs r) n) (map_of ws n)"
    by (induction rule: list_all2_induct) (auto simp: map_of_Cons_code)
qed

lemma map_of_merge:
  assumes "wf_dict outs"
  shows "map_of (merge_outputs cur outs remove) k =
    (case map_of outs k of Some v \<Rightarrow> Some v | None \<Rightarrow> if k \<in> set remove then None else map_of cur k)"
proof -
  have "map_of (fold (\<lambda>(k, v) m. AList.update k v m) outs m) k = (case map_of outs k of Some v \<Rightarrow> Some v | None \<Rightarrow> map_of m k)" for m
    using map_of_fold_update [of fst snd outs m] assms
    by (simp add: map_of_rev_distinct case_prod_beta' map_add_def split: option.splits)
  moreover have "map_of (filter (\<lambda>kv. fst kv \<notin> set remove) cur) k = (if k \<in> set remove then None else map_of cur k)"
    by (induction cur) auto
  ultimately show ?thesis
    by (simp add: merge_outputs_def split: option.splits)
qed

text \<open>
  Committing outputs stays within the run's own stacks. After a commit, a declared output
  whose value could be resolved is stored as that value (sealed, when it is a sensitive string);
  one that could not be resolved keeps the value committed before; a key of one of the run's
  stacks that is no longer declared is gone; every other stack's outputs, and all rows and
  holds, are as they were.
\<close>

lemma commit_outputs_scoped:
  assumes "commit_outputs want env live prior r b = Inr (r', b')" and "wf_dict (ds_outputs want)"
  shows "b' = b\<lparr>moutputs := moutputs b'\<rparr> \<and>
    (\<forall>k. case map_of (ds_outputs want) k of
        Some v \<Rightarrow> (case resolve_value (ae_py env) (ae_format env) live True v of
            Inr w \<Rightarrow> (\<exists>x. map_of (moutputs b') k = Some x \<and> stored_as (ae_secrets env) (k \<in> set (rp_sensitive_outputs r')) w x)
          | Inl e \<Rightarrow> map_of (moutputs b') k = map_of (moutputs b) k)
      | None \<Rightarrow> map_of (moutputs b') k =
          (if stack_of k \<in> stack_of ` (fst ` set (ds_resources want) \<union> fst ` set prior) then None else map_of (moutputs b) k))"
proof -
  obtain outs sens stored where o: "resolved_outputs env live (ds_outputs want) = Inr outs"
    and r': "r' = r\<lparr>rp_outputs := outs, rp_sensitive_outputs := sens\<rparr>"
    and st: "persistable_outputs r' (ae_secrets env) = Inr stored"
    and b': "b' = mem_set_outputs stored (retired_outputs want prior r' b) b"
    using assms(1) by (auto simp: commit_outputs_def rbind_Inr_iff Let_def)
  have keys: "map fst stored = map fst outs" using persistable_lookup(1) [OF st] r' by simp
  have wf: "wf_dict stored" using resolved_distinct [OF o assms(2)] keys by simp
  have sub: "fst ` set outs \<subseteq> fst ` set (ds_outputs want)" by (rule resolved_keys [OF o])
  have rem: "k \<in> set (retired_outputs want prior r' b) \<longleftrightarrow> stack_of k \<in> stack_of ` (fst ` set (ds_resources want) \<union> fst ` set prior) \<and>
      k \<notin> fst ` set (ds_outputs want) \<and> k \<in> fst ` set (moutputs b)" for k
    using sub r' by (auto simp: retired_outputs_def Let_def)
  have new: "map_of (moutputs b') k = (case map_of stored k of Some v \<Rightarrow> Some v
      | None \<Rightarrow> if k \<in> set (retired_outputs want prior r' b) then None else map_of (moutputs b) k)" for k
    by (simp add: b' mem_set_outputs_def map_of_merge [OF wf])
  have hit: "rel_option (stored_as (ae_secrets env) (k \<in> set (rp_sensitive_outputs r'))) (map_of outs k) (map_of stored k)" for k
    using persistable_lookup(2) [OF st, of k] r' by simp
  have "case map_of (ds_outputs want) k of
        Some v \<Rightarrow> (case resolve_value (ae_py env) (ae_format env) live True v of
            Inr w \<Rightarrow> (\<exists>x. map_of (moutputs b') k = Some x \<and> stored_as (ae_secrets env) (k \<in> set (rp_sensitive_outputs r')) w x)
          | Inl e \<Rightarrow> map_of (moutputs b') k = map_of (moutputs b) k)
      | None \<Rightarrow> map_of (moutputs b') k =
          (if stack_of k \<in> stack_of ` (fst ` set (ds_resources want) \<union> fst ` set prior) then None else map_of (moutputs b) k)" for k
  proof (cases "map_of (ds_outputs want) k")
    case None
    then have k: "k \<notin> fst ` set (ds_outputs want)" by (simp add: map_of_eq_None_iff)
    then have absent: "map_of stored k = None" using sub keys by (metis (no_types) image_set map_of_eq_None_iff subsetD)
    have "k \<notin> fst ` set (moutputs b) \<Longrightarrow> map_of (moutputs b) k = None" by (simp add: map_of_eq_None_iff)
    then show ?thesis unfolding None option.case new absent rem using k by simp
  next
    case (Some v)
    then have kept: "k \<notin> set (retired_outputs want prior r' b)" by (force simp: rem dest: map_of_SomeD)
    show ?thesis
    proof (cases "resolve_value (ae_py env) (ae_format env) live True v")
      case (Inl e)
      then have "map_of outs k = None" using resolved_lookup [OF o assms(2) Some] by simp
      then have "map_of stored k = None" using hit [of k] by simp
      then show ?thesis unfolding Some Inl option.case sum.case new using kept by simp
    next
      case (Inr w)
      then have "map_of outs k = Some w" using resolved_lookup [OF o assms(2) Some] by simp
      then obtain x where "map_of stored k = Some x" "stored_as (ae_secrets env) (k \<in> set (rp_sensitive_outputs r')) w x"
        using hit [of k] by (auto simp: option_rel_Some1)
      then show ?thesis unfolding Some Inr option.case sum.case new by simp
    qed
  qed
  moreover have "b' = b\<lparr>moutputs := moutputs b'\<rparr>" by (simp add: b' mem_set_outputs_def)
  ultimately show ?thesis by blast
qed

end
