(* ===== verification/ExecRun.thy ===== *)
theory ExecRun
  imports ExecRecovery Schedule
begin

text \<open>
  A phase of a run: \<open>run_graph\<close> over the steps of \<open>ExecSteps\<close>, all of them interleaved at their
  awaits (\<open>graph/schedule.py\<close> with the coroutines as its work). A phase is a run of the scheduler
  of \<open>Schedule\<close>, and what each node does in it is a trace of its step, so what holds of every
  trace of a step holds in every interleaving.
\<close>

subsection \<open>Interleaving\<close>

text \<open>
  A node's task waits for its turn, is suspended at a call, has finished, has raised, or was
  cancelled before it began. A first failure or a cancellation of the run cancels the tasks that
  wait; one suspended at a call sees the cancellation there.
\<close>

datatype 'c stage = Waiting | Suspended "('c, unit) prog" | Finished | Stopped exn | Dropped

record 'c phase =
  ph_ctx :: 'c
  ph_at :: "node_id \<Rightarrow> 'c stage"
  ph_done :: "node_id list"
  ph_failed :: "exn list"
  ph_cancelled :: bool

definition drop_waiting :: "(node_id \<Rightarrow> 'c stage) \<Rightarrow> node_id \<Rightarrow> 'c stage" where
  "drop_waiting st n = (if st n = Waiting then Dropped else st n)"

definition settle :: "node_id \<Rightarrow> ('c, unit) prog \<Rightarrow> 'c phase \<Rightarrow> 'c phase" where
  "settle n p s = (case p of
      Done v c \<Rightarrow> s\<lparr>ph_ctx := c, ph_at := (ph_at s)(n := Finished), ph_done := ph_done s @ [n]\<rparr>
    | Raise e c \<Rightarrow> s\<lparr>ph_ctx := c, ph_at := drop_waiting ((ph_at s)(n := Stopped e)), ph_failed := ph_failed s @ [e]\<rparr>
    | Ask q c k \<Rightarrow> s\<lparr>ph_ctx := c, ph_at := (ph_at s)(n := Suspended p)\<rparr>)"

definition phase_start :: "digraph \<Rightarrow> 'c \<Rightarrow> 'c phase" where
  "phase_start g c = \<lparr>ph_ctx = c, ph_at = (\<lambda>n. if n \<in> set (node_ids g) then Waiting else Dropped), ph_done = [],
     ph_failed = [], ph_cancelled = False\<rparr>"

definition suspended :: "'c phase \<Rightarrow> node_id set" where
  "suspended s = {n. \<exists>p. ph_at s n = Suspended p}"

inductive phase_run ::
  "digraph \<Rightarrow> bool \<Rightarrow> int \<Rightarrow> (node_id \<Rightarrow> ('c, unit) act) \<Rightarrow> 'c \<Rightarrow> (node_id \<times> event) list \<Rightarrow> 'c phase \<Rightarrow> bool"
  for g reverse parallelism work c where
  opened: "1 \<le> parallelism \<Longrightarrow> phase_run g reverse parallelism work c [] (phase_start g c)"
| began: "phase_run g reverse parallelism work c t s \<Longrightarrow> ph_at s n = Waiting \<Longrightarrow> needs g reverse n \<subseteq> set (ph_done s) \<Longrightarrow>
    int (card (suspended s)) < parallelism \<Longrightarrow>
    phase_run g reverse parallelism work c t (settle n (work n (ph_ctx s)) s)"
| resumed: "phase_run g reverse parallelism work c t s \<Longrightarrow> ph_at s n = Suspended (Ask q d k) \<Longrightarrow> event_ok (q, a, landed) \<Longrightarrow>
    (a = Err Cancelled \<Longrightarrow> ph_failed s \<noteq> [] \<or> ph_cancelled s) \<Longrightarrow>
    phase_run g reverse parallelism work c (t @ [(n, (q, a, landed))]) (settle n (k a (ph_ctx s)) s)"
| cancelled: "phase_run g reverse parallelism work c t s \<Longrightarrow>
    phase_run g reverse parallelism work c t (s\<lparr>ph_at := drop_waiting (ph_at s), ph_cancelled := True\<rparr>)"

text \<open>How a phase ends: the group of what its tasks raised, or the cancellation.\<close>

definition phase_over :: "'c phase \<Rightarrow> bool" where
  "phase_over s \<longleftrightarrow> (\<forall>n. ph_at s n \<noteq> Waiting \<and> n \<notin> suspended s)"

definition phase_exn :: "'c phase \<Rightarrow> exn option" where
  "phase_exn s = (case filter (\<lambda>e. e \<noteq> Cancelled) (ph_failed s) of
      e # es \<Rightarrow> Some (Group (e # es))
    | [] \<Rightarrow> if ph_cancelled s then Some Cancelled else None)"

subsection \<open>A phase is a run of the scheduler\<close>

definition begun :: "'c phase \<Rightarrow> node_id \<Rightarrow> bool" where
  "begun s n \<longleftrightarrow> ph_at s n \<noteq> Waiting \<and> ph_at s n \<noteq> Dropped"

definition phase_ok :: "digraph \<Rightarrow> bool \<Rightarrow> int \<Rightarrow> 'c phase \<Rightarrow> bool" where
  "phase_ok g reverse parallelism s \<longleftrightarrow>
     1 \<le> parallelism \<and> finite (suspended s) \<and> int (card (suspended s)) \<le> parallelism \<and>
     (\<forall>n p. ph_at s n = Suspended p \<longrightarrow> (\<exists>q d k. p = Ask q d k)) \<and>
     distinct (ph_done s) \<and> (\<forall>n. n \<in> set (ph_done s) \<longleftrightarrow> ph_at s n = Finished) \<and>
     (\<forall>n. ph_at s n \<noteq> Dropped \<longrightarrow> n \<in> set (node_ids g)) \<and>
     (ph_failed s = [] \<and> \<not> ph_cancelled s \<longrightarrow> (\<forall>n \<in> set (node_ids g). ph_at s n \<noteq> Dropped \<and> (\<forall>e. ph_at s n \<noteq> Stopped e))) \<and>
     (ph_failed s \<noteq> [] \<or> ph_cancelled s \<longrightarrow> (\<forall>n. ph_at s n \<noteq> Waiting)) \<and>
     (\<forall>n. begun s n \<longrightarrow> needs g reverse n \<subseteq> set (ph_done s))"

lemma phase_ok_start: "1 \<le> parallelism \<Longrightarrow> phase_ok g reverse parallelism (phase_start g c)"
  by (simp add: phase_ok_def phase_start_def begun_def suspended_def)

lemma drop_waiting_simps [simp]:
  "drop_waiting st n \<noteq> Waiting" "Waiting \<noteq> drop_waiting st n" "drop_waiting st n = Finished \<longleftrightarrow> st n = Finished" "drop_waiting st n = Suspended p \<longleftrightarrow> st n = Suspended p"
  "drop_waiting st n = Stopped e \<longleftrightarrow> st n = Stopped e" "drop_waiting st n = Dropped \<longleftrightarrow> st n = Waiting \<or> st n = Dropped"
  by (auto simp: drop_waiting_def)

lemma suspended_settle:
  "suspended (settle n p s) = (case p of Ask q d k \<Rightarrow> insert n (suspended s) | _ \<Rightarrow> suspended s - {n})"
  by (auto simp: settle_def suspended_def split: prog.splits)

lemma begun_settle: "begun (settle n p s) m \<longleftrightarrow> m = n \<or> begun s m"
  by (auto simp: settle_def begun_def split: prog.splits)

lemma phase_okD:
  assumes "phase_ok g reverse parallelism s"
  shows "1 \<le> parallelism" and "finite (suspended s)" and "int (card (suspended s)) \<le> parallelism"
    and "ph_at s n = Suspended p \<Longrightarrow> \<exists>q d k. p = Ask q d k" and "distinct (ph_done s)"
    and "n \<in> set (ph_done s) \<longleftrightarrow> ph_at s n = Finished" and "ph_at s n \<noteq> Dropped \<Longrightarrow> n \<in> set (node_ids g)"
    and "ph_failed s = [] \<Longrightarrow> \<not> ph_cancelled s \<Longrightarrow> n \<in> set (node_ids g) \<Longrightarrow> ph_at s n \<noteq> Dropped \<and> (\<forall>e. ph_at s n \<noteq> Stopped e)"
    and "ph_failed s \<noteq> [] \<or> ph_cancelled s \<Longrightarrow> ph_at s n \<noteq> Waiting" and "begun s n \<Longrightarrow> needs g reverse n \<subseteq> set (ph_done s)"
  using assms by (simp_all add: phase_ok_def)

lemma settle_ok:
  assumes ok: "phase_ok g reverse parallelism s" and "needs g reverse n \<subseteq> set (ph_done s)"
    and "int (card (insert n (suspended s))) \<le> parallelism" and n: "ph_at s n \<noteq> Finished" "ph_at s n \<noteq> Dropped"
  shows "phase_ok g reverse parallelism (settle n p s)"
  unfolding phase_ok_def
proof (intro conjI allI impI ballI)
  let ?s = "settle n p s"
  note D = phase_okD [OF ok]
  have c: "card (suspended s - {n}) \<le> card (suspended s)" using D(2) by (intro card_mono) auto
  show "1 \<le> parallelism" by (rule D)
  show "finite (suspended ?s)" using D(2) by (simp add: suspended_settle split: prog.splits)
  show "int (card (suspended ?s)) \<le> parallelism" using c D(3) assms(3) by (auto simp: suspended_settle split: prog.splits)
  show "\<exists>q d k. p' = Ask q d k" if "ph_at ?s m = Suspended p'" for m p'
    using that D(4) [of m p'] by (auto simp: settle_def split: prog.splits if_splits)
  show "distinct (ph_done ?s)" using D(5,6) n by (auto simp: settle_def split: prog.splits)
  show "(m \<in> set (ph_done ?s)) = (ph_at ?s m = Finished)" for m
    using D(6) [of m] n by (auto simp: settle_def split: prog.splits if_splits)
  show "m \<in> set (node_ids g)" if "ph_at ?s m \<noteq> Dropped" for m
    using that D(7) [of m] n by (auto simp: settle_def split: prog.splits if_splits)
  show "ph_at ?s m \<noteq> Dropped" "ph_at ?s m \<noteq> Stopped e" if "ph_failed ?s = [] \<and> \<not> ph_cancelled ?s" "m \<in> set (node_ids g)" for m e
    using that D(8) [of m] n by (auto simp: settle_def split: prog.splits if_splits)
  show "ph_at ?s m \<noteq> Waiting" if "ph_failed ?s \<noteq> [] \<or> ph_cancelled ?s" for m
    using that D(9) [of m] n by (auto simp: settle_def split: prog.splits if_splits)
  show "needs g reverse m \<subseteq> set (ph_done ?s)" if "begun ?s m" for m
  proof -
    have "set (ph_done s) \<subseteq> set (ph_done ?s)" by (auto simp: settle_def split: prog.splits)
    moreover have "needs g reverse m \<subseteq> set (ph_done s)" using that D(10) [of m] assms(2) by (auto simp: begun_settle)
    ultimately show ?thesis by blast
  qed
qed

lemma phase_run_ok: "phase_run g reverse parallelism work c t s \<Longrightarrow> phase_ok g reverse parallelism s"
proof (induction rule: phase_run.induct)
  case opened
  then show ?case by (rule phase_ok_start)
next
  case (began t s n)
  then show ?case by (intro settle_ok) (auto simp: card_insert_if phase_okD(2))
next
  case (resumed t s n q d k a landed)
  note D = phase_okD [OF resumed.IH]
  have "n \<in> suspended s" "begun s n" using resumed by (simp_all add: suspended_def begun_def)
  then show ?case using resumed D(3,10) by (intro settle_ok) (auto simp: insert_absorb)
next
  case (cancelled t s)
  note D = phase_okD [OF cancelled.IH]
  have "suspended (s\<lparr>ph_at := drop_waiting (ph_at s), ph_cancelled := True\<rparr>) = suspended s" by (simp add: suspended_def)
  then show ?case
    using D unfolding phase_ok_def by (auto simp: begun_def)
qed

text \<open>The scheduler's state of a phase none of whose nodes has failed.\<close>

definition sched_of :: "'c phase \<Rightarrow> unit sched" where
  "sched_of s = \<lparr>waiting = {n. ph_at s n = Waiting}, running = suspended s, results = map (\<lambda>n. (n, ())) (ph_done s), raised = None\<rparr>"

abbreviation any_work :: "node_id \<Rightarrow> (aerror, unit) result \<Rightarrow> bool" where
  "any_work \<equiv> \<lambda>_ _. True"

lemma update_new: "n \<notin> fst ` set m \<Longrightarrow> AList.update n v m = m @ [(n, v)]"
  by (induction m) auto

text \<open>A task that comes back is, to the scheduler, nothing (it awaits again) or a finish.\<close>

lemma sched_settle:
  assumes reach: "sched_reach g reverse parallelism any_work
      \<lparr>waiting = {m. ph_at s m = Waiting} - {n}, running = insert n (suspended s), results = map (\<lambda>m. (m, ())) (ph_done s), raised = None\<rparr>"
    and n: "n \<notin> set (ph_done s)" and fine: "ph_failed (settle n p s) = []"
  shows "sched_reach g reverse parallelism any_work (sched_of (settle n p s))"
proof (cases p)
  case (Done v c)
  have w: "{m. ph_at (settle n p s) m = Waiting} = {m. ph_at s m = Waiting} - {n}"
    by (auto simp: Done settle_def)
  have "AList.update n () (map (\<lambda>m. (m, ())) (ph_done s)) = map (\<lambda>m. (m, ())) (ph_done s @ [n])"
    using n by (subst update_new) auto
  then have "sched_of (settle n p s) = \<lparr>waiting = {m. ph_at s m = Waiting} - {n}, running = insert n (suspended s) - {n},
      results = AList.update n () (map (\<lambda>m. (m, ())) (ph_done s)), raised = None\<rparr>"
    unfolding sched_of_def w by (simp add: suspended_settle Done) (simp add: settle_def)
  then show ?thesis using sched_reach.step [OF reach sched_step.finish, of n "()"] by simp
next
  case (Raise e c)
  then show ?thesis using fine by (simp add: settle_def)
next
  case (Ask q c k)
  have w: "{m. ph_at (settle n p s) m = Waiting} = {m. ph_at s m = Waiting} - {n}"
    by (auto simp: Ask settle_def)
  show ?thesis using reach unfolding sched_of_def w by (simp add: suspended_settle Ask) (simp add: settle_def Ask)
qed

lemma fine_before: "ph_failed (settle n p s) = [] \<Longrightarrow> ph_failed s = []" "ph_cancelled (settle n p s) = ph_cancelled s"
  by (auto simp: settle_def split: prog.splits)

text \<open>
  A phase refines the scheduler. While no node has failed and the run is not cancelled, the
  interleaved coroutines are in a state the scheduler can reach: what waits, what is suspended at
  a call and what has finished are its waiting, its running and its results, in their order.
\<close>

lemma phase_is_schedule:
  "phase_run g reverse parallelism work c t s \<Longrightarrow> ph_failed s = [] \<Longrightarrow> \<not> ph_cancelled s \<Longrightarrow>
    sched_reach g reverse parallelism any_work (sched_of s)"
proof (induction rule: phase_run.induct)
  case opened
  then have "sched_init g parallelism = Inr (sched_of (phase_start g c))"
    by (auto simp: sched_init_def sched_of_def phase_start_def suspended_def)
  then show ?case by (rule sched_reach.init)
next
  case (began t s n)
  have IH: "sched_reach g reverse parallelism any_work (sched_of s)" using began fine_before by blast
  have "n \<in> waiting (sched_of s)" "needs g reverse n \<subseteq> finished (sched_of s)" "int (card (running (sched_of s))) < parallelism"
    using began by (simp_all add: sched_of_def finished_def image_image)
  from sched_reach.step [OF IH sched_step.start [OF _ this]]
  have "sched_reach g reverse parallelism any_work \<lparr>waiting = {m. ph_at s m = Waiting} - {n}, running = insert n (suspended s),
      results = map (\<lambda>m. (m, ())) (ph_done s), raised = None\<rparr>" by (simp add: sched_of_def)
  moreover have "n \<notin> set (ph_done s)" using phase_okD(6) [OF phase_run_ok [OF began.hyps(1)]] began.hyps(2) by simp
  ultimately show ?case using began.prems by (intro sched_settle)
next
  case (resumed t s n q d k a landed)
  have IH: "sched_reach g reverse parallelism any_work (sched_of s)" using resumed fine_before by blast
  have n: "insert n (suspended s) = suspended s" "{m. ph_at s m = Waiting} - {n} = {m. ph_at s m = Waiting}" "n \<notin> set (ph_done s)"
    using resumed.hyps(2) phase_okD(6) [OF phase_run_ok [OF resumed.hyps(1)]] by (auto simp: suspended_def)
  show ?case by (rule sched_settle) (use IH n resumed.prems in \<open>simp_all add: sched_of_def\<close>)
next
  case (cancelled t s)
  then show ?case by simp
qed

subsection \<open>Order\<close>

lemma phase_order:
  "phase_run g reverse parallelism work c t s \<Longrightarrow> t = t1 @ (n, ev) # t2 \<Longrightarrow>
    needs g reverse n \<subseteq> set (ph_done s) \<and> (\<forall>x \<in> set t2. fst x \<notin> needs g reverse n)"
proof (induction arbitrary: t1 n ev t2 rule: phase_run.induct)
  case opened
  then show ?case by simp
next
  case (began t s m)
  have "set (ph_done s) \<subseteq> set (ph_done (settle m p s))" for p by (auto simp: settle_def split: prog.splits)
  then show ?case using began.IH [OF began.prems] by blast
next
  case (resumed t s m q d k a landed)
  have grow: "set (ph_done s) \<subseteq> set (ph_done (settle m p s))" for p by (auto simp: settle_def split: prog.splits)
  note D = phase_okD [OF phase_run_ok [OF resumed.hyps(1)]]
  have m: "begun s m" "m \<notin> set (ph_done s)" using resumed.hyps(2) D(6) [of m] by (simp_all add: begun_def)
  show ?case
  proof (cases t2 rule: rev_cases)
    case Nil
    then show ?thesis using resumed.prems D(10) [OF m(1)] grow by auto
  next
    case (snoc t3 x)
    then have "t = t1 @ (n, ev) # t3" "x = (m, (q, a, landed))" using resumed.prems by auto
    then show ?thesis using resumed.IH [of t1 n ev t3] snoc m(2) grow by auto
  qed
next
  case (cancelled t s)
  then show ?case by simp
qed

text \<open>
  C18: a phase keeps the order. In every interleaving, once a node has made a call, nothing it had
  to wait for makes one any more: the calls of a dependency (in destroy order, of a dependent)
  all come first.
\<close>

theorem phase_ordered:
  assumes "phase_run g reverse parallelism work c (t1 @ (n, ev) # t2) s"
  shows "\<forall>x \<in> set t2. fst x \<notin> needs g reverse n"
  using phase_order [OF assms] by blast

text \<open>
  C19: a phase keeps within its bound and does not stall. In every interleaving at most
  \<open>parallelism\<close> nodes are at a call. On an acyclic graph, while nodes still wait and none is at a
  call, one of them has all it waits for and a permit, so it can begin; and a phase that is over
  with no failure and no interrupt has finished every node of the graph.
\<close>

theorem phase_never_stuck:
  assumes "wf_digraph g" and "phase_run g reverse parallelism work c t s"
  shows "finite (suspended s) \<and> int (card (suspended s)) \<le> parallelism \<and>
    (suspended s = {} \<and> \<not> phase_over s \<longrightarrow>
      (\<exists>n. ph_at s n = Waiting \<and> needs g reverse n \<subseteq> set (ph_done s) \<and> int (card (suspended s)) < parallelism)) \<and>
    (phase_over s \<and> ph_failed s = [] \<and> \<not> ph_cancelled s \<longrightarrow> set (ph_done s) = set (node_ids g))"
proof (intro conjI impI)
  have ok: "phase_ok g reverse parallelism s" using assms(2) by (rule phase_run_ok)
  note D = ok [unfolded phase_ok_def]
  have part: "ph_at s n = Waiting \<or> n \<in> suspended s \<or> n \<in> set (ph_done s)"
    if "n \<in> set (node_ids g)" "ph_failed s = []" "\<not> ph_cancelled s" for n
    using D that by (cases "ph_at s n") (auto simp: suspended_def)
  have inside: "set (ph_done s) \<subseteq> set (node_ids g)" using D by force
  show "finite (suspended s)" "int (card (suspended s)) \<le> parallelism" using D by blast+
  show "set (ph_done s) = set (node_ids g)" if "phase_over s \<and> ph_failed s = [] \<and> \<not> ph_cancelled s"
    using part that inside unfolding phase_over_def by blast
  show "\<exists>n. ph_at s n = Waiting \<and> needs g reverse n \<subseteq> set (ph_done s) \<and> int (card (suspended s)) < parallelism"
    if idle: "suspended s = {} \<and> \<not> phase_over s"
  proof -
    obtain m where m: "ph_at s m = Waiting" using idle unfolding phase_over_def by blast
    then have fine: "ph_failed s = []" "\<not> ph_cancelled s" using D by blast+
    have "m \<in> set (node_ids g)" "m \<notin> set (ph_done s)" using m D by force+
    then have "set (ph_done s) \<noteq> set (node_ids g)" by blast
    then have "available (set (node_ids g)) (needs g reverse) (set (ph_done s)) \<noteq> {}"
      using acyclic_available [OF _ needs_acyclic [OF assms(1)] needs_in_graph [OF assms(1)] inside] by simp
    then obtain n where n: "n \<in> set (node_ids g)" "n \<notin> set (ph_done s)" "needs g reverse n \<subseteq> set (ph_done s)"
      by (auto simp: available_def)
    then have "ph_at s n = Waiting" using part [OF n(1) fine] idle by blast
    moreover have "int (card (suspended s)) < parallelism" using D idle by simp
    ultimately show ?thesis using n(3) by blast
  qed
qed

subsection \<open>What one node does in a phase\<close>

definition calls_of :: "node_id \<Rightarrow> (node_id \<times> event) list \<Rightarrow> event list" where
  "calls_of n t = map snd (filter (\<lambda>x. fst x = n) t)"

lemma calls_of_simps [simp]:
  "calls_of n [] = []" "calls_of n (t @ t') = calls_of n t @ calls_of n t'"
  "calls_of n [(m, ev)] = (if m = n then [ev] else [])"
  by (simp_all add: calls_of_def)

text \<open>The program a task has become after its calls so far.\<close>

inductive become :: "('c \<Rightarrow> 'c \<Rightarrow> bool) \<Rightarrow> ('c, 'a) prog \<Rightarrow> event list \<Rightarrow> ('c, 'a) prog \<Rightarrow> bool" for rely where
  nothing: "become rely p [] p"
| more: "become rely p t (Ask q c k) \<Longrightarrow> event_ok (q, a, landed) \<Longrightarrow> rely c c' \<Longrightarrow>
    become rely p (t @ [(q, a, landed)]) (k a c')"

lemma become_traces: "become rely p t p' \<Longrightarrow> traces rely p' t' r \<Longrightarrow> traces rely p (t @ t') r"
  by (induction arbitrary: t' rule: become.induct) (auto intro: traces.answered)

text \<open>
  What a program does to the shared state between two of its awaits stays within \<open>R\<close>; then, \<open>R\<close>
  being transitive, so does what the others do while it is suspended.
\<close>

primrec moves :: "('c \<Rightarrow> 'c \<Rightarrow> bool) \<Rightarrow> 'c \<Rightarrow> ('c, 'a) prog \<Rightarrow> bool" where
  "moves R c (Done v c') = R c c'"
| "moves R c (Raise e c') = R c c'"
| "moves R c (Ask q c' k) = (R c c' \<and> (\<forall>a d. moves R d (k a d)))"

definition steady :: "('c \<Rightarrow> 'c \<Rightarrow> bool) \<Rightarrow> ('c, 'a) act \<Rightarrow> bool" where
  "steady R act \<longleftrightarrow> (\<forall>c. moves R c (act c))"

lemma become_moves: "become rely p t p' \<Longrightarrow> moves R c p \<Longrightarrow> \<exists>c. moves R c p'"
  by (induction rule: become.induct) auto

definition ctx_of :: "('c, 'a) prog \<Rightarrow> 'c" where
  "ctx_of p = (case p of Done v c \<Rightarrow> c | Raise e c \<Rightarrow> c | Ask q c k \<Rightarrow> c)"

lemma moves_ctx: "moves R c p \<Longrightarrow> R c (ctx_of p)"
  by (cases p) (simp_all add: ctx_of_def)

lemma settle_ctx: "ph_ctx (settle n p s) = ctx_of p"
  by (simp add: settle_def ctx_of_def split: prog.splits)

text \<open>Where a node is in the phase, in terms of its own trace.\<close>

definition traced :: "('c \<Rightarrow> 'c \<Rightarrow> bool) \<Rightarrow> ('c, unit) act \<Rightarrow> event list \<Rightarrow> 'c stage \<Rightarrow> 'c \<Rightarrow> bool" where
  "traced R act h st now = (case st of
      Suspended p \<Rightarrow> (\<exists>c0. become R (act c0) h p) \<and> R (ctx_of p) now
    | Finished \<Rightarrow> (\<exists>c0 c1. traces R (act c0) h (Some (c1, Returned ())) \<and> R c1 now)
    | Stopped e \<Rightarrow> (\<exists>c0 c1. traces R (act c0) h (Some (c1, Raised e)) \<and> R c1 now)
    | _ \<Rightarrow> h = [])"

lemma traced_later: "transp R \<Longrightarrow> R now now' \<Longrightarrow> traced R act h st now \<Longrightarrow> traced R act h st now'"
  by (auto simp: traced_def split: stage.splits dest: transpD)

lemma traced_dropped: "traced R act h st now \<Longrightarrow> traced R act h (drop_waiting (\<lambda>_. st) n) now"
  by (auto simp: traced_def drop_waiting_def)

lemma traced_settle:
  assumes "reflp R" and b: "become R (act c0) h p" and st: "st = ph_at (settle n p s) n"
  shows "traced R act h st (ctx_of p)"
proof (cases p)
  case (Done v c)
  then have "traces R (act c0) (h @ []) (Some (c, Returned ()))" by (intro become_traces [OF b]) simp
  then show ?thesis using assms Done by (auto simp: traced_def settle_def ctx_of_def dest: reflpD)
next
  case (Raise e c)
  then have "traces R (act c0) (h @ []) (Some (c, Raised e))" by (intro become_traces [OF b]) simp
  moreover have "st = Stopped e" using st Raise by (simp add: settle_def)
  ultimately show ?thesis using assms(1) Raise by (auto simp: traced_def ctx_of_def dest: reflpD)
next
  case (Ask q c k)
  then show ?thesis using assms by (auto simp: traced_def settle_def ctx_of_def dest: reflpD)
qed

lemma settle_other: "m \<noteq> n \<Longrightarrow> ph_at (settle n p s) m = ph_at s m \<or> ph_at s m = Waiting \<and> ph_at (settle n p s) m = Dropped"
  by (auto simp: settle_def drop_waiting_def split: prog.splits)

lemma traced_stage: "traced R act h st now \<Longrightarrow> st' = st \<or> st = Waiting \<and> st' = Dropped \<Longrightarrow> traced R act h st' now"
  by (auto simp: traced_def)

lemma phase_traced:
  assumes "reflp R" and "transp R" and "\<And>n. steady R (work n)"
  shows "phase_run g reverse parallelism work c t s \<Longrightarrow> traced R (work n) (calls_of n t) (ph_at s n) (ph_ctx s)"
proof (induction arbitrary: n rule: phase_run.induct)
  case opened
  then show ?case by (simp add: traced_def phase_start_def)
next
  case (began t s m)
  let ?p = "work m (ph_ctx s)"
  have r: "R (ph_ctx s) (ctx_of ?p)" using assms(3) [of m] by (auto simp: steady_def intro: moves_ctx)
  show ?case
  proof (cases "n = m")
    case True
    have "calls_of m t = []" using began.IH [of m] began.hyps(2) by (simp add: traced_def)
    then have "become R (work m (ph_ctx s)) (calls_of m t) ?p" by (simp add: become.nothing)
    from traced_settle [OF assms(1), where act = "work m", OF this refl] show ?thesis using True by (simp add: settle_ctx)
  next
    case False
    from traced_stage [OF traced_later [OF assms(2) r began.IH [of n]]] settle_other [OF False, of ?p s]
    show ?thesis by (simp add: settle_ctx)
  qed
next
  case (resumed t s m q d k a landed)
  let ?p = "k a (ph_ctx s)"
  obtain c0 where b: "become R (work m c0) (calls_of m t) (Ask q d k)" and now: "R d (ph_ctx s)"
    using resumed.IH [of m] resumed.hyps(2) by (auto simp: traced_def ctx_of_def)
  have "\<exists>c. moves R c (Ask q d k)" using become_moves [OF b] assms(3) [of m] by (auto simp: steady_def)
  then have r: "R (ph_ctx s) (ctx_of ?p)" by (auto intro: moves_ctx)
  show ?case
  proof (cases "n = m")
    case True
    from become.more [OF b resumed.hyps(3) now]
    have "become R (work m c0) (calls_of m (t @ [(m, (q, a, landed))])) ?p" by simp
    from traced_settle [OF assms(1), where act = "work m", OF this refl] show ?thesis using True by (simp add: settle_ctx)
  next
    case False
    from traced_stage [OF traced_later [OF assms(2) r resumed.IH [of n]]] settle_other [OF False, of ?p s] False
    show ?thesis by (simp add: settle_ctx)
  qed
next
  case (cancelled t s)
  show ?case using traced_stage [OF cancelled.IH [of n]] by (simp add: drop_waiting_def)
qed

lemma moves_any: "moves (\<lambda>_ _. True) c p"
  by (induction p arbitrary: c) auto

lemma steady_any: "steady (\<lambda>_ _. True) act"
  by (simp add: steady_def moves_any)

text \<open>
  A phase is nothing but the steps of its nodes. In every interleaving, the calls a node has
  made and their answers are a trace of its own step, whatever the others did to the shared
  state; and a node that finished or raised did so at the end of such a trace.
\<close>

lemma phase_runs_steps:
  assumes "phase_run g reverse parallelism work c t s"
  shows "case ph_at s n of
      Waiting \<Rightarrow> calls_of n t = []
    | Dropped \<Rightarrow> calls_of n t = []
    | Suspended p \<Rightarrow> \<exists>c0. traces (\<lambda>_ _. True) (work n c0) (calls_of n t) None
    | Finished \<Rightarrow> \<exists>c0 c1. traces (\<lambda>_ _. True) (work n c0) (calls_of n t) (Some (c1, Returned ()))
    | Stopped e \<Rightarrow> \<exists>c0 c1. traces (\<lambda>_ _. True) (work n c0) (calls_of n t) (Some (c1, Raised e))"
proof -
  have "traced (\<lambda>_ _. True) (work n) (calls_of n t) (ph_at s n) (ph_ctx s)"
    by (rule phase_traced [OF _ _ steady_any assms]) (auto intro: reflpI transpI)
  moreover have "\<exists>c0. traces (\<lambda>_ _. True) (work n c0) (calls_of n t) None"
    if "become (\<lambda>_ _. True) (work n c0) (calls_of n t) p" for c0 p
    using become_traces [OF that traces.cut] by auto
  ultimately show ?thesis by (auto simp: traced_def split: stage.splits)
qed

lemma phase_step_trace:
  assumes "reflp R" and "transp R" and "\<And>n. steady R (work n)" and "phase_run g reverse parallelism work c t s" and "calls_of n t \<noteq> []"
  shows "\<exists>c0 r. traces R (work n c0) (calls_of n t) r"
proof -
  have "traced R (work n) (calls_of n t) (ph_at s n) (ph_ctx s)" by (rule phase_traced [OF assms(1-4)])
  moreover have "\<exists>c0. traces R (work n c0) (calls_of n t) None" if "become R (work n c0) (calls_of n t) p" for c0 p
    using become_traces [OF that traces.cut] by auto
  ultimately show ?thesis using assms(5)
    by (auto simp: traced_def split: stage.splits) blast
qed

lemma phase_trace:
  assumes "phase_run g reverse parallelism work c t s" and "calls_of n t \<noteq> []"
  shows "\<exists>c0 r. traces (\<lambda>_ _. True) (work n c0) (calls_of n t) r"
  by (rule phase_step_trace [OF _ _ steady_any assms]) (auto intro: reflpI transpI)

subsection \<open>The store in a phase\<close>

text \<open>A step writes the rows of its own node and of its companion only.\<close>

fun row_of :: "call \<Rightarrow> node_id option" where
  "row_of (PutRow s) = Some (sid s)"
| "row_of (DropRow i) = Some i"
| "row_of (ForgetRow i) = Some i"
| "row_of q = None"

definition own_rows :: "node_id \<Rightarrow> call \<Rightarrow> bool" where
  "own_rows i q = (case row_of q of None \<Rightarrow> True | Some j \<Rightarrow> j = i \<or> j = cbd_companion_id i)"

lemma own_rows_simps [simp]:
  "own_rows i (PutRow s) \<longleftrightarrow> sid s = i \<or> sid s = cbd_companion_id i" "own_rows i (DropRow j) \<longleftrightarrow> j = i \<or> j = cbd_companion_id i"
  "own_rows i (ForgetRow j) \<longleftrightarrow> j = i \<or> j = cbd_companion_id i" "own_rows i LoadRows" "own_rows i LeaseLost" "own_rows i (Create p r)"
  "own_rows i (Update p os r)" "own_rows i (Destroy p r)"
  by (simp_all add: own_rows_def)

text \<open>The rows of the state are keyed by their own id.\<close>

definition keyed :: "state_graph \<Rightarrow> bool" where
  "keyed rows \<longleftrightarrow> (\<forall>(i, s) \<in> set rows. sid s = i)"

lemma keyed_row: "keyed rows \<Longrightarrow> map_of rows i = Some s \<Longrightarrow> sid s = i"
  by (auto simp: keyed_def dest: map_of_SomeD)

fun keyed_answer :: "answer \<Rightarrow> bool" where
  "keyed_answer (Rows rows) = keyed rows"
| "keyed_answer a = True"

definition reads_keyed :: "event list \<Rightarrow> bool" where
  "reads_keyed h \<longleftrightarrow> list_all (\<lambda>ev. keyed_answer (fst (snd ev))) h"

lemma reads_keyed_simps [simp]:
  "reads_keyed []" "reads_keyed (h @ h') \<longleftrightarrow> reads_keyed h \<and> reads_keyed h'" "reads_keyed [(q, a, landed)] \<longleftrightarrow> keyed_answer a"
  by (simp_all add: reads_keyed_def)

definition framed :: "node_id \<Rightarrow> event list \<Rightarrow> call \<Rightarrow> bool" where
  "framed i h q \<longleftrightarrow> (reads_keyed h \<longrightarrow> own_rows i q)"

lemma framed_own: "own_rows i q \<Longrightarrow> framed i h q"
  by (simp add: framed_def)

lemma framed_read: "(\<And>c s. rf c = Inr s \<Longrightarrow> own_rows i (PutRow s)) \<Longrightarrow>
    step_ok R (framed i) K (abind (aread rf) rewrite_row)"
  by (auto simp: step_ok_def vcg safe_alift rewrite_row_def framed_def split: sum.splits)

lemma framed_rows: "step_ok R (framed i) K (write_ahead rn i res)" "step_ok R (framed i) K (persist rn i res outs)"
  unfolding write_ahead_def persist_def by (rule framed_read; auto dest: node_row_fields)+

lemma framed_mark_stale:
  assumes "j = i \<or> j = cbd_companion_id i"
  shows "step_ok R (framed i) K (mark_stale j None)"
proof -
  have "own_rows i (PutRow (s\<lparr>sinput_hash := h\<rparr>))" if "keyed rs" "map_of rs j = Some s" for rs s h
    using keyed_row [OF that] assms by simp
  then show ?thesis
    unfolding mark_stale_def plain_defs acatch_exception_def step_ok_def
    by (auto simp: vcg framed_def split: option.splits)
qed

lemma framed_delete_node: "j = i \<or> j = cbd_companion_id i \<Longrightarrow> step_ok R (framed i) K (delete_node rn j)"
  unfolding delete_node_def forget_def plain_defs
  by (intro step_rules framed_mark_stale framed_own) simp_all

lemma framed_record:
  assumes "keyed (rn_prior rn)"
  shows "step_ok R (framed i) K (record_state_only rn i ch)" and "step_ok R (framed i) K (record_collapsed rn i)"
proof -
  have row: "sid prior = i" if "map_of (rn_prior rn) i = Some prior" for prior by (rule keyed_row [OF assms that])
  show "step_ok R (framed i) K (record_state_only rn i ch)"
    unfolding record_state_only_def rewrite_undoable_def plain_defs
    by (cases "map_of (rn_prior rn) i"; cases "cdesired ch"; simp; intro step_rules framed_own; simp add: row)
  show "step_ok R (framed i) K (record_collapsed rn i)"
  proof (cases "map_of (rn_prior rn) i")
    case (Some prior)
    have "sid r = i" if "collapsed_row rn live prior = Inr r" for r live
      using that row [OF Some] by (auto simp: collapsed_row_def rbind_Inr_iff)
    then show ?thesis
      unfolding record_collapsed_def rewrite_undoable_def plain_defs Some
      by (auto simp: step_ok_def vcg safe_alift framed_def split: sum.splits)
  qed (simp add: record_collapsed_def step_rules)
qed

lemma framed_apply_node:
  assumes "keyed (rn_prior rn)"
  shows "step_ok R (framed i) K (apply_node rn i)"
proof -
  have create: "step_ok R (framed i) K (create_node rn i res p)" for K res p
    unfolding create_node_def plain_defs by (intro step_rules framed_rows framed_own) simp_all
  have update: "step_ok R (framed i) K (update_node rn i res p)" for K res p
    unfolding update_node_def plain_defs by (intro step_rules framed_own) simp_all
  have dbc: "step_ok R (framed i) K (replace_dbc rn i res old prior p)" for K res old prior p
    unfolding replace_dbc_def plain_defs by (intro step_rules framed_rows framed_own) simp_all
  have cbd: "step_ok R (framed i) K (replace_cbd rn i res old row p)" for K res old row p
    unfolding replace_cbd_def plain_defs Let_def
    by (intro step_rules framed_rows framed_delete_node framed_own) simp_all
  have replace: "step_ok R (framed i) K (replace_node rn i ch res p)" for K ch res p
    unfolding replace_node_def on_report_def by (intro step_rules dbc cbd)
  have one: "step_ok R (framed i) K (apply_one rn i ch)" for K ch
  proof (cases "caction ch = NOOP")
    case True
    then show ?thesis by (simp add: apply_one_def framed_record assms)
  next
    case False
    then show ?thesis unfolding apply_one_def
      by (cases "caction ch"; simp; intro step_rules framed_rows create update replace)
  qed
  show ?thesis
    unfolding apply_node_def on_report_def by (intro step_ok_bind_guarded one step_rules)
qed

text \<open>The rows of a node after a phase, if only the node itself writes them.\<close>

lemma row_effect_other: "row_of q \<noteq> Some i \<Longrightarrow> row_effect (q, a, landed) m i = m i"
  by (cases q) auto

lemma row_effect_cong: "m i = m' i \<Longrightarrow> row_effect (q, a, landed) m i = row_effect (q, a, landed) m' i"
  by (cases q) auto

lemma rows_after_calls_of:
  assumes "\<forall>x \<in> set t. fst x \<noteq> i \<longrightarrow> row_of (fst (snd x)) \<noteq> Some i"
  shows "rows_after (map snd t) m i = rows_after (calls_of i t) m i"
  using assms
proof (induction t rule: rev_induct)
  case (snoc x t)
  obtain n q a landed where x: "x = (n, q, a, landed)" by (cases x)
  have IH: "rows_after (map snd t) m i = rows_after (calls_of i t) m i" using snoc by simp
  then have "row_effect (q, a, landed) (rows_after (map snd t) m) i = row_effect (q, a, landed) (rows_after (calls_of i t) m) i"
    by (rule row_effect_cong)
  then show ?case using IH x snoc.prems row_effect_other [of q i] by (cases "n = i") simp_all
qed simp

lemma calls_of_take: "\<exists>j. calls_of n (take k t) = take j (calls_of n t)"
proof -
  have "calls_of n t = calls_of n (take k t) @ calls_of n (drop k t)" by (metis append_take_drop_id calls_of_simps(2))
  then have "calls_of n (take k t) = take (length (calls_of n (take k t))) (calls_of n t)" by simp
  then show ?thesis by blast
qed

lemma calls_of_nth:
  assumes "k < length t" and "fst (t ! k) = n"
  shows "length (calls_of n (take k t)) < length (calls_of n t)"
    and "take (length (calls_of n (take k t))) (calls_of n t) = calls_of n (take k t)"
    and "calls_of n t ! length (calls_of n (take k t)) = snd (t ! k)"
proof -
  have "t = take k t @ t ! k # drop (Suc k) t" using assms(1) by (rule id_take_nth_drop)
  then have "calls_of n t = calls_of n (take k t) @ calls_of n [t ! k] @ calls_of n (drop (Suc k) t)"
    by (metis append_Cons append_Nil calls_of_simps(2))
  moreover have "calls_of n [t ! k] = [snd (t ! k)]" using assms(2) by (cases "t ! k") simp
  ultimately show "length (calls_of n (take k t)) < length (calls_of n t)"
    and "take (length (calls_of n (take k t))) (calls_of n t) = calls_of n (take k t)"
    and "calls_of n t ! length (calls_of n (take k t)) = snd (t ! k)" by simp_all
qed

definition apart :: "digraph \<Rightarrow> node_id \<Rightarrow> bool" where
  "apart g i \<longleftrightarrow> (\<forall>n \<in> set (node_ids g). cbd_companion_id n \<noteq> i)"

lemma phase_nodes: "phase_run g reverse parallelism work c t s \<Longrightarrow> x \<in> set t \<Longrightarrow> fst x \<in> set (node_ids g)"
proof (induction rule: phase_run.induct)
  case (resumed t s n q d k a landed)
  have "n \<in> set (node_ids g)" using resumed.hyps(2) phase_okD(7) [OF phase_run_ok [OF resumed.hyps(1)], of n] by simp
  then show ?case using resumed by auto
qed simp_all

lemma phase_own:
  assumes run: "phase_run g reverse parallelism work c t s" and "reads_keyed (map snd t)" and "apart g i"
    and frame: "\<And>n. step_ok (\<lambda>_ _. True) (framed n) (\<lambda>h. h = []) (work n)"
  shows "\<forall>x \<in> set t. fst x \<noteq> i \<longrightarrow> row_of (fst (snd x)) \<noteq> Some i"
proof (intro ballI impI)
  fix x assume x: "x \<in> set t" "fst x \<noteq> i"
  let ?n = "fst x"
  obtain k where k: "k < length t" "t ! k = x" using x(1) by (auto simp: in_set_conv_nth)
  note at = calls_of_nth [OF k(1), of ?n, unfolded k(2), OF refl]
  have "calls_of ?n t \<noteq> []" using at(1) by auto
  then obtain c0 r where tr: "traces (\<lambda>_ _. True) (work ?n c0) (calls_of ?n t) r"
    using phase_trace [OF run] by blast
  have "safe (\<lambda>_ _. True) (framed ?n) (\<lambda>_ _ _. True) (work ?n c0) []" using frame by (simp add: step_ok_def)
  from safe_traces [OF tr this] at have "framed ?n (calls_of ?n (take k t)) (fst (snd x))" by (metis append_Nil)
  moreover have "reads_keyed (calls_of ?n (take k t))"
    using assms(2) unfolding reads_keyed_def calls_of_def list_all_iff by (fastforce dest: in_set_takeD)
  ultimately have "own_rows ?n (fst (snd x))" by (simp add: framed_def)
  moreover have "cbd_companion_id ?n \<noteq> i" using assms(3) phase_nodes [OF run x(1)] by (simp add: apart_def)
  ultimately show "row_of (fst (snd x)) \<noteq> Some i" using x(2) by (auto simp: own_rows_def)
qed

text \<open>
  C2: in every interleaving of the forward pass, nothing is created untracked. Each time a node
  asks a provider to create, the store's row of the node, after every write any node has made so
  far, is there and marked as being created. Reads of the state answer rows keyed by their own
  id, and no node's id is the companion id of another; a node deleted ahead of the pass starts
  with that row.
\<close>

theorem forward_creates_tracked:
  assumes "phase_run g False parallelism (apply_node rn) c t s" and "reads_keyed (map snd t)" and "apart g i" and "keyed (rn_prior rn)"
    and "i \<in> rn_predeleted rn \<longrightarrow> creating (m i)" and "k < length t" and "t ! k = (i, Create p res, a, landed)"
  shows "creating (rows_after (map snd (take k t)) m i)"
proof -
  let ?R = "\<lambda>_ _. True"
  have at: "fst (t ! k) = i" using assms(7) by simp
  note nth = calls_of_nth [OF assms(6) at]
  have "calls_of i t \<noteq> []" using nth(1) by auto
  then obtain c0 r where tr: "traces ?R (apply_node rn i c0) (calls_of i t) r" using phase_trace [OF assms(1)] by blast
  have "safe ?R (tracked_create m i) (\<lambda>_ _ _. True) (apply_node rn i c0) []"
    using creates_tracked [of i rn m ?R] assms(5) by (simp add: step_ok_def)
  from safe_traces [OF tr this] have "tracked_create m i (calls_of i (take k t)) (fst (snd (t ! k)))" using nth by (metis append_Nil)
  then have local: "creating (rows_after (calls_of i (take k t)) m i)" using assms(7) by simp
  have "rows_after (map snd (take k t)) m i = rows_after (calls_of i (take k t)) m i"
  proof (rule rows_after_calls_of, intro ballI impI)
    fix x assume x: "x \<in> set (take k t)" "fst x \<noteq> i"
    then have "x \<in> set t" using set_take_subset by fast
    with phase_own [OF assms(1-3) framed_apply_node [OF assms(4)]] x(2) show "row_of (fst (snd x)) \<noteq> Some i" by blast
  qed
  then show ?thesis using local by simp
qed

end
