(* ===== verification/ExecWhole.thy ===== *)
theory ExecWhole
  imports ExecRun ExecOutputs
begin

text \<open>
  A whole run (\<open>ChangeSetRun._run_phases\<close>): the deletes that must come first, the forward pass,
  its rollback when it fails, the deletes, and the outputs; and what a failed run leaves behind.
\<close>

subsection \<open>The phases of a run\<close>

text \<open>Phase 0 runs only when something is deleted ahead; a failure there skips the forward pass.\<close>

inductive forward_pass :: "run_env \<Rightarrow> int \<Rightarrow> run_ctx \<Rightarrow> (node_id \<times> event) list \<Rightarrow> run_ctx \<Rightarrow> exn option \<Rightarrow> bool"
  for rn parallelism c where
  direct: "rn_predeleted rn = {} \<Longrightarrow>
    phase_run (ds_graph (rn_desired rn)) False parallelism (apply_node rn) c t s \<Longrightarrow> phase_over s \<Longrightarrow>
    forward_pass rn parallelism c t (ph_ctx s) (phase_exn s)"
| predelete_failed: "rn_predeleted rn \<noteq> {} \<Longrightarrow>
    phase_run (rn_prior_graph rn) True parallelism (predelete_node rn) c t s \<Longrightarrow> phase_over s \<Longrightarrow> phase_exn s = Some e \<Longrightarrow>
    forward_pass rn parallelism c t (ph_ctx s) (Some e)"
| after_predelete: "rn_predeleted rn \<noteq> {} \<Longrightarrow>
    phase_run (rn_prior_graph rn) True parallelism (predelete_node rn) c t0 s0 \<Longrightarrow> phase_over s0 \<Longrightarrow> phase_exn s0 = None \<Longrightarrow>
    phase_run (ds_graph (rn_desired rn)) False parallelism (apply_node rn) (ph_ctx s0) t s \<Longrightarrow> phase_over s \<Longrightarrow>
    forward_pass rn parallelism c (t0 @ t) (ph_ctx s) (phase_exn s)"

text \<open>
  \<open>b\<close> is the backend as the outputs see it; the events of the rollback are kept apart from those
  of the phases.
\<close>

inductive run_phases ::
  "run_env \<Rightarrow> int \<Rightarrow> memory \<Rightarrow> run_ctx \<Rightarrow> (node_id \<times> event) list \<Rightarrow> event list \<Rightarrow> run_ctx \<Rightarrow> memory \<Rightarrow> apply_report outcome \<Rightarrow> bool"
  for rn parallelism b c where
  rolled_back: "forward_pass rn parallelism c t c1 (Some e) \<Longrightarrow>
    traces (=) (handle_forward_failure rn e c1) t' (Some (c2, Raised e')) \<Longrightarrow>
    run_phases rn parallelism b c t t' c2 b (Raised e')"
| nothing_to_destroy: "forward_pass rn parallelism c t c1 None \<Longrightarrow> x_cbd_deferred c1 = [] \<Longrightarrow> x_delete_ids c1 = {} \<Longrightarrow>
    commit_outputs (rn_desired rn) (rn_env rn) (x_live c1) (rn_prior rn) (x_report c1) b = r \<Longrightarrow>
    run_phases rn parallelism b c t [] c1 (case r of Inl e \<Rightarrow> b | Inr (rep, b') \<Rightarrow> b')
      (case r of Inl e \<Rightarrow> Raised (Fail e) | Inr (rep, b') \<Rightarrow> Returned rep)"
| destroy_failed: "forward_pass rn parallelism c t c1 None \<Longrightarrow> x_cbd_deferred c1 \<noteq> [] \<or> x_delete_ids c1 \<noteq> {} \<Longrightarrow>
    phase_run (rn_prior_graph rn) True parallelism (destroy_node rn) c1 t' s \<Longrightarrow> phase_over s \<Longrightarrow> phase_exn s = Some e \<Longrightarrow>
    run_phases rn parallelism b c (t @ t') [] (ph_ctx s) b (Raised e)"
| destroyed: "forward_pass rn parallelism c t c1 None \<Longrightarrow> x_cbd_deferred c1 \<noteq> [] \<or> x_delete_ids c1 \<noteq> {} \<Longrightarrow>
    phase_run (rn_prior_graph rn) True parallelism (destroy_node rn) c1 t' s \<Longrightarrow> phase_over s \<Longrightarrow> phase_exn s = None \<Longrightarrow>
    commit_outputs (rn_desired rn) (rn_env rn) (x_live (ph_ctx s)) (rn_prior rn) (x_report (ph_ctx s)) b = r \<Longrightarrow>
    run_phases rn parallelism b c (t @ t') [] (ph_ctx s) (case r of Inl e \<Rightarrow> b | Inr (rep, b') \<Rightarrow> b')
      (case r of Inl e \<Rightarrow> Raised (Fail e) | Inr (rep, b') \<Rightarrow> Returned rep)"

subsection \<open>What is deleted ahead\<close>

definition deleted_with :: "run_env \<Rightarrow> node_id \<Rightarrow> bool" where
  "deleted_with rn i = (case map_of (rn_changes rn) i of None \<Rightarrow> False | Some c \<Rightarrow> destroyed_change rn c)"

lemma finite_prior_dependents: "finite {b. \<exists>a. b \<in> set (prior_dependents rn a)}"
proof -
  have "{b. \<exists>a. b \<in> set (prior_dependents rn a)} \<subseteq> {b. \<exists>a. b \<in> set (dget (dependents (rn_prior_graph rn)) a [])}"
    by (auto simp: prior_dependents_def split: if_splits)
  then show ?thesis by (rule finite_subset) (rule finite_dget_range)
qed

interpretation predelete_walk: push_search "deleted_with rn" "prior_dependents rn" for rn
  by unfold_locales (rule finite_prior_dependents)

text \<open>
  What is deleted ahead of the forward pass is exactly what must be. The loop ends, and it
  collects the nodes that are destroyed this run (deleted, or replaced destroy-first and not
  conditionally) and reached, over the dependents of the prior state and through such nodes only,
  from a node replaced destroy-first.
\<close>

lemma predeletes_least:
  "predeletes rn cs = Some ({(a, b). b \<in> set (prior_dependents rn a) \<and> (\<exists>c. map_of (rn_changes rn) b = Some c \<and> destroyed_change rn c)}\<^sup>+ ``
     {cid c | c. c \<in> set cs \<and> dbc_change rn c})"
proof -
  have p: "(\<lambda>i. case map_of (rn_changes rn) i of None \<Rightarrow> False | Some c \<Rightarrow> destroyed_change rn c) = deleted_with rn"
    by (simp add: deleted_with_def fun_eq_iff)
  have "push_edges (deleted_with rn) (prior_dependents rn) =
      {(a, b). b \<in> set (prior_dependents rn a) \<and> (\<exists>c. map_of (rn_changes rn) b = Some c \<and> destroyed_change rn c)}"
    by (auto simp: push_edges_def deleted_with_def split: option.splits)
  moreover have "set (map cid (filter (dbc_change rn) cs)) = {cid c | c. c \<in> set cs \<and> dbc_change rn c}" by auto
  ultimately show ?thesis
    unfolding predeletes_def p using predelete_walk.drain_push_reach [of rn "map cid (filter (dbc_change rn) cs)"] by simp
qed

subsection \<open>The steps only add undos\<close>

lemma moves_trans: "transp R \<Longrightarrow> R c c' \<Longrightarrow> moves R c' p \<Longrightarrow> moves R c p"
  by (cases p) (auto dest: transpD)

lemma moves_bind: "transp R \<Longrightarrow> moves R c p \<Longrightarrow> (\<And>v. steady R (f v)) \<Longrightarrow> moves R c (prog_bind p f)"
  by (induction p arbitrary: c) (auto simp: steady_def intro: moves_trans)

lemma moves_catch: "transp R \<Longrightarrow> moves R c p \<Longrightarrow> (\<And>e. steady R (f e)) \<Longrightarrow> moves R c (prog_catch p f)"
  by (induction p arbitrary: c) (auto simp: steady_def intro: moves_trans)

lemma only_adds_order: "reflp only_adds" "transp only_adds" "only_adds c c"
  by (auto simp: only_adds_def intro!: reflpI transpI)

abbreviation adding :: "(run_ctx, 'a) act \<Rightarrow> bool" where
  "adding \<equiv> steady only_adds"

lemma adding_bind: "adding m \<Longrightarrow> (\<And>v. adding (f v)) \<Longrightarrow> adding (abind m f)"
  unfolding abind_def by (subst steady_def) (auto intro: moves_bind only_adds_order simp: steady_def [of only_adds m])

lemma adding_seq: "adding m \<Longrightarrow> adding n \<Longrightarrow> adding (aseq m n)"
  unfolding aseq_def by (rule adding_bind)

lemma adding_catch: "adding m \<Longrightarrow> (\<And>e. adding (w e)) \<Longrightarrow> adding (acatch m w)"
  unfolding acatch_def by (subst steady_def) (auto intro: moves_catch only_adds_order simp: steady_def [of only_adds m])

lemma adding_pure: "adding (aret v)" "adding (araise e)" "adding (aget w)"
  by (simp_all add: steady_def aret_def araise_def aget_def only_adds_order)

lemma adding_alift: "adding (alift r)"
  by (cases r) (simp_all add: alift_def adding_pure)

lemma adding_aread: "adding (aread f)"
  unfolding steady_def aread_def using adding_alift [unfolded steady_def] by blast

lemma adding_aupd: "(\<And>c. only_adds c (g c)) \<Longrightarrow> adding (aupd g)"
  by (simp add: steady_def aupd_def)

lemma adding_catch_exception: "adding m \<Longrightarrow> (\<And>e. adding (w e)) \<Longrightarrow> adding (acatch_exception m w)"
  unfolding acatch_exception_def by (rule adding_catch) (auto intro: adding_pure)

lemma adding_await: "adding (await_ok q)" "adding (await_outputs q)" "adding await_rows"
  unfolding await_ok_def await_outputs_def await_rows_def steady_def
  by (auto simp: only_adds_order aret_def araise_def split: answer.splits)

lemma adding_if: "(b \<Longrightarrow> adding m) \<Longrightarrow> (\<not> b \<Longrightarrow> adding n) \<Longrightarrow> adding (if b then m else n)"
  by simp

lemma adding_option:
  "(z = None \<Longrightarrow> adding m) \<Longrightarrow> (\<And>v. z = Some v \<Longrightarrow> adding (n v)) \<Longrightarrow> adding (case z of None \<Rightarrow> m | Some v \<Rightarrow> n v)"
  by (cases z) simp_all

lemmas adding_rules = adding_pure adding_alift adding_aread adding_aupd adding_catch adding_catch_exception adding_if adding_option
  adding_await adding_bind adding_seq only_adds_upd

lemma adding_steps:
  "adding (delete_node rn j)" "adding (mark_stale j rows)" "adding (write_ahead rn i res)" "adding (persist rn i res outs)"
  unfolding delete_node_def forget_def mark_stale_def write_ahead_def persist_def plain_defs
  by (intro adding_rules)+

lemma adding_apply_one: "adding (apply_one rn i ch)"
proof -
  have create: "adding (create_node rn i res p)" for res p
    unfolding create_node_def plain_defs by (intro adding_rules adding_steps)
  have update: "adding (update_node rn i res p)" for res p
    unfolding update_node_def plain_defs by (intro adding_rules)
  have dbc: "adding (replace_dbc rn i res old prior p)" for res old prior p
    unfolding replace_dbc_def plain_defs by (intro adding_rules adding_steps)
  have cbd: "adding (replace_cbd rn i res old row p)" for res old row p
    unfolding replace_cbd_def plain_defs Let_def by (intro adding_rules adding_steps)
  have replace: "adding (replace_node rn i ch res p)" for ch res p
    unfolding replace_node_def on_report_def by (intro adding_rules dbc cbd)
  have rows: "adding (record_state_only rn i ch)" "adding (record_collapsed rn i)"
    unfolding record_state_only_def record_collapsed_def rewrite_undoable_def plain_defs
    by (cases "map_of (rn_prior rn) i"; cases "cdesired ch"; simp; intro adding_rules)+
  show ?thesis
  proof (cases "caction ch = NOOP")
    case True
    then show ?thesis by (simp add: apply_one_def rows)
  next
    case False
    then show ?thesis unfolding apply_one_def
      by (cases "caction ch"; simp; intro adding_rules adding_steps create update replace)
  qed
qed

lemma adding_apply_node: "adding (apply_node rn i)"
  unfolding apply_node_def on_report_def by (intro adding_rules adding_apply_one)

text \<open>The rows of what the run changes are recorded ones, and their references can be digested.\<close>

definition undoable :: "run_env \<Rightarrow> node_id \<Rightarrow> bool" where
  "undoable rn i \<longleftrightarrow> (\<forall>ch. map_of (rn_changes rn) i = Some ch \<longrightarrow>
     (caction ch = REPLACE \<or> cconditional ch \<longrightarrow> map_of (rn_prior rn) i \<noteq> None) \<and> digests_total rn i)"

lemma keeps_apply_undoable:
  assumes "rn_rollback rn" and "undoable rn i"
  shows "keeps_covered i (apply_node rn i)"
proof (cases "map_of (rn_changes rn) i")
  case None
  then show ?thesis by (simp add: apply_node_def keeps_pure)
next
  case (Some ch)
  then show ?thesis using assms by (intro keeps_apply_node [where ch = ch]) (simp_all add: undoable_def)
qed

lemma covered_in_phase:
  assumes run: "phase_run g reverse parallelism (apply_node rn) c t s" and "phase_over s" and "rn_rollback rn" and "undoable rn i"
    and created: "(i, Create p res, Outputs outs, True) \<in> set t"
  shows "\<exists>u. (i, u) \<in> set (x_compensations (ph_ctx s)) \<and> undoes_create p (with_outputs res outs) i u"
proof -
  have calls: "(Create p res, Outputs outs, True) \<in> set (calls_of i t)" using created by (force simp: calls_of_def)
  have tr: "traced only_adds (apply_node rn i) (calls_of i t) (ph_at s i) (ph_ctx s)"
    by (rule phase_traced [OF only_adds_order(1,2) adding_apply_node run])
  have cov: "covered i c1 (calls_of i t)"
    if "traces only_adds (apply_node rn i c0) (calls_of i t) (Some (c1, x))" for c0 c1 x
  proof -
    have "safe only_adds (\<lambda>_ _. True) (\<lambda>_ c' h'. covered i c' h') (apply_node rn i c0) []"
      using keeps_apply_undoable [OF assms(3,4)] by (simp add: keeps_covered_def covered_def)
    from safe_traces [OF that this] show ?thesis by simp
  qed
  have "\<exists>c1. covered i c1 (calls_of i t) \<and> only_adds c1 (ph_ctx s)"
    using tr calls assms(2) by (auto simp: traced_def phase_over_def suspended_def split: stage.splits dest: cov)
  then have "covered i (ph_ctx s) (calls_of i t)" using covered_mono by blast
  then show ?thesis using calls by (simp add: covered_def)
qed

subsection \<open>A rollback destroys what was created, or says it could not\<close>

text \<open>A shielded rollback sees no cancellation.\<close>

definition uncancelled :: "event list \<Rightarrow> bool" where
  "uncancelled h \<longleftrightarrow> list_all (\<lambda>ev. fst (snd ev) \<noteq> Err Cancelled) h"

lemma uncancelled_simps [simp]:
  "uncancelled []" "uncancelled (h @ h') \<longleftrightarrow> uncancelled h \<and> uncancelled h'" "uncancelled ((q, a, landed) # h) \<longleftrightarrow> a \<noteq> Err Cancelled \<and> uncancelled h"
  by (simp_all add: uncancelled_def)

definition failed_undos :: "run_ctx \<Rightarrow> node_id set" where
  "failed_undos c = dom (map_of (rp_rollback_failed (x_report c)))"

definition dealt_with :: "run_ctx \<Rightarrow> event list \<Rightarrow> node_id \<times> undo \<Rightarrow> bool" where
  "dealt_with c h entry \<longleftrightarrow> (\<forall>p res. undoes_create p res (fst entry) (snd entry) \<longrightarrow>
     (Destroy p res, Ok, True) \<in> set h \<or> fst entry \<in> failed_undos c)"

lemma dealt_with_mono: "dealt_with c h e \<Longrightarrow> failed_undos c \<subseteq> failed_undos c' \<Longrightarrow> dealt_with c' (h @ h') e"
  unfolding dealt_with_def by auto

lemma run_undo_destroys:
  "safe (=) (\<lambda>_ _. True) (\<lambda>x c' h'. c' = c \<and> (uncancelled h' \<longrightarrow> (case x of
      Returned v \<Rightarrow> \<forall>p res. undoes_create p res i u \<longrightarrow> (Destroy p res, Ok, True) \<in> set h'
    | Raised e \<Rightarrow> e \<noteq> Cancelled))) (run_undo rn u c) h"
  by (cases u) (auto simp: run_undo_def recreate_def restored_row_def rewrite_row_def drop_row_def vcg split: sum.splits)

lemma undo_one_deals:
  "safe (=) (\<lambda>_ _. True) (\<lambda>x c' h'. uncancelled h' \<longrightarrow> x = Returned () \<and> failed_undos c \<subseteq> failed_undos c' \<and> dealt_with c' h' (i, u))
    (undo_one rn rows (i, u) c) h"
proof -
  let ?Q = "\<lambda>x c' h'. uncancelled h' \<longrightarrow> x = Returned () \<and> failed_undos c \<subseteq> failed_undos c' \<and> dealt_with c' h' (i, u)"
  have undo: "safe (=) (\<lambda>_ _. True) ?Q (acatch_exception (run_undo rn u) (\<lambda>e. rollback_failed i (Because e)) c1) h1"
    if "uncancelled h1 \<Longrightarrow> failed_undos c1 = failed_undos c" for c1 h1
    unfolding acatch_exception_def safe_acatch
    by (rule safe_mono [OF run_undo_destroys [of c1 i u rn h1]])
      (use that in \<open>auto simp: vcg rollback_failed_def on_report_def failed_undos_def dealt_with_def update_conv' split: outcome.splits\<close>)
  have mark: "safe (=) (\<lambda>_ _. True) (\<lambda>x c' h'. uncancelled h' \<longrightarrow> x = Returned () \<and> failed_undos c' = failed_undos c1)
      ((case rows of Inl e \<Rightarrow> poison i (Unreadable e) | Inr rs \<Rightarrow> mark_stale i (Some rs)) c1) h1" for c1 h1
    by (auto simp: poison_def mark_stale_def acatch_exception_def rewrite_row_def on_report_def vcg failed_undos_def
        split: sum.splits option.splits)
  have rest: "safe (=) (\<lambda>_ _. True) ?Q (aseq (case rows of Inl e \<Rightarrow> poison i (Unreadable e) | Inr rs \<Rightarrow> mark_stale i (Some rs))
      (acatch_exception (run_undo rn u) (\<lambda>e. rollback_failed i (Because e))) c1) h1" if "failed_undos c1 = failed_undos c" for c1 h1
    unfolding safe_aseq
  proof (rule safe_mono [OF mark [of c1 h1]])
    fix x h' and c' :: run_ctx
    assume m: "uncancelled (h1 @ h') \<longrightarrow> x = Returned () \<and> failed_undos c' = failed_undos c1"
    show "case x of Returned v \<Rightarrow> safe (=) (\<lambda>_ _. True) ?Q (acatch_exception (run_undo rn u) (\<lambda>e. rollback_failed i (Because e)) c') (h1 @ h')
        | Raised e \<Rightarrow> ?Q (Raised e) c' (h1 @ h')"
      using m that by (cases x) (auto intro: undo)
  qed
  show ?thesis
    unfolding undo_one_def
    by (auto simp: vcg on_report_def rollback_failed_def failed_undos_def dealt_with_def update_conv' split: option.splits
        intro!: rest [unfolded failed_undos_def dealt_with_def, simplified])
qed

lemma safe_cancelled: "\<not> uncancelled h \<Longrightarrow> safe R (\<lambda>_ _. True) (\<lambda>x c h'. uncancelled h' \<longrightarrow> Q x c h') p h"
  by (rule safe_mono [OF safe_True]) simp

lemma undo_all_deals:
  "safe (=) (\<lambda>_ _. True) (\<lambda>x c' h'. uncancelled h' \<longrightarrow> x = Returned () \<and> failed_undos c \<subseteq> failed_undos c' \<and>
      (\<forall>e \<in> set todo. dealt_with c' h' e)) (undo_all rn rows todo c) h"
proof (induction todo arbitrary: c h)
  case Nil
  then show ?case by (simp add: vcg)
next
  case (Cons e todo c h)
  obtain i u where e: "e = (i, u)" by (cases e)
  have "safe (=) (\<lambda>_ _. True) (\<lambda>x c' h'. case x of
        Returned v \<Rightarrow> safe (=) (\<lambda>_ _. True) (\<lambda>x c' h'. uncancelled h' \<longrightarrow> x = Returned () \<and> failed_undos c \<subseteq> failed_undos c' \<and>
          (\<forall>e \<in> set ((i, u) # todo). dealt_with c' h' e)) (undo_all rn rows todo c') h'
      | Raised e \<Rightarrow> uncancelled h' \<longrightarrow> Raised e = Returned () \<and> failed_undos c \<subseteq> failed_undos c' \<and>
          (\<forall>e \<in> set ((i, u) # todo). dealt_with c' h' e)) (undo_one rn rows (i, u) c) h"
  proof (rule safe_mono [OF undo_one_deals [of c i u rn rows h]])
    fix x h' and c' :: run_ctx
    assume one: "uncancelled (h @ h') \<longrightarrow> x = Returned () \<and> failed_undos c \<subseteq> failed_undos c' \<and> dealt_with c' (h @ h') (i, u)"
    have rest: "safe (=) (\<lambda>_ _. True) (\<lambda>x c' h'. uncancelled h' \<longrightarrow> x = Returned () \<and> failed_undos c \<subseteq> failed_undos c' \<and>
          (\<forall>e \<in> set ((i, u) # todo). dealt_with c' h' e)) (undo_all rn rows todo c') (h @ h')"
    proof (cases "uncancelled (h @ h')")
      case True
      show ?thesis by (rule safe_mono [OF Cons.IH [of c' "h @ h'"]]) (use one True dealt_with_mono [of c' "h @ h'" "(i, u)"] in auto)
    qed (rule safe_cancelled)
    show "case x of
        Returned v \<Rightarrow> safe (=) (\<lambda>_ _. True) (\<lambda>x c' h'. uncancelled h' \<longrightarrow> x = Returned () \<and> failed_undos c \<subseteq> failed_undos c' \<and>
          (\<forall>e \<in> set ((i, u) # todo). dealt_with c' h' e)) (undo_all rn rows todo c') (h @ h')
      | Raised e \<Rightarrow> uncancelled (h @ h') \<longrightarrow> Raised e = Returned () \<and> failed_undos c \<subseteq> failed_undos c' \<and>
          (\<forall>e \<in> set ((i, u) # todo). dealt_with c' (h @ h') e)"
      using rest one by (cases x) auto
  qed
  then show ?case unfolding e undo_all.simps safe_aseq .
qed

lemma rollback_deals:
  "safe (=) (\<lambda>_ _. True) (\<lambda>x c' h'. uncancelled h' \<longrightarrow> x = Returned () \<and> (\<forall>e \<in> set (x_compensations c). dealt_with c' h' e))
    (rollback rn c) h"
proof -
  have all: "safe (=) (\<lambda>_ _. True) (\<lambda>x c' h'. uncancelled h' \<longrightarrow> x = Returned () \<and>
      (\<forall>e \<in> set (x_compensations c). dealt_with c' h' e)) (undo_all rn rows (rev (x_compensations c)) c) h1" for rows h1
    by (rule safe_mono [OF undo_all_deals]) simp
  then show ?thesis unfolding rollback_def rollback_rows_def acatch_exception_def
    by (auto simp: vcg)
qed

definition all_dealt :: "run_ctx \<Rightarrow> 'a outcome \<Rightarrow> run_ctx \<Rightarrow> event list \<Rightarrow> bool" where
  "all_dealt c x c' h \<longleftrightarrow> (uncancelled h \<longrightarrow> rp_rollback_skipped (x_report c') \<noteq> None \<or>
     (\<forall>e \<in> set (x_compensations c). dealt_with c' h e))"

lemma failure_deals:
  assumes "rn_rollback rn"
  shows "safe (=) (\<lambda>_ _. True) (all_dealt c) (handle_forward_failure rn e c) h"
proof -
  let ?tail = "abind (aget (\<lambda>c. x_report c)) (\<lambda>r.
          araise (if rp_rollback_failed r = [] \<or> e = Cancelled then e else Group (e # rollback_errors r)))"
  have tail: "all_dealt c (Returned ()) c1 h1 \<Longrightarrow> safe (=) (\<lambda>_ _. True) (all_dealt c) (?tail c1) h1" for c1 h1
    by (simp add: vcg all_dealt_def)
  have undo: "safe (=) (\<lambda>_ _. True) (\<lambda>x c' h'. case x of Returned v \<Rightarrow> safe (=) (\<lambda>_ _. True) (all_dealt c) (?tail c') h'
      | Raised e \<Rightarrow> all_dealt c (Raised e) c' h') (rollback rn c) h1" for h1
  proof (rule safe_mono [OF rollback_deals [of c rn h1]])
    fix x h' and c' :: run_ctx
    assume r: "uncancelled (h1 @ h') \<longrightarrow> x = Returned () \<and> (\<forall>e \<in> set (x_compensations c). dealt_with c' (h1 @ h') e)"
    show "case x of Returned v \<Rightarrow> safe (=) (\<lambda>_ _. True) (all_dealt c) (?tail c') (h1 @ h')
      | Raised e \<Rightarrow> all_dealt c (Raised e) c' (h1 @ h')"
    proof (cases x)
      case (Returned v)
      have "all_dealt c (Returned ()) c' (h1 @ h')" using r by (auto simp: all_dealt_def)
      then show ?thesis using Returned tail by simp
    next
      case (Raised e)
      then show ?thesis using r by (auto simp: all_dealt_def)
    qed
  qed
  have skip: "safe (=) (\<lambda>_ _. True) (all_dealt c) (aseq (on_report (\<lambda>r. r\<lparr>rp_rollback_skipped := Some why\<rparr>)) ?tail c) h1" for why h1
    unfolding safe_aseq on_report_def safe_aupd by (simp add: tail all_dealt_def)
  have both: "safe (=) (\<lambda>_ _. True) (all_dealt c) (aseq (case lost of
           Some why \<Rightarrow> on_report (\<lambda>r. r\<lparr>rp_rollback_skipped := Some why\<rparr>) | None \<Rightarrow> rollback rn) ?tail c) h1" for lost h1
    by (cases lost) (simp_all add: skip, simp add: safe_aseq undo)
  show ?thesis
    unfolding handle_forward_failure_def using assms
    by (simp add: safe_abind [of _ _ _ await_lost] safe_await_lost) (rule allI, rule both)
qed

subsection \<open>What a failed run leaves\<close>

lemma predelete_creates_nothing: "step_ok R (\<lambda>_ q. \<not> is_create q) anywhen (predelete_node rn i)"
proof -
  have "step_ok R (\<lambda>_ q. \<not> is_create q) anywhen (predestroy rn i)"
    unfolding predestroy_def write_ahead_def plain_defs by (intro step_rules) simp_all
  moreover have "step_ok R (\<lambda>_ q. \<not> is_create q) anywhen (delete_node rn i)"
    by (rule delete_node_ok) simp_all
  ultimately show ?thesis unfolding predelete_node_def by (intro step_rules)
qed

lemma phase_calls:
  assumes run: "phase_run g reverse parallelism work c t s" and ok: "\<And>n. step_ok (\<lambda>_ _. True) (\<lambda>_ q. P q) anywhen (work n)" and "x \<in> set t"
  shows "P (fst (snd x))"
proof -
  obtain k where k: "k < length t" "t ! k = x" using assms(3) by (auto simp: in_set_conv_nth)
  note at = calls_of_nth [OF k(1), of "fst x", unfolded k(2), OF refl]
  have "calls_of (fst x) t \<noteq> []" using at(1) by auto
  then obtain c0 r where tr: "traces (\<lambda>_ _. True) (work (fst x) c0) (calls_of (fst x) t) r"
    using phase_trace [OF run] by blast
  have "safe (\<lambda>_ _. True) (\<lambda>_ q. P q) (\<lambda>_ _ _. True) (work (fst x) c0) []" using ok by (simp add: step_ok_def)
  from safe_traces [OF tr this] at show ?thesis by metis
qed

lemma forward_covered:
  assumes "forward_pass rn parallelism c t c1 r" and "rn_rollback rn" and "undoable rn i"
    and created: "(i, Create p res, Outputs outs, True) \<in> set t"
  shows "\<exists>u. (i, u) \<in> set (x_compensations c1) \<and> undoes_create p (with_outputs res outs) i u"
proof -
  have none: False if "phase_run g reverse parallelism (predelete_node rn) c t0 s" "(i, Create p res, Outputs outs, True) \<in> set t0" for g reverse t0 s
    using phase_calls [OF that(1) predelete_creates_nothing that(2)] by (simp add: is_create_def)
  show ?thesis
    using assms(1)
  proof cases
    case direct
    then show ?thesis using covered_in_phase [OF _ _ assms(2,3) created] by blast
  next
    case (predelete_failed s e)
    then show ?thesis using none created by blast
  next
    case (after_predelete t0 s0 t' s)
    then have "(i, Create p res, Outputs outs, True) \<in> set t'" using none created by auto
    then show ?thesis using after_predelete covered_in_phase [OF _ _ assms(2,3)] by blast
  qed
qed

text \<open>
  C1: a failed run leaves nothing it created unaccounted for. When a run that rolls back on
  failure has rolled back (its rollback made some call), in any interleaving of its steps and
  whatever the providers and the store answered, then every resource a provider said it created
  has been destroyed, by the outputs it was created with, or the report names its node among
  those that could not be undone, or says the rollback was skipped. (The rollback runs shielded
  from cancellation; the rows the run replaces are recorded ones.)
\<close>

theorem failed_run_accounts_for_creates:
  assumes "run_phases rn parallelism b c t t' c' b' x" and "t' \<noteq> []" and "rn_rollback rn" and "undoable rn i"
    and "uncancelled t'" and "(i, Create p res, Outputs outs, True) \<in> set t"
  shows "(Destroy p (with_outputs res outs), Ok, True) \<in> set t' \<or> i \<in> fst ` set (rp_rollback_failed (x_report c')) \<or>
    rp_rollback_skipped (x_report c') \<noteq> None"
  using assms(1)
proof cases
  case (rolled_back c1 e e')
  obtain u where u: "(i, u) \<in> set (x_compensations c1)" "undoes_create p (with_outputs res outs) i u"
    using forward_covered [OF rolled_back(3) assms(3,4,6)] by blast
  from safe_traces [OF rolled_back(4) failure_deals [OF assms(3), of c1 e "[]"]]
  have "all_dealt c1 (Raised e' :: unit outcome) c' t'" by simp
  then have "rp_rollback_skipped (x_report c') \<noteq> None \<or> dealt_with c' t' (i, u)"
    using assms(5) u(1) by (auto simp: all_dealt_def)
  then show ?thesis using u(2) by (force simp: dealt_with_def failed_undos_def dom_map_of_conv_image_fst)
qed (use assms(2) in auto)

end
