(* ===== verification/ExecRuns.thy ===== *)
theory ExecRuns
  imports ExecWhole
begin

text \<open>
  Concrete runs of the executor's steps: the witnesses of its safety properties, and a replace
  whose failure loses the identity of a live resource.
\<close>

subsection \<open>A concrete run\<close>

definition page_node :: irnode where
  "page_node = \<lparr>nid = ''s:web.Page:p'', ntype = ''web.Page'', nprovider = ''web'', nprovider_version = ''1.2.0'',
     nproperties = [(''url'', PStr ''x'')], ndependencies = [], nprevent_destroy = False, ncbd = False, nignore_changes = [],
     naliases = [], ndepends_on = [], nkind = ResourceKind\<rparr>"

definition page_row :: "string \<Rightarrow> string \<Rightarrow> props \<Rightarrow> state_node" where
  "page_row h status outs = \<lparr>sid = nid page_node, stype = ''web.Page'', sprovider = ''web'', sprovider_version = ''1.2.0'', sinput_hash = h,
     soutputs = outs, sproperties = [(''url'', PStr ''x'')], sdependencies = [], sprevent_destroy = False, sstatus = status,
     ssecret_digests = [], sref_digests = [], sdepends_on = []\<rparr>"

definition page_env :: apply_env where
  "page_env = \<lparr>ae_types = [(''web.Page'', page_class)], ae_providers = [''web''],
     ae_secrets = \<lparr>api_resolve = (\<lambda>n p. Inr n), api_digest = (\<lambda>s p. Inr p), api_seal = (\<lambda>s. Inr (PStr s)), api_unseal = Inr\<rparr>,
     ae_stack_outputs = [], ae_py = plain_env, ae_format = str_only, 
     ae_validate = (\<lambda>c d. Inr (AList.update ''tags'' (dget d ''tags'' (PDict [])) d)), ae_sha = (\<lambda>s. s), ae_jsonable = Inr\<rparr>"

definition page_run :: "change \<Rightarrow> state_graph \<Rightarrow> run_env" where
  "page_run ch prior = \<lparr>rn_desired = \<lparr>ds_ir = \<lparr>gnodes = [page_node], gversion = IR_VERSION\<rparr>,
       ds_graph = \<lparr>node_ids = [nid page_node], deps = [(nid page_node, [])], dependents = [(nid page_node, [])]\<rparr>,
       ds_hashes = [(nid page_node, ''h2'')], ds_resources = [(nid page_node, page_resource)], ds_outputs = []\<rparr>,
     rn_env = page_env, rn_changes = [(nid page_node, ch)], rn_prior = prior,
     rn_prior_graph = \<lparr>node_ids = [nid page_node], deps = [(nid page_node, [])], dependents = [(nid page_node, [])]\<rparr>,
     rn_prior_outputs = [], rn_predeleted = {}, rn_rollback = True\<rparr>"

definition page_change :: "action \<Rightarrow> change" where
  "page_change a = (plain_change (nid page_node) a)\<lparr>cdesired := Some page_node\<rparr>"

lemma page_resolved: "resolve_for_apply page_env [] page_resource = Inr page_resource"
proof -
  have "case resolve_for_apply page_env [] page_resource of Inr r \<Rightarrow> rclass r = page_class \<and> rname r = ''p'' \<and>
      rstack r = ''s'' \<and> rvalues r = rvalues page_resource \<and> rlifecycle r = None \<and> rdepends_on r = [] | _ \<Rightarrow> False"
    by code_simp
  then show ?thesis
    by (auto split: sum.splits intro!: resource.equality simp: page_resource_def)
qed

lemma page_rows:
  "node_row (page_run ch prior) [] (nid page_node) page_resource [] CREATING = Inr (page_row ''h2'' CREATING [])"
  "node_row (page_run ch prior) [(nid page_node, [(''id'', PStr ''1'')])] (nid page_node) page_resource [(''id'', PStr ''1'')] CREATED =
     Inr (page_row ''h2'' CREATED [(''id'', PStr ''1'')])"
  by code_simp+

lemma traces_refl: "traces (=) p t r \<Longrightarrow> (\<And>c. R c c) \<Longrightarrow> traces R p t r"
  by (induction rule: traces.induct) (auto intro: traces.intros)

lemmas act_defs = abind_def aseq_def acatch_def aret_def araise_def aget_def aupd_def alift_def aread_def
  await_rows_def await_lost_def await_ok_def await_outputs_def acatch_exception_def plain_defs

definition page_created :: "event list" where
  "page_created = [(PutRow (page_row ''h2'' CREATING []), Ok, True), (Create ''web'' page_resource, Outputs [(''id'', PStr ''1'')], True)]"

lemma page_run_simps [simp]:
  "rn_changes (page_run ch prior) = [(nid page_node, ch)]" "rn_env (page_run ch prior) = page_env" "rn_prior (page_run ch prior) = prior"
  "ds_resources (rn_desired (page_run ch prior)) = [(nid page_node, page_resource)]" "rn_predeleted (page_run ch prior) = {}"
  "rn_rollback (page_run ch prior)" "provider_for page_env ''web'' = Inr ''web''" "rc_provider (rclass page_resource) = ''web''"
  by (simp_all add: page_run_def provider_for_def page_env_def page_resource_def page_class_def)

lemma page_create_trace:
  "\<exists>c'. traces (=) (apply_node (page_run (page_change CREATE) []) (nid page_node) (toy_ctx []))
     (page_created @ [(PutRow (page_row ''h2'' CREATED [(''id'', PStr ''1'')]), Ok, True)]) (Some (c', Returned ()))"
  unfolding page_created_def
  by (simp add: apply_node_def apply_one_def create_node_def write_ahead_def persist_def act_defs page_change_def plain_change_def
      lookup_def toy_ctx_def page_resolved page_rows traces_Ask event_ok_def) blast

theorem creates_are_tracked_witness: "creating (rows_after (take 1 page_created) Map.empty (nid page_node))"
proof -
  obtain c' where "traces (=) (apply_node (page_run (page_change CREATE) []) (nid page_node) (toy_ctx []))
     (page_created @ [(PutRow (page_row ''h2'' CREATED [(''id'', PStr ''1'')]), Ok, True)]) (Some (c', Returned ()))"
    using page_create_trace by blast
  from creates_are_tracked [OF this, of Map.empty 1] show ?thesis by (simp add: page_created_def)
qed

theorem created_has_undo_witness:
  "\<exists>(c' :: run_ctx) u. (nid page_node, u) \<in> set (x_compensations c') \<and>
     undoes_create ''web'' (with_outputs page_resource [(''id'', PStr ''1'')]) (nid page_node) u"
proof -
  obtain c' where "traces (=) (apply_node (page_run (page_change CREATE) []) (nid page_node) (toy_ctx []))
     (page_created @ [(PutRow (page_row ''h2'' CREATED [(''id'', PStr ''1'')]), Ok, True)]) (Some (c', Returned ()))"
    using page_create_trace by blast
  then have "traces only_adds (apply_node (page_run (page_change CREATE) []) (nid page_node) (toy_ctx []))
     (page_created @ [(PutRow (page_row ''h2'' CREATED [(''id'', PStr ''1'')]), Ok, True)]) (Some (c', Returned ()))"
    by (rule traces_refl) (simp add: only_adds_def)
  from created_has_undo [OF this, of "page_change CREATE" "''web''" page_resource "[(''id'', PStr ''1'')]"]
  show ?thesis by (auto simp: page_change_def plain_change_def digests_total_def page_created_def)
qed

text \<open>A create-before-destroy replace of the same node.\<close>

definition old_page :: state_node where
  "old_page = page_row ''h1'' CREATED [(''id'', PStr ''1'')]"

definition old_resource :: resource where
  "old_resource = (case reconstruct page_env [] old_page of Inr r \<Rightarrow> r | Inl e \<Rightarrow> page_resource)"

lemma old_page_rebuilt: "reconstruct page_env [] old_page = Inr old_resource" "rclass old_resource = page_class"
proof -
  have ok: "case reconstruct page_env [] old_page of Inr r \<Rightarrow> True | Inl e \<Rightarrow> False" by code_simp
  then show eq: "reconstruct page_env [] old_page = Inr old_resource" by (auto simp: old_resource_def split: sum.splits)
  then show "rclass old_resource = page_class"
    using reconstruct_class [OF eq] by (auto simp: old_page_def page_row_def page_env_def)
qed

definition replace_change :: "bool \<Rightarrow> change" where
  "replace_change cbd = (page_change REPLACE)\<lparr>cprior := Some old_page, ccbd := cbd\<rparr>"

definition companion_page :: state_node where
  "companion_page = old_page\<lparr>sid := cbd_companion_id (nid page_node)\<rparr>"

definition page_replaced :: "event list" where
  "page_replaced = [(PutRow companion_page, Ok, True), (PutRow (page_row ''h2'' CREATING []), Ok, True),
     (Create ''web'' page_resource, Outputs [(''id'', PStr ''1'')], True)]"

lemma page_replace_trace:
  "\<exists>c'. traces (=) (apply_node (page_run (replace_change True) [(nid page_node, old_page)]) (nid page_node) (toy_ctx []))
     (page_replaced @ [(PutRow (page_row ''h2'' CREATED [(''id'', PStr ''1'')]), Ok, True)]) (Some (c', Returned ()))"
  unfolding page_replaced_def
  by (simp add: apply_node_def apply_one_def replace_node_def replace_cbd_def write_ahead_def persist_def act_defs replace_change_def
      page_change_def plain_change_def lookup_def toy_ctx_def page_resolved page_rows old_page_rebuilt companion_page_def
      cbd_companion_id_def COMPANION_SUFFIX_def Let_def traces_Ask event_ok_def) blast

theorem replaced_stays_tracked_witness:
  "rows_after (take 2 page_replaced) Map.empty (cbd_companion_id (nid page_node)) = Some companion_page"
proof -
  obtain c' where "traces (=) (apply_node (page_run (replace_change True) [(nid page_node, old_page)]) (nid page_node) (toy_ctx []))
     (page_replaced @ [(PutRow (page_row ''h2'' CREATED [(''id'', PStr ''1'')]), Ok, True)]) (Some (c', Returned ()))"
    using page_replace_trace by blast
  from replaced_stays_tracked [OF this, of "replace_change True" old_page 2 2 "''web''" page_resource Map.empty] show ?thesis
    by (simp add: page_replaced_def replace_change_def page_change_def companion_page_def)
qed

text \<open>A conditional replace of a protected node that turns out to change nothing.\<close>

definition protected_node :: irnode where
  "protected_node = page_node\<lparr>nprevent_destroy := True\<rparr>"

definition doubtful_change :: change where
  "doubtful_change = (replace_change False)\<lparr>cdesired := Some protected_node, cfields := [''url''], cconditional := True\<rparr>"

definition collapsed_page :: state_node where
  "collapsed_page = old_page\<lparr>sinput_hash := ''h2''\<rparr>"

lemma doubtful_confirmed:
  "confirm_replace (page_run doubtful_change [(nid page_node, old_page)]) [] (nid page_node) doubtful_change =
     Inr ((doubtful_change)\<lparr>caction := NOOP, cfields := [], cconditional := False\<rparr>)"
  "collapsed_row (page_run doubtful_change [(nid page_node, old_page)]) [] old_page = Inr collapsed_page"
  by code_simp+

lemma protected_trace:
  "\<exists>c'. traces (=) (apply_node (page_run doubtful_change [(nid page_node, old_page)]) (nid page_node) (toy_ctx []))
     [(PutRow collapsed_page, Ok, True)] (Some (c', Returned ()))"
  by (simp add: apply_node_def apply_one_def record_collapsed_def rewrite_undoable_def act_defs doubtful_change_def replace_change_def
      page_change_def plain_change_def toy_ctx_def doubtful_confirmed [unfolded doubtful_change_def replace_change_def
      page_change_def plain_change_def toy_ctx_def, simplified] traces_Ask event_ok_def) blast

theorem protected_never_destroyed_witness:
  "\<not> touches_resource (PutRow collapsed_page)"
proof -
  obtain c' where "traces (=) (apply_node (page_run doubtful_change [(nid page_node, old_page)]) (nid page_node) (toy_ctx []))
     [(PutRow collapsed_page, Ok, True)] (Some (c', Returned ()))"
    using protected_trace by blast
  from protected_never_destroyed [OF this, of doubtful_change protected_node] show ?thesis
    by (simp add: doubtful_change_def replace_change_def page_change_def protected_node_def)
qed

text \<open>The delete of a node.\<close>

lemma old_page_fields: "sprovider old_page = ''web''" "sid old_page = nid page_node" "soutputs old_page = [(''id'', PStr ''1'')]"
  by (simp_all add: old_page_def page_row_def)

definition page_deleted :: "event list" where
  "page_deleted = [(Destroy ''web'' old_resource, Ok, True), (ForgetRow (nid page_node), Ok, True)]"

lemma page_delete_trace:
  "\<exists>c'. traces (=) (destroy_node (page_run (plain_change (nid page_node) DELETE) [(nid page_node, old_page)]) (nid page_node)
     ((toy_ctx [])\<lparr>x_delete_ids := {nid page_node}\<rparr>)) page_deleted (Some (c', Returned ()))"
  unfolding page_deleted_def
  by (simp add: destroy_node_def delete_node_def forget_def act_defs toy_ctx_def old_page_rebuilt page_class_def
      old_page_fields traces_Ask event_ok_def) blast

theorem forgotten_after_destroyed_witness: "\<exists>p res. (Destroy p res, Ok, True) \<in> set (take 1 page_deleted)"
proof -
  obtain c' where "traces (=) (destroy_node (page_run (plain_change (nid page_node) DELETE) [(nid page_node, old_page)]) (nid page_node)
     ((toy_ctx [])\<lparr>x_delete_ids := {nid page_node}\<rparr>)) page_deleted (Some (c', Returned ()))"
    using page_delete_trace by blast
  from forgotten_after_destroyed [OF this, of 1 "nid page_node"] show ?thesis
    by (auto simp: page_deleted_def data_row_def old_page_def page_row_def page_env_def page_class_def)
qed

text \<open>
  C20: a destroy that fails loses the resource. A destroy-before-create replace first writes the
  row of the replacement over the row of the resource it is about to destroy, and records an
  undo only once the replacement exists; when the provider then refuses the destroy, the live
  resource's outputs, its physical id among them, are in no row, no undo will restore them, and
  the next plan creates the node as if nothing had been there.
\<close>

theorem failed_destroy_forgets_identity:
  "\<exists>c' e ch. traces (=) (apply_node (page_run (replace_change False) [(nid page_node, old_page)]) (nid page_node) (toy_ctx []))
       [(PutRow (page_row ''h2'' CREATING []), Ok, True), (Destroy ''web'' old_resource, Err (Foreign ''refused''), False)] (Some (c', Raised e)) \<and>
     soutputs old_page = [(''id'', PStr ''1'')] \<and> x_compensations c' = [] \<and>
     rows_after [(PutRow (page_row ''h2'' CREATING []), Ok, True), (Destroy ''web'' old_resource, Err (Foreign ''refused''), False)]
       [nid page_node \<mapsto> old_page] = [nid page_node \<mapsto> page_row ''h2'' CREATING []] \<and>
     change_for \<lparr>in_wants = [(nid page_node, page_node)], in_hashes = [(nid page_node, ''h2'')],
         in_rows = [(nid page_node, page_row ''h2'' CREATING [])], in_muts = [], in_checks = []\<rparr> (nid page_node) = Inr ch \<and> caction ch = CREATE"
proof -
  have "\<exists>c' e. traces (=) (apply_node (page_run (replace_change False) [(nid page_node, old_page)]) (nid page_node) (toy_ctx []))
       [(PutRow (page_row ''h2'' CREATING []), Ok, True), (Destroy ''web'' old_resource, Err (Foreign ''refused''), False)] (Some (c', Raised e)) \<and>
     x_compensations c' = []"
    by (simp add: apply_node_def apply_one_def replace_node_def replace_dbc_def write_ahead_def act_defs replace_change_def
        page_change_def plain_change_def lookup_def toy_ctx_def page_resolved page_rows old_page_rebuilt traces_Ask event_ok_def) auto
  then show ?thesis
    by (simp add: change_for_def old_page_def page_row_def CREATED_def CREATING_def plain_change_def)
qed

text \<open>A commit that sets one output, prunes another and leaves a third stack's alone.\<close>

definition page_outputs :: desired where
  "page_outputs = \<lparr>ds_ir = \<lparr>gnodes = [page_node], gversion = IR_VERSION\<rparr>,
     ds_graph = \<lparr>node_ids = [], deps = [], dependents = []\<rparr>, ds_hashes = [],
     ds_resources = [(nid page_node, page_resource)], ds_outputs = [(''s:url'', PStr ''x'')]\<rparr>"

definition stored_outputs :: memory where
  "stored_outputs = new_memory\<lparr>moutputs := [(''s:old'', PStr ''1''), (''t:old'', PStr ''2'')]\<rparr>"

theorem commit_outputs_scoped_witness:
  "\<exists>r' b'. commit_outputs page_outputs page_env [] [] empty_report stored_outputs = Inr (r', b') \<and>
     map_of (moutputs b') ''s:old'' = None \<and> map_of (moutputs b') ''t:old'' = Some (PStr ''2'')"
proof -
  have "case commit_outputs page_outputs page_env [] [] empty_report stored_outputs of Inr (r', b') \<Rightarrow> True | _ \<Rightarrow> False"
    by code_simp
  then obtain r' b' where c: "commit_outputs page_outputs page_env [] [] empty_report stored_outputs = Inr (r', b')"
    by (auto split: sum.splits prod.splits)
  have "wf_dict (ds_outputs page_outputs)" by (simp add: page_outputs_def)
  from commit_outputs_scoped [OF c this] have
    k: "map_of (moutputs b') k = (if stack_of k \<in> {stack_of (nid page_node)} then None else map_of (moutputs stored_outputs) k)"
    if "k \<noteq> ''s:url''" for k
    using that by (auto simp: page_outputs_def split: if_splits option.splits dest!: spec [of _ k])
  have "stack_of ''s:old'' = stack_of (nid page_node)" "stack_of ''t:old'' \<noteq> stack_of (nid page_node)" by code_simp+
  then show ?thesis using c k [of "''s:old''"] k [of "''t:old''"] by (simp add: stored_outputs_def)
qed

subsection \<open>A phase of one node, and a whole run that fails\<close>

definition prog_of :: "'c \<Rightarrow> 'a outcome \<Rightarrow> ('c, 'a) prog" where
  "prog_of c x = (case x of Returned v \<Rightarrow> Done v c | Raised e \<Rightarrow> Raise e c)"

lemma settle_again: "settle n p (settle n (Ask q c k) s) = settle n p s"
  by (cases p) (simp_all add: settle_def)

lemma phase_solo:
  "traces (=) p h r \<Longrightarrow> r = Some (c1, x) \<Longrightarrow> uncancelled h \<Longrightarrow> phase_run g reverse parallelism work c t (settle n p s) \<Longrightarrow>
    phase_run g reverse parallelism work c (t @ map (Pair n) h) (settle n (prog_of c1 x) s)"
proof (induction arbitrary: t rule: traces.induct)
  case (answered q a landed d d' k h r)
  have "ph_at (settle n (Ask q d k) s) n = Suspended (Ask q d k)" "ph_ctx (settle n (Ask q d k) s) = d"
    by (simp_all add: settle_def)
  moreover have "a \<noteq> Err Cancelled" using answered.prems by simp
  ultimately have "phase_run g reverse parallelism work c (t @ [(n, (q, a, landed))]) (settle n (k a d) s)"
    using phase_run.resumed [OF answered.prems(3), of n q d k a landed] answered.hyps(1) settle_again [of n "k a d" q d k s] by simp
  then show ?case using answered.IH [of "t @ [(n, (q, a, landed))]"] answered.hyps(2) answered.prems by simp
qed (auto simp: prog_of_def)

abbreviation page_graph :: digraph where
  "page_graph \<equiv> \<lparr>node_ids = [nid page_node], deps = [(nid page_node, [])], dependents = [(nid page_node, [])]\<rparr>"

lemma page_phase:
  assumes "traces (=) (work (nid page_node) c) h (Some (c1, x))" and "uncancelled h"
  shows "phase_run page_graph False 1 work c (map (Pair (nid page_node)) h) (settle (nid page_node) (prog_of c1 x) (phase_start page_graph c))"
proof -
  have "needs page_graph False (nid page_node) \<subseteq> {}" by (simp add: needs_def dget_def)
  then have "phase_run page_graph False 1 work c [] (settle (nid page_node) (work (nid page_node) c) (phase_start page_graph c))"
    using phase_run.began [OF phase_run.opened [of 1 page_graph False work c], of "nid page_node"]
    by (simp add: phase_start_def suspended_def split: if_splits)
  from phase_solo [OF assms(1) refl assms(2) this] show ?thesis by simp
qed

definition failing_create :: "event list" where
  "failing_create = page_created @ [(PutRow (page_row ''h2'' CREATED [(''id'', PStr ''1'')]), Err (Foreign ''disk''), False)]"

definition page_undo :: undo where
  "page_undo = UndoCreate ''web'' (with_outputs page_resource [(''id'', PStr ''1'')]) (nid page_node)"

definition failing_undo :: "event list" where
  "failing_undo = [(LeaseLost, Lost None, True), (LoadRows, Rows [(nid page_node, page_row ''h2'' CREATING [])], True),
     (LeaseLost, Lost None, True), (PutRow ((page_row ''h2'' CREATING [])\<lparr>sinput_hash := NO_INPUT_HASH\<rparr>), Ok, True),
     (Destroy ''web'' (with_outputs page_resource [(''id'', PStr ''1'')]), Ok, True), (DropRow (nid page_node), Ok, True)]"

abbreviation create_run :: run_env where
  "create_run \<equiv> page_run (page_change CREATE) []"

lemma failing_create_trace:
  "\<exists>c1 e. traces (=) (apply_node create_run (nid page_node) (toy_ctx [])) failing_create (Some (c1, Raised e)) \<and>
     e \<noteq> Cancelled \<and> x_compensations c1 = [(nid page_node, page_undo)] \<and> x_report c1 = empty_report\<lparr>rp_created := [nid page_node]\<rparr>"
  unfolding failing_create_def page_created_def
  by (simp add: apply_node_def apply_one_def create_node_def write_ahead_def persist_def act_defs page_change_def plain_change_def
      lookup_def toy_ctx_def page_resolved page_rows page_undo_def failed_node_def traces_Ask event_ok_def empty_report_def) auto

lemma failing_undo_trace:
  assumes "x_compensations c1 = [(nid page_node, page_undo)]" and "x_report c1 = empty_report\<lparr>rp_created := [nid page_node]\<rparr>"
  shows "\<exists>c2 e'. traces (=) (handle_forward_failure create_run e c1) failing_undo (Some (c2, Raised e'))"
  using assms unfolding failing_undo_def
  by (simp add: handle_forward_failure_def rollback_def rollback_rows_def undo_one_def mark_stale_def run_undo_def drop_row_def act_defs
      page_undo_def empty_report_def traces_Ask event_ok_def) auto

theorem failed_run_accounts_for_creates_witness:
  "\<exists>t c' b' x. run_phases create_run 1 new_memory (toy_ctx []) t failing_undo c' b' x \<and>
     ((Destroy ''web'' (with_outputs page_resource [(''id'', PStr ''1'')]), Ok, True) \<in> set failing_undo \<or>
      nid page_node \<in> fst ` set (rp_rollback_failed (x_report c')) \<or> (\<exists>why. rp_rollback_skipped (x_report c') = Some why))"
proof -
  obtain c1 e where fwd: "traces (=) (apply_node create_run (nid page_node) (toy_ctx [])) failing_create (Some (c1, Raised e))"
    and e: "e \<noteq> Cancelled" and c1: "x_compensations c1 = [(nid page_node, page_undo)]" "x_report c1 = empty_report\<lparr>rp_created := [nid page_node]\<rparr>"
    using failing_create_trace by blast
  let ?t = "map (Pair (nid page_node)) failing_create"
  let ?s = "settle (nid page_node) (Raise e c1) (phase_start page_graph (toy_ctx []))"
  have "uncancelled failing_create" by (simp add: failing_create_def page_created_def)
  from page_phase [where work = "apply_node create_run", OF fwd this] have "phase_run page_graph False 1 (apply_node create_run) (toy_ctx []) ?t ?s"
    by (simp add: prog_of_def)
  moreover have "phase_over ?s" "phase_exn ?s = Some (Group [e])" "ph_ctx ?s = c1"
    using e by (auto simp: phase_over_def suspended_def settle_def phase_start_def drop_waiting_def phase_exn_def)
  ultimately have "forward_pass create_run 1 (toy_ctx []) ?t c1 (Some (Group [e]))"
    using forward_pass.direct [of create_run 1 "toy_ctx []" ?t ?s] by (simp add: page_run_def)
  moreover obtain c2 e' where "traces (=) (handle_forward_failure create_run (Group [e]) c1) failing_undo (Some (c2, Raised e'))"
    using failing_undo_trace [OF c1] by blast
  ultimately have run: "run_phases create_run 1 new_memory (toy_ctx []) ?t failing_undo c2 new_memory (Raised e')"
    by (rule run_phases.rolled_back)
  have u: "failing_undo \<noteq> []" "uncancelled failing_undo" "rn_rollback create_run" "undoable create_run (nid page_node)"
    "(nid page_node, Create ''web'' page_resource, Outputs [(''id'', PStr ''1'')], True) \<in> set ?t"
    by (simp_all add: failing_undo_def undoable_def digests_total_def page_change_def plain_change_def failing_create_def page_created_def)
  from failed_run_accounts_for_creates [OF run u(1,3,4,2,5)] run show ?thesis by (simp only: not_None_eq) blast
qed

text \<open>The forward pass that creates the page, as a phase.\<close>

definition page_calls :: "(node_id \<times> event) list" where
  "page_calls = map (Pair (nid page_node)) (page_created @ [(PutRow (page_row ''h2'' CREATED [(''id'', PStr ''1'')]), Ok, True)])"

lemma page_forward:
  "\<exists>s. phase_run page_graph False 1 (apply_node create_run) (toy_ctx []) page_calls s \<and> ph_failed s = [] \<and> \<not> ph_cancelled s \<and>
     ph_done s = [nid page_node]"
proof -
  obtain c' where tr: "traces (=) (apply_node create_run (nid page_node) (toy_ctx []))
     (page_created @ [(PutRow (page_row ''h2'' CREATED [(''id'', PStr ''1'')]), Ok, True)]) (Some (c', Returned ()))"
    using page_create_trace by blast
  have "uncancelled (page_created @ [(PutRow (page_row ''h2'' CREATED [(''id'', PStr ''1'')]), Ok, True)])"
    by (simp add: page_created_def)
  from page_phase [where work = "apply_node create_run", OF tr this] show ?thesis
    by (intro exI [of _ "settle (nid page_node) (prog_of c' (Returned ())) (phase_start page_graph (toy_ctx []))"])
      (simp add: page_calls_def prog_of_def settle_def phase_start_def)
qed

theorem forward_creates_tracked_witness: "creating (rows_after (map snd (take 1 page_calls)) Map.empty (nid page_node))"
proof -
  obtain s where run: "phase_run page_graph False 1 (apply_node create_run) (toy_ctx []) page_calls s" using page_forward by blast
  have "apart page_graph (nid page_node)" "keyed (rn_prior create_run)" "reads_keyed (map snd page_calls)"
    by (simp_all add: apart_def keyed_def page_calls_def page_created_def reads_keyed_def)
  from forward_creates_tracked [OF run this(3,1,2), of Map.empty 1] show ?thesis
    by (simp add: page_calls_def page_created_def)
qed

theorem phase_ordered_witness:
  "fst (page_calls ! 1) \<notin> needs page_graph False (nid page_node)"
proof -
  obtain s where run: "phase_run page_graph False 1 (apply_node create_run) (toy_ctx []) page_calls s" using page_forward by blast
  have "page_calls = [] @ (nid page_node, snd (hd page_calls)) # tl page_calls" by (simp add: page_calls_def page_created_def)
  with run have "phase_run page_graph False 1 (apply_node create_run) (toy_ctx []) ([] @ (nid page_node, snd (hd page_calls)) # tl page_calls) s"
    by simp
  from phase_ordered [OF this] show ?thesis by (simp add: page_calls_def page_created_def)
qed

theorem phase_never_stuck_witness:
  "\<exists>s :: run_ctx phase. phase_run page_graph False 1 (apply_node create_run) (toy_ctx []) page_calls s \<and> set (ph_done s) = {nid page_node} \<and> card (suspended s) \<le> 1"
proof -
  obtain s where s: "phase_run page_graph False 1 (apply_node create_run) (toy_ctx []) page_calls s" "ph_done s = [nid page_node]"
    using page_forward by blast
  have "kid_edges (deps page_graph) = {}" by (auto simp: kid_edges_def dget_def split: if_splits)
  then have "wf_digraph page_graph" by (simp add: wf_digraph_def dget_def acyclic_def)
  from phase_never_stuck [OF this s(1)] s show ?thesis by auto
qed

end
