(* ===== verification/Refresh.thy ===== *)
theory Refresh
  imports ExecContext
begin

text \<open>
  Refresh (\<open>reconcile/refresh.py\<close>): what a provider's read of a recorded resource says of it, and
  what is folded back into its row. Reads run concurrently and share nothing they change, so a
  check is a function of the row, the read's answer and the outputs the refresh began with.
\<close>

datatype drift = IN_SYNC | DRIFTED | MISSING

record node_drift =
  dr_id :: node_id
  dr_kind :: drift
  dr_changed :: "(string \<times> (pyval \<times> pyval)) list"
  dr_unobserved :: "string list"
  dr_observed :: "string list"

type_synonym drift_report = "node_drift list"

definition drifted_nodes :: "drift_report \<Rightarrow> drift_report" where
  "drifted_nodes r = filter (\<lambda>n. dr_kind n = DRIFTED) r"

definition missing_nodes :: "drift_report \<Rightarrow> drift_report" where
  "missing_nodes r = filter (\<lambda>n. dr_kind n = MISSING) r"

definition has_drift :: "drift_report \<Rightarrow> bool" where
  "has_drift r = list_ex (\<lambda>n. dr_kind n \<noteq> IN_SYNC) r"

subsection \<open>Comparing\<close>

definition resolved_properties :: "state_node \<Rightarrow> resource \<Rightarrow> (aerror, props) result" where
  "resolved_properties s res = rbind (input_values res) (\<lambda>inputs.
     Inr (map (\<lambda>(k, v). (k, dget inputs k v)) (sproperties s)))"

text \<open>\<open>canonicalize\<close> of a dictionary whose keys are field names.\<close>

definition canon_props :: "pyenv \<Rightarrow> props \<Rightarrow> (aerror, props) result" where
  "canon_props env m = rmap (\<lambda>(k, v). rbind (canonicalize env v) (\<lambda>w. Inr (k, w))) m"

definition overlay :: "props \<Rightarrow> props \<Rightarrow> props" where
  "overlay m m' = fold (\<lambda>(k, v). AList.update k v) m' m"

definition observed_drift :: "pyenv \<Rightarrow> props \<Rightarrow> props \<Rightarrow> props \<Rightarrow> (aerror, (string \<times> (pyval \<times> pyval)) list) result" where
  "observed_drift env resolved outputs live =
     rbind (canon_props env (overlay resolved outputs)) (\<lambda>baseline.
     rbind (canon_props env live) (\<lambda>seen_live.
       Inr (map (\<lambda>(k, v). (k, (dget baseline k PNone, v)))
         (filter (\<lambda>(k, v). \<not> py_eq (dget baseline k PNone) v) (sort_key fst seen_live)))))"

definition unobserved_inputs :: "props \<Rightarrow> props \<Rightarrow> string list \<times> string list" where
  "unobserved_inputs resolved live = (let ks = sort (map fst resolved) in
     (filter (\<lambda>k. k \<in> fst ` set live) ks, filter (\<lambda>k. k \<notin> fst ` set live) ks))"

definition REDACTED :: string where "REDACTED = ''(sensitive)''"

definition classify_drift ::
  "pyenv \<Rightarrow> state_node \<Rightarrow> props \<Rightarrow> props option \<Rightarrow> string list \<Rightarrow> secrets_api \<Rightarrow> (aerror, node_drift) result" where
  "classify_drift env s resolved live hidden secrets = (case live of
      None \<Rightarrow> Inr \<lparr>dr_id = sid s, dr_kind = MISSING, dr_changed = [], dr_unobserved = [], dr_observed = []\<rparr>
    | Some vs \<Rightarrow>
        rbind (unseal_outputs secrets (soutputs s)) (\<lambda>outputs.
        rbind (observed_drift env resolved outputs vs) (\<lambda>pairs.
          let changed = map (\<lambda>(k, p). (k, if k \<in> set hidden then (PStr REDACTED, PStr REDACTED) else p)) pairs;
              (observed, unobserved) = unobserved_inputs resolved vs
          in Inr \<lparr>dr_id = sid s, dr_kind = (if changed \<noteq> [] then DRIFTED else IN_SYNC), dr_changed = changed,
               dr_unobserved = unobserved, dr_observed = observed\<rparr>)))"

subsection \<open>Folding\<close>

text \<open>What \<open>sync\<close> does with the row it is given: nothing for the row itself.\<close>

datatype row_sync = Keep | Write state_node | Drop

definition synced_missing :: "state_node \<Rightarrow> bool \<Rightarrow> row_sync" where
  "synced_missing s prune = (if sstatus s \<noteq> CREATED then Keep else if prune then Drop
     else if sinput_hash s = NO_INPUT_HASH then Keep else Write (s\<lparr>sinput_hash := NO_INPUT_HASH\<rparr>))"

record folding =
  fo_properties :: props
  fo_outputs :: props
  fo_drifted :: bool

definition fold_one :: "props \<Rightarrow> string \<times> pyval \<Rightarrow> folding \<Rightarrow> folding" where
  "fold_one comparable kv f = (case kv of (k, v) \<Rightarrow>
     if k \<notin> fst ` set (fo_properties f) then f\<lparr>fo_outputs := AList.update k v (fo_outputs f)\<rparr>
     else if \<not> py_eq (dget comparable k PNone) v then
       f\<lparr>fo_drifted := True,
         fo_properties := (if py_eq (dget (fo_properties f) k PNone) (dget comparable k PNone)
           then AList.update k v (fo_properties f) else fo_properties f)\<rparr>
     else f)"

text \<open>Equality of two dictionaries; \<open>==\<close> on containers takes the same object for equal.\<close>

definition same_value :: "pyval \<Rightarrow> pyval \<Rightarrow> bool" where
  "same_value v w \<longleftrightarrow> v = w \<or> py_eq v w"

definition same_props :: "props \<Rightarrow> props \<Rightarrow> bool" where
  "same_props m m' \<longleftrightarrow> fst ` set m = fst ` set m' \<and>
     list_all (\<lambda>k. same_value (dget m k PNone) (dget m' k PNone)) (map fst m)"

definition folded ::
  "pyenv \<Rightarrow> state_node \<Rightarrow> props \<Rightarrow> props \<Rightarrow> resource_class option \<Rightarrow> secrets_api \<Rightarrow> (aerror, row_sync) result" where
  "folded env s resolved live cls secrets =
     rbind (unseal_outputs secrets (soutputs s)) (\<lambda>stored.
     rbind (canon_props env resolved) (\<lambda>comparable.
     rbind (canon_props env live) (\<lambda>seen_live.
       let f = fold (fold_one comparable) seen_live \<lparr>fo_properties = sproperties s, fo_outputs = stored, fo_drifted = False\<rparr> in
       rbind (if same_props (fo_outputs f) stored then Inr (soutputs s)
              else case cls of None \<Rightarrow> Inr (fo_outputs f) | Some c \<Rightarrow> seal_outputs secrets c (fo_outputs f)) (\<lambda>sealed.
         let h = (if fo_drifted f then NO_INPUT_HASH else sinput_hash s) in
         Inr (if same_props (fo_properties f) (sproperties s) \<and> same_props sealed (soutputs s) \<and> h = sinput_hash s then Keep
              else Write (s\<lparr>sproperties := fo_properties f, soutputs := sealed, sinput_hash := h\<rparr>))))))"

text \<open>
  One node: what it writes, and its verdict or why it failed. The read answers or raises; a
  cancellation is not tagged.
\<close>

definition check_node ::
  "apply_env \<Rightarrow> live_outputs \<Rightarrow> bool \<Rightarrow> bool \<Rightarrow> (string \<Rightarrow> resource \<Rightarrow> exn + props option) \<Rightarrow> state_node
     \<Rightarrow> row_sync \<times> (exn + node_drift)" where
  "check_node env outs writes prune read s =
     (let reading = (case reconstruct env outs s of Inl e \<Rightarrow> Inl (Fail e)
            | Inr res \<Rightarrow> (case provider_for env (sprovider s) of Inl e \<Rightarrow> Inl (Fail e)
               | Inr p \<Rightarrow> (case read p res of Inl e \<Rightarrow> Inl e | Inr live \<Rightarrow> Inr (res, live))))
      in case reading of Inl e \<Rightarrow> (Keep, Inl (failed_node (sid s) ''read'' e))
       | Inr (res, live) \<Rightarrow>
           (case resolved_properties s res of Inl e \<Rightarrow> (Keep, Inl (Fail e))
            | Inr resolved \<Rightarrow>
               (let cls = map_of (ae_types env) (stype s);
                    synced = (if \<not> writes then Inr Keep
                      else case live of None \<Rightarrow> Inr (synced_missing s prune)
                           | Some vs \<Rightarrow> folded (ae_py env) s resolved vs cls (ae_secrets env));
                    hidden = (case cls of None \<Rightarrow> [] | Some c \<Rightarrow> sensitive_fields (rc_fields c))
                in case synced of Inl e \<Rightarrow> (Keep, Inl (Fail e))
                 | Inr w \<Rightarrow> (w, case classify_drift (ae_py env) s resolved live hidden (ae_secrets env) of
                     Inl e \<Rightarrow> Inl (Fail e) | Inr d \<Rightarrow> Inr d))))"

subsection \<open>What a fold changes\<close>

text \<open>An input the read reports with another value than the one it was read with.\<close>

definition input_moved :: "props \<Rightarrow> props \<Rightarrow> props \<Rightarrow> string \<Rightarrow> bool" where
  "input_moved properties comparable live k \<longleftrightarrow>
     k \<in> fst ` set properties \<and> (\<exists>v. map_of live k = Some v \<and> \<not> py_eq (dget comparable k PNone) v)"

text \<open>It is stored as it was read: a literal, not a marker.\<close>

definition stored_literally :: "props \<Rightarrow> props \<Rightarrow> string \<Rightarrow> bool" where
  "stored_literally properties comparable k \<longleftrightarrow> py_eq (dget properties k PNone) (dget comparable k PNone)"

lemma fold_one_keys: "fst ` set (fo_properties (fold_one comparable kv f)) = fst ` set (fo_properties f)"
  by (cases kv) (auto simp: fold_one_def keys_update)

lemma fold_keys: "fst ` set (fo_properties (fold (fold_one comparable) lv f)) = fst ` set (fo_properties f)"
  by (induction lv arbitrary: f) (simp_all add: fold_one_keys)

lemma fold_result:
  "wf_dict lv \<Longrightarrow>
    (\<forall>k. map_of (fo_properties (fold (fold_one comparable) lv f)) k = (case map_of (fo_properties f) k of None \<Rightarrow> None | Some p \<Rightarrow>
      if input_moved (fo_properties f) comparable lv k \<and> stored_literally (fo_properties f) comparable k then map_of lv k else Some p)) \<and>
    (\<forall>k. map_of (fo_outputs (fold (fold_one comparable) lv f)) k =
      (if k \<in> fst ` set (fo_properties f) \<or> map_of lv k = None then map_of (fo_outputs f) k else map_of lv k)) \<and>
    (fo_drifted (fold (fold_one comparable) lv f) \<longleftrightarrow> fo_drifted f \<or> (\<exists>k. input_moved (fo_properties f) comparable lv k))"
proof (induction lv arbitrary: f)
  case Nil
  then show ?case by (auto simp: input_moved_def split: option.splits)
next
  case (Cons kv lv)
  obtain j v where kv: "kv = (j, v)" by (cases kv)
  let ?g = "fold_one comparable kv f"
  have j: "map_of lv j = None" and wf: "wf_dict lv" using Cons.prems kv by (auto simp: map_of_eq_None_iff)
  have props: "map_of (fo_properties ?g) m = (if m = j \<and> input_moved (fo_properties f) comparable (kv # lv) j \<and>
      stored_literally (fo_properties f) comparable j then Some v else map_of (fo_properties f) m)" for m
    by (auto simp: fold_one_def kv input_moved_def stored_literally_def update_conv')
  have outs: "map_of (fo_outputs ?g) m = (if m = j \<and> j \<notin> fst ` set (fo_properties f) then Some v else map_of (fo_outputs f) m)" for m
    by (auto simp: fold_one_def kv update_conv')
  have keys: "fst ` set (fo_properties ?g) = fst ` set (fo_properties f)" by (rule fold_one_keys)
  have lit: "stored_literally (fo_properties ?g) comparable m = stored_literally (fo_properties f) comparable m" if "m \<noteq> j" for m
    using props [of m] that by (simp add: stored_literally_def dget_def)
  have moved: "input_moved (fo_properties ?g) comparable lv m \<longleftrightarrow> m \<noteq> j \<and> input_moved (fo_properties f) comparable (kv # lv) m" for m
    using j unfolding input_moved_def keys by (auto simp: kv)
  have drifted: "fo_drifted ?g \<longleftrightarrow> fo_drifted f \<or> input_moved (fo_properties f) comparable (kv # lv) j"
    by (auto simp: fold_one_def kv input_moved_def)
  note IH = Cons.IH [OF wf, of ?g]
  show ?case
  proof (intro conjI allI)
    fix k
    have h: "map_of (fo_properties (fold (fold_one comparable) lv ?g)) k = (case map_of (fo_properties ?g) k of None \<Rightarrow> None | Some p \<Rightarrow>
        if input_moved (fo_properties ?g) comparable lv k \<and> stored_literally (fo_properties ?g) comparable k then map_of lv k else Some p)"
      using IH by blast
    show "map_of (fo_properties (fold (fold_one comparable) (kv # lv) f)) k = (case map_of (fo_properties f) k of None \<Rightarrow> None | Some p \<Rightarrow>
        if input_moved (fo_properties f) comparable (kv # lv) k \<and> stored_literally (fo_properties f) comparable k then map_of (kv # lv) k else Some p)"
    proof (cases "k = j")
      case True
      have "\<not> input_moved (fo_properties f) comparable (kv # lv) j" if "map_of (fo_properties f) j = None"
        using that by (simp add: input_moved_def map_of_eq_None_iff)
      moreover have "map_of (fo_properties (fold (fold_one comparable) lv ?g)) k = map_of (fo_properties ?g) j"
        using h True moved [of j] by (simp split: option.splits)
      ultimately show ?thesis using props [of j] True by (auto simp: kv split: option.splits)
    next
      case False
      then have "map_of (kv # lv) k = map_of lv k" by (simp add: kv)
      then show ?thesis using h False moved [of k] lit [OF False] props [of k] by (auto split: option.splits if_splits)
    qed
  next
    fix k
    have "map_of (fo_outputs (fold (fold_one comparable) lv ?g)) k =
        (if k \<in> fst ` set (fo_properties ?g) \<or> map_of lv k = None then map_of (fo_outputs ?g) k else map_of lv k)"
      using IH by blast
    then show "map_of (fo_outputs (fold (fold_one comparable) (kv # lv) f)) k =
        (if k \<in> fst ` set (fo_properties f) \<or> map_of (kv # lv) k = None then map_of (fo_outputs f) k else map_of (kv # lv) k)"
      unfolding keys using outs [of k] j by (cases "k = j") (simp_all add: kv)
  next
    have "fo_drifted (fold (fold_one comparable) lv ?g) \<longleftrightarrow> fo_drifted ?g \<or> (\<exists>k. input_moved (fo_properties ?g) comparable lv k)"
      using IH by blast
    then show "fo_drifted (fold (fold_one comparable) (kv # lv) f) \<longleftrightarrow> fo_drifted f \<or> (\<exists>k. input_moved (fo_properties f) comparable (kv # lv) k)"
      using drifted moved unfolding fold_simps comp_apply by metis
  qed
qed

lemma canon_keys: "canon_props env m = Inr m' \<Longrightarrow> map fst m' = map fst m"
proof -
  assume "canon_props env m = Inr m'"
  then have "length m' = length m" "\<forall>i < length m. fst (m' ! i) = fst (m ! i)"
    unfolding canon_props_def rmap_Inr_iff by (auto simp: rbind_Inr_iff split: prod.splits) (metis fst_conv surj_pair)
  then show ?thesis by (intro nth_equalityI) auto
qed

text \<open>
  What a refresh folds into a row. Of the row only the inputs, the outputs and the hash may
  change. An input is overwritten by what the provider reported only when that differs from what
  it was read with and it is stored as a literal, so a reference stays a reference; a reported
  field that is not an input becomes an output; and the hash is cleared exactly when some input
  moved, so that the next plan looks at the node again.
\<close>

lemma folded_row:
  assumes "folded env s resolved live cls secrets = Inr (Write row)" and "wf_dict live"
    and "canon_props env resolved = Inr comparable" and "canon_props env live = Inr seen_live" and "unseal_outputs secrets (soutputs s) = Inr stored"
  shows "row = s\<lparr>sproperties := sproperties row, soutputs := soutputs row, sinput_hash := sinput_hash row\<rparr> \<and>
    (\<forall>k. map_of (sproperties row) k = (case map_of (sproperties s) k of None \<Rightarrow> None | Some p \<Rightarrow>
       if input_moved (sproperties s) comparable seen_live k \<and> stored_literally (sproperties s) comparable k then map_of seen_live k else Some p)) \<and>
    sinput_hash row = (if \<exists>k. input_moved (sproperties s) comparable seen_live k then NO_INPUT_HASH else sinput_hash s) \<and>
    (\<exists>outs. (\<forall>k. map_of outs k = (if k \<in> fst ` set (sproperties s) \<or> map_of seen_live k = None then map_of stored k else map_of seen_live k)) \<and>
       (if same_props outs stored then soutputs row = soutputs s
        else case cls of None \<Rightarrow> soutputs row = outs | Some c \<Rightarrow> seal_outputs secrets c outs = Inr (soutputs row)))"
proof -
  let ?start = "\<lparr>fo_properties = sproperties s, fo_outputs = stored, fo_drifted = False\<rparr>"
  let ?f = "fold (fold_one comparable) seen_live ?start"
  have wf: "wf_dict seen_live" using canon_keys [OF assms(4)] assms(2) by simp
  have f: "map_of (fo_properties ?f) k = (case map_of (sproperties s) k of None \<Rightarrow> None | Some p \<Rightarrow>
      if input_moved (sproperties s) comparable seen_live k \<and> stored_literally (sproperties s) comparable k then map_of seen_live k else Some p)"
    "map_of (fo_outputs ?f) k = (if k \<in> fst ` set (sproperties s) \<or> map_of seen_live k = None then map_of stored k else map_of seen_live k)"
    "fo_drifted ?f \<longleftrightarrow> (\<exists>k. input_moved (sproperties s) comparable seen_live k)" for k
    using fold_result [OF wf, where f = ?start and comparable = comparable] unfolding folding.select_convs by blast+
  obtain sealed where sealed: "(if same_props (fo_outputs ?f) stored then Inr (soutputs s)
              else case cls of None \<Rightarrow> Inr (fo_outputs ?f) | Some c \<Rightarrow> seal_outputs secrets c (fo_outputs ?f)) = Inr sealed"
    and row: "row = s\<lparr>sproperties := fo_properties ?f, soutputs := sealed,
      sinput_hash := (if fo_drifted ?f then NO_INPUT_HASH else sinput_hash s)\<rparr>"
    using assms(1) by (auto simp: folded_def assms(3-5) rbind_Inr_iff Let_def split: if_splits)
  have "if same_props (fo_outputs ?f) stored then soutputs row = soutputs s
        else case cls of None \<Rightarrow> soutputs row = fo_outputs ?f | Some c \<Rightarrow> seal_outputs secrets c (fo_outputs ?f) = Inr (soutputs row)"
    using sealed row by (auto split: if_splits option.splits)
  then have "\<exists>outs. (\<forall>k. map_of outs k = (if k \<in> fst ` set (sproperties s) \<or> map_of seen_live k = None then map_of stored k else map_of seen_live k)) \<and>
       (if same_props outs stored then soutputs row = soutputs s
        else case cls of None \<Rightarrow> soutputs row = outs | Some c \<Rightarrow> seal_outputs secrets c outs = Inr (soutputs row))"
    using f(2) by blast
  then show ?thesis using f(1,3) row by simp
qed

text \<open>
  A refresh never drops the row of a resource that may exist. When the provider could not
  find a resource, its row is dropped only if it was confirmed and pruning was asked for; the
  row of a create still in flight is kept as it is; a confirmed row that stays is marked for the
  next plan.
\<close>

lemma missing_row_kept:
  "(synced_missing s prune = Drop \<longleftrightarrow> sstatus s = CREATED \<and> prune) \<and>
   (synced_missing s prune = Keep \<longleftrightarrow> sstatus s \<noteq> CREATED \<or> \<not> prune \<and> sinput_hash s = NO_INPUT_HASH) \<and>
   (synced_missing s prune = Write r \<longleftrightarrow>
      sstatus s = CREATED \<and> \<not> prune \<and> sinput_hash s \<noteq> NO_INPUT_HASH \<and> r = s\<lparr>sinput_hash := NO_INPUT_HASH\<rparr>)"
  by (auto simp: synced_missing_def)

definition echo_row :: state_node where
  "echo_row = \<lparr>sid = ''s:web.Page:p'', stype = ''web.Page'', sprovider = ''web'', sprovider_version = ''1.2.0'', sinput_hash = ''h1'',
     soutputs = [(''url'', PStr ''x''), (''id'', PStr ''1'')], sproperties = [(''url'', PStr ''x'')], sdependencies = [],
     sprevent_destroy = False, sstatus = CREATED, ssecret_digests = [], sref_digests = [], sdepends_on = []\<rparr>"

definition open_secrets :: secrets_api where
  "open_secrets = \<lparr>api_resolve = (\<lambda>n p. Inr n), api_digest = (\<lambda>s p. Inr p), api_seal = (\<lambda>s. Inr (PStr s)), api_unseal = Inr\<rparr>"

definition folded_echo :: state_node where
  "folded_echo = echo_row\<lparr>sproperties := [(''url'', PStr ''y'')], sinput_hash := NO_INPUT_HASH\<rparr>"

text \<open>
  Drift of an input that the provider also returned as an output is reported for ever. The
  comparison takes the output's value over the input's, the fold updates only the input: after
  the fold the row holds the live value as its input, a second refresh with the same read writes
  nothing, and still reports the field as drifted.
\<close>

lemma echoed_output_drifts_forever:
  "folded plain_env echo_row [(''url'', PStr ''x'')] [(''url'', PStr ''y'')] None open_secrets = Inr (Write folded_echo) \<and>
   folded plain_env folded_echo [(''url'', PStr ''y'')] [(''url'', PStr ''y'')] None open_secrets = Inr Keep \<and>
   classify_drift plain_env folded_echo [(''url'', PStr ''y'')] (Some [(''url'', PStr ''y'')]) [] open_secrets =
     Inr \<lparr>dr_id = ''s:web.Page:p'', dr_kind = DRIFTED, dr_changed = [(''url'', (PStr ''x'', PStr ''y''))], dr_unobserved = [], dr_observed = [''url'']\<rparr>"
  by (intro conjI; code_simp)

text \<open>The witness: a literal input that moved, a reference that did not stay a value, an output that is new.\<close>

definition tagged_row :: state_node where
  "tagged_row = echo_row\<lparr>sproperties := [(''url'', PStr ''x''), (''vpc'', pdict [(REF_KEY, PStr ''s:net.Vpc:v#id'')])], soutputs := [(''id'', PStr ''1'')]\<rparr>"

end
