(* ===== verification/Selection.thy ===== *)
theory Selection
  imports Lowering GraphSelect
begin

text \<open>
  Which nodes a run acts on (\<open>engine/selection.py\<close>): \<open>--target\<close>, \<open>--replace\<close> and \<open>--env\<close> over a
  compiled configuration and the recorded state. A set of ids is a HOL set where it is a result;
  the ids a pattern may name are listed, since what a pattern matches does not depend on their
  order. The searches are \<open>None\<close> if they do not end, which the lemmas exclude.
\<close>

definition known_ids :: "compiled \<Rightarrow> state_graph \<Rightarrow> node_id list" where
  "known_ids c prior = sorted_set (node_ids (co_graph c) @ map fst prior)"

definition DEFAULT_STACK :: string where "DEFAULT_STACK = ''default''"

definition target_selection ::
  "compiled \<Rightarrow> state_graph \<Rightarrow> string list \<Rightarrow> (aerror, node_id set option) result option" where
  "target_selection c prior patterns =
     (if patterns = [] then Some (Inr None)
      else case match_targets patterns (known_ids c prior) DEFAULT_STACK of
        Inl e \<Rightarrow> Some (Inl e)
      | Inr seeds \<Rightarrow> map_option (\<lambda>r. rbind r (\<lambda>S. Inr (Some (S \<union> seeds))))
          (closure (co_graph c) (filter (\<lambda>i. i \<in> seeds) (node_ids (co_graph c))) False))"

definition within_envs ::
  "compiled \<Rightarrow> state_graph \<Rightarrow> node_id set option \<Rightarrow> string list \<Rightarrow> (aerror, node_id set option) result" where
  "within_envs c prior selected patterns =
     (let excluded = envs_excluded c in
      if excluded = [] then Inr selected
      else let in_scope = set (filter (\<lambda>i. stack_of i \<notin> set excluded) (known_ids c prior))
      in case selected of None \<Rightarrow> Inr (Some in_scope)
       | Some S \<Rightarrow> (let narrowed = S \<inter> in_scope in
           if S \<noteq> {} \<and> narrowed = {} then Inl (TargetError ''--target matched only excluded environments'' (patterns @ excluded))
           else Inr (Some narrowed)))"

definition match_only :: "compiled \<Rightarrow> state_graph \<Rightarrow> string list \<Rightarrow> (aerror, node_id set) result" where
  "match_only c prior patterns =
     (if patterns = [] then Inr {} else match_targets patterns (known_ids c prior) DEFAULT_STACK)"

definition narrowing ::
  "compiled \<Rightarrow> state_graph \<Rightarrow> string list \<Rightarrow> string list \<Rightarrow> (aerror, node_id set option \<times> node_id set) result option" where
  "narrowing c prior targets replaced = map_option (\<lambda>r.
     rbind r (\<lambda>selected.
     rbind (within_envs c prior selected targets) (\<lambda>narrowed.
     rbind (match_only c prior replaced) (\<lambda>forced. Inr (narrowed, forced)))))
       (target_selection c prior targets)"

definition destroy_selection :: "state_graph \<Rightarrow> string list \<Rightarrow> (aerror, node_id set) result option" where
  "destroy_selection prior patterns =
     (case match_targets patterns (map fst prior) DEFAULT_STACK of
        Inl e \<Rightarrow> Some (Inl e)
      | Inr seeds \<Rightarrow> Option.bind (state_digraph prior) (\<lambda>r. case r of
            Inl e \<Rightarrow> Some (Inl e)
          | Inr g \<Rightarrow> closure g (filter (\<lambda>i. i \<in> seeds) (map fst prior)) True))"

record import_request =
  rq_node :: node_id
  rq_external :: "string option"
  rq_field :: "string option"

definition rank_of :: "node_id list \<Rightarrow> node_id \<Rightarrow> nat" where
  "rank_of order i = dget (zip order [0..<length order]) i (length order)"

definition import_order :: "compiled \<Rightarrow> import_request list \<Rightarrow> (aerror, import_request list) result option" where
  "import_order c requests = map_option (\<lambda>r. rbind r (\<lambda>order.
     Inr (sort_key (\<lambda>q. rank_of order (rq_node q)) requests))) (topological_order (co_graph c) False)"

subsection \<open>What a selection holds\<close>

lemma set_known_ids [simp]: "set (known_ids c prior) = set (node_ids (co_graph c)) \<union> fst ` set prior"
  by (simp add: known_ids_def)

lemma narrowing_total: "wf_digraph (co_graph c) \<Longrightarrow> narrowing c prior ts rs \<noteq> None"
proof -
  assume wf: "wf_digraph (co_graph c)"
  have "closure (co_graph c) (filter (\<lambda>i. i \<in> S) (node_ids (co_graph c))) False \<noteq> None" for S
    using closure_least [OF wf, where seeds = "filter (\<lambda>i. i \<in> S) (node_ids (co_graph c))" and reverse = False] by auto
  then show ?thesis by (auto simp: narrowing_def target_selection_def split: sum.splits)
qed

lemma target_selection_Some:
  assumes "wf_digraph (co_graph c)" and "target_selection c prior ts = Some (Inr (Some S))"
  shows "ts \<noteq> []" and "\<exists>seeds. match_targets ts (known_ids c prior) DEFAULT_STACK = Inr seeds \<and> seeds \<subseteq> S"
    and "S \<subseteq> set (known_ids c prior)" and "\<And>i. i \<in> S \<Longrightarrow> needs (co_graph c) False i \<subseteq> S"
proof -
  let ?g = "co_graph c"
  show ts: "ts \<noteq> []" using assms(2) by (auto simp: target_selection_def)
  obtain seeds where seeds: "match_targets ts (known_ids c prior) DEFAULT_STACK = Inr seeds"
    using assms(2) ts by (auto simp: target_selection_def split: sum.splits)
  have known: "seeds \<subseteq> set (known_ids c prior)" using match_targets_exact [of ts "known_ids c prior" DEFAULT_STACK] seeds by blast
  let ?seeds = "filter (\<lambda>i. i \<in> seeds) (node_ids ?g)"
  obtain T where T: "closure ?g ?seeds False = Some (Inr T)" "T \<subseteq> set (node_ids ?g)" "set ?seeds \<subseteq> T"
    "\<forall>i \<in> T. needs ?g False i \<subseteq> T"
    using closure_least [OF assms(1), where seeds = ?seeds and reverse = False] by (auto simp del: set_filter)
  have S: "S = T \<union> seeds" using assms(2) seeds T(1) ts by (simp add: target_selection_def)
  show "\<exists>seeds. match_targets ts (known_ids c prior) DEFAULT_STACK = Inr seeds \<and> seeds \<subseteq> S" using S seeds by blast
  show "S \<subseteq> set (known_ids c prior)" using S T(2) known by auto
  show "needs ?g False i \<subseteq> S" if "i \<in> S" for i
  proof (cases "i \<in> set (node_ids ?g)")
    case True
    then have "i \<in> T" using that S T(3) by auto
    then show ?thesis using T(4) S by blast
  next
    case False
    then have "needs ?g False i = {}"
      using assms(1) unfolding wf_digraph_def needs_def by (simp add: dget_def map_of_eq_None_iff [THEN iffD2])
    then show ?thesis by simp
  qed
qed

text \<open>
  What a run may touch. A narrowing always ends. When it succeeds, nothing it selects lies in
  an environment the run left out; without patterns everything known in the other environments is
  selected, and no narrowing at all means neither patterns nor an excluded environment; with
  patterns, each pattern's matches outside the excluded environments are selected together with
  whatever they depend on there. Only known nodes are named, and what is forced is exactly what
  the replace patterns match.
\<close>

lemma narrowing_selects:
  assumes "wf_digraph (co_graph c)"
  shows "narrowing c prior ts rs \<noteq> None \<and> (narrowing c prior ts rs = Some (Inr (sel, forced)) \<longrightarrow>
    (sel = None \<longleftrightarrow> ts = [] \<and> envs_excluded c = []) \<and>
    (\<forall>S. sel = Some S \<longrightarrow>
       S \<subseteq> set (known_ids c prior) \<and> (\<forall>i \<in> S. stack_of i \<notin> set (envs_excluded c)) \<and>
       (ts = [] \<longrightarrow> S = {i \<in> set (known_ids c prior). stack_of i \<notin> set (envs_excluded c)}) \<and>
       (\<forall>p \<in> set ts. \<forall>i \<in> set (match_one p (known_ids c prior) DEFAULT_STACK). stack_of i \<notin> set (envs_excluded c) \<longrightarrow> i \<in> S) \<and>
       (\<forall>i \<in> S. \<forall>j \<in> needs (co_graph c) False i. ts \<noteq> [] \<and> stack_of j \<notin> set (envs_excluded c) \<longrightarrow> j \<in> S)) \<and>
    forced = (\<Union>p \<in> set rs. set (match_one p (known_ids c prior) DEFAULT_STACK)))"
proof (intro conjI impI)
  show "narrowing c prior ts rs \<noteq> None" by (rule narrowing_total [OF assms])
  assume n: "narrowing c prior ts rs = Some (Inr (sel, forced))"
  then obtain sel0 where sel0: "target_selection c prior ts = Some (Inr sel0)" "within_envs c prior sel0 ts = Inr sel"
    "match_only c prior rs = Inr forced"
    by (auto simp: narrowing_def rbind_Inr_iff)
  have none: "sel0 = None \<longleftrightarrow> ts = []"
    using sel0(1) by (auto simp: target_selection_def rbind_Inr_iff split: sum.splits if_splits)
  show "sel = None \<longleftrightarrow> ts = [] \<and> envs_excluded c = []"
    using sel0(2) none by (auto simp: within_envs_def Let_def split: if_splits option.splits)
  show "forced = (\<Union>p \<in> set rs. set (match_one p (known_ids c prior) DEFAULT_STACK))"
    using sel0(3) by (auto simp: match_only_def match_targets_Inr split: if_splits)
  show "\<forall>S. sel = Some S \<longrightarrow>
       S \<subseteq> set (known_ids c prior) \<and> (\<forall>i \<in> S. stack_of i \<notin> set (envs_excluded c)) \<and>
       (ts = [] \<longrightarrow> S = {i \<in> set (known_ids c prior). stack_of i \<notin> set (envs_excluded c)}) \<and>
       (\<forall>p \<in> set ts. \<forall>i \<in> set (match_one p (known_ids c prior) DEFAULT_STACK). stack_of i \<notin> set (envs_excluded c) \<longrightarrow> i \<in> S) \<and>
       (\<forall>i \<in> S. \<forall>j \<in> needs (co_graph c) False i. ts \<noteq> [] \<and> stack_of j \<notin> set (envs_excluded c) \<longrightarrow> j \<in> S)"
  proof (intro allI impI)
    fix S
    assume S: "sel = Some S"
    let ?in = "{i \<in> set (known_ids c prior). stack_of i \<notin> set (envs_excluded c)}"
    show "S \<subseteq> set (known_ids c prior) \<and> (\<forall>i \<in> S. stack_of i \<notin> set (envs_excluded c)) \<and>
       (ts = [] \<longrightarrow> S = ?in) \<and>
       (\<forall>p \<in> set ts. \<forall>i \<in> set (match_one p (known_ids c prior) DEFAULT_STACK). stack_of i \<notin> set (envs_excluded c) \<longrightarrow> i \<in> S) \<and>
       (\<forall>i \<in> S. \<forall>j \<in> needs (co_graph c) False i. ts \<noteq> [] \<and> stack_of j \<notin> set (envs_excluded c) \<longrightarrow> j \<in> S)"
    proof (cases sel0)
      case None
      then have "S = ?in" "ts = []"
        using sel0(2) S none unfolding within_envs_def by (auto simp: Let_def split: if_splits)
      then show ?thesis by auto
    next
      case (Some T)
      then have ts: "ts \<noteq> []" using none by blast
      note T = target_selection_Some [OF assms sel0(1) [unfolded Some]]
      have ST: "S = T \<inter> ?in"
      proof (cases "envs_excluded c = []")
        case True
        then have "S = T" using sel0(2) S Some by (simp add: within_envs_def)
        with T(3) True show ?thesis by auto
      next
        case False
        then show ?thesis using sel0(2) S Some by (auto simp: within_envs_def Let_def split: if_splits)
      qed
      obtain seeds where seeds: "match_targets ts (known_ids c prior) DEFAULT_STACK = Inr seeds" "seeds \<subseteq> T" using T(2) by blast
      have all: "set (match_one p (known_ids c prior) DEFAULT_STACK) \<subseteq> T" if "p \<in> set ts" for p
        using seeds that by (auto simp: match_targets_Inr)
      have one: "set (match_one p (known_ids c prior) DEFAULT_STACK) \<subseteq> set (known_ids c prior)" for p
        by (auto simp: match_one_def)
      show ?thesis
      proof (intro conjI ballI impI)
        show "S \<subseteq> set (known_ids c prior)" using ST by blast
        show "stack_of i \<notin> set (envs_excluded c)" if "i \<in> S" for i using that ST by blast
        show "S = ?in" if "ts = []" using that ts by blast
        show "i \<in> S" if "p \<in> set ts" "i \<in> set (match_one p (known_ids c prior) DEFAULT_STACK)" "stack_of i \<notin> set (envs_excluded c)" for p i
          using all [OF that(1)] one [of p] that(2,3) ST by blast
        show "j \<in> S" if "i \<in> S" "j \<in> needs (co_graph c) False i" "ts \<noteq> [] \<and> stack_of j \<notin> set (envs_excluded c)" for i j
          using T(3) T(4) [of i] that ST by blast
      qed
    qed
  qed
qed

subsection \<open>Targeted destroys\<close>

lemma state_ids: "(\<forall>(i, s) \<in> set prior. sid s = i) \<Longrightarrow> map nid (gnodes (ir_from_state prior b ig)) = map fst prior"
  by (auto simp: ir_from_state_def Let_def)

lemma state_digraph_result:
  assumes "wf_dict prior" and "\<forall>(i, s) \<in> set prior. sid s = i"
  shows "(\<exists>e. state_digraph prior = Some (Inl e)) \<or> (\<exists>g. state_digraph prior = Some (Inr g) \<and> wf_digraph g \<and>
    set (node_ids g) = fst ` set prior \<and>
    (\<forall>i j. j \<in> needs g True i \<longleftrightarrow> i \<in> fst ` set prior \<and> (\<exists>s. (j, s) \<in> set prior \<and> i \<in> set (sdependencies s) \<union> set (sdepends_on s))))"
proof -
  let ?ir = "ir_from_state prior False []"
  have ids: "map nid (gnodes ?ir) = map fst prior" using assms(2) by (rule state_ids)
  have known: "known_edges ?ir"
  proof -
    have "nid ` set (gnodes ?ir) = fst ` set prior" using ids by (metis list.set_map)
    then show ?thesis unfolding known_edges_def by (auto simp: ir_from_state_def Let_def)
  qed
  have edge: "(j, i) \<in> ir_edges ?ir \<longleftrightarrow> i \<in> fst ` set prior \<and> (\<exists>s. (j, s) \<in> set prior \<and> i \<in> set (sdependencies s) \<union> set (sdepends_on s))" for i j
  proof -
    obtain N where N: "gnodes ?ir = map (\<lambda>x. N (snd x)) prior" "\<And>s. nid (N s) = sid s"
      "\<And>s. set (edges (N s)) = (set (sdependencies s) \<union> set (sdepends_on s)) \<inter> fst ` set prior"
      by (rule that [of "\<lambda>s. \<lparr>nid = sid s, ntype = stype s, nprovider = sprovider s, nprovider_version = sprovider_version s,
        nproperties = [], ndependencies = filter (\<lambda>d. d \<in> fst ` set prior) (sdependencies s), nprevent_destroy = False, ncbd = False,
        nignore_changes = dget [] (sid s) [], naliases = [], ndepends_on = filter (\<lambda>d. d \<in> fst ` set prior) (sdepends_on s),
        nkind = ResourceKind\<rparr>"]) (auto simp: ir_from_state_def Let_def)
    have "(j, i) \<in> ir_edges ?ir \<longleftrightarrow> (\<exists>n \<in> set (gnodes ?ir). j = nid n \<and> i \<in> set (edges n))"
      unfolding ir_edges_def by blast
    also have "\<dots> \<longleftrightarrow> (\<exists>x \<in> set prior. j = sid (snd x) \<and> i \<in> (set (sdependencies (snd x)) \<union> set (sdepends_on (snd x))) \<inter> fst ` set prior)"
      unfolding N(1) set_map bex_simps(7) N(2,3) ..
    finally have "(j, i) \<in> ir_edges ?ir \<longleftrightarrow> (\<exists>x \<in> set prior. j = sid (snd x) \<and>
        i \<in> (set (sdependencies (snd x)) \<union> set (sdepends_on (snd x))) \<inter> fst ` set prior)" .
    moreover have "sid (snd x) = fst x" if "x \<in> set prior" for x using that assms(2) by auto
    ultimately show ?thesis by (metis (no_types, lifting) IntD1 IntD2 IntI fst_conv snd_conv prod.collapse)
  qed
  have d: "distinct (map nid (gnodes ?ir))" unfolding ids by (rule assms(1))
  show ?thesis
  proof (cases "acyclic (ir_edges ?ir)")
    case True
    then obtain g where g: "build_graph ?ir = Some (Inr (Inr g))" "wf_digraph g" "node_ids g = sort (map fst prior)" "dep_edges g = ir_edges ?ir"
      using build_graph_result [OF d] known ids by auto
    have "j \<in> needs g True i \<longleftrightarrow> (j, i) \<in> dep_edges g" for i j
      using g(2) by (auto simp: needs_def dep_edges_def kid_edges_def wf_digraph_def)
    then show ?thesis using g edge by (auto simp: state_digraph_def unwrap_def)
  next
    case False
    then show ?thesis using build_graph_result [OF d] known by (auto simp: state_digraph_def unwrap_def)
  qed
qed

definition takes_along :: "state_graph \<Rightarrow> string list \<Rightarrow> node_id set \<Rightarrow> bool" where
  "takes_along prior ps S \<longleftrightarrow> (\<forall>p \<in> set ps. set (match_one p (map fst prior) DEFAULT_STACK) \<subseteq> S) \<and>
    (\<forall>(j, s) \<in> set prior. \<forall>i \<in> set (sdependencies s) \<union> set (sdepends_on s). i \<in> S \<and> i \<in> fst ` set prior \<longrightarrow> j \<in> S)"

text \<open>
  C17: a targeted destroy leaves nothing that depends on what it removes. It always ends; when it
  succeeds, what it selects are rows, among them all that the patterns match, it contains with a
  row every row that depends on it by reference or by ordering, and it is the least such set.
\<close>

theorem destroy_selection_closed:
  assumes "wf_dict prior" and "\<forall>(i, s) \<in> set prior. sid s = i"
  shows "destroy_selection prior ps \<noteq> None \<and>
    (destroy_selection prior ps = Some (Inr S) \<longrightarrow> S \<subseteq> fst ` set prior \<and> takes_along prior ps S \<and> (\<forall>T. takes_along prior ps T \<longrightarrow> S \<subseteq> T))"
proof (cases "match_targets ps (map fst prior) DEFAULT_STACK")
  case (Inl e)
  then show ?thesis by (simp add: destroy_selection_def)
next
  case (Inr seeds)
  have seeds: "seeds = (\<Union>p \<in> set ps. set (match_one p (map fst prior) DEFAULT_STACK))" "seeds \<subseteq> fst ` set prior"
    using Inr match_targets_exact [of ps "map fst prior" DEFAULT_STACK] by (auto simp: match_targets_Inr)
  show ?thesis
  proof (cases "\<exists>e. state_digraph prior = Some (Inl e)")
    case True
    then show ?thesis using Inr by (auto simp: destroy_selection_def)
  next
    case False
    then obtain g where g: "state_digraph prior = Some (Inr g)" "wf_digraph g" "set (node_ids g) = fst ` set prior"
      "\<And>i j. j \<in> needs g True i \<longleftrightarrow> i \<in> fst ` set prior \<and> (\<exists>s. (j, s) \<in> set prior \<and> i \<in> set (sdependencies s) \<union> set (sdepends_on s))"
      using state_digraph_result [OF assms(1,2)] by blast
    let ?seeds = "filter (\<lambda>i. i \<in> seeds) (map fst prior)"
    have set_seeds: "set ?seeds = seeds" using seeds(2) by auto
    have sub: "set ?seeds \<subseteq> set (node_ids g)" unfolding set_seeds g(3) by (rule seeds(2))
    obtain R where R: "closure g ?seeds True = Some (Inr R)" "seeds \<subseteq> R" "R \<subseteq> fst ` set prior" "\<forall>i \<in> R. needs g True i \<subseteq> R"
      "\<forall>T. seeds \<subseteq> T \<longrightarrow> (\<forall>i \<in> T. needs g True i \<subseteq> T) \<longrightarrow> R \<subseteq> T"
      using closure_least [OF g(2) sub, where reverse = True] unfolding set_seeds g(3) by blast
    have d: "destroy_selection prior ps = Some (Inr R)" using Inr g(1) R(1) by (simp add: destroy_selection_def)
    have "(\<forall>p \<in> set ps. set (match_one p (map fst prior) DEFAULT_STACK) \<subseteq> T) \<longleftrightarrow> seeds \<subseteq> T" for T
      unfolding seeds(1) by (rule UN_subset_iff [symmetric])
    moreover have "(\<forall>(j, s) \<in> set prior. \<forall>i \<in> set (sdependencies s) \<union> set (sdepends_on s). i \<in> T \<and> i \<in> fst ` set prior \<longrightarrow> j \<in> T) \<longleftrightarrow>
        (\<forall>i \<in> T. needs g True i \<subseteq> T)" for T
      unfolding subset_iff g(4) by blast
    ultimately have all: "takes_along prior ps T \<longleftrightarrow> seeds \<subseteq> T \<and> (\<forall>i \<in> T. needs g True i \<subseteq> T)" for T
      unfolding takes_along_def by (intro conj_cong)
    show ?thesis using d R(2-5) unfolding all d by blast
  qed
qed

subsection \<open>Two environments\<close>

definition two_envs :: compiled where
  "two_envs = \<lparr>co_ir = \<lparr>gnodes = [], gversion = 1\<rparr>,
     co_graph = \<lparr>node_ids = [''common:t:n'', ''prod:t:b''], deps = [(''common:t:n'', []), (''prod:t:b'', [''common:t:n''])],
       dependents = [(''common:t:n'', [''prod:t:b'']), (''prod:t:b'', [])]\<rparr>,
     co_hashes = [], co_resources = [], co_bindings = [], co_outputs = [], co_inputs = [],
     co_envs_declared = [''dev'', ''prod''], co_envs_selected = [''prod'']\<rparr>"

definition env_row :: "node_id \<Rightarrow> node_id list \<Rightarrow> state_node" where
  "env_row i ds = \<lparr>sid = i, stype = ''t'', sprovider = ''p'', sprovider_version = ''1'', sinput_hash = ''h'', soutputs = [], sproperties = [],
     sdependencies = ds, sprevent_destroy = False, sstatus = CREATED, ssecret_digests = [], sref_digests = [], sdepends_on = []\<rparr>"

definition env_rows :: state_graph where
  "env_rows = [(''common:t:n'', env_row ''common:t:n'' []), (''dev:t:b'', env_row ''dev:t:b'' [''common:t:n'']),
     (''prod:t:b'', env_row ''prod:t:b'' [''common:t:n''])]"

lemma two_envs_wf: "wf_digraph (co_graph two_envs)"
proof -
  have "kid_edges (deps (co_graph two_envs)) = {(''prod:t:b'', ''common:t:n'')}"
    by (auto simp: kid_edges_def two_envs_def dget_def split: if_splits)
  then have "acyclic (kid_edges (deps (co_graph two_envs)))" by (simp add: acyclic_def trancl_insert)
  then show ?thesis by (auto simp: wf_digraph_def two_envs_def dget_def split: if_splits)
qed

theorem destroy_selection_closed_witness:
  "\<exists>S. destroy_selection env_rows [''common:t:n''] = Some (Inr S) \<and> ''dev:t:b'' \<in> S \<and> ''prod:t:b'' \<in> S"
proof -
  have d: "destroy_selection env_rows [''common:t:n''] = Some (Inr {''common:t:n'', ''dev:t:b'', ''prod:t:b''})" by code_simp
  have "wf_dict env_rows" "\<forall>(i, s) \<in> set env_rows. sid s = i" by (simp_all add: env_rows_def env_row_def)
  from destroy_selection_closed [OF this, of "[''common:t:n'']" "{''common:t:n'', ''dev:t:b'', ''prod:t:b''}"] d
  have "takes_along env_rows [''common:t:n''] {''common:t:n'', ''dev:t:b'', ''prod:t:b''}" by blast
  with d show ?thesis by blast
qed

end
