(* ===== verification/Policy.thy ===== *)
theory Policy
  imports Lowering Changes
begin

text \<open>
  Policies (\<open>policy/\<close>, \<open>engine/policy_eval.py\<close>): the bindings a configuration and its resource
  classes attach, the providers that evaluate them and the violations of a plan. What a policy
  says is a tag and what it interpolates. The bindings that the \<open>@policy\<close> decorator hangs on a
  class are a table by type name.
\<close>

subsection \<open>Interfaces\<close>

record policy_context =
  px_node :: node_id
  px_action :: action
  px_stack :: string
  px_resource :: "resource option"
  px_params :: props

definition param :: "policy_context \<Rightarrow> string \<Rightarrow> pyval \<Rightarrow> pyval" where
  "param x name d = dget (px_params x) name d"

datatype policy_result = Passed | Denied string "string list"

record violation =
  vi_policy :: string
  vi_level :: policy_level
  vi_node :: node_id
  vi_message :: policy_result

type_synonym policy_fn = "policy_context \<Rightarrow> (aerror, policy_result) result"

record policy_provider =
  pp_has :: "string \<Rightarrow> bool"
  pp_evaluate :: "string \<Rightarrow> policy_fn"

text \<open>The registry asks the providers in the order they were registered.\<close>

type_synonym policy_registry = "policy_provider list"

definition registry_register :: "policy_provider \<Rightarrow> policy_registry \<Rightarrow> policy_registry" where
  "registry_register p r = r @ [p]"

definition registry_has :: "policy_registry \<Rightarrow> string \<Rightarrow> bool" where
  "registry_has r name = list_ex (\<lambda>p. pp_has p name) r"

fun registry_evaluate :: "policy_registry \<Rightarrow> string \<Rightarrow> policy_fn" where
  "registry_evaluate [] name x = Inl (RegistryError ''unknown policy'' [name])"
| "registry_evaluate (p # ps) name x = (if pp_has p name then pp_evaluate p name x else registry_evaluate ps name x)"

subsection \<open>The builtin policies\<close>

definition truthy :: "pyval \<Rightarrow> bool" where
  "truthy v = (case v of PNone \<Rightarrow> False | PBool b \<Rightarrow> b | PInt i \<Rightarrow> i \<noteq> 0 | PFloat f \<Rightarrow> f \<noteq> FNegZero \<and> f \<noteq> FNum 0
     | PStr s \<Rightarrow> s \<noteq> [] | PList vs \<Rightarrow> vs \<noteq> [] | PTuple vs \<Rightarrow> vs \<noteq> [] | PSet vs \<Rightarrow> vs \<noteq> [] | PDict m \<Rightarrow> m \<noteq> [] | _ \<Rightarrow> True)"

text \<open>\<open>_names\<close>; the value of a binding is data of the language, so its items print by \<open>str\<close>.\<close>

definition names_of :: "pyenv \<Rightarrow> policy_context \<Rightarrow> string \<Rightarrow> string \<Rightarrow> (aerror, string list) result" where
  "names_of env x policy p = (case param x p (PTuple []) of
      PStr s \<Rightarrow> Inr [s]
    | PList vs \<Rightarrow> Inr (map (py_str env) vs) | PTuple vs \<Rightarrow> Inr (map (py_str env) vs) | PSet vs \<Rightarrow> Inr (map (py_str env) vs)
    | _ \<Rightarrow> Inl (PolicyConfigError ''must be a name or a list of them'' [policy, p]))"

definition REQUIRE_TAGS :: string where "REQUIRE_TAGS = ''require-tags''"
definition REQUIRE_SECRET_REFS :: string where "REQUIRE_SECRET_REFS = ''require-secret-refs''"
definition DENY_DESTROY :: string where "DENY_DESTROY = ''deny-destroy-in-protected''"
definition DENY_DESTROY_ALIAS :: string where "DENY_DESTROY_ALIAS = ''deny-destroy-in-prod''"

definition tags_of :: "resource \<Rightarrow> (pyval \<times> pyval) list" where
  "tags_of r = (case read_field r ''tags'' of Some (PDict m) \<Rightarrow> m | _ \<Rightarrow> [])"

definition require_tags :: "pyenv \<Rightarrow> policy_fn" where
  "require_tags env x = (case px_resource x of None \<Rightarrow> Inr Passed
     | Some r \<Rightarrow>
        if ''tags'' \<notin> fst ` set (rc_fields (rclass r)) then Inr Passed
        else rbind (names_of env x REQUIRE_TAGS ''keys'') (\<lambda>required.
          if required = [] then Inr (if tags_of r \<noteq> [] then Passed else Denied ''has no tags'' [px_node x])
          else let missing = sorted_set (filter (\<lambda>k. case pd_get (tags_of r) k of None \<Rightarrow> True | Some v \<Rightarrow> \<not> truthy v) required)
            in Inr (if missing \<noteq> [] then Denied ''is missing tag(s)'' (px_node x # missing) else Passed)))"

definition literal_secrets :: "resource \<Rightarrow> string list" where
  "literal_secrets r = sort (filter (\<lambda>n. map_of (field_mutability (rc_fields (rclass r))) n \<noteq> Some COMPUTED \<and>
     (case read_field r n of Some (PStr s) \<Rightarrow> s \<noteq> [] | _ \<Rightarrow> False)) (sensitive_fields (rc_fields (rclass r))))"

definition require_secret_refs :: policy_fn where
  "require_secret_refs x = (case px_resource x of None \<Rightarrow> Inr Passed
     | Some r \<Rightarrow> Inr (if literal_secrets r \<noteq> [] then Denied ''assigns a literal to'' (px_node x # literal_secrets r) else Passed))"

definition deny_destroy :: "pyenv \<Rightarrow> policy_fn" where
  "deny_destroy env x = rbind (names_of env x DENY_DESTROY ''stacks'') (\<lambda>stacks.
     Inr (if px_stack x \<in> set stacks \<and> destructive (px_action x)
       then Denied ''not allowed in protected stack'' [px_node x, action_str (px_action x), px_stack x] else Passed))"

definition builtin_policies :: "pyenv \<Rightarrow> (string \<times> policy_fn) list" where
  "builtin_policies env = [(REQUIRE_TAGS, require_tags env), (REQUIRE_SECRET_REFS, require_secret_refs),
     (DENY_DESTROY, deny_destroy env), (DENY_DESTROY_ALIAS, deny_destroy env)]"

definition register_policy :: "string \<Rightarrow> policy_fn \<Rightarrow> (string \<times> policy_fn) list \<Rightarrow> (string \<times> policy_fn) list" where
  "register_policy name f m = AList.update name f m"

definition table_provider :: "(string \<times> policy_fn) list \<Rightarrow> policy_provider" where
  "table_provider m = \<lparr>pp_has = (\<lambda>n. n \<in> fst ` set m),
     pp_evaluate = (\<lambda>n x. case map_of m n of None \<Rightarrow> Inl (KeyError n) | Some f \<Rightarrow> f x)\<rparr>"

definition default_policy_registry :: "pyenv \<Rightarrow> policy_registry" where
  "default_policy_registry env = registry_register (table_provider (builtin_policies env)) []"

subsection \<open>Attaching policies\<close>

definition policy_name :: "pyval \<Rightarrow> (aerror, string) result" where
  "policy_name v = (case v of PStr s \<Rightarrow> Inr s | _ \<Rightarrow> Inl (PolicyConfigError ''policy name must be a string'' []))"

definition level_of :: "string \<Rightarrow> pyval \<Rightarrow> (aerror, policy_level) result" where
  "level_of name v = (if v = PStr ''advisory'' then Inr ADVISORY else if v = PStr ''mandatory'' then Inr MANDATORY
     else Inl (PolicyConfigError ''level must be one of'' [name, ''advisory'', ''mandatory'']))"

text \<open>Iterating what is not iterable raises; a dictionary iterates over its keys.\<close>

definition iterate :: "pyval \<Rightarrow> (aerror, pyval list) result" where
  "iterate v = (case v of PList vs \<Rightarrow> Inr vs | PTuple vs \<Rightarrow> Inr vs | PSet vs \<Rightarrow> Inr vs | PDict m \<Rightarrow> Inr (map fst m)
     | PStr s \<Rightarrow> Inr (map (\<lambda>ch. PStr [ch]) s) | _ \<Rightarrow> Inl (PyTypeError ''not iterable''))"

definition type_names :: "string \<Rightarrow> pyval \<Rightarrow> (aerror, string list) result" where
  "type_names name v = rbind (iterate v) (rmap (\<lambda>i. case i of PStr s \<Rightarrow> Inr s
     | _ \<Rightarrow> Inl (PolicyConfigError ''types must name resource types as strings'' [name])))"

definition add_policy_binding :: "policy_binding \<Rightarrow> resource_registry \<Rightarrow> resource_registry" where
  "add_policy_binding b g = g\<lparr>reg_bindings := reg_bindings g @ [b]\<rparr>"

definition enforce :: "pyval \<Rightarrow> pyval \<Rightarrow> pyval \<Rightarrow> props \<Rightarrow> resource_registry option \<Rightarrow> (aerror, resource_registry) result" where
  "enforce name level types ps active =
     rbind (policy_name name) (\<lambda>n.
     rbind (level_of n level) (\<lambda>l.
       case active of None \<Rightarrow> Inl (RegistryError ''enforce() must be called during config evaluation'' [])
     | Some g \<Rightarrow>
         if types = PNone then Inr (add_policy_binding \<lparr>pb_name = n, pb_level = l, pb_types = None, pb_params = ps\<rparr> g)
         else rbind (type_names n (case types of PStr s \<Rightarrow> PTuple [PStr s] | _ \<Rightarrow> types)) (\<lambda>ts.
           if ts = [] then Inl (PolicyConfigError ''types is empty'' [n])
           else Inr (add_policy_binding \<lparr>pb_name = n, pb_level = l, pb_types = Some ts, pb_params = ps\<rparr> g))))"

type_synonym class_policies = "(string \<times> policy_binding list) list"

definition class_bindings :: "class_policies \<Rightarrow> resource_class \<Rightarrow> policy_binding list" where
  "class_bindings decorated c = dget decorated (type_name c) []"

definition policy_decorator :: "pyval \<Rightarrow> pyval \<Rightarrow> resource_class \<Rightarrow> class_policies \<Rightarrow> (aerror, class_policies) result" where
  "policy_decorator name level c decorated =
     rbind (policy_name name) (\<lambda>n. rbind (level_of n level) (\<lambda>l.
       Inr (AList.update (type_name c) (class_bindings decorated c @
         [\<lparr>pb_name = n, pb_level = l, pb_types = Some [type_name c], pb_params = []\<rparr>]) decorated)))"

subsection \<open>Evaluating a plan\<close>

definition bindings_for :: "string \<Rightarrow> policy_binding list \<Rightarrow> (string \<times> resource_class) list \<Rightarrow> class_policies \<Rightarrow> policy_binding list" where
  "bindings_for t config types decorated =
     filter (\<lambda>b. applies_to b t) config @ (case map_of types t of None \<Rightarrow> [] | Some c \<Rightarrow> class_bindings decorated c)"

definition change_type :: "change \<Rightarrow> string" where
  "change_type c = (case cdesired c of Some n \<Rightarrow> ntype n | None \<Rightarrow> (case cprior c of Some s \<Rightarrow> stype s | None \<Rightarrow> []))"

definition context_for :: "compiled \<Rightarrow> change \<Rightarrow> policy_binding \<Rightarrow> policy_context" where
  "context_for co c b = \<lparr>px_node = cid c, px_action = caction c, px_stack = stack_of (cid c),
     px_resource = map_of (co_resources co) (cid c), px_params = pb_params b\<rparr>"

definition evaluate_binding :: "policy_registry \<Rightarrow> compiled \<Rightarrow> change \<Rightarrow> policy_binding \<Rightarrow> (aerror, violation list) result" where
  "evaluate_binding reg co c b = rbind (registry_evaluate reg (pb_name b) (context_for co c b)) (\<lambda>r.
     Inr (if r \<noteq> Passed then [\<lparr>vi_policy = pb_name b, vi_level = pb_level b, vi_node = cid c, vi_message = r\<rparr>] else []))"

definition evaluate_policies ::
  "change_set \<Rightarrow> compiled \<Rightarrow> (string \<times> resource_class) list \<Rightarrow> class_policies \<Rightarrow> policy_registry \<Rightarrow> (aerror, violation list) result" where
  "evaluate_policies cs co types decorated reg =
     rbind (rmap (\<lambda>c. rbind (rmap (evaluate_binding reg co c) (bindings_for (change_type c) (co_bindings co) types decorated))
         (\<lambda>vs. Inr (concat vs))) (actionable cs))
       (\<lambda>vss. Inr (concat vss))"

subsection \<open>What a provider promises the registry\<close>

text \<open>
  The registry evaluates a policy only through a provider that says it has it; the provider
  then finds it. So an evaluation never fails with a lookup in a provider's table.
\<close>

locale policy_source =
  fixes has :: "string \<Rightarrow> bool" and evaluate :: "string \<Rightarrow> policy_fn" and fn :: "string \<Rightarrow> policy_fn"
  assumes found: "has n \<Longrightarrow> evaluate n x = fn n x"
begin

lemma first_answers: "has n \<Longrightarrow> registry_evaluate (\<lparr>pp_has = has, pp_evaluate = evaluate\<rparr> # ps) n x = fn n x"
  by (simp add: found)

lemma skipped: "\<not> has n \<Longrightarrow> registry_evaluate (\<lparr>pp_has = has, pp_evaluate = evaluate\<rparr> # ps) n x = registry_evaluate ps n x"
  by simp

end

interpretation table_source: policy_source "\<lambda>n. n \<in> fst ` set m"
  "\<lambda>n x. case map_of m n of None \<Rightarrow> Inl (KeyError n) | Some f \<Rightarrow> f x" "\<lambda>n. the (map_of m n)" for m
  by unfold_locales (auto simp: key_iff)

lemma table_evaluate:
  "registry_evaluate (table_provider m # ps) n x = (case map_of m n of Some f \<Rightarrow> f x | None \<Rightarrow> registry_evaluate ps n x)"
proof (cases "map_of m n")
  case None
  then have "n \<notin> fst ` set m" by (simp add: map_of_eq_None_iff)
  with None show ?thesis unfolding table_provider_def by (simp add: table_source.skipped)
next
  case (Some f)
  then have "n \<in> fst ` set m" by (simp add: key_iff)
  with Some show ?thesis unfolding table_provider_def by (simp add: table_source.first_answers)
qed

lemma registry_evaluate_unknown:
  "\<not> registry_has r n \<Longrightarrow> registry_evaluate r n x = Inl (RegistryError ''unknown policy'' [n])"
  by (induction r) (auto simp: registry_has_def)

lemma evaluate_policies_Inr:
  "evaluate_policies cs co types decorated reg = Inr vs \<longleftrightarrow>
     (\<forall>c \<in> set (actionable cs). \<forall>b \<in> set (bindings_for (change_type c) (co_bindings co) types decorated).
        \<exists>r. registry_evaluate reg (pb_name b) (context_for co c b) = Inr r) \<and>
     vs = concat (map (\<lambda>c. concat (map (\<lambda>b. case evaluate_binding reg co c b of Inr v \<Rightarrow> v | Inl e \<Rightarrow> [])
       (bindings_for (change_type c) (co_bindings co) types decorated))) (actionable cs))"
proof -
  let ?bs = "\<lambda>c. bindings_for (change_type c) (co_bindings co) types decorated"
  let ?ok = "\<lambda>c. \<forall>b \<in> set (?bs c). \<exists>r. registry_evaluate reg (pb_name b) (context_for co c b) = Inr r"
  let ?out = "\<lambda>c. map (\<lambda>b. case evaluate_binding reg co c b of Inr v \<Rightarrow> v | Inl e \<Rightarrow> []) (?bs c)"
  have total: "evaluate_binding reg co c b = Inr (case evaluate_binding reg co c b of Inr v \<Rightarrow> v | Inl e \<Rightarrow> [])"
    if "\<exists>r. registry_evaluate reg (pb_name b) (context_for co c b) = Inr r" for c b
    using that by (auto simp: evaluate_binding_def)
  have one: "rmap (evaluate_binding reg co c) (?bs c) = Inr (?out c)" if "?ok c" for c
    by (rule rmap_pure) (use that total in blast)
  have ok: "?ok c" if "rmap (evaluate_binding reg co c) (?bs c) = Inr w" for c w
    using rmap_Inr_exD [OF that] by (auto simp: evaluate_binding_def rbind_Inr_iff)
  let ?all = "\<lambda>c. rbind (rmap (evaluate_binding reg co c) (?bs c)) (\<lambda>vs. Inr (concat vs))"
  have "evaluate_policies cs co types decorated reg = Inr (concat (map (\<lambda>c. concat (?out c)) (actionable cs)))"
    if "\<forall>c \<in> set (actionable cs). ?ok c"
  proof -
    have "rmap ?all (actionable cs) = Inr (map (\<lambda>c. concat (?out c)) (actionable cs))"
      by (rule rmap_pure) (use that one in simp)
    then show ?thesis by (simp add: evaluate_policies_def)
  qed
  moreover have "\<forall>c \<in> set (actionable cs). ?ok c" if e: "evaluate_policies cs co types decorated reg = Inr w" for w
  proof
    fix c
    assume c: "c \<in> set (actionable cs)"
    obtain vss where "rmap ?all (actionable cs) = Inr vss" using e by (auto simp: evaluate_policies_def rbind_Inr_iff)
    from rmap_Inr_exD [OF this c] show "?ok c" using ok by (auto simp: rbind_Inr_iff)
  qed
  ultimately show ?thesis by auto
qed

text \<open>
  No bound policy is skipped. Evaluating a plan succeeds exactly when every policy bound to
  the type of an actionable change, by the configuration or by its class, is known and answers;
  then the violations are exactly the denials, each with its binding's name and level and the
  node it is about.
\<close>

lemma policies_decide:
  "(\<exists>vs. evaluate_policies cs co types decorated reg = Inr vs) =
     (\<forall>c \<in> set (actionable cs). \<forall>b \<in> set (bindings_for (change_type c) (co_bindings co) types decorated).
        \<exists>r. registry_evaluate reg (pb_name b) (context_for co c b) = Inr r) \<and>
   (evaluate_policies cs co types decorated reg = Inr vs \<longrightarrow>
     set vs = {\<lparr>vi_policy = pb_name b, vi_level = pb_level b, vi_node = cid c, vi_message = r\<rparr> | c b r.
       c \<in> set cs \<and> caction c \<noteq> NOOP \<and> b \<in> set (bindings_for (change_type c) (co_bindings co) types decorated) \<and>
       registry_evaluate reg (pb_name b) (context_for co c b) = Inr r \<and> r \<noteq> Passed})"
proof (intro conjI impI)
  show "(\<exists>vs. evaluate_policies cs co types decorated reg = Inr vs) =
     (\<forall>c \<in> set (actionable cs). \<forall>b \<in> set (bindings_for (change_type c) (co_bindings co) types decorated).
        \<exists>r. registry_evaluate reg (pb_name b) (context_for co c b) = Inr r)"
    unfolding evaluate_policies_Inr by blast
next
  let ?bs = "\<lambda>c. bindings_for (change_type c) (co_bindings co) types decorated"
  let ?v = "\<lambda>c b r. \<lparr>vi_policy = pb_name b, vi_level = pb_level b, vi_node = cid c, vi_message = r\<rparr>"
  assume "evaluate_policies cs co types decorated reg = Inr vs"
  then have ok: "\<forall>c \<in> set (actionable cs). \<forall>b \<in> set (?bs c). \<exists>r. registry_evaluate reg (pb_name b) (context_for co c b) = Inr r"
    and vs: "vs = concat (map (\<lambda>c. concat (map (\<lambda>b. case evaluate_binding reg co c b of Inr v \<Rightarrow> v | Inl e \<Rightarrow> []) (?bs c))) (actionable cs))"
    unfolding evaluate_policies_Inr by blast+
  have one: "set (case evaluate_binding reg co c b of Inr v \<Rightarrow> v | Inl e \<Rightarrow> []) =
      {?v c b r |r. registry_evaluate reg (pb_name b) (context_for co c b) = Inr r \<and> r \<noteq> Passed}" for c b
    by (cases "registry_evaluate reg (pb_name b) (context_for co c b)") (auto simp: evaluate_binding_def)
  have "set vs = (\<Union>c \<in> set (actionable cs). \<Union>b \<in> set (?bs c). {?v c b r |r. registry_evaluate reg (pb_name b) (context_for co c b) = Inr r \<and> r \<noteq> Passed})"
    unfolding vs by (simp add: one)
  also have "\<dots> = {?v c b r | c b r. c \<in> set cs \<and> caction c \<noteq> NOOP \<and> b \<in> set (?bs c) \<and>
      registry_evaluate reg (pb_name b) (context_for co c b) = Inr r \<and> r \<noteq> Passed}"
    unfolding actionable_def by auto
  finally show "set vs = {?v c b r | c b r. c \<in> set cs \<and> caction c \<noteq> NOOP \<and> b \<in> set (?bs c) \<and>
      registry_evaluate reg (pb_name b) (context_for co c b) = Inr r \<and> r \<noteq> Passed}" .
qed

definition prod_guard :: compiled where
  "prod_guard = \<lparr>co_ir = \<lparr>gnodes = [], gversion = 1\<rparr>, co_graph = \<lparr>node_ids = [], deps = [], dependents = []\<rparr>, co_hashes = [],
     co_resources = [], co_bindings = [\<lparr>pb_name = DENY_DESTROY, pb_level = MANDATORY, pb_types = None, pb_params = [(''stacks'', PList [PStr ''prod''])]\<rparr>],
     co_outputs = [], co_inputs = [], co_envs_declared = [], co_envs_selected = []\<rparr>"

end
