(* ===== verification/SecretAudit.thy ===== *)
theory SecretAudit
  imports Ordering Secrets
begin

text \<open>
  The secret-rotation audit (\<open>engine/secret_audit.py\<close>): the live secrets of unchanged nodes
  against the digests in state. A node's plaintext is compared by \<open>matches\<close>, the registry's
  \<open>digest_matches\<close> over the scope, the plaintext and the stored digest.
\<close>

type_synonym matcher = "string \<Rightarrow> string \<Rightarrow> string option \<Rightarrow> (aerror, bool) result"

definition matcher_of :: "crypto \<Rightarrow> (string \<Rightarrow> chance) \<Rightarrow> secrets_registry \<Rightarrow> matcher" where
  "matcher_of c ch r scope plaintext stored = fst (digest_matches c (ch plaintext) scope plaintext stored r)"

record secret_audit =
  au_rotated :: "(node_id \<times> string list) list"
  au_matched :: nat
  au_mismatched :: "node_id set"

definition foreign_keyfile :: "secret_audit \<Rightarrow> bool" where
  "foreign_keyfile a = (au_matched a = 0 \<and> card (au_mismatched a) \<ge> 2)"

text \<open>The loop over a node's properties: rotated fields, digests matched, any stored one missed.\<close>

fun audit_fields ::
  "pyenv \<Rightarrow> secrets_api \<Rightarrow> matcher \<Rightarrow> node_id \<Rightarrow> (string \<times> string) list \<Rightarrow> props \<Rightarrow> (aerror, string list \<times> nat \<times> bool) result" where
  "audit_fields env api matches i stored [] = Inr ([], 0, False)"
| "audit_fields env api matches i stored ((f, v) # rest) =
     (if \<not> is_secret_ref_marker v then audit_fields env api matches i stored rest
      else case rbind (secret_ref_from_marker env v) (\<lambda>(n, p). api_resolve api n p) of
        Inl e \<Rightarrow> if is_atlantide_error e then audit_fields env api matches i stored rest else Inl e
      | Inr plaintext \<Rightarrow>
          rbind (matches (field_scope i f) plaintext (map_of stored f)) (\<lambda>same.
          rbind (audit_fields env api matches i stored rest) (\<lambda>(fs, k, missed).
            Inr (if same then (fs, Suc k, missed) else (f # fs, k, missed \<or> map_of stored f \<noteq> None)))))"

definition audit_node ::
  "pyenv \<Rightarrow> secrets_api \<Rightarrow> matcher \<Rightarrow> change \<Rightarrow> state_node \<Rightarrow> (aerror, string list \<times> nat \<times> bool) result" where
  "audit_node env api matches c row = (case cdesired c of None \<Rightarrow> Inl PyAssertionError
     | Some want \<Rightarrow> rbind (audit_fields env api matches (cid c) (ssecret_digests row) (nproperties want))
         (\<lambda>(fs, k, missed). Inr (sort fs, k, missed)))"

fun audit_secrets ::
  "pyenv \<Rightarrow> secrets_api \<Rightarrow> matcher \<Rightarrow> change_set \<Rightarrow> state_graph \<Rightarrow> secret_audit \<Rightarrow> (aerror, secret_audit) result" where
  "audit_secrets env api matches [] prior a = Inr a"
| "audit_secrets env api matches (c # cs) prior a =
     (case map_of prior (cid c) of
        None \<Rightarrow> audit_secrets env api matches cs prior a
      | Some row \<Rightarrow>
          if caction c \<noteq> NOOP \<or> cdesired c = None then audit_secrets env api matches cs prior a
          else rbind (audit_node env api matches c row) (\<lambda>(fs, k, missed).
            audit_secrets env api matches cs prior
              \<lparr>au_rotated = (if fs \<noteq> [] then AList.update (cid c) fs (au_rotated a) else au_rotated a),
               au_matched = au_matched a + k,
               au_mismatched = (if missed then insert (cid c) (au_mismatched a) else au_mismatched a)\<rparr>))"

definition empty_audit :: secret_audit where
  "empty_audit = \<lparr>au_rotated = [], au_matched = 0, au_mismatched = {}\<rparr>"

definition upgraded :: "change \<Rightarrow> string list \<Rightarrow> mutability_table \<Rightarrow> node_id set \<Rightarrow> (aerror, change) result" where
  "upgraded c fs mut cbd = (case cdesired c of None \<Rightarrow> Inl PyAssertionError
     | Some want \<Rightarrow> Inr (if list_ex (immutable_in (muts_of mut (ntype want))) fs
         then c\<lparr>caction := REPLACE, cfields := fs, ccbd := (cid c \<in> cbd), cstate_only := False\<rparr>
         else c\<lparr>caction := UPDATE, cfields := fs, cstate_only := False\<rparr>))"

definition applied_to ::
  "secret_audit \<Rightarrow> change_set \<Rightarrow> mutability_table \<Rightarrow> node_id set \<Rightarrow> (aerror, change_set) result option" where
  "applied_to a cs mut cbd =
     (if au_rotated a = [] then Some (Inr cs)
      else case rmap (\<lambda>c. case map_of (au_rotated a) (cid c) of None \<Rightarrow> Inr c | Some fs \<Rightarrow> upgraded c fs mut cbd) cs of
        Inl e \<Rightarrow> Some (Inl e)
      | Inr out \<Rightarrow> map_option Inr (behind_destroy_first out mut))"

subsection \<open>What an audit finds\<close>

text \<open>The secret in a field, as this install resolves it, does not match the digest in the row.\<close>

definition secret_moved :: "pyenv \<Rightarrow> secrets_api \<Rightarrow> matcher \<Rightarrow> change \<Rightarrow> state_node \<Rightarrow> string \<Rightarrow> bool" where
  "secret_moved env api matches c row f \<longleftrightarrow> (\<exists>want v n p s. cdesired c = Some want \<and> (f, v) \<in> set (nproperties want) \<and>
     is_secret_ref_marker v \<and> secret_ref_from_marker env v = Inr (n, p) \<and> api_resolve api n p = Inr s \<and>
     matches (field_scope (cid c) f) s (map_of (ssecret_digests row) f) = Inr False)"

lemma audit_fields_moved:
  "audit_fields env api matches i stored m = Inr (fs, k, missed) \<Longrightarrow>
    f \<in> set fs \<longleftrightarrow> (\<exists>v n p s. (f, v) \<in> set m \<and> is_secret_ref_marker v \<and> secret_ref_from_marker env v = Inr (n, p) \<and>
      api_resolve api n p = Inr s \<and> matches (field_scope i f) s (map_of stored f) = Inr False)"
proof (induction m arbitrary: fs k missed)
  case (Cons kv m)
  obtain g v where kv: "kv = (g, v)" by (cases kv)
  let ?moved = "\<lambda>m. \<exists>v n p s. (f, v) \<in> set m \<and> is_secret_ref_marker v \<and> secret_ref_from_marker env v = Inr (n, p) \<and>
      api_resolve api n p = Inr s \<and> matches (field_scope i f) s (map_of stored f) = Inr False"
  have ex: "?moved (kv # m) \<longleftrightarrow> (f = g \<and> is_secret_ref_marker v \<and> (\<exists>n p s. secret_ref_from_marker env v = Inr (n, p) \<and>
      api_resolve api n p = Inr s \<and> matches (field_scope i g) s (map_of stored g) = Inr False)) \<or> ?moved m"
    using kv by auto
  show ?case
  proof (cases "is_secret_ref_marker v")
    case False
    then show ?thesis using Cons kv ex by simp
  next
    case secret: True
    show ?thesis
    proof (cases "rbind (secret_ref_from_marker env v) (\<lambda>(n, p). api_resolve api n p)")
      case (Inl e)
      then have "audit_fields env api matches i stored m = Inr (fs, k, missed)"
        using Cons.prems kv secret by (simp split: if_splits)
      moreover have "\<not> (secret_ref_from_marker env v = Inr (n, p) \<and> api_resolve api n p = Inr s)" for n p s using Inl by auto
      ultimately show ?thesis unfolding ex using Cons.IH by blast
    next
      case (Inr plaintext)
      then obtain n p where np: "secret_ref_from_marker env v = Inr (n, p)" "api_resolve api n p = Inr plaintext"
        by (auto simp: rbind_Inr_iff)
      obtain same fs' k' missed' where r: "matches (field_scope i g) plaintext (map_of stored g) = Inr same"
        "audit_fields env api matches i stored m = Inr (fs', k', missed')" "fs = (if same then fs' else g # fs')"
      proof -
        from Cons.prems have "rbind (matches (field_scope i g) plaintext (map_of stored g)) (\<lambda>same.
          rbind (audit_fields env api matches i stored m) (\<lambda>(fs, k, missed).
            Inr (if same then (fs, Suc k, missed) else (g # fs, k, missed \<or> map_of stored g \<noteq> None)))) = Inr (fs, k, missed)"
          using kv secret Inr by simp
        then obtain same r where "matches (field_scope i g) plaintext (map_of stored g) = Inr same" "audit_fields env api matches i stored m = Inr r"
          "(\<lambda>(fs, k, missed). Inr (if same then (fs, Suc k, missed) else (g # fs, k, missed \<or> map_of stored g \<noteq> None)) :: (aerror, _) result) r =
             Inr (fs, k, missed)"
          by (elim rbind_InrE)
        then show ?thesis by (intro that [of same "fst r" "fst (snd r)" "snd (snd r)"]) (auto split: prod.splits if_splits)
      qed
      show ?thesis unfolding ex Cons.IH [OF r(2), symmetric] using np r(1,3) secret by auto
    qed
  qed
qed simp

lemma audit_node_moved:
  "audit_node env api matches c row = Inr (fs, k, missed) \<Longrightarrow> f \<in> set fs \<longleftrightarrow> secret_moved env api matches c row f"
proof -
  assume a: "audit_node env api matches c row = Inr (fs, k, missed)"
  then obtain want fs' where w: "cdesired c = Some want" "fs = sort fs'"
    "audit_fields env api matches (cid c) (ssecret_digests row) (nproperties want) = Inr (fs', k, missed)"
    by (auto simp: audit_node_def rbind_Inr_iff split: option.splits)
  show ?thesis using audit_fields_moved [OF w(3), of f] w(1,2) unfolding secret_moved_def by simp
qed

definition rotated_in :: "pyenv \<Rightarrow> secrets_api \<Rightarrow> matcher \<Rightarrow> change \<Rightarrow> state_graph \<Rightarrow> string set" where
  "rotated_in env api matches c prior = (case map_of prior (cid c) of None \<Rightarrow> {}
     | Some row \<Rightarrow> if caction c \<noteq> NOOP then {} else {f. secret_moved env api matches c row f})"

lemma audit_secrets_rotated:
  "audit_secrets env api matches cs prior a = Inr a' \<Longrightarrow> distinct (map cid cs) \<Longrightarrow> cid ` set cs \<inter> fst ` set (au_rotated a) = {} \<Longrightarrow>
    (\<forall>c \<in> set cs. (case map_of (au_rotated a') (cid c) of None \<Rightarrow> {} | Some fs \<Rightarrow> set fs) = rotated_in env api matches c prior \<and>
       map_of (au_rotated a') (cid c) \<noteq> Some []) \<and>
    (\<forall>i. i \<notin> cid ` set cs \<longrightarrow> map_of (au_rotated a') i = map_of (au_rotated a) i)"
proof (induction cs arbitrary: a)
  case (Cons c cs)
  have d: "distinct (map cid cs)" "cid c \<notin> cid ` set cs" "map_of (au_rotated a) (cid c) = None"
    using Cons.prems(2,3) by (auto simp: map_of_eq_None_iff)
  have step: ?case if r: "audit_secrets env api matches cs prior b = Inr a'"
    and fs: "map_of (au_rotated b) (cid c) = (if fs = [] then None else Some fs)" "set fs = rotated_in env api matches c prior"
    and other: "\<And>i. i \<noteq> cid c \<Longrightarrow> map_of (au_rotated b) i = map_of (au_rotated a) i" for b fs
  proof -
    have "cid ` set cs \<inter> fst ` set (au_rotated b) = {}"
    proof -
      have "i \<notin> fst ` set (au_rotated b)" if "i \<in> cid ` set cs" for i
      proof -
        have "i \<noteq> cid c" using that d(2) by blast
        moreover have "i \<notin> fst ` set (au_rotated a)" using that Cons.prems(3) by auto
        ultimately show ?thesis using other [of i] unfolding key_iff by simp
      qed
      then show ?thesis by blast
    qed
    note IH = Cons.IH [OF r d(1) this]
    have here: "map_of (au_rotated a') (cid c) = (if fs = [] then None else Some fs)" using IH d(2) fs(1) by simp
    show ?thesis
    proof (intro conjI ballI allI impI)
      fix x
      assume x: "x \<in> set (c # cs)"
      have head: "(case map_of (au_rotated a') (cid c) of None \<Rightarrow> {} | Some fs \<Rightarrow> set fs) = rotated_in env api matches c prior"
        "map_of (au_rotated a') (cid c) \<noteq> Some []" using here fs(2) by auto
      show "(case map_of (au_rotated a') (cid x) of None \<Rightarrow> {} | Some fs \<Rightarrow> set fs) = rotated_in env api matches x prior"
      proof (cases "x = c")
        case True
        then show ?thesis using head(1) by (simp only:)
      next
        case False
        then have "x \<in> set cs" using x by simp
        with IH show ?thesis by blast
      qed
      show "map_of (au_rotated a') (cid x) \<noteq> Some []"
      proof (cases "x = c")
        case True
        then show ?thesis using head(2) by (simp only:) simp
      next
        case False
        then have "x \<in> set cs" using x by simp
        with IH show ?thesis by blast
      qed
    next
      fix i
      assume "i \<notin> cid ` set (c # cs)"
      then have "i \<notin> cid ` set cs" "i \<noteq> cid c" by auto
      then show "map_of (au_rotated a') i = map_of (au_rotated a) i" using IH other by simp
    qed
  qed
  show ?case
  proof (cases "map_of prior (cid c)")
    case None
    then have "audit_secrets env api matches cs prior a = Inr a'" using Cons.prems(1) by simp
    then show ?thesis by (rule step [where fs = "[]"]) (simp_all add: d(3) rotated_in_def None)
  next
    case (Some row)
    show ?thesis
    proof (cases "caction c \<noteq> NOOP \<or> cdesired c = None")
      case True
      then have "audit_secrets env api matches cs prior a = Inr a'" using Cons.prems(1) Some by simp
      moreover have "rotated_in env api matches c prior = {}" using True Some by (auto simp: rotated_in_def secret_moved_def)
      ultimately show ?thesis by (intro step [where fs = "[]"]) (simp_all add: d(3))
    next
      case False
      then obtain fs k missed where n: "audit_node env api matches c row = Inr (fs, k, missed)"
        "audit_secrets env api matches cs prior
              \<lparr>au_rotated = (if fs \<noteq> [] then AList.update (cid c) fs (au_rotated a) else au_rotated a),
               au_matched = au_matched a + k,
               au_mismatched = (if missed then insert (cid c) (au_mismatched a) else au_mismatched a)\<rparr> = Inr a'"
        using Cons.prems(1) Some by (auto simp: rbind_Inr_iff)
      have "set fs = rotated_in env api matches c prior"
        using audit_node_moved [OF n(1)] False Some by (auto simp: rotated_in_def)
      then show ?thesis by (intro step [OF n(2), of fs]) (auto simp: d(3) update_conv')
    qed
  qed
qed simp

lemma audit_secrets_found:
  assumes "audit_secrets env api matches cs prior empty_audit = Inr a" and "distinct (map cid cs)" and "c \<in> set cs"
  shows "(\<exists>fs. map_of (au_rotated a) (cid c) = Some fs) \<longleftrightarrow> rotated_in env api matches c prior \<noteq> {}"
    and "map_of (au_rotated a) (cid c) = Some fs \<Longrightarrow> set fs = rotated_in env api matches c prior \<and> fs \<noteq> []"
  using audit_secrets_rotated [OF assms(1,2)] assms(3) by (force simp: empty_audit_def split: option.splits)+

end
