(* ===== verification/Planner.thy ===== *)
theory Planner
  imports SecretAudit Policy Selection Applied Diff
begin

text \<open>
  Planning (\<open>engine/planner.py\<close>): a compiled configuration and the recorded state become a plan,
  or the reason there is none. A \<open>Failure\<close> and a raise are both \<open>Inl\<close> of their error, since the
  callers return the first and let the second escape; a loop that would not end is \<open>None\<close>.
\<close>

definition protected_ids :: "state_graph \<Rightarrow> irgraph option \<Rightarrow> node_id set" where
  "protected_ids prior desired =
     (let declared = (case desired of None \<Rightarrow> [] | Some ir \<Rightarrow> dict_of nid nprevent_destroy (gnodes ir))
      in set (map sid (filter (\<lambda>s. sprevent_destroy s \<and> sid s \<notin> fst ` set declared) (map snd prior))) \<union>
         set (map fst (filter (\<lambda>(i, flag). flag) declared)))"

datatype plan_warning = Deferred node_id | ForeignKeyfile nat | CbdFallback node_id

definition deferral_notes :: "node_id set \<Rightarrow> plan_warning list" where
  "deferral_notes deferred = map Deferred (sorted_list_of_set deferred)"

definition empty_ir :: irgraph where "empty_ir = \<lparr>gnodes = [], gversion = IR_VERSION\<rparr>"

definition destroy_changeset :: "state_graph \<Rightarrow> mutability_table \<Rightarrow> string list \<Rightarrow> (aerror, change_set) result option" where
  "destroy_changeset prior mut targets = Option.bind (diff empty_ir [] prior mut {} []) (\<lambda>r. case r of
      Inl e \<Rightarrow> Some (Inl e)
    | Inr cs \<Rightarrow>
        if targets = [] then Some (check_prevent_destroy cs (protected_ids prior None))
        else map_option (\<lambda>r. rbind r (\<lambda>selected. check_prevent_destroy (restrict_to cs selected) (protected_ids prior None)))
               (destroy_selection prior targets))"

subsection \<open>Drift between approval and the lock\<close>

type_synonym drift_item = "node_id \<times> string \<times> string list \<times> bool \<times> bool"

definition fingerprint_items :: "change_set \<Rightarrow> drift_item list" where
  "fingerprint_items cs = remdups (map (\<lambda>c. (cid c, action_str (caction c), cfields c, cconditional c, ccbd c)) (pending cs))"

definition drift_entry :: "drift_item \<Rightarrow> string" where
  "drift_entry e = (case e of (i, a, fs, conditional, cbd) \<Rightarrow> a @ '' '' @ i @
     (if fs \<noteq> [] then '' ['' @ concat (map2 (@) ([] # replicate (length fs - 1) '', '') fs) @ '']'' else []) @
     (if conditional then '' (known after apply)'' else []) @ (if cbd then '' create-before-destroy'' else []))"

definition raise_drift :: "change_set \<Rightarrow> change_set \<Rightarrow> (aerror, unit) result" where
  "raise_drift approved fresh =
     (if fingerprint approved = fingerprint fresh then Inr ()
      else let added = sort (map drift_entry (filter (\<lambda>e. e \<notin> fingerprint approved) (fingerprint_items fresh)));
               removed = sort (map drift_entry (filter (\<lambda>e. e \<notin> fingerprint fresh) (fingerprint_items approved)))
        in Inl (PlanDriftError ''state changed between the plan you approved and the lock being taken''
          ((if added \<noteq> [] then ''now also'' # added else []) @ (if removed \<noteq> [] then ''no longer'' # removed else []))))"

subsection \<open>What a plan needs\<close>

definition actionable_fields :: "change_set \<Rightarrow> (change \<times> string \<times> pyval) list" where
  "actionable_fields cs = concat (map (\<lambda>c. map (\<lambda>(f, v). (c, f, v))
     (case cdesired c of Some n \<Rightarrow> nproperties n | None \<Rightarrow> (case cprior c of Some s \<Rightarrow> sproperties s | None \<Rightarrow> []))) (actionable cs))"

definition stack_output_name :: "pyval \<Rightarrow> string option" where
  "stack_output_name v = Option.bind (single_key_marker v STACK_OUTPUT_KEY) as_str"

definition require_stack_outputs :: "change_set \<Rightarrow> props \<Rightarrow> (aerror, change_set) result" where
  "require_stack_outputs cs stack_outputs =
     (let missing = concat (map (\<lambda>(c, f, v). case stack_output_name v of None \<Rightarrow> []
            | Some n \<Rightarrow> if n \<in> fst ` set stack_outputs then [] else [cid c @ ''.'' @ f @ '' -> '' @ n]) (actionable_fields cs))
      in if missing \<noteq> [] then Inl (AtlantideError ''undefined stack output(s)'' (sort missing)) else Inr cs)"

definition is_secrets_error :: "aerror \<Rightarrow> bool" where
  "is_secrets_error e = (case e of SecretsError _ _ \<Rightarrow> True | _ \<Rightarrow> False)"

definition require_secrets :: "pyenv \<Rightarrow> secrets_api \<Rightarrow> change_set \<Rightarrow> (aerror, change_set) result" where
  "require_secrets env api cs =
     rbind (rmap (\<lambda>(c, f, v). if \<not> is_secret_ref_marker v then Inr []
        else rbind (secret_ref_from_marker env v) (\<lambda>(n, p). case api_resolve api n p of
            Inr _ \<Rightarrow> Inr []
          | Inl e \<Rightarrow> if is_secrets_error e then Inr [cid c @ ''.'' @ f @ '' -> '' @ n] else Inl e)) (actionable_fields cs))
       (\<lambda>ms. if concat ms \<noteq> [] then Inl (SecretsError ''undefined secret(s)'' (sort (concat ms))) else Inr cs)"

subsection \<open>The planner\<close>

record planner =
  pl_mutability :: mutability_table
  pl_env :: apply_env
  pl_matches :: matcher
  pl_policies :: policy_registry
  pl_decorated :: class_policies

record plan =
  pn_changes :: change_set
  pn_compiled :: compiled
  pn_violations :: "violation list"
  pn_warnings :: "plan_warning list"

definition blocked :: "plan \<Rightarrow> violation list" where
  "blocked p = filter (\<lambda>v. vi_level v = MANDATORY) (pn_violations p)"

definition field_types :: "apply_env \<Rightarrow> type_table" where
  "field_types env = map (\<lambda>(t, c). (t, rc_fields c)) (ae_types env)"

definition audit_warnings :: "secret_audit \<Rightarrow> plan_warning list" where
  "audit_warnings a = (if foreign_keyfile a then [ForeignKeyfile (card (au_mismatched a))] else [])"

definition finalize :: "planner \<Rightarrow> change_set \<Rightarrow> compiled \<Rightarrow> plan_warning list \<Rightarrow> (aerror, plan) result option" where
  "finalize pl cs co notes = Option.bind (cbd_forcers (co_ir co)) (\<lambda>forcers.
     case resolve_cbd cs (field_types (pl_env pl)) (pl_mutability pl) forcers of
       Inl e \<Rightarrow> Some (Inl e)
     | Inr (resolved, warned) \<Rightarrow> map_option (\<lambda>settled.
         rbind (evaluate_policies settled co (ae_types (pl_env pl)) (pl_decorated pl) (pl_policies pl)) (\<lambda>vs.
           Inr \<lparr>pn_changes = settled, pn_compiled = co, pn_violations = vs, pn_warnings = notes @ map CbdFallback warned\<rparr>))
         (behind_destroy_first resolved (pl_mutability pl)))"

definition refine_plan ::
  "planner \<Rightarrow> change_set \<Rightarrow> compiled \<Rightarrow> state_graph \<Rightarrow> props \<Rightarrow> plan_warning list \<Rightarrow> (aerror, plan) result option" where
  "refine_plan pl cs co prior stack_outputs notes = (let env = pl_env pl in
     case audit_secrets (ae_py env) (ae_secrets env) (pl_matches pl) cs prior empty_audit of
       Inl e \<Rightarrow> Some (Inl e)
     | Inr a \<Rightarrow> Option.bind (effective_cbd (co_ir co)) (\<lambda>cbd.
         Option.bind (applied_to a cs (pl_mutability pl) cbd) (\<lambda>r.
           case rbind r (\<lambda>cs1. rbind (require_secrets (ae_py env) (ae_secrets env) cs1) (\<lambda>cs2. require_stack_outputs cs2 stack_outputs)) of
             Inl e \<Rightarrow> Some (Inl e)
           | Inr cs3 \<Rightarrow> finalize pl cs3 co (notes @ audit_warnings a))))"

definition build :: "planner \<Rightarrow> compiled \<Rightarrow> state_graph \<Rightarrow> props \<Rightarrow> node_id set option \<Rightarrow> node_id set \<Rightarrow> (aerror, plan) result option" where
  "build pl co prior stack_outputs selected replace =
     (case consumed_verdicts (pl_env pl) (co_ir co) prior of
        Inl e \<Rightarrow> Some (Inl e)
      | Inr moved \<Rightarrow> Option.bind (diff (co_ir co) (co_hashes co) prior (pl_mutability pl) replace moved) (\<lambda>r. case r of
            Inl e \<Rightarrow> Some (Inl e)
          | Inr raw0 \<Rightarrow>
              (let raw = (case selected of None \<Rightarrow> raw0 | Some S \<Rightarrow> restrict_to raw0 S);
                   protected = protected_ids prior (Some (co_ir co))
               in case check_prevent_destroy raw protected of
                    Inl e \<Rightarrow> Some (Inl e)
                  | Inr cs \<Rightarrow> refine_plan pl cs co prior stack_outputs (deferral_notes (deferred_to_apply raw protected)))))"

subsection \<open>How the passes change a plan\<close>

text \<open>What a pass may do to a change: lower its flags, or, of a no-op whose secret rotated, make it a re-apply.\<close>

definition lowered :: "change \<Rightarrow> change \<Rightarrow> bool" where
  "lowered r d \<longleftrightarrow> d = r\<lparr>cconditional := cconditional d, ccbd := ccbd d\<rparr> \<and>
     (cconditional d \<longrightarrow> cconditional r) \<and> (ccbd d \<longrightarrow> ccbd r)"

definition immutable_field :: "mutability_table \<Rightarrow> change \<Rightarrow> string \<Rightarrow> bool" where
  "immutable_field mut c f = (case cdesired c of None \<Rightarrow> False | Some want \<Rightarrow> immutable_in (muts_of mut (ntype want)) f)"

definition reapplied :: "mutability_table \<Rightarrow> node_id set \<Rightarrow> string set \<Rightarrow> change \<Rightarrow> change \<Rightarrow> bool" where
  "reapplied mut cbd rotated r d \<longleftrightarrow> cid d = cid r \<and> cdesired d = cdesired r \<and> cprior d = cprior r \<and> caction r = NOOP \<and>
     rotated \<noteq> {} \<and> set (cfields d) = rotated \<and> \<not> cstate_only d \<and>
     caction d = (if \<exists>f \<in> rotated. immutable_field mut r f then REPLACE else UPDATE) \<and>
     (ccbd d \<longrightarrow> cid d \<in> cbd \<or> ccbd r) \<and> (cconditional d \<longrightarrow> cconditional r)"

definition plan_step :: "mutability_table \<Rightarrow> node_id set \<Rightarrow> (change \<Rightarrow> string set) \<Rightarrow> change \<Rightarrow> change \<Rightarrow> bool" where
  "plan_step mut cbd rot r d \<longleftrightarrow> (if rot r = {} then lowered r d else reapplied mut cbd (rot r) r d)"

lemma lowered_refl [simp]: "lowered r r"
  by (simp add: lowered_def)

lemma lowered_trans: "lowered a b \<Longrightarrow> lowered b c \<Longrightarrow> lowered a c"
  by (cases a; cases b; cases c) (auto simp: lowered_def)

lemma lowered_fields:
  "lowered r d \<Longrightarrow> cid d = cid r \<and> cdesired d = cdesired r \<and> cprior d = cprior r \<and> caction d = caction r \<and> cfields d = cfields r \<and> cstate_only d = cstate_only r"
  unfolding lowered_def by (cases r; cases d) simp

lemma plan_step_lowered: "plan_step mut cbd rot a b \<Longrightarrow> lowered b c \<Longrightarrow> plan_step mut cbd rot a c"
proof (cases "rot a = {}")
  case True
  then show "plan_step mut cbd rot a b \<Longrightarrow> lowered b c \<Longrightarrow> ?thesis" by (simp add: plan_step_def) (rule lowered_trans)
next
  case False
  assume "plan_step mut cbd rot a b" and l: "lowered b c"
  then have "reapplied mut cbd (rot a) a b" using False by (simp add: plan_step_def)
  then have "reapplied mut cbd (rot a) a c" using lowered_fields [OF l] l unfolding reapplied_def lowered_def by auto
  then show ?thesis using False by (simp add: plan_step_def)
qed

lemma lowered_uncond: "lowered c (if p then c\<lparr>cconditional := False\<rparr> else c)"
  by (simp add: lowered_def)

lemma list_all2_mapI: "(\<And>c. c \<in> set cs \<Longrightarrow> R c (f c)) \<Longrightarrow> list_all2 R cs (map f cs)"
  by (induction cs) auto

lemma behind_lowers:
  "distinct (map cid cs) \<Longrightarrow> behind_destroy_first cs mut = Some out \<Longrightarrow> list_all2 lowered cs out"
  using behind_destroy_first_result [of cs mut, THEN conjunct1] by (auto intro!: list_all2_mapI lowered_uncond)

lemma resolve_lowers: "resolve_cbd cs types mut forcers = Inr (out, ws) \<Longrightarrow> list_all2 lowered cs out"
proof -
  have loop: "resolve_loop types mut forcers cs = Inr (out, ws, []) \<Longrightarrow> list_all2 lowered cs out" for cs out ws
  proof (induction cs arbitrary: out ws)
    case (Cons c cs)
    then obtain collides out' ws' conf' where r: "cbd_collides c types mut = Inr collides" "resolve_loop types mut forcers cs = Inr (out', ws', conf')"
      "(if \<not> collides then Inr (c # out', ws', conf')
        else if dget forcers (cid c) {} - {cid c} \<noteq> {} then Inr (out', ws', cid c # conf')
        else Inr (c\<lparr>ccbd := False\<rparr> # out', cid c # ws', conf') :: (aerror, _) result) = Inr (out, ws, [])"
      by (auto simp: rbind_Inr_iff)
    then have "conf' = []" and out: "out = c # out' \<or> out = c\<lparr>ccbd := False\<rparr> # out'" by (auto split: if_splits)
    have "lowered c (c\<lparr>ccbd := False\<rparr>)" by (simp add: lowered_def)
    then show ?case using Cons.IH [of out' ws'] r(2) \<open>conf' = []\<close> out by auto
  qed simp
  assume "resolve_cbd cs types mut forcers = Inr (out, ws)"
  then show ?thesis by (auto simp: resolve_cbd_def rbind_Inr_iff split: if_splits intro: loop)
qed

lemma list_all2_cid: "list_all2 R cs ds \<Longrightarrow> (\<And>c d. R c d \<Longrightarrow> cid d = cid c) \<Longrightarrow> map cid ds = map cid cs"
  by (induction rule: list_all2_induct) auto

lemma list_all2_lowered: "list_all2 R cs ds \<Longrightarrow> list_all2 lowered ds es \<Longrightarrow> (\<And>a b c. R a b \<Longrightarrow> lowered b c \<Longrightarrow> R a c) \<Longrightarrow> list_all2 R cs es"
  by (rule list_all2_trans)

lemma plan_step_cid: "plan_step mut cbd rot r d \<Longrightarrow> cid d = cid r"
  by (auto simp: plan_step_def reapplied_def dest: lowered_fields split: if_splits)

lemma applied_to_steps:
  assumes a: "audit_secrets env api matches cs prior empty_audit = Inr a" and d: "distinct (map cid cs)"
    and p: "applied_to a cs mut cbd = Some (Inr out)"
  shows "list_all2 (plan_step mut cbd (\<lambda>c. rotated_in env api matches c prior)) cs out"
proof (cases "au_rotated a = []")
  case True
  then have "out = cs" using p by (simp add: applied_to_def)
  moreover have "rotated_in env api matches c prior = {}" if "c \<in> set cs" for c
    using audit_secrets_found(1) [OF a d that] True by simp
  ultimately show ?thesis by (auto simp: plan_step_def intro!: list.rel_refl_strong)
next
  case False
  let ?up = "\<lambda>c. case map_of (au_rotated a) (cid c) of None \<Rightarrow> Inr c | Some fs \<Rightarrow> upgraded c fs mut cbd"
  obtain mid where mid: "rmap ?up cs = Inr mid" "behind_destroy_first mid mut = Some out"
    using p False by (auto simp: applied_to_def split: sum.splits)
  have step: "plan_step mut cbd (\<lambda>c. rotated_in env api matches c prior) c e" if c: "c \<in> set cs" and e: "?up c = Inr e" for c e
  proof (cases "map_of (au_rotated a) (cid c)")
    case None
    then have "rotated_in env api matches c prior = {}" using audit_secrets_found(1) [OF a d c] by simp
    then show ?thesis using None e by (simp add: plan_step_def)
  next
    case (Some fs)
    then have fs: "set fs = rotated_in env api matches c prior" "fs \<noteq> []" using audit_secrets_found(2) [OF a d c] by blast+
    then have "caction c = NOOP" by (auto simp: rotated_in_def split: option.splits if_splits)
    then show ?thesis using e Some fs(2) unfolding plan_step_def reapplied_def fs(1) [symmetric]
      by (auto simp: upgraded_def immutable_field_def list_ex_iff split: option.splits if_splits)
  qed
  have "list_all2 (plan_step mut cbd (\<lambda>c. rotated_in env api matches c prior)) cs mid"
    using mid(1) step unfolding list_all2_conv_all_nth rmap_Inr_iff by (metis nth_mem)
  moreover from this have "map cid mid = map cid cs" by (rule list_all2_cid) (rule plan_step_cid)
  then have "list_all2 lowered mid out" using behind_lowers [OF _ mid(2)] d by simp
  ultimately show ?thesis by (rule list_all2_lowered) (rule plan_step_lowered)
qed

end
