(* ===== verification/PlanSafety.thy ===== *)
theory PlanSafety
  imports Planner
begin

text \<open>
  What an accepted plan guarantees: what it does to protected nodes, that it stays inside a
  selection, and that everything it will need at apply time is there.
\<close>

subsection \<open>Create-before-destroy comes from the configuration\<close>

text \<open>Along the diff, a change carries its declaration, and is create-first only if that says so.\<close>

definition declared_first :: "diff_inputs \<Rightarrow> change \<Rightarrow> bool" where
  "declared_first inp c \<longleftrightarrow> cdesired c = map_of (in_wants inp) (cid c) \<and> (ccbd c \<longrightarrow> (\<exists>want. cdesired c = Some want \<and> ncbd want))"

lemma classify_declared:
  "map_of (in_wants inp) (nid want) = Some want \<Longrightarrow> classify_in inp want row moved = Inr c \<Longrightarrow> declared_first inp c"
  by (auto simp: declared_first_def classify_in_def classify_node_def rbind_Inr_iff Let_def split: if_splits)

lemma change_for_declared:
  assumes "\<And>j want. map_of (in_wants inp) j = Some want \<Longrightarrow> nid want = j" and "change_for inp i = Inr c"
  shows "declared_first inp c"
proof -
  have p: "declared_first inp ((plain_change i a)\<lparr>cdesired := map_of (in_wants inp) i, cprior := h, cstate_only := b\<rparr>)" for a h b
    by (simp add: declared_first_def)
  show ?thesis
  proof (cases "map_of (in_wants inp) i")
    case None
    then show ?thesis using assms(2) by (auto simp: change_for_def declared_first_def)
  next
    case (Some want)
    then have w: "map_of (in_wants inp) (nid want) = Some want" using assms(1) by simp
    from Some assms(2) show ?thesis
      by (auto simp: change_for_def rbind_Inr_iff declared_first_def [of inp "_\<lparr>cstate_only := _\<rparr>"] declared_first_def [of inp "_\<lparr>cprior := _\<rparr>"]
          declared_first_def [of inp "_\<lparr>cdesired := _\<rparr>"] split: option.splits if_splits intro: classify_declared [OF w])
  qed
qed

lemma forced_declared: "declared_first inp c \<Longrightarrow> declared_first inp (forced c)"
  by (auto simp: declared_first_def forced_def split: option.splits)

lemma refine_declared:
  assumes "\<And>j want. map_of (in_wants inp) j = Some want \<Longrightarrow> nid want = j" and "refine inp c stale moved = Inr d" and "declared_first inp c"
  shows "declared_first inp d"
proof (cases "map_of (in_wants inp) (cid c)")
  case None
  then show ?thesis using assms(2,3) by (simp add: refine_def)
next
  case (Some want)
  then have w: "map_of (in_wants inp) (nid want) = Some want" using assms(1) by simp
  from Some assms(2,3) show ?thesis
    by (auto simp: refine_def split: option.splits if_splits intro: classify_declared [OF w])
qed

lemma declared_in_cbd:
  assumes "effective_cbd ir = Some cbd" and "n \<in> set (gnodes ir)" and "ncbd n"
  shows "nid n \<in> cbd"
proof -
  have "nid n \<in> nid ` {n \<in> set (gnodes ir). ncbd n}" using assms(2,3) by blast
  then show ?thesis using effective_cbd_reach [of ir] assms(1) by auto
qed

text \<open>Along the diff, a change also carries its row, and has what its action needs.\<close>

definition carries :: "diff_inputs \<Rightarrow> change \<Rightarrow> bool" where
  "carries inp c \<longleftrightarrow> cdesired c = map_of (in_wants inp) (cid c) \<and> cprior c = map_of (in_rows inp) (cid c) \<and>
     (caction c = DELETE \<longleftrightarrow> map_of (in_wants inp) (cid c) = None) \<and> (caction c \<noteq> CREATE \<longrightarrow> map_of (in_rows inp) (cid c) \<noteq> None)"

lemma carries_cong:
  "carries inp c \<Longrightarrow> cid d = cid c \<Longrightarrow> cdesired d = cdesired c \<Longrightarrow> cprior d = cprior c \<Longrightarrow> caction d = caction c \<Longrightarrow> carries inp d"
  unfolding carries_def by metis

lemma classify_carries:
  "map_of (in_wants inp) (nid want) = Some want \<Longrightarrow> map_of (in_rows inp) (nid want) = Some row \<Longrightarrow> classify_in inp want row moved = Inr c \<Longrightarrow> carries inp c"
  by (auto simp: carries_def classify_in_def classify_node_def rbind_Inr_iff Let_def split: if_splits)

lemma change_for_carries:
  assumes "\<And>j want. map_of (in_wants inp) j = Some want \<Longrightarrow> nid want = j" and "change_for inp i = Inr c"
    and "map_of (in_wants inp) i \<noteq> None \<or> map_of (in_rows inp) i \<noteq> None"
  shows "carries inp c"
proof (cases "map_of (in_wants inp) i")
  case None
  then show ?thesis using assms(2,3) by (auto simp: change_for_def carries_def)
next
  case (Some want)
  then have w: "map_of (in_wants inp) (nid want) = Some want" "nid want = i" using assms(1) by simp_all
  show ?thesis
  proof (cases "map_of (in_rows inp) i")
    case None
    then show ?thesis using Some assms(2) by (auto simp: change_for_def carries_def)
  next
    case (Some row)
    then have r: "map_of (in_rows inp) (nid want) = Some row" using w(2) by simp
    have k: "carries inp ((plain_change i a)\<lparr>cdesired := Some want, cprior := Some row\<rparr>)"
      "carries inp ((plain_change i a)\<lparr>cdesired := Some want, cprior := Some row, cstate_only := b\<rparr>)" if "a \<noteq> DELETE" for a b
      using that w Some by (auto simp: carries_def)
    show ?thesis using assms(2) w Some k
      by (auto simp: change_for_def rbind_Inr_iff split: if_splits intro: classify_carries [OF w(1) r])
  qed
qed

lemma forced_carries: "carries inp c \<Longrightarrow> carries inp (forced c)"
  by (auto simp: carries_def forced_def split: option.splits)

lemma refine_carries:
  assumes "\<And>j want. map_of (in_wants inp) j = Some want \<Longrightarrow> nid want = j" and "refine inp c stale moved = Inr d" and "carries inp c"
  shows "carries inp d"
proof (cases "map_of (in_wants inp) (cid c)")
  case None
  then show ?thesis using assms(2,3) by (simp add: refine_def)
next
  case (Some want)
  then have w: "map_of (in_wants inp) (nid want) = Some want" "nid want = cid c" using assms(1) by simp_all
  show ?thesis
  proof (cases "map_of (in_rows inp) (cid c)")
    case None
    then show ?thesis using Some assms(2,3) by (simp add: refine_def)
  next
    case (Some row)
    then have r: "map_of (in_rows inp) (nid want) = Some row" using w(2) by simp
    from w Some assms(2,3) show ?thesis
      by (auto simp: refine_def split: if_splits intro: classify_carries [OF w(1) r])
  qed
qed

text \<open>What the diff leaves alone is not conditional on anything.\<close>

definition settled :: "change \<Rightarrow> bool" where
  "settled c \<longleftrightarrow> (cconditional c \<longrightarrow> caction c = REPLACE)"

lemma classify_settled: "classify_in inp want row moved = Inr c \<Longrightarrow> settled c"
  by (auto simp: settled_def classify_in_def classify_node_def rbind_Inr_iff Let_def split: if_splits)

lemma change_for_settled: "change_for inp i = Inr c \<Longrightarrow> settled c"
  by (auto simp: change_for_def rbind_Inr_iff settled_def [where c = "_\<lparr>cprior := _\<rparr>"] settled_def [where c = "_\<lparr>cdesired := _\<rparr>"]
      settled_def [where c = "_\<lparr>cstate_only := _\<rparr>"] split: option.splits if_splits intro: classify_settled)

lemma forced_settled: "settled c \<Longrightarrow> settled (forced c)"
  by (auto simp: settled_def forced_def split: option.splits)

lemma refine_settled: "refine inp c stale moved = Inr d \<Longrightarrow> settled c \<Longrightarrow> settled d"
  by (auto simp: refine_def split: if_splits option.splits intro: classify_settled)

subsection \<open>The stages of a diff\<close>

text \<open>Where a change of the diff comes from: an id's first change, forced or not, refined, then lowered by the ordering pass.\<close>

lemma diff_stages:
  assumes d: "diff desired hashes prior mut replace consumed = Some (Inr cs)" and c: "c \<in> set cs"
    and dist: "distinct (map nid (gnodes desired))" "nid ` set (gnodes desired) \<subseteq> fst ` set hashes"
    and cbd: "effective_cbd desired = Some cbd"
  obtains i x y stale moved z where "i \<in> fst ` set (by_id desired) \<union> fst ` set prior"
    "change_for (inputs_of desired hashes prior mut consumed) i = Inr x" "y = (if cid x \<in> replace then forced x else x)"
    "refine (inputs_of desired hashes prior mut consumed) y stale moved = Inr z" "lowered (create_first z cbd) c"
proof -
  let ?inp = "inputs_of desired hashes prior mut consumed"
  let ?ids = "sorted_set (map fst (by_id desired) @ map fst prior)"
  obtain changes0 where c0: "rmap (change_for ?inp) ?ids = Inr changes0"
    using d by (auto simp: diff_def Let_def inputs_of_def split: sum.splits)
  let ?cs = "map (\<lambda>c. if cid c \<in> replace then forced c else c) changes0"
  obtain stale where st: "stale_dependents ?cs (by_id desired) = Some stale"
    using d c0 by (cases "stale_dependents ?cs (by_id desired)") (simp_all add: diff_def Let_def inputs_of_def)
  let ?moved = "set (map cid (filter (\<lambda>c. caction c \<noteq> NOOP) ?cs)) \<union> stale"
  have rest: "(case rmap (\<lambda>c. rbind (refine ?inp c stale ?moved) (\<lambda>c'. Inr (create_first c' cbd))) ?cs of
      Inl e \<Rightarrow> Some (Inl e) | Inr refined \<Rightarrow> map_option Inr (behind_destroy_first refined mut)) = Some (Inr cs)"
    using d c0 st cbd unfolding diff_def Let_def inputs_of_def by simp
  obtain refined where r: "rmap (\<lambda>c. rbind (refine ?inp c stale ?moved) (\<lambda>c'. Inr (create_first c' cbd))) ?cs = Inr refined"
    "behind_destroy_first refined mut = Some cs"
    using rest by (auto split: sum.splits)
  have "map cid cs = map cid refined"
    using r(2) unfolding behind_destroy_first_def by (auto split: if_splits simp: comp_def)
  moreover have "distinct (map cid cs)" using diff_result [OF dist, where prior = prior and mut = mut and consumed = consumed and replace = replace] d by auto
  ultimately have "list_all2 lowered refined cs" using behind_lowers [OF _ r(2)] by simp
  then obtain w where w: "w \<in> set refined" "lowered w c" using c by (metis list_all2_conv_all_nth in_set_conv_nth)
  obtain y z where z: "y \<in> set ?cs" "refine ?inp y stale ?moved = Inr z" "w = create_first z cbd"
    using rmap_Inr_setD [OF r(1) w(1)] by (auto simp: rbind_Inr_iff simp del: set_map)
  obtain x where x: "x \<in> set changes0" "y = (if cid x \<in> replace then forced x else x)" using z(1) by auto
  obtain i where i: "i \<in> set ?ids" "change_for ?inp i = Inr x" using rmap_Inr_setD [OF c0 x(1)] by blast
  show ?thesis by (rule that [OF _ i(2) x(2) z(2) w(2) [unfolded z(3)]]) (use i(1) in simp)
qed

lemma diff_ccbd:
  assumes d: "diff desired hashes prior mut replace consumed = Some (Inr cs)" and c: "c \<in> set cs" "ccbd c"
    and dist: "distinct (map nid (gnodes desired))" "nid ` set (gnodes desired) \<subseteq> fst ` set hashes"
    and cbd: "effective_cbd desired = Some cbd"
  shows "cid c \<in> cbd"
proof -
  let ?inp = "inputs_of desired hashes prior mut consumed"
  have key: "nid want = j" if "map_of (in_wants ?inp) j = Some want" for j want
    using that wants_distinct [OF dist(1)] by simp
  obtain i x y stale moved z where s: "change_for ?inp i = Inr x" "y = (if cid x \<in> replace then forced x else x)"
    "refine ?inp y stale moved = Inr z" "lowered (create_first z cbd) c"
    by (rule diff_stages [OF d c(1) dist cbd])
  have "declared_first ?inp y" using change_for_declared [OF key s(1)] s(2) forced_declared by simp
  from refine_declared [OF key s(3) this] have q: "declared_first ?inp z" .
  have same: "cid c = cid z" "ccbd (create_first z cbd)" using lowered_fields [OF s(4)] s(4) c(2) by (simp_all add: lowered_def)
  show ?thesis
  proof (cases "ccbd z")
    case True
    then obtain want where "map_of (by_id desired) (cid z) = Some want" "ncbd want"
      using q unfolding declared_first_def inputs_of_simps by metis
    then show ?thesis using declared_in_cbd [OF cbd] wants_distinct [OF dist(1)] same(1) by metis
  next
    case False
    then show ?thesis using same by (simp add: create_first_def split: if_splits)
  qed
qed

lemma diff_settled:
  assumes d: "diff desired hashes prior mut replace consumed = Some (Inr cs)" and c: "c \<in> set cs"
    and dist: "distinct (map nid (gnodes desired))" "nid ` set (gnodes desired) \<subseteq> fst ` set hashes"
  shows "settled c"
proof -
  obtain cbd where cbd: "effective_cbd desired = Some cbd" using effective_cbd_reach [of desired] by auto
  let ?inp = "inputs_of desired hashes prior mut consumed"
  obtain i x y stale moved z where s: "change_for ?inp i = Inr x" "y = (if cid x \<in> replace then forced x else x)"
    "refine ?inp y stale moved = Inr z" "lowered (create_first z cbd) c"
    by (rule diff_stages [OF d c dist cbd])
  have "settled y" using change_for_settled [OF s(1)] s(2) forced_settled by simp
  from refine_settled [OF s(3) this] have "settled z" .
  then show ?thesis using s(4) lowered_fields [OF s(4)] by (auto simp: settled_def lowered_def create_first_def split: if_splits)
qed

lemma diff_carries:
  assumes d: "diff desired hashes prior mut replace consumed = Some (Inr cs)" and c: "c \<in> set cs"
    and dist: "distinct (map nid (gnodes desired))" "nid ` set (gnodes desired) \<subseteq> fst ` set hashes"
  shows "carries (inputs_of desired hashes prior mut consumed) c"
proof -
  let ?inp = "inputs_of desired hashes prior mut consumed"
  have key: "nid want = j" if "map_of (in_wants ?inp) j = Some want" for j want
    using that wants_distinct [OF dist(1)] by simp
  obtain cbd where cbd: "effective_cbd desired = Some cbd" using effective_cbd_reach [of desired] by auto
  obtain i x y stale moved z where s: "i \<in> fst ` set (by_id desired) \<union> fst ` set prior" "change_for ?inp i = Inr x"
    "y = (if cid x \<in> replace then forced x else x)" "refine ?inp y stale moved = Inr z" "lowered (create_first z cbd) c"
    by (rule diff_stages [OF d c dist cbd])
  have "map_of (in_wants ?inp) i \<noteq> None \<or> map_of (in_rows ?inp) i \<noteq> None" using s(1) by (simp add: key_iff)
  from change_for_carries [OF key s(2) this] have "carries ?inp y" using s(3) forced_carries by simp
  from refine_carries [OF key s(4) this] have "carries ?inp z" .
  then have "carries ?inp (create_first z cbd)" by (rule carries_cong) (simp_all add: create_first_def)
  then show ?thesis by (rule carries_cong) (use lowered_fields [OF s(5)] in simp_all)
qed

subsection \<open>The passes, together\<close>

definition narrowed :: "change_set \<Rightarrow> node_id set option \<Rightarrow> change_set" where
  "narrowed cs sel = (case sel of None \<Rightarrow> cs | Some S \<Rightarrow> restrict_to cs S)"

lemma narrowed_cid: "map cid (narrowed cs sel) = map cid cs"
  by (auto simp: narrowed_def restrict_to_def split: option.splits)

lemma check_passes:
  "check_prevent_destroy cs p = Inr ds \<Longrightarrow> ds = cs \<and>
     (\<forall>c \<in> set cs. destructive (caction c) \<longrightarrow> cid c \<in> p \<longrightarrow> cid c \<in> deferred_to_apply cs p)"
  by (auto simp: check_prevent_destroy_def Let_def filter_empty_conv split: if_splits)

definition plan_rotated :: "planner \<Rightarrow> state_graph \<Rightarrow> change \<Rightarrow> string set" where
  "plan_rotated pl prior c = rotated_in (ae_py (pl_env pl)) (ae_secrets (pl_env pl)) (pl_matches pl) c prior"

lemma finalize_steps:
  assumes "finalize pl cs co notes = Some (Inr plan)"
  shows "\<exists>forcers resolved warned. resolve_cbd cs (field_types (pl_env pl)) (pl_mutability pl) forcers = Inr (resolved, warned) \<and>
    behind_destroy_first resolved (pl_mutability pl) = Some (pn_changes plan) \<and>
    evaluate_policies (pn_changes plan) co (ae_types (pl_env pl)) (pl_decorated pl) (pl_policies pl) = Inr (pn_violations plan) \<and>
    pn_warnings plan = notes @ map CbdFallback warned"
proof (cases "cbd_forcers (co_ir co)")
  case None
  then show ?thesis using assms by (simp add: finalize_def)
next
  case (Some forcers)
  show ?thesis
  proof (cases "resolve_cbd cs (field_types (pl_env pl)) (pl_mutability pl) forcers")
    case (Inl e)
    then show ?thesis using assms Some by (simp add: finalize_def)
  next
    case (Inr rw)
    obtain resolved warned where rw: "rw = (resolved, warned)" by (cases rw)
    show ?thesis
      by (rule exI [of _ forcers], rule exI [of _ resolved], rule exI [of _ warned])
        (use assms Some Inr in \<open>auto simp: rw finalize_def rbind_Inr_iff\<close>)
  qed
qed

lemma build_steps:
  assumes b: "build pl co prior so sel rep = Some (Inr plan)"
    and dist: "distinct (map nid (gnodes (co_ir co)))" "nid ` set (gnodes (co_ir co)) \<subseteq> fst ` set (co_hashes co)"
  obtains moved raw0 cbd mid where
    "diff (co_ir co) (co_hashes co) prior (pl_mutability pl) rep moved = Some (Inr raw0)"
    "map cid raw0 = sorted_set (map fst (by_id (co_ir co)) @ map fst prior)"
    "effective_cbd (co_ir co) = Some cbd"
    "check_prevent_destroy (narrowed raw0 sel) (protected_ids prior (Some (co_ir co))) = Inr (narrowed raw0 sel)"
    "set (deferral_notes (deferred_to_apply (narrowed raw0 sel) (protected_ids prior (Some (co_ir co))))) \<subseteq> set (pn_warnings plan)"
    "list_all2 (plan_step (pl_mutability pl) cbd (plan_rotated pl prior)) (narrowed raw0 sel) mid"
    "require_secrets (ae_py (pl_env pl)) (ae_secrets (pl_env pl)) mid = Inr mid" "require_stack_outputs mid so = Inr mid"
    "list_all2 lowered mid (pn_changes plan)"
    "evaluate_policies (pn_changes plan) co (ae_types (pl_env pl)) (pl_decorated pl) (pl_policies pl) = Inr (pn_violations plan)"
    "consumed_verdicts (pl_env pl) (co_ir co) prior = Inr moved"
proof -
  let ?prot = "protected_ids prior (Some (co_ir co))" and ?env = "pl_env pl"
  obtain moved where m: "consumed_verdicts ?env (co_ir co) prior = Inr moved"
    using b by (auto simp: build_def split: sum.splits)
  obtain raw0 where d: "diff (co_ir co) (co_hashes co) prior (pl_mutability pl) rep moved = Some (Inr raw0)"
    "map cid raw0 = sorted_set (map fst (by_id (co_ir co)) @ map fst prior)"
    using diff_result [OF dist, where prior = prior and mut = "pl_mutability pl" and consumed = moved and replace = rep] by auto
  let ?raw = "narrowed raw0 sel" let ?notes = "deferral_notes (deferred_to_apply ?raw ?prot)"
  have b1: "(case check_prevent_destroy ?raw ?prot of Inl e \<Rightarrow> Some (Inl e) | Inr cs \<Rightarrow> refine_plan pl cs co prior so ?notes) = Some (Inr plan)"
    using b m d(1) unfolding build_def narrowed_def Let_def by simp
  then obtain cs where cs: "check_prevent_destroy ?raw ?prot = Inr cs" by (auto split: sum.splits)
  then have check: "check_prevent_destroy ?raw ?prot = Inr ?raw" using check_passes [OF cs] by simp
  then have ref: "refine_plan pl ?raw co prior so ?notes = Some (Inr plan)" using b1 by simp
  obtain a where a: "audit_secrets (ae_py ?env) (ae_secrets ?env) (pl_matches pl) ?raw prior empty_audit = Inr a"
    using ref by (auto simp: refine_plan_def Let_def split: sum.splits)
  obtain cbd where cbd: "effective_cbd (co_ir co) = Some cbd"
    using ref a by (auto simp: refine_plan_def Let_def bind_eq_Some_conv)
  obtain r where r: "applied_to a ?raw (pl_mutability pl) cbd = Some r"
    "(case rbind r (\<lambda>cs1. rbind (require_secrets (ae_py ?env) (ae_secrets ?env) cs1) (\<lambda>cs2. require_stack_outputs cs2 so)) of
             Inl e \<Rightarrow> Some (Inl e)
           | Inr cs3 \<Rightarrow> finalize pl cs3 co (?notes @ audit_warnings a)) = Some (Inr plan)"
    using ref a cbd by (auto simp: refine_plan_def Let_def bind_eq_Some_conv)
  obtain mid cs2 cs3 where mid: "r = Inr mid" "require_secrets (ae_py ?env) (ae_secrets ?env) mid = Inr cs2" "require_stack_outputs cs2 so = Inr cs3"
    "finalize pl cs3 co (?notes @ audit_warnings a) = Some (Inr plan)"
  proof -
    obtain cs3 where "rbind r (\<lambda>cs1. rbind (require_secrets (ae_py ?env) (ae_secrets ?env) cs1) (\<lambda>cs2. require_stack_outputs cs2 so)) = Inr cs3"
      "finalize pl cs3 co (?notes @ audit_warnings a) = Some (Inr plan)"
      using r(2) by (auto split: sum.splits)
    then show ?thesis using that by (auto simp: rbind_Inr_iff)
  qed
  have "cs2 = mid" using mid(2) by (auto simp: require_secrets_def rbind_Inr_iff split: if_splits)
  moreover have "cs3 = cs2" using mid(3) by (auto simp: require_stack_outputs_def Let_def split: if_splits)
  ultimately have same: "cs2 = mid" "cs3 = mid" by simp_all
  have draw: "distinct (map cid ?raw)" unfolding narrowed_cid d(2) by simp
  have steps: "list_all2 (plan_step (pl_mutability pl) cbd (plan_rotated pl prior)) ?raw mid"
    using applied_to_steps [OF a draw, of "pl_mutability pl" cbd mid] r(1) mid(1) by (simp add: plan_rotated_def [abs_def])
  obtain forcers resolved warned where f: "resolve_cbd mid (field_types ?env) (pl_mutability pl) forcers = Inr (resolved, warned)"
    "behind_destroy_first resolved (pl_mutability pl) = Some (pn_changes plan)"
    "evaluate_policies (pn_changes plan) co (ae_types ?env) (pl_decorated pl) (pl_policies pl) = Inr (pn_violations plan)"
    "pn_warnings plan = (?notes @ audit_warnings a) @ map CbdFallback warned"
    using finalize_steps [OF mid(4), unfolded same] by (elim exE conjE) (rule that)
  have midc: "map cid mid = map cid ?raw" using steps by (rule list_all2_cid) (rule plan_step_cid)
  have l1: "list_all2 lowered mid resolved" using f(1) by (rule resolve_lowers)
  have "map cid resolved = map cid mid" using l1 by (rule list_all2_cid) (use lowered_fields in blast)
  then have l2: "list_all2 lowered resolved (pn_changes plan)" using behind_lowers [OF _ f(2)] midc draw by simp
  have l: "list_all2 lowered mid (pn_changes plan)" using l1 l2 by (rule list_all2_lowered) (rule lowered_trans)
  show ?thesis
    by (rule that [OF d cbd check _ steps mid(2,3) [unfolded same] l f(3) m]) (simp add: f(4))
qed

lemma rotated_change: "f \<in> plan_rotated pl prior r \<Longrightarrow> cid d = cid r \<Longrightarrow> cdesired d = cdesired r \<Longrightarrow>
    \<exists>row. map_of prior (cid d) = Some row \<and> secret_moved (ae_py (pl_env pl)) (ae_secrets (pl_env pl)) (pl_matches pl) d row f"
  by (auto simp: plan_rotated_def rotated_in_def secret_moved_def split: option.splits if_splits)

lemma immutable_field_cong: "cdesired d = cdesired r \<Longrightarrow> immutable_field mut d f = immutable_field mut r f"
  by (simp add: immutable_field_def)

lemma plan_origin:
  assumes "list_all2 R raw mid" and "list_all2 lowered mid out" and "d \<in> set out"
  obtains r m where "r \<in> set raw" "R r m" "lowered m d"
  using assms by (metis list_all2_conv_all_nth in_set_conv_nth)

text \<open>
  C15: a plan has what its run asserts. Its changes have distinct ids; what is created, updated or
  replaced carries the node the configuration declares under that id; what is updated, replaced
  or deleted carries the row the state holds under it; and what is deleted is declared no more.
\<close>

theorem plan_well_formed:
  assumes "build pl co prior so sel rep = Some (Inr plan)"
    and "distinct (map nid (gnodes (co_ir co)))" and "nid ` set (gnodes (co_ir co)) \<subseteq> fst ` set (co_hashes co)"
  shows "distinct (map cid (pn_changes plan)) \<and> (d \<in> set (pn_changes plan) \<longrightarrow>
    (caction d \<in> {CREATE, UPDATE, REPLACE} \<longrightarrow> (\<exists>n \<in> set (gnodes (co_ir co)). cdesired d = Some n \<and> nid n = cid d)) \<and>
    (caction d \<in> {UPDATE, REPLACE, DELETE} \<longrightarrow> (\<exists>row. cprior d = Some row \<and> map_of prior (cid d) = Some row)) \<and>
    (caction d = DELETE \<longrightarrow> cdesired d = None \<and> cid d \<notin> nid ` set (gnodes (co_ir co))))"
proof -
  obtain moved raw0 cbd mid where b: "diff (co_ir co) (co_hashes co) prior (pl_mutability pl) rep moved = Some (Inr raw0)"
    "map cid raw0 = sorted_set (map fst (by_id (co_ir co)) @ map fst prior)"
    "list_all2 (plan_step (pl_mutability pl) cbd (plan_rotated pl prior)) (narrowed raw0 sel) mid" "list_all2 lowered mid (pn_changes plan)"
    by (rule build_steps [OF assms(1-3)])
  have "map cid mid = map cid (narrowed raw0 sel)" using b(3) by (rule list_all2_cid) (rule plan_step_cid)
  moreover have "map cid (pn_changes plan) = map cid mid" using b(4) by (rule list_all2_cid) (use lowered_fields in blast)
  ultimately have dist: "distinct (map cid (pn_changes plan))" unfolding narrowed_cid b(2) by simp
  let ?inp = "inputs_of (co_ir co) (co_hashes co) prior (pl_mutability pl) moved"
  have want: "map_of (by_id (co_ir co)) i = Some n \<longleftrightarrow> n \<in> set (gnodes (co_ir co)) \<and> nid n = i" for i n
    by (rule wants_distinct [OF assms(2)])
  have "carries ?inp d \<or> caction d = NOOP" if d: "d \<in> set (pn_changes plan)" for d
  proof -
    obtain r m where r: "r \<in> set (narrowed raw0 sel)" "plan_step (pl_mutability pl) cbd (plan_rotated pl prior) r m" "lowered m d"
      by (rule plan_origin [OF b(3,4) d])
    note l = lowered_fields [OF r(3)]
    show ?thesis
    proof (cases "r \<in> set raw0")
      case True
      have c: "carries ?inp r" by (rule diff_carries [OF b(1) True assms(2,3)])
      show ?thesis
      proof (cases "plan_rotated pl prior r = {}")
        case True
        then have "lowered r m" using r(2) by (simp add: plan_step_def)
        from lowered_fields [OF this] l have "carries ?inp d" by (intro carries_cong [OF c]) simp_all
        then show ?thesis ..
      next
        case False
        then have "reapplied (pl_mutability pl) cbd (plan_rotated pl prior r) r m" using r(2) by (simp add: plan_step_def)
        then have "caction r = NOOP" "caction d \<in> {UPDATE, REPLACE}" "cid d = cid r" "cdesired d = cdesired r" "cprior d = cprior r"
          using l by (auto simp: reapplied_def split: if_splits)
        then have "carries ?inp d" using c by (auto simp: carries_def)
        then show ?thesis ..
      qed
    next
      case False
      then have p: "caction r = NOOP" "cdesired r = None"
        using r(1) by (auto simp: narrowed_def restrict_to_def split: option.splits if_splits)
      then have "plan_rotated pl prior r = {}" by (auto simp: plan_rotated_def rotated_in_def secret_moved_def split: option.splits)
      then have "lowered r m" using r(2) by (simp add: plan_step_def)
      then show ?thesis using lowered_fields [of r m] l p by simp
    qed
  qed
  note any = this
  have ids: "i \<in> nid ` set (gnodes (co_ir co)) \<longleftrightarrow> map_of (by_id (co_ir co)) i \<noteq> None" for i
    by (rule wanted_iff [symmetric])
  have "(caction d \<in> {CREATE, UPDATE, REPLACE} \<longrightarrow> (\<exists>n \<in> set (gnodes (co_ir co)). cdesired d = Some n \<and> nid n = cid d)) \<and>
    (caction d \<in> {UPDATE, REPLACE, DELETE} \<longrightarrow> (\<exists>row. cprior d = Some row \<and> map_of prior (cid d) = Some row)) \<and>
    (caction d = DELETE \<longrightarrow> cdesired d = None \<and> cid d \<notin> nid ` set (gnodes (co_ir co)))" if d: "d \<in> set (pn_changes plan)"
  proof (cases "caction d = NOOP")
    case True
    then show ?thesis by simp
  next
    case False
    then have c: "carries ?inp d" using any [OF d] by blast
    then have c': "cdesired d = map_of (by_id (co_ir co)) (cid d)" "cprior d = map_of prior (cid d)"
      "caction d = DELETE \<longleftrightarrow> map_of (by_id (co_ir co)) (cid d) = None" "caction d \<noteq> CREATE \<longrightarrow> map_of prior (cid d) \<noteq> None"
      by (simp_all add: carries_def)
    then show ?thesis using want [of "cid d"] ids [of "cid d"]
      by (cases "map_of (by_id (co_ir co)) (cid d)"; cases "map_of prior (cid d)") auto
  qed
  then show ?thesis using dist by blast
qed

text \<open>
  C7: what a plan may do to a protected node. An accepted plan deletes none. It replaces one only
  if it warns that the replacement will be judged at apply, or if an immutable secret of the node
  no longer matches the digest the state holds: the audit that finds this comes after the guard.
\<close>

theorem plan_guards_protected:
  assumes "build pl co prior so sel rep = Some (Inr plan)"
    and "distinct (map nid (gnodes (co_ir co)))" and "nid ` set (gnodes (co_ir co)) \<subseteq> fst ` set (co_hashes co)"
    and "d \<in> set (pn_changes plan)" and "cid d \<in> protected_ids prior (Some (co_ir co))" and "destructive (caction d)"
  shows "caction d = REPLACE \<and> (Deferred (cid d) \<in> set (pn_warnings plan) \<or>
    (\<exists>row f. map_of prior (cid d) = Some row \<and> immutable_field (pl_mutability pl) d f \<and>
       secret_moved (ae_py (pl_env pl)) (ae_secrets (pl_env pl)) (pl_matches pl) d row f))"
proof -
  let ?prot = "protected_ids prior (Some (co_ir co))"
  obtain raw0 cbd mid where ids: "map cid raw0 = sorted_set (map fst (by_id (co_ir co)) @ map fst prior)"
    and b: "check_prevent_destroy (narrowed raw0 sel) ?prot = Inr (narrowed raw0 sel)"
    "set (deferral_notes (deferred_to_apply (narrowed raw0 sel) ?prot)) \<subseteq> set (pn_warnings plan)"
    "list_all2 (plan_step (pl_mutability pl) cbd (plan_rotated pl prior)) (narrowed raw0 sel) mid"
    "list_all2 lowered mid (pn_changes plan)"
    by (rule build_steps [OF assms(1-3)])
  obtain r m where r: "r \<in> set (narrowed raw0 sel)" "plan_step (pl_mutability pl) cbd (plan_rotated pl prior) r m" "lowered m d"
    by (rule plan_origin [OF b(3,4) assms(4)])
  note l = lowered_fields [OF r(3)]
  show ?thesis
  proof (cases "plan_rotated pl prior r = {}")
    case True
    then have "lowered r m" using r(2) by (simp add: plan_step_def)
    then have same: "cid d = cid r" "caction d = caction r" using l lowered_fields by metis+
    then have def: "cid d \<in> deferred_to_apply (narrowed raw0 sel) ?prot"
      using check_passes [OF b(1)] r(1) assms(5,6) by simp
    have "finite (deferred_to_apply (narrowed raw0 sel) ?prot)" by (simp add: deferred_to_apply_def Let_def)
    then have "Deferred (cid d) \<in> set (pn_warnings plan)" using def b(2) by (auto simp: deferral_notes_def)
    moreover have "caction d = REPLACE"
    proof -
      obtain c where c: "c \<in> set (narrowed raw0 sel)" "cid c = cid r" "caction c = REPLACE"
        using def same(1) by (auto simp: deferred_to_apply_def Let_def)
      have "distinct (map cid (narrowed raw0 sel))"
        unfolding narrowed_cid ids by simp
      then have "c = r" using c r(1) by (meson distinct_map inj_onD)
      then show ?thesis using c same(2) by simp
    qed
    ultimately show ?thesis by blast
  next
    case False
    then have re: "reapplied (pl_mutability pl) cbd (plan_rotated pl prior r) r m" using r(2) by (simp add: plan_step_def)
    then have same: "cid d = cid r" "cdesired d = cdesired r" using l by (simp_all add: reapplied_def)
    have act: "caction d = (if \<exists>f \<in> plan_rotated pl prior r. immutable_field (pl_mutability pl) r f then REPLACE else UPDATE)"
      using re l by (simp add: reapplied_def)
    then obtain f where f: "f \<in> plan_rotated pl prior r" "immutable_field (pl_mutability pl) r f"
      using assms(6) by (auto simp: destructive_def split: if_splits)
    have "immutable_field (pl_mutability pl) d f" using f(2) immutable_field_cong [OF same(2)] by simp
    moreover have "caction d = REPLACE" using act f by auto
    ultimately show ?thesis using rotated_change [OF f(1) same] by blast
  qed
qed

text \<open>
  C14: a narrowed plan stays inside its selection. Whatever the audit, the guards and the ordering
  passes do, every change a narrowed plan would make is to a selected node.
\<close>

theorem plan_within_selection:
  assumes "build pl co prior so (Some S) rep = Some (Inr plan)"
    and "distinct (map nid (gnodes (co_ir co)))" and "nid ` set (gnodes (co_ir co)) \<subseteq> fst ` set (co_hashes co)"
    and "d \<in> set (pending (pn_changes plan))"
  shows "cid d \<in> S"
proof (rule ccontr)
  assume out: "cid d \<notin> S"
  obtain raw0 cbd mid where b: "list_all2 (plan_step (pl_mutability pl) cbd (plan_rotated pl prior)) (narrowed raw0 (Some S)) mid"
    "list_all2 lowered mid (pn_changes plan)"
    by (rule build_steps [OF assms(1-3)])
  have d: "d \<in> set (pn_changes plan)" "caction d \<noteq> NOOP \<or> cstate_only d" using assms(4) by (auto simp: pending_def)
  obtain r m where r: "r \<in> set (narrowed raw0 (Some S))" "plan_step (pl_mutability pl) cbd (plan_rotated pl prior) r m" "lowered m d"
    by (rule plan_origin [OF b d(1)])
  have "cid r \<notin> S" using plan_step_cid [OF r(2)] lowered_fields [OF r(3)] out by simp
  then have plain: "r = plain_change (cid r) NOOP" using r(1) by (auto simp: narrowed_def restrict_to_def split: if_splits)
  then have "cdesired r = None" by (metis plain_change_simps(3))
  then have "plan_rotated pl prior r = {}" by (auto simp: plan_rotated_def rotated_in_def secret_moved_def split: option.splits)
  then have "lowered r m" using r(2) by (simp add: plan_step_def)
  then have "caction d = caction r" "cstate_only d = cstate_only r" using lowered_fields [OF r(3)] lowered_fields by metis+
  then show False using d(2) plain by simp_all (metis plain_change_simps(2,8))+
qed

lemma actionable_fields_iff:
  "(c, f, v) \<in> set (actionable_fields cs) \<longleftrightarrow> c \<in> set cs \<and> caction c \<noteq> NOOP \<and>
    (f, v) \<in> set (case cdesired c of Some n \<Rightarrow> nproperties n | None \<Rightarrow> (case cprior c of Some s \<Rightarrow> sproperties s | None \<Rightarrow> []))"
  by (auto simp: actionable_fields_def actionable_def)

text \<open>
  The two guards look at a field's value and not into it. A stack output inside a list is not missed
  by the plan, whatever is committed, and stops the apply.
\<close>

lemma nested_output_unchecked:
  assumes "map_of (ae_stack_outputs env) (s @ '':'' @ n) = None"
  shows "stack_output_name (PList [PDict [(PStr STACK_OUTPUT_KEY, PStr (s @ '':'' @ n))]]) = None"
    and "rewrite_stack_refs env True (PList [PStackOut s n]) =
      Inl (ProviderError (''stack output not found: '' @ s @ '':'' @ n) None None None)"
proof -
  show "stack_output_name (PList [PDict [(PStr STACK_OUTPUT_KEY, PStr (s @ '':'' @ n))]]) = None"
    by (simp add: stack_output_name_def single_key_marker_def)
  have "tree_any True is_stack_out (PList [PStackOut s n])"
    by (subst tree_any_eq) (simp add: tree_any_eq [of True is_stack_out "PStackOut s n"] is_stack_out_def)
  moreover have "substitute_stack e (ae_stack_outputs env) True (PList [PStackOut s n]) =
      Inl (ProviderError (''stack output not found: '' @ s @ '':'' @ n) None None None)" for e
    by (subst substitute_stack.simps, subst tree_map.simps)
      (use assms in \<open>simp add: tree_step_def tree_map.simps [of _ _ _ "PStackOut s n"] rbind_def\<close>)
  ultimately show "rewrite_stack_refs env True (PList [PStackOut s n]) =
      Inl (ProviderError (''stack output not found: '' @ s @ '':'' @ n) None None None)"
    by (simp add: rewrite_stack_refs_def)
qed

text \<open>
  C16: an accepted plan has found the inputs its fields name outright. When a field of an actionable
  change, in its declaration or, for a delete, in its row, is itself a stack output or a secret
  handle, then that output is committed and that secret resolves at the time the plan is accepted.
  This is said of the field's own value only: a handle inside a list, a dict or a transform is not
  looked for.
\<close>

theorem plan_finds_inputs:
  assumes "build pl co prior so sel rep = Some (Inr plan)"
    and "distinct (map nid (gnodes (co_ir co)))" and "nid ` set (gnodes (co_ir co)) \<subseteq> fst ` set (co_hashes co)"
    and "(d, f, v) \<in> set (actionable_fields (pn_changes plan))"
  shows "(stack_output_name v = Some n \<longrightarrow> n \<in> fst ` set so) \<and>
    (is_secret_ref_marker v \<longrightarrow> (\<exists>n p s. secret_ref_from_marker (ae_py (pl_env pl)) v = Inr (n, p) \<and>
       api_resolve (ae_secrets (pl_env pl)) n p = Inr s))"
proof -
  obtain raw0 cbd mid where b: "list_all2 (plan_step (pl_mutability pl) cbd (plan_rotated pl prior)) (narrowed raw0 sel) mid"
    "require_secrets (ae_py (pl_env pl)) (ae_secrets (pl_env pl)) mid = Inr mid" "require_stack_outputs mid so = Inr mid"
    "list_all2 lowered mid (pn_changes plan)"
    by (rule build_steps [OF assms(1-3)])
  obtain r m where m: "m \<in> set mid" "lowered m d"
    using assms(4) b(4) unfolding actionable_fields_iff by (metis list_all2_conv_all_nth in_set_conv_nth)
  have mf: "(m, f, v) \<in> set (actionable_fields mid)"
  proof -
    have h: "cdesired d = cdesired m" "cprior d = cprior m" "caction d = caction m" using lowered_fields [OF m(2)] by blast+
    show ?thesis using assms(4) m(1) unfolding actionable_fields_iff h by blast
  qed
  show ?thesis
  proof (intro conjI impI)
    assume n: "stack_output_name v = Some n"
    have "\<forall>(c, f, v) \<in> set (actionable_fields mid). \<forall>n. stack_output_name v = Some n \<longrightarrow> n \<in> fst ` set so"
      using b(3) unfolding require_stack_outputs_def Let_def by (fastforce split: option.splits if_splits)
    then show "n \<in> fst ` set so" using mf n by fastforce
  next
    assume s: "is_secret_ref_marker v"
    obtain ms where ms: "rmap (\<lambda>(c, f, v). if \<not> is_secret_ref_marker v then Inr []
        else rbind (secret_ref_from_marker (ae_py (pl_env pl)) v) (\<lambda>(n, p). case api_resolve (ae_secrets (pl_env pl)) n p of
            Inr _ \<Rightarrow> Inr []
          | Inl e \<Rightarrow> if is_secrets_error e then Inr [cid c @ ''.'' @ f @ '' -> '' @ n] else Inl e)) (actionable_fields mid) = Inr ms"
      "concat ms = []"
      using b(2) unfolding require_secrets_def by (auto simp: rbind_Inr_iff split: if_splits)
    obtain y where y: "rbind (secret_ref_from_marker (ae_py (pl_env pl)) v) (\<lambda>(n, p). case api_resolve (ae_secrets (pl_env pl)) n p of
            Inr _ \<Rightarrow> Inr []
          | Inl e \<Rightarrow> if is_secrets_error e then Inr [cid m @ ''.'' @ f @ '' -> '' @ n] else Inl e) = Inr y" "y \<in> set ms"
    proof -
      from mf obtain k where k: "k < length (actionable_fields mid)" "actionable_fields mid ! k = (m, f, v)" by (auto simp: in_set_conv_nth)
      then have "ms ! k \<in> set ms" using ms(1) by (simp add: rmap_Inr_iff)
      then show ?thesis using that [of "ms ! k"] ms(1) k s unfolding rmap_Inr_iff by fastforce
    qed
    have "y = []" using y(2) ms(2) by simp
    then show "\<exists>n p s. secret_ref_from_marker (ae_py (pl_env pl)) v = Inr (n, p) \<and> api_resolve (ae_secrets (pl_env pl)) n p = Inr s"
    proof -
      obtain n p where np: "secret_ref_from_marker (ae_py (pl_env pl)) v = Inr (n, p)" using y(1) by (auto simp: rbind_Inr_iff)
      then show ?thesis using y(1) \<open>y = []\<close> by (cases "api_resolve (ae_secrets (pl_env pl)) n p") (auto split: if_splits)
    qed
  qed
qed

subsection \<open>A rotated secret\<close>

text \<open>The guard, asked about a set with an unconditional replacement of a protected node, refuses it by name.\<close>

lemma unconditional_refused:
  assumes "d \<in> set cs" and "caction d = REPLACE" and "\<not> cconditional d" and "cid d \<in> protected" and "distinct (map cid cs)"
  shows "\<exists>ids. check_prevent_destroy cs protected = Inl (PreventDestroyError ''prevent_destroy blocks destroying'' ids) \<and> cid d \<in> set ids"
proof -
  have "c = d" if "c \<in> set cs" "cid c = cid d" for c
    using that assms(1,5) by (meson distinct_map inj_onD)
  then have "cid d \<notin> deferred_to_apply cs protected" using assms(3) by (auto simp: deferred_to_apply_def Let_def)
  then have "cid d \<in> set (map cid (filter (\<lambda>c. destructive (caction c) \<and> cid c \<in> protected \<and> cid c \<notin> deferred_to_apply cs protected) cs))"
    (is "_ \<in> set ?blocked") using assms(1,2,4) by (auto simp: destructive_def)
  then have "?blocked \<noteq> []" "cid d \<in> set (sort ?blocked)" by (force, simp only: set_sort)
  then show ?thesis by (simp add: check_prevent_destroy_def Let_def del: set_map set_sort set_filter map_is_Nil_conv)
qed

text \<open>
  C12: a rotated secret replaces its node, whatever protects it. When the diff leaves a node of the
  selection as it is, and an immutable secret of it no longer matches the digest its row records,
  then every plan that is accepted replaces the node, and not conditionally, so that the apply does
  not ask again. If the node is protected, the guard that let the plan pass refuses the plan's own
  changes and names the node: it was asked before the audit of the secrets, never after.
\<close>

theorem rotated_secret_replaces_protected:
  assumes "build pl co prior so sel rep = Some (Inr plan)"
    and "distinct (map nid (gnodes (co_ir co)))" and "nid ` set (gnodes (co_ir co)) \<subseteq> fst ` set (co_hashes co)"
    and "consumed_verdicts (pl_env pl) (co_ir co) prior = Inr moved"
    and "diff (co_ir co) (co_hashes co) prior (pl_mutability pl) rep moved = Some (Inr raw)"
    and "r \<in> set raw" and "caction r = NOOP" and "sel = None \<or> (\<exists>S. sel = Some S \<and> cid r \<in> S)"
    and "map_of prior (cid r) = Some row" and "immutable_field (pl_mutability pl) r f"
    and "secret_moved (ae_py (pl_env pl)) (ae_secrets (pl_env pl)) (pl_matches pl) r row f"
  shows "\<exists>d \<in> set (pn_changes plan). cid d = cid r \<and> caction d = REPLACE \<and> \<not> cconditional d \<and> f \<in> set (cfields d) \<and>
    (cid r \<in> protected_ids prior (Some (co_ir co)) \<longrightarrow>
      (\<exists>ids. check_prevent_destroy (pn_changes plan) (protected_ids prior (Some (co_ir co))) =
         Inl (PreventDestroyError ''prevent_destroy blocks destroying'' ids) \<and> cid r \<in> set ids))"
proof -
  obtain moved' raw0 cbd mid where b: "diff (co_ir co) (co_hashes co) prior (pl_mutability pl) rep moved' = Some (Inr raw0)"
    "map cid raw0 = sorted_set (map fst (by_id (co_ir co)) @ map fst prior)"
    "list_all2 (plan_step (pl_mutability pl) cbd (plan_rotated pl prior)) (narrowed raw0 sel) mid"
    "list_all2 lowered mid (pn_changes plan)" "consumed_verdicts (pl_env pl) (co_ir co) prior = Inr moved'"
    by (rule build_steps [OF assms(1-3)])
  have raw: "raw0 = raw" using b(1,5) assms(4,5) by simp
  have r: "r \<in> set (narrowed raw0 sel)"
    using assms(6,8) raw by (force simp: narrowed_def restrict_to_def)
  have rot: "f \<in> plan_rotated pl prior r" using assms(7,9,11) by (simp add: plan_rotated_def rotated_in_def)
  obtain m d where m: "plan_step (pl_mutability pl) cbd (plan_rotated pl prior) r m" "lowered m d" "d \<in> set (pn_changes plan)"
    using r b(3,4) unfolding list_all2_conv_all_nth in_set_conv_nth by metis
  have re: "reapplied (pl_mutability pl) cbd (plan_rotated pl prior r) r m" using m(1) rot by (auto simp: plan_step_def split: if_splits)
  note l = lowered_fields [OF m(2)]
  have same: "cid d = cid r" "caction d = REPLACE" "f \<in> set (cfields d)" using re l rot assms(10) by (auto simp: reapplied_def)
  have "settled r" using diff_settled [OF b(1) _ assms(2,3)] assms(6) raw by blast
  then have "\<not> cconditional r" using assms(7) by (simp add: settled_def)
  then have un: "\<not> cconditional d" using re m(2) by (auto simp: reapplied_def lowered_def)
  have "map cid mid = map cid (narrowed raw0 sel)" using b(3) by (rule list_all2_cid) (rule plan_step_cid)
  moreover have "map cid (pn_changes plan) = map cid mid" using b(4) by (rule list_all2_cid) (use lowered_fields in blast)
  ultimately have "distinct (map cid (pn_changes plan))" unfolding narrowed_cid b(2) by simp
  then show ?thesis using unconditional_refused [OF m(3) same(2) un] m(3) same un by auto
qed

definition db_node :: irnode where
  "db_node = (mk_node ''s:sql.Db:d'' [] [])\<lparr>ntype := ''sql.Db'', nprevent_destroy := True,
     nproperties := [(''password'', PDict [(PStr SECRET_REF_KEY, pdict [(''name'', PStr ''pw''), (''provider'', PNone)])])]\<rparr>"

definition db_compiled :: compiled where
  "db_compiled = \<lparr>co_ir = \<lparr>gnodes = [db_node], gversion = 1\<rparr>,
     co_graph = \<lparr>node_ids = [''s:sql.Db:d''], deps = [(''s:sql.Db:d'', [])], dependents = [(''s:sql.Db:d'', [])]\<rparr>,
     co_hashes = [(''s:sql.Db:d'', ''h'')], co_resources = [], co_bindings = [], co_outputs = [], co_inputs = [],
     co_envs_declared = [], co_envs_selected = []\<rparr>"

definition db_rows :: state_graph where
  "db_rows = [(''s:sql.Db:d'', (mk_row db_node ''h'')\<lparr>stype := ''sql.Db'', sprevent_destroy := True, ssecret_digests := [(''password'', ''old'')]\<rparr>)]"

text \<open>Secrets resolve to \<open>new\<close>; a digest matches when it is the plaintext.\<close>

definition db_planner :: planner where
  "db_planner = \<lparr>pl_mutability = [(''sql.Db'', [(''password'', IMMUTABLE)])],
     pl_env = applied_env\<lparr>ae_secrets := \<lparr>api_resolve = (\<lambda>n p. Inr ''new''), api_digest = (\<lambda>s p. Inr p), api_seal = (\<lambda>s. Inr (PStr s)), api_unseal = Inr\<rparr>\<rparr>,
     pl_matches = (\<lambda>scope p d. Inr (d = Some p)), pl_policies = [], pl_decorated = []\<rparr>"

definition db_outline :: "(aerror, plan) result option \<Rightarrow> ((node_id \<times> action \<times> bool) list \<times> violation list \<times> plan_warning list) option" where
  "db_outline r = (case r of Some (Inr p) \<Rightarrow> Some (map (\<lambda>c. (cid c, caction c, cconditional c)) (pn_changes p), blocked p, pn_warnings p) | _ \<Rightarrow> None)"

lemma db_outline_Some:
  "db_outline r = Some (cs, vs, ws) \<Longrightarrow> \<exists>p. r = Some (Inr p) \<and> map (\<lambda>c. (cid c, caction c, cconditional c)) (pn_changes p) = cs \<and> blocked p = vs \<and> pn_warnings p = ws"
  by (auto simp: db_outline_def split: option.splits sum.splits)

lemma db_plan: "sel \<in> {None, Some {''s:sql.Db:d''}} \<Longrightarrow>
    db_outline (build db_planner db_compiled db_rows [] sel {}) = Some ([(''s:sql.Db:d'', REPLACE, False)], [], [])"
proof -
  have "db_outline (build db_planner db_compiled db_rows [] None {}) = Some ([(''s:sql.Db:d'', REPLACE, False)], [], [])" by code_simp
  moreover have "db_outline (build db_planner db_compiled db_rows [] (Some {''s:sql.Db:d''}) {}) = Some ([(''s:sql.Db:d'', REPLACE, False)], [], [])"
    by code_simp
  moreover assume "sel \<in> {None, Some {''s:sql.Db:d''}}"
  ultimately show ?thesis by auto
qed

lemma db_protected: "''s:sql.Db:d'' \<in> protected_ids db_rows (Some (co_ir db_compiled))"
  by code_simp

lemma db_compiled_ok:
  "distinct (map nid (gnodes (co_ir db_compiled)))" "nid ` set (gnodes (co_ir db_compiled)) \<subseteq> fst ` set (co_hashes db_compiled)"
  by code_simp+

theorem rotated_secret_replaces_protected_witness:
  "\<exists>p d ids. build db_planner db_compiled db_rows [] None {} = Some (Inr p) \<and> blocked p = [] \<and> pn_warnings p = [] \<and>
     d \<in> set (pn_changes p) \<and> caction d = REPLACE \<and> \<not> cconditional d \<and>
     check_prevent_destroy (pn_changes p) (protected_ids db_rows (Some (co_ir db_compiled))) = Inl (PreventDestroyError ''prevent_destroy blocks destroying'' ids)"
proof -
  let ?id = "''s:sql.Db:d''" let ?v = "PDict [(PStr SECRET_REF_KEY, pdict [(''name'', PStr ''pw''), (''provider'', PNone)])]"
  obtain p where p: "build db_planner db_compiled db_rows [] None {} = Some (Inr p)" "blocked p = []" "pn_warnings p = []"
    using db_outline_Some [OF db_plan [of None]] by auto
  let ?raw = "\<lambda>moved. diff (co_ir db_compiled) (co_hashes db_compiled) db_rows (pl_mutability db_planner) {} moved"
  have o': "case consumed_verdicts (pl_env db_planner) (co_ir db_compiled) db_rows of Inl e \<Rightarrow> False
    | Inr moved \<Rightarrow> (case ?raw moved of
        Some (Inr raw) \<Rightarrow> map (\<lambda>c. (cid c, caction c, cdesired c)) raw = [(?id, NOOP, Some db_node)] | _ \<Rightarrow> False)" by code_simp
  then obtain moved where mv: "consumed_verdicts (pl_env db_planner) (co_ir db_compiled) db_rows = Inr moved"
    by (cases "consumed_verdicts (pl_env db_planner) (co_ir db_compiled) db_rows") auto
  obtain raw where rw: "?raw moved = Some (Inr raw)"
    using o' unfolding mv by (cases "?raw moved"; cases "the (?raw moved)") auto
  have "map (\<lambda>c. (cid c, caction c, cdesired c)) raw = [(?id, NOOP, Some db_node)]"
    using o' unfolding mv by (simp add: rw)
  then obtain r where r: "r \<in> set raw" "cid r = ?id" "caction r = NOOP" "cdesired r = Some db_node" by auto
  obtain row where row: "map_of db_rows ?id = Some row" "ssecret_digests row = [(''password'', ''old'')]" by (simp add: db_rows_def)
  have im: "immutable_field (pl_mutability db_planner) r ''password''"
  proof -
    have "immutable_in (muts_of (pl_mutability db_planner) (ntype db_node)) ''password''" by code_simp
    then show ?thesis by (simp add: immutable_field_def r(4))
  qed
  have mo: "secret_moved (ae_py (pl_env db_planner)) (ae_secrets (pl_env db_planner)) (pl_matches db_planner) r row ''password''"
  proof -
    have "(''password'', ?v) \<in> set (nproperties db_node)" by (simp add: db_node_def)
    moreover have "is_secret_ref_marker ?v" by code_simp
    moreover have "case secret_ref_from_marker (ae_py (pl_env db_planner)) ?v of Inr (n, q) \<Rightarrow> True | Inl e \<Rightarrow> False" by code_simp
    then obtain n q where "secret_ref_from_marker (ae_py (pl_env db_planner)) ?v = Inr (n, q)" by (auto split: sum.splits)
    moreover have "api_resolve (ae_secrets (pl_env db_planner)) n q = Inr ''new''" by (simp add: db_planner_def)
    moreover have "pl_matches db_planner (field_scope (cid r) ''password'') ''new'' (map_of (ssecret_digests row) ''password'') = Inr False"
      by (simp add: db_planner_def row(2))
    ultimately show ?thesis using r(4) unfolding secret_moved_def by blast
  qed
  obtain d where d: "d \<in> set (pn_changes p)" "cid d = cid r" "caction d = REPLACE" "\<not> cconditional d"
    "cid r \<in> protected_ids db_rows (Some (co_ir db_compiled)) \<longrightarrow>
      (\<exists>ids. check_prevent_destroy (pn_changes p) (protected_ids db_rows (Some (co_ir db_compiled))) =
         Inl (PreventDestroyError ''prevent_destroy blocks destroying'' ids) \<and> cid r \<in> set ids)"
    using rotated_secret_replaces_protected [OF p(1) db_compiled_ok mv rw r(1,3) _ row(1) [folded r(2)] im mo] by blast
  then show ?thesis using p db_protected r(2) by auto
qed

theorem plan_guards_protected_witness:
  "\<exists>p d row f. build db_planner db_compiled db_rows [] None {} = Some (Inr p) \<and> d \<in> set (pn_changes p) \<and>
     map_of db_rows (cid d) = Some row \<and> immutable_field (pl_mutability db_planner) d f"
proof -
  obtain p where p: "build db_planner db_compiled db_rows [] None {} = Some (Inr p)" "pn_warnings p = []"
    "map (\<lambda>c. (cid c, caction c, cconditional c)) (pn_changes p) = [(''s:sql.Db:d'', REPLACE, False)]"
    using db_outline_Some [OF db_plan [of None]] by auto
  then obtain d where d: "pn_changes p = [d]" "cid d = ''s:sql.Db:d''" "caction d = REPLACE" by auto
  have "Deferred (cid d) \<notin> set (pn_warnings p)" using p(2) by simp
  then show ?thesis
    using plan_guards_protected [OF p(1) db_compiled_ok, of d] d db_protected p(1) by (auto simp: destructive_def)
qed

theorem plan_within_selection_witness:
  "\<exists>p d. build db_planner db_compiled db_rows [] (Some {''s:sql.Db:d''}) {} = Some (Inr p) \<and> d \<in> set (pending (pn_changes p)) \<and> cid d \<in> {''s:sql.Db:d''}"
proof -
  obtain p where p: "build db_planner db_compiled db_rows [] (Some {''s:sql.Db:d''}) {} = Some (Inr p)"
    "map (\<lambda>c. (cid c, caction c, cconditional c)) (pn_changes p) = [(''s:sql.Db:d'', REPLACE, False)]"
    using db_outline_Some [OF db_plan [of "Some {''s:sql.Db:d''}"]] by auto
  then obtain d where d: "pn_changes p = [d]" "caction d = REPLACE" by auto
  then have "d \<in> set (pending (pn_changes p))" by (simp add: pending_def)
  with plan_within_selection [OF p(1) db_compiled_ok this] p(1) show ?thesis by blast
qed

theorem plan_finds_inputs_witness:
  "\<exists>n p s. secret_ref_from_marker plain_env (PDict [(PStr SECRET_REF_KEY, pdict [(''name'', PStr ''pw''), (''provider'', PNone)])]) = Inr (n, p) \<and>
     api_resolve (ae_secrets (pl_env db_planner)) n p = Inr s"
proof -
  let ?v = "PDict [(PStr SECRET_REF_KEY, pdict [(''name'', PStr ''pw''), (''provider'', PNone)])]"
  have "case build db_planner db_compiled db_rows [] None {} of Some (Inr q) \<Rightarrow>
      map (\<lambda>(c, f, v). (f, v)) (actionable_fields (pn_changes q)) = [(''password'', ?v)] | _ \<Rightarrow> False" by code_simp
  then obtain q where q: "build db_planner db_compiled db_rows [] None {} = Some (Inr q)"
    "map (\<lambda>(c, f, v). (f, v)) (actionable_fields (pn_changes q)) = [(''password'', ?v)]"
    by (auto split: option.splits sum.splits)
  then obtain d where "(d, ''password'', ?v) \<in> set (actionable_fields (pn_changes q))" by auto
  moreover have "is_secret_ref_marker ?v" by code_simp
  moreover have "ae_py (pl_env db_planner) = plain_env" by (simp add: db_planner_def applied_env_def)
  ultimately show ?thesis using plan_finds_inputs [OF q(1) db_compiled_ok] by metis
qed

theorem plan_well_formed_witness:
  "\<exists>p d n. build db_planner db_compiled db_rows [] None {} = Some (Inr p) \<and> d \<in> set (pn_changes p) \<and> cdesired d = Some n \<and> nid n = ''s:sql.Db:d''"
proof -
  obtain p where p: "build db_planner db_compiled db_rows [] None {} = Some (Inr p)"
    "map (\<lambda>c. (cid c, caction c, cconditional c)) (pn_changes p) = [(''s:sql.Db:d'', REPLACE, False)]"
    using db_outline_Some [OF db_plan [of None]] by auto
  then obtain d where d: "d \<in> set (pn_changes p)" "cid d = ''s:sql.Db:d''" "caction d = REPLACE" by auto
  then show ?thesis using plan_well_formed [OF p(1) db_compiled_ok, of d] p(1) by auto
qed

end
