(* ===== verification/EngineLock.thy ===== *)
theory EngineLock
  imports PlanSafety Aliases ExecContext
begin

text \<open>
  The engine around a run: planning from state, with renames and narrowing (\<open>engine/engine.py\<close>),
  what the lock covers, and the checks made once it is held (\<open>engine/locking.py\<close>).
\<close>

subsection \<open>Planning from state\<close>

definition plan_from_compiled ::
  "planner \<Rightarrow> compiled \<Rightarrow> state_graph \<Rightarrow> props \<Rightarrow> string list \<Rightarrow> string list \<Rightarrow> (aerror, plan) result option" where
  "plan_from_compiled pl co prior stack_outputs targets replaced =
     Option.bind (resolve_aliases (ae_py (pl_env pl)) (ae_sha (pl_env pl)) prior (co_ir co)) (\<lambda>r. case r of
       Inl e \<Rightarrow> Some (Inl e)
     | Inr (migrated, remap) \<Rightarrow> Option.bind (narrowing co migrated targets replaced) (\<lambda>chosen. case chosen of
         Inl e \<Rightarrow> Some (Inl e)
       | Inr (selected, only) \<Rightarrow> build pl co migrated stack_outputs selected only))"

definition destroy_targets :: "state_graph \<Rightarrow> string list \<Rightarrow> (aerror, node_id list) result option" where
  "destroy_targets prior patterns =
     (if patterns = [] then Some (Inr (sort (map fst prior)))
      else map_option (\<lambda>r. rbind r (\<lambda>S. Inr (sorted_list_of_set S))) (destroy_selection prior patterns))"

definition importable :: "compiled \<Rightarrow> state_graph \<Rightarrow> node_id list" where
  "importable co prior = sort (map nid (filter (\<lambda>n. nid n \<notin> fst ` set prior) (gnodes (co_ir co))))"

definition covered :: "state_graph \<Rightarrow> node_id set \<Rightarrow> state_graph" where
  "covered g scope = filter (\<lambda>(i, s). i \<in> scope) g"

subsection \<open>What the lock covers\<close>

definition apply_scope :: "plan \<Rightarrow> state_graph \<Rightarrow> node_id set option" where
  "apply_scope p prior = map_option (\<lambda>cbd. fst ` set (deps (co_graph (pn_compiled p))) \<union> fst ` set prior \<union> cbd_companion_id ` cbd)
     (effective_cbd (co_ir (pn_compiled p)))"

definition require_no_new_nodes :: "state_graph \<Rightarrow> node_id set \<Rightarrow> string \<Rightarrow> string \<Rightarrow> (aerror, unit) result" where
  "require_no_new_nodes fresh scope command suffix =
     (let created = filter (\<lambda>i. i \<notin> scope) (map fst fresh)
      in if created \<noteq> [] then Inl (StateError ''state gained node(s) while waiting for the lock'' (command # sort created @ [suffix])) else Inr ())"

text \<open>What an apply runs, given the state read under the lease.\<close>

definition policy_denial :: "plan \<Rightarrow> (aerror, plan) result" where
  "policy_denial p = (if blocked p \<noteq> [] then Inl (PolicyViolationError ''policy denied apply'' (map vi_policy (blocked p))) else Inr p)"

definition replanned ::
  "planner \<Rightarrow> compiled \<Rightarrow> node_id set \<Rightarrow> change_set option \<Rightarrow> state_graph \<Rightarrow> props \<Rightarrow> string list \<Rightarrow> string list \<Rightarrow> (aerror, plan) result option" where
  "replanned pl co scope expect prior stack_outputs targets replaced =
     (case require_no_new_nodes prior scope ''apply'' ''re-run apply'' of
        Inl e \<Rightarrow> Some (Inl e)
      | Inr _ \<Rightarrow> map_option (\<lambda>r. rbind r (\<lambda>fresh.
           rbind (case expect of None \<Rightarrow> Inr () | Some shown \<Rightarrow> raise_drift shown (pn_changes fresh)) (\<lambda>_. policy_denial fresh)))
           (plan_from_compiled pl co prior stack_outputs targets replaced))"

text \<open>What a destroy runs, given the state read under the lease.\<close>

definition destroy_replanned :: "node_id set \<Rightarrow> state_graph \<Rightarrow> mutability_table \<Rightarrow> string list \<Rightarrow> (aerror, change_set) result option" where
  "destroy_replanned scope fresh mut targets =
     (case require_no_new_nodes fresh scope ''destroy'' ''re-run destroy to include them'' of
        Inl e \<Rightarrow> Some (Inl e) | Inr _ \<Rightarrow> destroy_changeset fresh mut targets)"

lemma require_no_new: "require_no_new_nodes fresh scope cmd suffix = Inr () \<Longrightarrow> fst ` set fresh \<subseteq> scope"
  by (auto simp: require_no_new_nodes_def Let_def filter_empty_conv split: if_splits)

lemma build_in_scope:
  assumes b: "build pl co prior so sel rep = Some (Inr plan)"
    and dist: "distinct (map nid (gnodes (co_ir co)))" "nid ` set (gnodes (co_ir co)) \<subseteq> fst ` set (co_hashes co)"
    and d: "d \<in> set (pn_changes plan)" and cbd: "effective_cbd (co_ir co) = Some cbd"
  shows "cid d \<in> nid ` set (gnodes (co_ir co)) \<union> fst ` set prior \<and> (ccbd d \<longrightarrow> cid d \<in> cbd)"
proof -
  obtain moved raw0 cbd' mid where s: "diff (co_ir co) (co_hashes co) prior (pl_mutability pl) rep moved = Some (Inr raw0)"
    "map cid raw0 = sorted_set (map fst (by_id (co_ir co)) @ map fst prior)" "effective_cbd (co_ir co) = Some cbd'"
    "list_all2 (plan_step (pl_mutability pl) cbd' (plan_rotated pl prior)) (narrowed raw0 sel) mid" "list_all2 lowered mid (pn_changes plan)"
    by (rule build_steps [OF b dist])
  obtain r m where r: "r \<in> set (narrowed raw0 sel)" "plan_step (pl_mutability pl) cbd' (plan_rotated pl prior) r m" "lowered m d"
    by (rule plan_origin [OF s(4,5) d])
  have same: "cid d = cid r" using plan_step_cid [OF r(2)] lowered_fields [OF r(3)] by simp
  have "cid r \<in> set (map cid (narrowed raw0 sel))" using r(1) by simp
  then have ids: "cid d \<in> fst ` set (by_id (co_ir co)) \<union> fst ` set prior" unfolding narrowed_cid s(2) same by simp
  have raw: "ccbd r \<longrightarrow> cid r \<in> cbd"
  proof
    assume c: "ccbd r"
    then have "r \<in> set raw0" using r(1) by (auto simp: narrowed_def restrict_to_def split: option.splits if_splits)
    then show "cid r \<in> cbd" using diff_ccbd [OF s(1) _ c dist cbd] by blast
  qed
  have "ccbd d \<longrightarrow> cid d \<in> cbd"
    using r(2,3) raw s(3) cbd same unfolding plan_step_def lowered_def reapplied_def by (auto split: if_splits)
  moreover have "fst ` set (by_id (co_ir co)) = nid ` set (gnodes (co_ir co))"
    by (simp add: by_id_def dict_of_keys)
  ultimately show ?thesis using ids by simp
qed

lemma plan_from_compiled_steps:
  assumes "plan_from_compiled pl co prior so ts rs = Some (Inr p)"
  shows "\<exists>migrated remap selected only.
    resolve_aliases (ae_py (pl_env pl)) (ae_sha (pl_env pl)) prior (co_ir co) = Some (Inr (migrated, remap)) \<and>
    narrowing co migrated ts rs = Some (Inr (selected, only)) \<and> build pl co migrated so selected only = Some (Inr p)"
proof (cases "resolve_aliases (ae_py (pl_env pl)) (ae_sha (pl_env pl)) prior (co_ir co)")
  case None
  then show ?thesis using assms by (simp add: plan_from_compiled_def)
next
  case (Some r)
  then obtain m where r: "r = Inr m" using assms by (cases r) (simp_all add: plan_from_compiled_def)
  obtain migrated remap where m: "m = (migrated, remap)" by (cases m)
  have rest: "Option.bind (narrowing co migrated ts rs) (\<lambda>chosen. case chosen of
      Inl e \<Rightarrow> Some (Inl e) | Inr (selected, only) \<Rightarrow> build pl co migrated so selected only) = Some (Inr p)"
    using assms Some unfolding r m by (simp add: plan_from_compiled_def)
  then obtain chosen where c: "narrowing co migrated ts rs = Some chosen"
    "(case chosen of Inl e \<Rightarrow> Some (Inl e) | Inr (selected, only) \<Rightarrow> build pl co migrated so selected only) = Some (Inr p)"
    unfolding bind_eq_Some_conv by blast
  then obtain selected only where "chosen = Inr (selected, only)" by (cases chosen) auto
  then show ?thesis using c Some r m by auto
qed

text \<open>
  C8: the lock covers what the apply does. The scope is sized from the plan and the snapshot read
  before the lock; the run re-plans on the state read under the lease and refuses one that gained
  rows. Every change of the plan it then runs, and the companion row of every
  create-before-destroy replace in it, is inside the scope, renames included.
\<close>

theorem apply_stays_in_scope:
  assumes "apply_scope shown snapshot = Some scope" and "pn_compiled shown = co"
    and "replanned pl co scope expect prior so ts rs = Some (Inr fresh)" and "d \<in> set (pn_changes fresh)"
    and "distinct (map nid (gnodes (co_ir co)))" and "nid ` set (gnodes (co_ir co)) \<subseteq> fst ` set (co_hashes co)"
    and "fst ` set (deps (co_graph co)) = nid ` set (gnodes (co_ir co))" and "keyed prior"
  shows "cid d \<in> scope \<and> (ccbd d \<longrightarrow> cbd_companion_id (cid d) \<in> scope)"
proof -
  obtain cbd where cbd: "effective_cbd (co_ir co) = Some cbd" "scope = nid ` set (gnodes (co_ir co)) \<union> fst ` set snapshot \<union> cbd_companion_id ` cbd"
    using assms(1,2,7) by (auto simp: apply_scope_def)
  have r: "require_no_new_nodes prior scope ''apply'' ''re-run apply'' = Inr ()" and
    p: "plan_from_compiled pl co prior so ts rs = Some (Inr fresh)"
    using assms(3) by (auto simp: replanned_def rbind_Inr_iff policy_denial_def split: sum.splits if_splits)
  obtain migrated remap selected only where m: "resolve_aliases (ae_py (pl_env pl)) (ae_sha (pl_env pl)) prior (co_ir co) = Some (Inr (migrated, remap))"
    "build pl co migrated so selected only = Some (Inr fresh)"
    using plan_from_compiled_steps [OF p] by blast
  note b = m(2)
  have rm: "remap_ok (fst ` set prior) (nid ` set (gnodes (co_ir co))) remap" "list_all2 (migrates remap) prior migrated"
    using resolve_aliases_rows [OF m(1) assms(8,5)] by simp_all
  have "fst ` set migrated = renamed remap ` fst ` set prior" using migrates_keys [OF rm(2)] by (metis image_set)
  moreover have "renamed remap i \<in> insert i (nid ` set (gnodes (co_ir co)))" for i
  proof (cases "map_of remap i")
    case None
    then show ?thesis by (simp add: renamed_def dget_def)
  next
    case (Some j)
    then have "j \<in> snd ` set remap" by (metis map_of_SomeD image_eqI snd_conv)
    then have "j \<in> nid ` set (gnodes (co_ir co))" using rm(1) unfolding remap_ok_def by blast
    then show ?thesis using Some by (simp add: renamed_def dget_def)
  qed
  ultimately have keys: "fst ` set migrated \<subseteq> fst ` set prior \<union> nid ` set (gnodes (co_ir co))" by (simp only: image_subset_iff) blast
  show ?thesis
    using build_in_scope [OF b assms(5,6,4) cbd(1)] keys require_no_new [OF r] unfolding cbd(2) by blast
qed

subsection \<open>A create-first replace and its companion\<close>

definition cbd_compiled :: compiled where
  "cbd_compiled = db_compiled\<lparr>co_ir := \<lparr>gnodes = [db_node\<lparr>nprevent_destroy := False, ncbd := True\<rparr>], gversion = 1\<rparr>\<rparr>"

definition cbd_rows :: state_graph where
  "cbd_rows = map (\<lambda>(i, s). (i, s\<lparr>sprevent_destroy := False\<rparr>)) db_rows"

theorem apply_stays_in_scope_witness:
  "\<exists>p scope fresh d. plan_from_compiled db_planner cbd_compiled cbd_rows [] [] [] = Some (Inr p) \<and>
     apply_scope p cbd_rows = Some scope \<and> replanned db_planner cbd_compiled scope None cbd_rows [] [] [] = Some (Inr fresh) \<and>
     d \<in> set (pn_changes fresh) \<and> ccbd d \<and> cbd_companion_id (cid d) \<in> scope"
proof -
  let ?scope = "{''s:sql.Db:d'', cbd_companion_id ''s:sql.Db:d''}"
  let ?plan = "plan_from_compiled db_planner cbd_compiled cbd_rows [] [] []"
  have "case ?plan of Some (Inr p) \<Rightarrow> True | _ \<Rightarrow> False" by code_simp
  then obtain p where p: "?plan = Some (Inr p)" by (auto split: option.splits sum.splits)
  have "case ?plan of Some (Inr p) \<Rightarrow> apply_scope p cbd_rows = Some ?scope \<and> pn_compiled p = cbd_compiled | _ \<Rightarrow> False" by code_simp
  then have s: "apply_scope p cbd_rows = Some ?scope" "pn_compiled p = cbd_compiled" using p by simp_all
  let ?fresh = "replanned db_planner cbd_compiled ?scope None cbd_rows [] [] []"
  have "case ?fresh of Some (Inr f) \<Rightarrow> map ccbd (pn_changes f) = [True] | _ \<Rightarrow> False" by code_simp
  then obtain f where f: "?fresh = Some (Inr f)" "map ccbd (pn_changes f) = [True]" by (auto split: option.splits sum.splits)
  then obtain d where d: "d \<in> set (pn_changes f)" "ccbd d" by auto
  have c: "distinct (map nid (gnodes (co_ir cbd_compiled)))" "nid ` set (gnodes (co_ir cbd_compiled)) \<subseteq> fst ` set (co_hashes cbd_compiled)"
    "fst ` set (deps (co_graph cbd_compiled)) = nid ` set (gnodes (co_ir cbd_compiled))"
    by code_simp+
  have k: "keyed cbd_rows" by (simp add: keyed_def cbd_rows_def db_rows_def db_node_def mk_row_def mk_node_def)
  from apply_stays_in_scope [OF s f(1) d(1) c k] d(2) have "cbd_companion_id (cid d) \<in> ?scope" by blast
  then show ?thesis using p s(1) f(1) d by blast
qed

end
