(* ===== verification/LockedRun.thy ===== *)
theory LockedRun
  imports EngineLock
begin

text \<open>
  A run under the state lock (\<open>with_lock\<close> and \<open>_LeaseSession\<close> of \<open>engine/locking.py\<close>,
  \<open>LockedRuns\<close> of \<open>engine/runs.py\<close>) as a step relation: the run's writes, with the guard's check
  before them or without it, its renewals, the passing of time and what other runs do to the shared
  store come in any order. The store is
  the memory backend; the other runs reach it through instances of their own, so their steps see
  their lease bound and leave this run's.
\<close>

record lease_session =
  se_owner :: string
  se_scope :: "node_id list"
  se_policy :: lock_policy

datatype run_status = Running | Stopping | Over

record locked_run =
  lr_now :: time
  lr_store :: memory
  lr_guard :: lease_guard
  lr_status :: run_status
  lr_written :: "(time \<times> mem_op) list"

definition hold_lease :: "lease \<Rightarrow> locked_run \<Rightarrow> locked_run" where
  "hold_lease l r = r\<lparr>lr_guard := guard_renewed l (lr_guard r), lr_store := mem_bind_lease (Some l) (lr_store r)\<rparr>"

definition backend_in_use :: "bool \<Rightarrow> memory \<Rightarrow> aerror option" where
  "backend_in_use writer_installed b = (if writer_installed \<or> mbound b \<noteq> None
     then Some (LockError ''another run is already running on this state backend instance'' []) else None)"

text \<open>\<open>run_locked\<close> up to the run: the instance is free, the policy sound, the lock taken and held.\<close>

definition start_locked :: "lease_session \<Rightarrow> bool \<Rightarrow> time \<Rightarrow> memory \<Rightarrow> (aerror, locked_run) result" where
  "start_locked ses writer_installed now b = (case backend_in_use writer_installed b of
      Some e \<Rightarrow> Inl e
    | None \<Rightarrow> rbind (validate_policy (se_policy ses)) (\<lambda>_.
        case mem_acquire_lock now (se_owner ses) (ttl (se_policy ses)) (se_scope ses) b of
          (b', Inl e) \<Rightarrow> Inl e
        | (b', Inr l) \<Rightarrow> Inr (hold_lease l \<lparr>lr_now = now, lr_store = b', lr_guard = new_guard (renew_grace (se_policy ses)),
            lr_status = Running, lr_written = []\<rparr>)))"

text \<open>One turn of \<open>_renew_until_cancelled\<close>: a refused renewal fails the guard and cancels the run.\<close>

definition renew_lease :: "lease_session \<Rightarrow> locked_run \<Rightarrow> locked_run" where
  "renew_lease ses r =
     (case mem_renew_lock (lr_now r) (se_owner ses) (ttl (se_policy ses)) (se_scope ses) (lr_store r) of
        (b, Inr l) \<Rightarrow> hold_lease l (r\<lparr>lr_store := b\<rparr>)
      | (b, Inl e) \<Rightarrow> r\<lparr>lr_store := b, lr_guard := guard_fail (LeaseLostError ''lost the state lock part-way through this run'' []) (lr_guard r),
          lr_status := Stopping\<rparr>)"

text \<open>
  \<open>checked_put\<close> and \<open>checked_delete\<close>: \<open>env.lease.check()\<close>, then the store's own check. \<open>forget\<close> and
  the cleanup of a companion row hand \<open>backend.delete\<close> to the writer itself, with no check of the
  guard before it: \<open>plain_delete\<close>.
\<close>

definition checked_write :: "mem_op \<Rightarrow> (time \<Rightarrow> memory \<Rightarrow> memory \<times> (aerror, unit) result) \<Rightarrow> locked_run \<Rightarrow> locked_run" where
  "checked_write op f r = (case guard_check (lr_now r) (lr_guard r) of
      (g, Inl e) \<Rightarrow> r\<lparr>lr_guard := g\<rparr>
    | (g, Inr _) \<Rightarrow> (case f (lr_now r) (lr_store r) of
        (b, Inl e) \<Rightarrow> r\<lparr>lr_guard := g\<rparr>
      | (b, Inr _) \<Rightarrow> r\<lparr>lr_guard := g, lr_store := b, lr_written := (lr_now r, op) # lr_written r\<rparr>))"

definition plain_delete :: "node_id \<Rightarrow> locked_run \<Rightarrow> locked_run" where
  "plain_delete i r = (case mem_delete (lr_now r) i (lr_store r) of
      (b, Inl e) \<Rightarrow> r
    | (b, Inr _) \<Rightarrow> r\<lparr>lr_store := b, lr_written := (lr_now r, Delete i) # lr_written r\<rparr>)"

text \<open>
  The end of a run on the memory store, whose release cannot fail. On a store whose release raises,
  \<open>_released_after\<close> leaves the lock to its time to live: \<open>released_after\<close> below has what the caller sees
  then, the store's side is not modelled.
\<close>

definition unbind_and_release :: "lease_session \<Rightarrow> locked_run \<Rightarrow> locked_run" where
  "unbind_and_release ses r = r\<lparr>lr_store := mem_release_lock (se_owner ses) (mem_bind_lease None (lr_store r)), lr_status := Over\<rparr>"

datatype lock_event = Elapse time | Renew | WriteRow state_node | EraseRow node_id | ForgetRow node_id | Finish | Other "lease option" mem_op

text \<open>Another run, with its lease bound to its own instance: it writes, locks under its name, releases its own.\<close>

definition foreign_op :: "string \<Rightarrow> lease option \<Rightarrow> mem_op \<Rightarrow> bool" where
  "foreign_op owner l op = (case op of Put _ \<Rightarrow> True | ReplaceMany _ _ \<Rightarrow> True | Delete _ \<Rightarrow> True
     | Acquire o' _ _ \<Rightarrow> o' \<noteq> owner | Release o' \<Rightarrow> o' \<noteq> owner | ForceUnlock _ \<Rightarrow> True | _ \<Rightarrow> False)"

definition foreign_exec :: "lease option \<Rightarrow> mem_op \<Rightarrow> locked_run \<Rightarrow> locked_run" where
  "foreign_exec l op r = r\<lparr>lr_store := (snd (mem_exec op (lr_now r, mem_bind_lease l (lr_store r))))\<lparr>mbound := mbound (lr_store r)\<rparr>\<rparr>"

fun may_happen :: "lease_session \<Rightarrow> lock_event \<Rightarrow> locked_run \<Rightarrow> bool" where
  "may_happen ses (Elapse d) r = (0 \<le> d)"
| "may_happen ses Renew r = (lr_status r = Running)"
| "may_happen ses (WriteRow n) r = (lr_status r \<noteq> Over)"
| "may_happen ses (EraseRow i) r = (lr_status r \<noteq> Over)"
| "may_happen ses (ForgetRow i) r = (lr_status r \<noteq> Over)"
| "may_happen ses Finish r = (lr_status r \<noteq> Over)"
| "may_happen ses (Other l op) r = foreign_op (se_owner ses) l op"

fun happen :: "lease_session \<Rightarrow> lock_event \<Rightarrow> locked_run \<Rightarrow> locked_run" where
  "happen ses (Elapse d) r = r\<lparr>lr_now := lr_now r + d\<rparr>"
| "happen ses Renew r = renew_lease ses r"
| "happen ses (WriteRow n) r = checked_write (Put n) (\<lambda>now. mem_put now n) r"
| "happen ses (EraseRow i) r = checked_write (Delete i) (\<lambda>now. mem_delete now i) r"
| "happen ses (ForgetRow i) r = plain_delete i r"
| "happen ses Finish r = unbind_and_release ses r"
| "happen ses (Other l op) r = foreign_exec l op r"

inductive lock_step :: "lease_session \<Rightarrow> locked_run \<Rightarrow> locked_run \<Rightarrow> bool" for ses where
  event: "may_happen ses ev r \<Longrightarrow> lock_step ses r (happen ses ev r)"

inductive_cases lock_stepE: "lock_step ses r r'"

inductive lock_run :: "lease_session \<Rightarrow> locked_run \<Rightarrow> locked_run \<Rightarrow> bool" for ses where
  refl: "lock_run ses r r"
| step: "lock_run ses r s \<Longrightarrow> lock_step ses s t \<Longrightarrow> lock_run ses r t"

subsection \<open>How a run ends\<close>

text \<open>
  What \<open>run_locked\<close> gives its caller: a result, a failure, or an exception. A cancellation is a
  failure only when the lease was lost; a release that fails is reported only when nothing else
  is.
\<close>

datatype 'a run_return = Succeeded 'a | FailedWith aerror | Escapes exn

definition run_renewed :: "lease_guard \<Rightarrow> 'a outcome \<Rightarrow> 'a run_return" where
  "run_renewed g o' = (case o' of Returned a \<Rightarrow> Succeeded a
     | Raised e \<Rightarrow> if e = Cancelled then (case lost g of Some x \<Rightarrow> FailedWith x | None \<Rightarrow> Escapes Cancelled) else Escapes e)"

definition released_after :: "exn option \<Rightarrow> 'a run_return \<Rightarrow> 'a run_return" where
  "released_after failed r = (case r of Escapes e \<Rightarrow> Escapes e
     | _ \<Rightarrow> (case failed of Some x \<Rightarrow> Escapes x | None \<Rightarrow> r))"

text \<open>\<open>_run_then_checkpoint\<close>: interrupted, or without its lease, a run leaves the store as it is.\<close>

definition checkpoint_due :: "bool \<Rightarrow> lease_guard \<Rightarrow> 'a outcome \<Rightarrow> bool" where
  "checkpoint_due has_checkpoint g o' = (o' \<noteq> Raised Cancelled \<and> has_checkpoint \<and> lost g = None)"

text \<open>The prepare hook of an apply: a rename is written back, and the state read again.\<close>

definition alias_migration ::
  "pyenv \<Rightarrow> (string \<Rightarrow> string) \<Rightarrow> time \<Rightarrow> irgraph \<Rightarrow> state_graph \<Rightarrow> memory \<Rightarrow> (memory \<times> (aerror, state_graph) result) option" where
  "alias_migration env sha now ir prior b = map_option (\<lambda>r. case r of
      Inl e \<Rightarrow> (b, Inl e)
    | Inr (migrated, remap) \<Rightarrow> if remap = [] then (b, Inr prior)
        else (case persist_migration now prior migrated remap b of
            (b', Inl e) \<Rightarrow> (b', Inl e) | (b', Inr _) \<Rightarrow> (b', Inr (mem_load b')))) (resolve_aliases env sha prior ir)"

lemma run_error_not_masked: "e \<noteq> Cancelled \<Longrightarrow> released_after failed (run_renewed g (Raised e)) = Escapes e"
  by (simp add: run_renewed_def released_after_def)

subsection \<open>What every step keeps\<close>

definition lock_inv :: "lease_session \<Rightarrow> locked_run \<Rightarrow> bool" where
  "lock_inv ses r \<longleftrightarrow>
     (lr_status r \<noteq> Over \<longrightarrow> (\<exists>l. guarded (lr_guard r) = Some l \<and> mbound (lr_store r) = Some l \<and> lowner l = se_owner ses \<and> lscope l = se_scope ses)) \<and>
     (lr_status r = Over \<longrightarrow> mbound (lr_store r) = None \<and> (\<forall>(i, l) \<in> set (mholds (lr_store r)). lowner l \<noteq> se_owner ses)) \<and>
     (lr_status r = Stopping \<longrightarrow> lost (lr_guard r) \<noteq> None) \<and> grace (lr_guard r) = renew_grace (se_policy ses)"

lemma guard_check_same:
  "guarded (fst (guard_check now g)) = guarded g" "grace (fst (guard_check now g)) = grace g"
  "lost g \<noteq> None \<Longrightarrow> lost (fst (guard_check now g)) \<noteq> None"
  by (simp_all add: guard_check_def Let_def split: option.splits)

lemma checked_write_fields:
  "lr_status (checked_write op f r) = lr_status r" "guarded (lr_guard (checked_write op f r)) = guarded (lr_guard r)"
  "grace (lr_guard (checked_write op f r)) = grace (lr_guard r)"
  "lost (lr_guard r) \<noteq> None \<Longrightarrow> lost (lr_guard (checked_write op f r)) \<noteq> None"
  "lr_store (checked_write op f r) = lr_store r \<or> lr_store (checked_write op f r) = fst (f (lr_now r) (lr_store r))"
  using guard_check_same [where now = "lr_now r" and g = "lr_guard r"]
  by (auto simp: checked_write_def split: prod.splits sum.splits)

lemma plain_delete_fields:
  "lr_status (plain_delete i r) = lr_status r" "lr_guard (plain_delete i r) = lr_guard r"
  "lr_store (plain_delete i r) = lr_store r \<or> lr_store (plain_delete i r) = fst (mem_delete (lr_now r) i (lr_store r))"
  "lr_written (plain_delete i r) = lr_written r \<or> lr_written (plain_delete i r) = (lr_now r, Delete i) # lr_written r"
  by (auto simp: plain_delete_def split: prod.splits sum.splits)

lemma plain_delete_accepted:
  "lr_written (plain_delete i r) \<noteq> lr_written r \<Longrightarrow> mem_check (lr_now r) [i] (lr_store r) = Inr ()"
  by (auto simp: plain_delete_def mem_delete_def checked_def split: prod.splits sum.splits if_splits)

lemma write_store_same:
  "mbound (fst (mem_put now n b)) = mbound b" "mbound (fst (mem_delete now i b)) = mbound b"
  by (simp_all add: mem_put_def mem_delete_def checked_fst mem_store_def mem_drop_def)

lemma acquired: "mem_acquire_lock now owner d scope b = (b', Inr l) \<Longrightarrow> lowner l = owner \<and> lscope l = scope \<and> expires_at l = now + d"
  by (auto simp: mem_acquire_lock_def Let_def minted_lease_def split: option.splits)

lemma set_fold_update_const:
  "set (fold (\<lambda>i. AList.update i l) is m) \<subseteq> set m \<union> (\<lambda>i. (i, l)) ` set is"
proof (induction "is" arbitrary: m)
  case (Cons i "is")
  have "set (AList.update i l m) \<subseteq> insert (i, l) (set m)" by (rule set_AList_update)
  with Cons.IH [of "AList.update i l m"] show ?case by auto
qed simp

lemma foreign_holds:
  assumes "foreign_op owner l op" and "\<forall>(i, h) \<in> set (mholds b). lowner h \<noteq> owner"
  shows "\<forall>(i, h) \<in> set (mholds (snd (mem_exec op (now, mem_bind_lease l b)))). lowner h \<noteq> owner"
proof (cases op)
  case (Acquire o' d scope)
  then have o: "o' \<noteq> owner" using assms(1) by (simp add: foreign_op_def)
  show ?thesis
  proof (cases "scope_conflict (mholds b) o' now scope")
    case None
    let ?l = "minted_lease o' (now + d) scope (mfence b + 1)"
    have h: "mholds (snd (mem_exec op (now, mem_bind_lease l b))) = fold (\<lambda>i. AList.update i ?l) scope (mholds b)"
      using None Acquire by (simp add: mem_acquire_lock_def mem_bind_lease_def Let_def)
    have "lowner ?l = o'" by (simp add: minted_lease_def)
    then show ?thesis unfolding h using set_fold_update_const [of ?l scope "mholds b"] assms(2) o by fastforce
  next
    case (Some e)
    then show ?thesis using assms(2) Acquire by (simp add: mem_acquire_lock_def mem_bind_lease_def)
  qed
next
  case (ForceUnlock "is")
  then show ?thesis using assms(2) by (auto simp: mem_force_unlock_def Let_def mem_bind_lease_def)
next
  case (Release o')
  then show ?thesis using assms(2) by (auto simp: mem_release_lock_def mem_bind_lease_def)
qed (use assms in \<open>simp_all add: foreign_op_def\<close>)

lemma happen_inv: "lock_inv ses r \<Longrightarrow> may_happen ses ev r \<Longrightarrow> lock_inv ses (happen ses ev r)"
proof (cases ev)
  case Renew
  assume i: "lock_inv ses r" and "may_happen ses ev r"
  then have s: "lr_status r = Running" using Renew by simp
  obtain b res where a: "mem_renew_lock (lr_now r) (se_owner ses) (ttl (se_policy ses)) (se_scope ses) (lr_store r) = (b, res)"
    by (cases "mem_renew_lock (lr_now r) (se_owner ses) (ttl (se_policy ses)) (se_scope ses) (lr_store r)")
  show ?thesis
  proof (cases res)
    case (Inl e)
    then have "b = lr_store r" using a by (auto simp: mem_renew_lock_def mem_acquire_lock_def Let_def split: option.splits)
    then show ?thesis using i s a Inl Renew by (simp add: lock_inv_def renew_lease_def guard_fail_def)
  next
    case (Inr l)
    then show ?thesis using i s a Renew acquired [OF a [unfolded mem_renew_lock_def Inr]]
      by (simp add: lock_inv_def renew_lease_def hold_lease_def guard_renewed_def mem_bind_lease_def)
  qed
next
  case (WriteRow n)
  assume i: "lock_inv ses r" and m: "may_happen ses ev r"
  let ?f = "\<lambda>now. mem_put now n"
  have "mbound (lr_store (checked_write (Put n) ?f r)) = mbound (lr_store r)"
    using checked_write_fields(5) [where op = "Put n" and f = ?f and r = r] write_store_same(1) by metis
  then show ?thesis using i m WriteRow checked_write_fields(1-4) [where op = "Put n" and f = ?f and r = r] by (simp add: lock_inv_def)
next
  case (EraseRow j)
  assume i: "lock_inv ses r" and m: "may_happen ses ev r"
  let ?f = "\<lambda>now. mem_delete now j"
  have "mbound (lr_store (checked_write (Delete j) ?f r)) = mbound (lr_store r)"
    using checked_write_fields(5) [where op = "Delete j" and f = ?f and r = r] write_store_same(2) by metis
  then show ?thesis using i m EraseRow checked_write_fields(1-4) [where op = "Delete j" and f = ?f and r = r] by (simp add: lock_inv_def)
next
  case (ForgetRow j)
  assume i: "lock_inv ses r" and m: "may_happen ses ev r"
  have "mbound (lr_store (plain_delete j r)) = mbound (lr_store r)"
    using plain_delete_fields(3) [of j r] write_store_same(2) by metis
  then show ?thesis using i m ForgetRow plain_delete_fields(1,2) [of j r] by (simp add: lock_inv_def)
next
  case (Other l op)
  assume i: "lock_inv ses r" and m: "may_happen ses ev r"
  then show ?thesis using foreign_holds [of "se_owner ses" l op "lr_store r" "lr_now r"] Other
    by (auto simp: lock_inv_def foreign_exec_def)
next
  case Finish
  assume i: "lock_inv ses r" and m: "may_happen ses ev r"
  then show ?thesis using Finish by (auto simp: lock_inv_def unbind_and_release_def mem_release_lock_def mem_bind_lease_def)
qed (simp_all add: lock_inv_def)

lemma start_inv: "start_locked ses w now b = Inr r \<Longrightarrow> lock_inv ses r"
  by (auto simp: start_locked_def rbind_Inr_iff hold_lease_def lock_inv_def guard_renewed_def new_guard_def mem_bind_lease_def
      split: option.splits prod.splits sum.splits dest!: acquired)

lemma run_inv: "lock_run ses r s \<Longrightarrow> lock_inv ses r \<Longrightarrow> lock_inv ses s"
  by (induction rule: lock_run.induct) (auto elim!: lock_stepE intro: happen_inv)

lemma checked_write_accepted:
  assumes "lr_written (checked_write op f r) \<noteq> lr_written r"
  shows "lost (lr_guard r) = None \<and> (\<forall>l. guarded (lr_guard r) = Some l \<longrightarrow> lr_now r + grace (lr_guard r) < expires_at l) \<and>
    snd (f (lr_now r) (lr_store r)) = Inr ()"
  using assms by (auto simp: checked_write_def guard_check_def Let_def split: prod.splits sum.splits option.splits if_splits)

lemma checked_write_lost:
  "lost (lr_guard r) \<noteq> None \<Longrightarrow> checked_write op f r = r"
  by (auto simp: checked_write_def guard_check_def)

definition only_forgets :: "(time \<times> mem_op) list \<Rightarrow> (time \<times> mem_op) list \<Rightarrow> bool" where
  "only_forgets old new \<longleftrightarrow> (\<exists>since. new = since @ old \<and> (\<forall>op \<in> snd ` set since. \<exists>i. op = Delete i))"

lemma only_forgets_refl [simp]: "only_forgets w w"
  by (simp add: only_forgets_def)

lemma only_forgets_trans: "only_forgets u v \<Longrightarrow> only_forgets v w \<Longrightarrow> only_forgets u w"
  by (auto simp: only_forgets_def)

lemma plain_delete_forgets: "only_forgets (lr_written r) (lr_written (plain_delete i r))"
  using plain_delete_fields(4) [of i r] by (auto simp: only_forgets_def)

lemma happen_lost:
  assumes "lost (lr_guard r) \<noteq> None"
  shows "lost (lr_guard (happen ses ev r)) \<noteq> None \<and> only_forgets (lr_written r) (lr_written (happen ses ev r))"
proof (cases ev)
  case Renew
  then show ?thesis using assms
    by (auto simp: renew_lease_def hold_lease_def guard_renewed_def guard_fail_def split: prod.splits sum.splits)
next
  case (ForgetRow i)
  then show ?thesis using assms plain_delete_forgets [of r i] plain_delete_fields(2) [of i r] by simp
qed (use assms in \<open>simp_all add: checked_write_lost foreign_exec_def unbind_and_release_def\<close>)

lemma run_lost:
  "lock_run ses r s \<Longrightarrow> lost (lr_guard r) \<noteq> None \<Longrightarrow> lost (lr_guard s) \<noteq> None \<and> only_forgets (lr_written r) (lr_written s)"
proof (induction rule: lock_run.induct)
  case (step r s t)
  then obtain ev where "t = happen ses ev s" by (blast elim: lock_stepE)
  then show ?case using step.IH step.prems happen_lost [of s ses ev] only_forgets_trans by auto
qed simp

text \<open>
  C9: a run writes only under its lease. However its writes, its renewals, time and the other
  runs interleave, a row the run gets written at some moment is one of its scope and not held by
  another, or held by this run under an unexpired hold; the lease it bound is its own, more than
  the grace away from its expiry, and no renewal has been refused.
\<close>

theorem locked_run_writes_under_lease:
  assumes "start_locked ses w now b = Inr r0" and "lock_run ses r0 r" and "may_happen ses (WriteRow n) r"
    and "lr_written (happen ses (WriteRow n) r) \<noteq> lr_written r"
  shows "\<exists>l. guarded (lr_guard r) = Some l \<and> mbound (lr_store r) = Some l \<and> lowner l = se_owner ses \<and> lost (lr_guard r) = None \<and>
    lr_now r + renew_grace (se_policy ses) < expires_at l \<and>
    (case map_of (mholds (lr_store r)) (sid n) of None \<Rightarrow> sid n \<in> set (se_scope ses)
     | Some cur \<Rightarrow> lowner cur = se_owner ses \<and> lr_now r < expires_at cur)"
proof -
  have inv: "lock_inv ses r" using run_inv [OF assms(2) start_inv [OF assms(1)]] .
  then obtain l where l: "guarded (lr_guard r) = Some l" "mbound (lr_store r) = Some l" "lowner l = se_owner ses" "lscope l = se_scope ses"
    using assms(3) by (auto simp: lock_inv_def)
  have acc: "lost (lr_guard r) = None" "lr_now r + grace (lr_guard r) < expires_at l" "snd (mem_put (lr_now r) n (lr_store r)) = Inr ()"
    using checked_write_accepted [of "Put n" "\<lambda>now. mem_put now n" r] assms(4) l(1) by simp_all
  have "mem_check (lr_now r) [sid n] (lr_store r) = Inr ()"
    using acc(3) by (auto simp: mem_put_def checked_def split: sum.splits)
  then have "may_write (lr_now r) (lr_store r) (sid n)" by (simp add: mem_check_ok)
  then have "case map_of (mholds (lr_store r)) (sid n) of None \<Rightarrow> sid n \<in> set (se_scope ses)
     | Some cur \<Rightarrow> lowner cur = se_owner ses \<and> lr_now r < expires_at cur"
    using l(2-4) by (simp add: may_write_def split: option.splits)
  then show ?thesis using l(1-3) acc(1,2) inv by (auto simp: lock_inv_def)
qed

text \<open>
  C10: a lost lease stops the run's puts, and only those. Once the guard has failed, because a
  renewal was refused or because a write found the lease too close to its end, no later step of the
  run puts a row, whatever is renewed or released afterwards, and the guard stays failed. The deletes
  of \<open>forget\<close> and of the companion cleanup never ask the guard and may still land: what the run gets
  written from then on is deletes alone, each let through by the store's own check of the lease bound
  to it.
\<close>

theorem lost_lease_stops_writes:
  assumes "lock_run ses r s"
    and "lost (lr_guard r) \<noteq> None \<or> (\<exists>r0 b e. r = happen ses Renew r0 \<and>
      mem_renew_lock (lr_now r0) (se_owner ses) (ttl (se_policy ses)) (se_scope ses) (lr_store r0) = (b, Inl e))"
  shows "lost (lr_guard s) \<noteq> None \<and>
    (\<exists>since. lr_written s = since @ lr_written r \<and> (\<forall>op \<in> snd ` set since. \<exists>i. op = Delete i)) \<and>
    (\<forall>ev. lr_written (happen ses ev s) \<noteq> lr_written s \<longrightarrow>
      (\<exists>i. ev = ForgetRow i \<and> mem_check (lr_now s) [i] (lr_store s) = Inr ()))"
proof -
  have "lost (lr_guard r) \<noteq> None" using assms(2) by (auto simp: renew_lease_def guard_fail_def)
  then have s: "lost (lr_guard s) \<noteq> None" "only_forgets (lr_written r) (lr_written s)" using run_lost [OF assms(1)] by blast+
  have "\<exists>i. ev = ForgetRow i \<and> mem_check (lr_now s) [i] (lr_store s) = Inr ()"
    if w: "lr_written (happen ses ev s) \<noteq> lr_written s" for ev
  proof (cases ev)
    case Renew
    then show ?thesis using w by (auto simp: renew_lease_def hold_lease_def split: prod.splits sum.splits)
  next
    case (ForgetRow i)
    then show ?thesis using w plain_delete_accepted [of i s] by simp
  qed (use w s(1) in \<open>simp_all add: checked_write_lost foreign_exec_def unbind_and_release_def\<close>)
  then show ?thesis using s by (auto simp: only_forgets_def)
qed

text \<open>
  C11: a run that is over holds nothing. However it ended, with a result, an error, an interrupt
  or a lost lease, no lease is bound to the instance and no node is held in its name, and so it
  stays whatever the other runs do.
\<close>

theorem finished_run_holds_nothing:
  assumes "start_locked ses w now b = Inr r0" and "lock_run ses r0 r" and "lr_status r = Over"
  shows "mbound (lr_store r) = None \<and> (\<forall>(i, l) \<in> set (mholds (lr_store r)). lowner l \<noteq> se_owner ses)"
  using run_inv [OF assms(2) start_inv [OF assms(1)]] assms(3) by (simp add: lock_inv_def)

subsection \<open>A lapse that nobody noticed, and one that was\<close>

fun run_events :: "lease_session \<Rightarrow> lock_event list \<Rightarrow> locked_run \<Rightarrow> locked_run option" where
  "run_events ses [] r = Some r"
| "run_events ses (ev # evs) r = (if may_happen ses ev r then run_events ses evs (happen ses ev r) else None)"

lemma run_events_run: "lock_run ses r0 r \<Longrightarrow> run_events ses evs r = Some s \<Longrightarrow> lock_run ses r0 s"
  by (induction evs arbitrary: r) (auto split: if_splits intro: lock_run.step lock_step.event)

definition lapse_session :: lease_session where
  "lapse_session = \<lparr>se_owner = ''me'', se_scope = [''a''], se_policy = \<lparr>ttl = 10, renew_interval = 3, renew_grace = 1\<rparr>\<rparr>"

definition row_a :: "string \<Rightarrow> state_node" where
  "row_a h = \<lparr>sid = ''a'', stype = ''t'', sprovider = ''p'', sprovider_version = ''1'', sinput_hash = h, soutputs = [], sproperties = [],
     sdependencies = [], sprevent_destroy = False, sstatus = CREATED, ssecret_digests = [], sref_digests = [], sdepends_on = []\<rparr>"

definition lapse_start :: locked_run where
  "lapse_start = (case start_locked lapse_session False 0 (mem_store (row_a ''old'') new_memory) of Inr r \<Rightarrow> r
     | Inl e \<Rightarrow> \<lparr>lr_now = 0, lr_store = new_memory, lr_guard = new_guard 0, lr_status = Over, lr_written = []\<rparr>)"

definition their_lease :: lease where "their_lease = minted_lease ''you'' 30 [''a''] 2"

definition lapse_outline :: "locked_run option \<Rightarrow> (string option \<times> bool \<times> bool) option" where
  "lapse_outline r = map_option (\<lambda>r. (map_option sinput_hash (mem_row (lr_store r) ''a''), lost (lr_guard r) = None, lr_status r = Running)) r"

definition failed_start :: locked_run where
  "failed_start = lapse_start\<lparr>lr_guard := guard_fail InterruptedRunError (lr_guard lapse_start)\<rparr>"

text \<open>\<open>NodeRecords\<close> promises rows "fenced by the run's lease", but \<open>forget\<close> drops a row after the guard has failed.\<close>

lemma lost_lease_still_forgets:
  "lapse_outline (Some (happen lapse_session (EraseRow ''a'') failed_start)) = Some (Some ''old'', False, True)"
  "lapse_outline (Some (happen lapse_session (ForgetRow ''a'') failed_start)) = Some (None, False, True)"
  by code_simp+

definition takeover :: "lock_event list" where
  "takeover = [Elapse 20, Other (Some their_lease) (Acquire ''you'' 10 [''a'']), Other (Some their_lease) (Put (row_a ''theirs'')),
     Other (Some their_lease) (Release ''you'')]"

lemma lapse_started: "start_locked lapse_session False 0 (mem_store (row_a ''old'') new_memory) = Inr lapse_start"
proof -
  have "case start_locked lapse_session False 0 (mem_store (row_a ''old'') new_memory) of Inr r \<Rightarrow> True | Inl e \<Rightarrow> False" by code_simp
  then show ?thesis by (auto simp: lapse_start_def split: sum.splits)
qed

text \<open>
  C13: a renewal hides that the lease lapsed. The run's lease is ten seconds and is not renewed for
  twenty, as when a provider blocks the event loop; meanwhile another run takes the lock, writes
  a row and releases it. The next renewal acquires again and succeeds: the guard reports nothing
  and the run goes on to write over the other run's row, although it planned from the old one.
\<close>

theorem renewal_hides_takeover:
  "\<exists>mid r. validate_policy (se_policy lapse_session) = Inr () \<and> lock_run lapse_session lapse_start mid \<and> lock_run lapse_session mid r \<and>
     map_option sinput_hash (mem_row (lr_store mid) ''a'') = Some ''theirs'' \<and>
     map_option sinput_hash (mem_row (lr_store r) ''a'') = Some ''mine'' \<and> lost (lr_guard r) = None \<and> lr_status r = Running"
proof -
  have "lapse_outline (run_events lapse_session takeover lapse_start) = Some (Some ''theirs'', True, True)" by code_simp
  then obtain mid where m: "run_events lapse_session takeover lapse_start = Some mid" "map_option sinput_hash (mem_row (lr_store mid) ''a'') = Some ''theirs''"
    by (auto simp: lapse_outline_def)
  have "lapse_outline (Option.bind (run_events lapse_session takeover lapse_start) (run_events lapse_session [Renew, WriteRow (row_a ''mine'')])) =
      Some (Some ''mine'', True, True)" by code_simp
  then obtain r where r: "run_events lapse_session [Renew, WriteRow (row_a ''mine'')] mid = Some r"
    "map_option sinput_hash (mem_row (lr_store r) ''a'') = Some ''mine''" "lost (lr_guard r) = None" "lr_status r = Running"
    using m(1) by (auto simp: lapse_outline_def)
  have "validate_policy (se_policy lapse_session) = Inr ()" by code_simp
  then show ?thesis
    using run_events_run [OF lock_run.refl m(1)] run_events_run [OF lock_run.refl r(1)] m(2) r(2-4) by blast
qed

text \<open>The witnesses: the run writes in time, is over, and loses its lease to another.\<close>

theorem locked_run_writes_under_lease_witness:
  "\<exists>l. guarded (lr_guard lapse_start) = Some l \<and> lowner l = ''me'' \<and> lr_now lapse_start + 1 < expires_at l"
proof -
  have "lr_written (happen lapse_session (WriteRow (row_a ''mine'')) lapse_start) \<noteq> lr_written lapse_start" by code_simp
  moreover have "may_happen lapse_session (WriteRow (row_a ''mine'')) lapse_start" by code_simp
  ultimately obtain l where "guarded (lr_guard lapse_start) = Some l" "lowner l = se_owner lapse_session"
    "lr_now lapse_start + renew_grace (se_policy lapse_session) < expires_at l"
    using locked_run_writes_under_lease [OF lapse_started lock_run.refl] by blast
  then show ?thesis by (auto simp: lapse_session_def)
qed

theorem lost_lease_stops_writes_witness:
  "\<exists>s. lock_run lapse_session failed_start s \<and> lost (lr_guard s) \<noteq> None \<and>
     lr_written (happen lapse_session (WriteRow (row_a ''mine'')) s) = lr_written s \<and>
     map_option sinput_hash (mem_row (lr_store s) ''a'') = Some ''old''"
proof -
  have "lock_step lapse_session failed_start (happen lapse_session (Elapse 1) failed_start)" by (rule lock_step.event) simp
  then have run: "lock_run lapse_session failed_start (happen lapse_session (Elapse 1) failed_start)" (is "lock_run _ _ ?s")
    by (rule lock_run.step [OF lock_run.refl])
  have "lost (lr_guard failed_start) = Some InterruptedRunError" by code_simp
  then have l: "lost (lr_guard ?s) \<noteq> None \<and>
      (\<exists>since. lr_written ?s = since @ lr_written failed_start \<and> (\<forall>op \<in> snd ` set since. \<exists>i. op = Delete i)) \<and>
      (\<forall>ev. lr_written (happen lapse_session ev ?s) \<noteq> lr_written ?s \<longrightarrow>
        (\<exists>i. ev = ForgetRow i \<and> mem_check (lr_now ?s) [i] (lr_store ?s) = Inr ()))"
    by (intro lost_lease_stops_writes [OF run]) simp
  then have w: "lr_written (happen lapse_session (WriteRow (row_a ''mine'')) ?s) = lr_written ?s" by blast
  have "lapse_outline (Some ?s) = Some (Some ''old'', False, True)" by code_simp
  then have "map_option sinput_hash (mem_row (lr_store ?s) ''a'') = Some ''old''" by (simp add: lapse_outline_def)
  with run conjunct1 [OF l] w show ?thesis by (intro exI [of _ ?s] conjI)
qed

theorem finished_run_holds_nothing_witness:
  "mbound (lr_store (happen lapse_session Finish lapse_start)) = None"
proof -
  have "may_happen lapse_session Finish lapse_start" by code_simp
  then have "lock_run lapse_session lapse_start (happen lapse_session Finish lapse_start)"
    by (rule lock_run.step [OF lock_run.refl lock_step.event])
  moreover have "lr_status (happen lapse_session Finish lapse_start) = Over" by (simp add: unbind_and_release_def)
  ultimately show ?thesis using finished_run_holds_nothing [OF lapse_started] by blast
qed

end
