(* ===== verification/Gate.thy ===== *)
theory Gate
  imports Prelude
begin

text \<open>
  The readers-writer gate of the state writer (\<open>ReadWriteGate\<close>, \<open>reconcile/writer.py\<close>) at the grain
  of its condition variable. A method holds the monitor's lock from its entry, or from a return
  of \<open>wait\<close>, to the next \<open>wait\<close> or its end, so each such segment is one step. A caller is known by
  the use it makes of the gate (a hold taken on one thread is released on another): \<open>stage\<close> says
  where it stands. \<open>Asleep\<close> is inside \<open>wait\<close>, where only \<open>notify_all\<close> can move it; \<open>Woken\<close> has
  been notified and not yet run. A \<open>wait\<close> may be interrupted.
\<close>

datatype nap = Asleep | Woken

datatype stage = Away | WaitsShared nap | HoldsShared | WaitsExclusive nap | HoldsExclusive

record gate =
  shared :: int
  exclusive :: bool
  exclusive_waiting :: int
  stages :: "nat \<Rightarrow> stage"

definition new_gate :: gate where
  "new_gate = \<lparr>shared = 0, exclusive = False, exclusive_waiting = 0, stages = (\<lambda>_. Away)\<rparr>"

definition set_stage :: "nat \<Rightarrow> stage \<Rightarrow> gate \<Rightarrow> gate" where
  "set_stage t p g = g\<lparr>stages := (stages g)(t := p)\<rparr>"

fun wake :: "stage \<Rightarrow> stage" where
  "wake (WaitsShared n) = WaitsShared Woken"
| "wake (WaitsExclusive n) = WaitsExclusive Woken"
| "wake p = p"

definition notify_all :: "gate \<Rightarrow> gate" where
  "notify_all g = g\<lparr>stages := wake \<circ> stages g\<rparr>"

text \<open>The loop test of \<open>acquire_shared\<close> and, when it lets the caller through, its end.\<close>

definition try_shared :: "nat \<Rightarrow> gate \<Rightarrow> gate" where
  "try_shared t g = (if exclusive g \<or> exclusive_waiting g \<noteq> 0 then set_stage t (WaitsShared Asleep) g
     else set_stage t HoldsShared (g\<lparr>shared := shared g + 1\<rparr>))"

definition release_shared :: "nat \<Rightarrow> gate \<Rightarrow> gate" where
  "release_shared t g = (let g' = set_stage t Away (g\<lparr>shared := shared g - 1\<rparr>)
     in if shared g' = 0 then notify_all g' else g')"

text \<open>
  \<open>acquire_exclusive\<close> registers, tests in a loop, and leaves the loop through its \<open>finally\<close>: on
  admission the exclusive hold is taken after it, on an interrupt it is not.
\<close>

definition leave_queue :: "gate \<Rightarrow> gate" where
  "leave_queue g = notify_all (g\<lparr>exclusive_waiting := exclusive_waiting g - 1\<rparr>)"

definition try_exclusive :: "nat \<Rightarrow> gate \<Rightarrow> gate" where
  "try_exclusive t g = (if exclusive g \<or> shared g \<noteq> 0 then set_stage t (WaitsExclusive Asleep) g
     else set_stage t HoldsExclusive (leave_queue g\<lparr>exclusive := True\<rparr>))"

definition enter_exclusive :: "nat \<Rightarrow> gate \<Rightarrow> gate" where
  "enter_exclusive t g = try_exclusive t (g\<lparr>exclusive_waiting := exclusive_waiting g + 1\<rparr>)"

definition interrupt_exclusive :: "nat \<Rightarrow> gate \<Rightarrow> gate" where
  "interrupt_exclusive t g = set_stage t Away (leave_queue g)"

definition release_exclusive :: "nat \<Rightarrow> gate \<Rightarrow> gate" where
  "release_exclusive t g = notify_all (set_stage t Away (g\<lparr>exclusive := False\<rparr>))"

inductive gate_step :: "gate \<Rightarrow> gate \<Rightarrow> bool" where
  shared_enters: "stages g t = Away \<Longrightarrow> gate_step g (try_shared t g)"
| shared_resumes: "stages g t = WaitsShared Woken \<Longrightarrow> gate_step g (try_shared t g)"
| shared_interrupted: "stages g t = WaitsShared n \<Longrightarrow> gate_step g (set_stage t Away g)"
| shared_leaves: "stages g t = HoldsShared \<Longrightarrow> gate_step g (release_shared t g)"
| exclusive_enters: "stages g t = Away \<Longrightarrow> gate_step g (enter_exclusive t g)"
| exclusive_resumes: "stages g t = WaitsExclusive Woken \<Longrightarrow> gate_step g (try_exclusive t g)"
| exclusive_interrupted: "stages g t = WaitsExclusive n \<Longrightarrow> gate_step g (interrupt_exclusive t g)"
| exclusive_leaves: "stages g t = HoldsExclusive \<Longrightarrow> gate_step g (release_exclusive t g)"

inductive_cases gate_stepE: "gate_step g g'"

abbreviation gate_run :: "gate \<Rightarrow> gate \<Rightarrow> bool" where
  "gate_run \<equiv> gate_step\<^sup>*\<^sup>*"

subsection \<open>What the counters count\<close>

definition at_stage :: "(stage \<Rightarrow> bool) \<Rightarrow> gate \<Rightarrow> nat set" where
  "at_stage P g = {t. P (stages g t)}"

fun waits_exclusive :: "stage \<Rightarrow> bool" where
  "waits_exclusive (WaitsExclusive n) = True" | "waits_exclusive p = False"

fun waits_shared :: "stage \<Rightarrow> bool" where
  "waits_shared (WaitsShared n) = True" | "waits_shared p = False"

abbreviation "sharers \<equiv> at_stage (\<lambda>p. p = HoldsShared)"
abbreviation "excluders \<equiv> at_stage (\<lambda>p. p = HoldsExclusive)"
abbreviation "queued \<equiv> at_stage waits_exclusive"

text \<open>
  The invariant: the counters are exact, shared and exclusive holds never meet, and nobody
  sleeps who would be let through (a wake-up is never lost).
\<close>

definition gate_ok :: "gate \<Rightarrow> bool" where
  "gate_ok g \<longleftrightarrow> finite {t. stages g t \<noteq> Away} \<and> shared g = int (card (sharers g)) \<and>
     exclusive_waiting g = int (card (queued g)) \<and> card (excluders g) = (if exclusive g then 1 else 0) \<and>
     (exclusive g \<longrightarrow> shared g = 0) \<and>
     (\<forall>t. stages g t = WaitsShared Asleep \<longrightarrow> exclusive g \<or> exclusive_waiting g \<noteq> 0) \<and>
     (\<forall>t. stages g t = WaitsExclusive Asleep \<longrightarrow> exclusive g \<or> shared g \<noteq> 0)"

lemma wake_simps [simp]:
  "wake p = HoldsShared \<longleftrightarrow> p = HoldsShared" "wake p = HoldsExclusive \<longleftrightarrow> p = HoldsExclusive"
  "wake p = Away \<longleftrightarrow> p = Away" "waits_exclusive (wake p) = waits_exclusive p"
  "waits_shared (wake p) = waits_shared p" "wake p \<noteq> WaitsShared Asleep" "wake p \<noteq> WaitsExclusive Asleep"
  by (cases p; simp)+

lemma notify_all_simps [simp]:
  "shared (notify_all g) = shared g" "exclusive (notify_all g) = exclusive g"
  "exclusive_waiting (notify_all g) = exclusive_waiting g" "stages (notify_all g) t = wake (stages g t)"
  by (simp_all add: notify_all_def)

lemma set_stage_simps [simp]:
  "shared (set_stage t p g) = shared g" "exclusive (set_stage t p g) = exclusive g"
  "exclusive_waiting (set_stage t p g) = exclusive_waiting g" "stages (set_stage t p g) = (stages g)(t := p)"
  by (simp_all add: set_stage_def)

lemma leave_queue_simps [simp]:
  "shared (leave_queue g) = shared g" "exclusive (leave_queue g) = exclusive g"
  "exclusive_waiting (leave_queue g) = exclusive_waiting g - 1" "stages (leave_queue g) t = wake (stages g t)"
  by (simp_all add: leave_queue_def)

lemma at_stage_upd:
  assumes "finite {t. stages g t \<noteq> Away}" and "\<not> P Away"
    and "\<And>u. u \<noteq> t \<Longrightarrow> P (stages g' u) = P (stages g u)"
  shows "int (card (at_stage P g')) = int (card (at_stage P g)) - (if P (stages g t) then 1 else 0) + (if P (stages g' t) then 1 else 0)"
proof -
  have fin: "finite (at_stage P g)"
    using assms(1) by (rule rev_finite_subset) (use assms(2) in \<open>auto simp: at_stage_def\<close>)
  have "at_stage P g' = (if P (stages g' t) then insert t (at_stage P g - {t}) else at_stage P g - {t})"
    by (rule set_eqI, rename_tac u, case_tac "u = t") (auto simp: at_stage_def assms(3))
  moreover have "int (card (at_stage P g - {t})) = int (card (at_stage P g)) - (if P (stages g t) then 1 else 0)"
    using fin card_gt_0_iff [of "at_stage P g"] by (auto simp: at_stage_def card_Diff_singleton_if of_nat_diff Suc_le_eq)
  moreover have "card (insert t (at_stage P g - {t})) = Suc (card (at_stage P g - {t}))"
    using fin by (intro card_insert_disjoint) auto
  ultimately show ?thesis by (simp del: insert_Diff_single)
qed


definition moved :: "nat \<Rightarrow> gate \<Rightarrow> gate \<Rightarrow> bool" where
  "moved t g g' \<longleftrightarrow> (\<forall>u. u \<noteq> t \<longrightarrow> stages g' u = stages g u \<or> stages g' u = wake (stages g u))"

lemma moved_finite:
  assumes "moved t g g'" and "finite {u. stages g u \<noteq> Away}"
  shows "finite {u. stages g' u \<noteq> Away}"
proof (rule finite_subset)
  show "{u. stages g' u \<noteq> Away} \<subseteq> insert t {u. stages g u \<noteq> Away}"
  proof
    fix u assume "u \<in> {u. stages g' u \<noteq> Away}"
    moreover have "u \<noteq> t \<Longrightarrow> stages g' u = stages g u \<or> stages g' u = wake (stages g u)"
      using assms(1) by (simp add: moved_def)
    ultimately show "u \<in> insert t {u. stages g u \<noteq> Away}" by (cases "u = t") auto
  qed
qed (use assms(2) in simp)

lemma moved_counts:
  assumes "moved t g g'" and "finite {u. stages g u \<noteq> Away}"
  shows "int (card (sharers g')) = int (card (sharers g)) - of_bool (stages g t = HoldsShared) + of_bool (stages g' t = HoldsShared)"
    and "int (card (excluders g')) = int (card (excluders g)) - of_bool (stages g t = HoldsExclusive) + of_bool (stages g' t = HoldsExclusive)"
    and "int (card (queued g')) = int (card (queued g)) - of_bool (waits_exclusive (stages g t)) + of_bool (waits_exclusive (stages g' t))"
proof -
  have *: "P (stages g' u) = P (stages g u)" if "u \<noteq> t" "\<And>p. P (wake p) = P p" for P u
    using assms(1) that unfolding moved_def by metis
  show "int (card (sharers g')) = int (card (sharers g)) - of_bool (stages g t = HoldsShared) + of_bool (stages g' t = HoldsShared)"
    using at_stage_upd [OF assms(2), of "\<lambda>p. p = HoldsShared" t g'] * [of _ "\<lambda>p. p = HoldsShared"] by auto
  show "int (card (excluders g')) = int (card (excluders g)) - of_bool (stages g t = HoldsExclusive) + of_bool (stages g' t = HoldsExclusive)"
    using at_stage_upd [OF assms(2), of "\<lambda>p. p = HoldsExclusive" t g'] * [of _ "\<lambda>p. p = HoldsExclusive"] by auto
  show "int (card (queued g')) = int (card (queued g)) - of_bool (waits_exclusive (stages g t)) + of_bool (waits_exclusive (stages g' t))"
    using at_stage_upd [OF assms(2), of waits_exclusive t g'] * [of _ waits_exclusive] by auto
qed

lemma gate_okI:
  assumes ok: "gate_ok g" and m: "moved t g g'"
    and sh: "shared g' = shared g - of_bool (stages g t = HoldsShared) + of_bool (stages g' t = HoldsShared)"
    and wt: "exclusive_waiting g' = exclusive_waiting g - of_bool (waits_exclusive (stages g t)) + of_bool (waits_exclusive (stages g' t))"
    and ex: "of_bool (exclusive g') = (of_bool (exclusive g) :: int) - of_bool (stages g t = HoldsExclusive) + of_bool (stages g' t = HoldsExclusive)"
    and no: "exclusive g' \<Longrightarrow> shared g' = 0"
    and ws: "\<And>u. stages g' u = WaitsShared Asleep \<Longrightarrow> exclusive g' \<or> exclusive_waiting g' \<noteq> 0"
    and we: "\<And>u. stages g' u = WaitsExclusive Asleep \<Longrightarrow> exclusive g' \<or> shared g' \<noteq> 0"
  shows "gate_ok g'"
proof -
  have fin: "finite {u. stages g u \<noteq> Away}" and c: "shared g = int (card (sharers g))"
      "exclusive_waiting g = int (card (queued g))" "int (card (excluders g)) = of_bool (exclusive g)"
    using ok by (auto simp: gate_ok_def)
  have "int (card (excluders g')) = of_bool (exclusive g')" using moved_counts(2) [OF m fin] c(3) ex by simp
  then have "card (excluders g') = (if exclusive g' then 1 else 0)" by (auto split: if_splits)
  then show ?thesis
    using moved_finite [OF m fin] moved_counts(1,3) [OF m fin] c(1,2) sh wt no ws we unfolding gate_ok_def by simp
qed

lemma gate_ok_new: "gate_ok new_gate"
  by (simp add: gate_ok_def new_gate_def at_stage_def)

lemma gate_ok_holders:
  assumes "gate_ok g"
  shows "stages g t = HoldsShared \<Longrightarrow> 0 < shared g" and "stages g t = HoldsExclusive \<Longrightarrow> exclusive g"
    and "waits_exclusive (stages g t) \<Longrightarrow> 0 < exclusive_waiting g"
proof -
  have fin: "finite (at_stage P g)" if "\<not> P Away" for P
    by (rule rev_finite_subset [of "{t. stages g t \<noteq> Away}"]) (use assms that in \<open>auto simp: gate_ok_def at_stage_def\<close>)
  have pos: "0 < card (at_stage P g)" if "P (stages g t)" "\<not> P Away" for P
    using that fin [of P] by (auto simp: card_gt_0_iff at_stage_def)
  show "stages g t = HoldsShared \<Longrightarrow> 0 < shared g" using assms pos [of "\<lambda>p. p = HoldsShared"] by (simp add: gate_ok_def)
  show "stages g t = HoldsExclusive \<Longrightarrow> exclusive g" using assms pos [of "\<lambda>p. p = HoldsExclusive"] by (auto simp: gate_ok_def split: if_splits)
  show "waits_exclusive (stages g t) \<Longrightarrow> 0 < exclusive_waiting g" using assms pos [of waits_exclusive] by (simp add: gate_ok_def)
qed

lemma gate_ok_sleep:
  assumes "gate_ok g"
  shows "stages g u = WaitsShared Asleep \<Longrightarrow> exclusive g \<or> exclusive_waiting g \<noteq> 0"
    and "stages g u = WaitsExclusive Asleep \<Longrightarrow> exclusive g \<or> shared g \<noteq> 0" and "exclusive g \<Longrightarrow> shared g = 0"
  using assms by (auto simp: gate_ok_def)

lemma gate_ok_nonneg:
  assumes "gate_ok g"
  shows "0 \<le> shared g" and "0 \<le> exclusive_waiting g"
  using assms by (simp_all add: gate_ok_def)

lemma gate_ok_step:
  assumes "gate_step g g'" and ok: "gate_ok g"
  shows "gate_ok g'"
  using assms(1)
proof (cases rule: gate_step.cases)
  case (shared_enters t)
  then show ?thesis using gate_ok_nonneg [OF ok] by (intro gate_okI [OF ok, of t]) (auto simp: moved_def try_shared_def dest: gate_ok_sleep [OF ok] split: if_splits)
next
  case (shared_resumes t)
  then show ?thesis using gate_ok_nonneg [OF ok] by (intro gate_okI [OF ok, of t]) (auto simp: moved_def try_shared_def dest: gate_ok_sleep [OF ok] split: if_splits)
next
  case (shared_interrupted t n)
  then show ?thesis by (intro gate_okI [OF ok, of t]) (auto simp: moved_def dest: gate_ok_sleep [OF ok] split: if_splits)
next
  case (shared_leaves t)
  then have "\<not> exclusive g" using gate_ok_holders(1) [OF ok] gate_ok_sleep(3) [OF ok] by fastforce
  then show ?thesis using shared_leaves
    by (intro gate_okI [OF ok, of t])
      (auto simp: moved_def release_shared_def Let_def dest: gate_ok_sleep [OF ok] split: if_splits)
next
  case (exclusive_enters t)
  then show ?thesis using gate_ok_nonneg [OF ok]
    by (intro gate_okI [OF ok, of t])
      (auto simp: moved_def enter_exclusive_def try_exclusive_def dest: gate_ok_sleep [OF ok] split: if_splits)
next
  case (exclusive_resumes t)
  then show ?thesis
    by (intro gate_okI [OF ok, of t]) (auto simp: moved_def try_exclusive_def dest: gate_ok_sleep [OF ok] split: if_splits)
next
  case (exclusive_interrupted t n)
  then show ?thesis
    by (intro gate_okI [OF ok, of t]) (auto simp: moved_def interrupt_exclusive_def dest: gate_ok_sleep [OF ok] split: if_splits)
next
  case (exclusive_leaves t)
  then show ?thesis
    using gate_ok_holders(2) [OF ok exclusive_leaves(2)]
    by (intro gate_okI [OF ok, of t]) (auto simp: moved_def release_exclusive_def dest: gate_ok_sleep [OF ok] split: if_splits)
qed

lemma gate_run_ok: "gate_run g g' \<Longrightarrow> gate_ok g \<Longrightarrow> gate_ok g'"
  by (induction rule: rtranclp_induct) (auto intro: gate_ok_step)

subsection \<open>What the gate promises\<close>

text \<open>
  The specification: a set of shared holders or one exclusive holder. A holder is let in when
  the other kind holds nothing, and leaves.
\<close>

inductive rw_step :: "nat set \<times> nat set \<Rightarrow> nat set \<times> nat set \<Rightarrow> bool" where
  admit_shared: "t \<notin> R \<Longrightarrow> rw_step (R, {}) (insert t R, {})"
| admit_exclusive: "rw_step ({}, {}) ({}, {t})"
| leave_shared: "t \<in> R \<Longrightarrow> rw_step (R, {}) (R - {t}, {})"
| leave_exclusive: "rw_step ({}, {t}) ({}, {})"

definition gate_holders :: "gate \<Rightarrow> nat set \<times> nat set" where
  "gate_holders g = (sharers g, excluders g)"

lemma gate_ok_sets:
  assumes "gate_ok g"
  shows "shared g = 0 \<longleftrightarrow> sharers g = {}" and "\<not> exclusive g \<longleftrightarrow> excluders g = {}" and "exclusive_waiting g = 0 \<longleftrightarrow> queued g = {}"
proof -
  have fin: "finite (at_stage P g)" if "\<not> P Away" for P
    by (rule rev_finite_subset [of "{t. stages g t \<noteq> Away}"]) (use assms that in \<open>auto simp: gate_ok_def at_stage_def\<close>)
  show "shared g = 0 \<longleftrightarrow> sharers g = {}" using fin [of "\<lambda>p. p = HoldsShared"] assms by (simp add: gate_ok_def)
  show "\<not> exclusive g \<longleftrightarrow> excluders g = {}" using fin [of "\<lambda>p. p = HoldsExclusive"] assms by (auto simp: gate_ok_def)
  show "exclusive_waiting g = 0 \<longleftrightarrow> queued g = {}" using fin [of waits_exclusive] assms by (simp add: gate_ok_def)
qed

lemma gate_ok_one_exclusive:
  assumes "gate_ok g" and "stages g t = HoldsExclusive"
  shows "excluders g = {t}" and "sharers g = {}"
proof -
  have ex: "exclusive g" using gate_ok_holders(2) [OF assms] .
  then have "card (excluders g) = 1" using assms(1) by (simp add: gate_ok_def)
  then obtain u where "excluders g = {u}" by (auto simp: card_1_singleton_iff)
  moreover have "t \<in> excluders g" using assms(2) by (simp add: at_stage_def)
  ultimately show "excluders g = {t}" by simp
  show "sharers g = {}" using gate_ok_sets(1) [OF assms(1)] gate_ok_sleep(3) [OF assms(1) ex] by simp
qed

lemma holders_try_shared:
  assumes ok: "gate_ok g" and t: "stages g t \<noteq> HoldsShared" "stages g t \<noteq> HoldsExclusive"
  shows "gate_holders (try_shared t g) = gate_holders g \<or> rw_step (gate_holders g) (gate_holders (try_shared t g))"
proof (cases "exclusive g \<or> exclusive_waiting g \<noteq> 0")
  case True
  then have "gate_holders (try_shared t g) = gate_holders g"
    using t by (auto simp: gate_holders_def try_shared_def at_stage_def)
  then show ?thesis ..
next
  case False
  then have "excluders g = {}" using gate_ok_sets(2) [OF ok] by simp
  moreover have "gate_holders (try_shared t g) = (insert t (sharers g), excluders g)"
    using False t by (auto simp: gate_holders_def try_shared_def at_stage_def)
  moreover have "t \<notin> sharers g" using t by (simp add: at_stage_def)
  ultimately show ?thesis using rw_step.admit_shared by (simp add: gate_holders_def)
qed

lemma holders_try_exclusive:
  assumes sets: "shared g = 0 \<longleftrightarrow> sharers g = {}" "\<not> exclusive g \<longleftrightarrow> excluders g = {}"
    and t: "stages g t \<noteq> HoldsShared" "stages g t \<noteq> HoldsExclusive"
  shows "gate_holders (try_exclusive t g) = gate_holders g \<or> rw_step (gate_holders g) (gate_holders (try_exclusive t g))"
proof (cases "exclusive g \<or> shared g \<noteq> 0")
  case True
  then have "gate_holders (try_exclusive t g) = gate_holders g"
    using t by (auto simp: gate_holders_def try_exclusive_def at_stage_def)
  then show ?thesis ..
next
  case False
  then have e: "gate_holders g = ({}, {})" using sets by (simp add: gate_holders_def)
  moreover have "gate_holders (try_exclusive t g) = ({}, {t})"
    using False t e by (auto simp: gate_holders_def try_exclusive_def at_stage_def)
  ultimately show ?thesis using rw_step.admit_exclusive by simp
qed

lemma holders_enter_exclusive:
  assumes ok: "gate_ok g" and t: "stages g t = Away"
  shows "gate_holders (enter_exclusive t g) = gate_holders g \<or> rw_step (gate_holders g) (gate_holders (enter_exclusive t g))"
proof -
  let ?g = "g\<lparr>exclusive_waiting := exclusive_waiting g + 1\<rparr>"
  have h: "gate_holders ?g = gate_holders g" by (simp add: gate_holders_def at_stage_def)
  have "gate_holders (try_exclusive t ?g) = gate_holders ?g \<or> rw_step (gate_holders ?g) (gate_holders (try_exclusive t ?g))"
    by (rule holders_try_exclusive) (use gate_ok_sets [OF ok] t in \<open>simp_all add: at_stage_def\<close>)
  then show ?thesis by (simp only: enter_exclusive_def h)
qed

lemma gate_step_refines:
  assumes step: "gate_step g g'" and ok: "gate_ok g"
  shows "gate_holders g' = gate_holders g \<or> rw_step (gate_holders g) (gate_holders g')"
  using step
proof (cases rule: gate_step.cases)
  case (shared_enters t)
  then show ?thesis using holders_try_shared [OF ok] by simp
next
  case (shared_resumes t)
  then show ?thesis using holders_try_shared [OF ok] by simp
next
  case (shared_leaves t)
  have "gate_holders g' = (sharers g - {t}, excluders g)"
    using shared_leaves by (auto simp: gate_holders_def release_shared_def Let_def at_stage_def)
  moreover have "t \<in> sharers g" using shared_leaves by (simp add: at_stage_def)
  moreover have "excluders g = {}"
    using gate_ok_sets(2) [OF ok] gate_ok_sleep(3) [OF ok] gate_ok_holders(1) [OF ok shared_leaves(2)] by fastforce
  ultimately show ?thesis using rw_step.leave_shared by (simp add: gate_holders_def)
next
  case (exclusive_enters t)
  then show ?thesis using holders_enter_exclusive [OF ok] by simp
next
  case (exclusive_resumes t)
  then show ?thesis using holders_try_exclusive [OF gate_ok_sets(1,2) [OF ok]] by simp
next
  case (exclusive_leaves t)
  note one = gate_ok_one_exclusive [OF ok exclusive_leaves(2)]
  have "gate_holders g' = (sharers g, excluders g - {t})"
    using exclusive_leaves by (auto simp: gate_holders_def release_exclusive_def at_stage_def)
  then have "gate_holders g' = ({}, {})" "gate_holders g = ({}, {t})" by (simp_all add: one gate_holders_def)
  then show ?thesis using rw_step.leave_exclusive by simp
qed (auto simp: gate_holders_def interrupt_exclusive_def at_stage_def)

text \<open>
  C32: The gate implements a readers-writer lock. Each segment of its methods, from any state the
  gate can reach, leaves the holders as they are or is a step of the specification: shared
  callers come in while nothing is held exclusively, an exclusive caller when nothing is held,
  and each leaves what it held.
\<close>

theorem gate_refines:
  assumes "gate_run new_gate g" and "gate_step g g'"
  shows "gate_holders g' = gate_holders g \<or> rw_step (gate_holders g) (gate_holders g')"
  by (rule gate_step_refines [OF assms(2)]) (rule gate_run_ok [OF assms(1) gate_ok_new])

theorem gate_refines_witness:
  "gate_holders (try_shared 1 new_gate) = gate_holders new_gate \<or> rw_step (gate_holders new_gate) (gate_holders (try_shared 1 new_gate))"
  by (rule gate_refines) (auto intro: gate_step.shared_enters simp: new_gate_def)

text \<open>
  C33: The gate never jams and never loses a wake-up. Whenever nothing holds it, every caller
  waiting for an exclusive hold is awake and is admitted by its next segment; if there is none,
  the same is true of every caller waiting for a shared hold.
\<close>

theorem gate_never_jams:
  assumes "gate_run new_gate g" and "gate_holders g = ({}, {})"
  shows "(waits_exclusive (stages g t) \<longrightarrow> stages g t = WaitsExclusive Woken \<and> stages (try_exclusive t g) t = HoldsExclusive) \<and>
    (queued g = {} \<and> waits_shared (stages g t) \<longrightarrow> stages g t = WaitsShared Woken \<and> stages (try_shared t g) t = HoldsShared)"
proof -
  have ok: "gate_ok g" by (rule gate_run_ok [OF assms(1) gate_ok_new])
  have free: "shared g = 0" "\<not> exclusive g" using assms(2) gate_ok_sets [OF ok] by (simp_all add: gate_holders_def)
  have "stages g t \<noteq> WaitsExclusive Asleep" using gate_ok_sleep(2) [OF ok, of t] free by auto
  moreover have "queued g = {} \<Longrightarrow> exclusive_waiting g = 0" using gate_ok_sets(3) [OF ok] by simp
  moreover from this have "queued g = {} \<Longrightarrow> stages g t \<noteq> WaitsShared Asleep" using gate_ok_sleep(1) [OF ok, of t] free by auto
  ultimately show ?thesis using free by (auto simp: try_exclusive_def try_shared_def elim!: waits_exclusive.elims waits_shared.elims) (metis nap.exhaust)+
qed

text \<open>A write is in flight, a renewal waits for it, another write comes, the first one ends.\<close>

definition renewal_waits :: gate where
  "renewal_waits = enter_exclusive 2 (try_shared 1 new_gate)"

definition contended :: gate where
  "contended = release_shared 1 (try_shared 3 renewal_waits)"

lemmas contended_defs = contended_def renewal_waits_def new_gate_def try_shared_def enter_exclusive_def
  try_exclusive_def release_shared_def Let_def

lemma renewal_waits_run: "gate_run new_gate renewal_waits"
proof -
  have "gate_step new_gate (try_shared 1 new_gate)" by (rule shared_enters) (simp add: new_gate_def)
  moreover have "gate_step (try_shared 1 new_gate) renewal_waits"
    unfolding renewal_waits_def by (rule exclusive_enters) (simp add: contended_defs)
  ultimately show ?thesis by (meson converse_rtranclp_into_rtranclp rtranclp.rtrancl_refl)
qed

lemma contended_steps:
  "gate_step renewal_waits (try_shared 3 renewal_waits)" "gate_step (try_shared 3 renewal_waits) contended"
  "waits_exclusive (stages renewal_waits 2)" "waits_exclusive (stages (try_shared 3 renewal_waits) 2)"
  by (rule shared_enters, simp add: contended_defs) (unfold contended_def, rule shared_leaves, auto simp: contended_defs)

lemma contended_run: "gate_run new_gate contended"
  using renewal_waits_run contended_steps(1,2) by (meson rtranclp.rtrancl_into_rtrancl)

lemma contended_stages:
  "stages contended = (\<lambda>t. if t = 2 then WaitsExclusive Woken else if t = 3 then WaitsShared Woken else Away)"
  by (auto simp: fun_eq_iff contended_defs)

theorem gate_never_jams_witness:
  "stages contended 2 = WaitsExclusive Woken \<and> stages (try_exclusive 2 contended) 2 = HoldsExclusive"
proof -
  have "gate_holders contended = ({}, {})" by (auto simp: gate_holders_def at_stage_def contended_stages)
  from gate_never_jams [OF contended_run this, of 2] show ?thesis by (simp add: contended_stages)
qed

lemma overtaking_step:
  assumes step: "gate_step g g'" and ok: "gate_ok g" and w: "waits_exclusive (stages g t)"
  shows "sharers g' \<subseteq> sharers g"
proof -
  have "exclusive_waiting g \<noteq> 0" using gate_ok_holders(3) [OF ok w] by simp
  with step show ?thesis
    by (cases rule: gate_step.cases)
      (auto simp: at_stage_def try_shared_def release_shared_def enter_exclusive_def try_exclusive_def
        interrupt_exclusive_def release_exclusive_def Let_def split: if_splits)
qed

text \<open>
  The gate prefers an exclusive caller. While one waits, whatever else happens, nobody is
  let in shared: of the shared holders there were when it came, some may leave.
\<close>

lemma exclusive_not_overtaken:
  assumes "gate_run new_gate g" and "waits_exclusive (stages g t)"
    and "(\<lambda>a b. gate_step a b \<and> waits_exclusive (stages b t))\<^sup>*\<^sup>* g g'"
  shows "sharers g' \<subseteq> sharers g"
proof -
  have "sharers g' \<subseteq> sharers g \<and> gate_ok g' \<and> waits_exclusive (stages g' t)"
    using assms(3)
  proof (induction rule: rtranclp_induct)
    case base
    show ?case using gate_run_ok [OF assms(1) gate_ok_new] assms(2) by simp
  next
    case (step a b)
    then show ?case using overtaking_step [of a b t] gate_ok_step [of a b] by auto
  qed
  then show ?thesis ..
qed

end
