(* ===== verification/Writer.thy ===== *)
theory Writer
  imports Gate MemoryBackend
begin

text \<open>
  The state writer (\<open>StateWriter\<close>, \<open>reconcile/writer.py\<close>) as a step relation over the gate. The
  event loop is one thread: it enters a \<open>run\<close>, takes its turn for the node's key, submits the write
  under a shared hold of the gate, and resumes the task when the write is done; or it makes a
  section of synchronous \<open>call\<close>s (a renewal and the rebind after it), each under the exclusive
  hold, and nothing else runs on the loop meanwhile. The pool's threads take submitted writes in
  order, let them take effect, and give the shared hold back. A write \<open>n\<close> has a key \<open>key n\<close> and
  an effect \<open>eff n\<close> on the store, its own exception included; a call says whether it raised.
  The gate knows a write as caller \<open>Suc n\<close> and the loop's calls as caller \<open>0\<close>.
\<close>

subsection \<open>Configuration\<close>

text \<open>The two attributes of a backend, \<open>None\<close> where it has none.\<close>

definition offloads_writes :: "pyval option \<Rightarrow> bool" where
  "offloads_writes declared = (declared = Some (PBool True))"

definition writes_in_flight :: "int \<Rightarrow> pyval option \<Rightarrow> int option \<Rightarrow> int" where
  "writes_in_flight default_parallelism declared parallelism =
     (let n = (case declared of Some (PInt i) \<Rightarrow> if i < 1 then 1 else i | _ \<Rightarrow> 1);
          cap = (case parallelism of Some p \<Rightarrow> if p \<ge> 1 then p else default_parallelism | None \<Rightarrow> default_parallelism)
      in min n cap)"

definition pool_workers :: "bool \<Rightarrow> int \<Rightarrow> int" where
  "pool_workers offload workers = (if offload then max 1 workers else 1)"

text \<open>A call that holds the gate exclusively: the store after it, and whether it raised.\<close>

type_synonym 's exclusive_call = "'s \<Rightarrow> 's \<times> bool"

subsection \<open>The writer of a backend\<close>

text \<open>
  \<open>_WRITERS\<close>: the writer installed for each backend, by the backend's identity. The block of
  \<open>state_writer\<close> runs with the installed writer if there is one, else with one of its own that it
  uninstalls at the end.
\<close>

definition state_writer :: "nat \<Rightarrow> 'w \<Rightarrow> ('w \<Rightarrow> (nat \<times> 'w) list \<Rightarrow> (nat \<times> 'w) list \<times> 'a) \<Rightarrow> (nat \<times> 'w) list \<Rightarrow> (nat \<times> 'w) list \<times> 'a" where
  "state_writer b own block reg = (case map_of reg b of
     Some w \<Rightarrow> block w reg
   | None \<Rightarrow> (case block own (AList.update b own reg) of (reg', r) \<Rightarrow> (AList.delete b reg', r)))"

definition writer_for :: "'w \<Rightarrow> nat \<Rightarrow> (nat \<times> 'w) list \<Rightarrow> 'w" where
  "writer_for inline b reg = dget reg b inline"

definition writer_installed :: "nat \<Rightarrow> (nat \<times> 'w) list \<Rightarrow> bool" where
  "writer_installed b reg = (b \<in> fst ` set reg)"

text \<open>\<open>SerializedBackend\<close>: every operation of the lock scaffold is a section of one call.\<close>

definition serialized :: "mem_op \<Rightarrow> (time \<times> memory) exclusive_call list" where
  "serialized op = [\<lambda>st. (mem_exec op st, False)]"

text \<open>Nested to any depth, a block finds its writer installed and leaves the registry as it was.\<close>

lemma state_writer_restores:
  assumes "\<And>w reg. map_of reg b = Some w \<Longrightarrow> fst (block w reg) = reg"
  shows "fst (state_writer b own block reg) = reg"
proof (cases "map_of reg b")
  case None
  let ?reg = "AList.update b own reg"
  have fresh: "b \<notin> fst ` set reg" using None by (simp add: map_of_eq_None_iff)
  have "fst (block own ?reg) = ?reg" by (rule assms) (simp add: update_conv')
  moreover have "AList.delete b ?reg = reg" using fresh delete_id [OF fresh] by (simp add: update_fresh AList.delete_eq)
  ultimately show ?thesis using None by (simp add: state_writer_def split_beta)
qed (simp add: state_writer_def assms)

lemma state_writer_nests:
  assumes "map_of reg b = Some w"
  shows "state_writer b own block reg = block w reg" and "writer_for inline b reg = w" and "writer_installed b reg"
  using assms by (simp_all add: state_writer_def writer_for_def writer_installed_def dget_def key_iff)

subsection \<open>Turns\<close>

text \<open>
  \<open>_keys\<close>: a key's entry is its \<open>asyncio.Lock\<close>, which serves its callers in the order they came (the
  first of the list holds it), and the count of holders and waiters that keeps the entry alive.
\<close>

type_synonym key_turns = "(string \<times> (nat list \<times> nat)) list"

definition take_turn :: "string option \<Rightarrow> nat \<Rightarrow> key_turns \<Rightarrow> key_turns" where
  "take_turn k n ks = (case k of None \<Rightarrow> ks
     | Some k \<Rightarrow> (case map_of ks k of None \<Rightarrow> AList.update k ([n], 1) ks
         | Some (q, users) \<Rightarrow> AList.update k (q @ [n], users + 1) ks))"

definition end_turn :: "string option \<Rightarrow> nat \<Rightarrow> key_turns \<Rightarrow> key_turns" where
  "end_turn k n ks = (case k of None \<Rightarrow> ks
     | Some k \<Rightarrow> (case map_of ks k of None \<Rightarrow> ks
         | Some (q, users) \<Rightarrow> if users - 1 = 0 then AList.delete k ks
             else AList.update k (remove1 n q, users - 1) ks))"

definition turn_queue :: "string \<Rightarrow> key_turns \<Rightarrow> nat list" where
  "turn_queue k ks = (case map_of ks k of None \<Rightarrow> [] | Some (q, users) \<Rightarrow> q)"

definition has_turn :: "string option \<Rightarrow> nat \<Rightarrow> key_turns \<Rightarrow> bool" where
  "has_turn k n ks = (case k of None \<Rightarrow> True | Some k \<Rightarrow> (case turn_queue k ks of [] \<Rightarrow> False | m # _ \<Rightarrow> m = n))"

subsection \<open>The writer\<close>

record 's writer =
  wr_workers :: nat
  wr_gate :: gate
  wr_keys :: key_turns
  wr_pool :: "nat list"
  wr_threads :: "(nat \<times> bool) list"
  wr_finished :: "nat set"
  wr_section :: "'s exclusive_call list option"
  wr_store :: 's
  wr_entered :: "nat list"
  wr_cancelled :: "nat set"
  wr_submitted :: "nat list"
  wr_landed :: "nat list"
  wr_returned :: "nat list"

definition new_writer :: "nat \<Rightarrow> 's \<Rightarrow> 's writer" where
  "new_writer workers s = \<lparr>wr_workers = workers, wr_gate = new_gate, wr_keys = [], wr_pool = [], wr_threads = [],
     wr_finished = {}, wr_section = None, wr_store = s, wr_entered = [], wr_cancelled = {}, wr_submitted = [],
     wr_landed = [], wr_returned = []\<rparr>"

definition run_enters :: "(nat \<Rightarrow> string option) \<Rightarrow> nat \<Rightarrow> 's writer \<Rightarrow> 's writer" where
  "run_enters key n w = w\<lparr>wr_keys := take_turn (key n) n (wr_keys w), wr_entered := wr_entered w @ [n]\<rparr>"

definition run_submits :: "nat \<Rightarrow> 's writer \<Rightarrow> 's writer" where
  "run_submits n w = w\<lparr>wr_gate := try_shared (Suc n) (wr_gate w), wr_pool := wr_pool w @ [n], wr_submitted := wr_submitted w @ [n]\<rparr>"

definition thread_starts :: "'s writer \<Rightarrow> 's writer" where
  "thread_starts w = w\<lparr>wr_pool := tl (wr_pool w), wr_threads := wr_threads w @ [(hd (wr_pool w), False)]\<rparr>"

definition write_lands :: "(nat \<Rightarrow> 's \<Rightarrow> 's) \<Rightarrow> nat \<Rightarrow> 's writer \<Rightarrow> 's writer" where
  "write_lands eff n w = w\<lparr>wr_store := eff n (wr_store w), wr_threads := AList.update n True (wr_threads w), wr_landed := wr_landed w @ [n]\<rparr>"

definition write_drains :: "nat \<Rightarrow> 's writer \<Rightarrow> 's writer" where
  "write_drains n w = w\<lparr>wr_gate := release_shared (Suc n) (wr_gate w), wr_threads := AList.delete n (wr_threads w),
     wr_finished := insert n (wr_finished w)\<rparr>"

definition run_returns :: "(nat \<Rightarrow> string option) \<Rightarrow> nat \<Rightarrow> 's writer \<Rightarrow> 's writer" where
  "run_returns key n w = w\<lparr>wr_finished := wr_finished w - {n}, wr_keys := end_turn (key n) n (wr_keys w), wr_returned := wr_returned w @ [n]\<rparr>"

definition run_cancelled :: "(nat \<Rightarrow> string option) \<Rightarrow> nat \<Rightarrow> 's writer \<Rightarrow> 's writer" where
  "run_cancelled key n w = w\<lparr>wr_keys := end_turn (key n) n (wr_keys w), wr_cancelled := insert n (wr_cancelled w)\<rparr>"

definition call_runs :: "'s exclusive_call \<Rightarrow> 's exclusive_call list \<Rightarrow> 's writer \<Rightarrow> 's writer" where
  "call_runs c cs w = w\<lparr>wr_store := fst (c (wr_store w)), wr_gate := release_exclusive 0 (wr_gate w),
     wr_section := (if snd (c (wr_store w)) then None else Some cs)\<rparr>"

text \<open>
  A submitted write is never abandoned: only one still waiting for its turn can be cancelled, a
  later cancellation waits for the write and is raised when \<open>run\<close> returns.
\<close>

inductive wr_step :: "(nat \<Rightarrow> string option) \<Rightarrow> (nat \<Rightarrow> 's \<Rightarrow> 's) \<Rightarrow> 's exclusive_call list set \<Rightarrow> 's writer \<Rightarrow> 's writer \<Rightarrow> bool"
  for key eff sections where
  enters: "wr_section w = None \<Longrightarrow> n \<notin> set (wr_entered w) \<Longrightarrow> wr_step key eff sections w (run_enters key n w)"
| submits: "wr_section w = None \<Longrightarrow> n \<in> set (wr_entered w) \<Longrightarrow> n \<notin> set (wr_submitted w) \<Longrightarrow> n \<notin> wr_cancelled w \<Longrightarrow>
    has_turn (key n) n (wr_keys w) \<Longrightarrow> stages (try_shared (Suc n) (wr_gate w)) (Suc n) = HoldsShared \<Longrightarrow>
    wr_step key eff sections w (run_submits n w)"
| starts: "wr_pool w \<noteq> [] \<Longrightarrow> length (wr_threads w) < wr_workers w \<Longrightarrow> wr_step key eff sections w (thread_starts w)"
| lands: "map_of (wr_threads w) n = Some False \<Longrightarrow> wr_step key eff sections w (write_lands eff n w)"
| drains: "map_of (wr_threads w) n = Some True \<Longrightarrow> wr_step key eff sections w (write_drains n w)"
| returns: "wr_section w = None \<Longrightarrow> n \<in> wr_finished w \<Longrightarrow> wr_step key eff sections w (run_returns key n w)"
| cancelled: "wr_section w = None \<Longrightarrow> key n = Some k \<Longrightarrow> n \<in> set (wr_entered w) \<Longrightarrow> n \<notin> set (wr_submitted w) \<Longrightarrow>
    n \<notin> wr_cancelled w \<Longrightarrow> wr_step key eff sections w (run_cancelled key n w)"
| section_begins: "wr_section w = None \<Longrightarrow> cs \<in> sections \<Longrightarrow> wr_step key eff sections w (w\<lparr>wr_section := Some cs\<rparr>)"
| call_waits: "wr_section w = Some (c # cs) \<Longrightarrow> stages (wr_gate w) 0 = Away \<Longrightarrow>
    wr_step key eff sections w (w\<lparr>wr_gate := enter_exclusive 0 (wr_gate w)\<rparr>)"
| call_wakes: "wr_section w = Some (c # cs) \<Longrightarrow> stages (wr_gate w) 0 = WaitsExclusive Woken \<Longrightarrow>
    wr_step key eff sections w (w\<lparr>wr_gate := try_exclusive 0 (wr_gate w)\<rparr>)"
| call_made: "wr_section w = Some (c # cs) \<Longrightarrow> stages (wr_gate w) 0 = HoldsExclusive \<Longrightarrow>
    wr_step key eff sections w (call_runs c cs w)"
| section_ends: "wr_section w = Some [] \<Longrightarrow> wr_step key eff sections w (w\<lparr>wr_section := None\<rparr>)"

inductive_cases wr_stepE: "wr_step key eff sections w w'"

abbreviation wr_run :: "(nat \<Rightarrow> string option) \<Rightarrow> (nat \<Rightarrow> 's \<Rightarrow> 's) \<Rightarrow> 's exclusive_call list set \<Rightarrow> 's writer \<Rightarrow> 's writer \<Rightarrow> bool" where
  "wr_run key eff sections \<equiv> (wr_step key eff sections)\<^sup>*\<^sup>*"

subsection \<open>The gate is held by the writes in flight\<close>

definition in_flight :: "'s writer \<Rightarrow> nat set" where
  "in_flight w = set (wr_pool w) \<union> fst ` set (wr_threads w)"

lemma map_of_key: "map_of m k = Some v \<Longrightarrow> k \<in> fst ` set m"
  by (metis domI dom_map_of_conv_image_fst)

lemma keys_delete: "fst ` set (AList.delete k m) = fst ` set m - {k}"
  by (metis delete_keys list.set_map set_removeAll)

lemma keys_update_same: "map_of m k = Some v \<Longrightarrow> fst ` set (AList.update k x m) = fst ` set m"
  using map_of_key [of m k v] by (auto simp: dom_update)

lemma in_flight_simps [simp]:
  "in_flight (run_enters key n w) = in_flight w" "in_flight (run_submits n w) = insert n (in_flight w)"
  "in_flight (run_returns key n w) = in_flight w" "in_flight (run_cancelled key n w) = in_flight w"
  "in_flight (call_runs c cs w) = in_flight w" "in_flight (w\<lparr>wr_section := x\<rparr>) = in_flight w"
  "in_flight (w\<lparr>wr_gate := g\<rparr>) = in_flight w"
  by (auto simp: in_flight_def run_enters_def run_submits_def run_returns_def run_cancelled_def call_runs_def)

lemma in_flight_starts [simp]: "wr_pool w \<noteq> [] \<Longrightarrow> in_flight (thread_starts w) = in_flight w"
  by (cases "wr_pool w") (auto simp: in_flight_def thread_starts_def)

lemma in_flight_lands: "map_of (wr_threads w) n = Some b \<Longrightarrow> in_flight (write_lands eff n w) = in_flight w"
  by (simp add: in_flight_def write_lands_def keys_update_same)

lemma in_flight_drains:
  "map_of (wr_threads w) n = Some b \<Longrightarrow> distinct (wr_pool w @ map fst (wr_threads w)) \<Longrightarrow> in_flight (write_drains n w) = in_flight w - {n}"
  using map_of_key [of "wr_threads w" n b] by (auto simp: in_flight_def write_drains_def keys_delete)

definition gate_inv :: "'s writer \<Rightarrow> bool" where
  "gate_inv w \<longleftrightarrow> gate_ok (wr_gate w) \<and>
     (\<forall>n. stages (wr_gate w) (Suc n) = (if n \<in> in_flight w then HoldsShared else Away)) \<and>
     (stages (wr_gate w) 0 = Away \<or> ((\<exists>c cs. wr_section w = Some (c # cs)) \<and>
        (waits_exclusive (stages (wr_gate w) 0) \<or> stages (wr_gate w) 0 = HoldsExclusive))) \<and>
     distinct (wr_pool w @ map fst (wr_threads w))"

lemma gate_inv_step:
  assumes step: "wr_step key eff sections w w'" and inv: "gate_inv w" and sub: "in_flight w \<subseteq> set (wr_submitted w)"
  shows "gate_inv w'"
proof -
  have ok: "gate_ok (wr_gate w)" and st: "\<And>n. stages (wr_gate w) (Suc n) = (if n \<in> in_flight w then HoldsShared else Away)"
    and d: "distinct (wr_pool w @ map fst (wr_threads w))" using inv by (auto simp: gate_inv_def)
  show ?thesis
    using step
  proof (cases rule: wr_step.cases)
    case (submits n)
    then have "n \<notin> in_flight w" using sub by auto
    then have "gate_ok (try_shared (Suc n) (wr_gate w))" using gate_ok_step [OF shared_enters ok] st [of n] by simp
    moreover have "\<not> (exclusive (wr_gate w) \<or> exclusive_waiting (wr_gate w) \<noteq> 0)"
      using submits(7) by (auto simp: try_shared_def split: if_splits)
    ultimately show ?thesis using submits \<open>n \<notin> in_flight w\<close> inv st d
      by (auto simp: gate_inv_def run_submits_def try_shared_def in_flight_def)
  next
    case starts
    then have "in_flight (thread_starts w) = in_flight w" by simp
    moreover have "distinct (wr_pool (thread_starts w) @ map fst (wr_threads (thread_starts w)))"
      using d starts by (cases "wr_pool w") (auto simp: thread_starts_def)
    ultimately show ?thesis using starts inv by (simp add: gate_inv_def) (simp add: thread_starts_def)
  next
    case (lands n)
    have "map fst (AList.update n True (wr_threads w)) = map fst (wr_threads w)"
      using map_of_key [OF lands(2)] by (simp add: update_keys)
    then show ?thesis using lands inv in_flight_lands [OF lands(2), of eff] keys_update_same [OF lands(2), of True]
      by (simp add: gate_inv_def) (simp add: write_lands_def)
  next
    case (drains n)
    have "gate_ok (release_shared (Suc n) (wr_gate w))"
      using gate_ok_step [OF shared_leaves ok] st [of n] map_of_key [OF drains(2)] by (simp add: in_flight_def)
    moreover have "distinct (wr_pool w @ map fst (AList.delete n (wr_threads w)))" using d
      by (auto simp: keys_delete distinct_delete)
    ultimately show ?thesis using drains inv st in_flight_drains [OF drains(2) d]
      by (auto simp: gate_inv_def release_shared_def Let_def write_drains_def split: if_splits)
  next
    case (call_waits c cs)
    have "gate_ok (enter_exclusive 0 (wr_gate w))" by (rule gate_ok_step [OF exclusive_enters ok]) (rule call_waits(3))
    then show ?thesis using call_waits inv st
      by (auto simp: gate_inv_def in_flight_def enter_exclusive_def try_exclusive_def)
  next
    case (call_wakes c cs)
    have "gate_ok (try_exclusive 0 (wr_gate w))" by (rule gate_ok_step [OF exclusive_resumes ok]) (rule call_wakes(3))
    then show ?thesis using call_wakes inv st
      by (auto simp: gate_inv_def in_flight_def try_exclusive_def)
  next
    case (call_made c cs)
    have "gate_ok (release_exclusive 0 (wr_gate w))" by (rule gate_ok_step [OF exclusive_leaves ok]) (rule call_made(3))
    then show ?thesis using call_made inv st
      by (auto simp: gate_inv_def in_flight_def release_exclusive_def call_runs_def)
  qed (use inv in \<open>auto simp: gate_inv_def in_flight_def run_enters_def run_returns_def run_cancelled_def\<close>)
qed

subsection \<open>Each write goes through once\<close>

definition flight_inv :: "'s writer \<Rightarrow> bool" where
  "flight_inv w \<longleftrightarrow> distinct (wr_entered w) \<and> set (wr_submitted w) \<subseteq> set (wr_entered w) \<and>
     wr_cancelled w \<subseteq> set (wr_entered w) - set (wr_submitted w) \<and>
     set (wr_submitted w) = in_flight w \<union> wr_finished w \<union> set (wr_returned w) \<and>
     in_flight w \<inter> wr_finished w = {} \<and> set (wr_returned w) \<inter> (in_flight w \<union> wr_finished w) = {}"

lemma wr_fields [simp]:
  "wr_entered (thread_starts w) = wr_entered w" "wr_submitted (thread_starts w) = wr_submitted w"
  "wr_cancelled (thread_starts w) = wr_cancelled w" "wr_finished (thread_starts w) = wr_finished w"
  "wr_returned (thread_starts w) = wr_returned w" "wr_keys (thread_starts w) = wr_keys w" "wr_landed (thread_starts w) = wr_landed w"
  "wr_entered (write_lands eff n w) = wr_entered w" "wr_submitted (write_lands eff n w) = wr_submitted w"
  "wr_cancelled (write_lands eff n w) = wr_cancelled w" "wr_finished (write_lands eff n w) = wr_finished w"
  "wr_returned (write_lands eff n w) = wr_returned w" "wr_keys (write_lands eff n w) = wr_keys w"
  "wr_landed (write_lands eff n w) = wr_landed w @ [n]"
  "wr_entered (write_drains n w) = wr_entered w" "wr_submitted (write_drains n w) = wr_submitted w"
  "wr_cancelled (write_drains n w) = wr_cancelled w" "wr_finished (write_drains n w) = insert n (wr_finished w)"
  "wr_returned (write_drains n w) = wr_returned w" "wr_keys (write_drains n w) = wr_keys w" "wr_landed (write_drains n w) = wr_landed w"
  by (simp_all add: thread_starts_def write_lands_def write_drains_def)

lemma flight_invD:
  assumes "flight_inv w"
  shows "distinct (wr_entered w)" and "set (wr_submitted w) \<subseteq> set (wr_entered w)" and "wr_cancelled w \<subseteq> set (wr_entered w)"
    and "wr_cancelled w \<inter> set (wr_submitted w) = {}" and "set (wr_submitted w) = in_flight w \<union> wr_finished w \<union> set (wr_returned w)"
    and "in_flight w \<inter> wr_finished w = {}" and "set (wr_returned w) \<inter> (in_flight w \<union> wr_finished w) = {}"
  using assms by (auto simp: flight_inv_def)

lemma flight_inv_same:
  assumes inv: "flight_inv w" and eqs: "in_flight w' = in_flight w" "wr_entered w' = wr_entered w" "wr_submitted w' = wr_submitted w"
    "wr_cancelled w' = wr_cancelled w" "wr_finished w' = wr_finished w" "wr_returned w' = wr_returned w"
  shows "flight_inv w'"
  using inv unfolding flight_inv_def eqs .

lemma flight_inv_step:
  assumes step: "wr_step key eff sections w w'" and inv: "flight_inv w" and g: "gate_inv w"
  shows "flight_inv w'"
  using step
proof (cases rule: wr_step.cases)
  case starts
  show ?thesis by (rule flight_inv_same [OF inv]) (simp_all add: starts)
next
  case (lands n)
  show ?thesis by (rule flight_inv_same [OF inv]) (simp_all add: lands(1) in_flight_lands [OF lands(2)])
next
  case (drains n)
  have n: "n \<in> in_flight w" using map_of_key [OF drains(2)] by (simp add: in_flight_def)
  have f: "in_flight w' = in_flight w - {n}" using in_flight_drains [OF drains(2)] g drains(1) by (simp add: gate_inv_def)
  show ?thesis using flight_invD [OF inv] n unfolding flight_inv_def f by (auto simp: drains(1))
next
  case (submits n)
  have f: "in_flight w' = insert n (in_flight w)" by (simp add: submits(1))
  show ?thesis using flight_invD [OF inv] submits unfolding flight_inv_def f by (auto simp: run_submits_def)
next
  case (enters n)
  have f: "in_flight w' = in_flight w" by (simp add: enters(1))
  show ?thesis using flight_invD [OF inv] enters unfolding flight_inv_def f by (auto simp: run_enters_def)
next
  case (returns n)
  have f: "in_flight w' = in_flight w" by (simp add: returns(1))
  show ?thesis using flight_invD [OF inv] returns unfolding flight_inv_def f by (auto simp: run_returns_def)
next
  case (cancelled n k)
  have f: "in_flight w' = in_flight w" by (simp add: cancelled(1))
  show ?thesis using flight_invD [OF inv] cancelled unfolding flight_inv_def f by (auto simp: run_cancelled_def)
next
  case (call_made c cs)
  show ?thesis by (rule flight_inv_same [OF inv]) (simp_all add: call_made(1), simp_all add: call_runs_def)
qed (rule flight_inv_same [OF inv], simp_all)+

subsection \<open>Turns are taken in order\<close>

definition entries_ok :: "key_turns \<Rightarrow> bool" where
  "entries_ok ks \<longleftrightarrow> (\<forall>k q u. map_of ks k = Some (q, u) \<longrightarrow> u = length q \<and> q \<noteq> [])"

lemma take_turn_queue: "turn_queue k' (take_turn k n ks) = turn_queue k' ks @ (if k = Some k' then [n] else [])"
  by (auto simp: take_turn_def turn_queue_def update_conv' split: option.splits)

lemma take_turn_ok: "entries_ok ks \<Longrightarrow> entries_ok (take_turn k n ks)"
  by (auto simp: take_turn_def entries_ok_def update_conv' split: option.splits if_splits)

lemma turn_entry:
  assumes "entries_ok ks" and "n \<in> set (turn_queue k ks)"
  obtains q where "map_of ks k = Some (q, length q)" and "turn_queue k ks = q" and "n \<in> set q"
proof (cases "map_of ks k")
  case (Some e)
  obtain q u where "e = (q, u)" by (cases e)
  then show ?thesis using that [of q] assms Some by (auto simp: turn_queue_def entries_ok_def)
qed (use assms(2) in \<open>simp add: turn_queue_def\<close>)

lemma end_turn_queue:
  assumes "entries_ok ks" and "n \<in> set (turn_queue k ks)"
  shows "turn_queue k' (end_turn (Some k) n ks) = (if k = k' then remove1 n (turn_queue k' ks) else turn_queue k' ks)"
    and "entries_ok (end_turn (Some k) n ks)"
proof -
  obtain q where q: "map_of ks k = Some (q, length q)" "turn_queue k ks = q" "n \<in> set q" using turn_entry [OF assms] .
  have one: "length q - 1 = 0 \<Longrightarrow> remove1 n q = []" using q(3) by (cases q) (auto split: if_splits)
  have len: "length (remove1 n q) = length q - 1" using q(3) by (simp add: length_remove1)
  show "turn_queue k' (end_turn (Some k) n ks) = (if k = k' then remove1 n (turn_queue k' ks) else turn_queue k' ks)"
  proof (cases "length q - 1 = 0")
    case True
    have "end_turn (Some k) n ks = AList.delete k ks" using q(1) True by (simp add: end_turn_def)
    then show ?thesis using one [OF True] q(2) by (auto simp: turn_queue_def delete_conv')
  next
    case False
    have "end_turn (Some k) n ks = AList.update k (remove1 n q, length q - 1) ks" using q(1) False by (simp add: end_turn_def)
    then show ?thesis using q(2) by (auto simp: turn_queue_def update_conv')
  qed
  show "entries_ok (end_turn (Some k) n ks)"
  proof (cases "length q - 1 = 0")
    case True
    have e: "end_turn (Some k) n ks = AList.delete k ks" using q(1) True by (simp add: end_turn_def)
    show ?thesis using assms(1) unfolding e entries_ok_def by (simp add: delete_conv')
  next
    case False
    then have "remove1 n q \<noteq> []" using len by auto
    moreover have e: "end_turn (Some k) n ks = AList.update k (remove1 n q, length q - 1) ks" using q(1) False by (simp add: end_turn_def)
    ultimately show ?thesis using assms(1) len unfolding e entries_ok_def by (simp add: update_conv')
  qed
qed

abbreviation of_key :: "(nat \<Rightarrow> string option) \<Rightarrow> string \<Rightarrow> nat list \<Rightarrow> nat list" where
  "of_key key k xs \<equiv> filter (\<lambda>n. key n = Some k) xs"

text \<open>The write that has its turn and has taken effect, while \<open>run\<close> has not returned.\<close>

definition took_effect :: "'s writer \<Rightarrow> nat \<Rightarrow> bool" where
  "took_effect w n \<longleftrightarrow> n \<in> wr_finished w \<or> map_of (wr_threads w) n = Some True"

definition turns_inv :: "(nat \<Rightarrow> string option) \<Rightarrow> 's writer \<Rightarrow> bool" where
  "turns_inv key w \<longleftrightarrow> entries_ok (wr_keys w) \<and>
     (\<forall>k. of_key key k (filter (\<lambda>n. n \<notin> wr_cancelled w) (wr_entered w)) = of_key key k (wr_returned w) @ turn_queue k (wr_keys w)) \<and>
     (\<forall>k. of_key key k (wr_landed w) = of_key key k (wr_returned w) @ filter (took_effect w) (turn_queue k (wr_keys w))) \<and>
     (\<forall>n k. n \<in> in_flight w \<union> wr_finished w \<longrightarrow> key n = Some k \<longrightarrow> (\<exists>q. turn_queue k (wr_keys w) = n # q))"

lemma turns_queue_facts:
  assumes "turns_inv key w" and "flight_inv w"
  shows "distinct (turn_queue k (wr_keys w))" and "n \<in> set (turn_queue k (wr_keys w)) \<Longrightarrow> key n = Some k"
    and "n \<in> set (turn_queue k (wr_keys w)) \<Longrightarrow> n \<in> set (wr_entered w) \<and> n \<notin> wr_cancelled w"
proof -
  have eq: "of_key key k (filter (\<lambda>n. n \<notin> wr_cancelled w) (wr_entered w)) = of_key key k (wr_returned w) @ turn_queue k (wr_keys w)"
    using assms(1) by (simp add: turns_inv_def)
  have "distinct (of_key key k (filter (\<lambda>n. n \<notin> wr_cancelled w) (wr_entered w)))" using assms(2) by (simp add: flight_inv_def)
  then show "distinct (turn_queue k (wr_keys w))" unfolding eq by simp
  assume "n \<in> set (turn_queue k (wr_keys w))"
  then have "n \<in> set (of_key key k (filter (\<lambda>n. n \<notin> wr_cancelled w) (wr_entered w)))" unfolding eq by simp
  then show "key n = Some k" "n \<in> set (wr_entered w) \<and> n \<notin> wr_cancelled w" by auto
qed

lemma turns_invD:
  assumes "turns_inv key w"
  shows "entries_ok (wr_keys w)"
    and "of_key key k (filter (\<lambda>n. n \<notin> wr_cancelled w) (wr_entered w)) = of_key key k (wr_returned w) @ turn_queue k (wr_keys w)"
    and "of_key key k (wr_landed w) = of_key key k (wr_returned w) @ filter (took_effect w) (turn_queue k (wr_keys w))"
    and "n \<in> in_flight w \<union> wr_finished w \<Longrightarrow> key n = Some k \<Longrightarrow> \<exists>q. turn_queue k (wr_keys w) = n # q"
  using assms by (auto simp: turns_inv_def)

lemma turns_inv_same:
  assumes inv: "turns_inv key w" and eqs: "wr_keys w' = wr_keys w" "wr_cancelled w' = wr_cancelled w" "wr_entered w' = wr_entered w"
    "wr_returned w' = wr_returned w" "wr_landed w' = wr_landed w" "took_effect w' = took_effect w"
    "in_flight w' \<union> wr_finished w' = in_flight w \<union> wr_finished w"
  shows "turns_inv key w'"
  using inv unfolding turns_inv_def eqs .

lemma took_effect_in: "took_effect w n \<Longrightarrow> n \<in> in_flight w \<union> wr_finished w"
  using map_of_key [of "wr_threads w" n True] by (auto simp: took_effect_def in_flight_def)

lemma tail_waits:
  assumes "turns_inv key w" and "flight_inv w" and "turn_queue k (wr_keys w) = n # q" and "m \<in> set q"
  shows "m \<notin> in_flight w \<union> wr_finished w"
proof
  assume m: "m \<in> in_flight w \<union> wr_finished w"
  have "key m = Some k" using turns_queue_facts(2) [OF assms(1,2), of m k] assms(3,4) by simp
  from turns_invD(4) [OF assms(1) m this] have "m = n" using assms(3) by simp
  then show False using turns_queue_facts(1) [OF assms(1,2), of k] assms(3,4) by simp
qed

lemma tail_effect:
  assumes "turns_inv key w" and "flight_inv w" and "turn_queue k (wr_keys w) = n # q"
  shows "filter (took_effect w) q = []"
  using tail_waits [OF assms] took_effect_in by (auto simp: filter_empty_conv)

lemma remove1_filter: "distinct xs \<Longrightarrow> remove1 n xs = filter (\<lambda>m. m \<noteq> n) xs"
  by (simp add: distinct_remove1_removeAll removeAll_filter_not_eq eq_commute [of n])

lemma turns_inv_enters:
  assumes inv: "turns_inv key w" and fl: "flight_inv w" and n: "n \<notin> set (wr_entered w)"
  shows "turns_inv key (run_enters key n w)"
proof -
  have c: "n \<notin> wr_cancelled w" "n \<notin> in_flight w \<union> wr_finished w" using flight_invD [OF fl] n by auto
  have t: "took_effect (run_enters key n w) = took_effect w" by (auto simp: took_effect_def run_enters_def)
  have "\<not> took_effect w n" using took_effect_in c(2) by auto
  then show ?thesis using c n turns_invD [OF inv] take_turn_ok
    unfolding turns_inv_def t in_flight_simps by (fastforce simp: run_enters_def take_turn_queue)
qed

lemma turns_inv_lands:
  assumes inv: "turns_inv key w" and fl: "flight_inv w" and n: "map_of (wr_threads w) n = Some False"
  shows "turns_inv key (write_lands eff n w)"
proof -
  let ?w = "write_lands eff n w"
  have inf: "in_flight ?w = in_flight w" by (rule in_flight_lands [OF n])
  have nf: "n \<in> in_flight w" using map_of_key [OF n] by (simp add: in_flight_def)
  have t: "took_effect ?w m = (m = n \<or> took_effect w m)" for m by (simp add: took_effect_def write_lands_def update_conv')
  have nt: "\<not> took_effect w n" using n flight_invD(6) [OF fl] nf by (auto simp: took_effect_def)
  have landed: "of_key key k (wr_landed ?w) = of_key key k (wr_returned w) @ filter (took_effect ?w) (turn_queue k (wr_keys w))" for k
  proof (cases "key n = Some k")
    case True
    obtain q where q: "turn_queue k (wr_keys w) = n # q" using turns_invD(4) [OF inv _ True] nf by blast
    have "n \<notin> set q" using turns_queue_facts(1) [OF inv fl, of k] q by simp
    then have "filter (took_effect ?w) q = filter (took_effect w) q" by (intro filter_cong) (auto simp: t)
    then show ?thesis using turns_invD(3) [OF inv, of k] tail_effect [OF inv fl q] True nt q by (simp add: t)
  next
    case False
    then have "n \<notin> set (turn_queue k (wr_keys w))" using turns_queue_facts(2) [OF inv fl] by blast
    then have "filter (took_effect ?w) (turn_queue k (wr_keys w)) = filter (took_effect w) (turn_queue k (wr_keys w))"
      by (intro filter_cong) (auto simp: t)
    then show ?thesis using turns_invD(3) [OF inv, of k] False by simp
  qed
  show ?thesis using turns_invD(1,2,4) [OF inv] landed unfolding turns_inv_def inf wr_fields by simp
qed

lemma turns_inv_returns:
  assumes inv: "turns_inv key w" and fl: "flight_inv w" and n: "n \<in> wr_finished w"
  shows "turns_inv key (run_returns key n w)"
proof (cases "key n")
  case None
  have t: "took_effect (run_returns key n w) m = (took_effect w m \<and> \<not> (m = n \<and> map_of (wr_threads w) n \<noteq> Some True))" for m
    using n by (auto simp: took_effect_def run_returns_def)
  have "n \<notin> set (turn_queue k (wr_keys w))" for k using turns_queue_facts(2) [OF inv fl] None by fastforce
  then have "filter (took_effect (run_returns key n w)) (turn_queue k (wr_keys w)) = filter (took_effect w) (turn_queue k (wr_keys w))" for k
    by (intro filter_cong) (auto simp: t)
  then show ?thesis using turns_invD [OF inv] None unfolding turns_inv_def in_flight_simps by (simp add: run_returns_def end_turn_def)
next
  case (Some k)
  let ?w = "run_returns key n w"
  obtain q where q: "turn_queue k (wr_keys w) = n # q" using turns_invD(4) [OF inv _ Some] n by blast
  have tq: "turn_queue k' (wr_keys ?w) = (if k = k' then q else turn_queue k' (wr_keys w))" and e: "entries_ok (wr_keys ?w)" for k'
    using end_turn_queue [OF turns_invD(1) [OF inv], of n k] q Some by (auto simp: run_returns_def)
  have t: "m \<noteq> n \<Longrightarrow> took_effect ?w m = took_effect w m" for m by (simp add: took_effect_def run_returns_def)
  have nq: "n \<notin> set q" using turns_queue_facts(1) [OF inv fl, of k] q by simp
  have other: "n \<notin> set (turn_queue k' (wr_keys w))" if "k' \<noteq> k" for k' using turns_queue_facts(2) [OF inv fl] Some that by fastforce
  have fq: "filter (took_effect ?w) q = []" using tail_effect [OF inv fl q] nq t unfolding filter_empty_conv by metis
  have fo: "filter (took_effect ?w) (turn_queue k' (wr_keys w)) = filter (took_effect w) (turn_queue k' (wr_keys w))" if "k' \<noteq> k" for k'
    by (intro filter_cong refl t) (use other [OF that] in blast)
  have tn: "took_effect w n" using n by (simp add: took_effect_def)
  have r: "wr_returned ?w = wr_returned w @ [n]" "wr_landed ?w = wr_landed w" "wr_entered ?w = wr_entered w" "wr_cancelled ?w = wr_cancelled w"
      "wr_finished ?w = wr_finished w - {n}" by (simp_all add: run_returns_def)
  have p2: "of_key key k' (filter (\<lambda>n. n \<notin> wr_cancelled w) (wr_entered w)) = of_key key k' (wr_returned w @ [n]) @ turn_queue k' (wr_keys ?w)" for k'
    using turns_invD(2) [OF inv, of k'] q Some by (auto simp: tq)
  have p3: "of_key key k' (wr_landed w) = of_key key k' (wr_returned w @ [n]) @ filter (took_effect ?w) (turn_queue k' (wr_keys ?w))" for k'
  proof (cases "k' = k")
    case True
    then show ?thesis using turns_invD(3) [OF inv, of k] q Some tn fq tail_effect [OF inv fl q] by (simp add: tq)
  next
    case False
    then show ?thesis using turns_invD(3) [OF inv, of k'] Some fo by (simp add: tq)
  qed
  have p4: "\<exists>q. turn_queue k' (wr_keys ?w) = m # q" if m: "m \<in> in_flight w \<union> (wr_finished w - {n})" "key m = Some k'" for m k'
  proof -
    have mn: "m \<noteq> n" using m(1) flight_invD(6) [OF fl] n by auto
    obtain q' where q': "turn_queue k' (wr_keys w) = m # q'" using turns_invD(4) [OF inv _ m(2)] m(1) by blast
    then show ?thesis using q mn by (auto simp: tq)
  qed
  show ?thesis unfolding turns_inv_def in_flight_simps r using e p2 p3 p4 by simp
qed

lemma turns_inv_cancelled:
  assumes inv: "turns_inv key w" and fl: "flight_inv w" and n: "key n = Some k" "n \<in> set (wr_entered w)" "n \<notin> set (wr_submitted w)" "n \<notin> wr_cancelled w"
  shows "turns_inv key (run_cancelled key n w)"
proof -
  let ?w = "run_cancelled key n w"
  let ?q = "turn_queue k (wr_keys w)"
  have nf: "n \<notin> in_flight w \<union> wr_finished w" "n \<notin> set (wr_returned w)" using flight_invD(5) [OF fl] n(3) by auto
  have "n \<in> set (of_key key k (filter (\<lambda>n. n \<notin> wr_cancelled w) (wr_entered w)))" using n by simp
  then have "n \<in> set (of_key key k (wr_returned w) @ ?q)" unfolding turns_invD(2) [OF inv] .
  then have nq: "n \<in> set ?q" using nf(2) by simp
  have tq: "turn_queue k' (wr_keys ?w) = (if k = k' then remove1 n ?q else turn_queue k' (wr_keys w))" and e: "entries_ok (wr_keys ?w)" for k'
    using end_turn_queue [OF turns_invD(1) [OF inv] nq] n(1) by (auto simp: run_cancelled_def)
  have rm: "remove1 n ?q = filter (\<lambda>m. m \<noteq> n) ?q" by (rule remove1_filter [OF turns_queue_facts(1) [OF inv fl]])
  have t: "took_effect ?w = took_effect w" by (auto simp: took_effect_def run_cancelled_def)
  have nt: "\<not> took_effect w n" using nf(1) took_effect_in by blast
  have r: "wr_returned ?w = wr_returned w" "wr_landed ?w = wr_landed w" "wr_entered ?w = wr_entered w"
      "wr_cancelled ?w = insert n (wr_cancelled w)" "wr_finished ?w = wr_finished w" by (simp_all add: run_cancelled_def)
  have p2: "of_key key k' (filter (\<lambda>m. m \<notin> insert n (wr_cancelled w)) (wr_entered w)) = of_key key k' (wr_returned w) @ turn_queue k' (wr_keys ?w)" for k'
  proof (cases "k' = k")
    case True
    have "of_key key k (filter (\<lambda>m. m \<notin> insert n (wr_cancelled w)) (wr_entered w))
        = filter (\<lambda>m. m \<noteq> n) (of_key key k (filter (\<lambda>m. m \<notin> wr_cancelled w) (wr_entered w)))"
      unfolding filter_filter by (rule filter_cong) auto
    also have "\<dots> = filter (\<lambda>m. m \<noteq> n) (of_key key k (wr_returned w)) @ remove1 n ?q" unfolding turns_invD(2) [OF inv] rm by simp
    also have "filter (\<lambda>m. m \<noteq> n) (of_key key k (wr_returned w)) = of_key key k (wr_returned w)"
      using nf(2) by (intro filter_True) auto
    finally show ?thesis using True tq by simp
  next
    case False
    have "of_key key k' (filter (\<lambda>m. m \<notin> insert n (wr_cancelled w)) (wr_entered w))
        = of_key key k' (filter (\<lambda>m. m \<notin> wr_cancelled w) (wr_entered w))"
      unfolding filter_filter using n(1) False by (intro filter_cong) auto
    then show ?thesis using turns_invD(2) [OF inv, of k'] False tq by simp
  qed
  have p3: "of_key key k' (wr_landed w) = of_key key k' (wr_returned w) @ filter (took_effect w) (turn_queue k' (wr_keys ?w))" for k'
  proof (cases "k' = k")
    case True
    have "filter (took_effect w) (remove1 n ?q) = filter (took_effect w) ?q" unfolding rm filter_filter
      by (rule filter_cong) (use nt in auto)
    then show ?thesis using turns_invD(3) [OF inv, of k] True tq by simp
  qed (use turns_invD(3) [OF inv, of k'] tq in auto)
  have p4: "\<exists>q. turn_queue k' (wr_keys ?w) = m # q" if m: "m \<in> in_flight w \<union> wr_finished w" "key m = Some k'" for m k'
    using turns_invD(4) [OF inv m] nf(1) m(1) by (auto simp: tq)
  show ?thesis unfolding turns_inv_def in_flight_simps r t using e p2 p3 p4 by simp
qed

lemma turns_inv_step:
  assumes step: "wr_step key eff sections w w'" and inv: "turns_inv key w" and fl: "flight_inv w" and g: "gate_inv w"
  shows "turns_inv key w'"
  using step
proof (cases rule: wr_step.cases)
  case (enters n)
  then show ?thesis using turns_inv_enters [OF inv fl] by simp
next
  case (submits n)
  have t: "took_effect w' = took_effect w" by (auto simp: took_effect_def run_submits_def submits(1))
  have "\<exists>q. turn_queue k (wr_keys w) = n # q" if "key n = Some k" for k
    using submits(6) that by (auto simp: has_turn_def split: list.splits)
  moreover have f: "in_flight w' = insert n (in_flight w)" by (simp add: submits(1))
  moreover have r: "wr_keys w' = wr_keys w" "wr_cancelled w' = wr_cancelled w" "wr_entered w' = wr_entered w"
    "wr_returned w' = wr_returned w" "wr_landed w' = wr_landed w" "wr_finished w' = wr_finished w" by (simp_all add: submits(1) run_submits_def)
  ultimately show ?thesis using turns_invD [OF inv] unfolding turns_inv_def t f r by (auto simp del: filter_filter)
next
  case starts
  have "hd (wr_pool w) \<notin> fst ` set (wr_threads w)" using g starts(2) unfolding gate_inv_def by (cases "wr_pool w") auto
  then have "map_of (wr_threads w) (hd (wr_pool w)) = None" by (simp add: map_of_eq_None_iff)
  then have t: "took_effect (thread_starts w) = took_effect w"
    by (auto simp: took_effect_def thread_starts_def fun_eq_iff map_add_def split: option.splits)
  show ?thesis by (rule turns_inv_same [OF inv]) (simp_all add: starts(1,2) t)
next
  case (lands n)
  then show ?thesis using turns_inv_lands [OF inv fl] by simp
next
  case (drains n)
  have n: "n \<in> in_flight w" using map_of_key [OF drains(2)] by (simp add: in_flight_def)
  have f: "in_flight w' = in_flight w - {n}" using in_flight_drains [OF drains(2)] g drains(1) by (simp add: gate_inv_def)
  have t: "took_effect (write_drains n w) = took_effect w"
    using drains(2) by (auto simp: took_effect_def write_drains_def fun_eq_iff delete_conv')
  show ?thesis by (rule turns_inv_same [OF inv]) (use n f in \<open>auto simp: drains(1) t\<close>)
next
  case (returns n)
  then show ?thesis using turns_inv_returns [OF inv fl] by simp
next
  case (cancelled n k)
  then show ?thesis using turns_inv_cancelled [OF inv fl] by simp
next
  case (call_made c cs)
  show ?thesis by (rule turns_inv_same [OF inv]) (simp_all add: call_made(1), auto simp: call_runs_def took_effect_def)
qed (rule turns_inv_same [OF inv], simp_all add: took_effect_def fun_eq_iff)+

definition wr_inv :: "(nat \<Rightarrow> string option) \<Rightarrow> 's writer \<Rightarrow> bool" where
  "wr_inv key w \<longleftrightarrow> gate_inv w \<and> flight_inv w \<and> turns_inv key w"

lemma wr_inv_new: "wr_inv key (new_writer workers s)"
  using gate_ok_new by (auto simp: wr_inv_def new_writer_def gate_inv_def flight_inv_def turns_inv_def in_flight_def entries_ok_def
      turn_queue_def new_gate_def)

lemma wr_inv_step: "wr_step key eff sections w w' \<Longrightarrow> wr_inv key w \<Longrightarrow> wr_inv key w'"
  unfolding wr_inv_def using gate_inv_step flight_inv_step turns_inv_step flight_invD(5) by blast

lemma wr_run_inv: "wr_run key eff sections w w' \<Longrightarrow> wr_inv key w \<Longrightarrow> wr_inv key w'"
  by (induction rule: rtranclp_induct) (auto intro: wr_inv_step)

text \<open>
  C34: Writes of one node land in the order they were asked for. In any run of the writer,
  however many threads its pool has and whatever is cancelled while it waits, the writes with a
  given key that have taken effect are the first of those entered with that key and not cancelled,
  in that order, each once.
\<close>

theorem keyed_writes_in_order:
  assumes "wr_run key eff sections (new_writer workers s) w"
  shows "\<exists>rest. of_key key k (filter (\<lambda>n. n \<notin> wr_cancelled w) (wr_entered w)) = of_key key k (wr_landed w) @ rest"
proof -
  have "wr_inv key w" by (rule wr_run_inv [OF assms wr_inv_new])
  then have inv: "turns_inv key w" and fl: "flight_inv w" by (auto simp: wr_inv_def)
  let ?q = "turn_queue k (wr_keys w)"
  have "\<exists>rest. ?q = filter (took_effect w) ?q @ rest"
  proof (cases ?q)
    case (Cons n q)
    then show ?thesis using tail_effect [OF inv fl Cons] by auto
  qed simp
  then obtain rest where "?q = filter (took_effect w) ?q @ rest" by blast
  then have "of_key key k (filter (\<lambda>n. n \<notin> wr_cancelled w) (wr_entered w)) = of_key key k (wr_landed w) @ rest"
    unfolding turns_invD(2,3) [OF inv] by (metis append_assoc)
  then show ?thesis by blast
qed

subsection \<open>A section of calls is atomic\<close>

fun run_section :: "'s exclusive_call list \<Rightarrow> 's \<Rightarrow> 's" where
  "run_section [] s = s"
| "run_section (c # cs) s = (if snd (c s) then fst (c s) else run_section cs (fst (c s)))"

text \<open>Between two calls of a section nothing is in flight, and what the section leads to is settled.\<close>

definition section_inv :: "('s \<Rightarrow> bool) \<Rightarrow> 's exclusive_call list set \<Rightarrow> 's writer \<Rightarrow> bool" where
  "section_inv I sections w \<longleftrightarrow> (case wr_section w of None \<Rightarrow> I (wr_store w)
     | Some cs \<Rightarrow> (cs \<in> sections \<and> I (wr_store w)) \<or> (in_flight w = {} \<and> I (run_section cs (wr_store w))))"

lemma exclusive_means_idle:
  assumes "gate_inv w" and "stages (wr_gate w) 0 = HoldsExclusive"
  shows "in_flight w = {}"
proof -
  have "sharers (wr_gate w) = {}" using gate_ok_one_exclusive(2) [OF _ assms(2)] assms(1) by (simp add: gate_inv_def)
  then show ?thesis using assms(1) by (force simp: gate_inv_def at_stage_def split: if_splits)
qed

lemma section_inv_step:
  assumes step: "wr_step key eff sections w w'" and g: "gate_inv w" and inv: "section_inv I sections w"
    and writes: "\<And>n s. I s \<Longrightarrow> I (eff n s)" and whole: "\<And>cs s. cs \<in> sections \<Longrightarrow> I s \<Longrightarrow> I (run_section cs s)"
  shows "section_inv I sections w'"
  using step
proof (cases rule: wr_step.cases)
  case starts
  then have "in_flight w' = in_flight w" by simp
  moreover have "wr_section w' = wr_section w" "wr_store w' = wr_store w" by (simp_all add: starts(1) thread_starts_def)
  ultimately show ?thesis using inv by (simp add: section_inv_def split: option.splits)
next
  case (lands n)
  have "n \<in> in_flight w" using map_of_key [OF lands(2)] by (simp add: in_flight_def)
  then show ?thesis using inv writes unfolding section_inv_def lands(1) by (auto simp: write_lands_def split: option.splits)
next
  case (drains n)
  have "n \<in> in_flight w" using map_of_key [OF drains(2)] by (simp add: in_flight_def)
  then show ?thesis using inv unfolding section_inv_def drains(1) by (auto simp: write_drains_def split: option.splits)
next
  case (call_made c cs)
  have idle: "in_flight w = {}" by (rule exclusive_means_idle [OF g call_made(3)])
  have "I (run_section (c # cs) (wr_store w))" using inv whole call_made(2) by (auto simp: section_inv_def simp del: run_section.simps)
  then show ?thesis using idle unfolding section_inv_def call_made(1) by (auto simp: call_runs_def in_flight_def)
next
  case section_ends
  then show ?thesis using inv by (auto simp: section_inv_def)
next
  case (section_begins cs)
  then show ?thesis using inv by (auto simp: section_inv_def)
next
  case (submits n)
  then show ?thesis using inv by (auto simp: section_inv_def run_submits_def)
qed (use inv in \<open>auto simp: section_inv_def run_enters_def run_returns_def run_cancelled_def in_flight_def\<close>)

lemma section_inv_run:
  assumes run: "wr_run key eff sections (new_writer workers s) w" and "I s"
    and writes: "\<And>n s. I s \<Longrightarrow> I (eff n s)" and whole: "\<And>cs s. cs \<in> sections \<Longrightarrow> I s \<Longrightarrow> I (run_section cs s)"
  shows "section_inv I sections w"
proof -
  have "section_inv I sections w \<and> wr_inv key w"
    using run
  proof (induction rule: rtranclp_induct)
    case base
    show ?case using assms(2) wr_inv_new by (simp add: section_inv_def new_writer_def)
  next
    case (step a b)
    then have i: "section_inv I sections a" "wr_inv key a" by simp_all
    then have "section_inv I sections b" using section_inv_step [OF step.hyps(2) _ i(1) writes whole] by (simp add: wr_inv_def)
    then show ?case using wr_inv_step [OF step.hyps(2) i(2)] by simp
  qed
  then show ?thesis ..
qed

text \<open>
  Sections are atomic to the writes: what every write and every whole section preserves holds
  whenever a write takes effect, whatever a section does half-way.
\<close>

lemma sections_atomic:
  assumes run: "wr_run key eff sections (new_writer workers s) w" and "I s"
    and "\<And>n s. I s \<Longrightarrow> I (eff n s)" and "\<And>cs s. cs \<in> sections \<Longrightarrow> I s \<Longrightarrow> I (run_section cs s)"
    and n: "map_of (wr_threads w) n = Some b"
  shows "I (wr_store w)"
proof -
  have "section_inv I sections w" using section_inv_run [of key eff sections workers s w I] assms by blast
  moreover have "in_flight w \<noteq> {}" using map_of_key [OF n] by (auto simp: in_flight_def)
  ultimately show ?thesis by (auto simp: section_inv_def split: option.splits)
qed

text \<open>
  The lock scaffold over the memory backend: the store is the backend and the lease the run
  holds. A renewal at time \<open>now\<close> is one call; when it succeeds, binding the new lease is the next.
\<close>

definition renew_call :: "string \<Rightarrow> time \<Rightarrow> node_id list \<Rightarrow> time \<Rightarrow> (memory \<times> lease option) exclusive_call" where
  "renew_call owner ttl_seconds scope now st = (case mem_renew_lock now owner ttl_seconds scope (fst st) of
     (b, Inr l) \<Rightarrow> ((b, Some l), False) | (b, Inl e) \<Rightarrow> ((b, snd st), True))"

definition bind_call :: "(memory \<times> lease option) exclusive_call" where
  "bind_call st = ((mem_bind_lease (snd st) (fst st), snd st), False)"

definition renewals :: "string \<Rightarrow> time \<Rightarrow> node_id list \<Rightarrow> (memory \<times> lease option) exclusive_call list set" where
  "renewals owner ttl_seconds scope = range (\<lambda>now. [renew_call owner ttl_seconds scope now, bind_call])"

definition row_write :: "(nat \<Rightarrow> time) \<Rightarrow> (nat \<Rightarrow> state_node) \<Rightarrow> nat \<Rightarrow> memory \<times> lease option \<Rightarrow> memory \<times> lease option" where
  "row_write clock row n st = (fst (mem_put (clock n) (row n) (fst st)), snd st)"

text \<open>The bound lease is the one held, and no hold of its owner is newer.\<close>

definition bound_is_newest :: "string \<Rightarrow> memory \<times> lease option \<Rightarrow> bool" where
  "bound_is_newest owner st \<longleftrightarrow> (\<exists>l. snd st = Some l \<and> mbound (fst st) = Some l \<and> lowner l = owner \<and>
     (\<forall>(i, cur) \<in> set (mholds (fst st)). lfence cur \<le> mfence (fst st) \<and> (lowner cur = owner \<longrightarrow> lfence cur \<le> lfence l)))"

lemma row_write_newest: "bound_is_newest owner st \<Longrightarrow> bound_is_newest owner (row_write clock row n st)"
proof -
  have "mbound (fst (mem_put now r b)) = mbound b \<and> mfence (fst (mem_put now r b)) = mfence b" for now r b
    by (simp add: mem_put_def checked_fst mem_store_def)
  then show "bound_is_newest owner st \<Longrightarrow> bound_is_newest owner (row_write clock row n st)"
    by (simp add: bound_is_newest_def row_write_def)
qed

lemma fold_update_in: "(j, x) \<in> set (fold (\<lambda>i. AList.update i l) is m) \<Longrightarrow> x = l \<or> (j, x) \<in> set m"
proof (induction "is" arbitrary: m)
  case (Cons i "is")
  then show ?case using set_AList_update [of i l m] by fastforce
qed simp

lemma acquire_newest:
  assumes "mem_acquire_lock now owner t scope b = (b', Inr l)" and "\<forall>(i, cur) \<in> set (mholds b). lfence cur \<le> mfence b"
  shows "bound_is_newest owner (mem_bind_lease (Some l) b', Some l)"
proof -
  have b': "l = minted_lease owner (now + t) scope (mfence b + 1)" "mfence b' = mfence b + 1"
      "mholds b' = fold (\<lambda>i. AList.update i l) scope (mholds b)"
    using assms(1) by (auto simp: mem_acquire_lock_def Let_def split: option.splits)
  have "lfence cur \<le> mfence b' \<and> (lowner cur = owner \<longrightarrow> lfence cur \<le> lfence l)" if "(i, cur) \<in> set (mholds b')" for i cur
    using that fold_update_in [of i cur l scope "mholds b"] assms(2) unfolding b'(3) b'(2) by (auto simp: b'(1) minted_lease_def)
  then show ?thesis using b'(1) by (auto simp: bound_is_newest_def mem_bind_lease_def minted_lease_def)
qed

lemma renewal_newest:
  assumes "cs \<in> renewals owner t scope" and "bound_is_newest owner st"
  shows "bound_is_newest owner (run_section cs st)"
proof -
  obtain now where cs: "cs = [renew_call owner t scope now, bind_call]" using assms(1) by (auto simp: renewals_def)
  obtain b' r where b': "mem_acquire_lock now owner t scope (fst st) = (b', r)" by fastforce
  show ?thesis
  proof (cases r)
    case (Inl e)
    then have "b' = fst st" using b' by (auto simp: mem_acquire_lock_def Let_def split: option.splits)
    then show ?thesis using assms(2) b' Inl by (simp add: cs renew_call_def mem_renew_lock_def)
  next
    case (Inr l)
    have "\<forall>(i, cur) \<in> set (mholds (fst st)). lfence cur \<le> mfence (fst st)" using assms(2) by (auto simp: bound_is_newest_def)
    then have "bound_is_newest owner (mem_bind_lease (Some l) b', Some l)" using acquire_newest [of now owner t scope "fst st" b' l] b' Inr by simp
    then show ?thesis using b' Inr by (simp add: cs renew_call_def bind_call_def mem_renew_lock_def)
  qed
qed

text \<open>
  C35: No write carries a superseded lease. A run acquires its lock, binds the lease and writes
  through the state writer, while the heartbeat renews and rebinds, any number of times and at
  any moment, successfully or not. Whatever the threads do, a write that takes effect is never
  refused because a newer lease of its own run superseded the one it carries.
\<close>

theorem no_write_superseded:
  assumes "mem_acquire_lock now owner t scope b = (b', Inr l)" and "\<forall>(i, cur) \<in> set (mholds b). lfence cur \<le> mfence b"
    and "wr_run key (row_write clock row) (renewals owner t scope) (new_writer workers (mem_bind_lease (Some l) b', Some l)) w"
    and "map_of (wr_threads w) n = Some False"
  shows "snd (mem_put (clock n) (row n) (fst (wr_store w))) \<noteq> Inl (FencedWriteError ''superseded by a newer lease'' [sid (row n)])"
proof
  assume no: "snd (mem_put (clock n) (row n) (fst (wr_store w))) = Inl (FencedWriteError ''superseded by a newer lease'' [sid (row n)])"
  have "bound_is_newest owner (wr_store w)"
    by (rule sections_atomic [OF assms(3) _ _ _ assms(4)]) (use acquire_newest [OF assms(1,2)] row_write_newest renewal_newest in auto)
  then obtain m where m: "mbound (fst (wr_store w)) = Some m" "lowner m = owner"
    "\<forall>(i, cur) \<in> set (mholds (fst (wr_store w))). lowner cur = owner \<longrightarrow> lfence cur \<le> lfence m" by (auto simp: bound_is_newest_def)
  let ?i = "sid (row n)"
  have "fence_one m (mholds (fst (wr_store w))) (clock n) ?i = Some (FencedWriteError ''superseded by a newer lease'' [?i])"
    using no m(1) by (simp add: mem_put_def checked_def mem_check_def fence_violation_def sorted_set_def split: sum.splits option.splits)
  then obtain cur where "map_of (mholds (fst (wr_store w))) ?i = Some cur" "lowner cur = lowner m" "lfence m < lfence cur"
    by (auto simp: fence_one_def split: option.splits if_splits)
  then show False using m(2,3) map_of_SomeD by fastforce
qed

text \<open>A write entered, submitted and taken by a thread.\<close>

definition one_write :: "(nat \<Rightarrow> string option) \<Rightarrow> 's \<Rightarrow> 's writer" where
  "one_write key s = thread_starts (run_submits 0 (run_enters key 0 (new_writer 1 s)))"

lemmas one_write_defs = new_writer_def run_enters_def run_submits_def thread_starts_def take_turn_def
  has_turn_def turn_queue_def try_shared_def new_gate_def

lemma one_write_run:
  "wr_run key eff sections (new_writer 1 s) (one_write key s)" "wr_threads (one_write key s) = [(0, False)]"
  "wr_gate (one_write key s) = try_shared 1 new_gate"
proof -
  let ?a = "new_writer 1 s" and ?b = "run_enters key 0 (new_writer 1 s)"
  have "wr_step key eff sections ?a ?b" by (rule wr_step.enters) (simp_all add: one_write_defs)
  moreover have "wr_step key eff sections ?b (run_submits 0 ?b)"
    by (rule wr_step.submits) (auto simp: one_write_defs split: option.splits)
  moreover have "wr_step key eff sections (run_submits 0 ?b) (one_write key s)"
    unfolding one_write_def by (rule wr_step.starts) (simp_all add: one_write_defs)
  ultimately show "wr_run key eff sections (new_writer 1 s) (one_write key s)"
    by (meson converse_rtranclp_into_rtranclp rtranclp.rtrancl_refl)
qed (simp_all add: one_write_def one_write_defs)

theorem keyed_writes_in_order_witness:
  "\<exists>rest. of_key (\<lambda>n. Some ''vpc'') ''vpc'' (filter (\<lambda>n. n \<notin> wr_cancelled (one_write (\<lambda>n. Some ''vpc'') (0::nat)))
      (wr_entered (one_write (\<lambda>n. Some ''vpc'') (0::nat)))) =
    of_key (\<lambda>n. Some ''vpc'') ''vpc'' (wr_landed (one_write (\<lambda>n. Some ''vpc'') (0::nat))) @ rest"
  by (rule keyed_writes_in_order [OF one_write_run(1)])

definition vpc_row :: state_node where
  "vpc_row = \<lparr>sid = ''vpc'', stype = ''aws.vpc'', sprovider = ''aws'', sprovider_version = ''1'', sinput_hash = ''h'', soutputs = [],
     sproperties = [], sdependencies = [], sprevent_destroy = False, sstatus = CREATED, ssecret_digests = [], sref_digests = [],
     sdepends_on = []\<rparr>"

theorem no_write_superseded_witness:
  "snd (mem_put 1 vpc_row (fst (wr_store (one_write (\<lambda>n. Some ''vpc'') (mem_bind_lease (Some (minted_lease ''me'' 60 [''vpc''] 1))
      (fst (mem_acquire_lock 0 ''me'' 60 [''vpc''] new_memory)), Some (minted_lease ''me'' 60 [''vpc''] 1))))))
    \<noteq> Inl (FencedWriteError ''superseded by a newer lease'' [sid vpc_row])"
proof (rule no_write_superseded [where clock = "\<lambda>_. 1" and row = "\<lambda>_. vpc_row", OF _ _ one_write_run(1)])
  show "mem_acquire_lock 0 ''me'' 60 [''vpc''] new_memory =
      (fst (mem_acquire_lock 0 ''me'' 60 [''vpc''] new_memory), Inr (minted_lease ''me'' 60 [''vpc''] 1))"
    by (simp add: mem_acquire_lock_def new_memory_def scope_conflict_def sorted_set_def Let_def)
qed (simp_all add: new_memory_def one_write_run(2))

subsection \<open>A call gets its turn\<close>

text \<open>How much the pool and the gate can still do while the loop waits in a call.\<close>

fun gate_rank :: "stage \<Rightarrow> nat" where
  "gate_rank Away = 3" | "gate_rank (WaitsExclusive Woken) = 2" | "gate_rank (WaitsExclusive Asleep) = 1" | "gate_rank p = 0"

definition threads_left :: "(nat \<times> bool) list \<Rightarrow> nat" where
  "threads_left ts = sum_list (map (\<lambda>(n, landed). if landed then 1 else 2) ts)"

definition wr_left :: "'s writer \<Rightarrow> nat" where
  "wr_left w = 4 * (3 * length (wr_pool w) + threads_left (wr_threads w)) + gate_rank (stages (wr_gate w) 0)"

lemma threads_left_update: "map_of ts n = Some False \<Longrightarrow> threads_left ts = threads_left (AList.update n True ts) + 1"
  by (induction ts) (auto simp: threads_left_def split: if_splits)

lemma threads_left_delete: "map_of ts n = Some True \<Longrightarrow> distinct (map fst ts) \<Longrightarrow> threads_left ts = threads_left (AList.delete n ts) + 1"
proof (induction ts)
  case (Cons x ts)
  show ?case
  proof (cases "fst x = n")
    case True
    then have "AList.delete n ts = ts" using Cons.prems(2) by (simp add: delete_id)
    then show ?thesis using True Cons.prems(1) by (cases x) (simp add: threads_left_def)
  next
    case False
    then show ?thesis using Cons by (cases x) (auto simp: threads_left_def)
  qed
qed simp

lemma gate_rank_wake: "gate_rank (wake p) \<le> gate_rank p + 1"
  by (cases p rule: gate_rank.cases) auto

lemma waiting_step_decreases:
  assumes step: "wr_step key eff sections w w'" and g: "gate_inv w" and sec: "wr_section w = Some (c # cs)"
    and wait: "stages (wr_gate w) 0 \<noteq> HoldsExclusive"
  shows "wr_section w' = Some (c # cs) \<and> wr_left w' < wr_left w"
  using step
proof (cases rule: wr_step.cases)
  case starts
  then show ?thesis using sec by (cases "wr_pool w") (auto simp: wr_left_def thread_starts_def threads_left_def)
next
  case (lands n)
  then show ?thesis using sec threads_left_update [OF lands(2)] by (simp add: wr_left_def write_lands_def)
next
  case (drains n)
  have "gate_rank (stages (release_shared (Suc n) (wr_gate w)) 0) \<le> gate_rank (stages (wr_gate w) 0) + 1"
    using gate_rank_wake by (simp add: release_shared_def Let_def)
  then show ?thesis using drains sec threads_left_delete [OF drains(2)] g by (simp add: wr_left_def write_drains_def gate_inv_def)
next
  case (call_waits d ds)
  have "gate_rank (stages (enter_exclusive 0 (wr_gate w)) 0) < 3" by (simp add: enter_exclusive_def try_exclusive_def)
  then show ?thesis using call_waits sec by (simp add: wr_left_def)
next
  case (call_wakes d ds)
  have "gate_rank (stages (try_exclusive 0 (wr_gate w)) 0) < 2" by (simp add: try_exclusive_def)
  then show ?thesis using call_wakes sec by (simp add: wr_left_def)
qed (use sec wait in simp_all)

lemma waiting_step_possible:
  assumes g: "gate_inv w" and sec: "wr_section w = Some (c # cs)"
    and wait: "stages (wr_gate w) 0 \<noteq> HoldsExclusive" and workers: "0 < wr_workers w"
  shows "\<exists>w'. wr_step key eff sections w w'"
proof (cases "in_flight w = {}")
  case False
  show ?thesis
  proof (cases "wr_threads w")
    case Nil
    then have "wr_pool w \<noteq> []" using False by (auto simp: in_flight_def)
    then show ?thesis using Nil workers wr_step.starts [of w key eff sections] by auto
  next
    case (Cons x ts)
    obtain n landed where "x = (n, landed)" by fastforce
    then show ?thesis using Cons wr_step.lands [of w n key eff sections] wr_step.drains [of w n key eff sections] by (cases landed) auto
  qed
next
  case True
  have ok: "gate_ok (wr_gate w)" using g by (simp add: gate_inv_def)
  have away: "stages (wr_gate w) (Suc n) = Away" for n using g True by (simp add: gate_inv_def)
  have zero: "stages (wr_gate w) 0 = Away \<or> waits_exclusive (stages (wr_gate w) 0)" using g wait by (auto simp: gate_inv_def)
  have "stages (wr_gate w) t \<noteq> HoldsShared \<and> stages (wr_gate w) t \<noteq> HoldsExclusive" for t
    using zero away by (cases t) auto
  then have "sharers (wr_gate w) = {}" "excluders (wr_gate w) = {}" by (simp_all add: at_stage_def)
  then have free: "shared (wr_gate w) = 0" "\<not> exclusive (wr_gate w)" using gate_ok_sets [OF ok] by simp_all
  then have "stages (wr_gate w) 0 \<noteq> WaitsExclusive Asleep" using gate_ok_sleep(2) [OF ok, of 0] by auto
  then consider "stages (wr_gate w) 0 = Away" | "stages (wr_gate w) 0 = WaitsExclusive Woken"
    using zero by (cases "stages (wr_gate w) 0" rule: gate_rank.cases) auto
  then show ?thesis using wr_step.call_waits [OF sec] wr_step.call_wakes [OF sec] by cases blast+
qed

lemma wr_workers_run: "wr_run key eff sections w w' \<Longrightarrow> wr_workers w' = wr_workers w"
proof (induction rule: rtranclp_induct)
  case (step a b)
  from step.hyps(2) have "wr_workers b = wr_workers a"
    by (cases rule: wr_step.cases) (simp_all add: run_enters_def run_submits_def thread_starts_def write_lands_def write_drains_def
        run_returns_def run_cancelled_def call_runs_def)
  then show ?case using step.IH by simp
qed simp

text \<open>
  C36: A call on the loop gets its turn. While the event loop is blocked in a call that is not
  admitted yet, some thread can always go on, and whatever happens is a step of the pool or of
  the gate that uses up one of the finitely many \<open>wr_left\<close>; so the call is admitted after at
  most that many, without the loop.
\<close>

theorem call_gets_its_turn:
  assumes "wr_run key eff sections (new_writer workers s) w" and "0 < workers"
    and "wr_section w = Some (c # cs)" and "stages (wr_gate w) 0 \<noteq> HoldsExclusive"
  shows "(\<exists>w'. wr_step key eff sections w w') \<and>
    (\<forall>w'. wr_step key eff sections w w' \<longrightarrow> wr_section w' = Some (c # cs) \<and> wr_left w' < wr_left w)"
proof -
  have "gate_inv w" using wr_run_inv [OF assms(1) wr_inv_new] by (simp add: wr_inv_def)
  moreover have "0 < wr_workers w" using wr_workers_run [OF assms(1)] assms(2) by (simp add: new_writer_def)
  ultimately show ?thesis using waiting_step_possible waiting_step_decreases assms(3,4) by blast
qed

definition loop_blocked :: "nat writer" where
  "loop_blocked = one_write (\<lambda>n. None) 0\<lparr>wr_section := Some [\<lambda>s. (s, False)]\<rparr>"

theorem call_gets_its_turn_witness:
  "\<exists>w'. wr_step (\<lambda>n. None) (\<lambda>n s. s + 1) {[\<lambda>s. (s, False)]} loop_blocked w'"
proof -
  have "wr_step (\<lambda>n. None) (\<lambda>n s. s + 1) {[\<lambda>s. (s, False)]} (one_write (\<lambda>n. None) 0) loop_blocked"
    unfolding loop_blocked_def by (rule wr_step.section_begins) (simp_all add: one_write_def one_write_defs)
  with one_write_run(1) have run: "wr_run (\<lambda>n. None) (\<lambda>n s. s + 1) {[\<lambda>s. (s, False)]} (new_writer 1 0) loop_blocked"
    by (rule rtranclp.rtrancl_into_rtrancl)
  have "wr_section loop_blocked = Some [\<lambda>s. (s, False)]" "stages (wr_gate loop_blocked) 0 \<noteq> HoldsExclusive"
    using one_write_run(3) [of "\<lambda>n. None" "0::nat"] by (simp_all add: loop_blocked_def try_shared_def new_gate_def)
  from call_gets_its_turn [OF run _ this] show ?thesis by simp
qed

end
