(* ===== verification/LangAst.thy ===== *)
theory LangAst
  imports PyValue
begin

text \<open>
  The syntax trees of Python's \<open>ast\<close> module, as the validator and the interpreter of the
  configuration language take them apart (\<open>lang/\<close>). A node type the language does not have is
  \<open>OtherExpr\<close> or \<open>OtherStmt\<close> with its name. Source positions, which only error messages use, are
  left out, and so are the load and store contexts.
\<close>

datatype binop = Add | Sub | Mult | Div | FloorDiv | Mod | Pow | LShift | RShift | BitOr | BitAnd | BitXor | MatMult

datatype unaryop = UAdd | USub | Invert | LNot

datatype boolop = BAnd | BOr

datatype cmpop = Eq | NotEq | Lt | LtE | Gt | GtE | Is | IsNot | In | NotIn

datatype const = CNone | CBool bool | CInt int | CFloat pyfloat | CStr string | CBytes string | CEllipsis

datatype expr =
    Constant const
  | Name string
  | JoinedStr "expr list"
  | FormattedValue expr int "expr option"
  | BinOp expr binop expr
  | UnaryOp unaryop expr
  | BoolOp boolop "expr list"
  | Compare expr "(cmpop \<times> expr) list"
  | IfExp expr expr expr
  | Call expr "expr list" "(string option \<times> expr) list"
  | Attribute expr string
  | Subscript expr expr
  | Slice "expr option" "expr option" "expr option"
  | EList "expr list"
  | ETuple "expr list"
  | ESet "expr list"
  | EDict "(expr option \<times> expr) list"
  | ListComp expr "comprehension list"
  | SetComp expr "comprehension list"
  | DictComp expr expr "comprehension list"
  | GeneratorExp expr "comprehension list"
  | Lambda params expr
  | Starred expr
  | OtherExpr string "expr list"
and comprehension = Comprehension expr expr "expr list" bool
and params = Params "string list" "(string \<times> expr option) list" "string option" "string list" "string option" "expr list"

type_synonym import_alias = "string \<times> string option"

datatype stmt =
    FunctionDef string params "stmt list" "expr list" "expr option" "string list"
  | Return "expr option"
  | Assign "expr list" expr
  | AnnAssign expr expr "expr option" bool
  | AugAssign expr binop expr
  | ExprStmt expr
  | If expr "stmt list" "stmt list"
  | For expr expr "stmt list" "stmt list"
  | Pass
  | Break
  | Continue
  | Import "import_alias list"
  | ImportFrom "string option" "import_alias list" nat
  | With "(expr \<times> expr option) list" "stmt list"
  | ClassDef string "expr list" "(string option \<times> expr) list" "stmt list" "expr list" "string list"
  | OtherStmt string "expr list" "stmt list"

text \<open>The names of the node types.\<close>

definition binop_name :: "binop \<Rightarrow> string" where
  "binop_name op = (case op of Add \<Rightarrow> ''Add'' | Sub \<Rightarrow> ''Sub'' | Mult \<Rightarrow> ''Mult'' | Div \<Rightarrow> ''Div'' | FloorDiv \<Rightarrow> ''FloorDiv''
     | Mod \<Rightarrow> ''Mod'' | Pow \<Rightarrow> ''Pow'' | LShift \<Rightarrow> ''LShift'' | RShift \<Rightarrow> ''RShift'' | BitOr \<Rightarrow> ''BitOr'' | BitAnd \<Rightarrow> ''BitAnd''
     | BitXor \<Rightarrow> ''BitXor'' | MatMult \<Rightarrow> ''MatMult'')"

definition unaryop_name :: "unaryop \<Rightarrow> string" where
  "unaryop_name op = (case op of UAdd \<Rightarrow> ''UAdd'' | USub \<Rightarrow> ''USub'' | Invert \<Rightarrow> ''Invert'' | LNot \<Rightarrow> ''Not'')"

definition boolop_name :: "boolop \<Rightarrow> string" where
  "boolop_name op = (case op of BAnd \<Rightarrow> ''And'' | BOr \<Rightarrow> ''Or'')"

definition cmpop_name :: "cmpop \<Rightarrow> string" where
  "cmpop_name op = (case op of Eq \<Rightarrow> ''Eq'' | NotEq \<Rightarrow> ''NotEq'' | Lt \<Rightarrow> ''Lt'' | LtE \<Rightarrow> ''LtE'' | Gt \<Rightarrow> ''Gt'' | GtE \<Rightarrow> ''GtE''
     | Is \<Rightarrow> ''Is'' | IsNot \<Rightarrow> ''IsNot'' | In \<Rightarrow> ''In'' | NotIn \<Rightarrow> ''NotIn'')"

definition expr_name :: "expr \<Rightarrow> string" where
  "expr_name e = (case e of Constant _ \<Rightarrow> ''Constant'' | Name _ \<Rightarrow> ''Name'' | JoinedStr _ \<Rightarrow> ''JoinedStr''
     | FormattedValue _ _ _ \<Rightarrow> ''FormattedValue'' | BinOp _ _ _ \<Rightarrow> ''BinOp'' | UnaryOp _ _ \<Rightarrow> ''UnaryOp'' | BoolOp _ _ \<Rightarrow> ''BoolOp''
     | Compare _ _ \<Rightarrow> ''Compare'' | IfExp _ _ _ \<Rightarrow> ''IfExp'' | Call _ _ _ \<Rightarrow> ''Call'' | Attribute _ _ \<Rightarrow> ''Attribute''
     | Subscript _ _ \<Rightarrow> ''Subscript'' | Slice _ _ _ \<Rightarrow> ''Slice'' | EList _ \<Rightarrow> ''List'' | ETuple _ \<Rightarrow> ''Tuple'' | ESet _ \<Rightarrow> ''Set''
     | EDict _ \<Rightarrow> ''Dict'' | ListComp _ _ \<Rightarrow> ''ListComp'' | SetComp _ _ \<Rightarrow> ''SetComp'' | DictComp _ _ _ \<Rightarrow> ''DictComp''
     | GeneratorExp _ _ \<Rightarrow> ''GeneratorExp'' | Lambda _ _ \<Rightarrow> ''Lambda'' | Starred _ \<Rightarrow> ''Starred'' | OtherExpr n _ \<Rightarrow> n)"

definition stmt_name :: "stmt \<Rightarrow> string" where
  "stmt_name s = (case s of FunctionDef _ _ _ _ _ _ \<Rightarrow> ''FunctionDef'' | Return _ \<Rightarrow> ''Return'' | Assign _ _ \<Rightarrow> ''Assign''
     | AnnAssign _ _ _ _ \<Rightarrow> ''AnnAssign'' | AugAssign _ _ _ \<Rightarrow> ''AugAssign'' | ExprStmt _ \<Rightarrow> ''Expr'' | If _ _ _ \<Rightarrow> ''If''
     | For _ _ _ _ \<Rightarrow> ''For'' | Pass \<Rightarrow> ''Pass'' | Break \<Rightarrow> ''Break'' | Continue \<Rightarrow> ''Continue'' | Import _ \<Rightarrow> ''Import''
     | ImportFrom _ _ _ \<Rightarrow> ''ImportFrom'' | With _ _ \<Rightarrow> ''With'' | ClassDef _ _ _ _ _ _ \<Rightarrow> ''ClassDef'' | OtherStmt n _ _ \<Rightarrow> n)"

subsection \<open>Subexpressions\<close>

fun comp_children :: "comprehension \<Rightarrow> expr list" where
  "comp_children (Comprehension target it ifs is_async) = target # it # ifs"

fun opt_list :: "'a option \<Rightarrow> 'a list" where
  "opt_list None = []" | "opt_list (Some x) = [x]"

fun param_children :: "params \<Rightarrow> expr list" where
  "param_children (Params posonly args vararg kwonly kwarg defaults) = concat (map (opt_list \<circ> snd) args) @ defaults"

fun children_of :: "expr \<Rightarrow> expr list" where
  "children_of (Constant c) = []"
| "children_of (Name x) = []"
| "children_of (JoinedStr es) = es"
| "children_of (FormattedValue e c spec) = e # opt_list spec"
| "children_of (BinOp l op r) = [l, r]"
| "children_of (UnaryOp op e) = [e]"
| "children_of (BoolOp op es) = es"
| "children_of (Compare e rest) = e # map snd rest"
| "children_of (IfExp t a b) = [t, a, b]"
| "children_of (Call f args kws) = f # args @ map snd kws"
| "children_of (Attribute e a) = [e]"
| "children_of (Subscript e k) = [e, k]"
| "children_of (Slice a b c) = opt_list a @ opt_list b @ opt_list c"
| "children_of (EList es) = es"
| "children_of (ETuple es) = es"
| "children_of (ESet es) = es"
| "children_of (EDict items) = concat (map (opt_list \<circ> fst) items) @ map snd items"
| "children_of (ListComp e gens) = e # concat (map comp_children gens)"
| "children_of (SetComp e gens) = e # concat (map comp_children gens)"
| "children_of (DictComp k v gens) = k # v # concat (map comp_children gens)"
| "children_of (GeneratorExp e gens) = e # concat (map comp_children gens)"
| "children_of (Lambda ps body) = param_children ps @ [body]"
| "children_of (Starred e) = [e]"
| "children_of (OtherExpr n es) = es"

lemma opt_list_iff [simp]: "x \<in> set (opt_list m) \<longleftrightarrow> m = Some x"
  by (cases m) auto

lemma size_in_list: "x \<in> set xs \<Longrightarrow> f x \<le> size_list f xs"
  by (induction xs) auto

lemma size_comp_children: "x \<in> set (comp_children g) \<Longrightarrow> size x < size g"
  by (cases g) (auto dest: size_in_list [where f = size])

lemma size_param_children: "x \<in> set (param_children ps) \<Longrightarrow> size x < size ps"
  by (cases ps) (fastforce dest: size_in_list [where f = size] size_in_list [where f = "size_prod (\<lambda>_. 0) (size_option size)"])

lemma size_children: "x \<in> set (children_of e) \<Longrightarrow> size x < size e"
proof (cases e)
  case (ListComp a gens)
  assume "x \<in> set (children_of e)"
  then show ?thesis using ListComp size_comp_children size_in_list [where f = size and xs = gens] by fastforce
next
  case (SetComp a gens)
  assume "x \<in> set (children_of e)"
  then show ?thesis using SetComp size_comp_children size_in_list [where f = size and xs = gens] by fastforce
next
  case (GeneratorExp a gens)
  assume "x \<in> set (children_of e)"
  then show ?thesis using GeneratorExp size_comp_children size_in_list [where f = size and xs = gens] by fastforce
next
  case (DictComp a b gens)
  assume "x \<in> set (children_of e)"
  then show ?thesis using DictComp size_comp_children size_in_list [where f = size and xs = gens] by fastforce
next
  case (Lambda ps body)
  assume "x \<in> set (children_of e)"
  then show ?thesis using Lambda size_param_children [of x ps] by auto
next
  case (EDict items)
  assume "x \<in> set (children_of e)"
  then show ?thesis using EDict size_in_list [where f = "size_prod (size_option size) size" and xs = items] by fastforce
next
  case (Compare a rest)
  assume "x \<in> set (children_of e)"
  then show ?thesis using Compare size_in_list [where f = "size_prod (\<lambda>_. 0) size" and xs = rest] by fastforce
next
  case (Call f args kws)
  assume "x \<in> set (children_of e)"
  then show ?thesis using Call size_in_list [where f = "size_prod (\<lambda>_. 0) size" and xs = kws] size_in_list [where f = size and xs = args] by fastforce
qed (fastforce dest: size_in_list [where f = size])+

function subexprs :: "expr \<Rightarrow> expr list" where
  "subexprs e = e # concat (map subexprs (children_of e))"
  by auto
termination by (relation "measure size") (auto dest: size_children)

declare subexprs.simps [simp del]

lemma subexprs_iff: "x \<in> set (subexprs e) \<longleftrightarrow> x = e \<or> (\<exists>c \<in> set (children_of e). x \<in> set (subexprs c))"
  by (subst subexprs.simps) auto

end
