(* ===== verification/LangValidate.thy ===== *)
theory LangValidate
  imports LangAst
begin

text \<open>
  What a configuration may write (\<open>lang/validate\<close>): the import allow-list, the node, name and
  attribute rules, the one class shape, and the visitor that applies them to a parsed module. A
  check is \<open>None\<close> or the first rejection, in the visitor's order.
\<close>

type_synonym verdict = "aerror option"

abbreviation reject :: "string \<Rightarrow> string list \<Rightarrow> verdict" where
  "reject what who \<equiv> Some (LanguageError what who)"

fun checks :: "verdict list \<Rightarrow> verdict" where
  "checks [] = None"
| "checks (v # vs) = (case v of None \<Rightarrow> checks vs | Some e \<Rightarrow> Some e)"

lemma checks_None [simp]: "checks vs = None \<longleftrightarrow> (\<forall>v \<in> set vs. v = None)"
  by (induction vs) (auto split: option.splits)

lemma checks_Some: "checks vs = Some e \<Longrightarrow> Some e \<in> set vs"
  by (induction vs) (auto split: option.splits)

declare checks.simps [simp del]

subsection \<open>Imports\<close>

definition has_prefix :: "string \<Rightarrow> string \<Rightarrow> bool" where
  "has_prefix p s = (take (length p) s = p)"

fun split_dots :: "string \<Rightarrow> string list" where
  "split_dots [] = [[]]"
| "split_dots (c # cs) = (if c = CHR ''.'' then [] # split_dots cs
     else (case split_dots cs of [] \<Rightarrow> [[c]] | s # ss \<Rightarrow> (c # s) # ss))"

definition IMPORT_PREFIX :: string where "IMPORT_PREFIX = ''atlantide''"

definition ALLOWED_IMPORT_PREFIXES :: "string list" where
  "ALLOWED_IMPORT_PREFIXES = [''atlantide.core'', ''atlantide.policy'', ''atlantide.providers'', ''atlantide.components'']"

definition FORBIDDEN_IMPORT_MODULES :: "string list" where
  "FORBIDDEN_IMPORT_MODULES = [''atlantide.components.fetch'', ''atlantide.components.lock'', ''atlantide.components.source'',
     ''atlantide.core.logging'', ''atlantide.core.plugin'', ''atlantide.core.tuning'', ''atlantide.providers.loader'',
     ''atlantide.providers.local.paths'', ''atlantide.providers.aws.config'']"

definition FORBIDDEN_CORE_NAMES :: "string list" where
  "FORBIDDEN_CORE_NAMES = [''active_registry'', ''collecting'', ''ResourceRegistry'', ''inline_stack_outputs'', ''selecting'',
     ''current_selection'', ''EnvSelection'', ''ProviderRegistry'', ''check_compatible'', ''parse_semver'', ''Context'', ''Provider'']"

definition FORBIDDEN_IMPORT_SEGMENTS :: "string list" where
  "FORBIDDEN_IMPORT_SEGMENTS = [''provider'', ''handlers'']"

definition is_private_segment :: "string \<Rightarrow> bool" where
  "is_private_segment s = has_prefix ''_'' s"

definition at_or_below :: "string \<Rightarrow> string \<Rightarrow> bool" where
  "at_or_below p m = (m = p \<or> has_prefix (p @ ''.'') m)"

definition is_atlantide_module :: "string \<Rightarrow> bool" where
  "is_atlantide_module m = at_or_below IMPORT_PREFIX m"

text \<open>A \<open>LanguageSurface\<close> is the prefixes plugins add.\<close>

definition surface_prefixes :: "string list \<Rightarrow> string list" where
  "surface_prefixes extra = ALLOWED_IMPORT_PREFIXES @ sorted_set extra"

definition import_allowed :: "string list \<Rightarrow> string option \<Rightarrow> bool" where
  "import_allowed extra target = (case target of None \<Rightarrow> False
     | Some m \<Rightarrow> m \<noteq> [] \<and> (m = IMPORT_PREFIX \<or>
         (list_ex (\<lambda>p. at_or_below p m) (surface_prefixes extra) \<and>
          \<not> list_ex (\<lambda>f. at_or_below f m) FORBIDDEN_IMPORT_MODULES \<and>
          \<not> list_ex is_private_segment (split_dots m) \<and>
          \<not> list_ex (\<lambda>s. s \<in> set FORBIDDEN_IMPORT_SEGMENTS) (split_dots m))))"

subsection \<open>Rules\<close>

definition ALLOWED_NODES :: "string list" where
  "ALLOWED_NODES = [''Module'', ''FunctionDef'', ''Return'', ''Assign'', ''AnnAssign'', ''AugAssign'', ''Expr'', ''If'', ''For'', ''Pass'',
     ''Break'', ''Continue'', ''Import'', ''ImportFrom'', ''alias'', ''With'', ''withitem'', ''Constant'', ''Name'', ''FormattedValue'',
     ''JoinedStr'', ''BinOp'', ''UnaryOp'', ''BoolOp'', ''Compare'', ''IfExp'', ''Call'', ''keyword'', ''Attribute'', ''Subscript'', ''Slice'',
     ''List'', ''Tuple'', ''Set'', ''Dict'', ''ListComp'', ''SetComp'', ''DictComp'', ''GeneratorExp'', ''comprehension'', ''Lambda'',
     ''Starred'', ''arguments'', ''arg'', ''Load'', ''Store'', ''Add'', ''Sub'', ''Mult'', ''Div'', ''FloorDiv'', ''Mod'', ''Pow'', ''LShift'',
     ''RShift'', ''BitOr'', ''BitAnd'', ''BitXor'', ''And'', ''Or'', ''Not'', ''USub'', ''UAdd'', ''Invert'', ''Eq'', ''NotEq'', ''Lt'', ''LtE'',
     ''Gt'', ''GtE'', ''In'', ''NotIn'', ''Is'', ''IsNot'']"

definition FORBIDDEN_NAMES :: "string list" where
  "FORBIDDEN_NAMES = [''eval'', ''exec'', ''compile'', ''open'', ''__import__'', ''globals'', ''locals'', ''vars'', ''getattr'', ''setattr'',
     ''delattr'', ''hasattr'', ''breakpoint'', ''input'', ''memoryview'', ''type'', ''super'', ''object'']"

definition FORBIDDEN_ATTRS :: "string list" where
  "FORBIDDEN_ATTRS = [''format'', ''format_map'']"

definition MODEL_API_ATTRS :: "string list" where
  "MODEL_API_ATTRS = [''construct'', ''from_orm'', ''model_computed_fields'', ''model_config'', ''model_construct'', ''model_copy'',
     ''model_dump'', ''model_dump_json'', ''model_extra'', ''model_fields'', ''model_fields_set'', ''model_json_schema'',
     ''model_parametrized_name'', ''model_post_init'', ''model_rebuild'', ''model_validate'', ''model_validate_json'',
     ''model_validate_strings'', ''parse_file'', ''parse_obj'', ''parse_raw'', ''schema_json'', ''update_forward_refs'']"

text \<open>
  The public attributes of generators, coroutines, frames, tracebacks, code objects and cells:
  those the running interpreter has, \<open>dirs kind\<close> being \<open>dir()\<close> of the type, and those listed for an
  interpreter that lacks them.
\<close>

definition INTERNAL_ATTRS :: "(string \<Rightarrow> string list) \<Rightarrow> string list" where
  "INTERNAL_ATTRS dirs = concat (map (\<lambda>(kind, prefix). filter (has_prefix prefix) (dirs kind))
     [(''generator'', ''gi_''), (''coroutine'', ''cr_''), (''async_generator'', ''ag_''), (''frame'', ''f_''), (''traceback'', ''tb_''),
      (''code'', ''co_''), (''cell'', ''cell_'')]) @
     [''gi_frame'', ''gi_code'', ''gi_yieldfrom'', ''cr_frame'', ''cr_code'', ''cr_await'', ''ag_frame'', ''ag_code'', ''ag_await'',
      ''f_globals'', ''f_locals'', ''f_builtins'', ''f_back'', ''f_code'', ''tb_frame'', ''tb_next'', ''cell_contents'']"

definition attribute_rejection :: "(string \<Rightarrow> string list) \<Rightarrow> string \<Rightarrow> verdict" where
  "attribute_rejection dirs name = (if has_prefix ''__'' name then reject ''dunder attribute'' [name]
     else if has_prefix ''_'' name then reject ''private attribute'' [name]
     else if name \<in> set FORBIDDEN_ATTRS \<union> set MODEL_API_ATTRS \<union> set (INTERNAL_ATTRS dirs) then reject ''attribute not allowed'' [name]
     else None)"

definition check_allowed :: "string \<Rightarrow> verdict" where
  "check_allowed name = (if name \<in> set ALLOWED_NODES then None else reject ''construct not allowed'' [name])"

definition check_name :: "string \<Rightarrow> verdict" where
  "check_name x = (if has_prefix ''__'' x then reject ''dunder name'' [x]
     else if x \<in> set FORBIDDEN_NAMES then reject ''name not allowed'' [x] else None)"

definition check_params :: "params \<Rightarrow> verdict" where
  "check_params ps = (case ps of Params posonly args vararg kwonly kwarg defaults \<Rightarrow>
     if vararg \<noteq> None then reject ''* parameters'' []
     else if kwarg \<noteq> None then reject ''** parameters'' []
     else if kwonly \<noteq> [] then reject ''keyword-only parameters'' []
     else if posonly \<noteq> [] then reject ''positional-only parameters'' []
     else None)"

subsection \<open>Expressions\<close>

text \<open>
  What the visitor does at a node before its children: the node's own rule, and the operators,
  keywords, comprehension and argument nodes it meets. Where their place among the children
  matters, \<open>check_expr\<close> keeps it.
\<close>

fun check_expr :: "(string \<Rightarrow> string list) \<Rightarrow> expr \<Rightarrow> verdict" and check_comp :: "(string \<Rightarrow> string list) \<Rightarrow> comprehension \<Rightarrow> verdict" and check_args :: "(string \<Rightarrow> string list) \<Rightarrow> params \<Rightarrow> verdict" where
  "check_expr dirs (Constant c) = check_allowed ''Constant''"
| "check_expr dirs (Name x) = checks [check_name x, check_allowed ''Name'']"
| "check_expr dirs (JoinedStr es) = checks (check_allowed ''JoinedStr'' # map (check_expr dirs) es)"
| "check_expr dirs (FormattedValue e c spec) = checks ([check_allowed ''FormattedValue'', check_expr dirs e] @ map (check_expr dirs) (opt_list spec))"
| "check_expr dirs (BinOp l op r) = checks [check_allowed ''BinOp'', check_expr dirs l, check_allowed (binop_name op), check_expr dirs r]"
| "check_expr dirs (UnaryOp op e) = checks [check_allowed ''UnaryOp'', check_allowed (unaryop_name op), check_expr dirs e]"
| "check_expr dirs (BoolOp op es) = checks ([check_allowed ''BoolOp'', check_allowed (boolop_name op)] @ map (check_expr dirs) es)"
| "check_expr dirs (Compare e rest) = checks ([check_allowed ''Compare'', check_expr dirs e] @ map (\<lambda>(op, r). check_allowed (cmpop_name op)) rest @
     map (\<lambda>(op, r). check_expr dirs r) rest)"
| "check_expr dirs (IfExp t a b) = checks [check_allowed ''IfExp'', check_expr dirs t, check_expr dirs a, check_expr dirs b]"
| "check_expr dirs (Call f args kws) = checks ([check_allowed ''Call'', check_expr dirs f] @ map (check_expr dirs) args @
     map (\<lambda>(k, e). checks [check_allowed ''keyword'', check_expr dirs e]) kws)"
| "check_expr dirs (Attribute e a) = checks [attribute_rejection dirs a, check_allowed ''Attribute'', check_expr dirs e]"
| "check_expr dirs (Subscript e k) = checks [check_allowed ''Subscript'', check_expr dirs e, check_expr dirs k]"
| "check_expr dirs (Slice a b c) = checks (check_allowed ''Slice'' # map (check_expr dirs) (opt_list a) @ map (check_expr dirs) (opt_list b) @ map (check_expr dirs) (opt_list c))"
| "check_expr dirs (EList es) = checks (check_allowed ''List'' # map (check_expr dirs) es)"
| "check_expr dirs (ETuple es) = checks (check_allowed ''Tuple'' # map (check_expr dirs) es)"
| "check_expr dirs (ESet es) = checks (check_allowed ''Set'' # map (check_expr dirs) es)"
| "check_expr dirs (EDict items) = checks (check_allowed ''Dict'' # map (\<lambda>(k, v). checks (map (check_expr dirs) (opt_list k))) items @
     map (\<lambda>(k, v). check_expr dirs v) items)"
| "check_expr dirs (ListComp e gens) = checks ([check_allowed ''ListComp'', check_expr dirs e] @ map (check_comp dirs) gens)"
| "check_expr dirs (SetComp e gens) = checks ([check_allowed ''SetComp'', check_expr dirs e] @ map (check_comp dirs) gens)"
| "check_expr dirs (DictComp k v gens) = checks ([check_allowed ''DictComp'', check_expr dirs k, check_expr dirs v] @ map (check_comp dirs) gens)"
| "check_expr dirs (GeneratorExp e gens) = checks ([check_allowed ''GeneratorExp'', check_expr dirs e] @ map (check_comp dirs) gens)"
| "check_expr dirs (Lambda ps body) = checks [check_params ps, check_allowed ''Lambda'', check_args dirs ps, check_expr dirs body]"
| "check_expr dirs (Starred e) = checks [check_allowed ''Starred'', check_expr dirs e]"
| "check_expr dirs (OtherExpr n es) = checks (check_allowed n # map (check_expr dirs) es)"
| "check_comp dirs (Comprehension target it ifs is_async) = checks ([check_allowed ''comprehension'', check_expr dirs target, check_expr dirs it] @ map (check_expr dirs) ifs)"
| "check_args dirs (Params posonly args vararg kwonly kwarg defaults) = checks (check_allowed ''arguments'' #
     map (\<lambda>(x, ann). checks (check_allowed ''arg'' # map (check_expr dirs) (opt_list ann))) args @ map (check_expr dirs) defaults)"

subsection \<open>Statements\<close>

definition SUPPORTED_FIELD_TYPE_NAMES :: "string list" where
  "SUPPORTED_FIELD_TYPE_NAMES = [''str'', ''int'', ''float'', ''bool'', ''list'', ''dict'']"

definition RESERVED_FIELD_NAMES :: "string list" where
  "RESERVED_FIELD_NAMES = [''name'', ''get'', ''as_dict'']"

fun check_annotation :: "expr \<Rightarrow> verdict" where
  "check_annotation (BinOp l BitOr r) = (if r \<noteq> Constant CNone then reject ''only X | None'' [] else check_annotation l)"
| "check_annotation (Subscript e k) = reject ''parameterised generics'' []"
| "check_annotation (Name x) = (if x \<in> set SUPPORTED_FIELD_TYPE_NAMES then None else reject ''unsupported field type'' [x])"
| "check_annotation e = reject ''unsupported field type'' []"

definition is_docstring :: "stmt \<Rightarrow> bool" where
  "is_docstring s = (case s of ExprStmt (Constant (CStr t)) \<Rightarrow> True | _ \<Rightarrow> False)"

definition inherits_env_schema :: "expr list \<Rightarrow> bool" where
  "inherits_env_schema bases = (bases = [Name ''EnvSchema''])"

definition check_field :: "(string \<Rightarrow> string list) \<Rightarrow> string list \<Rightarrow> expr \<Rightarrow> expr \<Rightarrow> expr option \<Rightarrow> bool \<Rightarrow> verdict" where
  "check_field dirs taken target ann val plain = (case target of
     Name field \<Rightarrow> if \<not> plain then reject ''a field must be a plain name'' []
       else if has_prefix ''_'' field then reject ''a field must not start with _'' [field]
       else if field \<in> set RESERVED_FIELD_NAMES then reject ''a field collides with the environment API'' [field]
       else if field \<in> set taken then reject ''a field is declared twice'' [field]
       else checks (check_annotation ann # map (check_expr dirs) (opt_list val))
   | _ \<Rightarrow> reject ''a field must be a plain name'' [])"

fun check_schema_body :: "(string \<Rightarrow> string list) \<Rightarrow> bool \<Rightarrow> string list \<Rightarrow> stmt list \<Rightarrow> verdict" where
  "check_schema_body dirs first taken [] = None"
| "check_schema_body dirs first taken (s # ss) =
     (if s = Pass \<or> (first \<and> is_docstring s) then check_schema_body dirs False taken ss
      else (case s of
          AnnAssign target ann val plain \<Rightarrow> (case check_field dirs taken target ann val plain of Some e \<Rightarrow> Some e
            | None \<Rightarrow> check_schema_body dirs False (case target of Name x \<Rightarrow> x # taken | _ \<Rightarrow> taken) ss)
        | _ \<Rightarrow> reject ''not allowed in an EnvSchema'' [stmt_name s]))"

definition check_class :: "(string \<Rightarrow> string list) \<Rightarrow> bool \<Rightarrow> expr list \<Rightarrow> (string option \<times> expr) list \<Rightarrow> stmt list \<Rightarrow> expr list \<Rightarrow> string list \<Rightarrow> verdict" where
  "check_class dirs toplevel bases kws body decorators type_params =
     (if \<not> toplevel then reject ''class must be declared at module level'' []
      else if decorators \<noteq> [] then reject ''decorator on a class'' []
      else if kws \<noteq> [] then reject ''class keyword arguments'' []
      else if type_params \<noteq> [] then reject ''type parameters on a class'' []
      else if \<not> inherits_env_schema bases then reject ''class must inherit EnvSchema'' []
      else check_schema_body dirs True [] body)"

definition check_import :: "string list \<Rightarrow> import_alias list \<Rightarrow> verdict" where
  "check_import extra names = checks (map (\<lambda>(m, as). if import_allowed extra (Some m) then None else reject ''import not allowed'' [m]) names)"

definition check_import_from :: "string list \<Rightarrow> string option \<Rightarrow> import_alias list \<Rightarrow> nat \<Rightarrow> verdict" where
  "check_import_from extra target names level =
     (if level \<noteq> 0 \<or> \<not> import_allowed extra target then reject ''import not allowed'' (opt_list target)
      else checks (map (\<lambda>(x, as). if has_prefix ''_'' x then reject ''private name'' [x]
        else if is_atlantide_module (the target) \<and> x \<in> set FORBIDDEN_CORE_NAMES then reject ''engine machinery'' [x]
        else None) names))"

text \<open>
  The visitor's state at a statement: whether it stands directly in the module, in a function
  body, in a loop body of that function or of the module.
\<close>

fun check_stmt :: "(string \<Rightarrow> string list) \<Rightarrow> string list \<Rightarrow> bool \<Rightarrow> bool \<Rightarrow> bool \<Rightarrow> stmt \<Rightarrow> verdict" where
  "check_stmt dirs extra outer fn loop (FunctionDef name ps body decorators returns type_params) =
     (if decorators \<noteq> [] then reject ''decorator on a function'' [name]
      else if type_params \<noteq> [] then reject ''type parameters on a function'' [name]
      else checks ([check_params ps, check_allowed ''FunctionDef'', check_args dirs ps] @ map (check_stmt dirs extra False True False) body @
        map (check_expr dirs) (opt_list returns)))"
| "check_stmt dirs extra outer fn loop (Return v) =
     (if \<not> fn then reject ''return outside function'' [] else checks (check_allowed ''Return'' # map (check_expr dirs) (opt_list v)))"
| "check_stmt dirs extra outer fn loop (Assign targets v) = checks (check_allowed ''Assign'' # map (check_expr dirs) targets @ [check_expr dirs v])"
| "check_stmt dirs extra outer fn loop (AnnAssign target ann v plain) =
     checks ([check_allowed ''AnnAssign'', check_expr dirs target, check_expr dirs ann] @ map (check_expr dirs) (opt_list v))"
| "check_stmt dirs extra outer fn loop (AugAssign target op v) =
     checks [check_allowed ''AugAssign'', check_expr dirs target, check_allowed (binop_name op), check_expr dirs v]"
| "check_stmt dirs extra outer fn loop (ExprStmt e) = checks [check_allowed ''Expr'', check_expr dirs e]"
| "check_stmt dirs extra outer fn loop (If t body orelse) =
     checks ([check_allowed ''If'', check_expr dirs t] @ map (check_stmt dirs extra False fn loop) body @ map (check_stmt dirs extra False fn loop) orelse)"
| "check_stmt dirs extra outer fn loop (For target it body orelse) =
     checks ([check_allowed ''For'', check_expr dirs target, check_expr dirs it] @ map (check_stmt dirs extra False fn True) body @
       map (check_stmt dirs extra False fn loop) orelse)"
| "check_stmt dirs extra outer fn loop Pass = check_allowed ''Pass''"
| "check_stmt dirs extra outer fn loop Break = (if \<not> loop then reject ''break outside loop'' [] else check_allowed ''Break'')"
| "check_stmt dirs extra outer fn loop Continue = (if \<not> loop then reject ''continue not properly in loop'' [] else check_allowed ''Continue'')"
| "check_stmt dirs extra outer fn loop (Import names) =
     checks ([check_import extra names, check_allowed ''Import''] @ map (\<lambda>_. check_allowed ''alias'') names)"
| "check_stmt dirs extra outer fn loop (ImportFrom target names level) =
     checks ([check_import_from extra target names level, check_allowed ''ImportFrom''] @ map (\<lambda>_. check_allowed ''alias'') names)"
| "check_stmt dirs extra outer fn loop (With items body) =
     checks (check_allowed ''With'' # map (\<lambda>(c, v). checks ([check_allowed ''withitem'', check_expr dirs c] @ map (check_expr dirs) (opt_list v))) items @
       map (check_stmt dirs extra False fn loop) body)"
| "check_stmt dirs extra outer fn loop (ClassDef name bases kws body decorators type_params) =
     check_class dirs outer bases kws body decorators type_params"
| "check_stmt dirs extra outer fn loop (OtherStmt n es body) =
     checks (check_allowed n # map (check_expr dirs) es @ map (check_stmt dirs extra False fn loop) body)"

definition check_module :: "(string \<Rightarrow> string list) \<Rightarrow> string list \<Rightarrow> stmt list \<Rightarrow> verdict" where
  "check_module dirs extra body = checks (check_allowed ''Module'' # map (check_stmt dirs extra True False False) body)"

text \<open>
  \<open>validate_source\<close>. CPython's parser is a parameter: it gives the module, a syntax error, or gives up
  on deep nesting. So is the recursion limit: \<open>overflows\<close> says that visiting the module raises
  \<open>RecursionError\<close> before any rule is found broken.
\<close>

datatype parsed = Parsed "stmt list" | NotPython string | ParserGaveUp

definition validate_source ::
  "(string \<Rightarrow> string list) \<Rightarrow> (string \<Rightarrow> parsed) \<Rightarrow> (stmt list \<Rightarrow> bool) \<Rightarrow> string list \<Rightarrow> string \<Rightarrow> (aerror, stmt list) result" where
  "validate_source dirs parse overflows extra source = (case parse source of
      NotPython msg \<Rightarrow> Inl (LanguageError ''syntax error'' [msg])
    | ParserGaveUp \<Rightarrow> Inl (LanguageError ''expression nested too deeply'' [])
    | Parsed body \<Rightarrow> if overflows body then Inl (LanguageError ''expression nested too deeply'' [])
        else (case check_module dirs extra body of Some e \<Rightarrow> Inl e | None \<Rightarrow> Inr body))"

subsection \<open>The language, stated\<close>

text \<open>A node that may stand in a configuration, whatever is around it.\<close>

definition node_ok :: "(string \<Rightarrow> string list) \<Rightarrow> expr \<Rightarrow> bool" where
  "node_ok dirs e \<longleftrightarrow> expr_name e \<in> set ALLOWED_NODES \<and> (case e of
     Name x \<Rightarrow> \<not> has_prefix ''__'' x \<and> x \<notin> set FORBIDDEN_NAMES
   | Attribute _ a \<Rightarrow> \<not> has_prefix ''_'' a \<and> a \<notin> set FORBIDDEN_ATTRS \<union> set MODEL_API_ATTRS \<union> set (INTERNAL_ATTRS dirs)
   | BinOp _ op _ \<Rightarrow> op \<noteq> MatMult
   | Lambda ps _ \<Rightarrow> (\<exists>args defaults. ps = Params [] args None [] None defaults)
   | _ \<Rightarrow> True)"

lemma allowed_nodes [simp]:
  "check_allowed ''Constant'' = None" "check_allowed ''Name'' = None" "check_allowed ''JoinedStr'' = None"
  "check_allowed ''FormattedValue'' = None" "check_allowed ''BinOp'' = None" "check_allowed ''UnaryOp'' = None"
  "check_allowed ''BoolOp'' = None" "check_allowed ''Compare'' = None" "check_allowed ''IfExp'' = None" "check_allowed ''Call'' = None"
  "check_allowed ''keyword'' = None" "check_allowed ''Attribute'' = None" "check_allowed ''Subscript'' = None"
  "check_allowed ''Slice'' = None" "check_allowed ''List'' = None" "check_allowed ''Tuple'' = None" "check_allowed ''Set'' = None"
  "check_allowed ''Dict'' = None" "check_allowed ''ListComp'' = None" "check_allowed ''SetComp'' = None"
  "check_allowed ''DictComp'' = None" "check_allowed ''GeneratorExp'' = None" "check_allowed ''comprehension'' = None"
  "check_allowed ''Lambda'' = None" "check_allowed ''Starred'' = None" "check_allowed ''arguments'' = None" "check_allowed ''arg'' = None"
  "check_allowed ''Module'' = None" "check_allowed ''FunctionDef'' = None" "check_allowed ''Return'' = None" "check_allowed ''Assign'' = None"
  "check_allowed ''AnnAssign'' = None" "check_allowed ''AugAssign'' = None" "check_allowed ''Expr'' = None" "check_allowed ''If'' = None"
  "check_allowed ''For'' = None" "check_allowed ''Pass'' = None" "check_allowed ''Break'' = None" "check_allowed ''Continue'' = None"
  "check_allowed ''Import'' = None" "check_allowed ''ImportFrom'' = None" "check_allowed ''alias'' = None" "check_allowed ''With'' = None"
  "check_allowed ''withitem'' = None"
  by (simp_all add: check_allowed_def ALLOWED_NODES_def)

lemma allowed_ops [simp]:
  "check_allowed (binop_name op) = None \<longleftrightarrow> op \<noteq> MatMult" "check_allowed (unaryop_name u) = None" "check_allowed (boolop_name b) = None"
  "check_allowed (cmpop_name c) = None"
  by (cases op, simp_all add: check_allowed_def ALLOWED_NODES_def binop_name_def)
    (cases u, simp_all add: check_allowed_def ALLOWED_NODES_def unaryop_name_def,
     cases b, simp_all add: check_allowed_def ALLOWED_NODES_def boolop_name_def,
     cases c, simp_all add: check_allowed_def ALLOWED_NODES_def cmpop_name_def)

lemma allowed_iff: "check_allowed n = None \<longleftrightarrow> n \<in> set ALLOWED_NODES"
  by (simp add: check_allowed_def)

lemma check_comp_iff: "check_comp dirs g = None \<longleftrightarrow> (\<forall>c \<in> set (comp_children g). check_expr dirs c = None)"
  by (cases g) auto

lemma check_args_iff: "check_args dirs ps = None \<longleftrightarrow> (\<forall>c \<in> set (param_children ps). check_expr dirs c = None)"
  by (cases ps) (auto simp: ball_Un split_beta)

lemma check_params_iff: "check_params ps = None \<longleftrightarrow> (\<exists>args defaults. ps = Params [] args None [] None defaults)"
  by (cases ps) (auto simp: check_params_def)

lemma attribute_rejection_iff:
  "attribute_rejection dirs a = None \<longleftrightarrow> \<not> has_prefix ''_'' a \<and> a \<notin> set FORBIDDEN_ATTRS \<union> set MODEL_API_ATTRS \<union> set (INTERNAL_ATTRS dirs)"
proof -
  have "has_prefix ''__'' a \<Longrightarrow> has_prefix ''_'' a" by (cases a) (auto simp: has_prefix_def)
  then show ?thesis by (auto simp: attribute_rejection_def)
qed

lemma check_name_iff: "check_name x = None \<longleftrightarrow> \<not> has_prefix ''__'' x \<and> x \<notin> set FORBIDDEN_NAMES"
  by (simp add: check_name_def)

lemmas check_iffs = check_comp_iff check_args_iff check_params_iff attribute_rejection_iff check_name_iff

lemma node_ok_allowed:
  "node_ok dirs e \<longleftrightarrow> check_allowed (expr_name e) = None \<and> (case e of Name x \<Rightarrow> check_name x = None
     | Attribute _ a \<Rightarrow> attribute_rejection dirs a = None | BinOp _ op _ \<Rightarrow> op \<noteq> MatMult | Lambda ps _ \<Rightarrow> check_params ps = None | _ \<Rightarrow> True)"
  unfolding node_ok_def allowed_iff check_iffs by (simp split: expr.splits)

lemma check_expr_step: "check_expr dirs e = None \<longleftrightarrow> node_ok dirs e \<and> (\<forall>c \<in> set (children_of e). check_expr dirs c = None)"
  unfolding node_ok_allowed
  by (cases e) (simp_all add: expr_name_def check_comp_iff check_args_iff ball_Un split_beta conj_ac)

lemma check_expr_iff: "check_expr dirs e = None \<longleftrightarrow> (\<forall>x \<in> set (subexprs e). node_ok dirs x)"
proof (induction e rule: subexprs.induct)
  case (1 e)
  then show ?case unfolding check_expr_step [of dirs e] subexprs.simps [of e] by auto
qed

text \<open>The statements directly in a statement, and the expressions the visitor checks in it.\<close>

fun stmt_children :: "stmt \<Rightarrow> stmt list" where
  "stmt_children (FunctionDef name ps body decorators returns type_params) = body"
| "stmt_children (If t body orelse) = body @ orelse"
| "stmt_children (For target it body orelse) = body @ orelse"
| "stmt_children (With items body) = body"
| "stmt_children (OtherStmt n es body) = body"
| "stmt_children s = []"

fun field_values :: "stmt list \<Rightarrow> expr list" where
  "field_values [] = []"
| "field_values (AnnAssign target ann v plain # ss) = opt_list v @ field_values ss"
| "field_values (s # ss) = field_values ss"

fun stmt_exprs :: "stmt \<Rightarrow> expr list" where
  "stmt_exprs (FunctionDef name ps body decorators returns type_params) = param_children ps @ opt_list returns"
| "stmt_exprs (Return v) = opt_list v"
| "stmt_exprs (Assign targets v) = targets @ [v]"
| "stmt_exprs (AnnAssign target ann v plain) = target # ann # opt_list v"
| "stmt_exprs (AugAssign target op v) = [target, v]"
| "stmt_exprs (ExprStmt e) = [e]"
| "stmt_exprs (If t body orelse) = [t]"
| "stmt_exprs (For target it body orelse) = [target, it]"
| "stmt_exprs (With items body) = concat (map (\<lambda>(c, v). c # opt_list v) items)"
| "stmt_exprs (ClassDef name bases kws body decorators type_params) = field_values body"
| "stmt_exprs (OtherStmt n es body) = es"
| "stmt_exprs s = []"

lemma size_stmt_children: "t \<in> set (stmt_children s) \<Longrightarrow> size t < size s"
  by (cases s) (fastforce dest: size_in_list [where f = size])+

function substmts :: "stmt \<Rightarrow> stmt list" where
  "substmts s = s # concat (map substmts (stmt_children s))"
  by auto
termination by (relation "measure size") (auto dest: size_stmt_children)

declare substmts.simps [simp del]

text \<open>A schema's body: fields with distinct public names and supported types.\<close>

fun schema_fields :: "stmt list \<Rightarrow> string list" where
  "schema_fields [] = []"
| "schema_fields (AnnAssign (Name x) ann v plain # ss) = x # schema_fields ss"
| "schema_fields (s # ss) = schema_fields ss"

definition field_ok :: "stmt \<Rightarrow> bool" where
  "field_ok s \<longleftrightarrow> s = Pass \<or> (\<exists>x ann v. s = AnnAssign (Name x) ann v True \<and> \<not> has_prefix ''_'' x \<and>
     x \<notin> set RESERVED_FIELD_NAMES \<and> check_annotation ann = None)"

definition schema_ok :: "stmt list \<Rightarrow> bool" where
  "schema_ok body \<longleftrightarrow> distinct (schema_fields body) \<and> (\<forall>s \<in> set (tl body). field_ok s) \<and>
     (case body of [] \<Rightarrow> True | s # ss \<Rightarrow> field_ok s \<or> is_docstring s)"

definition stmt_rule :: "string list \<Rightarrow> stmt \<Rightarrow> bool" where
  "stmt_rule extra s \<longleftrightarrow> (case s of
     FunctionDef name ps body decorators returns type_params \<Rightarrow>
       decorators = [] \<and> type_params = [] \<and> (\<exists>args defaults. ps = Params [] args None [] None defaults)
   | AugAssign target op v \<Rightarrow> op \<noteq> MatMult
   | Import names \<Rightarrow> \<forall>(m, as) \<in> set names. import_allowed extra (Some m)
   | ImportFrom target names level \<Rightarrow> level = 0 \<and> import_allowed extra target \<and>
       (\<forall>(x, as) \<in> set names. \<not> has_prefix ''_'' x \<and> \<not> (is_atlantide_module (the target) \<and> x \<in> set FORBIDDEN_CORE_NAMES))
   | ClassDef name bases kws body decorators type_params \<Rightarrow>
       decorators = [] \<and> kws = [] \<and> type_params = [] \<and> bases = [Name ''EnvSchema''] \<and> schema_ok body
   | OtherStmt n es body \<Rightarrow> n \<in> set ALLOWED_NODES
   | _ \<Rightarrow> True)"

text \<open>Python's rule for jumps, and that classes stand directly in the module.\<close>

fun control_ok :: "bool \<Rightarrow> bool \<Rightarrow> stmt \<Rightarrow> bool" where
  "control_ok fn loop (FunctionDef name ps body decorators returns type_params) = list_all (control_ok True False) body"
| "control_ok fn loop (Return v) = fn"
| "control_ok fn loop Break = loop"
| "control_ok fn loop Continue = loop"
| "control_ok fn loop (If t body orelse) = (list_all (control_ok fn loop) body \<and> list_all (control_ok fn loop) orelse)"
| "control_ok fn loop (For target it body orelse) = (list_all (control_ok fn True) body \<and> list_all (control_ok fn loop) orelse)"
| "control_ok fn loop (With items body) = list_all (control_ok fn loop) body"
| "control_ok fn loop (OtherStmt n es body) = list_all (control_ok fn loop) body"
| "control_ok fn loop s = True"

definition is_class :: "stmt \<Rightarrow> bool" where
  "is_class s = (case s of ClassDef _ _ _ _ _ _ \<Rightarrow> True | _ \<Rightarrow> False)"

definition exprs_ok :: "(string \<Rightarrow> string list) \<Rightarrow> stmt \<Rightarrow> bool" where
  "exprs_ok dirs s \<longleftrightarrow> (\<forall>e \<in> set (stmt_exprs s). \<forall>x \<in> set (subexprs e). node_ok dirs x)"

lemma check_exprs: "(\<forall>e \<in> set es. check_expr dirs e = None) \<longleftrightarrow> (\<forall>e \<in> set es. \<forall>x \<in> set (subexprs e). node_ok dirs x)"
  by (simp add: check_expr_iff)

lemma check_field_iff:
  "check_field dirs taken target ann v plain = None \<longleftrightarrow> (\<exists>x. target = Name x \<and> plain \<and> \<not> has_prefix ''_'' x \<and>
     x \<notin> set RESERVED_FIELD_NAMES \<and> x \<notin> set taken \<and> check_annotation ann = None) \<and> (\<forall>e \<in> set (opt_list v). check_expr dirs e = None)"
  by (cases target) (auto simp: check_field_def)

lemma check_schema_body_iff:
  "check_schema_body dirs first taken ss = None \<longleftrightarrow> distinct (schema_fields ss) \<and> set (schema_fields ss) \<inter> set taken = {} \<and>
     (\<forall>s \<in> set (tl ss). field_ok s) \<and> (case ss of [] \<Rightarrow> True | s # r \<Rightarrow> field_ok s \<or> (first \<and> is_docstring s)) \<and>
     (\<forall>e \<in> set (field_values ss). check_expr dirs e = None)"
proof (induction dirs first taken ss rule: check_schema_body.induct)
  case (2 dirs first taken s ss)
  show ?case
  proof (cases "s = Pass \<or> (first \<and> is_docstring s)")
    case True
    then have eqs: "schema_fields (s # ss) = schema_fields ss" "field_values (s # ss) = field_values ss"
        "check_schema_body dirs first taken (s # ss) = check_schema_body dirs False taken ss"
      by (auto simp: is_docstring_def split: stmt.splits)
    have ok: "field_ok s \<or> (first \<and> is_docstring s)" using True by (auto simp: field_ok_def)
    have rest: "(\<forall>s \<in> set ss. field_ok s) \<longleftrightarrow> (\<forall>s \<in> set (tl ss). field_ok s) \<and> (case ss of [] \<Rightarrow> True | s # r \<Rightarrow> field_ok s)"
      by (cases ss) auto
    show ?thesis unfolding eqs using 2(1) [OF True] ok rest by (cases ss) (simp_all del: check_schema_body.simps add: conj_ac)
  next
    case False
    show ?thesis
    proof (cases "\<exists>target ann v plain. s = AnnAssign target ann v plain")
      case True
      then obtain target ann v plain where s: "s = AnnAssign target ann v plain" by blast
      show ?thesis
      proof (cases "check_field dirs taken target ann v plain")
        case None
        then obtain x where x: "target = Name x" "plain" "\<not> has_prefix ''_'' x" "x \<notin> set RESERVED_FIELD_NAMES" "x \<notin> set taken"
            "check_annotation ann = None" "\<forall>e \<in> set (opt_list v). check_expr dirs e = None" by (auto simp: check_field_iff)
        have eqs: "schema_fields (s # ss) = x # schema_fields ss" "field_values (s # ss) = opt_list v @ field_values ss"
            "check_schema_body dirs first taken (s # ss) = check_schema_body dirs False (x # taken) ss" "field_ok s"
          using x s None by (simp_all add: field_ok_def is_docstring_def)
        have rest: "(\<forall>s \<in> set ss. field_ok s) \<longleftrightarrow> (\<forall>s \<in> set (tl ss). field_ok s) \<and> (case ss of [] \<Rightarrow> True | s # r \<Rightarrow> field_ok s)"
          by (cases ss) auto
        have "check_schema_body dirs False (x # taken) ss = None \<longleftrightarrow> distinct (schema_fields ss) \<and> set (schema_fields ss) \<inter> set (x # taken) = {} \<and>
            (\<forall>s \<in> set ss. field_ok s) \<and> (\<forall>e \<in> set (field_values ss). check_expr dirs e = None)"
          using 2(2) [OF False s None] x(1) by (cases ss) (simp_all del: check_schema_body.simps add: conj_ac)
        then show ?thesis unfolding eqs(1-3) using eqs(4) x(5,7) by (simp del: check_schema_body.simps add: ball_Un) blast
      next
        case (Some e)
        have bad: "\<not> (distinct (schema_fields (s # ss)) \<and> set (schema_fields (s # ss)) \<inter> set taken = {} \<and> field_ok s \<and>
            (\<forall>e \<in> set (opt_list v). check_expr dirs e = None))"
        proof
          assume a: "distinct (schema_fields (s # ss)) \<and> set (schema_fields (s # ss)) \<inter> set taken = {} \<and> field_ok s \<and>
            (\<forall>e \<in> set (opt_list v). check_expr dirs e = None)"
          then obtain x where "target = Name x" "plain" "\<not> has_prefix ''_'' x" "x \<notin> set RESERVED_FIELD_NAMES" "check_annotation ann = None"
            using s by (auto simp: field_ok_def)
          then show False using a Some s check_field_iff [of dirs taken target ann v plain] by auto
        qed
        have none: "check_schema_body dirs first taken (s # ss) \<noteq> None" using False s Some by (simp add: is_docstring_def)
        have doc: "\<not> is_docstring s" using s by (simp add: is_docstring_def)
        have vals: "set (opt_list v) \<subseteq> set (field_values (s # ss))" using s by simp
        have "\<not> (distinct (schema_fields (s # ss)) \<and> set (schema_fields (s # ss)) \<inter> set taken = {} \<and>
            (\<forall>s \<in> set (tl (s # ss)). field_ok s) \<and> (field_ok s \<or> (first \<and> is_docstring s)) \<and>
            (\<forall>e \<in> set (field_values (s # ss)). check_expr dirs e = None))" using bad doc vals by blast
        then show ?thesis using none unfolding list.case by (intro iffI) (blast, blast)
      qed
    next
      case no: False
      then have "check_schema_body dirs first taken (s # ss) \<noteq> None" using False by (cases s) auto
      moreover have "\<not> field_ok s" using no False by (auto simp: field_ok_def)
      ultimately show ?thesis using False by auto
    qed
  qed
qed simp

definition tree_ok :: "(string \<Rightarrow> string list) \<Rightarrow> string list \<Rightarrow> stmt \<Rightarrow> bool" where
  "tree_ok dirs extra s \<longleftrightarrow> (\<forall>t \<in> set (substmts s). stmt_rule extra t \<and> exprs_ok dirs t)"

definition no_class :: "stmt \<Rightarrow> bool" where
  "no_class s \<longleftrightarrow> (\<forall>t \<in> set (substmts s). \<not> is_class t)"

lemma tree_ok_step: "tree_ok dirs extra s \<longleftrightarrow> stmt_rule extra s \<and> exprs_ok dirs s \<and> (\<forall>c \<in> set (stmt_children s). tree_ok dirs extra c)"
  unfolding tree_ok_def by (subst substmts.simps) auto

lemma no_class_step: "no_class s \<longleftrightarrow> \<not> is_class s \<and> (\<forall>c \<in> set (stmt_children s). no_class c)"
  unfolding no_class_def by (subst substmts.simps) auto

lemma exprs_ok_check: "exprs_ok dirs s \<longleftrightarrow> (\<forall>e \<in> set (stmt_exprs s). check_expr dirs e = None)"
  by (simp add: exprs_ok_def check_expr_iff)

lemma check_import_iff: "check_import extra names = None \<longleftrightarrow> (\<forall>(m, as) \<in> set names. import_allowed extra (Some m))"
  unfolding check_import_def checks_None set_map ball_simps by (auto split: if_splits)

lemma check_import_from_iff:
  "check_import_from extra target names level = None \<longleftrightarrow> level = 0 \<and> import_allowed extra target \<and>
     (\<forall>(x, as) \<in> set names. \<not> has_prefix ''_'' x \<and> \<not> (is_atlantide_module (the target) \<and> x \<in> set FORBIDDEN_CORE_NAMES))"
  unfolding check_import_from_def by (fastforce split: if_splits)

lemma check_class_iff:
  "check_class dirs outer bases kws body decorators type_params = None \<longleftrightarrow> outer \<and> decorators = [] \<and> kws = [] \<and> type_params = [] \<and>
     bases = [Name ''EnvSchema''] \<and> schema_ok body \<and> (\<forall>e \<in> set (field_values body). check_expr dirs e = None)"
  by (auto simp: check_class_def inherits_env_schema_def schema_ok_def check_schema_body_iff split: list.splits)

lemma check_stmt_iff:
  "check_stmt dirs extra outer fn loop s = None \<longleftrightarrow> tree_ok dirs extra s \<and> control_ok fn loop s \<and> (is_class s \<longrightarrow> outer) \<and>
     (\<forall>c \<in> set (stmt_children s). no_class c)"
proof (induction dirs extra outer fn loop s rule: check_stmt.induct)
  case (1 dirs extra outer fn loop name ps body decorators returns type_params)
  have b: "check_stmt dirs extra False True False c = None \<longleftrightarrow> tree_ok dirs extra c \<and> control_ok True False c \<and> no_class c"
    if "c \<in> set body" "decorators = []" "type_params = []" for c
    using 1 that no_class_step [of c] by simp
  show ?case
    using b unfolding tree_ok_step [of dirs extra "FunctionDef name ps body decorators returns type_params"]
    by (auto simp: stmt_rule_def exprs_ok_check is_class_def check_args_iff check_params_iff list_all_iff)
next
  case (7 dirs extra outer fn loop t body orelse)
  have b: "check_stmt dirs extra False fn loop c = None \<longleftrightarrow> tree_ok dirs extra c \<and> control_ok fn loop c \<and> no_class c"
    if "c \<in> set body \<union> set orelse" for c
    using 7 that no_class_step [of c] by auto
  show ?case using b unfolding tree_ok_step [of dirs extra "If t body orelse"]
    by (auto simp: stmt_rule_def exprs_ok_check is_class_def list_all_iff)
next
  case (8 dirs extra outer fn loop target it body orelse)
  have b: "check_stmt dirs extra False fn True c = None \<longleftrightarrow> tree_ok dirs extra c \<and> control_ok fn True c \<and> no_class c" if "c \<in> set body" for c
    using 8 that no_class_step [of c] by simp
  have d: "check_stmt dirs extra False fn loop c = None \<longleftrightarrow> tree_ok dirs extra c \<and> control_ok fn loop c \<and> no_class c" if "c \<in> set orelse" for c
    using 8 that no_class_step [of c] by simp
  show ?case using b d unfolding tree_ok_step [of dirs extra "For target it body orelse"]
    by (auto simp: stmt_rule_def exprs_ok_check is_class_def list_all_iff)
next
  case (14 dirs extra outer fn loop items body)
  have b: "check_stmt dirs extra False fn loop c = None \<longleftrightarrow> tree_ok dirs extra c \<and> control_ok fn loop c \<and> no_class c" if "c \<in> set body" for c
    using 14 that no_class_step [of c] by simp
  show ?case using b unfolding tree_ok_step [of dirs extra "With items body"]
    by (simp add: stmt_rule_def exprs_ok_check is_class_def list_all_iff split_beta ball_Un) blast
next
  case (16 dirs extra outer fn loop n es body)
  have b: "check_stmt dirs extra False fn loop c = None \<longleftrightarrow> tree_ok dirs extra c \<and> control_ok fn loop c \<and> no_class c" if "c \<in> set body" for c
    using 16 that no_class_step [of c] by simp
  show ?case using b unfolding tree_ok_step [of dirs extra "OtherStmt n es body"]
    by (auto simp: stmt_rule_def exprs_ok_check is_class_def list_all_iff allowed_iff)
next
  case (2 dirs extra outer fn loop v)
  show ?case unfolding tree_ok_step [of dirs extra "Return v"] by (auto simp: stmt_rule_def exprs_ok_check is_class_def)
next
  case (3 dirs extra outer fn loop targets v)
  show ?case unfolding tree_ok_step [of dirs extra "Assign targets v"] by (auto simp: stmt_rule_def exprs_ok_check is_class_def)
next
  case (4 dirs extra outer fn loop target ann v plain)
  show ?case unfolding tree_ok_step [of dirs extra "AnnAssign target ann v plain"] by (auto simp: stmt_rule_def exprs_ok_check is_class_def)
next
  case (5 dirs extra outer fn loop target op v)
  show ?case unfolding tree_ok_step [of dirs extra "AugAssign target op v"] by (auto simp: stmt_rule_def exprs_ok_check is_class_def)
next
  case (6 dirs extra outer fn loop e)
  show ?case unfolding tree_ok_step [of dirs extra "ExprStmt e"] by (auto simp: stmt_rule_def exprs_ok_check is_class_def)
next
  case (12 dirs extra outer fn loop names)
  show ?case unfolding tree_ok_step [of dirs extra "Import names"] by (auto simp: stmt_rule_def exprs_ok_check is_class_def check_import_iff)
next
  case (13 dirs extra outer fn loop target names level)
  show ?case unfolding tree_ok_step [of dirs extra "ImportFrom target names level"]
    by (auto simp: stmt_rule_def exprs_ok_check is_class_def check_import_from_iff)
next
  case (15 dirs extra outer fn loop name bases kws body decorators type_params)
  show ?case unfolding tree_ok_step [of dirs extra "ClassDef name bases kws body decorators type_params"]
    by (auto simp: stmt_rule_def exprs_ok_check is_class_def check_class_iff)
qed (simp_all add: tree_ok_step [of _ _ Pass] tree_ok_step [of _ _ Break] tree_ok_step [of _ _ Continue] stmt_rule_def exprs_ok_check is_class_def)

text \<open>Every rejection is a \<open>LanguageError\<close>.\<close>

definition language_only :: "verdict \<Rightarrow> bool" where
  "language_only v \<longleftrightarrow> (case v of None \<Rightarrow> True | Some e \<Rightarrow> (\<exists>what names. e = LanguageError what names))"

lemma language_only_simps [simp]: "language_only None" "language_only (reject what names)"
  by (simp_all add: language_only_def)

lemma language_only_checks [intro]: "(\<And>v. v \<in> set vs \<Longrightarrow> language_only v) \<Longrightarrow> language_only (checks vs)"
  by (induction vs) (auto simp: checks.simps split: option.split)

lemma language_only_rules [simp]:
  "language_only (check_allowed n)" "language_only (check_name x)" "language_only (check_params ps)"
  "language_only (attribute_rejection dirs a)" "language_only (check_annotation e)" "language_only (check_import extra names)"
  "language_only (check_import_from extra target names level)"
  by (simp_all add: check_allowed_def check_name_def check_params_def attribute_rejection_def check_import_def check_import_from_def split: params.split)
    (induction e rule: check_annotation.induct, simp_all, (intro language_only_checks, auto)+)

lemma language_only_expr [simp]:
  "language_only (check_expr dirs e)" "language_only (check_comp dirs g)" "language_only (check_args dirs ps)"
proof (induction dirs e and dirs g and dirs ps rule: check_expr_check_comp_check_args.induct)
qed (force simp del: checks.simps)+

lemma language_only_schema [simp]: "language_only (check_schema_body dirs first taken ss)"
proof (induction dirs first taken ss rule: check_schema_body.induct)
  case (2 dirs first taken s ss)
  have f: "language_only (check_field dirs taken target ann v plain)" for target ann v plain
    by (auto simp: check_field_def simp del: checks.simps split: expr.split intro!: language_only_checks)
  have "\<exists>what names. e = LanguageError what names" if "check_field dirs taken target ann v plain = Some e" for target ann v plain e
    using f [of target ann v plain] that by (simp add: language_only_def)
  then have g: "language_only (Some e)" if "check_field dirs taken target ann v plain = Some e" for target ann v plain e
    using that by (simp add: language_only_def)
  show ?case using 2 by (cases s) (auto split: option.split intro: g)
qed simp

lemma language_only_stmt [simp]: "language_only (check_stmt dirs extra outer fn loop s)"
proof (induction dirs extra outer fn loop s rule: check_stmt.induct)
qed (force simp: check_class_def simp del: checks.simps)+

lemma check_module_iff:
  "check_module dirs extra body = None \<longleftrightarrow>
     (\<forall>s \<in> set body. tree_ok dirs extra s \<and> control_ok False False s \<and> (\<forall>c \<in> set (stmt_children s). no_class c))"
  unfolding check_module_def by (auto simp: check_stmt_iff)

text \<open>
  C37: the validator accepts exactly the language, up to what the interpreter's stack can hold. A
  source passes, and gives the module it parses to, iff it parses, is not nested too deeply to be
  visited, and obeys the rules: every statement in it its own (plain functions without decorators,
  imports of the public surface, schemas of distinct typed public fields), every expression node
  but those of a schema's annotations is one the language has with a name and an attribute it
  allows, every \<open>break\<close>, \<open>continue\<close> and \<open>return\<close> stands in a loop or function of its own, and
  classes stand directly in the module. Any other source fails with a \<open>LanguageError\<close>.
\<close>

theorem validated_modules:
  "(validate_source dirs parse overflows extra source = Inr body \<longleftrightarrow>
     parse source = Parsed body \<and> \<not> overflows body \<and>
     (\<forall>s \<in> set body. (\<forall>t \<in> set (substmts s). stmt_rule extra t \<and> (\<forall>e \<in> set (stmt_exprs t). \<forall>x \<in> set (subexprs e). node_ok dirs x)) \<and>
        control_ok False False s \<and> (\<forall>c \<in> set (stmt_children s). \<forall>t \<in> set (substmts c). \<not> is_class t))) \<and>
   (\<forall>e. validate_source dirs parse overflows extra source = Inl e \<longrightarrow> (\<exists>what names. e = LanguageError what names))"
proof
  have m: "check_module dirs extra body = None \<longleftrightarrow>
     (\<forall>s \<in> set body. (\<forall>t \<in> set (substmts s). stmt_rule extra t \<and> (\<forall>e \<in> set (stmt_exprs t). \<forall>x \<in> set (subexprs e). node_ok dirs x)) \<and>
        control_ok False False s \<and> (\<forall>c \<in> set (stmt_children s). \<forall>t \<in> set (substmts c). \<not> is_class t))"
    unfolding check_module_iff tree_ok_def exprs_ok_def no_class_def by blast
  show "validate_source dirs parse overflows extra source = Inr body \<longleftrightarrow>
     parse source = Parsed body \<and> \<not> overflows body \<and>
     (\<forall>s \<in> set body. (\<forall>t \<in> set (substmts s). stmt_rule extra t \<and> (\<forall>e \<in> set (stmt_exprs t). \<forall>x \<in> set (subexprs e). node_ok dirs x)) \<and>
        control_ok False False s \<and> (\<forall>c \<in> set (stmt_children s). \<forall>t \<in> set (substmts c). \<not> is_class t))"
    unfolding m [symmetric] validate_source_def by (auto split: parsed.splits option.splits)
  show "\<forall>e. validate_source dirs parse overflows extra source = Inl e \<longrightarrow> (\<exists>what names. e = LanguageError what names)"
  proof (intro allI impI)
    fix e
    assume "validate_source dirs parse overflows extra source = Inl e"
    moreover have "language_only (check_module dirs extra b)" for b
      unfolding check_module_def by (rule language_only_checks) auto
    ultimately show "\<exists>what names. e = LanguageError what names"
      unfolding validate_source_def language_only_def by (fastforce split: parsed.splits option.splits if_splits)
  qed
qed

text \<open>A loop that breaks is in the language; the same jump outside it is not, nor is what is nested too deeply.\<close>

theorem validated_modules_witness:
  "validate_source (\<lambda>_. []) (\<lambda>_. Parsed [For (Name ''x'') (EList []) [Break] []]) (\<lambda>_. False) [] ''for'' =
      Inr [For (Name ''x'') (EList []) [Break] []] \<and>
   (\<exists>e. validate_source (\<lambda>_. []) (\<lambda>_. Parsed [If (Name ''x'') [Break] []]) (\<lambda>_. False) [] ''if'' = Inl e) \<and>
   (\<exists>e. validate_source (\<lambda>_. []) (\<lambda>_. Parsed []) (\<lambda>_. True) [] ''1+1'' = Inl e)"
proof -
  have x: "subexprs (Name ''x'') = [Name ''x'']" "subexprs (EList []) = [EList []]" by (subst subexprs.simps, simp)+
  have b: "substmts Break = [Break]" by (subst substmts.simps) simp
  have f: "substmts (For (Name ''x'') (EList []) [Break] []) = [For (Name ''x'') (EList []) [Break] [], Break]"
    by (subst substmts.simps) (simp add: b)
  note rules = stmt_rule_def is_class_def node_ok_def check_name_def has_prefix_def FORBIDDEN_NAMES_def expr_name_def ALLOWED_NODES_def
  have bad: "validate_source (\<lambda>_. []) (\<lambda>_. Parsed [If (Name ''x'') [Break] []]) (\<lambda>_. False) [] ''if'' \<noteq> Inr body" for body
    using validated_modules [of "\<lambda>_. []" "\<lambda>_. Parsed [If (Name ''x'') [Break] []]" "\<lambda>_. False" "[]" "''if''" body] by auto
  have deep: "validate_source (\<lambda>_. []) (\<lambda>_. Parsed []) (\<lambda>_. True) [] ''1+1'' \<noteq> Inr body" for body
    using validated_modules [of "\<lambda>_. []" "\<lambda>_. Parsed []" "\<lambda>_. True" "[]" "''1+1''" body] by simp
  have good: "validate_source (\<lambda>_. []) (\<lambda>_. Parsed [For (Name ''x'') (EList []) [Break] []]) (\<lambda>_. False) [] ''for'' =
      Inr [For (Name ''x'') (EList []) [Break] []]"
    using validated_modules [of "\<lambda>_. []" "\<lambda>_. Parsed [For (Name ''x'') (EList []) [Break] []]" "\<lambda>_. False" "[]" "''for''"
        "[For (Name ''x'') (EList []) [Break] []]"] by (simp add: b f x rules)
  have "\<exists>e. r = Inl e" if "\<And>body. r \<noteq> Inr body" for r :: "(aerror, stmt list) result"
    using that by (cases r) auto
  with bad deep good show ?thesis by blast
qed

end
