(* ===== verification/LangValue.thy ===== *)
theory LangValue
  imports LangAst
begin

text \<open>
  Runtime values of the configuration language and their text (\<open>lang/interp/stability.py\<close>,
  \<open>lang/interp/scope.py\<close>). Lists, dictionaries, sets and user functions are objects in a heap, so
  aliasing and mutation are visible, as are native objects with a state of their own (\<open>HNative\<close>);
  everything else is a value. \<open>VCallback\<close> is a \<open>_NativeCallback\<close>. The elements of a set are listed
  in the order one run would iterate it natively, which depends on the hash seed.
\<close>

datatype val =
    VNone
  | VBool bool
  | VInt int
  | VFloat pyfloat
  | VStr string
  | VBytes string
  | VTuple "val list"
  | VFrozen "val list"
  | VRange int int int
  | VSlice val val val
  | VAddr nat
  | VView string nat
  | VNative string
  | VBound val string
  | VCallback val
  | VObj string nat

text \<open>A \<open>Closure\<close>: its scope is the chain of its frames, innermost first; its body is statements (\<open>def\<close>) or an expression (\<open>lambda\<close>).\<close>

record closure =
  cl_params :: "string list"
  cl_defaults :: "val list"
  cl_body :: "stmt list + expr"
  cl_scope :: "nat list"
  cl_name :: string

datatype hobj = HList "val list" | HDict "(val \<times> val) list" | HSet "val list" | HClosure closure | HNative string "val list"

type_synonym heap = "hobj list"

definition deref :: "heap \<Rightarrow> nat \<Rightarrow> hobj option" where
  "deref h a = (if a < length h then Some (h ! a) else None)"

text \<open>What the platform prints for an object that is no data, its \<open>len\<close> (0 without one),
  \<open>math.log2\<close> of a positive integer, and an integer times a float (\<open>None\<close> for \<open>OverflowError\<close>).\<close>

record platform =
  pf_float :: "pyfloat \<Rightarrow> string"
  pf_text :: "heap \<Rightarrow> val \<Rightarrow> string"
  pf_len :: "val \<Rightarrow> nat"
  pf_log2 :: "int \<Rightarrow> rat"
  pf_times :: "int \<Rightarrow> rat \<Rightarrow> rat option"

subsection \<open>Values as trees\<close>

text \<open>
  A native walk sees a value unfolded: every reference to an object is a subtree. The children
  of a dictionary are its keys, then its values.
\<close>

datatype leaf = LNone | LBool bool | LInt int | LFloat pyfloat | LStr string | LBytes string | LObj string nat

datatype kind = KList | KTuple | KSet | KFrozen | KDict | KView string

datatype tree = TLeaf leaf | TNode kind "tree list"

definition range_len :: "int \<Rightarrow> int \<Rightarrow> int \<Rightarrow> int" where
  "range_len a b c = (if c > 0 then max 0 ((b - a + c - 1) div c) else if c < 0 then max 0 ((a - b - c - 1) div (- c)) else 0)"

definition maxsize :: int where "maxsize = 2 ^ 63 - 1"

definition view_items :: "string \<Rightarrow> (val \<times> val) list \<Rightarrow> val list" where
  "view_items kind m = (if kind = ''dict_keys'' then map fst m else if kind = ''dict_values'' then map snd m
     else map (\<lambda>(k, v). VTuple [k, v]) m)"

definition shape :: "platform \<Rightarrow> heap \<Rightarrow> val \<Rightarrow> leaf + (kind \<times> val list)" where
  "shape pf h v = (case v of
     VNone \<Rightarrow> Inl LNone | VBool b \<Rightarrow> Inl (LBool b) | VInt i \<Rightarrow> Inl (LInt i) | VFloat f \<Rightarrow> Inl (LFloat f)
   | VStr s \<Rightarrow> Inl (LStr s) | VBytes s \<Rightarrow> Inl (LBytes s) | VTuple vs \<Rightarrow> Inr (KTuple, vs) | VFrozen vs \<Rightarrow> Inr (KFrozen, vs)
   | VRange a b c \<Rightarrow> Inl (LObj (pf_text pf h v) (nat (min maxsize (range_len a b c))))
   | VAddr a \<Rightarrow> (case deref h a of
        Some (HList vs) \<Rightarrow> Inr (KList, vs) | Some (HDict m) \<Rightarrow> Inr (KDict, map fst m @ map snd m)
      | Some (HSet vs) \<Rightarrow> Inr (KSet, vs) | _ \<Rightarrow> Inl (LObj (pf_text pf h v) 0))
   | VView kind a \<Rightarrow> (case deref h a of Some (HDict m) \<Rightarrow> Inr (KView kind, view_items kind m) | _ \<Rightarrow> Inr (KView kind, []))
   | VSlice _ _ _ \<Rightarrow> Inl (LObj (pf_text pf h v) 0) | VNative _ \<Rightarrow> Inl (LObj (pf_text pf h v) 0)
   | VBound _ _ \<Rightarrow> Inl (LObj (pf_text pf h v) 0) | VCallback _ \<Rightarrow> Inl (LObj (pf_text pf h v) 0) | VObj _ _ \<Rightarrow> Inl (LObj (pf_text pf h v) (pf_len pf v)))"

fun opt_map :: "('a \<Rightarrow> 'b option) \<Rightarrow> 'a list \<Rightarrow> 'b list option" where
  "opt_map f [] = Some []"
| "opt_map f (x # xs) = (case f x of None \<Rightarrow> None | Some y \<Rightarrow> (case opt_map f xs of None \<Rightarrow> None | Some ys \<Rightarrow> Some (y # ys)))"

text \<open>Unfolding to a depth; \<open>None\<close> where the value is deeper, as one that contains itself always is.\<close>

fun reify :: "platform \<Rightarrow> heap \<Rightarrow> nat \<Rightarrow> val \<Rightarrow> tree option" where
  "reify pf h 0 v = None"
| "reify pf h (Suc n) v = (case shape pf h v of Inl l \<Rightarrow> Some (TLeaf l)
     | Inr (k, vs) \<Rightarrow> (case opt_map (reify pf h n) vs of None \<Rightarrow> None | Some ts \<Rightarrow> Some (TNode k ts)))"

lemma opt_map_Some_iff: "opt_map f xs = Some ys \<longleftrightarrow> list_all2 (\<lambda>x y. f x = Some y) xs ys"
proof (induction xs arbitrary: ys)
  case (Cons x xs)
  note Cons_IH = Cons.IH
  show ?case
  proof (cases ys)
    case (Cons y zs)
    show ?thesis unfolding Cons list.rel_inject by (auto simp flip: Cons_IH split: option.splits)
  qed (auto split: option.splits)
qed auto

lemma opt_map_append:
  "opt_map f (xs @ ys) = (case opt_map f xs of None \<Rightarrow> None | Some as \<Rightarrow> (case opt_map f ys of None \<Rightarrow> None | Some bs \<Rightarrow> Some (as @ bs)))"
  by (induction xs) (auto split: option.splits)

lemma opt_map_rev: "opt_map f xs = Some ys \<Longrightarrow> opt_map f (rev xs) = Some (rev ys)"
  by (simp add: opt_map_Some_iff list_all2_rev)

lemma reify_mono: "reify pf h n v = Some t \<Longrightarrow> n \<le> m \<Longrightarrow> reify pf h m v = Some t"
proof (induction n arbitrary: m v t)
  case (Suc n)
  then obtain m' where m: "m = Suc m'" "n \<le> m'" by (cases m) auto
  show ?case
  proof (cases "shape pf h v")
    case (Inr kv)
    obtain k vs where kv: "kv = (k, vs)" by (cases kv)
    then obtain ts where ts: "opt_map (reify pf h n) vs = Some ts" "t = TNode k ts"
      using Suc.prems(1) Inr by (auto split: option.splits)
    have "opt_map (reify pf h m') vs = Some ts"
      using ts(1) unfolding opt_map_Some_iff by (rule list_all2_mono) (rule Suc.IH [OF _ m(2)])
    then show ?thesis using Inr kv ts m by simp
  qed (use Suc.prems m in simp)
qed simp

lemma reify_unique: "reify pf h n v = Some t \<Longrightarrow> reify pf h m v = Some u \<Longrightarrow> t = u"
  using reify_mono [of pf h n v t "max n m"] reify_mono [of pf h m v u "max n m"] by simp

subsection \<open>Text\<close>

text \<open>\<open>repr\<close> of a string: the quote it prefers, and the escapes.\<close>

definition printable :: "nat \<Rightarrow> bool" where
  "printable n \<longleftrightarrow> (32 \<le> n \<and> n < 127) \<or> (161 \<le> n \<and> n \<noteq> 173)"

definition repr_char :: "(nat \<Rightarrow> bool) \<Rightarrow> char \<Rightarrow> char \<Rightarrow> string" where
  "repr_char plain quote c = (let n = (of_char c :: nat) in
     if c = quote \<or> n = 92 then [CHR 0x5C, c]
     else if n = 9 then [CHR 0x5C, CHR ''t''] else if n = 10 then [CHR 0x5C, CHR ''n''] else if n = 13 then [CHR 0x5C, CHR ''r'']
     else if plain n then [c] else [CHR 0x5C, CHR ''x'', hex_char (n div 16), hex_char (n mod 16)])"

definition quoted :: "(nat \<Rightarrow> bool) \<Rightarrow> string \<Rightarrow> string" where
  "quoted plain s = (let quote = (if CHR 0x27 \<in> set s \<and> CHR 0x22 \<notin> set s then CHR 0x22 else CHR 0x27)
     in quote # concat (map (repr_char plain quote) s) @ [quote])"

definition str_repr :: "string \<Rightarrow> string" where
  "str_repr s = quoted printable s"

definition bytes_repr :: "string \<Rightarrow> string" where
  "bytes_repr s = CHR ''b'' # quoted (\<lambda>n. 32 \<le> n \<and> n < 127) s"

definition leaf_repr :: "platform \<Rightarrow> leaf \<Rightarrow> string" where
  "leaf_repr pf l = (case l of LNone \<Rightarrow> ''None'' | LBool b \<Rightarrow> if b then ''True'' else ''False'' | LInt i \<Rightarrow> int_str i
     | LFloat f \<Rightarrow> pf_float pf f | LStr s \<Rightarrow> str_repr s | LBytes s \<Rightarrow> bytes_repr s | LObj text n \<Rightarrow> text)"

text \<open>
  The text of a value in which every set renders its elements in the order of their own text:
  \<open>repr(stable_form(value))\<close>.
\<close>

definition node_repr :: "kind \<Rightarrow> string list \<Rightarrow> string" where
  "node_repr k texts = (case k of
     KList \<Rightarrow> ''['' @ join_with '', '' texts @ '']''
   | KTuple \<Rightarrow> (if length texts = 1 then ''('' @ hd texts @ '',)'' else ''('' @ join_with '', '' texts @ '')'')
   | KDict \<Rightarrow> (let n = length texts div 2 in
       ''{'' @ join_with '', '' (map (\<lambda>(a, b). a @ '': '' @ b) (zip (take n texts) (drop n texts))) @ ''}'')
   | KSet \<Rightarrow> (if texts = [] then ''set()'' else ''{'' @ join_with '', '' (sort texts) @ ''}'')
   | KFrozen \<Rightarrow> (if texts = [] then ''frozenset()'' else ''frozenset({'' @ join_with '', '' (sort texts) @ ''})'')
   | KView kind \<Rightarrow> kind @ ''(['' @ join_with '', '' texts @ ''])'')"

fun stable_text :: "platform \<Rightarrow> tree \<Rightarrow> string" where
  "stable_text pf (TLeaf l) = leaf_repr pf l"
| "stable_text pf (TNode k ts) = node_repr k (map (stable_text pf) ts)"

text \<open>\<open>ADDRESS\<close>: a memory address as default representations print it.\<close>

definition is_hex :: "char \<Rightarrow> bool" where
  "is_hex c = (let n = (of_char c :: nat) in (48 \<le> n \<and> n < 58) \<or> (97 \<le> n \<and> n < 103) \<or> (65 \<le> n \<and> n < 71))"

definition address_here :: "string \<Rightarrow> bool" where
  "address_here s = (take 6 s = '' at 0x'' \<and> takeWhile is_hex (drop 6 s) \<noteq> [] \<and> take 1 (dropWhile is_hex (drop 6 s)) = ''>'')"

fun has_address :: "string \<Rightarrow> bool" where
  "has_address [] = False"
| "has_address (c # s) = (address_here (c # s) \<or> has_address s)"

fun leaves :: "tree \<Rightarrow> leaf list" where
  "leaves (TLeaf l) = [l]"
| "leaves (TNode k ts) = concat (map leaves ts)"

definition unstable :: "tree \<Rightarrow> bool" where
  "unstable t = list_ex (\<lambda>l. case l of LObj text n \<Rightarrow> has_address text | _ \<Rightarrow> False) (leaves t)"

text \<open>The message names the type of the first such element met, which in a set follows the native order; the type is left out here.\<close>

definition render_error :: aerror where
  "render_error = LanguageError ''cannot render as text: its representation depends on memory layout'' []"

definition stable_repr :: "platform \<Rightarrow> tree \<Rightarrow> (aerror, string) result" where
  "stable_repr pf t = (if unstable t then Inl render_error else Inr (stable_text pf t))"

text \<open>\<open>str\<close> of a value: a string is itself.\<close>

definition stable_str :: "platform \<Rightarrow> tree \<Rightarrow> (aerror, string) result" where
  "stable_str pf t = (case t of TLeaf (LStr s) \<Rightarrow> Inr s | _ \<Rightarrow> stable_repr pf t)"

text \<open>Two runs see the same value, but each its own order of every set in it.\<close>

inductive same_value :: "tree \<Rightarrow> tree \<Rightarrow> bool" where
  leaf: "same_value (TLeaf l) (TLeaf l)"
| node: "list_all2 same_value ts us \<Longrightarrow> same_value (TNode k ts) (TNode k us)"
| reordered: "k = KSet \<or> k = KFrozen \<Longrightarrow> mset ts' = mset ts \<Longrightarrow> list_all2 same_value ts' us \<Longrightarrow> same_value (TNode k ts) (TNode k us)"

lemma list_all2_ex: "list_all2 (\<lambda>t u. P t \<longleftrightarrow> P u) ts us \<Longrightarrow> (\<exists>t \<in> set ts. P t) \<longleftrightarrow> (\<exists>u \<in> set us. P u)"
  by (induction rule: list_all2_induct) auto

lemma list_all2_map_eq: "list_all2 (\<lambda>t u. f t = f u) ts us \<Longrightarrow> map f ts = map f us"
  by (induction rule: list_all2_induct) auto

lemma unstable_node: "unstable (TNode k ts) \<longleftrightarrow> (\<exists>t \<in> set ts. unstable t)"
  by (auto simp: unstable_def list_ex_iff)

lemma sort_cong: "mset xs = mset ys \<Longrightarrow> sort xs = sort ys"
  by (metis properties_for_sort mset_sort sorted_sort)

lemma same_value_text:
  assumes "same_value t u"
  shows "stable_text pf t = stable_text pf u \<and> (unstable t \<longleftrightarrow> unstable u)"
  using assms
proof (induction rule: same_value.induct)
  case (node ts us k)
  have "map (stable_text pf) ts = map (stable_text pf) us" by (rule list_all2_map_eq) (rule list_all2_mono [OF node], simp)
  moreover have "(\<exists>t \<in> set ts. unstable t) \<longleftrightarrow> (\<exists>u \<in> set us. unstable u)" by (rule list_all2_ex) (rule list_all2_mono [OF node], simp)
  ultimately show ?case by (simp add: unstable_node)
next
  case (reordered k ts' ts us)
  have "map (stable_text pf) ts' = map (stable_text pf) us" by (rule list_all2_map_eq) (rule list_all2_mono [OF reordered(3)], simp)
  then have m: "mset (map (stable_text pf) ts) = mset (map (stable_text pf) us)" using reordered(2) by (metis mset_map)
  then have s: "sort (map (stable_text pf) ts) = sort (map (stable_text pf) us)" by (rule sort_cong)
  have e: "ts = [] \<longleftrightarrow> us = []" using m by (metis map_is_Nil_conv mset_zero_iff)
  have "(\<exists>t \<in> set ts'. unstable t) \<longleftrightarrow> (\<exists>u \<in> set us. unstable u)" by (rule list_all2_ex) (rule list_all2_mono [OF reordered(3)], simp)
  then have "(\<exists>t \<in> set ts. unstable t) \<longleftrightarrow> (\<exists>u \<in> set us. unstable u)" using reordered(2) by (metis set_mset_mset)
  then show ?case using reordered(1) s e by (auto simp: node_repr_def unstable_node)
qed simp


subsection \<open>The order of a set\<close>

text \<open>
  \<open>_sorted_set\<close>: the elements in the order of their texts; two that render alike raise, as their
  order would be the native one.
\<close>

fun twins :: "string list \<Rightarrow> bool" where
  "twins (a # b # rest) = (a = b \<or> twins (b # rest))"
| "twins _ = False"

definition twin_error :: aerror where
  "twin_error = LanguageError ''set holds distinct elements that render alike'' []"

definition sorted_by_text :: "(string \<times> 'a) list \<Rightarrow> (aerror, 'a list) result" where
  "sorted_by_text keyed = (let ks = sort_key fst keyed in if twins (map fst ks) then Inl twin_error else Inr (map snd ks))"

definition sorted_set :: "platform \<Rightarrow> tree list \<Rightarrow> (aerror, tree list) result" where
  "sorted_set pf ts = rbind (rmap (\<lambda>t. rbind (stable_repr pf t) (\<lambda>s. Inr (s, t))) ts) sorted_by_text"

text \<open>\<open>holds_set\<close>: in a dictionary, list or tuple at any depth.\<close>

fun holds_set :: "tree \<Rightarrow> bool" where
  "holds_set (TLeaf l) = False"
| "holds_set (TNode k ts) = (k \<in> {KSet, KFrozen} \<or> (k \<in> {KDict, KList, KTuple} \<and> list_ex holds_set ts))"

lemma twins_distinct: "sorted xs \<Longrightarrow> twins xs \<longleftrightarrow> \<not> distinct xs"
proof (induction xs rule: twins.induct)
  case (1 a b rest)
  then show ?case by (auto simp: order.antisym)
qed auto

lemma sort_key_map: "map f (sort_key (g \<circ> f) xs) = sort_key g (map f xs)"
proof -
  have ins: "map f (insort_key (\<lambda>a. g (f a)) x ys) = insort_key g (f x) (map f ys)" for x ys by (induction ys) auto
  show ?thesis by (induction xs) (simp_all add: sort_key_def comp_def ins)
qed

lemma rmap_stable_repr:
  "rmap (\<lambda>t. rbind (stable_repr pf t) (\<lambda>s. Inr (s, t))) ts =
    (if \<exists>t \<in> set ts. unstable t then Inl render_error else Inr (map (\<lambda>t. (stable_text pf t, t)) ts))"
  by (induction ts) (auto simp: stable_repr_def)

lemma sorted_set_eq:
  "sorted_set pf ts = (if \<exists>t \<in> set ts. unstable t then Inl render_error
     else if \<not> distinct (map (stable_text pf) ts) then Inl twin_error else Inr (sort_key (stable_text pf) ts))"
proof -
  let ?k = "map (\<lambda>t. (stable_text pf t, t)) ts"
  have "sort_key fst ?k = map (\<lambda>t. (stable_text pf t, t)) (sort_key (stable_text pf) ts)"
    using sort_key_map [of "\<lambda>t. (stable_text pf t, t)" fst ts] by (simp add: comp_def)
  then have s: "map snd (sort_key fst ?k) = sort_key (stable_text pf) ts" by (simp add: comp_def)
  have f: "map fst (sort_key fst ?k) = sort (map (stable_text pf) ts)"
    using sort_key_map [of fst "\<lambda>x. x" ?k] by (simp add: comp_def)
  show ?thesis by (simp add: sorted_set_def rmap_stable_repr sorted_by_text_def f s twins_distinct)
qed

lemma sort_key_eq_on: "\<forall>x \<in> set xs. f x = g x \<Longrightarrow> sort_key f xs = sort_key g xs"
proof -
  have ins: "\<forall>x \<in> set ys. f x = g x \<Longrightarrow> f y = g y \<Longrightarrow> insort_key f y ys = insort_key g y ys" for y ys by (induction ys) auto
  show "\<forall>x \<in> set xs. f x = g x \<Longrightarrow> sort_key f xs = sort_key g xs"
    by (induction xs) (simp_all add: ins)
qed

lemma sort_key_zip:
  assumes "list_all2 R ts us" "\<And>t u. R t u \<Longrightarrow> f t = f u"
  shows "list_all2 R (sort_key f ts) (sort_key f us)"
proof -
  define zs where "zs = zip ts us"
  have z: "\<forall>(t, u) \<in> set zs. R t u" "map fst zs = ts" "map snd zs = us"
    using assms(1) by (auto simp: zs_def list_all2_iff)
  have "map fst (sort_key (f \<circ> fst) zs) = sort_key f ts" "map snd (sort_key (f \<circ> snd) zs) = sort_key f us"
    by (simp_all add: sort_key_map z)
  moreover have "sort_key (f \<circ> snd) zs = sort_key (f \<circ> fst) zs"
    by (rule sort_key_eq_on) (use z(1) assms(2) in fastforce)
  ultimately have "sort_key f ts = map fst (sort_key (f \<circ> fst) zs)" "sort_key f us = map snd (sort_key (f \<circ> fst) zs)" by simp_all
  then show ?thesis using z(1) by (simp add: list_all2_map1 list_all2_map2 list_all2_same case_prod_beta)
qed

text \<open>
  C40: Iterating a set does not depend on the run. Whatever order the hash seed gives the same set
  (and every set inside its elements), sorting yields the same elements in the same order, or
  refuses it in both runs with the same error.
\<close>

theorem set_order_reproducible:
  assumes "same_value (TNode KSet ts) (TNode KSet us)"
  shows "case (sorted_set pf ts, sorted_set pf us) of
    (Inr ts', Inr us') \<Rightarrow> mset ts' = mset ts \<and> list_all2 same_value ts' us' | (Inl e, Inl e') \<Rightarrow> e = e' | _ \<Rightarrow> False"
proof -
  obtain ts' where ts': "mset ts' = mset ts" "list_all2 same_value ts' us"
    using assms by (cases rule: same_value.cases) auto
  note same = same_value_text [where pf = pf]
  have m: "map (stable_text pf) ts' = map (stable_text pf) us" by (rule list_all2_map_eq) (rule list_all2_mono [OF ts'(2)], simp add: same)
  then have d: "distinct (map (stable_text pf) ts) \<longleftrightarrow> distinct (map (stable_text pf) us)"
    using ts'(1) by (metis mset_eq_imp_distinct_iff mset_map)
  have "(\<exists>t \<in> set ts'. unstable t) \<longleftrightarrow> (\<exists>u \<in> set us. unstable u)" by (rule list_all2_ex) (rule list_all2_mono [OF ts'(2)], simp add: same)
  then have e: "(\<exists>t \<in> set ts. unstable t) \<longleftrightarrow> (\<exists>u \<in> set us. unstable u)" using ts'(1) by (metis set_mset_mset)
  have "list_all2 same_value (sort_key (stable_text pf) ts) (sort_key (stable_text pf) us)" if dist: "distinct (map (stable_text pf) ts)"
  proof -
    have "sort_key (stable_text pf) ts = sort_key (stable_text pf) ts'"
      using ts'(1) dist by (intro sort_key_inj_key_eq) (auto simp: distinct_map)
    then show ?thesis using sort_key_zip [OF ts'(2)] same by metis
  qed
  then show ?thesis using d e by (auto simp: sorted_set_eq)
qed

definition bare_platform :: platform where
  "bare_platform = \<lparr>pf_float = (\<lambda>f. ''0.0''), pf_text = (\<lambda>h v. ''<function f at 0x10>''), pf_len = (\<lambda>v. 0), pf_log2 = of_int, pf_times = (\<lambda>r q. Some (of_int r * q))\<rparr>"

text \<open>\<open>{'b', 'a'}\<close> in two orders, and a set of two functions, which no order is known for.\<close>

lemma set_order_reproducible_witness:
  "(\<exists>ts' us'. sorted_set bare_platform [TLeaf (LStr ''b''), TLeaf (LStr ''a'')] = Inr ts' \<and>
      sorted_set bare_platform [TLeaf (LStr ''a''), TLeaf (LStr ''b'')] = Inr us' \<and> list_all2 same_value ts' us') \<and>
    sorted_set bare_platform [TLeaf (LObj ''<function f at 0x1f>'' 0)] = Inl render_error"
proof -
  let ?a = "TLeaf (LStr ''a'')" and ?b = "TLeaf (LStr ''b'')"
  have s: "same_value (TNode KSet [?b, ?a]) (TNode KSet [?a, ?b])"
    by (rule same_value.reordered [where ts' = "[?a, ?b]"]) (simp_all add: same_value.leaf)
  have "sorted_set bare_platform [?a, ?b] = Inr [?a, ?b]"
    by (simp add: sorted_set_eq unstable_def leaf_repr_def str_repr_def quoted_def repr_char_def printable_def sort_key_def Let_def less_eq_list_code less_char_def)
  then show ?thesis using set_order_reproducible [OF s, of bare_platform]
    by (auto split: sum.splits simp: sorted_set_eq unstable_def leaf_repr_def address_here_def is_hex_def)
qed

end
