(* ===== verification/LangCost.thy ===== *)
theory LangCost
  imports LangValue Template "HOL-Library.Word"
begin

unbundle bit_operations_syntax

text \<open>
  Fuel prices (\<open>lang/interp/costs.py\<close>): what one node of evaluation is charged for the native work
  it starts. \<open>limit\<close> is the fuel left; a count stops once it is past that.
\<close>

definition DEFAULT_FUEL :: int where "DEFAULT_FUEL = 5000000"
definition MAX_INT_BITS :: nat where "MAX_INT_BITS = 65536"
definition FREE_CONCAT :: int where "FREE_CONCAT = 1024"
definition OUTPUT_RATE :: int where "OUTPUT_RATE = 16"

definition leaf_len :: "leaf \<Rightarrow> int" where
  "leaf_len l = (case l of LStr s \<Rightarrow> int (length s) | LBytes s \<Rightarrow> int (length s) | LObj t n \<Rightarrow> int n | _ \<Rightarrow> 0)"

definition kids_len :: "kind \<Rightarrow> nat \<Rightarrow> nat" where
  "kids_len k n = (if k = KDict then n div 2 else n)"

definition sized_len :: "platform \<Rightarrow> heap \<Rightarrow> val \<Rightarrow> int" where
  "sized_len pf h v = (case shape pf h v of Inl l \<Rightarrow> leaf_len l | Inr (k, vs) \<Rightarrow> int (kids_len k (length vs)))"

subsection \<open>The deep cost\<close>

text \<open>What the walk charges for one value, and the values it pushes; the last pushed is next.\<close>

definition leaf_cost :: "leaf \<Rightarrow> int" where
  "leaf_cost l = (case l of LStr s \<Rightarrow> 1 + int (length s) div 64 | LBytes s \<Rightarrow> 1 + int (length s) div 64 | _ \<Rightarrow> 1 + leaf_len l)"

definition walk_one :: "platform \<Rightarrow> heap \<Rightarrow> val \<Rightarrow> int \<times> val list" where
  "walk_one pf h v = (case shape pf h v of Inl l \<Rightarrow> (leaf_cost l, []) | Inr (k, vs) \<Rightarrow> (1 + int (kids_len k (length vs)), rev vs))"

lemma leaf_cost_pos: "1 \<le> leaf_cost l"
  by (cases l) (auto simp: leaf_cost_def leaf_len_def)

lemma walk_one_pos: "1 \<le> fst (walk_one pf h v)"
  using leaf_cost_pos by (auto simp: walk_one_def split: sum.splits)

function deep_walk :: "platform \<Rightarrow> heap \<Rightarrow> int \<Rightarrow> val list \<Rightarrow> int \<Rightarrow> int" where
  "deep_walk pf h limit [] acc = acc"
| "deep_walk pf h limit (v # stack) acc =
     (let acc' = acc + fst (walk_one pf h v)
      in if acc' > limit then acc' else deep_walk pf h limit (snd (walk_one pf h v) @ stack) acc')"
  by pat_completeness auto
termination
proof (relation "measure (\<lambda>(pf, h, limit, stack, acc). nat (limit + 1 - acc))")
  fix pf h v limit and stack :: "val list" and acc x :: int
  assume "x = acc + fst (walk_one pf h v)" "\<not> limit < x"
  then show "((pf, h, limit, snd (walk_one pf h v) @ stack, x), pf, h, limit, v # stack, acc)
      \<in> measure (\<lambda>(pf, h, limit, stack, acc). nat (limit + 1 - acc))"
    using walk_one_pos [of pf h v] by simp
qed simp

definition is_nested :: "platform \<Rightarrow> heap \<Rightarrow> val \<Rightarrow> bool" where
  "is_nested pf h v = (case shape pf h v of Inl l \<Rightarrow> False | Inr kvs \<Rightarrow> True)"

definition deep_cost :: "platform \<Rightarrow> heap \<Rightarrow> val \<Rightarrow> int \<Rightarrow> int" where
  "deep_cost pf h v limit = (if \<not> is_nested pf h v then 1 + sized_len pf h v else deep_walk pf h limit [v] 0)"

text \<open>What it should be: every node of the unfolded value once, with its length.\<close>

fun tree_cost :: "tree \<Rightarrow> int" where
  "tree_cost (TLeaf l) = leaf_cost l"
| "tree_cost (TNode k ts) = 1 + int (kids_len k (length ts)) + sum_list (map tree_cost ts)"

lemma tree_cost_pos: "1 \<le> tree_cost t"
proof (induction t)
  case (TNode k ts)
  have "0 \<le> sum_list (map tree_cost ts)" using TNode by (intro sum_list_nonneg) fastforce
  then show ?case by simp
qed (simp add: leaf_cost_pos)

lemma sum_tree_costs: "int (length ts) \<le> sum_list (map tree_cost ts)"
  by (induction ts) (use tree_cost_pos in \<open>auto simp: add_mono\<close>)

lemma walk_one_cost:
  assumes "opt_map (reify pf h n) (snd (walk_one pf h v)) = Some ts"
  shows "\<exists>t. reify pf h (Suc n) v = Some t \<and> tree_cost t = fst (walk_one pf h v) + sum_list (map tree_cost ts)"
proof (cases "shape pf h v")
  case (Inl l)
  then show ?thesis using assms by (auto simp: walk_one_def)
next
  case (Inr kv)
  obtain k vs where kv: "kv = (k, vs)" by (cases kv)
  then have "opt_map (reify pf h n) vs = Some (rev ts)" "length vs = length ts"
    using assms Inr opt_map_rev [of "reify pf h n" "rev vs" ts] by (auto simp: walk_one_def opt_map_Some_iff list_all2_lengthD)
  then show ?thesis using Inr kv by (simp add: walk_one_def rev_map [symmetric])
qed

text \<open>A walk that ends within its limit has seen the whole value: it unfolds, and the count is exact.\<close>

lemma deep_walk_within:
  "deep_walk pf h limit stack acc \<le> limit \<Longrightarrow>
    \<exists>n ts. opt_map (reify pf h n) stack = Some ts \<and> deep_walk pf h limit stack acc = acc + sum_list (map tree_cost ts)"
proof (induction pf h limit stack acc rule: deep_walk.induct)
  case (2 pf h limit v stack acc)
  let ?more = "snd (walk_one pf h v)" and ?acc = "acc + fst (walk_one pf h v)"
  have le: "\<not> limit < ?acc" using 2(2) by (auto simp: Let_def split: if_splits)
  then obtain n ts where n: "opt_map (reify pf h n) (?more @ stack) = Some ts"
      "deep_walk pf h limit (?more @ stack) ?acc = ?acc + sum_list (map tree_cost ts)"
    using 2(1) [OF refl] 2(2) by (auto simp: Let_def)
  then obtain as bs where ts: "opt_map (reify pf h n) ?more = Some as" "opt_map (reify pf h n) stack = Some bs" "ts = as @ bs"
    by (auto simp: opt_map_append split: option.splits)
  obtain t where t: "reify pf h (Suc n) v = Some t" "tree_cost t = fst (walk_one pf h v) + sum_list (map tree_cost as)"
    using walk_one_cost [OF ts(1)] by blast
  have "opt_map (reify pf h (Suc n)) stack = Some bs"
    using ts(2) unfolding opt_map_Some_iff by (rule list_all2_mono) (rule reify_mono, auto)
  then have "opt_map (reify pf h (Suc n)) (v # stack) = Some (t # bs)" using t(1) by (simp del: reify.simps)
  moreover have "deep_walk pf h limit (v # stack) acc = acc + sum_list (map tree_cost (t # bs))"
    using le n(2) t(2) ts(3) by (simp add: Let_def)
  ultimately show ?case by blast
qed (auto intro!: exI [of _ 0])

lemma opt_map_reify_unique: "opt_map (reify pf h n) vs = Some ts \<Longrightarrow> opt_map (reify pf h m) vs = Some us \<Longrightarrow> ts = us"
proof (induction vs arbitrary: ts us)
  case (Cons v vs)
  then show ?case using reify_unique [of pf h n v _ m] by (auto split: option.splits)
qed simp

lemma reify_walk_one:
  assumes "reify pf h n v = Some t"
  shows "\<exists>ts. opt_map (reify pf h n) (snd (walk_one pf h v)) = Some ts \<and> tree_cost t = fst (walk_one pf h v) + sum_list (map tree_cost ts)"
proof (cases n)
  case (Suc m)
  show ?thesis
  proof (cases "shape pf h v")
    case (Inl l)
    then show ?thesis using assms Suc by (auto simp: walk_one_def)
  next
    case (Inr kv)
    obtain k vs where kv: "kv = (k, vs)" by (cases kv)
    then obtain ts where ts: "opt_map (reify pf h m) vs = Some ts" "t = TNode k ts" using assms Suc Inr by (auto split: option.splits)
    have "opt_map (reify pf h n) vs = Some ts"
      using ts(1) unfolding opt_map_Some_iff by (rule list_all2_mono) (rule reify_mono, auto simp: Suc)
    then have "opt_map (reify pf h n) (rev vs) = Some (rev ts)" by (rule opt_map_rev)
    moreover have "length vs = length ts" using ts(1) by (simp add: opt_map_Some_iff list_all2_lengthD)
    ultimately show ?thesis using Inr kv ts(2) by (simp add: walk_one_def rev_map [symmetric])
  qed
qed (use assms in simp)

lemma deep_walk_whole:
  "opt_map (reify pf h n) stack = Some ts \<Longrightarrow> acc + sum_list (map tree_cost ts) \<le> limit \<Longrightarrow>
    deep_walk pf h limit stack acc = acc + sum_list (map tree_cost ts)"
proof (induction pf h limit stack acc arbitrary: ts rule: deep_walk.induct)
  case (2 pf h limit v stack acc)
  let ?acc = "acc + fst (walk_one pf h v)"
  obtain t bs where ts: "reify pf h n v = Some t" "opt_map (reify pf h n) stack = Some bs" "ts = t # bs"
    using 2(2) by (auto split: option.splits)
  obtain as where as: "opt_map (reify pf h n) (snd (walk_one pf h v)) = Some as" "tree_cost t = fst (walk_one pf h v) + sum_list (map tree_cost as)"
    using reify_walk_one [OF ts(1)] by blast
  have nonneg: "0 \<le> sum_list (map tree_cost cs)" for cs using sum_tree_costs [of cs] by linarith
  have le: "\<not> limit < ?acc" using 2(3) as(2) nonneg [of as] nonneg [of bs] ts(3) by simp
  have "deep_walk pf h limit (snd (walk_one pf h v) @ stack) ?acc = ?acc + sum_list (map tree_cost (as @ bs))"
    by (rule 2(1) [OF refl le]) (use as ts 2(3) in \<open>simp_all add: opt_map_append\<close>)
  then show ?case using le as(2) ts(3) by (simp add: Let_def)
qed simp

lemma deep_cost_exact:
  assumes "is_nested pf h v"
  shows "(reify pf h n v = Some t \<longrightarrow> (if tree_cost t \<le> limit then deep_cost pf h v limit = tree_cost t else limit < deep_cost pf h v limit)) \<and>
    ((\<forall>n. reify pf h n v = None) \<longrightarrow> limit < deep_cost pf h v limit)"
proof -
  have d: "deep_cost pf h v limit = deep_walk pf h limit [v] 0" using assms by (simp add: deep_cost_def)
  have within: "\<exists>n u. reify pf h n v = Some u \<and> deep_cost pf h v limit = tree_cost u" if le: "deep_cost pf h v limit \<le> limit"
  proof -
    obtain n ts where "opt_map (reify pf h n) [v] = Some ts" "deep_walk pf h limit [v] 0 = 0 + sum_list (map tree_cost ts)"
      using deep_walk_within [of pf h limit "[v]" 0] le unfolding d by blast
    moreover from this obtain u where "reify pf h n v = Some u" "ts = [u]" by (auto split: option.splits)
    ultimately show ?thesis unfolding d by auto
  qed
  have "deep_cost pf h v limit = tree_cost t" if "reify pf h n v = Some t" "tree_cost t \<le> limit"
    using deep_walk_whole [of pf h n "[v]" "[t]" 0 limit] that d by simp
  moreover have "limit < deep_cost pf h v limit" if "reify pf h n v = Some t" "\<not> tree_cost t \<le> limit"
    using within that reify_unique by (metis not_le)
  moreover have "limit < deep_cost pf h v limit" if "\<forall>n. reify pf h n v = None" using within that by fastforce
  ultimately show ?thesis by auto
qed

text \<open>
  C38: The deep cost counts what a native walk visits. If a nested value unfolds to a finite tree,
  its cost is the tree's, with a shared part once for every reference to it, as soon as that is
  within the limit, and past the limit otherwise; a value that contains itself costs more than
  any limit, so it is refused before it is walked.
\<close>

theorem deep_cost_counts:
  assumes "is_nested pf h v"
  shows "(reify pf h n v = Some t \<longrightarrow> (if tree_cost t \<le> limit then deep_cost pf h v limit = tree_cost t else limit < deep_cost pf h v limit)) \<and>
    ((\<forall>n. reify pf h n v = None) \<longrightarrow> limit < deep_cost pf h v limit)"
  using deep_cost_exact [OF assms] .

text \<open>\<open>x = [[]]; y = [x, x]\<close> is three objects and costs what five nodes cost; \<open>z = [z]\<close> has no end.\<close>

lemma deep_cost_counts_witness:
  "deep_cost bare_platform [HList [], HList [VAddr 0], HList [VAddr 1, VAddr 1]] (VAddr 2) 100 = 9 \<and>
    100 < deep_cost bare_platform [HList [VAddr 0]] (VAddr 0) 100"
proof -
  let ?h = "[HList [], HList [VAddr 0], HList [VAddr 1, VAddr 1]]"
  have n: "is_nested bare_platform ?h (VAddr 2)" "is_nested bare_platform [HList [VAddr 0]] (VAddr 0)"
    by (simp_all add: is_nested_def shape_def deref_def)
  have r: "reify bare_platform ?h 3 (VAddr 2) = Some (TNode KList [TNode KList [TNode KList []], TNode KList [TNode KList []]])"
    by (simp add: shape_def deref_def numeral_eq_Suc)
  have "reify bare_platform [HList [VAddr 0]] n (VAddr 0) = None" for n
    by (induction n) (simp_all add: shape_def deref_def)
  then show ?thesis using deep_cost_counts [OF n(1), of 3 "TNode KList [TNode KList [TNode KList []], TNode KList [TNode KList []]]" 100] deep_cost_counts [OF n(2), of _ _ 100] r
    by (simp add: kids_len_def)
qed

subsection \<open>Native calls\<close>

definition CONSTANT_TIME_BUILTINS :: "string list" where
  "CONSTANT_TIME_BUILTINS = [''len'', ''bool'', ''isinstance'']"

definition CONSTANT_TIME_METHODS :: "string list" where
  "CONSTANT_TIME_METHODS = [''append'', ''get'', ''setdefault'', ''pop'', ''keys'', ''values'', ''items'']"

definition PADDING :: "string list" where
  "PADDING = [''ljust'', ''rjust'', ''center'', ''zfill'']"

text \<open>
  A native callable is a builtin by name, a method of a type as \<open>str.ljust\<close>, or a method bound to
  its receiver.
\<close>

definition fn_name :: "val \<Rightarrow> string" where
  "fn_name f = (case f of VNative n \<Rightarrow> last (rsplit_once CHR ''.'' n) | VBound v m \<Rightarrow> m | _ \<Rightarrow> [])"

definition fn_owner :: "val \<Rightarrow> val option" where
  "fn_owner f = (case f of VBound v m \<Rightarrow> Some v | _ \<Rightarrow> None)"

definition fn_objclass :: "val \<Rightarrow> string" where
  "fn_objclass f = (case f of VNative n \<Rightarrow> if CHR ''.'' \<in> set n then hd (rsplit_once CHR ''.'' n) else [] | _ \<Rightarrow> [])"

definition as_dict :: "heap \<Rightarrow> val \<Rightarrow> (val \<times> val) list option" where
  "as_dict h v = (case v of VAddr a \<Rightarrow> (case deref h a of Some (HDict m) \<Rightarrow> Some m | _ \<Rightarrow> None) | _ \<Rightarrow> None)"

definition is_list_obj :: "heap \<Rightarrow> val \<Rightarrow> bool" where
  "is_list_obj h v = (case v of VAddr a \<Rightarrow> (case deref h a of Some (HList vs) \<Rightarrow> True | _ \<Rightarrow> False) | _ \<Rightarrow> False)"

definition is_set_obj :: "heap \<Rightarrow> val \<Rightarrow> bool" where
  "is_set_obj h v = (case v of VAddr a \<Rightarrow> (case deref h a of Some (HSet vs) \<Rightarrow> True | _ \<Rightarrow> False) | _ \<Rightarrow> False)"

definition as_int :: "val \<Rightarrow> int option" where
  "as_int v = (case v of VInt i \<Rightarrow> Some i | VBool b \<Rightarrow> Some (of_bool b) | _ \<Rightarrow> None)"

definition as_text :: "val \<Rightarrow> string option" where
  "as_text v = (case v of VStr s \<Rightarrow> Some s | VBytes s \<Rightarrow> Some s | _ \<Rightarrow> None)"

definition is_constant_time :: "heap \<Rightarrow> val \<Rightarrow> bool" where
  "is_constant_time h f = (case f of VNative n \<Rightarrow> n \<in> set CONSTANT_TIME_BUILTINS
     | VBound v m \<Rightarrow> (as_dict h v \<noteq> None \<or> is_list_obj h v) \<and> m \<in> set CONSTANT_TIME_METHODS | _ \<Rightarrow> False)"

definition key_cost :: "platform \<Rightarrow> heap \<Rightarrow> val \<Rightarrow> val list \<Rightarrow> int \<Rightarrow> int" where
  "key_cost pf h f args limit = (case (fn_owner f, args) of
     (Some v, VTuple vs # _) \<Rightarrow> if as_dict h v \<noteq> None then deep_cost pf h (VTuple vs) limit else 0
   | (Some v, VFrozen vs # _) \<Rightarrow> if as_dict h v \<noteq> None then deep_cost pf h (VFrozen vs) limit else 0
   | _ \<Rightarrow> 0)"

definition size_cost :: "int \<Rightarrow> int" where
  "size_cost n = (if n > FREE_CONCAT then n div OUTPUT_RATE else 0)"

text \<open>What iterating a sized value yields, as far as its length is asked for.\<close>

definition sized_items :: "heap \<Rightarrow> val \<Rightarrow> val list" where
  "sized_items h v = (case v of VTuple vs \<Rightarrow> vs | VFrozen vs \<Rightarrow> vs | VStr s \<Rightarrow> map (\<lambda>c. VStr [c]) s
     | VAddr a \<Rightarrow> (case deref h a of Some (HList vs) \<Rightarrow> vs | Some (HSet vs) \<Rightarrow> vs | Some (HDict m) \<Rightarrow> map fst m | _ \<Rightarrow> [])
     | VView kind a \<Rightarrow> (case deref h a of Some (HDict m) \<Rightarrow> view_items kind m | _ \<Rightarrow> []) | _ \<Rightarrow> [])"

definition join_size :: "platform \<Rightarrow> heap \<Rightarrow> string \<Rightarrow> val \<Rightarrow> int" where
  "join_size pf h sep items = (let n = sized_len pf h items in if n = 0 \<or> n = maxsize then 0
     else int (length sep) * (n - 1) + sum_list (map (\<lambda>v. case as_text v of Some s \<Rightarrow> int (length s) | None \<Rightarrow> 0) (sized_items h items)))"

definition replace_bound :: "string \<Rightarrow> val \<Rightarrow> val \<Rightarrow> val \<Rightarrow> int" where
  "replace_bound text old new cnt = (case (as_text old, as_text new) of
     (Some a, Some b) \<Rightarrow>
       (let grow = int (length b) - int (length a); n = int (length text)
        in if grow \<le> 0 then n
           else (let matches = (if a \<noteq> [] then n div int (length a) + 1 else n + 1);
                     matches' = (case as_int cnt of Some c \<Rightarrow> if c \<ge> 0 then min matches c else matches | None \<Rightarrow> matches)
                 in n + matches' * grow))
   | _ \<Rightarrow> 0)"

text \<open>\<open>args[i]\<close> if given, else the keyword, else a default.\<close>

definition arg_or :: "val list \<Rightarrow> nat \<Rightarrow> (string \<times> val) list \<Rightarrow> string \<Rightarrow> val \<Rightarrow> val" where
  "arg_or args i kwargs k d = (if i < length args then args ! i else dget kwargs k d)"

definition output_cost :: "platform \<Rightarrow> heap \<Rightarrow> val \<Rightarrow> val list \<Rightarrow> (string \<times> val) list \<Rightarrow> (aerror, int) result" where
  "output_cost pf h f args kwargs =
     (if f = VNative ''sum'' then
        (let start = arg_or args 1 kwargs ''start'' VNone
         in if is_list_obj h start \<or> (case start of VTuple _ \<Rightarrow> True | _ \<Rightarrow> False)
            then Inl (LanguageError ''sum() with a list or tuple start is quadratic'' []) else Inr 0)
      else (let name = fn_name f;
                (owner, args') = (if fn_owner f = None \<and> fn_objclass f \<in> {''str'', ''bytes'', ''int''} \<and> args \<noteq> []
                  then (Some (hd args), tl args) else (fn_owner f, args))
            in Inr (case owner of None \<Rightarrow> 0 | Some v \<Rightarrow>
                 (case as_text v of
                    Some s \<Rightarrow>
                      if name \<in> set PADDING \<and> args' \<noteq> [] \<and> as_int (hd args') \<noteq> None then size_cost (the (as_int (hd args')))
                      else if name = ''join'' \<and> args' \<noteq> [] then size_cost (join_size pf h s (hd args'))
                      else if name = ''replace'' \<and> 2 \<le> length args' then
                        size_cost (replace_bound s (args' ! 0) (args' ! 1) (arg_or args' 2 kwargs ''count'' (VInt (- 1))))
                      else 0
                  | None \<Rightarrow> if as_int v \<noteq> None \<and> name = ''to_bytes'' then
                      (case as_int (arg_or args' 0 kwargs ''length'' (VInt 1)) of Some n \<Rightarrow> size_cost n | None \<Rightarrow> 0) else 0))))"

fun costs_of :: "platform \<Rightarrow> heap \<Rightarrow> int \<Rightarrow> int \<Rightarrow> val list \<Rightarrow> int" where
  "costs_of pf h limit acc [] = acc"
| "costs_of pf h limit acc (v # vs) = (let acc' = acc + deep_cost pf h v (limit - acc)
     in if acc' > limit then acc' else costs_of pf h limit acc' vs)"

definition native_call_cost :: "platform \<Rightarrow> heap \<Rightarrow> val list \<Rightarrow> (string \<times> val) list \<Rightarrow> int \<Rightarrow> val \<Rightarrow> (aerror, int) result" where
  "native_call_cost pf h args kwargs limit f =
     (if is_constant_time h f then Inr (int (length args) + int (length kwargs) + key_cost pf h f args limit)
      else (let n = costs_of pf h limit 0 (args @ map snd kwargs)
            in if n > limit then Inr n else rbind (output_cost pf h f args kwargs) (\<lambda>m. Inr (n + m))))"

subsection \<open>Format widths\<close>

definition spec_int :: "string \<Rightarrow> int" where
  "spec_int digits = (if length digits \<le> 18 then int (digits_value digits) else maxsize)"

fun digit_runs :: "string \<Rightarrow> string \<Rightarrow> string list" where
  "digit_runs run [] = (if run = [] then [] else [run])"
| "digit_runs run (c # s) = (if is_digit c then digit_runs (run @ [c]) s else (if run = [] then [] else [run]) @ digit_runs [] s)"

definition format_cost :: "string \<Rightarrow> int" where
  "format_cost spec = size_cost (sum_list (map spec_int (digit_runs [] spec)))"

text \<open>One printf conversion after its \<open>%\<close>: width, precision, and the rest of the template.\<close>

definition is_alpha :: "char \<Rightarrow> bool" where
  "is_alpha c = (let n = (of_char c :: nat) in (65 \<le> n \<and> n < 91) \<or> (97 \<le> n \<and> n < 123))"

definition star_or_digits :: "string \<Rightarrow> string \<times> string" where
  "star_or_digits s = (if take 1 s = ''*'' then (''*'', drop 1 s) else (takeWhile is_digit s, dropWhile is_digit s))"

definition printf_spec :: "string \<Rightarrow> (string \<times> string \<times> string) option" where
  "printf_spec s0 =
     (let s1 = (if take 1 s0 = ''('' \<and> CHR '')'' \<in> set s0 then drop 1 (dropWhile (\<lambda>c. c \<noteq> CHR '')'') s0) else s0);
          s2 = dropWhile (\<lambda>c. c \<in> set ''-#0 +'') s1;
          (width, s3) = star_or_digits s2;
          (prec, s4) = (if take 1 s3 = ''.'' then star_or_digits (drop 1 s3) else ([], s3));
          conv = (\<lambda>c. is_alpha c \<or> c = CHR ''%'')
      in case s4 of [] \<Rightarrow> None
         | c # s5 \<Rightarrow> if c \<in> set ''hlL'' \<and> s5 \<noteq> [] \<and> conv (hd s5) then Some (width, prec, tl s5)
             else if conv c then Some (width, prec, s5) else None)"

lemma star_or_digits_shorter: "length (snd (star_or_digits s)) \<le> length s"
  by (simp add: star_or_digits_def length_dropWhile_le)

lemma printf_spec_shorter: "printf_spec s = Some (w, p, r) \<Longrightarrow> length r < Suc (length s)"
proof -
  assume a: "printf_spec s = Some (w, p, r)"
  define s1 where "s1 = (if take 1 s = ''('' \<and> CHR '')'' \<in> set s then drop 1 (dropWhile (\<lambda>c. c \<noteq> CHR '')'') s) else s)"
  define s2 where "s2 = dropWhile (\<lambda>c. c \<in> set ''-#0 +'') s1"
  define s3 where "s3 = snd (star_or_digits s2)"
  define s4 where "s4 = (if take 1 s3 = ''.'' then snd (star_or_digits (drop 1 s3)) else s3)"
  have "length s1 \<le> length s" unfolding s1_def using length_dropWhile_le [of "\<lambda>c. c \<noteq> CHR '')''" s] by auto
  moreover have "length s2 \<le> length s1" by (simp add: s2_def length_dropWhile_le)
  moreover have "length s3 \<le> length s2" by (simp add: s3_def star_or_digits_shorter)
  moreover have "length s4 \<le> length s3" unfolding s4_def using star_or_digits_shorter [of "drop 1 s3"] by auto
  moreover have "length r \<le> length s4" using a unfolding printf_spec_def Let_def s1_def [symmetric] s2_def [symmetric] split_beta s3_def [symmetric]
    by (auto simp: s4_def split: list.splits if_splits)
  ultimately show ?thesis by simp
qed

function printf_parts :: "string \<Rightarrow> string list" where
  "printf_parts [] = []"
| "printf_parts (c # s) = (if c \<noteq> CHR ''%'' then printf_parts s
     else (case printf_spec s of None \<Rightarrow> printf_parts s | Some (w, p, r) \<Rightarrow> w # p # printf_parts r))"
  by pat_completeness auto
termination by (relation "measure length") (auto dest: printf_spec_shorter)

definition printf_widths :: "string \<Rightarrow> val \<Rightarrow> int" where
  "printf_widths template values =
     (let candidates = (case values of VTuple vs \<Rightarrow> vs | v \<Rightarrow> [v]);
          star = fold max (map abs (List.map_filter as_int candidates)) 0
      in sum_list (map (\<lambda>part. if part = ''*'' then star else if part = [] then 0 else spec_int part) (printf_parts template)))"


subsection \<open>Integer results\<close>

fun bits_of :: "nat \<Rightarrow> nat" where
  "bits_of n = (if n = 0 then 0 else Suc (bits_of (n div 2)))"

declare bits_of.simps [simp del]

definition bit_length :: "int \<Rightarrow> nat" where
  "bit_length i = bits_of (nat \<bar>i\<bar>)"

text \<open>The operators on two integers; \<open>None\<close> where Python raises or the result is a float.\<close>

definition int_op :: "binop \<Rightarrow> int \<Rightarrow> int \<Rightarrow> int option" where
  "int_op op l r = (case op of
     Add \<Rightarrow> Some (l + r) | Sub \<Rightarrow> Some (l - r) | Mult \<Rightarrow> Some (l * r)
   | FloorDiv \<Rightarrow> (if r = 0 then None else Some (l div r)) | Mod \<Rightarrow> (if r = 0 then None else Some (l mod r))
   | Pow \<Rightarrow> (if r < 0 then None else Some (l ^ nat r))
   | LShift \<Rightarrow> (if r < 0 then None else Some (push_bit (nat r) l)) | RShift \<Rightarrow> (if r < 0 then None else Some (drop_bit (nat r) l))
   | BitOr \<Rightarrow> Some (l OR r) | BitAnd \<Rightarrow> Some (l AND r) | BitXor \<Rightarrow> Some (l XOR r)
   | Div \<Rightarrow> None | MatMult \<Rightarrow> None)"

definition int_result_bits :: "platform \<Rightarrow> binop \<Rightarrow> int \<Rightarrow> int \<Rightarrow> (aerror, int) result" where
  "int_result_bits pf op l r =
     (let lbits = int (bit_length l); rbits = int (bit_length r)
      in case op of
           Mult \<Rightarrow> Inr (lbits + rbits)
         | LShift \<Rightarrow> Inr (lbits + max r 0)
         | Pow \<Rightarrow> if r \<le> 0 \<or> \<bar>l\<bar> \<le> 1 then Inr 1
             else (case pf_times pf r (pf_log2 pf \<bar>l\<bar>) of None \<Rightarrow> Inl (PyValueError ''OverflowError'')
               | Some q \<Rightarrow> Inr ((if q < 0 then \<lceil>q\<rceil> else \<lfloor>q\<rfloor>) + 1))
         | FloorDiv \<Rightarrow> Inr (max lbits rbits) | Mod \<Rightarrow> Inr (max lbits rbits) | RShift \<Rightarrow> Inr (max lbits rbits)
         | _ \<Rightarrow> Inr (max lbits rbits + 1))"

lemma bits_of_le: "bits_of n \<le> k \<longleftrightarrow> n < 2 ^ k"
proof (induction n arbitrary: k rule: bits_of.induct)
  case (1 n)
  show ?case
  proof (cases "n = 0")
    case False
    show ?thesis
    proof (cases k)
      case (Suc j)
      have "bits_of n \<le> k \<longleftrightarrow> n div 2 < 2 ^ j" using 1 [OF False] False Suc by (subst bits_of.simps) simp
      also have "\<dots> \<longleftrightarrow> n < 2 ^ k" using Suc by auto
      finally show ?thesis .
    qed (use False in \<open>simp add: bits_of.simps [of n]\<close>)
  qed (simp add: bits_of.simps)
qed

lemma bit_length_le: "bit_length i \<le> k \<longleftrightarrow> \<bar>i\<bar> < 2 ^ k"
proof -
  have "nat \<bar>i\<bar> < 2 ^ k \<longleftrightarrow> \<bar>i\<bar> < int (2 ^ k)" by linarith
  then show ?thesis by (simp add: bit_length_def bits_of_le)
qed

lemma less_bit_length: "\<bar>i\<bar> < 2 ^ bit_length i"
  using bit_length_le [of i "bit_length i"] by simp

lemma bit_length_max: "\<bar>i\<bar> < 2 ^ max (bit_length i) n" "\<bar>i\<bar> < 2 ^ max n (bit_length i)"
  by (simp_all flip: bit_length_le)

lemma bitwise_range:
  fixes x l r :: int
  assumes "\<bar>l\<bar> < 2 ^ k" "\<bar>r\<bar> < 2 ^ k" "x = l OR r \<or> x = l AND r \<or> x = l XOR r"
  shows "\<bar>x\<bar> < 2 ^ Suc (k :: nat)"
proof -
  have "signed_take_bit k l = l" "signed_take_bit k r = r" using assms(1,2) by (simp_all add: signed_take_bit_int_eq_self_iff abs_less_iff)
  then have b: "bit l (min k n) = bit l n" "bit r (min k n) = bit r n" for n
    using bit_signed_take_bit_iff [of k l n] bit_signed_take_bit_iff [of k r n] by simp_all
  have "bit (signed_take_bit k x) n = bit x n" for n
    using assms(3) by (auto simp: bit_signed_take_bit_iff bit_or_iff bit_and_iff bit_xor_iff b)
  then have "signed_take_bit k x = x" by (intro bit_eqI) simp
  then have "- (2 ^ k) \<le> x \<and> x < 2 ^ k" by (simp add: signed_take_bit_int_eq_self_iff)
  then show ?thesis by auto
qed


lemma abs_div_pos_le: "0 < r \<Longrightarrow> \<bar>l div r\<bar> \<le> \<bar>l\<bar>" for l r :: int
  using zdiv_mono2 [of l 1 r] zdiv_mono2_neg [of l 1 r] pos_imp_zdiv_nonneg_iff [of r l] by (cases "0 \<le> l") auto

lemma abs_div_le: "r \<noteq> 0 \<Longrightarrow> \<bar>l div r\<bar> \<le> \<bar>l\<bar>" for l r :: int
  using abs_div_pos_le [of r l] abs_div_pos_le [of "- r" "- l"] by (cases "0 < r") simp_all

lemma abs_drop_bit_le: "\<bar>drop_bit n l\<bar> \<le> \<bar>l\<bar>" for l :: int
  using abs_div_le [of "2 ^ n" l] by (simp add: drop_bit_eq_div)


text \<open>
  The estimate of a power's length is a product of floats. IEEE doubles keep \<open>math.log2\<close> and the
  product within a relative error of \<open>2 ^ -50\<close>; an estimate within \<open>MAX_INT_BITS\<close> then falls
  short of the true length by at most one bit.
\<close>

definition near :: "real \<Rightarrow> real \<Rightarrow> bool" where
  "near x y \<longleftrightarrow> \<bar>x - y\<bar> \<le> y / 2 ^ 50"

definition float_power :: "platform \<Rightarrow> int \<Rightarrow> int \<Rightarrow> bool" where
  "float_power pf l r \<longleftrightarrow> near (of_rat (pf_log2 pf \<bar>l\<bar>)) (log 2 (of_int \<bar>l\<bar>)) \<and>
     (case pf_times pf r (pf_log2 pf \<bar>l\<bar>) of None \<Rightarrow> True | Some q \<Rightarrow> near (of_rat q) (of_int r * of_rat (pf_log2 pf \<bar>l\<bar>)))"

lemma near_below: "near x y \<Longrightarrow> y * (1 - 1 / 2 ^ 50) \<le> x"
proof -
  assume "near x y"
  then have "y - y / 2 ^ 50 \<le> x" unfolding near_def by linarith
  then show ?thesis by (simp only: right_diff_distrib mult_1_right times_divide_eq_right)
qed

lemma near_product:
  fixes g p q n :: real
  assumes "near g n" "near q (p * g)" "1 \<le> p" and q: "q < 65536"
  shows "p * n < 65537"
proof -
  define c :: real where "c = 1 - 1 / 2 ^ 50"
  have c: "0 \<le> c" "0 < c * c" "65536 < 65537 * (c * c)" by (simp_all add: c_def)
  have "n * c \<le> g" "p * g * c \<le> q" using near_below [OF assms(1)] near_below [OF assms(2)] by (simp_all add: c_def)
  moreover have "p * (n * c) * c \<le> p * g * c" using calculation(1) assms(3) c(1) by (intro mult_right_mono mult_left_mono) auto
  moreover have "p * (n * c) * c = p * n * (c * c)" by simp
  ultimately have "p * n * (c * c) < 65537 * (c * c)" using q c(3) by linarith
  then show ?thesis by (rule mult_right_less_imp_less) (use c(2) in simp)
qed

lemma two_powr_nat: "(2 :: real) powr of_nat k = of_int (2 ^ k)"
  by (simp add: powr_realpow)

lemma power_length:
  assumes "float_power pf l r" "0 < r" "1 < \<bar>l\<bar>" "pf_times pf r (pf_log2 pf \<bar>l\<bar>) = Some q" "\<lfloor>q\<rfloor> + 1 \<le> int MAX_INT_BITS"
  shows "bit_length (l ^ nat r) \<le> MAX_INT_BITS + 1"
proof -
  have "q < of_int (\<lfloor>q\<rfloor> + 1)" by linarith
  also have "\<dots> \<le> of_int (int MAX_INT_BITS)" using assms(5) by (simp only: of_int_le_iff)
  finally have "q < 65536" by (simp add: MAX_INT_BITS_def)
  then have "real_of_rat q < real_of_rat 65536" by (simp only: of_rat_less)
  then have "real_of_rat q < 65536" by simp
  then have e: "of_int r * log 2 (of_int \<bar>l\<bar>) < (65537 :: real)"
    using assms(1-4) by (intro near_product [where g = "of_rat (pf_log2 pf \<bar>l\<bar>)" and q = "of_rat q"]) (auto simp: float_power_def)
  have k: "(65537 :: real) = of_nat (MAX_INT_BITS + 1)" by (simp add: MAX_INT_BITS_def)
  have "real_of_int \<bar>l ^ nat r\<bar> = real_of_int \<bar>l\<bar> ^ nat r" by (simp add: power_abs)
  also have "\<dots> = real_of_int \<bar>l\<bar> powr of_int r" using assms(2,3) by (subst powr_realpow [symmetric]) auto
  also have "\<dots> = 2 powr (of_int r * log 2 (of_int \<bar>l\<bar>))" using assms(3) by (simp add: powr_def log_def)
  also have "\<dots> < 2 powr of_nat (MAX_INT_BITS + 1)" using e [unfolded k] by simp
  also have "\<dots> = real_of_int (2 ^ (MAX_INT_BITS + 1))" by (rule two_powr_nat)
  finally have "\<bar>l ^ nat r\<bar> < 2 ^ (MAX_INT_BITS + 1)" by (simp only: of_int_less_iff)
  then show ?thesis by (simp only: bit_length_le)
qed

text \<open>The bound is right for each operator; for a power, to one bit.\<close>

lemma int_result_bits_bound:
  assumes "int_op op l r = Some x" and bits: "int_result_bits pf op l r = Inr bits" "bits \<le> int MAX_INT_BITS"
    and pow: "op = Pow \<Longrightarrow> 0 < r \<Longrightarrow> 1 < \<bar>l\<bar> \<Longrightarrow> float_power pf l r"
  shows "int (bit_length x) \<le> (if op = Pow then int MAX_INT_BITS + 1 else bits)"
proof -
  let ?L = "bit_length l" and ?R = "bit_length r"
  have lo: "\<bar>l\<bar> < 2 ^ ?L" "\<bar>r\<bar> < 2 ^ ?R" "\<bar>l\<bar> < 2 ^ max ?L ?R" "\<bar>r\<bar> < 2 ^ max ?L ?R"
    by (simp_all flip: bit_length_le)
  have le: "int (bit_length x) \<le> int k" if "\<bar>x\<bar> < 2 ^ k" for k using that by (simp add: bit_length_le)
  have suc: "(2::int) ^ Suc (max ?L ?R) = 2 ^ max ?L ?R + 2 ^ max ?L ?R" by simp
  have bitw: "x = l OR r \<or> x = l AND r \<or> x = l XOR r \<Longrightarrow> int (bit_length x) \<le> int (Suc (max ?L ?R))"
    by (rule le, rule bitwise_range [OF lo(3,4)])
  show ?thesis
  proof (cases op)
    case Add
    then have "\<bar>x\<bar> < 2 ^ Suc (max ?L ?R)" using assms(1) lo(3,4) suc by (auto simp: int_op_def)
    then show ?thesis using Add le [of "Suc (max ?L ?R)"] bits by (simp add: int_result_bits_def of_nat_max)
  next
    case Sub
    then have "\<bar>x\<bar> < 2 ^ Suc (max ?L ?R)" using assms(1) lo(3,4) suc by (auto simp: int_op_def)
    then show ?thesis using Sub le [of "Suc (max ?L ?R)"] bits by (simp add: int_result_bits_def of_nat_max)
  next
    case Mult
    then have "\<bar>x\<bar> < 2 ^ (?L + ?R)"
      using assms(1) mult_strict_mono [OF lo(1,2)] by (auto simp: int_op_def abs_mult power_add)
    then show ?thesis using Mult le [of "?L + ?R"] bits by (simp add: int_result_bits_def)
  next
    case FloorDiv
    then have "\<bar>x\<bar> < 2 ^ max ?L ?R" using assms(1) lo(3) abs_div_le [of r l] by (auto simp: int_op_def split: if_splits)
    then show ?thesis using FloorDiv le [of "max ?L ?R"] bits by (simp add: int_result_bits_def of_nat_max)
  next
    case Mod
    then have "\<bar>x\<bar> \<le> \<bar>r\<bar>" using assms(1) abs_mod_less [of r l] by (auto simp: int_op_def split: if_splits)
    then show ?thesis using Mod le [of "max ?L ?R"] lo(4) bits by (simp add: int_result_bits_def of_nat_max)
  next
    case RShift
    then have "\<bar>x\<bar> < 2 ^ max ?L ?R" using assms(1) lo(3) abs_drop_bit_le [of "nat r" l] by (auto simp: int_op_def split: if_splits)
    then show ?thesis using RShift le [of "max ?L ?R"] bits by (simp add: int_result_bits_def of_nat_max)
  next
    case LShift
    then have "\<bar>x\<bar> < 2 ^ (?L + nat r)" "0 \<le> r"
      using assms(1) lo(1) by (auto simp: int_op_def push_bit_eq_mult abs_mult power_add split: if_splits)
    then show ?thesis using LShift le [of "?L + nat r"] bits by (simp add: int_result_bits_def)
  next
    case Pow
    then have x: "x = l ^ nat r" "0 \<le> r" using assms(1) by (auto simp: int_op_def split: if_splits)
    show ?thesis
    proof (cases "r = 0 \<or> \<bar>l\<bar> \<le> 1")
      case True
      then have "\<bar>x\<bar> \<le> 1" using x by (auto simp: power_abs intro: power_le_one)
      then show ?thesis using Pow le [of 1] by (simp add: MAX_INT_BITS_def)
    next
      case False
      then have big: "0 < r" "1 < \<bar>l\<bar>" using x(2) by auto
      then obtain q where q: "pf_times pf r (pf_log2 pf \<bar>l\<bar>) = Some q" "bits = (if q < 0 then \<lceil>q\<rceil> else \<lfloor>q\<rfloor>) + 1"
        using bits(1) Pow by (auto simp: int_result_bits_def split: option.splits)
      have "\<lfloor>q\<rfloor> + 1 \<le> int MAX_INT_BITS"
      proof (cases "q < 0")
        case True
        then have "\<lfloor>q\<rfloor> < 0" by simp
        then show ?thesis by (simp add: MAX_INT_BITS_def)
      qed (use q bits(2) in simp)
      then show ?thesis using power_length [OF pow [OF Pow big] big q(1)] Pow x(1) by simp
    qed
  qed (use assms(1) bitw bits in \<open>auto simp: int_op_def int_result_bits_def\<close>)
qed

subsection \<open>Operators, comparisons and slices\<close>

definition is_sequence :: "heap \<Rightarrow> val \<Rightarrow> bool" where
  "is_sequence h v = (as_text v \<noteq> None \<or> is_list_obj h v \<or> (case v of VTuple _ \<Rightarrow> True | _ \<Rightarrow> False))"

definition binop_cost :: "platform \<Rightarrow> heap \<Rightarrow> binop \<Rightarrow> val \<Rightarrow> val \<Rightarrow> (aerror, int) result" where
  "binop_cost pf h op l r = (case (as_int l, as_int r) of
     (Some a, Some b) \<Rightarrow>
       rbind (int_result_bits pf op a b) (\<lambda>bits.
         if bits > int MAX_INT_BITS then Inl FuelExhaustedError else Inr (bits div 64))
   | _ \<Rightarrow> Inr
      (if op = Mult then
         (let (sq, cnt) = (if is_sequence h l then (l, r) else (r, l))
          in if is_sequence h sq then (case as_int cnt of Some c \<Rightarrow> sized_len pf h sq * max c 0 | None \<Rightarrow> 0) else 0)
       else if op = Mod \<and> as_text l \<noteq> None then
         sized_len pf h l + printf_widths (the (as_text l)) r div OUTPUT_RATE
       else if op \<in> {Add, Sub, BitOr, BitAnd, BitXor} then
         (let n = sized_len pf h l + sized_len pf h r in if n > FREE_CONCAT then n div 16 else 0)
       else 0))"

text \<open>\<open>bound\<close> doubles from 64, so the third test never decides; it makes the recursion total.\<close>

function smaller_from :: "platform \<Rightarrow> heap \<Rightarrow> int \<Rightarrow> val \<Rightarrow> val \<Rightarrow> int \<Rightarrow> int" where
  "smaller_from pf h limit l r bound =
     (let a = deep_cost pf h l bound; b = deep_cost pf h r bound
      in if a \<le> bound \<or> b \<le> bound \<or> bound > limit \<or> bound \<le> 0 then min a b else smaller_from pf h limit l r (bound * 2))"
  by pat_completeness auto
termination by (relation "measure (\<lambda>(pf, h, limit, l, r, bound). nat (limit + 1 - bound))") auto

declare smaller_from.simps [simp del]

definition smaller_deep_cost :: "platform \<Rightarrow> heap \<Rightarrow> val \<Rightarrow> val \<Rightarrow> int \<Rightarrow> int" where
  "smaller_deep_cost pf h l r limit = smaller_from pf h limit l r 64"

definition compare_cost :: "platform \<Rightarrow> heap \<Rightarrow> cmpop \<Rightarrow> val \<Rightarrow> val \<Rightarrow> int \<Rightarrow> int" where
  "compare_cost pf h op l r limit =
     (let texts = (case (as_text l, as_text r) of (Some a, Some b) \<Rightarrow> Some (int (length a), int (length b)) | _ \<Rightarrow> None)
      in if op \<in> {Is, IsNot} then 0
         else if op \<in> {In, NotIn} then
           (case shape pf h r of
              Inr (k, vs) \<Rightarrow>
                if k \<in> {KList, KTuple, KView ''dict_values''} then min (int (length vs) * deep_cost pf h l limit) (limit + 1)
                else deep_cost pf h l limit
            | Inl _ \<Rightarrow> (case texts of Some (a, b) \<Rightarrow> (a + b) div 64 | None \<Rightarrow> 0))
         else case texts of Some (a, b) \<Rightarrow> min a b div 64
            | None \<Rightarrow> if is_nested pf h l \<and> is_nested pf h r then smaller_deep_cost pf h l r limit else 0)"

text \<open>\<open>slice.indices(n)\<close>; \<open>None\<close> where it raises.\<close>

definition slice_part :: "val \<Rightarrow> int option option" where
  "slice_part v = (case v of VNone \<Rightarrow> Some None | _ \<Rightarrow> map_option Some (as_int v))"

definition slice_indices :: "int \<Rightarrow> val \<Rightarrow> val \<Rightarrow> val \<Rightarrow> (int \<times> int \<times> int) option" where
  "slice_indices n a b c = (case (slice_part a, slice_part b, slice_part c) of
     (Some a', Some b', Some c') \<Rightarrow>
       (let step = (case c' of None \<Rightarrow> 1 | Some s \<Rightarrow> s);
            lower = (if step < 0 then - 1 else 0);
            upper = (if step < 0 then n - 1 else n);
            clamp = (\<lambda>i. if i < 0 then max (i + n) lower else min i upper)
        in if step = 0 then None
           else Some (case a' of None \<Rightarrow> if step < 0 then upper else lower | Some i \<Rightarrow> clamp i,
                      case b' of None \<Rightarrow> if step < 0 then lower else upper | Some i \<Rightarrow> clamp i, step))
   | _ \<Rightarrow> None)"

definition slice_cost :: "platform \<Rightarrow> heap \<Rightarrow> val \<Rightarrow> val \<Rightarrow> int" where
  "slice_cost pf h container key = (case key of
     VSlice a b c \<Rightarrow>
       if \<not> is_sequence h container then 0
       else (case slice_indices (sized_len pf h container) a b c of
           None \<Rightarrow> 0
         | Some (i, j, k) \<Rightarrow> if as_text container \<noteq> None then range_len i j k div 64 else range_len i j k div OUTPUT_RATE)
   | _ \<Rightarrow> 0)"


text \<open>
  C39: how long an integer a binary operator may make. An operation the price admits has a result
  of at most \<open>MAX_INT_BITS\<close> bits, for every operator and whatever the operands' signs, but for a
  power, which may have one bit more; that on a platform whose \<open>math.log2\<close> and float product are
  accurate to \<open>2 ^ -50\<close> at the operands. The unary \<open>~\<close> and \<open>sum()\<close> are priced elsewhere or not at
  all, and may make an integer a few bits longer.
\<close>

theorem int_results_bounded:
  assumes "binop_cost pf h op (VInt l) (VInt r) = Inr c" "int_op op l r = Some x"
    and "op = Pow \<Longrightarrow> 0 < r \<Longrightarrow> 1 < \<bar>l\<bar> \<Longrightarrow> float_power pf l r"
  shows "int (bit_length x) \<le> int MAX_INT_BITS + (if op = Pow then 1 else 0)"
proof -
  obtain bits where bits: "int_result_bits pf op l r = Inr bits" "bits \<le> int MAX_INT_BITS"
    using assms(1) by (auto simp: binop_cost_def as_int_def rbind_Inr_iff split: if_splits)
  then show ?thesis using int_result_bits_bound [OF assms(2) bits assms(3)] by (auto split: if_splits)
qed

text \<open>A product, a power on a platform exact at 2, and a shift that is refused.\<close>

theorem int_results_bounded_witness:
  "int (bit_length (12 * (- 3))) \<le> int MAX_INT_BITS \<and>
   int (bit_length (2 ^ 10)) \<le> int MAX_INT_BITS + 1 \<and> binop_cost bare_platform [] LShift (VInt 1) (VInt 70000) = Inl FuelExhaustedError"
proof -
  let ?pf = "bare_platform\<lparr>pf_log2 := (\<lambda>_. 1)\<rparr>"
  have "binop_cost bare_platform [] Mult (VInt 12) (VInt (- 3)) = Inr 0"
    by (simp add: binop_cost_def as_int_def int_result_bits_def bit_length_def bits_of.simps MAX_INT_BITS_def)
  then have m: "int (bit_length (12 * (- 3))) \<le> int MAX_INT_BITS"
    using int_results_bounded [of bare_platform "[]" Mult 12 "- 3" 0 "- 36"] by (simp add: int_op_def)
  have "binop_cost ?pf [] Pow (VInt 2) (VInt 10) = Inr 0"
    by (simp add: binop_cost_def as_int_def int_result_bits_def bare_platform_def MAX_INT_BITS_def)
  moreover have "float_power ?pf 2 10" by (simp add: float_power_def near_def bare_platform_def)
  ultimately have "int (bit_length (2 ^ 10)) \<le> int MAX_INT_BITS + 1"
    using int_results_bounded [of ?pf "[]" Pow 2 10 0 "2 ^ 10"] by (simp add: int_op_def)
  with m show ?thesis
    by (simp add: binop_cost_def as_int_def int_result_bits_def bit_length_def bits_of.simps MAX_INT_BITS_def)
qed

lemma smaller_from_exact:
  assumes n: "is_nested pf h l" "is_nested pf h r" and t: "reify pf h i l = Some t" "reify pf h j r = Some u" and b: "0 < bound"
  shows "let m = min (tree_cost t) (tree_cost u); c = smaller_from pf h limit l r bound
    in if m \<le> limit then c = m else limit < c"
  using b
proof (induction "nat (limit + 1 - bound)" arbitrary: bound rule: less_induct)
  case less
  note x = deep_cost_exact [OF n(1), of i t bound] deep_cost_exact [OF n(2), of j u bound]
  show ?case
  proof (cases "deep_cost pf h l bound \<le> bound \<or> deep_cost pf h r bound \<le> bound \<or> bound > limit")
    case True
    then show ?thesis using x t less.prems
      by (subst smaller_from.simps) (auto simp: Let_def min_def split: if_splits)
  next
    case False
    then have "smaller_from pf h limit l r bound = smaller_from pf h limit l r (bound * 2)"
      using less.prems by (subst smaller_from.simps) (auto simp: Let_def)
    then show ?thesis using less.hyps [of "bound * 2"] less.prems False by simp
  qed
qed

end
