(* ===== verification/Spec2Isabelle.thy ===== *)
theory Spec2Isabelle
  imports Prelude Worklist NodeId PyValue Markers Canonical IRModel Digraph TopoOrder GraphSelect Schedule Merkle FieldDecl StateModel Changes Ordering Diff Leases MemoryBackend StateConfig Secrets ResourceModel Template Resolve Providers Lowering ArtifactText Applied Aliases ExecProg ExecContext ExecSaga ExecSteps ExecSafety ExecRecovery ExecOutputs ExecRun ExecWhole ExecRuns Refresh Selection Policy SecretAudit Planner PlanSafety EngineLock LockedRun Gate Writer LangAst LangValidate LangValue LangCost
begin

section \<open>Atlantide: desired state, its diff, and the runs that apply it\<close>

text \<open>
  Atlantide is an infrastructure-as-code engine in Python: a configuration declares resources and
  the references between them, the program lowers it to a graph of nodes, compares that graph
  with the recorded state, and applies the difference through providers, writing each step to a
  state backend under a lease. This development models the core of that path and proves what
  makes it correct. File names below are under \<open>src/atlantide\<close>.

  \<^bold>\<open>How the code is modelled.\<close> Python functions are HOL functions; a raise is \<open>Inl\<close> of an error whose
  constructors are the classes of \<open>core/errors.py\<close> and of the language that the code raises or
  catches (\<open>Prelude\<close>). Property values are the datatype \<open>pyval\<close> with Python's equality across
  numeric types (\<open>PyValue\<close>); dictionaries are association lists in insertion order, so that what
  depends on the order is visible, with \<open>wf_dict\<close> for distinct keys. Loops that end for a reason
  other than their shape are \<open>while_option\<close> or fuelled, and proved to end. The asynchronous
  executor is a coroutine: a program over the run's shared state that asks for each call it
  awaits; the calls, answered in any allowed way, are its traces (\<open>ExecProg\<close>), and any number
  of such programs are interleaved by \<open>ExecRun\<close>. Code outside the repository (SHA-256, AES-GCM,
  the file system, pydantic validation, \<open>str.format\<close> of values, providers, the clock) is a
  parameter; a theorem that needs something of it says so in a hypothesis.

  \<^bold>\<open>Parts, in the order of the code.\<close>

  \<^item> \<open>Prelude\<close>, \<open>Worklist\<close>: results, association lists, sorted sets; the two worklist loops, each
    with its contract as a locale (\<open>visit_once\<close>, \<open>push_search\<close>), interpreted in \<open>GraphSelect\<close>,
    \<open>Diff\<close> and \<open>ExecWhole\<close> on the loops of the code.
  \<^item> \<open>NodeId\<close>, \<open>PyValue\<close>, \<open>Markers\<close>, \<open>Canonical\<close> (\<open>core/node_id.py\<close>, \<open>core/_tree.py\<close>,
    \<open>core/types.py\<close>, \<open>core/markers.py\<close>, \<open>ir/canonical.py\<close>): node ids, property values and their
    walks, reference markers, canonical JSON, which two different values never share.
  \<^item> \<open>IRModel\<close>, \<open>Digraph\<close>, \<open>TopoOrder\<close>, \<open>GraphSelect\<close>, \<open>Schedule\<close>, \<open>Merkle\<close> (\<open>ir/\<close>, \<open>graph/\<close>): the IR
    and its stored form, Tarjan's cycle search, the topological order, target closure, forced
    create-before-destroy, the concurrent scheduler as a step relation, input hashes.
  \<^item> \<open>FieldDecl\<close>, \<open>ResourceModel\<close>, \<open>Template\<close>, \<open>Resolve\<close>, \<open>Providers\<close>, \<open>Lowering\<close>, \<open>ArtifactText\<close>,
    \<open>Applied\<close>, \<open>Aliases\<close> (\<open>core/fields.py\<close>, \<open>core/resource.py\<close>, \<open>core/types.py\<close>, \<open>reconcile/resolve.py\<close>,
    \<open>core/registry.py\<close>, \<open>ir/lower.py\<close>, \<open>ir/artifact.py\<close>, \<open>engine/compiler.py\<close>,
    \<open>reconcile/applied.py\<close>, \<open>reconcile/aliases.py\<close>): declarations, resolution of references,
    rebuilding resources from rows, artifacts, the digests of consumed outputs, renames;
    \<open>ArtifactText\<close> what an artifact is once it has been written as JSON and read back.
  \<^item> \<open>StateModel\<close>, \<open>Changes\<close>, \<open>Ordering\<close>, \<open>Diff\<close> (\<open>state/model.py\<close>, \<open>reconcile/changes.py\<close>,
    \<open>reconcile/classify.py\<close>, \<open>reconcile/ordering.py\<close>, \<open>reconcile/guards.py\<close>,
    \<open>reconcile/diff.py\<close>): what a plan decides for each node.
  \<^item> \<open>Leases\<close>, \<open>MemoryBackend\<close>, \<open>StateConfig\<close>, \<open>Secrets\<close> (\<open>state/\<close>, \<open>secrets/\<close>): leases and fencing,
    the memory backend with the interface of a state store as a locale, key material and
    sealing.
  \<^item> \<open>ExecProg\<close>, \<open>ExecContext\<close>, \<open>ExecSaga\<close>, \<open>ExecSteps\<close>, \<open>ExecOutputs\<close>, \<open>ExecRun\<close>, \<open>ExecWhole\<close>
    (\<open>reconcile/executor/\<close>): coroutines and their verification conditions (\<open>safe\<close>, \<open>vcg\<close>), the
    run context, the saga, every step of a run, the commit of outputs, a phase of interleaved
    steps, and the whole run. \<open>ExecSafety\<close> and \<open>ExecRecovery\<close> hold what each step guarantees,
    \<open>ExecRuns\<close> concrete runs; \<open>Refresh\<close> (\<open>reconcile/refresh.py\<close>) what a read reports and folds back.
  \<^item> \<open>Selection\<close>, \<open>Policy\<close>, \<open>SecretAudit\<close>, \<open>Planner\<close>, \<open>PlanSafety\<close> (\<open>engine/selection.py\<close>, \<open>policy/\<close>,
    \<open>engine/policy_eval.py\<close>, \<open>engine/planner.py\<close>): which nodes a plan may touch, policy rules and
    their sources, the steps by which a plan is built, and the invariants every step keeps.
  \<^item> \<open>EngineLock\<close>, \<open>LockedRun\<close> (\<open>engine/engine.py\<close>, \<open>engine/locking.py\<close>): what apply and destroy decide
    before they run, and a run under the lock as a relation over renewals, takeovers, writes and
    the release; \<open>Gate\<close> and \<open>Writer\<close> (\<open>reconcile/writer.py\<close>) the threads between them
    and the store.
  \<^item> \<open>LangAst\<close>, \<open>LangValidate\<close>, \<open>LangValue\<close>, \<open>LangCost\<close> (\<open>lang/\<close>): the syntax trees of a
    configuration, the validator that admits them, the values they evaluate to with their text,
    and what evaluating them costs.

  \<^bold>\<open>What the theorems show.\<close> For the plan: the change of each node is characterised, replaces are
  ordered by least fixed points, a protected node is destroyed by an accepted plan only where the
  plan says it will be judged at apply or where an immutable secret of it was rotated, and a
  converged state plans nothing; the plan an engine builds keeps its guards, its selection and its
  policies. Under the lock, a run puts rows only while its lease stands (its deletes of forgotten rows
  do not ask) and holds no lock once it has finished. For the run: in every interleaving and whatever providers and
  store answer, nothing is created without a row that says so, a replaced resource stays
  tracked, dependencies come first, a phase keeps its bound and does not stall, and after a failed run that
  rolled back everything created is destroyed or reported. For the stores: a lock excludes, a
  write that is refused changes nothing, sealing is inverted by unsealing. For the language: the
  validator accepts exactly the modules it describes that the stack can hold, sets have one order in every run, the price
  of native work is what it visits. The findings are
  theorems about inputs on which the code does not do what it says.

  \<^bold>\<open>Bounds and fuel.\<close> Characters are the 256 of HOL's \<open>char\<close>; \<open>int\<close> is Python's unbounded integer;
  floats are symbolic. A loop modelled by \<open>while_option\<close> is \<open>None\<close> when it does not end; the
  worklists, the cycle search and the diff are proved to be \<open>Some\<close>.

  \<^bold>\<open>Not modelled.\<close> The parser and the node handlers of the configuration language, the command line, the AWS, local and
  random providers, the S3 and SQL backends, component fetching, logging and event records:
  input, output and calls of libraries that are not in the repository. Of the modelled parts,
  wording of messages, progress callbacks and node timeouts (a timeout is a call that raises).
\<close>

end
